(* ===== verification/Prelude.thy ===== *)
theory Prelude
  imports Main "HOL-Library.Word"
begin

unbundle bit_operations_syntax

text \<open>
  Shared vocabulary of the development: bytes and byte strings, Rust slice access
  (\<open>get\<close>, ranges, \<open>starts_with\<close>), saturating \<open>usize\<close> arithmetic, and searches by
  position. A Rust \<open>u8\<close> is an \<open>8 word\<close>, a \<open>Vec<u8>\<close> or \<open>&[u8]\<close> a list of them.
  Offsets are natural numbers: every offset the code forms is bounded by the length of
  a Rust allocation (below \<open>2 ^ 63\<close>), and where an addition can pass \<open>usize::MAX\<close>
  the code saturates, which \<open>sat_add\<close> writes out. Packed offsets, whose high bits
  carry flags, are kept as 64-bit words in the theories that pack them.
\<close>

section \<open>Bytes\<close>

type_synonym byte = "8 word"
type_synonym bytes = "8 word list"

abbreviation LF :: byte where "LF \<equiv> 10"
abbreviation CR :: byte where "CR \<equiv> 13"
abbreviation TAB :: byte where "TAB \<equiv> 9"
abbreviation SPACE :: byte where "SPACE \<equiv> 32"
abbreviation COMMA :: byte where "COMMA \<equiv> 44"
abbreviation DQUOTE :: byte where "DQUOTE \<equiv> 34"
abbreviation SEMICOLON_BYTE :: byte where "SEMICOLON_BYTE \<equiv> 59"
abbreviation PIPE_BYTE :: byte where "PIPE_BYTE \<equiv> 124"
abbreviation BACKSLASH :: byte where "BACKSLASH \<equiv> 92"
abbreviation LETTER_N :: byte where "LETTER_N \<equiv> 78"

text \<open>The UTF-8 byte-order mark, \<open>b"\xEF\xBB\xBF"\<close> in the source.\<close>

abbreviation BOM :: bytes where "BOM \<equiv> [0xEF, 0xBB, 0xBF]"

named_theorems find_simps \<open>the search functions as positions of a predicate\<close>

section \<open>Saturating arithmetic on usize\<close>

definition usize_max :: nat where
  "usize_max = 2 ^ 64 - 1"

definition sat_add :: "nat \<Rightarrow> nat \<Rightarrow> nat" where
  "sat_add a b = min usize_max (a + b)"

definition sat_mul :: "nat \<Rightarrow> nat \<Rightarrow> nat" where
  "sat_mul a b = min usize_max (a * b)"

lemma sat_add_le: "sat_add a b \<le> a + b"
  by (simp add: sat_add_def)

lemma min_sat_add [simp]: "n \<le> usize_max \<Longrightarrow> min n (sat_add a b) = min n (a + b)"
  by (auto simp: sat_add_def min_def)

section \<open>Slices\<close>

text \<open>\<open>xs.get(i)\<close>: the element, or nothing past the end.\<close>

definition get_at :: "'a list \<Rightarrow> nat \<Rightarrow> 'a option" where
  "get_at xs i = (if i < length xs then Some (xs ! i) else None)"

text \<open>\<open>&xs[a..b]\<close> for \<open>a <= b <= xs.len()\<close>, the only ranges the code forms with it.\<close>

definition slice :: "'a list \<Rightarrow> nat \<Rightarrow> nat \<Rightarrow> 'a list" where
  "slice xs a b = take (b - a) (drop a xs)"

text \<open>\<open>xs.get(a..b)\<close>: nothing when the range is inverted or leaves the slice.\<close>

definition get_range :: "'a list \<Rightarrow> nat \<Rightarrow> nat \<Rightarrow> 'a list option" where
  "get_range xs a b = (if a \<le> b \<and> b \<le> length xs then Some (slice xs a b) else None)"

definition starts_with :: "'a list \<Rightarrow> 'a list \<Rightarrow> bool" where
  "starts_with xs ys \<longleftrightarrow> take (length ys) xs = ys"

lemma get_at_Some_iff: "get_at xs i = Some x \<longleftrightarrow> i < length xs \<and> xs ! i = x"
  by (simp add: get_at_def)

lemma get_at_None_iff: "get_at xs i = None \<longleftrightarrow> length xs \<le> i"
  by (simp add: get_at_def)

lemma get_at_append [simp]:
  "get_at (xs @ ys) i = (if i < length xs then get_at xs i else get_at ys (i - length xs))"
  by (auto simp: get_at_def nth_append)

lemma get_at_Cons: "get_at (x # xs) i = (case i of 0 \<Rightarrow> Some x | Suc j \<Rightarrow> get_at xs j)"
  by (auto simp: get_at_def split: nat.splits)

lemma get_at_Nil [simp]: "get_at [] i = None"
  by (simp add: get_at_def)

lemma length_slice [simp]: "length (slice xs a b) = min (b - a) (length xs - a)"
  by (simp add: slice_def)

lemma nth_slice [simp]: "a + i < b \<Longrightarrow> b \<le> length xs \<Longrightarrow> slice xs a b ! i = xs ! (a + i)"
  by (simp add: slice_def)

lemma slice_empty [simp]: "b \<le> a \<Longrightarrow> slice xs a b = []"
  by (simp add: slice_def)

lemma slice_append_left [simp]: "b \<le> length xs \<Longrightarrow> slice (xs @ ys) a b = slice xs a b"
  by (simp add: slice_def)

lemma slice_append_right:
  "length xs \<le> a \<Longrightarrow> slice (xs @ ys) a b = slice ys (a - length xs) (b - length xs)"
  by (simp add: slice_def)

lemma slice_all [simp]: "slice xs 0 (length xs) = xs"
  by (simp add: slice_def)

lemma slice_drop: "slice xs a (length xs) = drop a xs"
  by (simp add: slice_def)

lemma slice_split:
  assumes "a \<le> m" "m \<le> b"
  shows "slice xs a b = slice xs a m @ slice xs m b"
proof -
  have "take (b - a) (drop a xs) = take ((m - a) + (b - m)) (drop a xs)"
    using assms by simp
  also have "\<dots> = take (m - a) (drop a xs) @ take (b - m) (drop (m - a) (drop a xs))"
    by (rule take_add)
  also have "drop (m - a) (drop a xs) = drop m xs" using assms by simp
  finally show ?thesis by (simp add: slice_def)
qed

lemma set_slice_subset: "set (slice xs a b) \<subseteq> set xs"
  unfolding slice_def using set_take_subset set_drop_subset by fastforce

lemma starts_with_append [simp]: "starts_with (ys @ xs) ys"
  by (simp add: starts_with_def)

lemma starts_with_iff: "starts_with xs ys \<longleftrightarrow> (\<exists>zs. xs = ys @ zs)"
  by (metis append_take_drop_id starts_with_append starts_with_def)

lemma starts_with_Nil [simp]: "starts_with xs []"
  by (simp add: starts_with_def)

section \<open>The first position of a predicate\<close>

text \<open>\<open>iter().position(p)\<close>.\<close>

fun position :: "('a \<Rightarrow> bool) \<Rightarrow> 'a list \<Rightarrow> nat option" where
  "position P [] = None"
| "position P (x # xs) = (if P x then Some 0 else map_option Suc (position P xs))"

lemma position_None_iff: "position P xs = None \<longleftrightarrow> (\<forall>x \<in> set xs. \<not> P x)"
  by (induction xs) auto

lemma position_SomeD:
  "position P xs = Some i \<Longrightarrow> i < length xs \<and> P (xs ! i) \<and> (\<forall>j < i. \<not> P (xs ! j))"
proof (induction xs arbitrary: i)
  case (Cons x xs)
  show ?case
  proof (cases "P x")
    case False
    with Cons.prems obtain j where j: "position P xs = Some j" "i = Suc j" by auto
    with Cons.IH [OF j(1)] False show ?thesis by (auto simp: less_Suc_eq_0_disj nth_Cons')
  qed (use Cons.prems in simp)
qed simp

lemma position_SomeI:
  "i < length xs \<Longrightarrow> P (xs ! i) \<Longrightarrow> (\<And>j. j < i \<Longrightarrow> \<not> P (xs ! j)) \<Longrightarrow> position P xs = Some i"
proof (induction xs arbitrary: i)
  case (Cons x xs)
  show ?case
  proof (cases i)
    case 0
    with Cons.prems show ?thesis by simp
  next
    case (Suc j)
    have "\<not> P x" using Cons.prems(3) [of 0] Suc by simp
    moreover have "position P xs = Some j"
      using Cons.prems Suc by (intro Cons.IH) force+
    ultimately show ?thesis using Suc by simp
  qed
qed simp

lemma position_Some_iff:
  "position P xs = Some i \<longleftrightarrow> i < length xs \<and> P (xs ! i) \<and> (\<forall>j < i. \<not> P (xs ! j))"
  using position_SomeD position_SomeI by metis

lemma position_append:
  "position P (xs @ ys) =
     (case position P xs of Some i \<Rightarrow> Some i | None \<Rightarrow> map_option ((+) (length xs)) (position P ys))"
  by (induction xs; cases "position P ys") (auto split: option.splits)

lemma position_less: "position P xs = Some i \<Longrightarrow> i < length xs"
  by (simp add: position_Some_iff)

lemma position_cong: "(\<And>x. x \<in> set xs \<Longrightarrow> P x = Q x) \<Longrightarrow> position P xs = position Q xs"
  by (induction xs) auto

lemma position_skip:
  "(\<forall>x \<in> set xs. \<not> P x) \<Longrightarrow> P y \<Longrightarrow> position P (xs @ y # ys) = Some (length xs)"
  by (simp add: position_append position_None_iff [THEN iffD2])

section \<open>Machine words\<close>

text \<open>\<open>u64::from_le_bytes\<close>, and \<open>u64::from_ne_bytes\<close> on a little-endian host; shorter words are widened.\<close>

fun word_of_bytes :: "bytes \<Rightarrow> 64 word" where
  "word_of_bytes [] = 0"
| "word_of_bytes (b # bs) = ucast b OR push_bit 8 (word_of_bytes bs)"

end
