(* ===== verification/Search.thy ===== *)
theory Search
  imports Prelude
begin

text \<open>
  The byte searches of \<open>coseva_unsafe/src/search.rs\<close>: \<open>find\<close> and its fixed-arity wrappers,
  the 32-byte block search of the AVX2 kernel, counting, and \<open>StructuralBlocks\<close>, the iterator that
  turns a window into per-block bit masks which \<open>next_match\<close> walks with
  \<open>trailing_zeros\<close> and \<open>mask &= mask - 1\<close>. Masks are 32-bit words, as in the code. The vector
  compare and movemask instructions of a block kernel compute what the code's own
  \<open>scalar_block_mask\<close> computes; the model uses that function for every block.
\<close>

section \<open>Searching for one of several bytes\<close>

definition find :: "bytes \<Rightarrow> bytes \<Rightarrow> nat option" where
  "find needles input = position (\<lambda>b. b \<in> set needles) input"

definition find1 :: "byte \<Rightarrow> bytes \<Rightarrow> nat option" where
  "find1 a input = find [a] input"

definition find2 :: "byte \<Rightarrow> byte \<Rightarrow> bytes \<Rightarrow> nat option" where
  "find2 a b input = find [a, b] input"

definition find3 :: "byte \<Rightarrow> byte \<Rightarrow> byte \<Rightarrow> bytes \<Rightarrow> nat option" where
  "find3 a b c input = find [a, b, c] input"

definition find4 :: "byte \<Rightarrow> byte \<Rightarrow> byte \<Rightarrow> byte \<Rightarrow> bytes \<Rightarrow> nat option" where
  "find4 a b c d input = find [a, b, c, d] input"

lemma find1_position [find_simps]: "find1 a = position (\<lambda>x. x = a)"
  by (rule ext) (simp add: find1_def find_def)

lemma find2_position [find_simps]: "find2 a b = position (\<lambda>x. x = a \<or> x = b)"
  by (rule ext) (simp add: find2_def find_def)

lemma find3_position [find_simps]: "find3 a b c = position (\<lambda>x. x = a \<or> x = b \<or> x = c)"
  by (rule ext) (simp add: find3_def find_def)

lemma find4_position [find_simps]:
  "find4 a b c d = position (\<lambda>x. x = a \<or> x = b \<or> x = c \<or> x = d)"
  by (rule ext) (simp add: find4_def find_def)

text \<open>\<open>rfind1\<close> is \<open>rposition\<close>: the last offset holding the needle.\<close>

definition rfind1 :: "byte \<Rightarrow> bytes \<Rightarrow> nat option" where
  "rfind1 needle input =
     map_option (\<lambda>i. length input - 1 - i) (position (\<lambda>b. b = needle) (rev input))"

definition count1_scalar :: "byte \<Rightarrow> bytes \<Rightarrow> nat" where
  "count1_scalar needle input = length (filter (\<lambda>b. b = needle) input)"

section \<open>Bit masks\<close>

definition trailing_zeros :: "32 word \<Rightarrow> nat" where
  "trailing_zeros w = (case position (bit w) [0..<32] of Some i \<Rightarrow> i | None \<Rightarrow> 32)"

definition count_ones :: "32 word \<Rightarrow> nat" where
  "count_ones w = length (filter (bit w) [0..<32])"

definition mask_bits :: "32 word \<Rightarrow> nat list" where
  "mask_bits w = filter (bit w) [0..<32]"

lemma bit_mask_less: "bit (w :: 32 word) n \<Longrightarrow> n < 32"
  using bit_imp_le_length by fastforce

lemma mask_bits_0 [simp]: "mask_bits 0 = []"
  by (simp add: mask_bits_def)

lemma set_mask_bits: "set (mask_bits w) = {n. bit w n}"
  by (auto simp: mask_bits_def bit_mask_less)

lemma ex_bit: "w \<noteq> 0 \<Longrightarrow> \<exists>n < 32. bit (w :: 32 word) n"
  by (metis bit_eqI bit_0_eq bit_mask_less bot_apply bot_bool_def)

lemma trailing_zeros_least:
  assumes "w \<noteq> 0"
  shows "trailing_zeros w < 32" and "bit w (trailing_zeros w)"
    and "\<And>n. n < trailing_zeros w \<Longrightarrow> \<not> bit w n"
proof -
  obtain i where i: "position (bit w) [0..<32] = Some i"
    using ex_bit [OF assms] by (metis atLeastLessThan_iff atLeast_upt lessThan_iff not_None_eq position_None_iff)
  then have "trailing_zeros w = i" by (simp add: trailing_zeros_def)
  moreover have "i < 32 \<and> bit w i \<and> (\<forall>j < i. \<not> bit w j)"
    using position_SomeD [OF i] by force
  ultimately show "trailing_zeros w < 32" "bit w (trailing_zeros w)"
    "\<And>n. n < trailing_zeros w \<Longrightarrow> \<not> bit w n" by auto
qed

text \<open>\<open>mask & (mask - 1)\<close> clears exactly the lowest set bit.\<close>

lemma minus_one_low_bit:
  fixes w :: "32 word"
  assumes k: "bit w k" and low: "\<And>n. n < k \<Longrightarrow> \<not> bit w n"
  shows "w - 1 = unset_bit k w OR mask k"
proof -
  have "unset_bit k w OR push_bit k 1 = w"
    by (rule bit_word_eqI) (use k in \<open>auto simp: bit_simps\<close>)
  moreover have "unset_bit k w + push_bit k 1 = unset_bit k w OR push_bit k 1"
    by (rule disjunctive_add_eq_or, rule bit_word_eqI) (auto simp: bit_simps)
  ultimately have w: "w = unset_bit k w + push_bit k 1" by simp
  have "unset_bit k w + mask k = unset_bit k w OR mask k"
    by (rule disjunctive_add_eq_or, rule bit_word_eqI) (auto simp: bit_simps low)
  moreover have "w - 1 = unset_bit k w + mask k"
    by (subst w) (simp add: mask_eq_exp_minus_1 push_bit_eq_mult)
  ultimately show ?thesis by simp
qed

lemma bit_clear_lowest:
  fixes w :: "32 word"
  assumes "w \<noteq> 0"
  shows "bit (w AND (w - 1)) n \<longleftrightarrow> bit w n \<and> n \<noteq> trailing_zeros w"
proof -
  note tz = trailing_zeros_least [OF assms]
  have "w - 1 = unset_bit (trailing_zeros w) w OR mask (trailing_zeros w)"
    using tz(2,3) by (rule minus_one_low_bit)
  then show ?thesis
    using tz by (auto simp: bit_simps)
qed

lemma filter_upt_split:
  assumes "k < n" "P k" "\<And>i. i < k \<Longrightarrow> \<not> P i"
  shows "filter P [0..<n] = k # filter (\<lambda>i. P i \<and> i \<noteq> k) [0..<n]"
proof -
  have "[0..<n] = [0..<k] @ k # [Suc k..<n]"
    using assms(1) by (metis upt_add_eq_append upt_conv_Cons add.commute le_add_diff_inverse2 less_imp_le_nat zero_le)
  moreover have "filter P [0..<k] = []" "filter (\<lambda>i. P i \<and> i \<noteq> k) [0..<k] = []"
    using assms(3) by (auto simp: filter_empty_conv)
  moreover have "filter (\<lambda>i. P i \<and> i \<noteq> k) [Suc k..<n] = filter P [Suc k..<n]"
    by (rule filter_cong) auto
  ultimately show ?thesis using assms(2) by simp
qed

lemma mask_bits_step:
  assumes "w \<noteq> 0"
  shows "mask_bits w = trailing_zeros w # mask_bits (w AND (w - 1))"
proof -
  note tz = trailing_zeros_least [OF assms]
  have "mask_bits w = trailing_zeros w # filter (\<lambda>i. bit w i \<and> i \<noteq> trailing_zeros w) [0..<32]"
    unfolding mask_bits_def using tz by (rule filter_upt_split)
  moreover have "filter (bit (w AND (w - 1))) [0..<32] =
      filter (\<lambda>i. bit w i \<and> i \<noteq> trailing_zeros w) [0..<32]"
    by (rule filter_cong) (simp_all only: bit_clear_lowest [OF assms])
  ultimately show ?thesis by (simp only: mask_bits_def)
qed

section \<open>Structural blocks\<close>

record structural_block =
  blk_input :: bytes
  blk_start :: nat
  blk_mask :: "32 word"

definition next_offset :: "structural_block \<Rightarrow> (nat \<times> structural_block) option" where
  "next_offset b =
     (if blk_mask b = 0 then None
      else Some (blk_start b + trailing_zeros (blk_mask b),
                 b\<lparr>blk_mask := blk_mask b AND (blk_mask b - 1)\<rparr>))"

definition next_match :: "structural_block \<Rightarrow> ((nat \<times> byte) \<times> structural_block) option" where
  "next_match b =
     (if blk_mask b = 0 then None
      else let relative = trailing_zeros (blk_mask b);
               byte = blk_input b ! (blk_start b + relative)
           in Some ((blk_start b + relative, byte),
                    b\<lparr>blk_mask := blk_mask b AND (blk_mask b - 1)\<rparr>))"

text \<open>The consumers' loop \<open>while let Some(found) = block.next_match()\<close>.\<close>

lemma length_mask_bits_step:
  "w \<noteq> 0 \<Longrightarrow> length (mask_bits (w AND (w - 1))) < length (mask_bits w)"
  by (simp add: mask_bits_step)

function drain_block :: "structural_block \<Rightarrow> (nat \<times> byte) list" where
  "drain_block b =
     (case next_match b of None \<Rightarrow> [] | Some (found, b') \<Rightarrow> found # drain_block b')"
  by pat_completeness auto
termination
  by (relation "measure (\<lambda>b. length (mask_bits (blk_mask b)))")
    (auto simp: next_match_def Let_def length_mask_bits_step split: if_splits)

declare drain_block.simps [simp del]

lemma drain_block_eq:
  "drain_block b =
     map (\<lambda>i. (blk_start b + i, blk_input b ! (blk_start b + i))) (mask_bits (blk_mask b))"
proof (induction b rule: drain_block.induct)
  case (1 b)
  show ?case
  proof (cases "blk_mask b = 0")
    case True
    then show ?thesis by (subst drain_block.simps) (simp add: next_match_def)
  next
    case False
    have "drain_block (b\<lparr>blk_mask := blk_mask b AND (blk_mask b - 1)\<rparr>) =
        map (\<lambda>i. (blk_start b + i, blk_input b ! (blk_start b + i)))
          (mask_bits (blk_mask b AND (blk_mask b - 1)))"
      using False by (subst "1.IH") (auto simp: next_match_def Let_def)
    with False show ?thesis
      by (subst drain_block.simps) (simp add: next_match_def Let_def mask_bits_step [OF False])
  qed
qed

definition STRUCTURAL_BLOCK_BYTES :: nat where
  "STRUCTURAL_BLOCK_BYTES = 32"

fun scalar_block_mask_from :: "nat \<Rightarrow> 32 word \<Rightarrow> bytes \<Rightarrow> byte \<Rightarrow> byte \<Rightarrow> byte \<Rightarrow> 32 word" where
  "scalar_block_mask_from index msk [] first second third = msk"
| "scalar_block_mask_from index msk (b # bs) first second third =
     scalar_block_mask_from (Suc index)
       (msk OR push_bit index (if b = first \<or> b = second \<or> b = third then 1 else 0))
       bs first second third"

definition scalar_block_mask :: "bytes \<Rightarrow> byte \<Rightarrow> byte \<Rightarrow> byte \<Rightarrow> 32 word" where
  "scalar_block_mask input first second third =
     scalar_block_mask_from 0 0 input first second third"

lemma bit_scalar_block_mask_from:
  "bit (scalar_block_mask_from k m xs a b c) n \<longleftrightarrow>
     bit m n \<or> k \<le> n \<and> n < 32 \<and> n - k < length xs \<and> xs ! (n - k) \<in> {a, b, c}"
proof (induction k m xs a b c rule: scalar_block_mask_from.induct)
  case (2 k m x xs a b c)
  have head: "bit (push_bit k (if x = a \<or> x = b \<or> x = c then 1 else 0 :: 32 word)) n
      \<longleftrightarrow> n = k \<and> n < 32 \<and> x \<in> {a, b, c}"
    by (simp add: bit_push_bit_iff bit_1_iff) auto
  show ?case
  proof (cases "k < n")
    case True
    then obtain d where "n = Suc (k + d)" using less_imp_Suc_add by blast
    then show ?thesis using "2.IH" head by (simp add: bit_or_iff)
  next
    case False
    then show ?thesis using "2.IH" head by (cases "n = k") (simp_all add: bit_or_iff)
  qed
qed simp

lemma bit_scalar_block_mask:
  "bit (scalar_block_mask xs a b c) n \<longleftrightarrow> n < 32 \<and> n < length xs \<and> xs ! n \<in> {a, b, c}"
  by (auto simp: scalar_block_mask_def bit_scalar_block_mask_from)

record structural_blocks =
  sb_input :: bytes
  sb_first :: byte
  sb_second :: byte
  sb_third :: byte
  sb_next_block :: nat
  sb_skip_below :: nat

definition blocks_new :: "bytes \<Rightarrow> byte \<Rightarrow> byte \<Rightarrow> byte \<Rightarrow> structural_blocks" where
  "blocks_new input first second third =
     \<lparr>sb_input = input, sb_first = first, sb_second = second, sb_third = third,
      sb_next_block = 0, sb_skip_below = 0\<rparr>"

text \<open>\<open>position & !(STRUCTURAL_BLOCK_BYTES - 1)\<close> rounds down to a multiple of 32.\<close>

definition blocks_resume ::
  "bytes \<Rightarrow> byte \<Rightarrow> byte \<Rightarrow> byte \<Rightarrow> nat \<Rightarrow> structural_blocks" where
  "blocks_resume input first second third pos =
     \<lparr>sb_input = input, sb_first = first, sb_second = second, sb_third = third,
      sb_next_block = pos - pos mod STRUCTURAL_BLOCK_BYTES, sb_skip_below = pos\<rparr>"

function blocks_next ::
  "structural_blocks \<Rightarrow> structural_block option \<times> structural_blocks" where
  "blocks_next s =
     (if sb_next_block s < length (sb_input s) then
        let start = sb_next_block s;
            remaining = drop start (sb_input s);
            block_len = min (length remaining) STRUCTURAL_BLOCK_BYTES;
            msk = scalar_block_mask (take block_len remaining) (sb_first s) (sb_second s) (sb_third s);
            s' = s\<lparr>sb_next_block := start + block_len\<rparr>;
            skipped = sb_skip_below s - start;
            msk' = msk AND push_bit skipped (- 1)
        in if msk' \<noteq> 0 then (Some \<lparr>blk_input = sb_input s, blk_start = start, blk_mask = msk'\<rparr>, s')
           else blocks_next s'
      else (None, s))"
  by pat_completeness auto
termination
  by (relation "measure (\<lambda>s. length (sb_input s) - sb_next_block s)")
    (auto simp: STRUCTURAL_BLOCK_BYTES_def)

declare blocks_next.simps [simp del]

text \<open>
  The whole scan: every block the iterator yields, drained by \<open>next_match\<close>. This is the
  sequence of \<open>(offset, byte)\<close> pairs a consumer's nested loop
  \<open>for mut block in blocks { while let Some(..) = block.next_match() }\<close> sees.
\<close>

lemma blocks_next_progress:
  "blocks_next s = (Some b, s') \<Longrightarrow>
     sb_input s' = sb_input s \<and> sb_next_block s < sb_next_block s' \<and> sb_next_block s' \<le> length (sb_input s)"
proof (induction s rule: blocks_next.induct)
  case (1 s)
  then show ?case
    by (subst (asm) (2) blocks_next.simps)
      (force simp: Let_def STRUCTURAL_BLOCK_BYTES_def split: if_splits)
qed

function blocks_matches :: "structural_blocks \<Rightarrow> (nat \<times> byte) list" where
  "blocks_matches s =
     (case blocks_next s of (None, s') \<Rightarrow> [] | (Some b, s') \<Rightarrow> drain_block b @ blocks_matches s')"
  by pat_completeness auto
termination
  by (relation "measure (\<lambda>s. length (sb_input s) - sb_next_block s)")
    (auto dest!: blocks_next_progress[OF sym])

declare blocks_matches.simps [simp del]

definition structural_offsets :: "bytes \<Rightarrow> byte \<Rightarrow> byte \<Rightarrow> byte \<Rightarrow> nat \<Rightarrow> (nat \<times> byte) list" where
  "structural_offsets input a b c start =
     map (\<lambda>i. (i, input ! i)) (filter (\<lambda>i. input ! i \<in> {a, b, c}) [start..<length input])"

definition block_at :: "structural_blocks \<Rightarrow> structural_block" where
  "block_at s =
     (let start = sb_next_block s;
          block_len = min (length (sb_input s) - start) STRUCTURAL_BLOCK_BYTES
      in \<lparr>blk_input = sb_input s, blk_start = start,
          blk_mask = scalar_block_mask (take block_len (drop start (sb_input s)))
              (sb_first s) (sb_second s) (sb_third s) AND push_bit (sb_skip_below s - start) (- 1)\<rparr>)"

definition after_block :: "structural_blocks \<Rightarrow> structural_blocks" where
  "after_block s =
     s\<lparr>sb_next_block := sb_next_block s + min (length (sb_input s) - sb_next_block s) STRUCTURAL_BLOCK_BYTES\<rparr>"

lemma blocks_matches_unfold:
  "blocks_matches s =
     (if sb_next_block s < length (sb_input s)
      then drain_block (block_at s) @ blocks_matches (after_block s) else [])"
proof (cases "sb_next_block s < length (sb_input s)")
  case False
  then show ?thesis by (subst blocks_matches.simps, subst blocks_next.simps) simp
next
  case True
  show ?thesis
  proof (cases "blk_mask (block_at s) = 0")
    case z: True
    then have "blocks_next s = blocks_next (after_block s)"
      using True
      by (subst blocks_next.simps) (simp add: block_at_def after_block_def Let_def)
    then have "blocks_matches s = blocks_matches (after_block s)"
      by (subst (1 2) blocks_matches.simps) simp
    then show ?thesis using True z by (simp add: drain_block_eq)
  next
    case nz: False
    then have "blocks_next s = (Some (block_at s), after_block s)"
      using True
      by (subst blocks_next.simps) (simp add: block_at_def after_block_def Let_def)
    then show ?thesis using True by (subst blocks_matches.simps) simp
  qed
qed

lemma drain_block_at:
  assumes "sb_next_block s < length (sb_input s)" "sb_skip_below s < sb_next_block s + 32"
  shows "drain_block (block_at s) =
     map (\<lambda>i. (i, sb_input s ! i))
       (filter (\<lambda>i. sb_input s ! i \<in> {sb_first s, sb_second s, sb_third s} \<and> sb_skip_below s \<le> i)
         [sb_next_block s..<sb_next_block (after_block s)])"
proof -
  let ?n = "sb_next_block s" and ?xs = "sb_input s"
  let ?len = "min (length ?xs - ?n) 32"
  let ?P = "\<lambda>i. ?xs ! i \<in> {sb_first s, sb_second s, sb_third s} \<and> sb_skip_below s \<le> i"
  have start: "blk_start (block_at s) = ?n" "blk_input (block_at s) = ?xs"
    by (simp_all add: block_at_def Let_def)
  have bits: "bit (blk_mask (block_at s)) i \<longleftrightarrow> i < ?len \<and> ?P (?n + i)" if "i < 32" for i
  proof -
    have "bit (push_bit (sb_skip_below s - ?n) (- 1 :: 32 word)) i \<longleftrightarrow> sb_skip_below s - ?n \<le> i"
      using that by (auto simp: bit_simps)
    moreover have "sb_skip_below s - ?n \<le> i \<longleftrightarrow> sb_skip_below s \<le> ?n + i" by arith
    moreover have "bit (scalar_block_mask (take ?len (drop ?n ?xs)) (sb_first s) (sb_second s) (sb_third s)) i
        \<longleftrightarrow> i < ?len \<and> ?xs ! (?n + i) \<in> {sb_first s, sb_second s, sb_third s}"
      using that assms(1) by (auto simp: bit_scalar_block_mask)
    ultimately show ?thesis
      by (simp add: block_at_def Let_def STRUCTURAL_BLOCK_BYTES_def bit_and_iff)
  qed
  have "mask_bits (blk_mask (block_at s)) = filter (\<lambda>i. i < ?len \<and> ?P (?n + i)) [0..<32]"
    unfolding mask_bits_def by (rule filter_cong) (use bits in auto)
  also have "\<dots> = filter (\<lambda>i. ?P (?n + i)) [0..<?len]"
  proof -
    have "[0..<32] = [0..<?len] @ [?len..<?len + (32 - ?len)]"
      by (subst upt_add_eq_append [symmetric]) simp_all
    then have "[0..<32] = [0..<?len] @ [?len..<32]" by simp
    moreover have "filter (\<lambda>i. i < ?len \<and> ?P (?n + i)) [?len..<32] = []"
      by (auto simp: filter_empty_conv)
    moreover have "filter (\<lambda>i. i < ?len \<and> ?P (?n + i)) [0..<?len] = filter (\<lambda>i. ?P (?n + i)) [0..<?len]"
      by (rule filter_cong) auto
    ultimately show ?thesis by (simp only: filter_append append_Nil2)
  qed
  finally have m: "mask_bits (blk_mask (block_at s)) = filter (\<lambda>i. ?P (?n + i)) [0..<?len]" .
  have "map ((+) ?n) [0..<?len] = [?n..<?n + ?len]"
    by (rule nth_equalityI) simp_all
  then have "filter ?P [?n..<?n + ?len] = filter ?P (map ((+) ?n) [0..<?len])" by simp
  also have "\<dots> = map ((+) ?n) (filter (\<lambda>i. ?P (?n + i)) [0..<?len])"
    by (simp add: filter_map comp_def)
  finally show ?thesis
    by (simp add: drain_block_eq m start after_block_def STRUCTURAL_BLOCK_BYTES_def)
qed

text \<open>The scan yields every structural byte at or after the start, in order, exactly once.\<close>

lemma blocks_matches_eq:
  "sb_skip_below s < sb_next_block s + 32 \<Longrightarrow>
   blocks_matches s =
     map (\<lambda>i. (i, sb_input s ! i))
       (filter (\<lambda>i. sb_input s ! i \<in> {sb_first s, sb_second s, sb_third s} \<and> sb_skip_below s \<le> i)
         [sb_next_block s..<length (sb_input s)])"
proof (induction "length (sb_input s) - sb_next_block s" arbitrary: s rule: less_induct)
  case less
  show ?case
  proof (cases "sb_next_block s < length (sb_input s)")
    case True
    let ?s = "after_block s"
    have adv: "sb_next_block s < sb_next_block ?s" "sb_next_block ?s \<le> length (sb_input s)"
      and same: "sb_input ?s = sb_input s" "sb_first ?s = sb_first s" "sb_second ?s = sb_second s"
        "sb_third ?s = sb_third s" "sb_skip_below ?s = sb_skip_below s"
      using True by (auto simp: after_block_def STRUCTURAL_BLOCK_BYTES_def)
    have skip: "sb_skip_below ?s < sb_next_block ?s + 32" using less.prems adv same by simp
    have "blocks_matches ?s = map (\<lambda>i. (i, sb_input s ! i))
       (filter (\<lambda>i. sb_input s ! i \<in> {sb_first s, sb_second s, sb_third s} \<and> sb_skip_below s \<le> i)
         [sb_next_block ?s..<length (sb_input s)])"
      using less.hyps [OF _ skip] adv True by (simp add: same)
    moreover have "[sb_next_block s..<length (sb_input s)] =
        [sb_next_block s..<sb_next_block ?s] @ [sb_next_block ?s..<length (sb_input s)]"
      using adv by (metis le_add_diff_inverse less_imp_le upt_add_eq_append)
    ultimately show ?thesis
      using True drain_block_at [OF True less.prems]
      by (subst blocks_matches_unfold) simp
  qed (subst blocks_matches_unfold, simp)
qed

lemma blocks_matches_resume:
  "blocks_matches (blocks_resume input a b c pos) = structural_offsets input a b c pos"
proof -
  let ?base = "pos - pos mod 32"
  let ?P = "\<lambda>i. input ! i \<in> {a, b, c}"
  have "blocks_matches (blocks_resume input a b c pos) =
      map (\<lambda>i. (i, input ! i)) (filter (\<lambda>i. ?P i \<and> pos \<le> i) [?base..<length input])"
  proof (subst blocks_matches_eq)
    have "pos mod 32 < 32" by simp
    moreover have "pos mod 32 \<le> pos" by simp
    ultimately have "pos < ?base + 32" by linarith
    then show "sb_skip_below (blocks_resume input a b c pos) <
        sb_next_block (blocks_resume input a b c pos) + 32"
      by (simp only: blocks_resume_def STRUCTURAL_BLOCK_BYTES_def structural_blocks.simps)
  qed (simp only: blocks_resume_def STRUCTURAL_BLOCK_BYTES_def structural_blocks.simps)
  moreover have "filter (\<lambda>i. ?P i \<and> pos \<le> i) [?base..<length input] = filter ?P [pos..<length input]"
  proof (cases "pos \<le> length input")
    case True
    then have "[?base..<length input] = [?base..<pos] @ [pos..<length input]"
      using upt_add_eq_append [of ?base pos "length input - pos"] by simp
    moreover have "filter (\<lambda>i. ?P i \<and> pos \<le> i) [?base..<pos] = []"
      by (auto simp: filter_empty_conv)
    moreover have "filter (\<lambda>i. ?P i \<and> pos \<le> i) [pos..<length input] = filter ?P [pos..<length input]"
      by (rule filter_cong) auto
    ultimately show ?thesis by (simp only: filter_append append_Nil)
  next
    case False
    then show ?thesis by (auto simp: filter_empty_conv)
  qed
  ultimately show ?thesis by (simp only: structural_offsets_def)
qed

section \<open>Counting and block search\<close>

text \<open>
  \<open>count1_portable\<close> sums the population counts of the block masks. The list of blocks is
  the iterator run to its end.
\<close>

function blocks_list :: "structural_blocks \<Rightarrow> structural_block list" where
  "blocks_list s =
     (case blocks_next s of (None, s') \<Rightarrow> [] | (Some b, s') \<Rightarrow> b # blocks_list s')"
  by pat_completeness auto
termination
  by (relation "measure (\<lambda>s. length (sb_input s) - sb_next_block s)")
    (auto dest!: blocks_next_progress[OF sym])

declare blocks_list.simps [simp del]

definition count1_portable :: "byte \<Rightarrow> bytes \<Rightarrow> nat" where
  "count1_portable needle input =
     sum_list (map (\<lambda>b. count_ones (blk_mask b)) (blocks_list (blocks_new input needle needle needle)))"

lemma blocks_matches_concat: "blocks_matches s = concat (map drain_block (blocks_list s))"
proof (induction s rule: blocks_list.induct)
  case (1 s)
  show ?case
  proof (cases "blocks_next s")
    case (Pair r s')
    then show ?thesis
      using "1.IH" [OF Pair [symmetric]]
      by (subst blocks_matches.simps, subst blocks_list.simps) (cases r; simp)
  qed
qed

lemma count_ones_drain: "count_ones (blk_mask b) = length (drain_block b)"
  by (simp add: drain_block_eq count_ones_def mask_bits_def)

lemma length_filter_nth:
  "length (filter (\<lambda>i. P (xs ! i)) [0..<length xs]) = length (filter P xs)"
proof -
  have "filter P xs = filter P (map ((!) xs) [0..<length xs])" by (simp only: map_nth)
  also have "\<dots> = map ((!) xs) (filter (\<lambda>i. P (xs ! i)) [0..<length xs])"
    by (simp add: filter_map comp_def)
  finally show ?thesis by simp
qed

lemma count1_portable_scalar: "count1_portable needle input = count1_scalar needle input"
proof -
  have "count1_portable needle input = length (blocks_matches (blocks_new input needle needle needle))"
    by (simp add: count1_portable_def count_ones_drain blocks_matches_concat length_concat comp_def)
  also have "\<dots> = length (filter (\<lambda>i. input ! i = needle) [0..<length input])"
    by (subst blocks_matches_eq) (simp_all add: blocks_new_def)
  finally show ?thesis
    by (simp only: count1_scalar_def length_filter_nth [where P = "\<lambda>b. b = needle"])
qed

text \<open>
  \<open>find_avx2\<close> (the kernel behind \<open>find_literal_anchor\<close>): whole 32-byte blocks by mask, then the
  tail byte by byte. \<open>lane_mask\<close> is the movemask of the OR of the lane comparisons.
\<close>

definition lane_mask :: "bytes \<Rightarrow> bytes \<Rightarrow> 32 word" where
  "lane_mask needles block =
     foldr (\<lambda>n m. scalar_block_mask block n n n OR m) needles 0"

function find_avx2_from :: "bytes \<Rightarrow> nat \<Rightarrow> bytes \<Rightarrow> nat option" where
  "find_avx2_from needles scanned input =
     (if STRUCTURAL_BLOCK_BYTES \<le> length input then
        let m = lane_mask needles (take STRUCTURAL_BLOCK_BYTES input)
        in if m \<noteq> 0 then Some (scanned + trailing_zeros m)
           else find_avx2_from needles (scanned + STRUCTURAL_BLOCK_BYTES) (drop STRUCTURAL_BLOCK_BYTES input)
      else map_option ((+) scanned) (position (\<lambda>b. b \<in> set needles) input))"
  by pat_completeness auto
termination
  by (relation "measure (\<lambda>(_, _, input). length input)") (auto simp: STRUCTURAL_BLOCK_BYTES_def)

declare find_avx2_from.simps [simp del]

definition find_avx2 :: "bytes \<Rightarrow> bytes \<Rightarrow> nat option" where
  "find_avx2 needles input = find_avx2_from needles 0 input"

lemma bit_lane_mask:
  "bit (lane_mask needles block) n \<longleftrightarrow> n < 32 \<and> n < length block \<and> block ! n \<in> set needles"
  by (induction needles) (auto simp: lane_mask_def bit_or_iff bit_scalar_block_mask)

lemma position_lane_mask:
  assumes "lane_mask needles block \<noteq> 0"
  shows "position (\<lambda>b. b \<in> set needles) block = Some (trailing_zeros (lane_mask needles block))"
proof -
  note tz = trailing_zeros_least [OF assms]
  have "j < length block" if "j < trailing_zeros (lane_mask needles block)" for j
    using that tz(2) by (simp add: bit_lane_mask)
  then show ?thesis
    using tz by (intro position_SomeI) (auto simp: bit_lane_mask)
qed

lemma position_no_lane:
  assumes "lane_mask needles block = 0" "length block \<le> 32"
  shows "position (\<lambda>b. b \<in> set needles) block = None"
proof -
  have "block ! n \<notin> set needles" if "n < length block" for n
    using bit_lane_mask [of needles block n] assms that by simp
  then show ?thesis by (metis in_set_conv_nth position_None_iff)
qed

lemma find_avx2_from_eq:
  "find_avx2_from needles scanned input = map_option ((+) scanned) (find needles input)"
proof (induction needles scanned input rule: find_avx2_from.induct)
  case (1 needles scanned input)
  show ?case
  proof (cases "STRUCTURAL_BLOCK_BYTES \<le> length input")
    case False
    then show ?thesis by (subst find_avx2_from.simps) (simp add: find_def)
  next
    case True
    let ?B = STRUCTURAL_BLOCK_BYTES and ?P = "\<lambda>b. b \<in> set needles"
    have split: "position ?P input = position ?P (take ?B input @ drop ?B input)" by simp
    show ?thesis
    proof (cases "lane_mask needles (take ?B input) = 0")
      case z: True
      have "position ?P (take ?B input) = None"
        using z by (rule position_no_lane) (simp add: STRUCTURAL_BLOCK_BYTES_def)
      with split True have "position ?P input = map_option ((+) ?B) (position ?P (drop ?B input))"
        by (simp only: position_append length_take min_absorb2 option.case)
      then show ?thesis
        using True z "1.IH"
        by (subst find_avx2_from.simps)
          (simp add: find_def option.map_comp comp_def add.assoc)
    next
      case nz: False
      have "position ?P (take ?B input @ drop ?B input) =
          Some (trailing_zeros (lane_mask needles (take ?B input)))"
        by (subst position_append) (simp add: position_lane_mask [OF nz])
      then have "position ?P input = Some (trailing_zeros (lane_mask needles (take ?B input)))"
        by simp
      then show ?thesis using True nz by (subst find_avx2_from.simps) (simp add: find_def Let_def)
    qed
  qed
qed

lemma find_avx2_eq: "find_avx2 needles input = find needles input"
  by (cases "find needles input") (simp_all add: find_avx2_def find_avx2_from_eq)

section \<open>The scans are exact\<close>

text \<open>
  C38: Resuming the block scan at any position yields exactly the offsets at or after it that hold one
  of the three needles, each with its byte and in increasing order: no match is lost or repeated
  when a scan stops inside a 32-byte block and is resumed there.
\<close>

theorem structural_scan_resumes:
  "blocks_matches (blocks_resume input a b c pos) = structural_offsets input a b c pos"
  by (rule blocks_matches_resume)

text \<open>
  C40: Counting by population count of the block masks is the scalar count.
\<close>

theorem count1_portable_is_scalar: "count1_portable needle input = count1_scalar needle input"
  by (rule count1_portable_scalar)

text \<open>
  C39: The 32-byte block search with its scalar tail finds the first needle, as the scalar search does.
\<close>

theorem find_avx2_is_find: "find_avx2 needles input = find needles input"
  by (rule find_avx2_eq)

end
