(* ===== verification/Errors.thy ===== *)
theory Errors
  imports Prelude
begin

text \<open>
  Errors and outcomes (\<open>coseva/src/error\<close>). An \<open>error\<close> carries its kind, its location, the target field of a conversion and the
  detail message of \<open>Error::detailed\<close>; the boxed foreign sources of I/O and conversion errors are
  not part of the model, as no modelled operation creates one. An operation of the code returns
  \<open>Ok\<close>, \<open>Err\<close>, or does not return because it panics: \<open>Panic\<close> is a failed \<open>assert!\<close>,
  \<open>expect\<close>, \<open>expect_err\<close>, \<open>unreachable!\<close> or an out-of-range index.
\<close>

datatype error_kind =
    InvalidUtf8 nat "nat option"
  | EmptyField
  | InvalidDigit
  | OutOfRange
  | InvalidValue
  | Configuration
  | MissingHeader
  | DuplicateHeader
  | DecodeError
  | SerdeError
  | RejectedBom
  | UnterminatedQuotedField
  | UnexpectedQuote
  | UnexpectedByteAfterQuote byte
  | InvalidEscape byte
  | InvalidRecordEnding byte
  | RecordTooLarge nat
  | FieldTooLarge nat
  | TooManyFields nat
  | FieldCountMismatch nat nat
  | ParserFailed
  | EncodeError
  | EmitterFailed
  | UnterminatedRecord
  | LocationOverflow
  | SourceMismatch
  | RecordOutOfRange nat
  | InvalidIndex

record location =
  loc_byte :: nat
  loc_line :: nat
  loc_record :: nat
  loc_field :: nat

definition LOC_UNKNOWN :: location where
  "LOC_UNKNOWN = \<lparr>loc_byte = 0, loc_line = 0, loc_record = 0, loc_field = 0\<rparr>"

definition LOC_START :: location where
  "LOC_START = \<lparr>loc_byte = 0, loc_line = 1, loc_record = 0, loc_field = 0\<rparr>"

definition loc_is_known :: "location \<Rightarrow> bool" where
  "loc_is_known l \<longleftrightarrow> loc_line l \<noteq> 0"

record error =
  err_kind :: error_kind
  err_location :: location
  err_field_name :: "bytes option"
  err_detail :: "string option"

definition error_new :: "error_kind \<Rightarrow> location \<Rightarrow> error" where
  "error_new kind location = \<lparr>err_kind = kind, err_location = location, err_field_name = None, err_detail = None\<rparr>"

definition error_detailed :: "error_kind \<Rightarrow> string \<Rightarrow> error" where
  "error_detailed kind detail =
     \<lparr>err_kind = kind, err_location = LOC_UNKNOWN, err_field_name = None, err_detail = Some detail\<rparr>"

text \<open>\<open>Error::field\<close>: a failed conversion knows the target field and its name, not where the record was.\<close>

definition error_field :: "error_kind \<Rightarrow> nat \<Rightarrow> bytes option \<Rightarrow> error" where
  "error_field kind index name =
     (error_new kind (LOC_UNKNOWN\<lparr>loc_field := index\<rparr>))\<lparr>err_field_name := name\<rparr>"

text \<open>\<open>Error::at\<close> keeps the field the conversion reported.\<close>

definition error_at :: "error \<Rightarrow> location \<Rightarrow> error" where
  "error_at e l = e\<lparr>err_location := l\<lparr>loc_field := loc_field (err_location e)\<rparr>\<rparr>"

definition error_relocate :: "error \<Rightarrow> nat \<Rightarrow> nat \<Rightarrow> nat \<Rightarrow> error" where
  "error_relocate e byte_offset line rec =
     (let l = err_location e
      in e\<lparr>err_location := l\<lparr>loc_byte := sat_add (loc_byte l) byte_offset,
            loc_line := sat_add (loc_line l) (line - 1), loc_record := rec\<rparr>\<rparr>)"

definition error_rebase_stream_window :: "error \<Rightarrow> nat \<Rightarrow> error" where
  "error_rebase_stream_window e byte_offset =
     (let l = err_location e
      in e\<lparr>err_location := l\<lparr>loc_byte := sat_add (loc_byte l) byte_offset\<rparr>\<rparr>)"

section \<open>Outcomes\<close>

datatype 'a outcome = Ok 'a | Err error | Panic

fun bind_outcome :: "'a outcome \<Rightarrow> ('a \<Rightarrow> 'b outcome) \<Rightarrow> 'b outcome" where
  "bind_outcome (Ok x) f = f x"
| "bind_outcome (Err e) f = Err e"
| "bind_outcome Panic f = Panic"

fun map_ok :: "('a \<Rightarrow> 'b) \<Rightarrow> 'a outcome \<Rightarrow> 'b outcome" where
  "map_ok f (Ok x) = Ok (f x)"
| "map_ok f (Err e) = Err e"
| "map_ok f Panic = Panic"

definition assert_that :: "bool \<Rightarrow> unit outcome" where
  "assert_that b = (if b then Ok () else Panic)"

lemma bind_outcome_Ok_iff:
  "bind_outcome r f = Ok y \<longleftrightarrow> (\<exists>x. r = Ok x \<and> f x = Ok y)"
  by (cases r) auto

lemma bind_PanicE:
  assumes "bind_outcome r f = Panic"
  obtains "r = Panic" | x where "r = Ok x" "f x = Panic"
  using assms by (cases r) auto

lemma map_ok_Panic_iff [simp]: "map_ok f r = Panic \<longleftrightarrow> r = Panic"
  by (cases r) auto

lemma map_ok_Ok_iff: "map_ok f r = Ok y \<longleftrightarrow> (\<exists>x. r = Ok x \<and> y = f x)"
  by (cases r) auto

lemma bind_outcome_assoc:
  "bind_outcome (bind_outcome r f) g = bind_outcome r (\<lambda>x. bind_outcome (f x) g)"
  by (cases r) auto

lemma assert_that_simps [simp]: "assert_that True = Ok ()" "assert_that False = Panic"
  by (simp_all add: assert_that_def)

end
