(* ===== verification/Config.thy ===== *)
theory Config
  imports Errors
begin

text \<open>
  The policies of \<open>coseva/src/config\<close>: separator tails, escape styles, record endings, the dialect
  and its validity check, recovery switches, syntax, whitespace, NULL and quoting policies,
  limits and the format that bundles them. The crate's \<open>index\<close> and \<open>multibyte\<close>
  features are taken as enabled, so a dialect carries both tails.
\<close>

section \<open>Separator tails (config/tail.rs)\<close>

record tail =
  tail_bytes :: bytes
  tail_len :: byte

definition TAIL_MAX :: nat where "TAIL_MAX = 3"

definition TAIL_EMPTY :: tail where
  "TAIL_EMPTY = \<lparr>tail_bytes = [0, 0, 0], tail_len = 0\<rparr>"

definition TAIL_UNUSABLE :: byte where "TAIL_UNUSABLE = 255"

text \<open>\<open>Tail::of\<close>: the bytes after the lead, padded with zeros to the array's three bytes.\<close>

definition tail_of :: "bytes \<Rightarrow> tail" where
  "tail_of bs =
     (if bs = [] \<or> length bs > TAIL_MAX + 1 then TAIL_EMPTY\<lparr>tail_len := TAIL_UNUSABLE\<rparr>
      else \<lparr>tail_bytes = tl bs @ replicate (TAIL_MAX - length (tl bs)) 0,
            tail_len = (if length bs = 1 then 0 else if length bs = 2 then 1
                        else if length bs = 3 then 2 else 3)\<rparr>)"

definition tail_from_parts :: "byte \<Rightarrow> bytes \<Rightarrow> tail" where
  "tail_from_parts len bs = \<lparr>tail_bytes = bs, tail_len = len\<rparr>"

definition tail_parts :: "tail \<Rightarrow> byte \<times> bytes" where
  "tail_parts t = (tail_len t, tail_bytes t)"

definition tail_is_empty :: "tail \<Rightarrow> bool" where
  "tail_is_empty t \<longleftrightarrow> tail_len t = 0"

definition tail_unusable :: "tail \<Rightarrow> bool" where
  "tail_unusable t \<longleftrightarrow> unat (tail_len t) > TAIL_MAX"

definition tail_width :: "tail \<Rightarrow> nat" where
  "tail_width t = unat (tail_len t) + 1"

definition tail_slice :: "tail \<Rightarrow> bytes" where
  "tail_slice t = take (if tail_unusable t then 0 else unat (tail_len t)) (tail_bytes t)"

definition tail_confirms :: "tail \<Rightarrow> bytes \<Rightarrow> bool" where
  "tail_confirms t after_lead \<longleftrightarrow>
     length (tail_slice t) \<le> length after_lead \<and>
     take (length (tail_slice t)) after_lead = tail_slice t"

text \<open>The array has three bytes: the representation invariant of the Rust type.\<close>

definition tail_wf :: "tail \<Rightarrow> bool" where
  "tail_wf t \<longleftrightarrow> length (tail_bytes t) = TAIL_MAX"

lemma tail_confirms_iff: "tail_confirms t xs \<longleftrightarrow> (\<exists>ys. xs = tail_slice t @ ys)"
  unfolding tail_confirms_def
  by (metis append_eq_conv_conj append_take_drop_id length_append le_add1)

lemma tail_empty_simps [simp]:
  "tail_slice TAIL_EMPTY = []" "tail_width TAIL_EMPTY = 1" "tail_is_empty TAIL_EMPTY"
  "tail_confirms TAIL_EMPTY xs" "\<not> tail_unusable TAIL_EMPTY" "tail_wf TAIL_EMPTY"
  by (simp_all add: TAIL_EMPTY_def tail_slice_def tail_width_def tail_is_empty_def
      tail_confirms_def tail_unusable_def tail_wf_def TAIL_MAX_def)

lemma tail_is_empty_slice [simp]: "tail_is_empty t \<Longrightarrow> tail_slice t = []"
  by (simp add: tail_is_empty_def tail_slice_def)

lemma tail_is_empty_width [simp]: "tail_is_empty t \<Longrightarrow> tail_width t = 1"
  by (simp add: tail_is_empty_def tail_width_def)

lemma tail_is_empty_confirms [simp]: "tail_is_empty t \<Longrightarrow> tail_confirms t xs"
  by (simp add: tail_confirms_def)

lemma tail_width_slice:
  "tail_wf t \<Longrightarrow> \<not> tail_unusable t \<Longrightarrow> tail_width t = length (tail_slice t) + 1"
  by (simp add: tail_width_def tail_slice_def tail_wf_def tail_unusable_def TAIL_MAX_def)

lemma tail_width_pos [simp]: "0 < tail_width t"
  by (simp add: tail_width_def)

section \<open>Escapes, record endings, recovery, syntax\<close>

datatype escape =
    DoubleQuote
  | Backslash byte
  | EscapeMysql
  | Unquoted byte

fun unquoted_byte :: "escape \<Rightarrow> byte option" where
  "unquoted_byte DoubleQuote = None"
| "unquoted_byte (Backslash b) = None"
| "unquoted_byte EscapeMysql = Some BACKSLASH"
| "unquoted_byte (Unquoted b) = Some b"

definition escapes_unquoted :: "escape \<Rightarrow> bool" where
  "escapes_unquoted e \<longleftrightarrow> unquoted_byte e \<noteq> None"

datatype record_ending = Newline | CrLf | EndByte byte

fun ending_byte :: "record_ending \<Rightarrow> byte" where
  "ending_byte Newline = LF"
| "ending_byte CrLf = LF"
| "ending_byte (EndByte b) = b"

text \<open>\<open>Recovery\<close> is a \<open>u8\<close> of four flags (config/recovery.rs).\<close>

record recovery = rec_flags :: byte

definition REC_QUOTING :: byte where "REC_QUOTING = 1"
definition REC_UNQUOTED_QUOTES :: byte where "REC_UNQUOTED_QUOTES = 2"
definition REC_ANY_BACKSLASH_ESCAPE :: byte where "REC_ANY_BACKSLASH_ESCAPE = 4"
definition REC_TRAILING_WHITESPACE :: byte where "REC_TRAILING_WHITESPACE = 8"

definition REC_PERMISSIVE :: recovery where
  "REC_PERMISSIVE =
     \<lparr>rec_flags = REC_QUOTING OR REC_UNQUOTED_QUOTES OR REC_ANY_BACKSLASH_ESCAPE OR REC_TRAILING_WHITESPACE\<rparr>"

definition REC_NONE :: recovery where "REC_NONE = \<lparr>rec_flags = 0\<rparr>"

definition rec_contains :: "recovery \<Rightarrow> byte \<Rightarrow> bool" where
  "rec_contains r flag \<longleftrightarrow> rec_flags r AND flag \<noteq> 0"

definition rec_set :: "recovery \<Rightarrow> byte \<Rightarrow> bool \<Rightarrow> recovery" where
  "rec_set r flag enabled =
     r\<lparr>rec_flags := (if enabled then rec_flags r OR flag else rec_flags r AND NOT flag)\<rparr>"

definition rec_bits :: "recovery \<Rightarrow> byte" where "rec_bits r = rec_flags r"

definition rec_from_bits :: "byte \<Rightarrow> recovery option" where
  "rec_from_bits flags =
     (if flags AND NOT (rec_flags REC_PERMISSIVE) = 0 then Some \<lparr>rec_flags = flags\<rparr> else None)"

datatype csv_syntax = Strict | Compatible recovery

fun quoting_enabled :: "csv_syntax \<Rightarrow> bool" where
  "quoting_enabled Strict = True"
| "quoting_enabled (Compatible r) = rec_contains r REC_QUOTING"

fun permits_unquoted_quotes :: "csv_syntax \<Rightarrow> bool" where
  "permits_unquoted_quotes Strict = False"
| "permits_unquoted_quotes (Compatible r) = rec_contains r REC_UNQUOTED_QUOTES"

fun permits_any_backslash_escape :: "csv_syntax \<Rightarrow> bool" where
  "permits_any_backslash_escape Strict = False"
| "permits_any_backslash_escape (Compatible r) = rec_contains r REC_ANY_BACKSLASH_ESCAPE"

fun permits_trailing_whitespace :: "csv_syntax \<Rightarrow> bool" where
  "permits_trailing_whitespace Strict = False"
| "permits_trailing_whitespace (Compatible r) = rec_contains r REC_TRAILING_WHITESPACE"

section \<open>Whitespace, NULLs, quoting, the smaller policies\<close>

record whitespace =
  ws_fields :: bool
  ws_headers :: bool
  ws_quoted :: bool

definition WS_NONE :: whitespace where
  "WS_NONE = \<lparr>ws_fields = False, ws_headers = False, ws_quoted = True\<rparr>"

definition WS_ALL :: whitespace where
  "WS_ALL = \<lparr>ws_fields = True, ws_headers = True, ws_quoted = True\<rparr>"

definition ws_unquoted_only :: "whitespace \<Rightarrow> whitespace" where
  "ws_unquoted_only w = w\<lparr>ws_quoted := False\<rparr>"

definition ws_applies :: "whitespace \<Rightarrow> bool \<Rightarrow> bool \<Rightarrow> bool" where
  "ws_applies w header quoted \<longleftrightarrow>
     (if header then ws_headers w else ws_fields w) \<and> (ws_quoted w \<or> \<not> quoted)"

definition ws_exempts_quoted :: "whitespace \<Rightarrow> bool" where
  "ws_exempts_quoted w \<longleftrightarrow> \<not> ws_quoted w \<and> (ws_fields w \<or> ws_headers w)"

definition ws_applies_to_scope :: "whitespace \<Rightarrow> bool \<Rightarrow> bool" where
  "ws_applies_to_scope w header \<longleftrightarrow> (if header then ws_headers w else ws_fields w)"

definition ws_bits :: "whitespace \<Rightarrow> byte" where
  "ws_bits w = of_bool (ws_fields w) OR push_bit 1 (of_bool (ws_headers w)) OR
     push_bit 2 (of_bool (ws_quoted w))"

definition ws_from_bits :: "byte \<Rightarrow> whitespace option" where
  "ws_from_bits bits =
     (if bits AND NOT 7 \<noteq> 0 then None
      else Some \<lparr>ws_fields = (bits AND 1 \<noteq> 0), ws_headers = (bits AND 2 \<noteq> 0),
                 ws_quoted = (bits AND 4 \<noteq> 0)\<rparr>)"

datatype nulls = NullsNone | PostgresCsv | NullsMysql

datatype quoting = Necessary | Always | Never | NonNumeric | Raw

datatype blank_records = BlankPreserve | BlankSkip

datatype read_bom = BomDetect | BomPreserve | BomReject

datatype write_bom = BomOmit | BomEmit

datatype field_count = Flexible | MatchFirst | Exact nat

record limits =
  max_record_bytes :: nat
  max_field_bytes :: nat
  max_fields :: nat

definition LIMITS_DEFAULT :: limits where
  "LIMITS_DEFAULT =
     \<lparr>max_record_bytes = 16 * 1024 * 1024, max_field_bytes = 4 * 1024 * 1024,
      max_fields = 16 * 1024\<rparr>"

section \<open>The dialect and its validity (config/dialect.rs)\<close>

record dialect =
  delimiter :: byte
  quote :: byte
  record_ending :: record_ending
  escape :: escape
  comment :: "byte option"
  delimiter_tail :: tail
  ending_tail :: tail

definition multibyte :: "dialect \<Rightarrow> bool" where
  "multibyte d \<longleftrightarrow> \<not> tail_is_empty (delimiter_tail d) \<or> \<not> tail_is_empty (ending_tail d)"

definition DIALECT_CSV :: dialect where
  "DIALECT_CSV =
     \<lparr>delimiter = COMMA, quote = DQUOTE, record_ending = Newline, escape = DoubleQuote,
      comment = None, delimiter_tail = TAIL_EMPTY, ending_tail = TAIL_EMPTY\<rparr>"

definition DIALECT_TSV :: dialect where
  "DIALECT_TSV = DIALECT_CSV\<lparr>delimiter := TAB\<rparr>"

definition DIALECT_SEMICOLON :: dialect where
  "DIALECT_SEMICOLON = DIALECT_CSV\<lparr>delimiter := SEMICOLON_BYTE\<rparr>"

definition DIALECT_PIPE :: dialect where
  "DIALECT_PIPE = DIALECT_CSV\<lparr>delimiter := PIPE_BYTE\<rparr>"

definition DIALECT_BACKSLASH_CSV :: dialect where
  "DIALECT_BACKSLASH_CSV = DIALECT_CSV\<lparr>escape := Backslash BACKSLASH\<rparr>"

definition DIALECT_BACKSLASH_TSV :: dialect where
  "DIALECT_BACKSLASH_TSV = DIALECT_CSV\<lparr>delimiter := TAB, escape := Backslash BACKSLASH\<rparr>"

definition DIALECT_COMMENTED_CSV :: dialect where
  "DIALECT_COMMENTED_CSV = DIALECT_CSV\<lparr>comment := Some 35\<rparr>"

definition DIALECT_RFC4180 :: dialect where
  "DIALECT_RFC4180 = DIALECT_CSV\<lparr>record_ending := CrLf\<rparr>"

definition DIALECT_EXCEL :: dialect where "DIALECT_EXCEL = DIALECT_RFC4180"

definition DIALECT_POSTGRES_COPY_CSV :: dialect where "DIALECT_POSTGRES_COPY_CSV = DIALECT_CSV"

definition DIALECT_MYSQL :: dialect where
  "DIALECT_MYSQL = DIALECT_CSV\<lparr>delimiter := TAB, escape := EscapeMysql\<rparr>"

definition DIALECT_PYTHON_ESCAPED :: dialect where
  "DIALECT_PYTHON_ESCAPED = DIALECT_CSV\<lparr>escape := Unquoted BACKSLASH\<rparr>"

definition multibyte_invalidity :: "dialect \<Rightarrow> string option" where
  "multibyte_invalidity d =
     (if \<not> multibyte d then None
      else if tail_unusable (delimiter_tail d) \<or> tail_unusable (ending_tail d) then
        Some ''a delimiter or record ending sequence must be 1 to 4 bytes''
      else if \<not> tail_is_empty (ending_tail d) \<and>
              (case record_ending d of EndByte _ \<Rightarrow> False | _ \<Rightarrow> True) then
        Some ''a multi-byte record ending must be spelled as a byte sequence''
      else let esc = (case escape d of DoubleQuote \<Rightarrow> quote d | Backslash b \<Rightarrow> b
                        | Unquoted b \<Rightarrow> b | EscapeMysql \<Rightarrow> BACKSLASH)
           in if \<exists>b \<in> set (tail_slice (delimiter_tail d) @ tail_slice (ending_tail d)).
                   b = quote d \<or> b = esc
              then Some ''a delimiter or record ending sequence must not contain the quote or escape byte''
              else None)"

definition escape_conflict :: "dialect \<Rightarrow> string option" where
  "escape_conflict d =
     (let ending = ending_byte (record_ending d)
      in case escape d of
           Backslash e \<Rightarrow>
             (if e = delimiter d \<or> e = quote d \<or> e = ending
              then Some ''escape must differ from structural bytes'' else None)
         | EscapeMysql \<Rightarrow>
             (if delimiter d = BACKSLASH \<or> quote d = BACKSLASH \<or> ending = BACKSLASH
              then Some ''MySQL escape byte must differ from structural bytes'' else None)
         | Unquoted e \<Rightarrow>
             (if e = delimiter d \<or> e = quote d \<or> e = ending
              then Some ''escape must differ from structural bytes'' else None)
         | DoubleQuote \<Rightarrow> None)"

definition comment_conflict :: "dialect \<Rightarrow> bool" where
  "comment_conflict d \<longleftrightarrow>
     (case comment d of None \<Rightarrow> False
      | Some c \<Rightarrow> c = delimiter d \<or> c = quote d \<or> c = ending_byte (record_ending d) \<or>
          (case unquoted_byte (escape d) of Some e \<Rightarrow> e = c | None \<Rightarrow> False) \<or>
          (record_ending d = CrLf \<and> c = CR))"

definition invalidity :: "dialect \<Rightarrow> string option" where
  "invalidity d =
     (let ending = ending_byte (record_ending d); strict_crlf = (record_ending d = CrLf)
      in if delimiter d = quote d then Some ''delimiter and quote must be distinct''
         else if ending = delimiter d \<or> ending = quote d \<or>
                 (strict_crlf \<and> (delimiter d = CR \<or> quote d = CR)) then
           Some ''record_ending must differ from delimiter and quote''
         else case escape_conflict d of Some reason \<Rightarrow> Some reason
         | None \<Rightarrow>
             if comment_conflict d then Some ''comment must differ from structural bytes''
             else multibyte_invalidity d)"

definition dialect_validate :: "dialect \<Rightarrow> unit outcome" where
  "dialect_validate d =
     (case invalidity d of Some reason \<Rightarrow> Err (error_detailed Configuration reason)
      | None \<Rightarrow> Ok ())"

definition dialect_new :: "byte \<Rightarrow> byte \<Rightarrow> record_ending \<Rightarrow> escape \<Rightarrow> dialect outcome" where
  "dialect_new dl q ending esc =
     (let d = \<lparr>delimiter = dl, quote = q, record_ending = ending, escape = esc, comment = None,
               delimiter_tail = TAIL_EMPTY, ending_tail = TAIL_EMPTY\<rparr>
      in bind_outcome (dialect_validate d) (\<lambda>_. Ok d))"

definition dialect_with_comment :: "dialect \<Rightarrow> byte \<Rightarrow> dialect outcome" where
  "dialect_with_comment d c =
     (let d' = d\<lparr>comment := Some c\<rparr> in bind_outcome (dialect_validate d') (\<lambda>_. Ok d'))"

definition dialect_with_tails :: "dialect \<Rightarrow> tail \<Rightarrow> tail \<Rightarrow> dialect outcome" where
  "dialect_with_tails d dt et =
     (let d' = d\<lparr>delimiter_tail := dt, ending_tail := et\<rparr>
      in bind_outcome (dialect_validate d') (\<lambda>_. Ok d'))"

section \<open>The format (config/format\_options.rs)\<close>

datatype format_tag =
    TagCsv | TagTsv | TagSemicolon | TagPipe | TagBackslashCsv | TagBackslashTsv
  | TagCommentedCsv | TagTrimmedCsv | TagPythonCsv | TagPythonEscaped | TagRfc4180
  | TagExcel | TagPostgresCopyCsv | TagMysql | TagCustom

record format_options =
  fo_dialect :: dialect
  fo_trim :: whitespace
  fo_blank_records :: blank_records
  fo_read_bom :: read_bom
  fo_write_bom :: write_bom
  fo_syntax :: csv_syntax
  fo_nulls :: nulls
  fo_quoting :: quoting
  fo_skip_initial_space :: bool
  fo_tag :: format_tag

definition with_dialect :: "dialect \<Rightarrow> format_options" where
  "with_dialect d =
     \<lparr>fo_dialect = d, fo_trim = WS_NONE, fo_blank_records = BlankPreserve, fo_read_bom = BomDetect,
      fo_write_bom = BomOmit, fo_syntax = Strict, fo_nulls = NullsNone, fo_quoting = Necessary,
      fo_skip_initial_space = False, fo_tag = TagCustom\<rparr>"

definition FORMAT_CSV :: format_options where
  "FORMAT_CSV = (with_dialect DIALECT_CSV)\<lparr>fo_tag := TagCsv\<rparr>"
definition FORMAT_TSV :: format_options where
  "FORMAT_TSV = (with_dialect DIALECT_TSV)\<lparr>fo_tag := TagTsv\<rparr>"
definition FORMAT_SEMICOLON :: format_options where
  "FORMAT_SEMICOLON = (with_dialect DIALECT_SEMICOLON)\<lparr>fo_tag := TagSemicolon\<rparr>"
definition FORMAT_PIPE :: format_options where
  "FORMAT_PIPE = (with_dialect DIALECT_PIPE)\<lparr>fo_tag := TagPipe\<rparr>"
definition FORMAT_BACKSLASH_CSV :: format_options where
  "FORMAT_BACKSLASH_CSV = (with_dialect DIALECT_BACKSLASH_CSV)\<lparr>fo_tag := TagBackslashCsv\<rparr>"
definition FORMAT_BACKSLASH_TSV :: format_options where
  "FORMAT_BACKSLASH_TSV = (with_dialect DIALECT_BACKSLASH_TSV)\<lparr>fo_tag := TagBackslashTsv\<rparr>"
definition FORMAT_COMMENTED_CSV :: format_options where
  "FORMAT_COMMENTED_CSV =
     (with_dialect DIALECT_COMMENTED_CSV)\<lparr>fo_tag := TagCommentedCsv, fo_blank_records := BlankSkip\<rparr>"
definition FORMAT_TRIMMED_CSV :: format_options where
  "FORMAT_TRIMMED_CSV = (with_dialect DIALECT_CSV)\<lparr>fo_tag := TagTrimmedCsv, fo_trim := WS_ALL\<rparr>"
definition FORMAT_PYTHON_CSV :: format_options where
  "FORMAT_PYTHON_CSV =
     (with_dialect DIALECT_CSV)\<lparr>fo_tag := TagPythonCsv, fo_skip_initial_space := True\<rparr>"
definition FORMAT_PYTHON_ESCAPED :: format_options where
  "FORMAT_PYTHON_ESCAPED =
     (with_dialect DIALECT_PYTHON_ESCAPED)\<lparr>fo_tag := TagPythonEscaped, fo_quoting := Never\<rparr>"
definition FORMAT_RFC4180 :: format_options where
  "FORMAT_RFC4180 = (with_dialect DIALECT_RFC4180)\<lparr>fo_tag := TagRfc4180, fo_read_bom := BomReject\<rparr>"
definition FORMAT_EXCEL :: format_options where
  "FORMAT_EXCEL = (with_dialect DIALECT_EXCEL)\<lparr>fo_tag := TagExcel, fo_write_bom := BomEmit\<rparr>"
definition FORMAT_POSTGRES_COPY_CSV :: format_options where
  "FORMAT_POSTGRES_COPY_CSV =
     (with_dialect DIALECT_POSTGRES_COPY_CSV)\<lparr>fo_tag := TagPostgresCopyCsv, fo_nulls := PostgresCsv\<rparr>"
definition FORMAT_MYSQL :: format_options where
  "FORMAT_MYSQL =
     (with_dialect DIALECT_MYSQL)\<lparr>fo_tag := TagMysql, fo_syntax := Compatible REC_NONE,
       fo_nulls := NullsMysql, fo_quoting := Never\<rparr>"

definition format_invalidity :: "format_options \<Rightarrow> string option" where
  "format_invalidity f =
     (case invalidity (fo_dialect f) of Some reason \<Rightarrow> Some reason
      | None \<Rightarrow>
          if escapes_unquoted (escape (fo_dialect f)) \<and> fo_quoting f \<noteq> Never
          then Some ''unquoted escaping requires Quoting::Never''
          else if \<not> quoting_enabled (fo_syntax f) \<and> fo_quoting f \<in> {Necessary, Always, NonNumeric}
          then Some ''quote-producing output requires parser quote syntax''
          else case fo_nulls f of
              PostgresCsv \<Rightarrow>
                (if escapes_unquoted (escape (fo_dialect f)) \<or> \<not> quoting_enabled (fo_syntax f) \<or>
                    fo_quoting f \<in> {Never, Raw}
                 then Some ''PostgreSQL CSV NULLs require protective quoting'' else None)
            | NullsMysql \<Rightarrow>
                (if fo_quoting f = Raw \<or>
                    (fo_quoting f = Never \<and> \<not> escapes_unquoted (escape (fo_dialect f)))
                 then Some ''MySQL NULLs require quoting or unquoted escaping'' else None)
            | NullsNone \<Rightarrow> None)"

definition format_validate :: "format_options \<Rightarrow> unit outcome" where
  "format_validate f =
     (case format_invalidity f of Some reason \<Rightarrow> Err (error_detailed Configuration reason)
      | None \<Rightarrow> Ok ())"

text \<open>\<open>PartialEq for FormatOptions\<close> ignores the tag.\<close>

definition format_eq :: "format_options \<Rightarrow> format_options \<Rightarrow> bool" where
  "format_eq f g \<longleftrightarrow>
     fo_dialect f = fo_dialect g \<and> fo_trim f = fo_trim g \<and> fo_blank_records f = fo_blank_records g \<and>
     fo_read_bom f = fo_read_bom g \<and> fo_write_bom f = fo_write_bom g \<and> fo_syntax f = fo_syntax g \<and>
     fo_nulls f = fo_nulls g \<and> fo_quoting f = fo_quoting g \<and>
     fo_skip_initial_space f = fo_skip_initial_space g"

section \<open>Facts about the policies\<close>

lemma rec_from_bits_bits:
  "rec_flags r AND NOT (rec_flags REC_PERMISSIVE) = 0 \<Longrightarrow> rec_from_bits (rec_bits r) = Some r"
  by (simp add: rec_from_bits_def rec_bits_def)

lemma rec_from_bits_SomeD:
  "rec_from_bits b = Some r \<Longrightarrow> rec_bits r = b \<and> rec_flags r AND NOT (rec_flags REC_PERMISSIVE) = 0"
  by (auto simp: rec_from_bits_def rec_bits_def split: if_splits)

lemma ws_from_bits_bits: "ws_from_bits (ws_bits w) = Some w"
proof -
  have "\<forall>f h q. ws_from_bits (ws_bits \<lparr>ws_fields = f, ws_headers = h, ws_quoted = q\<rparr>) =
      Some \<lparr>ws_fields = f, ws_headers = h, ws_quoted = q\<rparr>"
    by (intro allI; rename_tac f h q; case_tac f; case_tac h; case_tac q)
      (simp_all add: ws_from_bits_def ws_bits_def)
  then show ?thesis by (cases w) simp
qed

lemma ending_byte_CR: "ending_byte r = LF \<or> (\<exists>b. r = EndByte b)"
  by (cases r) auto

lemma tail_of_wf: "length bs \<le> TAIL_MAX + 1 \<Longrightarrow> tail_wf (tail_of bs)"
  by (auto simp: tail_of_def tail_wf_def TAIL_MAX_def TAIL_EMPTY_def)

lemma tail_of_slice:
  assumes "bs \<noteq> []" "length bs \<le> TAIL_MAX + 1"
  shows "tail_slice (tail_of bs) = tl bs" "\<not> tail_unusable (tail_of bs)"
    "tail_width (tail_of bs) = length bs"
proof -
  have "0 < length bs" "length bs \<le> 4" using assms by (simp_all add: TAIL_MAX_def)
  then consider "length bs = 1" | "length bs = 2" | "length bs = 3" | "length bs = 4" by linarith
  then have len: "unat (tail_len (tail_of bs)) = length bs - 1"
    using assms by cases (simp_all add: tail_of_def TAIL_MAX_def)
  show "\<not> tail_unusable (tail_of bs)"
    using len assms by (simp add: tail_unusable_def)
  then show "tail_slice (tail_of bs) = tl bs"
    using len assms by (simp add: tail_slice_def) (simp add: tail_of_def)
  show "tail_width (tail_of bs) = length bs"
    using len assms by (cases bs) (simp_all add: tail_width_def)
qed

text \<open>What a dialect that passes \<open>invalidity\<close> guarantees about its structural bytes.\<close>

lemma invalidity_NoneD:
  assumes "invalidity d = None"
  shows "delimiter d \<noteq> quote d" "ending_byte (record_ending d) \<noteq> delimiter d"
    "ending_byte (record_ending d) \<noteq> quote d"
    "record_ending d = CrLf \<Longrightarrow> delimiter d \<noteq> CR \<and> quote d \<noteq> CR"
    "escape_conflict d = None" "\<not> comment_conflict d" "multibyte_invalidity d = None"
  using assms by (auto simp: invalidity_def Let_def split: if_splits option.splits)

lemma invalidity_None_iff:
  "invalidity d = None \<longleftrightarrow>
     delimiter d \<noteq> quote d \<and> ending_byte (record_ending d) \<noteq> delimiter d \<and>
     ending_byte (record_ending d) \<noteq> quote d \<and>
     (record_ending d = CrLf \<longrightarrow> delimiter d \<noteq> CR \<and> quote d \<noteq> CR) \<and>
     escape_conflict d = None \<and> \<not> comment_conflict d \<and> multibyte_invalidity d = None"
  by (auto simp: invalidity_def Let_def split: option.splits)

lemma dialect_validate_Ok_iff: "dialect_validate d = Ok u \<longleftrightarrow> invalidity d = None"
  by (cases u) (simp add: dialect_validate_def split: option.splits)

lemma dialect_validate_not_Panic: "dialect_validate d \<noteq> Panic"
  by (simp add: dialect_validate_def split: option.splits)

text \<open>A valid dialect is built again from its parts, in the steps \<open>decode_dialect\<close> takes.\<close>

lemma multibyte_invalidity_empty [simp]:
  "multibyte_invalidity (d\<lparr>delimiter_tail := TAIL_EMPTY, ending_tail := TAIL_EMPTY\<rparr>) = None"
  by (simp add: multibyte_invalidity_def multibyte_def)

lemma invalidity_without_tails:
  assumes "invalidity d = None"
  shows "invalidity (d\<lparr>delimiter_tail := TAIL_EMPTY, ending_tail := TAIL_EMPTY\<rparr>) = None"
proof -
  let ?d = "d\<lparr>delimiter_tail := TAIL_EMPTY, ending_tail := TAIL_EMPTY\<rparr>"
  have "escape_conflict ?d = escape_conflict d" "comment_conflict ?d = comment_conflict d"
    unfolding escape_conflict_def comment_conflict_def
    by (simp_all cong: escape.case_cong option.case_cong)
  then show ?thesis using assms by (simp add: invalidity_None_iff)
qed

lemma invalidity_without_comment:
  assumes "invalidity d = None"
  shows "invalidity (d\<lparr>comment := None\<rparr>) = None"
proof -
  let ?d = "d\<lparr>comment := None\<rparr>"
  have "escape_conflict ?d = escape_conflict d" "multibyte_invalidity ?d = multibyte_invalidity d"
    unfolding escape_conflict_def multibyte_invalidity_def multibyte_def
    by (simp_all cong: escape.case_cong)
  moreover have "\<not> comment_conflict ?d" by (simp add: comment_conflict_def)
  ultimately show ?thesis using assms by (simp add: invalidity_None_iff)
qed

lemma builtin_formats_valid:
  "\<forall>f \<in> {FORMAT_CSV, FORMAT_TSV, FORMAT_SEMICOLON, FORMAT_PIPE, FORMAT_BACKSLASH_CSV,
          FORMAT_BACKSLASH_TSV, FORMAT_COMMENTED_CSV, FORMAT_TRIMMED_CSV, FORMAT_PYTHON_CSV,
          FORMAT_PYTHON_ESCAPED, FORMAT_RFC4180, FORMAT_EXCEL, FORMAT_POSTGRES_COPY_CSV,
          FORMAT_MYSQL}. format_invalidity f = None"
  by code_simp

end
