(* ===== verification/IndexFormat.thy ===== *)
theory IndexFormat
  imports Config
begin

text \<open>
  The binary index header (\<open>coseva/src/index/format.rs\<close>): the bounds-checked cursor, the encoding of
  a format and its limits, the fixed header, and the checks on a stored entry. The checksums are
  computed by the \<open>xxhash\<close> crate and by readers of the standard library; they are not part of the
  model, the header hash is carried as sixteen opaque bytes. The model is of a 64-bit host.

  The locale \<open>codec\<close> is the contract between a reader and a writer of one item; it is
  interpreted on every pair of the header.
\<close>

section \<open>The cursor\<close>

definition INDEX_TRUNCATED :: string where "INDEX_TRUNCATED = ''index is truncated''"
definition INDEX_CURSOR_OVERFLOW :: string where "INDEX_CURSOR_OVERFLOW = ''index cursor overflow''"

definition invalid_index :: "string \<Rightarrow> 'a outcome" where
  "invalid_index detail = Err (error_detailed InvalidIndex detail)"

record cursor =
  cur_bytes :: bytes
  cur_location :: nat

definition cursor_new :: "bytes \<Rightarrow> cursor" where
  "cursor_new bs = \<lparr>cur_bytes = bs, cur_location = 0\<rparr>"

definition cursor_take :: "nat \<Rightarrow> cursor \<Rightarrow> (bytes \<times> cursor) outcome" where
  "cursor_take len c =
     (if cur_location c + len > usize_max then invalid_index INDEX_CURSOR_OVERFLOW
      else case get_range (cur_bytes c) (cur_location c) (cur_location c + len) of
          None \<Rightarrow> invalid_index INDEX_TRUNCATED
        | Some bs \<Rightarrow> Ok (bs, c\<lparr>cur_location := cur_location c + len\<rparr>))"

text \<open>\<open>Ok(self.take(1)?[0])\<close>: the index would panic on an empty slice.\<close>

definition cursor_byte :: "cursor \<Rightarrow> (byte \<times> cursor) outcome" where
  "cursor_byte c = bind_outcome (cursor_take 1 c)
     (\<lambda>(bs, c'). case get_at bs 0 of None \<Rightarrow> Panic | Some b \<Rightarrow> Ok (b, c'))"

text \<open>Two reads in a row, \<open>(cursor.byte()?, cursor.byte()?)\<close>.\<close>

definition cursor_byte_pair :: "cursor \<Rightarrow> ((byte \<times> byte) \<times> cursor) outcome" where
  "cursor_byte_pair c = bind_outcome (cursor_byte c)
     (\<lambda>(a, c1). bind_outcome (cursor_byte c1) (\<lambda>(b, c2). Ok ((a, b), c2)))"

fun to_le_bytes :: "nat \<Rightarrow> 'a::len word \<Rightarrow> bytes" where
  "to_le_bytes 0 w = []"
| "to_le_bytes (Suc n) w = ucast w # to_le_bytes n (drop_bit 8 w)"

fun from_le_bytes :: "bytes \<Rightarrow> 'a::len word" where
  "from_le_bytes [] = 0"
| "from_le_bytes (b # bs) = ucast b OR push_bit 8 (from_le_bytes bs)"

definition cursor_u32 :: "cursor \<Rightarrow> (32 word \<times> cursor) outcome" where
  "cursor_u32 c = map_ok (\<lambda>(bs, c'). (from_le_bytes bs, c')) (cursor_take 4 c)"

definition cursor_u64 :: "cursor \<Rightarrow> (64 word \<times> cursor) outcome" where
  "cursor_u64 c = map_ok (\<lambda>(bs, c'). (from_le_bytes bs, c')) (cursor_take 8 c)"

definition HASH_BYTES :: nat where "HASH_BYTES = 16"

definition cursor_array_16 :: "cursor \<Rightarrow> (bytes \<times> cursor) outcome" where
  "cursor_array_16 c = cursor_take HASH_BYTES c"

section \<open>Encoding and decoding a format\<close>

fun encode_record_ending :: "record_ending \<Rightarrow> bytes" where
  "encode_record_ending Newline = [0, 0]"
| "encode_record_ending (EndByte b) = [1, b]"
| "encode_record_ending CrLf = [2, 0]"

fun encode_escape :: "escape \<Rightarrow> bytes" where
  "encode_escape DoubleQuote = [0, 0]"
| "encode_escape (Backslash b) = [1, b]"
| "encode_escape EscapeMysql = [2, 0]"
| "encode_escape (Unquoted b) = [3, b]"

fun encode_comment :: "byte option \<Rightarrow> bytes" where
  "encode_comment None = [0, 0]"
| "encode_comment (Some b) = [1, b]"

fun encode_syntax :: "csv_syntax \<Rightarrow> bytes" where
  "encode_syntax Strict = [0, 0]"
| "encode_syntax (Compatible r) = [1, rec_bits r]"

fun encode_tail :: "tail \<Rightarrow> bytes" where
  "encode_tail t = (let (len, bs) = tail_parts t in len # bs)"

fun blank_code :: "blank_records \<Rightarrow> byte" where
  "blank_code BlankPreserve = 0"
| "blank_code BlankSkip = 1"

fun read_bom_code :: "read_bom \<Rightarrow> byte" where
  "read_bom_code BomDetect = 0"
| "read_bom_code BomPreserve = 1"
| "read_bom_code BomReject = 2"

fun write_bom_code :: "write_bom \<Rightarrow> byte" where
  "write_bom_code BomOmit = 0"
| "write_bom_code BomEmit = 1"

fun nulls_code :: "nulls \<Rightarrow> byte" where
  "nulls_code NullsNone = 0"
| "nulls_code PostgresCsv = 1"
| "nulls_code NullsMysql = 2"

fun quoting_code :: "quoting \<Rightarrow> byte" where
  "quoting_code Necessary = 0"
| "quoting_code Always = 1"
| "quoting_code Never = 2"
| "quoting_code NonNumeric = 3"
| "quoting_code Raw = 4"

definition encode_dialect_bytes :: "dialect \<Rightarrow> bytes" where
  "encode_dialect_bytes d =
     [delimiter d, quote d] @ encode_record_ending (record_ending d) @ encode_escape (escape d) @
     encode_comment (comment d)"

definition encode_format :: "format_options \<Rightarrow> bytes" where
  "encode_format f =
     encode_dialect_bytes (fo_dialect f) @
     [ws_bits (fo_trim f)] @
     [blank_code (fo_blank_records f)] @
     [read_bom_code (fo_read_bom f)] @
     [write_bom_code (fo_write_bom f)] @
     encode_syntax (fo_syntax f) @
     [nulls_code (fo_nulls f)] @
     [quoting_code (fo_quoting f)] @
     [of_bool (fo_skip_initial_space f)] @
     encode_tail (delimiter_tail (fo_dialect f)) @ encode_tail (ending_tail (fo_dialect f))"

definition decode_record_ending :: "cursor \<Rightarrow> (record_ending \<times> cursor) outcome" where
  "decode_record_ending c = bind_outcome (cursor_byte_pair c) (\<lambda>((k, b), c').
     if k = 0 then Ok (Newline, c') else if k = 1 then Ok (EndByte b, c')
     else if k = 2 then Ok (CrLf, c') else invalid_index ''unknown record_ending encoding'')"

definition decode_escape :: "cursor \<Rightarrow> (escape \<times> cursor) outcome" where
  "decode_escape c = bind_outcome (cursor_byte_pair c) (\<lambda>((k, b), c').
     if k = 0 then Ok (DoubleQuote, c') else if k = 1 then Ok (Backslash b, c')
     else if k = 2 then Ok (EscapeMysql, c') else if k = 3 then Ok (Unquoted b, c')
     else invalid_index ''unknown escape encoding'')"

definition decode_comment :: "cursor \<Rightarrow> (byte option \<times> cursor) outcome" where
  "decode_comment c = bind_outcome (cursor_byte_pair c) (\<lambda>((k, b), c').
     if k = 0 then Ok (None, c') else if k = 1 then Ok (Some b, c')
     else invalid_index ''unknown comment encoding'')"

definition decode_dialect :: "cursor \<Rightarrow> (dialect \<times> cursor) outcome" where
  "decode_dialect c =
     bind_outcome (cursor_byte c) (\<lambda>(dl, c).
     bind_outcome (cursor_byte c) (\<lambda>(q, c).
     bind_outcome (decode_record_ending c) (\<lambda>(ending, c).
     bind_outcome (decode_escape c) (\<lambda>(esc, c).
     bind_outcome (decode_comment c) (\<lambda>(com, c).
     bind_outcome (dialect_new dl q ending esc) (\<lambda>d.
     case com of None \<Rightarrow> Ok (d, c)
     | Some b \<Rightarrow> map_ok (\<lambda>d'. (d', c)) (dialect_with_comment d b)))))))"

definition decode_trim :: "cursor \<Rightarrow> (whitespace \<times> cursor) outcome" where
  "decode_trim c = bind_outcome (cursor_byte c) (\<lambda>(b, c').
     case ws_from_bits b of None \<Rightarrow> invalid_index ''unknown trim encoding'' | Some w \<Rightarrow> Ok (w, c'))"

text \<open>A one-byte enumeration: the code of each constructor and the message for an unknown code.\<close>

definition decode_choice :: "(byte \<times> 'a) list \<Rightarrow> string \<Rightarrow> cursor \<Rightarrow> ('a \<times> cursor) outcome" where
  "decode_choice table message c = bind_outcome (cursor_byte c) (\<lambda>(b, c').
     case map_of table b of None \<Rightarrow> invalid_index message | Some x \<Rightarrow> Ok (x, c'))"

definition decode_blank_records :: "cursor \<Rightarrow> (blank_records \<times> cursor) outcome" where
  "decode_blank_records =
     decode_choice [(0, BlankPreserve), (1, BlankSkip)] ''unknown blank-record encoding''"

definition decode_read_bom :: "cursor \<Rightarrow> (read_bom \<times> cursor) outcome" where
  "decode_read_bom =
     decode_choice [(0, BomDetect), (1, BomPreserve), (2, BomReject)] ''unknown read BOM encoding''"

definition decode_write_bom :: "cursor \<Rightarrow> (write_bom \<times> cursor) outcome" where
  "decode_write_bom = decode_choice [(0, BomOmit), (1, BomEmit)] ''unknown write BOM encoding''"

definition decode_syntax :: "cursor \<Rightarrow> (csv_syntax \<times> cursor) outcome" where
  "decode_syntax c = bind_outcome (cursor_byte_pair c) (\<lambda>((k, flags), c').
     if k = 0 then Ok (Strict, c')
     else if k = 1 then
       (case rec_from_bits flags of None \<Rightarrow> invalid_index ''unknown recovery rule encoding''
        | Some r \<Rightarrow> Ok (Compatible r, c'))
     else invalid_index ''unknown syntax mode encoding'')"

definition decode_nulls :: "cursor \<Rightarrow> (nulls \<times> cursor) outcome" where
  "decode_nulls =
     decode_choice [(0, NullsNone), (1, PostgresCsv), (2, NullsMysql)] ''unknown NULL policy encoding''"

definition decode_quoting :: "cursor \<Rightarrow> (quoting \<times> cursor) outcome" where
  "decode_quoting =
     decode_choice [(0, Necessary), (1, Always), (2, Never), (3, NonNumeric), (4, Raw)]
       ''unknown quote policy encoding''"

definition decode_initial_space :: "cursor \<Rightarrow> (bool \<times> cursor) outcome" where
  "decode_initial_space =
     decode_choice [(0, False), (1, True)] ''unknown initial-space encoding''"

text \<open>One tail: its length byte, then \<open>Tail::MAX\<close> bytes, read one at a time.\<close>

fun cursor_bytes :: "nat \<Rightarrow> cursor \<Rightarrow> (bytes \<times> cursor) outcome" where
  "cursor_bytes 0 c = Ok ([], c)"
| "cursor_bytes (Suc n) c = bind_outcome (cursor_byte c) (\<lambda>(b, c1).
     map_ok (\<lambda>(bs, c2). (b # bs, c2)) (cursor_bytes n c1))"

definition decode_tail :: "cursor \<Rightarrow> (tail \<times> cursor) outcome" where
  "decode_tail c = bind_outcome (cursor_byte c) (\<lambda>(len, c1).
     map_ok (\<lambda>(bs, c2). (tail_from_parts len bs, c2)) (cursor_bytes TAIL_MAX c1))"

definition decode_format :: "cursor \<Rightarrow> (format_options \<times> cursor) outcome" where
  "decode_format c =
     bind_outcome (decode_dialect c) (\<lambda>(d, c).
     bind_outcome (decode_trim c) (\<lambda>(trim, c).
     bind_outcome (decode_blank_records c) (\<lambda>(blank, c).
     bind_outcome (decode_read_bom c) (\<lambda>(rbom, c).
     bind_outcome (decode_write_bom c) (\<lambda>(wbom, c).
     bind_outcome (decode_syntax c) (\<lambda>(syn, c).
     bind_outcome (decode_nulls c) (\<lambda>(nl, c).
     bind_outcome (decode_quoting c) (\<lambda>(qt, c).
     bind_outcome (decode_initial_space c) (\<lambda>(skip, c).
     bind_outcome (decode_tail c) (\<lambda>(dt, c).
     bind_outcome (decode_tail c) (\<lambda>(et, c).
     bind_outcome (dialect_with_tails d dt et) (\<lambda>d'.
     Ok ((with_dialect d')\<lparr>fo_trim := trim, fo_blank_records := blank, fo_read_bom := rbom,
           fo_write_bom := wbom, fo_syntax := syn, fo_nulls := nl, fo_quoting := qt,
           fo_skip_initial_space := skip\<rparr>, c)))))))))))))"

definition usize_narrow :: "64 word \<Rightarrow> string \<Rightarrow> nat outcome" where
  "usize_narrow v what =
     (if unat v \<le> usize_max then Ok (unat v) else invalid_index what)"

definition usize_widen :: "nat \<Rightarrow> 64 word" where "usize_widen n = of_nat n"

definition encode_limits :: "limits \<Rightarrow> bytes" where
  "encode_limits l =
     to_le_bytes 8 (usize_widen (max_record_bytes l)) @
     to_le_bytes 8 (usize_widen (max_field_bytes l)) @
     to_le_bytes 8 (usize_widen (max_fields l))"

definition decode_limits :: "cursor \<Rightarrow> (limits \<times> cursor) outcome" where
  "decode_limits c =
     bind_outcome (cursor_u64 c) (\<lambda>(r, c).
     bind_outcome (usize_narrow r ''record limit does not fit usize'') (\<lambda>mr.
     bind_outcome (cursor_u64 c) (\<lambda>(f, c).
     bind_outcome (usize_narrow f ''field limit does not fit usize'') (\<lambda>mf.
     bind_outcome (cursor_u64 c) (\<lambda>(n, c).
     bind_outcome (usize_narrow n ''field-count limit does not fit usize'') (\<lambda>mn.
     Ok (\<lparr>max_record_bytes = mr, max_field_bytes = mf, max_fields = mn\<rparr>, c)))))))"

section \<open>The fixed header\<close>

text \<open>\<open>b"BCSVIDX2"\<close>.\<close>

definition MAGIC :: bytes where "MAGIC = [66, 67, 83, 86, 73, 68, 88, 50]"
definition VERSION :: "32 word" where "VERSION = 9"
definition MIN_VERSION :: "32 word" where "MIN_VERSION = 8"
definition FORMAT_BYTES :: nat where "FORMAT_BYTES = 17 + 2 * (1 + TAIL_MAX)"
definition FIXED_HEADER_BYTES :: nat where
  "FIXED_HEADER_BYTES = 8 + 4 + 8 + HASH_BYTES + FORMAT_BYTES + 24 + 8"
definition CHECKSUM_BYTES :: nat where "CHECKSUM_BYTES = HASH_BYTES"

definition trailer_bytes :: "32 word \<Rightarrow> nat" where
  "trailer_bytes version = (if version < 9 then CHECKSUM_BYTES else 2 * CHECKSUM_BYTES)"

record index_header =
  ih_version :: "32 word"
  ih_source_len :: "64 word"
  ih_source_hash :: bytes
  ih_format :: format_options
  ih_limits :: limits
  ih_count :: "64 word"

definition encode_header ::
    "64 word \<Rightarrow> bytes \<Rightarrow> format_options \<Rightarrow> limits \<Rightarrow> 64 word \<Rightarrow> bytes" where
  "encode_header source_len source_hash f l count =
     MAGIC @ to_le_bytes 4 VERSION @ to_le_bytes 8 source_len @ source_hash @
     encode_format f @ encode_limits l @ to_le_bytes 8 count"

definition decode_header :: "bytes \<Rightarrow> index_header outcome" where
  "decode_header header =
     bind_outcome (cursor_take 8 (cursor_new header)) (\<lambda>(magic, c).
     if magic \<noteq> MAGIC then invalid_index ''index magic does not match''
     else
     bind_outcome (cursor_u32 c) (\<lambda>(version, c).
     if \<not> (MIN_VERSION \<le> version \<and> version \<le> VERSION)
     then invalid_index ''unsupported index version''
     else
     bind_outcome (cursor_u64 c) (\<lambda>(source_len, c).
     bind_outcome (cursor_array_16 c) (\<lambda>(source_hash, c).
     bind_outcome (decode_format c) (\<lambda>(f, c).
     bind_outcome (decode_limits c) (\<lambda>(l, c).
     bind_outcome (cursor_u64 c) (\<lambda>(count, c).
     Ok \<lparr>ih_version = version, ih_source_len = source_len, ih_source_hash = source_hash,
         ih_format = f, ih_limits = l, ih_count = count\<rparr>)))))))"

section \<open>Stored entries\<close>

definition INDEX_LENGTH_OVERFLOW :: string where
  "INDEX_LENGTH_OVERFLOW = ''index length overflows u64''"

definition RECORD_OFFSET_EXCEEDS_SOURCE :: string where
  "RECORD_OFFSET_EXCEEDS_SOURCE = ''record offset exceeds source''"
definition RECORD_OFFSETS_NOT_INCREASING :: string where
  "RECORD_OFFSETS_NOT_INCREASING = ''record offsets are not strictly increasing''"
definition RECORD_LINES_INVALID :: string where
  "RECORD_LINES_INVALID = ''record lines are not valid and nondecreasing''"

definition entry_location :: "64 word \<Rightarrow> 64 word \<Rightarrow> 64 word \<Rightarrow> nat \<Rightarrow> location outcome" where
  "entry_location offset line source_len rec =
     (if offset \<ge> source_len then invalid_index RECORD_OFFSET_EXCEEDS_SOURCE
      else Ok \<lparr>loc_byte = unat offset, loc_line = unat line, loc_record = rec, loc_field = 0\<rparr>)"

definition check_entry_bounds :: "64 word \<Rightarrow> 64 word \<Rightarrow> 64 word \<Rightarrow> unit outcome" where
  "check_entry_bounds offset line source_len =
     (if offset \<ge> source_len then invalid_index RECORD_OFFSET_EXCEEDS_SOURCE
      else if line = 0 then invalid_index RECORD_LINES_INVALID
      else Ok ())"

definition check_first_entry :: "64 word \<Rightarrow> 64 word \<Rightarrow> 64 word \<Rightarrow> unit outcome" where
  "check_first_entry offset line source_len = check_entry_bounds offset line source_len"

definition check_entry ::
    "64 word \<Rightarrow> 64 word \<Rightarrow> 64 word \<Rightarrow> 64 word option \<Rightarrow> 64 word option \<Rightarrow> unit outcome" where
  "check_entry offset line source_len previous_offset previous_line =
     bind_outcome (check_entry_bounds offset line source_len) (\<lambda>_.
       if (case previous_offset of None \<Rightarrow> False | Some p \<Rightarrow> offset \<le> p)
       then invalid_index RECORD_OFFSETS_NOT_INCREASING
       else if (case previous_line of None \<Rightarrow> False | Some p \<Rightarrow> line < p)
       then invalid_index RECORD_LINES_INVALID
       else Ok ())"

text \<open>\<open>checked_mul\<close> and \<open>checked_add\<close> on \<open>u64\<close>.\<close>

definition checked_mul :: "64 word \<Rightarrow> 64 word \<Rightarrow> 64 word option" where
  "checked_mul a b = (if unat a * unat b < 2 ^ 64 then Some (a * b) else None)"

definition checked_add :: "64 word \<Rightarrow> 64 word \<Rightarrow> 64 word option" where
  "checked_add a b = (if unat a + unat b < 2 ^ 64 then Some (a + b) else None)"

definition payload_len :: "64 word \<Rightarrow> 64 word outcome" where
  "payload_len count =
     (case Option.bind (checked_mul count 16) (\<lambda>bs. checked_add bs (of_nat FIXED_HEADER_BYTES)) of
        None \<Rightarrow> invalid_index INDEX_LENGTH_OVERFLOW | Some n \<Rightarrow> Ok n)"

section \<open>The contract of an encoder and its decoder\<close>

text \<open>\<open>cursor_at c xs\<close>: the cursor is inside its slice and \<open>xs\<close> is what it has left.\<close>

definition cursor_at :: "cursor \<Rightarrow> bytes \<Rightarrow> bool" where
  "cursor_at c xs \<longleftrightarrow>
     cur_location c \<le> length (cur_bytes c) \<and> length (cur_bytes c) \<le> usize_max \<and>
     drop (cur_location c) (cur_bytes c) = xs"

definition advance :: "nat \<Rightarrow> cursor \<Rightarrow> cursor" where
  "advance n c = c\<lparr>cur_location := cur_location c + n\<rparr>"

lemma advance_simps [simp]:
  "cur_bytes (advance n c) = cur_bytes c" "cur_location (advance n c) = cur_location c + n"
  "advance 0 c = c"
  by (cases c; simp add: advance_def)+

lemma advance_advance [simp]: "advance m (advance n c) = advance (n + m) c"
  by (cases c) (simp add: advance_def)

lemma cursor_at_advance [simp]:
  assumes "cursor_at c (xs @ ys)" "length xs = n"
  shows "cursor_at (advance n c) ys"
proof -
  have "length (cur_bytes c) - cur_location c = length xs + length ys"
    using assms unfolding cursor_at_def by (metis length_append length_drop)
  moreover have "drop n (xs @ ys) = ys" using assms(2) by simp
  ultimately show ?thesis
    using assms unfolding cursor_at_def by (auto simp: add.commute simp flip: drop_drop)
qed

lemma cursor_at_new: "length bs \<le> usize_max \<Longrightarrow> cursor_at (cursor_new bs) bs"
  by (simp add: cursor_at_def cursor_new_def)

lemma cursor_take_at:
  assumes "cursor_at c (xs @ rest)" "length xs = n"
  shows "cursor_take n c = Ok (xs, advance n c)"
proof -
  have len: "length (cur_bytes c) - cur_location c = length xs + length rest"
    using assms unfolding cursor_at_def by (metis length_append length_drop)
  then have "cur_location c + n \<le> length (cur_bytes c)"
    using assms unfolding cursor_at_def by linarith
  moreover have "slice (cur_bytes c) (cur_location c) (cur_location c + n) = xs"
    using assms unfolding cursor_at_def slice_def by simp
  ultimately show ?thesis
    using assms by (simp add: cursor_take_def get_range_def cursor_at_def advance_def)
qed

lemma cursor_take_not_Panic [simp]: "cursor_take n c \<noteq> Panic"
  by (simp add: cursor_take_def invalid_index_def split: option.splits)

lemma cursor_take_OkD:
  assumes "cursor_take n c = Ok (bs, c')"
  shows "length bs = n" "c' = advance n c" "cur_location c + n \<le> length (cur_bytes c)"
    "bs = slice (cur_bytes c) (cur_location c) (cur_location c + n)"
  using assms
  by (auto simp: cursor_take_def get_range_def invalid_index_def advance_def
      split: if_splits option.splits)

text \<open>
  A well-behaved reader never panics and only moves forward over the same bytes. The rules
  below follow the shape of the decoders.
\<close>

definition well_behaved :: "(cursor \<Rightarrow> ('a \<times> cursor) outcome) \<Rightarrow> bool" where
  "well_behaved dec \<longleftrightarrow> (\<forall>c. dec c \<noteq> Panic) \<and> (\<forall>c x c'. dec c = Ok (x, c') \<longrightarrow> (\<exists>n. c' = advance n c))"

named_theorems wb_intros \<open>rules for well-behaved readers\<close>

lemma well_behavedD: "well_behaved dec \<Longrightarrow> dec c \<noteq> Panic"
  by (simp add: well_behaved_def)

lemma wb_take [wb_intros]: "well_behaved (cursor_take n)"
  unfolding well_behaved_def using cursor_take_OkD(2) by fastforce

lemma wb_return [wb_intros]: "well_behaved (\<lambda>c. Ok (x, c))"
  unfolding well_behaved_def by (metis Pair_inject advance_simps(3) outcome.distinct(3) outcome.inject(1))

lemma wb_invalid [wb_intros]: "well_behaved (\<lambda>c. invalid_index m)"
  by (simp add: well_behaved_def invalid_index_def)

lemma wb_bind [wb_intros]:
  assumes d: "well_behaved dec" and f: "\<And>x. well_behaved (f x)"
  shows "well_behaved (\<lambda>c. bind_outcome (dec c) (case_prod f))"
proof -
  have "bind_outcome (dec c) (case_prod f) \<noteq> Panic" for c
  proof (cases "dec c")
    case (Ok p) then show ?thesis using f by (cases p) (simp add: well_behaved_def)
  next
    case Panic then show ?thesis using d by (simp add: well_behaved_def)
  qed simp
  moreover have "\<exists>n. c' = advance n c"
    if step: "bind_outcome (dec c) (case_prod f) = Ok (x, c')" for c x c'
  proof -
    obtain y c1 where "dec c = Ok (y, c1)" "f y c1 = Ok (x, c')"
      using step by (auto simp: bind_outcome_Ok_iff)
    then obtain m n where "c1 = advance m c" "c' = advance n c1"
      using d f unfolding well_behaved_def by metis
    then show ?thesis by auto
  qed
  ultimately show ?thesis by (simp add: well_behaved_def)
qed

lemma wb_map_ok [wb_intros]:
  assumes "well_behaved dec"
  shows "well_behaved (\<lambda>c. map_ok (\<lambda>(x, c'). (g x, c')) (dec c))"
proof -
  have "map_ok (\<lambda>(x, c'). (g x, c')) r = bind_outcome r (case_prod (\<lambda>x c'. Ok (g x, c')))"
    for r :: "('a \<times> cursor) outcome"
    by (cases r) auto
  then show ?thesis using wb_bind [OF assms wb_return] by (simp only:)
qed

lemma wb_pure [wb_intros]:
  "r \<noteq> Panic \<Longrightarrow> (\<And>x. well_behaved (f x)) \<Longrightarrow> well_behaved (\<lambda>c. bind_outcome r (\<lambda>x. f x c))"
  by (cases r) (auto simp: well_behaved_def)

lemma wb_pure_map [wb_intros]:
  "r \<noteq> Panic \<Longrightarrow> well_behaved (\<lambda>c. map_ok (\<lambda>x. (g x, c)) r)"
  by (cases r) (simp_all add: wb_return, simp add: well_behaved_def)

lemma wb_if [wb_intros]:
  "well_behaved f \<Longrightarrow> well_behaved g \<Longrightarrow> well_behaved (\<lambda>c. if b then f c else g c)"
  by (cases b) simp_all

lemma wb_option [wb_intros]:
  "well_behaved f \<Longrightarrow> (\<And>x. well_behaved (g x)) \<Longrightarrow>
     well_behaved (\<lambda>c. case v of None \<Rightarrow> f c | Some x \<Rightarrow> g x c)"
  by (cases v) auto

lemma wb_pair [wb_intros]:
  "(\<And>a b. well_behaved (f a b)) \<Longrightarrow> well_behaved (\<lambda>c. (case p of (a, b) \<Rightarrow> f a b) c)"
  by (cases p) auto

text \<open>A decoder inverts its encoder on the valid items, whatever follows them.\<close>

locale codec =
  fixes enc :: "'a \<Rightarrow> bytes" and dec :: "cursor \<Rightarrow> ('a \<times> cursor) outcome" and valid :: "'a \<Rightarrow> bool"
  assumes dec_enc:
      "valid x \<Longrightarrow> cursor_at c (enc x @ rest) \<Longrightarrow> dec c = Ok (x, advance (length (enc x)) c)"
    and reader_ok: "well_behaved dec"
begin

lemma bind_dec:
  "valid x \<Longrightarrow> cursor_at c (enc x @ rest) \<Longrightarrow>
     bind_outcome (dec c) f = f (x, advance (length (enc x)) c)"
  by (simp add: dec_enc)

lemma consume:
  assumes "valid x" "cursor_at c (enc x @ rest)"
  obtains c' where "dec c = Ok (x, c')" "cursor_at c' rest" "c' = advance (length (enc x)) c"
  using assms cursor_at_advance [OF assms(2) refl] dec_enc by blast

lemma whole: "valid x \<Longrightarrow> length (enc x) \<le> usize_max \<Longrightarrow>
    map_ok fst (dec (cursor_new (enc x))) = Ok x"
  using dec_enc [of x "cursor_new (enc x)" "[]"] by (simp add: cursor_at_new)

lemma enc_inj: "valid x \<Longrightarrow> valid y \<Longrightarrow> length (enc x) \<le> usize_max \<Longrightarrow> enc x = enc y \<Longrightarrow> x = y"
  by (metis whole outcome.inject(1))

end

section \<open>The items of the header keep the contract\<close>

lemma cursor_byte_at: "cursor_at c (b # rest) \<Longrightarrow> cursor_byte c = Ok (b, advance 1 c)"
  using cursor_take_at [of c "[b]" rest 1] by (simp add: cursor_byte_def get_at_Cons)

lemma wb_byte [wb_intros]: "well_behaved cursor_byte"
  unfolding well_behaved_def cursor_byte_def
proof (intro conjI allI impI)
  fix c
  show "bind_outcome (cursor_take 1 c)
      (\<lambda>(bs, c'). case get_at bs 0 of None \<Rightarrow> Panic | Some b \<Rightarrow> Ok (b, c')) \<noteq> Panic"
    using cursor_take_OkD(1) [of 1 c] cursor_take_not_Panic [of 1 c]
    by (cases "cursor_take 1 c") (auto simp: get_at_def split: if_splits)
  fix x c'
  assume "bind_outcome (cursor_take 1 c)
      (\<lambda>(bs, c'). case get_at bs 0 of None \<Rightarrow> Panic | Some b \<Rightarrow> Ok (b, c')) = Ok (x, c')"
  then show "\<exists>n. c' = advance n c"
    using cursor_take_OkD(2) [of 1 c] by (auto simp: bind_outcome_Ok_iff split: option.splits)
qed

interpretation byte: codec "\<lambda>b. [b]" cursor_byte "\<lambda>_. True"
  by unfold_locales (auto simp: cursor_byte_at intro: wb_intros)

lemma cursor_byte_pair_at:
  assumes "cursor_at c (a # b # rest)"
  shows "cursor_byte_pair c = Ok ((a, b), advance 2 c)"
proof -
  have "cursor_at (advance 1 c) (b # rest)"
    using cursor_at_advance [of c "[a]" "b # rest"] assms by simp
  then show ?thesis
    using assms by (simp add: cursor_byte_pair_def cursor_byte_at numeral_2_eq_2)
qed

lemma wb_byte_pair [wb_intros]: "well_behaved cursor_byte_pair"
  unfolding cursor_byte_pair_def [abs_def] by (intro wb_intros)

lemma length_to_le_bytes [simp]: "length (to_le_bytes n w) = n"
  by (induction n arbitrary: w) auto

lemma from_le_to_le:
  "from_le_bytes (to_le_bytes n (w :: 'a::len word)) = take_bit (8 * n) w"
proof (induction n arbitrary: w)
  case (Suc n)
  show ?case
    by (rule bit_eqI) (auto simp: Suc bit_simps)
qed simp

lemma from_le_to_le_32: "from_le_bytes (to_le_bytes 4 (w :: 32 word)) = w"
  by (simp add: from_le_to_le take_bit_length_eq [where 'a=32, simplified])

lemma from_le_to_le_64: "from_le_bytes (to_le_bytes 8 (w :: 64 word)) = w"
  by (simp add: from_le_to_le take_bit_length_eq [where 'a=64, simplified])

interpretation u32: codec "to_le_bytes 4 :: 32 word \<Rightarrow> bytes" cursor_u32 "\<lambda>_. True"
  by unfold_locales
    (auto simp: cursor_u32_def [abs_def] cursor_take_at from_le_to_le_32 intro: wb_intros)

interpretation u64: codec "to_le_bytes 8 :: 64 word \<Rightarrow> bytes" cursor_u64 "\<lambda>_. True"
  by unfold_locales
    (auto simp: cursor_u64_def [abs_def] cursor_take_at from_le_to_le_64 intro: wb_intros)

interpretation hash16: codec "\<lambda>bs :: bytes. bs" cursor_array_16 "\<lambda>bs. length bs = HASH_BYTES"
  by unfold_locales (auto simp: cursor_array_16_def [abs_def] cursor_take_at intro: wb_intros)

interpretation ending: codec encode_record_ending decode_record_ending "\<lambda>_. True"
proof
  show "decode_record_ending c = Ok (x, advance (length (encode_record_ending x)) c)"
    if "cursor_at c (encode_record_ending x @ rest)" for x c rest
    using that by (cases x) (auto simp: decode_record_ending_def dest!: cursor_byte_pair_at)
  show "well_behaved decode_record_ending"
    unfolding decode_record_ending_def [abs_def] by (intro wb_intros)
qed

interpretation esc: codec encode_escape decode_escape "\<lambda>_. True"
proof
  show "decode_escape c = Ok (x, advance (length (encode_escape x)) c)"
    if "cursor_at c (encode_escape x @ rest)" for x c rest
    using that by (cases x) (auto simp: decode_escape_def dest!: cursor_byte_pair_at)
  show "well_behaved decode_escape"
    unfolding decode_escape_def [abs_def] by (intro wb_intros)
qed

interpretation com: codec encode_comment decode_comment "\<lambda>_. True"
proof
  show "decode_comment c = Ok (x, advance (length (encode_comment x)) c)"
    if "cursor_at c (encode_comment x @ rest)" for x c rest
    using that by (cases x) (auto simp: decode_comment_def dest!: cursor_byte_pair_at)
  show "well_behaved decode_comment"
    unfolding decode_comment_def [abs_def] by (intro wb_intros)
qed

text \<open>The recovery flags a program can build are the four the crate names.\<close>

fun syntax_wf :: "csv_syntax \<Rightarrow> bool" where
  "syntax_wf Strict = True"
| "syntax_wf (Compatible r) = (rec_flags r AND NOT (rec_flags REC_PERMISSIVE) = 0)"

interpretation syn: codec encode_syntax decode_syntax syntax_wf
proof
  show "decode_syntax c = Ok (x, advance (length (encode_syntax x)) c)"
    if "syntax_wf x" "cursor_at c (encode_syntax x @ rest)" for x c rest
    using that
    by (cases x) (auto simp: decode_syntax_def rec_from_bits_bits dest!: cursor_byte_pair_at)
  show "well_behaved decode_syntax"
    unfolding decode_syntax_def [abs_def] by (intro wb_intros)
qed

interpretation trim: codec "\<lambda>w. [ws_bits w]" decode_trim "\<lambda>_. True"
proof
  show "decode_trim c = Ok (x, advance (length [ws_bits x]) c)"
    if "cursor_at c ([ws_bits x] @ rest)" for x c rest
    using that by (auto simp: decode_trim_def ws_from_bits_bits dest!: cursor_byte_at)
  show "well_behaved decode_trim"
    unfolding decode_trim_def [abs_def] by (intro wb_intros)
qed

lemma decode_choice_codec:
  assumes "\<And>x. map_of table (code x) = Some x"
  shows "codec (\<lambda>x. [code x]) (decode_choice table message) (\<lambda>_. True)"
proof
  show "decode_choice table message c = Ok (x, advance (length [code x]) c)"
    if "cursor_at c ([code x] @ rest)" for x c rest
    using that by (auto simp: decode_choice_def assms dest!: cursor_byte_at)
  show "well_behaved (decode_choice table message)"
    unfolding decode_choice_def [abs_def] by (intro wb_intros)
qed

interpretation blank: codec
  "\<lambda>b. [blank_code b]" decode_blank_records "\<lambda>_. True"
  unfolding decode_blank_records_def
  by (rule decode_choice_codec, rename_tac y, case_tac y) simp_all

interpretation rbom: codec
  "\<lambda>b. [read_bom_code b]" decode_read_bom "\<lambda>_. True"
  unfolding decode_read_bom_def by (rule decode_choice_codec, rename_tac y, case_tac y) simp_all

interpretation wbom: codec
  "\<lambda>b. [write_bom_code b]" decode_write_bom "\<lambda>_. True"
  unfolding decode_write_bom_def by (rule decode_choice_codec, rename_tac y, case_tac y) simp_all

interpretation nul: codec
  "\<lambda>n. [nulls_code n]" decode_nulls "\<lambda>_. True"
  unfolding decode_nulls_def by (rule decode_choice_codec, rename_tac y, case_tac y) simp_all

interpretation quo: codec
  "\<lambda>q. [quoting_code q]"
  decode_quoting "\<lambda>_. True"
  unfolding decode_quoting_def by (rule decode_choice_codec, rename_tac y, case_tac y) simp_all

interpretation skip: codec "\<lambda>b. [of_bool b]" decode_initial_space "\<lambda>_. True"
  unfolding decode_initial_space_def by (rule decode_choice_codec) simp

lemma cursor_bytes_at:
  "cursor_at c (bs @ rest) \<Longrightarrow> length bs = n \<Longrightarrow> cursor_bytes n c = Ok (bs, advance n c)"
proof (induction n arbitrary: c bs)
  case (Suc n)
  then obtain b bs' where bs: "bs = b # bs'" "length bs' = n" by (cases bs) auto
  have "cursor_at (advance 1 c) (bs' @ rest)"
    using cursor_at_advance [of c "[b]" "bs' @ rest"] Suc.prems bs by simp
  then show ?case using Suc bs by (simp add: cursor_byte_at)
qed simp

lemma wb_bytes [wb_intros]: "well_behaved (cursor_bytes n)"
proof (induction n)
  case 0 show ?case
    using wb_return [of "[] :: bytes"] by (simp add: well_behaved_def)
next
  case (Suc n)
  have "well_behaved (\<lambda>c. map_ok (\<lambda>(bs, c2). (b # bs, c2)) (cursor_bytes n c))" for b :: byte
    by (rule wb_map_ok [OF Suc])
  then have "well_behaved (\<lambda>c. bind_outcome (cursor_byte c)
      (case_prod (\<lambda>b c1. map_ok (\<lambda>(bs, c2). (b # bs, c2)) (cursor_bytes n c1))))"
    by (intro wb_bind wb_byte)
  then show ?case by (simp add: well_behaved_def)
qed

interpretation tl: codec encode_tail decode_tail tail_wf
proof
  show "decode_tail c = Ok (x, advance (length (encode_tail x)) c)"
    if wf: "tail_wf x" and at: "cursor_at c (encode_tail x @ rest)" for x c rest
  proof -
    have "cursor_at (advance 1 c) (tail_bytes x @ rest)"
      using cursor_at_advance [of c "[tail_len x]" "tail_bytes x @ rest"] at
      by (simp add: tail_parts_def)
    then have "cursor_bytes TAIL_MAX (advance 1 c) = Ok (tail_bytes x, advance TAIL_MAX (advance 1 c))"
      using wf by (intro cursor_bytes_at) (simp_all add: tail_wf_def)
    moreover have "cursor_byte c = Ok (tail_len x, advance 1 c)"
      using at by (simp add: tail_parts_def cursor_byte_at)
    ultimately show ?thesis
      using wf by (simp add: decode_tail_def tail_parts_def tail_wf_def tail_from_parts_def)
  qed
  show "well_behaved decode_tail"
    unfolding decode_tail_def [abs_def] by (intro wb_intros)
qed

section \<open>Dialect, format, limits\<close>

lemma dialect_new_valid:
  assumes "invalidity d = None" "delimiter_tail d = TAIL_EMPTY" "ending_tail d = TAIL_EMPTY"
  shows "dialect_new (delimiter d) (quote d) (record_ending d) (escape d) = Ok (d\<lparr>comment := None\<rparr>)"
proof -
  have "\<lparr>delimiter = delimiter d, quote = quote d, record_ending = record_ending d,
      escape = escape d, comment = None, delimiter_tail = TAIL_EMPTY, ending_tail = TAIL_EMPTY\<rparr> =
      d\<lparr>comment := None\<rparr>"
    using assms(2,3) by (cases d) simp
  moreover have "invalidity (d\<lparr>comment := None\<rparr>) = None"
    by (rule invalidity_without_comment [OF assms(1)])
  ultimately show ?thesis
    unfolding dialect_new_def Let_def by (simp add: dialect_validate_def)
qed

lemma dialect_with_comment_valid:
  "invalidity d = None \<Longrightarrow> comment d = Some b \<Longrightarrow> dialect_with_comment (d\<lparr>comment := None\<rparr>) b = Ok d"
  by (cases d) (simp add: dialect_with_comment_def Let_def dialect_validate_def)

definition plain_dialect :: "dialect \<Rightarrow> bool" where
  "plain_dialect d \<longleftrightarrow>
     invalidity d = None \<and> delimiter_tail d = TAIL_EMPTY \<and> ending_tail d = TAIL_EMPTY"

lemma decode_dialect_at:
  assumes d: "plain_dialect d" and at: "cursor_at c (encode_dialect_bytes d @ rest)"
  shows "decode_dialect c = Ok (d, advance (length (encode_dialect_bytes d)) c)"
proof -
  have "cursor_at c ([delimiter d] @ [quote d] @ encode_record_ending (record_ending d) @
      encode_escape (escape d) @ encode_comment (comment d) @ rest)"
    using at by (simp add: encode_dialect_bytes_def)
  then obtain c1 where 1: "cursor_byte c = Ok (delimiter d, c1)" "c1 = advance 1 c"
    and at1: "cursor_at c1 ([quote d] @ encode_record_ending (record_ending d) @
      encode_escape (escape d) @ encode_comment (comment d) @ rest)"
    using byte.consume [OF TrueI] by (metis One_nat_def length_Cons list.size(3))
  obtain c2 where 2: "cursor_byte c1 = Ok (quote d, c2)" "c2 = advance 1 c1"
    and at2: "cursor_at c2 (encode_record_ending (record_ending d) @
      encode_escape (escape d) @ encode_comment (comment d) @ rest)"
    using byte.consume [OF TrueI at1] by (metis One_nat_def length_Cons list.size(3))
  obtain c3 where 3: "decode_record_ending c2 = Ok (record_ending d, c3)"
      "c3 = advance (length (encode_record_ending (record_ending d))) c2"
    and at3: "cursor_at c3 (encode_escape (escape d) @ encode_comment (comment d) @ rest)"
    using ending.consume [OF TrueI at2] by blast
  obtain c4 where 4: "decode_escape c3 = Ok (escape d, c4)"
      "c4 = advance (length (encode_escape (escape d))) c3"
    and at4: "cursor_at c4 (encode_comment (comment d) @ rest)"
    using esc.consume [OF TrueI at3] by blast
  obtain c5 where 5: "decode_comment c4 = Ok (comment d, c5)"
      "c5 = advance (length (encode_comment (comment d))) c4"
    using com.consume [OF TrueI at4] by blast
  have "c5 = advance (length (encode_dialect_bytes d)) c"
    using 1(2) 2(2) 3(2) 4(2) 5(2) by (simp add: encode_dialect_bytes_def add_ac)
  moreover have "d\<lparr>comment := None\<rparr> = d" if "comment d = None" using that by (cases d) simp
  ultimately show ?thesis
    unfolding decode_dialect_def using 1(1) 2(1) 3(1) 4(1) 5(1) d
    by (cases "comment d")
      (simp_all add: plain_dialect_def dialect_new_valid dialect_with_comment_valid)
qed

lemma dialect_new_not_Panic: "dialect_new a b c d \<noteq> Panic"
  using dialect_validate_not_Panic
  by (auto simp: dialect_new_def Let_def) (metis bind_outcome.elims outcome.distinct(3) outcome.distinct(5))

lemma dialect_with_comment_not_Panic: "dialect_with_comment d b \<noteq> Panic"
  by (auto simp: dialect_with_comment_def Let_def dialect_validate_def split: option.splits)

lemma dialect_with_tails_not_Panic: "dialect_with_tails d dt et \<noteq> Panic"
  by (auto simp: dialect_with_tails_def Let_def dialect_validate_def split: option.splits)

interpretation dial: codec encode_dialect_bytes decode_dialect plain_dialect
proof
  show "decode_dialect c = Ok (x, advance (length (encode_dialect_bytes x)) c)"
    if "plain_dialect x" "cursor_at c (encode_dialect_bytes x @ rest)" for x c rest
    using that by (rule decode_dialect_at)
  show "well_behaved decode_dialect"
    unfolding decode_dialect_def [abs_def]
    by (intro wb_intros ending.reader_ok esc.reader_ok com.reader_ok dialect_new_not_Panic
        dialect_with_comment_not_Panic)
qed

text \<open>
  The formats a header can carry: a valid dialect and the recovery flags the crate names, whatever
  the tag. The tag is not written; a decoded format has the \<open>Custom\<close> one.
\<close>

definition format_wf :: "format_options \<Rightarrow> bool" where
  "format_wf f \<longleftrightarrow>
     invalidity (fo_dialect f) = None \<and> tail_wf (delimiter_tail (fo_dialect f)) \<and>
     tail_wf (ending_tail (fo_dialect f)) \<and> syntax_wf (fo_syntax f)"

definition untagged :: "format_options \<Rightarrow> format_options" where
  "untagged f = f\<lparr>fo_tag := TagCustom\<rparr>"

lemma untagged_simps [simp]:
  "fo_dialect (untagged f) = fo_dialect f" "fo_tag (untagged f) = TagCustom" "untagged (untagged f) = untagged f"
  "encode_format (untagged f) = encode_format f" "format_wf (untagged f) \<longleftrightarrow> format_wf f" "format_eq (untagged f) f"
  by (simp_all add: untagged_def encode_format_def format_wf_def format_eq_def)

definition without_tails :: "dialect \<Rightarrow> dialect" where
  "without_tails d = d\<lparr>delimiter_tail := TAIL_EMPTY, ending_tail := TAIL_EMPTY\<rparr>"

lemma encode_without_tails: "encode_dialect_bytes (without_tails d) = encode_dialect_bytes d"
  by (simp add: encode_dialect_bytes_def without_tails_def)

lemma plain_without_tails: "invalidity d = None \<Longrightarrow> plain_dialect (without_tails d)"
  by (cases d) (simp add: plain_dialect_def without_tails_def flip: invalidity_without_tails)

lemma with_tails_without:
  "invalidity d = None \<Longrightarrow>
     dialect_with_tails (without_tails d) (delimiter_tail d) (ending_tail d) = Ok d"
  by (cases d) (simp add: dialect_with_tails_def without_tails_def dialect_validate_def)

lemma decode_format_at:
  assumes f: "format_wf f" and at: "cursor_at c (encode_format f @ rest)"
  shows "decode_format c = Ok (untagged f, advance (length (encode_format f)) c)"
proof -
  let ?d = "fo_dialect f"
  have d: "invalidity ?d = None" "tail_wf (delimiter_tail ?d)" "tail_wf (ending_tail ?d)"
    "syntax_wf (fo_syntax f)"
    using f by (simp_all add: format_wf_def)
  note at0 = at [unfolded encode_format_def append_assoc, folded encode_without_tails [of ?d]]
  let ?r11 = "rest"
  let ?r10 = "encode_tail (ending_tail ?d) @ ?r11"
  let ?r9 = "encode_tail (delimiter_tail ?d) @ ?r10"
  let ?r8 = "[of_bool (fo_skip_initial_space f)] @ ?r9"
  let ?r7 = "[quoting_code (fo_quoting f)] @ ?r8"
  let ?r6 = "[nulls_code (fo_nulls f)] @ ?r7"
  let ?r5 = "encode_syntax (fo_syntax f) @ ?r6"
  let ?r4 = "[write_bom_code (fo_write_bom f)] @ ?r5"
  let ?r3 = "[read_bom_code (fo_read_bom f)] @ ?r4"
  let ?r2 = "[blank_code (fo_blank_records f)] @ ?r3"
  let ?r1 = "[ws_bits (fo_trim f)] @ ?r2"
  obtain c1 where 1: "decode_dialect c = Ok (without_tails ?d, c1)" and at1: "cursor_at c1 ?r1"
    and a1: "c1 = advance (length (encode_dialect_bytes (without_tails ?d))) c"
    by (rule dial.consume [OF plain_without_tails [OF d(1)] at0])
  obtain c2 where 2: "decode_trim c1 = Ok (fo_trim f, c2)" and at2: "cursor_at c2 ?r2"
    and a2: "c2 = advance 1 c1"
    by (rule trim.consume [OF TrueI at1]) simp
  obtain c3 where 3: "decode_blank_records c2 = Ok (fo_blank_records f, c3)" and at3: "cursor_at c3 ?r3"
    and a3: "c3 = advance 1 c2"
    by (rule blank.consume [OF TrueI at2]) simp
  obtain c4 where 4: "decode_read_bom c3 = Ok (fo_read_bom f, c4)" and at4: "cursor_at c4 ?r4"
    and a4: "c4 = advance 1 c3"
    by (rule rbom.consume [OF TrueI at3]) simp
  obtain c5 where 5: "decode_write_bom c4 = Ok (fo_write_bom f, c5)" and at5: "cursor_at c5 ?r5"
    and a5: "c5 = advance 1 c4"
    by (rule wbom.consume [OF TrueI at4]) simp
  obtain c6 where 6: "decode_syntax c5 = Ok (fo_syntax f, c6)" and at6: "cursor_at c6 ?r6"
    and a6: "c6 = advance (length (encode_syntax (fo_syntax f))) c5"
    by (rule syn.consume [OF d(4) at5])
  obtain c7 where 7: "decode_nulls c6 = Ok (fo_nulls f, c7)" and at7: "cursor_at c7 ?r7"
    and a7: "c7 = advance 1 c6"
    by (rule nul.consume [OF TrueI at6]) simp
  obtain c8 where 8: "decode_quoting c7 = Ok (fo_quoting f, c8)" and at8: "cursor_at c8 ?r8"
    and a8: "c8 = advance 1 c7"
    by (rule quo.consume [OF TrueI at7]) simp
  obtain c9 where 9: "decode_initial_space c8 = Ok (fo_skip_initial_space f, c9)" and at9: "cursor_at c9 ?r9"
    and a9: "c9 = advance 1 c8"
    by (rule skip.consume [OF TrueI at8]) simp
  obtain c10 where 10: "decode_tail c9 = Ok (delimiter_tail ?d, c10)" and at10: "cursor_at c10 ?r10"
    and a10: "c10 = advance (length (encode_tail (delimiter_tail ?d))) c9"
    by (rule tl.consume [OF d(2) at9])
  obtain c11 where 11: "decode_tail c10 = Ok (ending_tail ?d, c11)" and at11: "cursor_at c11 ?r11"
    and a11: "c11 = advance (length (encode_tail (ending_tail ?d))) c10"
    by (rule tl.consume [OF d(3) at10])
  have "c11 = advance (length (encode_format f)) c"
    unfolding encode_format_def a11 a10 a9 a8 a7 a6 a5 a4 a3 a2 a1 by (simp add: encode_without_tails add_ac)
  moreover have "(with_dialect ?d)\<lparr>fo_trim := fo_trim f, fo_blank_records := fo_blank_records f,
      fo_read_bom := fo_read_bom f, fo_write_bom := fo_write_bom f, fo_syntax := fo_syntax f,
      fo_nulls := fo_nulls f, fo_quoting := fo_quoting f,
      fo_skip_initial_space := fo_skip_initial_space f\<rparr> = untagged f"
    by (cases f) (simp add: with_dialect_def untagged_def)
  ultimately show ?thesis
    unfolding decode_format_def
    by (simp only: 1 2 3 4 5 6 7 8 9 10 11 with_tails_without [OF d(1)] bind_outcome.simps prod.case)
qed

lemma untagged_same: "fo_tag f = TagCustom \<Longrightarrow> untagged f = f"
  by (cases f) (simp add: untagged_def)

interpretation fmt: codec encode_format decode_format "\<lambda>f. format_wf f \<and> fo_tag f = TagCustom"
proof
  show "decode_format c = Ok (x, advance (length (encode_format x)) c)"
    if "format_wf x \<and> fo_tag x = TagCustom" "cursor_at c (encode_format x @ rest)" for x c rest
    using that decode_format_at [of x c rest] by (simp add: untagged_same)
  show "well_behaved decode_format"
    unfolding decode_format_def [abs_def]
    by (intro wb_intros dial.reader_ok trim.reader_ok blank.reader_ok rbom.reader_ok
        wbom.reader_ok syn.reader_ok nul.reader_ok quo.reader_ok skip.reader_ok tl.reader_ok
        dialect_with_tails_not_Panic)
qed

definition limits_wf :: "limits \<Rightarrow> bool" where
  "limits_wf l \<longleftrightarrow>
     max_record_bytes l \<le> usize_max \<and> max_field_bytes l \<le> usize_max \<and> max_fields l \<le> usize_max"

lemma usize_narrow_widen: "n \<le> usize_max \<Longrightarrow> usize_narrow (usize_widen n) what = Ok n"
  by (simp add: usize_narrow_def usize_widen_def usize_max_def unsigned_of_nat take_bit_nat_eq_self)

lemma usize_narrow_not_Panic: "usize_narrow v what \<noteq> Panic"
  by (simp add: usize_narrow_def invalid_index_def)

lemma usize_narrow_64: "usize_narrow v what = Ok (unat v)"
  using unsigned_less [of v, where ?'a = nat] by (simp add: usize_narrow_def usize_max_def)

interpretation lim: codec encode_limits decode_limits limits_wf
proof
  fix x c rest
  assume x: "limits_wf x" and at: "cursor_at c (encode_limits x @ rest)"
  note at0 = at [unfolded encode_limits_def append_assoc]
  obtain c1 where 1: "cursor_u64 c = Ok (usize_widen (max_record_bytes x), c1)" "c1 = advance 8 c"
    and at1: "cursor_at c1 (to_le_bytes 8 (usize_widen (max_field_bytes x)) @
      to_le_bytes 8 (usize_widen (max_fields x)) @ rest)"
    by (rule u64.consume [OF TrueI at0]) simp
  obtain c2 where 2: "cursor_u64 c1 = Ok (usize_widen (max_field_bytes x), c2)" "c2 = advance 8 c1"
    and at2: "cursor_at c2 (to_le_bytes 8 (usize_widen (max_fields x)) @ rest)"
    by (rule u64.consume [OF TrueI at1]) simp
  obtain c3 where 3: "cursor_u64 c2 = Ok (usize_widen (max_fields x), c3)" "c3 = advance 8 c2"
    by (rule u64.consume [OF TrueI at2]) simp
  have "c3 = advance (length (encode_limits x)) c"
    unfolding 3(2) 2(2) 1(2) by (simp add: encode_limits_def)
  then show "decode_limits c = Ok (x, advance (length (encode_limits x)) c)"
    using x unfolding decode_limits_def
    by (simp add: 1(1) 2(1) 3(1) usize_narrow_widen limits_wf_def)
next
  show "well_behaved decode_limits"
    unfolding decode_limits_def [abs_def]
    by (intro wb_intros u64.reader_ok usize_narrow_not_Panic)
qed

section \<open>The header as a whole\<close>

lemma length_encode_dialect_bytes [simp]: "length (encode_dialect_bytes d) = 8"
proof -
  have "length (encode_record_ending (record_ending d)) = 2" by (cases "record_ending d") auto
  moreover have "length (encode_escape (escape d)) = 2" by (cases "escape d") auto
  moreover have "length (encode_comment (comment d)) = 2" by (cases "comment d") auto
  ultimately show ?thesis by (simp add: encode_dialect_bytes_def)
qed

lemma length_encode_format:
  assumes "tail_wf (delimiter_tail (fo_dialect f))" "tail_wf (ending_tail (fo_dialect f))"
  shows "length (encode_format f) = FORMAT_BYTES"
proof -
  have "length (encode_syntax (fo_syntax f)) = 2" by (cases "fo_syntax f") auto
  then show ?thesis
    using assms by (simp add: encode_format_def FORMAT_BYTES_def tail_parts_def tail_wf_def TAIL_MAX_def)
qed

lemma length_encode_header:
  assumes "tail_wf (delimiter_tail (fo_dialect f))" "tail_wf (ending_tail (fo_dialect f))"
    "length hash = HASH_BYTES"
  shows "length (encode_header n hash f l k) = FIXED_HEADER_BYTES"
  using assms
  by (simp add: encode_header_def length_encode_format FIXED_HEADER_BYTES_def MAGIC_def encode_limits_def)

lemma decode_encode_header:
  assumes f: "format_wf f" and l: "limits_wf l" and hash: "length hash = HASH_BYTES"
  shows "decode_header (encode_header n hash f l k) =
    Ok \<lparr>ih_version = VERSION, ih_source_len = n, ih_source_hash = hash, ih_format = untagged f,
        ih_limits = l, ih_count = k\<rparr>"
proof -
  let ?h = "encode_header n hash f l k"
  have "length ?h = FIXED_HEADER_BYTES"
    using f hash by (intro length_encode_header) (simp_all add: format_wf_def)
  then have "length ?h \<le> usize_max"
    by (simp add: FIXED_HEADER_BYTES_def HASH_BYTES_def FORMAT_BYTES_def TAIL_MAX_def usize_max_def)
  then have at0: "cursor_at (cursor_new ?h) (MAGIC @ to_le_bytes 4 VERSION @ to_le_bytes 8 n @
      hash @ encode_format f @ encode_limits l @ to_le_bytes 8 k @ [])"
    using cursor_at_new by (simp add: encode_header_def)
  define c1 where "c1 = advance 8 (cursor_new ?h)"
  have 1: "cursor_take 8 (cursor_new ?h) = Ok (MAGIC, c1)"
    unfolding c1_def by (rule cursor_take_at [OF at0]) (simp add: MAGIC_def)
  have at1: "cursor_at c1 (to_le_bytes 4 VERSION @ to_le_bytes 8 n @ hash @ encode_format f @
      encode_limits l @ to_le_bytes 8 k @ [])"
    unfolding c1_def by (rule cursor_at_advance [OF at0]) (simp add: MAGIC_def)
  obtain c2 where 2: "cursor_u32 c1 = Ok (VERSION, c2)"
    and at2: "cursor_at c2 (to_le_bytes 8 n @ hash @ encode_format f @ encode_limits l @
      to_le_bytes 8 k @ [])" by (rule u32.consume [OF TrueI at1])
  obtain c3 where 3: "cursor_u64 c2 = Ok (n, c3)"
    and at3: "cursor_at c3 (hash @ encode_format f @ encode_limits l @ to_le_bytes 8 k @ [])"
    by (rule u64.consume [OF TrueI at2])
  obtain c4 where 4: "cursor_array_16 c3 = Ok (hash, c4)"
    and at4: "cursor_at c4 (encode_format f @ encode_limits l @ to_le_bytes 8 k @ [])"
    by (rule hash16.consume [OF hash at3])
  obtain c5 where 5: "decode_format c4 = Ok (untagged f, c5)"
    and at5: "cursor_at c5 (encode_limits l @ to_le_bytes 8 k @ [])"
    using f at4 by (auto intro: fmt.consume [of "untagged f" c4])
  obtain c6 where 6: "decode_limits c5 = Ok (l, c6)" and at6: "cursor_at c6 (to_le_bytes 8 k @ [])"
    by (rule lim.consume [OF l at5])
  obtain c7 where 7: "cursor_u64 c6 = Ok (k, c7)" by (rule u64.consume [OF TrueI at6])
  show ?thesis
    unfolding decode_header_def
    by (simp add: 1 2 3 4 5 6 7) (simp add: VERSION_def MIN_VERSION_def)
qed

end
