(* ===== verification/IndexFile.thy ===== *)
theory IndexFile
  imports IndexFormat
begin

text \<open>
  A whole index file (\<open>index/csv_index.rs\<close>, \<open>index/csv_index_reader.rs\<close>): the position
  tables in memory, \<open>save\<close>, the eager \<open>load\<close> and the lazy \<open>CsvIndexReader\<close>. A file is the
  list of its bytes and a reader of it a cursor over them. The 128-bit digest of the
  \<open>xxhash\<close> crate is the parameter \<open>xxh\<close>: an arbitrary function of the bytes hashed, so a streaming
  hasher is the bytes fed to it so far. Every I/O call is taken to succeed; the failures modelled
  are those of the content.
\<close>

section \<open>The in-memory index\<close>

record csv_index =
  ix_source_len :: "64 word"
  ix_source_hash :: bytes
  ix_format :: format_options
  ix_limits :: limits
  ix_offsets :: "64 word list"
  ix_lines :: "64 word list"

type_synonym xxh = "bytes \<Rightarrow> 128 word"

definition hash_bytes :: "xxh \<Rightarrow> bytes \<Rightarrow> bytes" where
  "hash_bytes xxh data = to_le_bytes HASH_BYTES (xxh data)"

definition record_out_of_range :: "nat \<Rightarrow> error" where
  "record_out_of_range rec = error_new (RecordOutOfRange rec) LOC_START"

definition location_at :: "csv_index \<Rightarrow> nat \<Rightarrow> location outcome" where
  "location_at ix rec =
     (case (get_at (ix_offsets ix) rec, get_at (ix_lines ix) rec) of
        (Some offset, Some line) \<Rightarrow> entry_location offset line (ix_source_len ix) rec
      | _ \<Rightarrow> Err (record_out_of_range rec))"

definition validate_source :: "xxh \<Rightarrow> csv_index \<Rightarrow> bytes \<Rightarrow> unit outcome" where
  "validate_source xxh ix source =
     (if length source \<noteq> unat (ix_source_len ix) \<or> hash_bytes xxh source \<noteq> ix_source_hash ix
      then Err (error_new SourceMismatch LOC_START) else Ok ())"

definition encode_entries :: "(64 word \<times> 64 word) list \<Rightarrow> bytes" where
  "encode_entries es = concat (map (\<lambda>(offset, line). to_le_bytes 8 offset @ to_le_bytes 8 line) es)"

definition index_encode_header :: "csv_index \<Rightarrow> 64 word \<Rightarrow> bytes" where
  "index_encode_header ix count =
     encode_header (ix_source_len ix) (ix_source_hash ix) (ix_format ix) (ix_limits ix) count"

definition index_save :: "xxh \<Rightarrow> csv_index \<Rightarrow> bytes" where
  "index_save xxh ix =
     (let count = usize_widen (length (ix_offsets ix));
          header = index_encode_header ix count;
          entries = encode_entries (zip (ix_offsets ix) (ix_lines ix))
      in header @ entries @ hash_bytes xxh entries @ hash_bytes xxh header)"

section \<open>Reading a file\<close>

definition read_index_exact :: "nat \<Rightarrow> cursor \<Rightarrow> (bytes \<times> cursor) outcome" where
  "read_index_exact n c =
     (case get_range (cur_bytes c) (cur_location c) (cur_location c + n) of
        None \<Rightarrow> invalid_index INDEX_TRUNCATED
      | Some bs \<Rightarrow> Ok (bs, c\<lparr>cur_location := cur_location c + n\<rparr>))"

text \<open>
  The loop over the entries, \<open>hashed\<close> being the bytes fed to the entries hasher so far. It
  returns the two tables, the hashed bytes and the reader.
\<close>

fun load_entries ::
    "nat \<Rightarrow> 64 word \<Rightarrow> (64 word \<times> 64 word) option \<Rightarrow> bytes \<Rightarrow> cursor \<Rightarrow>
     (64 word list \<times> 64 word list \<times> bytes \<times> cursor) outcome" where
  "load_entries 0 source_len previous hashed c = Ok ([], [], hashed, c)"
| "load_entries (Suc n) source_len previous hashed c =
     bind_outcome (read_index_exact 8 c) (\<lambda>(eo, c).
     bind_outcome (read_index_exact 8 c) (\<lambda>(el, c).
     let offset = from_le_bytes eo; line = from_le_bytes el
     in bind_outcome (check_entry offset line source_len (map_option fst previous)
          (map_option snd previous)) (\<lambda>_.
        map_ok (\<lambda>(os, ls, h, c'). (offset # os, line # ls, h, c'))
          (load_entries n source_len (Some (offset, line)) (hashed @ eo @ el) c))))"

definition check_trailer :: "xxh \<Rightarrow> bool \<Rightarrow> bytes \<Rightarrow> bytes \<Rightarrow> cursor \<Rightarrow> unit outcome" where
  "check_trailer xxh legacy header hashed c =
     (if legacy then
        bind_outcome (read_index_exact CHECKSUM_BYTES c) (\<lambda>(checksum, c).
          if hash_bytes xxh hashed \<noteq> checksum
          then invalid_index ''index checksum does not match'' else Ok ())
      else
        bind_outcome (read_index_exact CHECKSUM_BYTES c) (\<lambda>(entries_checksum, c).
          if hash_bytes xxh hashed \<noteq> entries_checksum
          then invalid_index ''index entries checksum does not match''
          else bind_outcome (read_index_exact CHECKSUM_BYTES c) (\<lambda>(header_checksum, c).
            if hash_bytes xxh header \<noteq> header_checksum
            then invalid_index ''index header checksum does not match'' else Ok ())))"

definition expected_file_len :: "index_header \<Rightarrow> 64 word outcome" where
  "expected_file_len ih =
     bind_outcome (payload_len (ih_count ih)) (\<lambda>n.
       case checked_add n (of_nat (trailer_bytes (ih_version ih))) of
         None \<Rightarrow> invalid_index INDEX_LENGTH_OVERFLOW | Some m \<Rightarrow> Ok m)"

definition index_decode_reader :: "xxh \<Rightarrow> bytes \<Rightarrow> 64 word \<Rightarrow> csv_index outcome" where
  "index_decode_reader xxh file file_len =
     bind_outcome (read_index_exact FIXED_HEADER_BYTES (cursor_new file)) (\<lambda>(header, c).
     bind_outcome (decode_header header) (\<lambda>ih.
     bind_outcome (expected_file_len ih) (\<lambda>expected.
     if expected \<noteq> file_len then invalid_index ''location table length does not match''
     else let legacy = ih_version ih < 9
     in bind_outcome (usize_narrow (ih_count ih) ''record count does not fit usize'') (\<lambda>count.
        bind_outcome (load_entries count (ih_source_len ih) None (if legacy then header else []) c)
          (\<lambda>(os, ls, hashed, c).
        bind_outcome (check_trailer xxh legacy header hashed c) (\<lambda>_.
        Ok \<lparr>ix_source_len = ih_source_len ih, ix_source_hash = ih_source_hash ih,
            ix_format = ih_format ih, ix_limits = ih_limits ih, ix_offsets = os, ix_lines = ls\<rparr>))))))"

text \<open>\<open>CsvIndex::load\<close>: the length is the one the file's metadata reports.\<close>

definition index_load :: "xxh \<Rightarrow> bytes \<Rightarrow> csv_index outcome" where
  "index_load xxh file = index_decode_reader xxh file (of_nat (length file))"

section \<open>The lazy reader\<close>

record index_reader =
  ir_index :: bytes
  ir_version :: "32 word"
  ir_source_len :: "64 word"
  ir_source_hash :: bytes
  ir_format :: format_options
  ir_limits :: limits
  ir_count :: "64 word"

definition seek_to :: "bytes \<Rightarrow> nat \<Rightarrow> cursor" where
  "seek_to file pos = \<lparr>cur_bytes = file, cur_location = pos\<rparr>"

definition reader_new :: "bytes \<Rightarrow> index_reader outcome" where
  "reader_new file =
     bind_outcome (read_index_exact FIXED_HEADER_BYTES (seek_to file 0)) (\<lambda>(header, c).
     bind_outcome (decode_header header) (\<lambda>ih.
     bind_outcome (expected_file_len ih) (\<lambda>expected.
     if expected \<noteq> of_nat (length file) then invalid_index ''location table length does not match''
     else Ok \<lparr>ir_index = file, ir_version = ih_version ih, ir_source_len = ih_source_len ih,
              ir_source_hash = ih_source_hash ih, ir_format = ih_format ih,
              ir_limits = ih_limits ih, ir_count = ih_count ih\<rparr>)))"

text \<open>The \<open>u64\<close> arithmetic of \<open>entry\<close> is kept at its width, wrapping.\<close>

definition entry_position :: "64 word \<Rightarrow> 64 word" where
  "entry_position rec = of_nat FIXED_HEADER_BYTES + rec * 16"

definition reader_entry :: "index_reader \<Rightarrow> nat \<Rightarrow> (64 word \<times> 64 word) option outcome" where
  "reader_entry r n =
     (let rec = usize_widen n
      in if rec \<ge> ir_count r then Ok None
         else bind_outcome (read_index_exact 16 (seek_to (ir_index r) (unat (entry_position rec))))
           (\<lambda>(encoded, c).
             let offset = from_le_bytes (slice encoded 0 8); line = from_le_bytes (slice encoded 8 16)
             in bind_outcome (check_first_entry offset line (ir_source_len r))
                  (\<lambda>_. Ok (Some (offset, line)))))"

definition reader_record_offset :: "index_reader \<Rightarrow> nat \<Rightarrow> 64 word option outcome" where
  "reader_record_offset r n = map_ok (map_option fst) (reader_entry r n)"

definition reader_record_line :: "index_reader \<Rightarrow> nat \<Rightarrow> 64 word option outcome" where
  "reader_record_line r n = map_ok (map_option snd) (reader_entry r n)"

definition reader_location :: "index_reader \<Rightarrow> nat \<Rightarrow> location outcome" where
  "reader_location r n =
     bind_outcome (reader_entry r n) (\<lambda>e. case e of None \<Rightarrow> Err (record_out_of_range n)
       | Some (offset, line) \<Rightarrow> entry_location offset line (ir_source_len r) n)"

text \<open>\<open>update_hash\<close> over \<open>index.take(len)\<close>, then the digest.\<close>

definition hash_payload :: "xxh \<Rightarrow> cursor \<Rightarrow> 64 word \<Rightarrow> (bytes \<times> cursor) outcome" where
  "hash_payload xxh c len =
     (let bs = slice (cur_bytes c) (cur_location c) (cur_location c + unat len)
      in if length bs \<noteq> unat len then invalid_index INDEX_TRUNCATED
         else Ok (hash_bytes xxh bs, c\<lparr>cur_location := cur_location c + unat len\<rparr>))"

definition hash_entries :: "xxh \<Rightarrow> cursor \<Rightarrow> 64 word \<Rightarrow> (bytes \<times> cursor) outcome" where
  "hash_entries xxh c count =
     (case checked_mul count 16 of None \<Rightarrow> invalid_index INDEX_LENGTH_OVERFLOW
      | Some n \<Rightarrow> hash_payload xxh c n)"

definition reader_verify :: "xxh \<Rightarrow> index_reader \<Rightarrow> unit outcome" where
  "reader_verify xxh r =
     (if ir_version r < 9 then
        bind_outcome (payload_len (ir_count r)) (\<lambda>n.
        bind_outcome (hash_payload xxh (seek_to (ir_index r) 0) n) (\<lambda>(checksum, c).
        bind_outcome (read_index_exact CHECKSUM_BYTES c) (\<lambda>(stored, c).
        if stored \<noteq> checksum then invalid_index ''index checksum does not match'' else Ok ())))
      else
        bind_outcome (read_index_exact FIXED_HEADER_BYTES (seek_to (ir_index r) 0)) (\<lambda>(header, c).
        bind_outcome (hash_entries xxh c (ir_count r)) (\<lambda>(entries_checksum, c).
        bind_outcome (read_index_exact CHECKSUM_BYTES c) (\<lambda>(stored_entries, c).
        if stored_entries \<noteq> entries_checksum
        then invalid_index ''index entries checksum does not match''
        else bind_outcome (read_index_exact CHECKSUM_BYTES c) (\<lambda>(stored_header, c).
        if stored_header \<noteq> hash_bytes xxh header
        then invalid_index ''index header checksum does not match'' else Ok ())))))"

section \<open>Lengths and positions\<close>

lemma checked_mul_Some_iff: "checked_mul a b = Some n \<longleftrightarrow> unat n = unat a * unat b"
proof
  assume "checked_mul a b = Some n"
  then show "unat n = unat a * unat b"
    by (auto simp: checked_mul_def unat_mult_lem [THEN iffD1] split: if_splits)
next
  assume n: "unat n = unat a * unat b"
  then have "unat a * unat b < 2 ^ 64"
    using unsigned_less [of n, where ?'a = nat] by simp
  moreover from this have "n = a * b"
    using n by (simp add: unat_mult_lem [THEN iffD1] word_unat_eq_iff)
  ultimately show "checked_mul a b = Some n" by (simp add: checked_mul_def)
qed

lemma checked_add_Some_iff: "checked_add a b = Some n \<longleftrightarrow> unat n = unat a + unat b"
proof
  assume "checked_add a b = Some n"
  then show "unat n = unat a + unat b"
    by (auto simp: checked_add_def unat_add_lem [THEN iffD1] split: if_splits)
next
  assume n: "unat n = unat a + unat b"
  then have "unat a + unat b < 2 ^ 64"
    using unsigned_less [of n, where ?'a = nat] by simp
  moreover from this have "n = a + b"
    using n by (simp add: unat_add_lem [THEN iffD1] word_unat_eq_iff)
  ultimately show "checked_add a b = Some n" by (simp add: checked_add_def)
qed

lemma header_bytes_value: "FIXED_HEADER_BYTES = 93"
  by (simp add: FIXED_HEADER_BYTES_def HASH_BYTES_def FORMAT_BYTES_def TAIL_MAX_def)

lemma payload_len_Ok_iff:
  "payload_len count = Ok n \<longleftrightarrow> unat n = FIXED_HEADER_BYTES + 16 * unat count"
proof -
  have "payload_len count = Ok n \<longleftrightarrow>
      (\<exists>m. checked_mul count 16 = Some m \<and> checked_add m (of_nat FIXED_HEADER_BYTES) = Some n)"
    by (auto simp: payload_len_def invalid_index_def split: option.splits bind_splits)
  moreover have "\<exists>m. checked_mul count 16 = Some m"
    if "unat n = FIXED_HEADER_BYTES + 16 * unat count"
  proof -
    have "unat count * 16 < 2 ^ 64" using that unsigned_less [of n, where ?'a = nat] by simp
    then show ?thesis by (simp add: checked_mul_def)
  qed
  ultimately show ?thesis
    by (auto simp: checked_mul_Some_iff checked_add_Some_iff header_bytes_value)
qed

lemma expected_file_len_Ok_iff:
  "expected_file_len ih = Ok m \<longleftrightarrow>
     unat m = FIXED_HEADER_BYTES + 16 * unat (ih_count ih) + trailer_bytes (ih_version ih)"
proof -
  have trailer: "unat (of_nat (trailer_bytes v) :: 64 word) = trailer_bytes v" for v
    by (simp add: trailer_bytes_def CHECKSUM_BYTES_def HASH_BYTES_def)
  have "expected_file_len ih = Ok m \<longleftrightarrow>
      (\<exists>n. payload_len (ih_count ih) = Ok n \<and>
        checked_add n (of_nat (trailer_bytes (ih_version ih))) = Some m)"
    by (auto simp: expected_file_len_def bind_outcome_Ok_iff invalid_index_def split: option.splits)
  moreover have "\<exists>n. payload_len (ih_count ih) = Ok n"
    if "unat m = FIXED_HEADER_BYTES + 16 * unat (ih_count ih) + trailer_bytes (ih_version ih)"
  proof -
    have "unat (of_nat (FIXED_HEADER_BYTES + 16 * unat (ih_count ih)) :: 64 word) =
        FIXED_HEADER_BYTES + 16 * unat (ih_count ih)"
      using that unsigned_less [of m, where ?'a = nat]
      by (simp add: unsigned_of_nat take_bit_nat_eq_self del: of_nat_add of_nat_mult)
    then show ?thesis unfolding payload_len_Ok_iff by blast
  qed
  ultimately show ?thesis
    by (auto simp: payload_len_Ok_iff checked_add_Some_iff trailer)
qed

lemma read_index_exact_at:
  assumes "cursor_at c (xs @ rest)" "length xs = n"
  shows "read_index_exact n c = Ok (xs, advance n c)"
  using cursor_take_at [OF assms]
  by (simp add: cursor_take_def read_index_exact_def invalid_index_def split: if_splits)

lemma read_index_exact_OkD:
  assumes "read_index_exact n c = Ok (bs, c')"
  shows "length bs = n" "c' = advance n c" "cur_location c + n \<le> length (cur_bytes c)"
    "bs = slice (cur_bytes c) (cur_location c) (cur_location c + n)"
  using assms
  by (auto simp: read_index_exact_def get_range_def invalid_index_def advance_def
      split: if_splits option.splits)

lemma wb_read_index_exact [wb_intros]: "well_behaved (read_index_exact n)"
  unfolding well_behaved_def
  using read_index_exact_OkD(2)
  by (fastforce simp: read_index_exact_def invalid_index_def split: option.splits)

section \<open>The position tables\<close>

text \<open>\<open>entries_ok\<close>: every entry passes \<open>check_entry\<close> against the one before it.\<close>

fun entries_ok :: "64 word \<Rightarrow> (64 word \<times> 64 word) option \<Rightarrow> (64 word \<times> 64 word) list \<Rightarrow> bool" where
  "entries_ok source_len previous [] = True"
| "entries_ok source_len previous (e # es) =
     (check_entry (fst e) (snd e) source_len (map_option fst previous) (map_option snd previous) = Ok () \<and>
      entries_ok source_len (Some e) es)"

lemma check_entry_Ok_iff:
  "check_entry offset line source_len po pl = Ok () \<longleftrightarrow>
     offset < source_len \<and> line \<noteq> 0 \<and> (\<forall>p. po = Some p \<longrightarrow> p < offset) \<and> (\<forall>p. pl = Some p \<longrightarrow> p \<le> line)"
  by (auto simp: check_entry_def check_entry_bounds_def invalid_index_def bind_outcome_Ok_iff
      split: option.splits)

lemma check_entry_not_Panic: "check_entry offset line source_len po pl \<noteq> Panic"
  by (auto simp: check_entry_def check_entry_bounds_def invalid_index_def split: option.splits)

lemma entries_ok_iff:
  "entries_ok source_len previous es \<longleftrightarrow>
     (\<forall>(offset, line) \<in> set es. offset < source_len \<and> line \<noteq> 0) \<and>
     sorted_wrt (<) (map fst (case previous of None \<Rightarrow> es | Some p \<Rightarrow> p # es)) \<and>
     sorted_wrt (\<le>) (map snd (case previous of None \<Rightarrow> es | Some p \<Rightarrow> p # es))"
proof (induction es arbitrary: previous)
  case (Cons e es)
  show ?case
    by (cases previous) (auto simp: Cons.IH check_entry_Ok_iff sorted_wrt2 split: prod.splits if_splits)
qed (simp split: option.splits)

lemma encode_entries_Cons:
  "encode_entries (e # es) = to_le_bytes 8 (fst e) @ to_le_bytes 8 (snd e) @ encode_entries es"
  by (simp add: encode_entries_def split: prod.splits if_splits)

lemma length_encode_entries [simp]: "length (encode_entries es) = 16 * length es"
  by (induction es) (simp_all add: encode_entries_Cons, simp add: encode_entries_def)

lemma load_entries_at:
  "entries_ok source_len previous es \<Longrightarrow> cursor_at c (encode_entries es @ rest) \<Longrightarrow>
     load_entries (length es) source_len previous hashed c =
       Ok (map fst es, map snd es, hashed @ encode_entries es, advance (16 * length es) c)"
proof (induction es arbitrary: previous hashed c)
  case Nil
  then show ?case by (simp add: encode_entries_def)
next
  case (Cons e es)
  have at: "cursor_at c (to_le_bytes 8 (fst e) @ to_le_bytes 8 (snd e) @ encode_entries es @ rest)"
    using Cons.prems(2) by (simp add: encode_entries_Cons)
  have at1: "cursor_at (advance 8 c) (to_le_bytes 8 (snd e) @ encode_entries es @ rest)"
    by (rule cursor_at_advance [OF at]) simp
  have at2: "cursor_at (advance 8 (advance 8 c)) (encode_entries es @ rest)"
    by (rule cursor_at_advance [OF at1]) simp
  show ?case
    using Cons.prems(1) Cons.IH [OF _ at2, of "Some e" "hashed @ to_le_bytes 8 (fst e) @ to_le_bytes 8 (snd e)"]
    by (simp add: read_index_exact_at [OF at] read_index_exact_at [OF at1] from_le_to_le_64
        encode_entries_Cons Let_def)
qed

text \<open>What a successful run says of the bytes it read, whatever they are.\<close>

definition stored_entry :: "bytes \<Rightarrow> nat \<Rightarrow> 64 word \<times> 64 word" where
  "stored_entry bs p = (from_le_bytes (slice bs p (p + 8)), from_le_bytes (slice bs (p + 8) (p + 16)))"

lemma load_entries_OkD:
  "load_entries n source_len previous hashed c = Ok (os, ls, h, c') \<Longrightarrow>
     length os = n \<and> length ls = n \<and> c' = advance (16 * n) c \<and>
     cur_location c + 16 * n \<le> max (cur_location c) (length (cur_bytes c)) \<and>
     h = hashed @ slice (cur_bytes c) (cur_location c) (cur_location c + 16 * n) \<and>
     entries_ok source_len previous (zip os ls) \<and>
     (\<forall>k < n. (os ! k, ls ! k) = stored_entry (cur_bytes c) (cur_location c + 16 * k))"
proof (induction n arbitrary: previous hashed c os ls h c')
  case (Suc n)
  obtain eo c1 el c2 os' ls' where
      eo: "read_index_exact 8 c = Ok (eo, c1)" and el: "read_index_exact 8 c1 = Ok (el, c2)"
    and ok: "check_entry (from_le_bytes eo) (from_le_bytes el) source_len
        (map_option fst previous) (map_option snd previous) = Ok ()"
    and rest: "load_entries n source_len (Some (from_le_bytes eo, from_le_bytes el))
        (hashed @ eo @ el) c2 = Ok (os', ls', h, c')"
    and os: "os = from_le_bytes eo # os'" and ls: "ls = from_le_bytes el # ls'"
    using Suc.prems by (auto simp: bind_outcome_Ok_iff map_ok_Ok_iff Let_def)
  note E = read_index_exact_OkD [OF eo] and L = read_index_exact_OkD [OF el]
  have len: "cur_location c + 16 \<le> length (cur_bytes c)" using E L by simp
  note IH = Suc.IH [OF rest]
  let ?bs = "cur_bytes c" and ?p = "cur_location c"
  have c2: "c2 = advance 16 c" using E L by simp
  have "slice ?bs ?p (?p + 16 * Suc n) =
      slice ?bs ?p (?p + 8) @ slice ?bs (?p + 8) (?p + 16) @ slice ?bs (?p + 16) (?p + 16 * Suc n)"
    using slice_split [of ?p "?p + 8" "?p + 16 * Suc n" ?bs]
      slice_split [of "?p + 8" "?p + 16" "?p + 16 * Suc n" ?bs] by simp
  then have h: "h = hashed @ slice ?bs ?p (?p + 16 * Suc n)"
    using IH E L c2 by (simp add: add_ac)
  have "(os ! k, ls ! k) = stored_entry ?bs (?p + 16 * k)" if "k < Suc n" for k
    using that IH E L c2 os ls by (cases k) (auto simp: stored_entry_def add_ac)
  then show ?case using IH ok os ls h len c2 by (auto simp: add_ac)
qed auto

lemma load_entries_not_Panic: "load_entries n source_len previous hashed c \<noteq> Panic"
proof (induction n arbitrary: previous hashed c)
  case (Suc n)
  show ?case
  proof (cases "read_index_exact 8 c")
    case (Ok r1)
    obtain eo c1 where r1: "r1 = (eo, c1)" by (cases r1)
    show ?thesis
    proof (cases "read_index_exact 8 c1")
      case (Ok r2)
      obtain el c2 where r2: "r2 = (el, c2)" by (cases r2)
      let ?o = "from_le_bytes eo :: 64 word" and ?l = "from_le_bytes el :: 64 word"
      have "map_ok f (load_entries n source_len p h c2) \<noteq> Panic"
        for f :: "_ \<Rightarrow> 64 word list \<times> 64 word list \<times> bytes \<times> cursor" and p h
        using Suc.IH [of p h c2] by (cases "load_entries n source_len p h c2") auto
      moreover have "check_entry ?o ?l source_len (map_option fst previous) (map_option snd previous) \<noteq> Panic"
        by (rule check_entry_not_Panic)
      ultimately show ?thesis
        using \<open>read_index_exact 8 c = Ok r1\<close> Ok r1 r2
        by (cases "check_entry ?o ?l source_len (map_option fst previous) (map_option snd previous)")
          (simp_all add: Let_def)
    qed (use \<open>read_index_exact 8 c = Ok r1\<close> r1 well_behavedD [OF wb_read_index_exact] in auto)
  qed (use well_behavedD [OF wb_read_index_exact] in auto)
qed simp

lemmas readers_not_Panic =
  wb_take [THEN well_behavedD] wb_read_index_exact [THEN well_behavedD]
  u32.reader_ok [THEN well_behavedD] u64.reader_ok [THEN well_behavedD]
  hash16.reader_ok [THEN well_behavedD] fmt.reader_ok [THEN well_behavedD]
  lim.reader_ok [THEN well_behavedD]

lemma decode_header_not_Panic: "decode_header h \<noteq> Panic"
  unfolding decode_header_def
  by (auto elim!: bind_PanicE simp: readers_not_Panic invalid_index_def split: prod.splits if_splits)

lemma payload_len_not_Panic: "payload_len n \<noteq> Panic"
  by (simp add: payload_len_def invalid_index_def split: option.splits)

lemma expected_file_len_not_Panic: "expected_file_len ih \<noteq> Panic"
  unfolding expected_file_len_def
  by (auto elim!: bind_PanicE simp: payload_len_not_Panic invalid_index_def split: option.splits)

lemma check_trailer_not_Panic: "check_trailer xxh legacy header hashed c \<noteq> Panic"
  unfolding check_trailer_def
  by (auto elim!: bind_PanicE simp: readers_not_Panic invalid_index_def split: prod.splits if_splits)

text \<open>
  C5: \<open>CsvIndex::load\<close> never panics, whatever bytes the file holds and whatever the checksum
  function is: hostile input ends in a value or in an error.
\<close>

theorem index_load_never_panics: "index_load xxh file \<noteq> Panic"
  unfolding index_load_def index_decode_reader_def
  by (auto elim!: bind_PanicE simp: readers_not_Panic invalid_index_def decode_header_not_Panic
      expected_file_len_not_Panic usize_narrow_not_Panic load_entries_not_Panic
      check_trailer_not_Panic Let_def split: prod.splits if_splits)

section \<open>Saving and loading\<close>

text \<open>
  What the builder of an index guarantees: a format and limits a header can carry, a 16-byte
  source hash, tables of equal length that pass the entry checks, and a file length in \<open>u64\<close>.
\<close>

definition index_wf :: "csv_index \<Rightarrow> bool" where
  "index_wf ix \<longleftrightarrow>
     format_wf (ix_format ix) \<and> limits_wf (ix_limits ix) \<and> length (ix_source_hash ix) = HASH_BYTES \<and>
     length (ix_lines ix) = length (ix_offsets ix) \<and>
     entries_ok (ix_source_len ix) None (zip (ix_offsets ix) (ix_lines ix)) \<and>
     FIXED_HEADER_BYTES + 16 * length (ix_offsets ix) + 2 * CHECKSUM_BYTES \<le> usize_max"

lemma length_hash_bytes [simp]: "length (hash_bytes xxh bs) = CHECKSUM_BYTES"
  by (simp add: hash_bytes_def CHECKSUM_BYTES_def)

lemma length_index_header:
  "index_wf ix \<Longrightarrow> length (index_encode_header ix k) = FIXED_HEADER_BYTES"
  unfolding index_encode_header_def
  by (rule length_encode_header) (simp_all add: index_wf_def format_wf_def)

lemma length_index_save:
  "index_wf ix \<Longrightarrow>
     length (index_save xxh ix) = FIXED_HEADER_BYTES + 16 * length (ix_offsets ix) + 2 * CHECKSUM_BYTES"
  by (simp add: index_save_def Let_def length_index_header) (simp add: index_wf_def)

lemma index_wf_count:
  assumes "index_wf ix"
  shows "unat (usize_widen (length (ix_offsets ix))) = length (ix_offsets ix)"
  using assms
  by (simp add: usize_widen_def index_wf_def usize_max_def unsigned_of_nat take_bit_nat_eq_self)

text \<open>Both readers meet the saved header first, and compute the length of the saved file.\<close>

lemma saved_header:
  assumes "index_wf ix"
  shows "decode_header (index_encode_header ix (usize_widen (length (ix_offsets ix)))) =
    Ok \<lparr>ih_version = VERSION, ih_source_len = ix_source_len ix, ih_source_hash = ix_source_hash ix,
        ih_format = untagged (ix_format ix), ih_limits = ix_limits ix,
        ih_count = usize_widen (length (ix_offsets ix))\<rparr>"
  unfolding index_encode_header_def
  using assms by (intro decode_encode_header) (simp_all add: index_wf_def)

lemma saved_length:
  assumes "index_wf ix"
    and "ih_version ih = VERSION" "ih_count ih = usize_widen (length (ix_offsets ix))"
  shows "expected_file_len ih = Ok (of_nat (length (index_save xxh ix)))"
proof -
  have "length (index_save xxh ix) < 2 ^ 64"
    using assms(1) by (simp add: length_index_save index_wf_def usize_max_def)
  then show ?thesis
    unfolding expected_file_len_Ok_iff
    using assms index_wf_count [OF assms(1)]
    by (simp add: length_index_save unsigned_of_nat take_bit_nat_eq_self trailer_bytes_def VERSION_def
        del: of_nat_add of_nat_mult)
qed

text \<open>The index a load gives back: the tag of the format is not saved.\<close>

definition reloaded :: "csv_index \<Rightarrow> csv_index" where
  "reloaded ix = ix\<lparr>ix_format := untagged (ix_format ix)\<rparr>"

lemma load_saved:
  assumes "index_wf ix"
  shows "index_load xxh (index_save xxh ix) = Ok (reloaded ix)"
proof -
  let ?count = "usize_widen (length (ix_offsets ix))"
  let ?header = "index_encode_header ix ?count" and ?es = "zip (ix_offsets ix) (ix_lines ix)"
  let ?file = "index_save xxh ix"
  let ?h = "hash_bytes xxh"
  have len: "length (ix_lines ix) = length (ix_offsets ix)" and ok: "entries_ok (ix_source_len ix) None ?es"
    using assms by (simp_all add: index_wf_def)
  have "length ?file \<le> usize_max"
    using assms by (simp add: length_index_save) (simp add: index_wf_def)
  then have at0: "cursor_at (cursor_new ?file)
      (?header @ encode_entries ?es @ ?h (encode_entries ?es) @ ?h ?header @ [])"
    using cursor_at_new [of ?file] by (simp add: index_save_def Let_def)
  note hl = length_index_header [OF assms, of ?count]
  define c1 where "c1 = advance FIXED_HEADER_BYTES (cursor_new ?file)"
  have at1: "cursor_at c1 (encode_entries ?es @ ?h (encode_entries ?es) @ ?h ?header @ [])"
    unfolding c1_def by (rule cursor_at_advance [OF at0 hl])
  define c2 where "c2 = advance (16 * length ?es) c1"
  have at2: "cursor_at c2 (?h (encode_entries ?es) @ ?h ?header @ [])"
    unfolding c2_def by (rule cursor_at_advance [OF at1]) simp
  have at3: "cursor_at (advance CHECKSUM_BYTES c2) (?h ?header @ [])"
    by (rule cursor_at_advance [OF at2]) simp
  have es: "load_entries (length (ix_offsets ix)) (ix_source_len ix) None [] c1 =
      Ok (ix_offsets ix, ix_lines ix, encode_entries ?es, c2)"
    using load_entries_at [OF ok at1, of "[]"] len by (simp add: c2_def)
  have "check_trailer xxh False ?header (encode_entries ?es) c2 = Ok ()"
    by (simp add: check_trailer_def read_index_exact_at [OF at2] read_index_exact_at [OF at3])
  then show ?thesis
    unfolding index_load_def index_decode_reader_def
    by (simp add: read_index_exact_at [OF at0 hl] saved_header [OF assms]
        saved_length [OF assms, where xxh = xxh] usize_narrow_64 index_wf_count [OF assms]
        es [unfolded c1_def] Let_def flip: c1_def) (simp add: VERSION_def es reloaded_def)
qed

section \<open>What an accepted file guarantees\<close>

text \<open>Everything \<open>load\<close> has established about a file it accepts.\<close>

lemma if_invalid_Ok_iff:
  "(if P then invalid_index m else r) = Ok x \<longleftrightarrow> \<not> P \<and> r = Ok x"
  by (simp add: invalid_index_def)

lemma index_load_OkE:
  assumes "index_load xxh file = Ok ix"
  obtains ih where
    "read_index_exact FIXED_HEADER_BYTES (cursor_new file) =
       Ok (slice file 0 FIXED_HEADER_BYTES, seek_to file FIXED_HEADER_BYTES)"
    "FIXED_HEADER_BYTES + 16 * unat (ih_count ih) \<le> length file"
    "decode_header (slice file 0 FIXED_HEADER_BYTES) = Ok ih"
    "expected_file_len ih = Ok (of_nat (length file))"
    "ix_source_len ix = ih_source_len ih" "ix_source_hash ix = ih_source_hash ih"
    "ix_format ix = ih_format ih" "ix_limits ix = ih_limits ih"
    "length (ix_offsets ix) = unat (ih_count ih)" "length (ix_lines ix) = unat (ih_count ih)"
    "entries_ok (ih_source_len ih) None (zip (ix_offsets ix) (ix_lines ix))"
    "\<And>k. k < unat (ih_count ih) \<Longrightarrow>
       (ix_offsets ix ! k, ix_lines ix ! k) = stored_entry file (FIXED_HEADER_BYTES + 16 * k)"
    "check_trailer xxh (ih_version ih < 9) (slice file 0 FIXED_HEADER_BYTES)
       ((if ih_version ih < 9 then slice file 0 FIXED_HEADER_BYTES else []) @
        slice file FIXED_HEADER_BYTES (FIXED_HEADER_BYTES + 16 * unat (ih_count ih)))
       (seek_to file (FIXED_HEADER_BYTES + 16 * unat (ih_count ih))) = Ok ()"
proof -
  let ?n = FIXED_HEADER_BYTES
  obtain header c ih count os ls hashed c' where
      h: "read_index_exact ?n (cursor_new file) = Ok (header, c)"
    and ih: "decode_header header = Ok ih" "expected_file_len ih = Ok (of_nat (length file))"
    and count: "usize_narrow (ih_count ih) ''record count does not fit usize'' = Ok count"
    and es: "load_entries count (ih_source_len ih) None
        (if ih_version ih < 9 then header else []) c = Ok (os, ls, hashed, c')"
    and tr: "check_trailer xxh (ih_version ih < 9) header hashed c' = Ok ()"
    and ix: "ix = \<lparr>ix_source_len = ih_source_len ih, ix_source_hash = ih_source_hash ih,
        ix_format = ih_format ih, ix_limits = ih_limits ih, ix_offsets = os, ix_lines = ls\<rparr>"
    using assms unfolding index_load_def index_decode_reader_def Let_def
    by (auto simp: bind_outcome_Ok_iff if_invalid_Ok_iff)
  have count': "count = unat (ih_count ih)" using count by (simp add: usize_narrow_64)
  note H = read_index_exact_OkD [OF h]
  have c: "c = seek_to file ?n" "header = slice file 0 ?n" "?n \<le> length file"
    using H by (simp_all add: cursor_new_def seek_to_def advance_def)
  note E = load_entries_OkD [OF es, unfolded count' c]
  have c': "c' = seek_to file (?n + 16 * unat (ih_count ih))"
    using E by (simp add: seek_to_def advance_def)
  show ?thesis
    using h ih E tr ix c' c that [of ih] by (simp add: seek_to_def)
qed

lemma decode_format_dialect:
  assumes "decode_format c = Ok (f, c')"
  shows "invalidity (fo_dialect f) = None"
  using assms unfolding decode_format_def
  by (auto simp: bind_outcome_Ok_iff dialect_with_tails_def Let_def dialect_validate_def
      with_dialect_def split: option.splits)

lemma decode_header_dialect:
  "decode_header h = Ok ih \<Longrightarrow> invalidity (fo_dialect (ih_format ih)) = None"
  unfolding decode_header_def
  by (auto simp: bind_outcome_Ok_iff invalid_index_def dest: decode_format_dialect split: if_splits)

lemma set_zip_eq:
  assumes "length xs = length ys"
  shows "(\<forall>(x, y) \<in> set (zip xs ys). P x \<and> Q y) \<longleftrightarrow> (\<forall>x \<in> set xs. P x) \<and> (\<forall>y \<in> set ys. Q y)"
  using assms by (induction rule: list_induct2) auto

text \<open>
  C4: An index file that \<open>CsvIndex::load\<close> accepts, whatever wrote it, describes a table a parser can
  seek with: one line per offset, the offsets strictly increasing and inside the source, the
  lines one-based and never decreasing, and a dialect that passes the validity check.
\<close>

theorem index_load_tables:
  assumes "index_load xxh file = Ok ix"
  shows "length (ix_lines ix) = length (ix_offsets ix) \<and> sorted_wrt (<) (ix_offsets ix) \<and>
    (\<forall>offset \<in> set (ix_offsets ix). offset < ix_source_len ix) \<and> sorted (ix_lines ix) \<and>
    (\<forall>line \<in> set (ix_lines ix). line \<noteq> 0) \<and> invalidity (fo_dialect (ix_format ix)) = None"
  using assms
proof (rule index_load_OkE)
  fix ih
  assume "decode_header (slice file 0 FIXED_HEADER_BYTES) = Ok ih" "ix_format ix = ih_format ih"
    "ix_source_len ix = ih_source_len ih"
    "length (ix_offsets ix) = unat (ih_count ih)" "length (ix_lines ix) = unat (ih_count ih)"
    "entries_ok (ih_source_len ih) None (zip (ix_offsets ix) (ix_lines ix))"
  then show ?thesis
    by (auto simp: entries_ok_iff set_zip_eq dest: decode_header_dialect)
qed

text \<open>The positions the lazy reader computes in \<open>u64\<close> do not wrap.\<close>

lemma entry_position_exact:
  assumes "rec < count" "payload_len count = Ok n"
  shows "unat (entry_position rec) = FIXED_HEADER_BYTES + 16 * unat rec"
proof -
  have "FIXED_HEADER_BYTES + 16 * unat rec < 2 ^ 64"
    using assms unsigned_less [of n, where ?'a = nat]
    by (simp add: payload_len_Ok_iff word_less_nat_alt)
  moreover have "entry_position rec = of_nat (FIXED_HEADER_BYTES + 16 * unat rec)"
    by (simp add: entry_position_def)
  ultimately show ?thesis
    by (simp add: unsigned_of_nat take_bit_nat_eq_self del: of_nat_add of_nat_mult)
qed

lemma expected_payload_len: "expected_file_len ih = Ok m \<Longrightarrow> \<exists>n. payload_len (ih_count ih) = Ok n"
  by (auto simp: expected_file_len_def bind_outcome_Ok_iff)

lemma slice_slice: "a + j \<le> b \<Longrightarrow> slice (slice xs a b) i j = slice xs (a + i) (a + j)"
  by (auto simp: slice_def drop_take min_def add.commute)

lemma reader_entry_stored:
  assumes "ir_index r = file" "n < unat (ir_count r)" "payload_len (ir_count r) = Ok m"
    and "FIXED_HEADER_BYTES + 16 * unat (ir_count r) \<le> length file"
    and e: "e = stored_entry file (FIXED_HEADER_BYTES + 16 * n)"
    and ok: "fst e < ir_source_len r" "snd e \<noteq> 0"
  shows "reader_entry r n = Ok (Some e)"
proof -
  have n: "unat (usize_widen n) = n"
    using assms(2) unsigned_less [of "ir_count r", where ?'a = nat]
    by (simp add: usize_widen_def unsigned_of_nat take_bit_nat_eq_self)
  let ?p = "FIXED_HEADER_BYTES + 16 * n"
  have less: "usize_widen n < ir_count r" using n assms(2) by (simp add: word_less_nat_alt)
  have "unat (entry_position (usize_widen n)) = ?p"
    using entry_position_exact [OF less assms(3)] n by simp
  moreover have "read_index_exact 16 (seek_to file ?p) =
      Ok (slice file ?p (?p + 16), seek_to file (?p + 16))"
    using assms(2,4) by (simp add: read_index_exact_def get_range_def seek_to_def)
  ultimately show ?thesis
    using less ok(2) leD [of "ir_source_len r" "fst e"] ok(1) assms(1) unfolding e
    by (auto simp: reader_entry_def Let_def slice_slice stored_entry_def check_first_entry_def
        check_entry_bounds_def add_ac)
qed

lemma slice_append_slice: "a \<le> b \<Longrightarrow> b \<le> c \<Longrightarrow> slice xs a b @ slice xs b c = slice xs a c"
  by (rule slice_split [symmetric])

lemma check_trailer_OkD:
  assumes "check_trailer xxh legacy header hashed c = Ok ()"
  shows "legacy \<Longrightarrow> \<exists>c'. read_index_exact CHECKSUM_BYTES c = Ok (hash_bytes xxh hashed, c')"
    and "\<not> legacy \<Longrightarrow> \<exists>c' c''. read_index_exact CHECKSUM_BYTES c = Ok (hash_bytes xxh hashed, c') \<and>
      read_index_exact CHECKSUM_BYTES c' = Ok (hash_bytes xxh header, c'')"
  using assms by (auto simp: check_trailer_def bind_outcome_Ok_iff if_invalid_Ok_iff)

lemma hash_payload_seek:
  "p + unat n \<le> length file \<Longrightarrow>
     hash_payload xxh (seek_to file p) n =
       Ok (hash_bytes xxh (slice file p (p + unat n)), seek_to file (p + unat n))"
  by (simp add: hash_payload_def seek_to_def Let_def)

text \<open>\<open>verify\<close> accepts a file \<open>load\<close> accepts: both checksum layouts are read the same way.\<close>

lemma verify_accepts:
  assumes tr: "check_trailer xxh (ih_version ih < 9) (slice file 0 FIXED_HEADER_BYTES)
       ((if ih_version ih < 9 then slice file 0 FIXED_HEADER_BYTES else []) @
        slice file FIXED_HEADER_BYTES (FIXED_HEADER_BYTES + 16 * unat (ih_count ih)))
       (seek_to file (FIXED_HEADER_BYTES + 16 * unat (ih_count ih))) = Ok ()"
    and hd: "read_index_exact FIXED_HEADER_BYTES (cursor_new file) =
       Ok (slice file 0 FIXED_HEADER_BYTES, seek_to file FIXED_HEADER_BYTES)"
    and len: "FIXED_HEADER_BYTES + 16 * unat (ih_count ih) \<le> length file"
    and n: "payload_len (ih_count ih) = Ok n"
    and r: "ir_index r = file" "ir_version r = ih_version ih" "ir_count r = ih_count ih"
  shows "reader_verify xxh r = Ok ()"
proof -
  let ?p = "FIXED_HEADER_BYTES + 16 * unat (ih_count ih)"
  have un: "unat n = ?p" using n by (simp add: payload_len_Ok_iff)
  have start: "seek_to file 0 = cursor_new file" by (simp add: seek_to_def cursor_new_def)
  show ?thesis
  proof (cases "ih_version ih < 9")
    case True
    have "hash_payload xxh (seek_to file 0) n = Ok (hash_bytes xxh (slice file 0 ?p), seek_to file ?p)"
      using hash_payload_seek [of 0 n "file", where xxh = xxh] un len by simp
    moreover have "slice file 0 FIXED_HEADER_BYTES @ slice file FIXED_HEADER_BYTES ?p = slice file 0 ?p"
      by (rule slice_append_slice) simp_all
    ultimately show ?thesis
      using check_trailer_OkD(1) [OF tr] True n r by (auto simp: reader_verify_def)
  next
    case False
    have "unat (of_nat (16 * unat (ih_count ih)) :: 64 word) = 16 * unat (ih_count ih)"
      using un unsigned_less [of n, where ?'a = nat]
      by (simp add: unsigned_of_nat take_bit_nat_eq_self del: of_nat_mult)
    then obtain m where m: "unat (m :: 64 word) = 16 * unat (ih_count ih)" by blast
    have "hash_entries xxh (seek_to file FIXED_HEADER_BYTES) (ih_count ih) =
        Ok (hash_bytes xxh (slice file FIXED_HEADER_BYTES ?p), seek_to file ?p)"
      using hash_payload_seek [of FIXED_HEADER_BYTES m "file", where xxh = xxh] m len
      by (simp add: hash_entries_def checked_mul_Some_iff [THEN iffD2, of m])
    then show ?thesis
      using check_trailer_OkD(2) [OF tr] False hd r start by (auto simp: reader_verify_def)
  qed
qed

text \<open>
  C3: The lazy \<open>CsvIndexReader\<close> and the eager \<open>CsvIndex::load\<close> agree: on every file \<open>load\<close>
  accepts, of either version, \<open>CsvIndexReader::new\<close> succeeds, \<open>verify\<close> confirms the checksums,
  and \<open>location\<close> gives for every record number, in or out of range, exactly what the loaded
  table gives, although the reader validates an entry without its predecessor.
\<close>

theorem reader_agrees_with_load:
  assumes load: "index_load xxh file = Ok ix"
  shows "\<exists>r. reader_new file = Ok r \<and> reader_verify xxh r = Ok () \<and>
    (\<forall>n \<le> usize_max. reader_location r n = location_at ix n)"
  using load
proof (rule index_load_OkE)
  fix ih
  let ?n = FIXED_HEADER_BYTES
  assume hd: "read_index_exact ?n (cursor_new file) = Ok (slice file 0 ?n, seek_to file ?n)"
    and len: "?n + 16 * unat (ih_count ih) \<le> length file"
    and ih: "decode_header (slice file 0 ?n) = Ok ih" "expected_file_len ih = Ok (of_nat (length file))"
    and ix: "ix_source_len ix = ih_source_len ih" "ix_source_hash ix = ih_source_hash ih"
      "ix_format ix = ih_format ih" "ix_limits ix = ih_limits ih"
      "length (ix_offsets ix) = unat (ih_count ih)" "length (ix_lines ix) = unat (ih_count ih)"
    and ok: "entries_ok (ih_source_len ih) None (zip (ix_offsets ix) (ix_lines ix))"
    and stored: "\<And>k. k < unat (ih_count ih) \<Longrightarrow>
       (ix_offsets ix ! k, ix_lines ix ! k) = stored_entry file (?n + 16 * k)"
    and tr: "check_trailer xxh (ih_version ih < 9) (slice file 0 ?n)
       ((if ih_version ih < 9 then slice file 0 ?n else []) @
        slice file ?n (?n + 16 * unat (ih_count ih))) (seek_to file (?n + 16 * unat (ih_count ih))) = Ok ()"
  define r where "r = \<lparr>ir_index = file, ir_version = ih_version ih, ir_source_len = ih_source_len ih,
      ir_source_hash = ih_source_hash ih, ir_format = ih_format ih, ir_limits = ih_limits ih,
      ir_count = ih_count ih\<rparr>"
  obtain m where m: "payload_len (ih_count ih) = Ok m" using expected_payload_len [OF ih(2)] by blast
  have "reader_new file = Ok r"
    using hd ih by (simp add: reader_new_def r_def seek_to_def cursor_new_def)
  moreover have "reader_verify xxh r = Ok ()"
    by (rule verify_accepts [OF tr hd len m]) (simp_all add: r_def)
  moreover have "reader_location r k = location_at ix k" if "k \<le> usize_max" for k
  proof (cases "k < unat (ih_count ih)")
    case True
    have "(ix_offsets ix ! k, ix_lines ix ! k) \<in> set (zip (ix_offsets ix) (ix_lines ix))"
      using True ix by (auto simp: set_zip)
    then have "ix_offsets ix ! k < ih_source_len ih" "ix_lines ix ! k \<noteq> 0"
      using ok by (auto simp: entries_ok_iff)
    then have "reader_entry r k = Ok (Some (ix_offsets ix ! k, ix_lines ix ! k))"
      using True m len
      by (intro reader_entry_stored [OF _ _ _ _ stored]) (simp_all add: r_def)
    then show ?thesis
      using True ix by (simp add: reader_location_def location_at_def get_at_def r_def)
  next
    case False
    have "unat (usize_widen k) = k"
      using that by (simp add: usize_widen_def usize_max_def unsigned_of_nat take_bit_nat_eq_self)
    then have "reader_entry r k = Ok None"
      using False by (simp add: reader_entry_def Let_def r_def word_le_nat_alt)
    then show ?thesis
      using False ix by (simp add: reader_location_def location_at_def get_at_def)
  qed
  ultimately show ?thesis by blast
qed

section \<open>A concrete index\<close>

text \<open>The index of a 17-byte document with records at offsets 0, 4 and 9, on lines 1, 2 and 4.\<close>

definition sample_index :: csv_index where
  "sample_index = \<lparr>ix_source_len = 17, ix_source_hash = replicate 16 7,
     ix_format = FORMAT_MYSQL,
     ix_limits = LIMITS_DEFAULT, ix_offsets = [0, 4, 9], ix_lines = [1, 2, 4]\<rparr>"

lemma sample_index_wf: "index_wf sample_index"
proof -
  have "invalidity DIALECT_MYSQL = None"
    by code_simp
  then show ?thesis
    by (simp add: index_wf_def sample_index_def format_wf_def limits_wf_def LIMITS_DEFAULT_def
        FORMAT_MYSQL_def with_dialect_def DIALECT_MYSQL_def DIALECT_CSV_def REC_NONE_def HASH_BYTES_def CHECKSUM_BYTES_def header_bytes_value
        usize_max_def check_entry_Ok_iff)
qed

lemmas sample_load = load_saved [OF sample_index_wf, of "\<lambda>bs. of_nat (length bs)"]

text \<open>
  C2: Saving an index and loading the file gives the same index, whatever the checksum function and
  whichever built-in or custom format it was built with: everything but the tag of the format, which
  the crate's equality ignores. The header codec, the position tables and the two checksums of
  version 9 are mutually inverse. The index is one the file can hold: a valid dialect, \<open>usize\<close> limits,
  a 16-byte source hash, two tables of equal length whose entries pass the loader's checks, and a file
  length in \<open>u64\<close>.
\<close>

theorem index_load_save:
  assumes "index_wf ix"
  shows "index_load xxh (index_save xxh ix) = Ok (ix\<lparr>ix_format := untagged (ix_format ix)\<rparr>) \<and>
    format_eq (untagged (ix_format ix)) (ix_format ix)"
  using load_saved [OF assms] by (simp add: reloaded_def)

theorem index_load_save_witness:
  "fo_tag (ix_format sample_index) = TagMysql \<and>
   index_load (\<lambda>bs. of_nat (length bs)) (index_save (\<lambda>bs. of_nat (length bs)) sample_index) =
     Ok (sample_index\<lparr>ix_format := untagged FORMAT_MYSQL\<rparr>)"
  using index_load_save [OF sample_index_wf] by (simp add: sample_index_def FORMAT_MYSQL_def)

theorem index_load_tables_witness:
  "sorted_wrt (<) (ix_offsets sample_index) \<and> sorted (ix_lines sample_index)"
  using index_load_tables [OF sample_load] by (simp add: reloaded_def)

theorem reader_agrees_with_load_witness:
  "\<exists>r. reader_new (index_save (\<lambda>bs. of_nat (length bs)) sample_index) = Ok r \<and>
     reader_location r 2 = Ok \<lparr>loc_byte = 9, loc_line = 4, loc_record = 2, loc_field = 0\<rparr>"
proof -
  have "location_at (reloaded sample_index) 2 = Ok \<lparr>loc_byte = 9, loc_line = 4, loc_record = 2, loc_field = 0\<rparr>"
    by (simp add: location_at_def sample_index_def get_at_def entry_location_def reloaded_def)
  moreover have "2 \<le> usize_max" by (simp add: usize_max_def)
  ultimately show ?thesis using reader_agrees_with_load [OF sample_load] by metis
qed

end
