(* ===== verification/Emit.thy ===== *)
theory Emit
  imports Search Config
begin

text \<open>
  Quoting, escaping and record framing (\<open>coseva/src/emit.rs\<close>). The output buffer is threaded
  through every writer: a writer maps the buffer to the buffer it leaves and an outcome, so a
  failing writer shows the bytes it had already appended, which the record emitters roll back.
  The parser of \<open>f64\<close> that the non-numeric policy falls back to is the grammar the standard
  library documents for \<open>f64::from_str\<close>.
\<close>

section \<open>Output\<close>

type_synonym 'a sink = "bytes \<Rightarrow> bytes \<times> 'a outcome"

definition extend :: "bytes \<Rightarrow> unit sink" where "extend bs out = (out @ bs, Ok ())"

definition push_byte :: "byte \<Rightarrow> unit sink" where "push_byte b out = (out @ [b], Ok ())"

definition bind_sink :: "'a sink \<Rightarrow> ('a \<Rightarrow> 'b sink) \<Rightarrow> 'b sink" where
  "bind_sink m f out =
     (case m out of (out', r) \<Rightarrow>
        (case r of Ok x \<Rightarrow> f x out' | Err e \<Rightarrow> (out', Err e) | Panic \<Rightarrow> (out', Panic)))"

definition then_sink :: "'a sink \<Rightarrow> 'b sink \<Rightarrow> 'b sink" where
  "then_sink m n = bind_sink m (\<lambda>_. n)"

definition return_sink :: "'a \<Rightarrow> 'a sink" where "return_sink x out = (out, Ok x)"

definition fail_sink :: "error \<Rightarrow> 'a sink" where "fail_sink e out = (out, Err e)"

definition panic_sink :: "'a sink" where "panic_sink out = (out, Panic)"

text \<open>\<open>if let Err(error) = .. { output.truncate(start); return Err(error) }\<close>.\<close>

definition rollback_to :: "nat \<Rightarrow> 'a sink \<Rightarrow> 'a sink" where
  "rollback_to start m out =
     (case m out of (out', r) \<Rightarrow> (case r of Err e \<Rightarrow> (take start out', Err e) | _ \<Rightarrow> (out', r)))"

section \<open>Bytes in a machine word\<close>

definition BYTE_ONES :: "64 word" where "BYTE_ONES = 0x0101010101010101"
definition BYTE_HIGHS :: "64 word" where "BYTE_HIGHS = push_bit 7 BYTE_ONES"
definition SIMD_QUOTING_SCAN_BYTES :: nat where "SIMD_QUOTING_SCAN_BYTES = 32"

definition repeated_byte :: "byte \<Rightarrow> 64 word" where
  "repeated_byte b = BYTE_ONES * ucast b"

definition zero_byte_mask :: "64 word \<Rightarrow> 64 word" where
  "zero_byte_mask w = ((w - BYTE_ONES) AND NOT w) AND BYTE_HIGHS"

text \<open>\<open>as_chunks::<8>()\<close>: the whole eight-byte chunks and the remainder.\<close>

function as_chunks8 :: "bytes \<Rightarrow> bytes list \<times> bytes" where
  "as_chunks8 bs =
     (if length bs < 8 then ([], bs)
      else case as_chunks8 (drop 8 bs) of (cs, r) \<Rightarrow> (take 8 bs # cs, r))"
  by pat_completeness auto
termination by (relation "measure length") auto

declare as_chunks8.simps [simp del]

section \<open>When a field needs quotes\<close>

definition needs_csv_quotes :: "bytes \<Rightarrow> bool \<Rightarrow> bool" where
  "needs_csv_quotes field is_first \<longleftrightarrow>
     (if is_first \<and> starts_with field BOM then True
      else if SIMD_QUOTING_SCAN_BYTES \<le> length field then
        (let (chunks, remainder) = as_chunks8 field
         in (\<exists>chunk \<in> set chunks. let w = word_of_bytes chunk in
               (zero_byte_mask (w XOR repeated_byte COMMA) OR zero_byte_mask (w XOR repeated_byte DQUOTE) OR
                zero_byte_mask (w XOR repeated_byte LF) OR zero_byte_mask (w XOR repeated_byte CR)) \<noteq> 0) \<or>
            (\<exists>b \<in> set remainder. b \<in> {COMMA, DQUOTE, LF, CR}))
      else \<exists>b \<in> set field. b \<in> {COMMA, DQUOTE, LF, CR})"

definition needs_quotes_blocks :: "byte \<Rightarrow> byte \<Rightarrow> byte \<Rightarrow> bool \<Rightarrow> bytes \<Rightarrow> bool" where
  "needs_quotes_blocks dl q ending newline field \<longleftrightarrow>
     (if newline then find4 dl q ending CR field else find3 dl q ending field) \<noteq> None"

definition needs_quotes_words :: "byte \<Rightarrow> byte \<Rightarrow> byte \<Rightarrow> bool \<Rightarrow> bytes \<Rightarrow> bool" where
  "needs_quotes_words dl q ending newline field \<longleftrightarrow>
     (let (chunks, remainder) = as_chunks8 field
      in if \<exists>chunk \<in> set chunks. let w = word_of_bytes chunk;
              found = zero_byte_mask (w XOR repeated_byte dl) OR zero_byte_mask (w XOR repeated_byte q) OR
                zero_byte_mask (w XOR repeated_byte ending);
              found = (if newline then found OR zero_byte_mask (w XOR repeated_byte CR) else found)
            in found \<noteq> 0
         then True
         else \<exists>b \<in> set remainder. b = dl \<or> b = q \<or> b = ending \<or> newline \<and> b = CR)"

definition needs_quotes :: "dialect \<Rightarrow> bytes \<Rightarrow> bool \<Rightarrow> bool" where
  "needs_quotes d field is_first \<longleftrightarrow>
     (if is_first \<and> (starts_with field BOM \<or>
           (case comment d of None \<Rightarrow> False | Some c \<Rightarrow> get_at field 0 = Some c)) then True
      else let ending = ending_byte (record_ending d);
               newline = (record_ending d = Newline \<or> record_ending d = CrLf)
        in if SIMD_QUOTING_SCAN_BYTES \<le> length field
           then needs_quotes_blocks (delimiter d) (quote d) ending newline field
           else needs_quotes_words (delimiter d) (quote d) ending newline field)"

section \<open>Writing one field\<close>

datatype escape_match = Leading | Later nat

fun match_index :: "escape_match \<Rightarrow> nat" where
  "match_index Leading = 0"
| "match_index (Later i) = i"

definition next_doubled_quote :: "dialect \<Rightarrow> bytes \<Rightarrow> escape_match option" where
  "next_doubled_quote d remaining =
     (if get_at remaining 0 = Some (quote d) then Some Leading
      else map_option Later (find1 (quote d) remaining))"

definition next_backslash_escape :: "dialect \<Rightarrow> byte \<Rightarrow> bytes \<Rightarrow> escape_match option" where
  "next_backslash_escape d esc remaining =
     (if (case get_at remaining 0 of None \<Rightarrow> False | Some b \<Rightarrow> b = quote d \<or> b = esc) then Some Leading
      else map_option Later (find2 (quote d) esc remaining))"

lemma next_doubled_quote_less:
  "next_doubled_quote d remaining = Some m \<Longrightarrow> match_index m < length remaining"
  by (auto simp: next_doubled_quote_def get_at_def find1_position dest!: position_less split: if_splits)

lemma next_backslash_escape_less:
  "next_backslash_escape d esc remaining = Some m \<Longrightarrow> match_index m < length remaining"
  by (auto simp: next_backslash_escape_def get_at_def find2_position dest!: position_less
      split: if_splits)

function write_doubled :: "dialect \<Rightarrow> bytes \<Rightarrow> unit sink" where
  "write_doubled d remaining =
     (case next_doubled_quote d remaining of
        None \<Rightarrow> extend remaining
      | Some m \<Rightarrow>
          let at = match_index m
          in then_sink (extend (take at remaining))
             (then_sink (extend [quote d, quote d]) (write_doubled d (drop (at + 1) remaining))))"
  by pat_completeness auto
termination
  by (relation "measure (\<lambda>(_, remaining). length remaining)") (auto dest!: next_doubled_quote_less)

declare write_doubled.simps [simp del]

function write_backslashed :: "dialect \<Rightarrow> byte \<Rightarrow> bytes \<Rightarrow> unit sink" where
  "write_backslashed d esc remaining =
     (case next_backslash_escape d esc remaining of
        None \<Rightarrow> extend remaining
      | Some m \<Rightarrow>
          let at = match_index m
          in then_sink (extend (take at remaining))
             (then_sink (extend [esc, remaining ! at]) (write_backslashed d esc (drop (at + 1) remaining))))"
  by pat_completeness auto
termination
  by (relation "measure (\<lambda>(_, _, remaining). length remaining)") (auto dest!: next_backslash_escape_less)

declare write_backslashed.simps [simp del]

text \<open>\<open>unreachable!\<close> for the escapes that never quote.\<close>

definition write_quoted :: "dialect \<Rightarrow> bytes \<Rightarrow> unit sink" where
  "write_quoted d field =
     then_sink (push_byte (quote d))
       (then_sink
         (case escape d of
            DoubleQuote \<Rightarrow> write_doubled d field
          | Backslash esc \<Rightarrow> write_backslashed d esc field
          | EscapeMysql \<Rightarrow> panic_sink
          | Unquoted _ \<Rightarrow> panic_sink)
         (push_byte (quote d)))"

definition write_necessary :: "dialect \<Rightarrow> bytes \<Rightarrow> bool \<Rightarrow> unit sink" where
  "write_necessary d field is_first =
     (if needs_quotes d field is_first then write_quoted d field else extend field)"

function write_csv_doubled :: "bytes \<Rightarrow> unit sink" where
  "write_csv_doubled remaining =
     (case find1 DQUOTE remaining of
        None \<Rightarrow> extend remaining
      | Some at \<Rightarrow> then_sink (extend (take at remaining))
          (then_sink (extend [DQUOTE, DQUOTE]) (write_csv_doubled (drop (at + 1) remaining))))"
  by pat_completeness auto
termination
  by (relation "measure length") (auto simp: find1_position dest!: position_less)

declare write_csv_doubled.simps [simp del]

definition write_csv_necessary :: "bytes \<Rightarrow> bool \<Rightarrow> unit sink" where
  "write_csv_necessary field is_first =
     (if needs_csv_quotes field is_first
      then then_sink (push_byte DQUOTE) (then_sink (write_csv_doubled field) (push_byte DQUOTE))
      else extend field)"

datatype numeric_scan = Numeric | NotNumeric | Fallback

text \<open>The loop over the body, with the two flags as accumulators.\<close>

fun scan_digits :: "bool \<Rightarrow> bool \<Rightarrow> bytes \<Rightarrow> numeric_scan" where
  "scan_digits seen_digit seen_dot [] = (if seen_digit then Numeric else NotNumeric)"
| "scan_digits seen_digit seen_dot (b # bs) =
     (if 48 \<le> b \<and> b \<le> 57 then scan_digits True seen_dot bs
      else if b = 46 \<and> \<not> seen_dot then scan_digits seen_digit True bs
      else if b \<in> {46, 101, 69, 105, 73, 110, 78, 102, 70, 97, 65, 121, 89} then Fallback
      else NotNumeric)"

definition scan_numeric :: "bytes \<Rightarrow> numeric_scan" where
  "scan_numeric field =
     (let body = (case field of b # rest \<Rightarrow> if b = 43 \<or> b = 45 then rest else field | [] \<Rightarrow> field)
      in scan_digits False False body)"

text \<open>
  \<open>str::from_utf8(field).is_ok_and(|field| field.parse::<f64>().is_ok())\<close>: the grammar of
  \<open>f64::from_str\<close>, all of whose words are ASCII and so valid UTF-8.
\<close>

definition is_digit :: "byte \<Rightarrow> bool" where "is_digit b \<longleftrightarrow> 48 \<le> b \<and> b \<le> 57"

definition strip_sign :: "bytes \<Rightarrow> bytes" where
  "strip_sign bs = (case bs of b # rest \<Rightarrow> if b = 43 \<or> b = 45 then rest else bs | [] \<Rightarrow> bs)"

definition exponent_ok :: "bytes \<Rightarrow> bool" where
  "exponent_ok bs \<longleftrightarrow>
     (case bs of [] \<Rightarrow> True
      | b # rest \<Rightarrow> (b = 101 \<or> b = 69) \<and> strip_sign rest \<noteq> [] \<and> (\<forall>x \<in> set (strip_sign rest). is_digit x))"

definition number_ok :: "bytes \<Rightarrow> bool" where
  "number_ok bs \<longleftrightarrow>
     (let whole = takeWhile is_digit bs; rest = dropWhile is_digit bs
      in case rest of
           b # tail \<Rightarrow>
             (if b = 46 then (whole \<noteq> [] \<or> takeWhile is_digit tail \<noteq> []) \<and> exponent_ok (dropWhile is_digit tail)
              else whole \<noteq> [] \<and> exponent_ok rest)
         | [] \<Rightarrow> whole \<noteq> [])"

definition ascii_lower :: "byte \<Rightarrow> byte" where
  "ascii_lower b = (if 65 \<le> b \<and> b \<le> 90 then b + 32 else b)"

definition parses_f64 :: "bytes \<Rightarrow> bool" where
  "parses_f64 field \<longleftrightarrow>
     (let body = strip_sign field; lower = map ascii_lower body
      in lower = [105, 110, 102] \<or> lower = [105, 110, 102, 105, 110, 105, 116, 121] \<or>
         lower = [110, 97, 110] \<or> number_ok body)"

definition is_numeric :: "bytes \<Rightarrow> bool" where
  "is_numeric field =
     (case scan_numeric field of Numeric \<Rightarrow> True | NotNumeric \<Rightarrow> False | Fallback \<Rightarrow> parses_f64 field)"

definition write_non_numeric :: "dialect \<Rightarrow> bytes \<Rightarrow> bool \<Rightarrow> unit sink" where
  "write_non_numeric d field is_first =
     (if needs_quotes d field is_first \<or> \<not> is_numeric field then write_quoted d field else extend field)"

definition encode_error :: "string \<Rightarrow> error" where
  "encode_error detail = error_detailed EncodeError detail"

definition write_unquoted :: "dialect \<Rightarrow> bytes \<Rightarrow> bool \<Rightarrow> unit sink" where
  "write_unquoted d field is_first =
     (if needs_quotes d field is_first then fail_sink (encode_error ''field requires quoting'')
      else extend field)"

text \<open>The byte an escape is followed by, or nothing when the byte is copied.\<close>

definition escaped_as :: "dialect \<Rightarrow> byte \<Rightarrow> byte \<Rightarrow> byte option" where
  "escaped_as d esc b =
     (let mysql = (escape d = EscapeMysql)
      in if b = 0 \<and> mysql then Some 48
         else if b = 8 \<and> mysql then Some 98
         else if b = LF \<and> mysql then Some 110
         else if b = CR \<and> mysql then Some 114
         else if b = TAB \<and> mysql then Some 116
         else if b = 26 \<and> mysql then Some 90
         else if b = esc then Some esc
         else if b = delimiter d \<or> b = ending_byte (record_ending d) \<or> b = quote d then Some b
         else None)"

text \<open>The loop: \<open>start\<close> is the first byte not yet written, \<open>index\<close> the byte looked at.\<close>

function write_escaped_from :: "dialect \<Rightarrow> byte \<Rightarrow> bytes \<Rightarrow> nat \<Rightarrow> nat \<Rightarrow> unit sink" where
  "write_escaped_from d esc field start index =
     (if index < length field then
        (case escaped_as d esc (field ! index) of
           Some e \<Rightarrow> then_sink (extend (slice field start index))
             (then_sink (extend [esc, e]) (write_escaped_from d esc field (index + 1) (index + 1)))
         | None \<Rightarrow> write_escaped_from d esc field start (index + 1))
      else extend (drop start field))"
  by pat_completeness auto
termination by (relation "measure (\<lambda>(_, _, field, _, index). length field - index)") auto

declare write_escaped_from.simps [simp del]

definition write_unquoted_escaped_field :: "dialect \<Rightarrow> byte \<Rightarrow> bytes \<Rightarrow> bool \<Rightarrow> unit sink" where
  "write_unquoted_escaped_field d esc field is_first =
     (if is_first \<and> (starts_with field BOM \<or>
           (case get_at field 0 of None \<Rightarrow> False | Some b \<Rightarrow> comment d = Some b))
      then then_sink (extend [esc, field ! 0]) (write_escaped_from d esc field 1 1)
      else write_escaped_from d esc field 0 0)"

definition write_null :: "nulls \<Rightarrow> unit sink" where
  "write_null n = (if n = NullsMysql then extend [BACKSLASH, LETTER_N] else return_sink ())"

definition write_non_null_empty :: "dialect \<Rightarrow> quoting \<Rightarrow> unit sink" where
  "write_non_null_empty d q =
     (case q of NonNumeric \<Rightarrow> write_quoted d [] | Always \<Rightarrow> write_quoted d []
      | Necessary \<Rightarrow> return_sink () | Never \<Rightarrow> return_sink () | Raw \<Rightarrow> return_sink ())"

definition write_record_field :: "dialect \<Rightarrow> quoting \<Rightarrow> bytes \<Rightarrow> bool \<Rightarrow> unit sink" where
  "write_record_field d q field is_first =
     (case q of
        Necessary \<Rightarrow> (if d = DIALECT_CSV then write_csv_necessary field is_first
                      else write_necessary d field is_first)
      | NonNumeric \<Rightarrow> write_non_numeric d field is_first
      | Always \<Rightarrow> write_quoted d field
      | Never \<Rightarrow> write_unquoted d field is_first
      | Raw \<Rightarrow> extend field)"

definition write_configured_field ::
    "dialect \<Rightarrow> quoting \<Rightarrow> nulls \<Rightarrow> bytes \<Rightarrow> bool \<Rightarrow> unit sink" where
  "write_configured_field d q n field is_first =
     (case unquoted_byte (escape d) of
        Some esc \<Rightarrow>
          (if n = NullsMysql \<and> field = [BACKSLASH, LETTER_N] then extend [esc, BACKSLASH, LETTER_N]
           else write_unquoted_escaped_field d esc field is_first)
      | None \<Rightarrow>
          if n = PostgresCsv \<and> field = [] then write_quoted d field
          else if n = NullsMysql \<and> field = [BACKSLASH, LETTER_N] then
            (if q \<in> {Necessary, NonNumeric, Always} then write_quoted d field
             else fail_sink (encode_error
               (''a non-NULL MySQL '' @ [CHR 0x5C] @ ''N field requires quoting or unquoted escaping'')))
          else (case q of
              Necessary \<Rightarrow> write_necessary d field is_first
            | NonNumeric \<Rightarrow> write_non_numeric d field is_first
            | Always \<Rightarrow> write_quoted d field
            | Never \<Rightarrow> write_unquoted d field is_first
            | Raw \<Rightarrow> extend field))"

section \<open>Framing a record\<close>

definition write_delimiter :: "dialect \<Rightarrow> unit sink" where
  "write_delimiter d =
     then_sink (push_byte (delimiter d))
       (if \<not> tail_is_empty (delimiter_tail d) then extend (tail_slice (delimiter_tail d))
        else return_sink ())"

definition finish_record :: "dialect \<Rightarrow> unit sink" where
  "finish_record d =
     then_sink (if record_ending d = CrLf then push_byte CR else return_sink ())
       (then_sink (push_byte (ending_byte (record_ending d)))
         (if \<not> tail_is_empty (ending_tail d) then extend (tail_slice (ending_tail d))
          else return_sink ()))"

text \<open>\<open>for field in fields { separator; write(field) }\<close>.\<close>

fun write_rest :: "unit sink \<Rightarrow> (bytes \<Rightarrow> unit sink) \<Rightarrow> bytes list \<Rightarrow> unit sink" where
  "write_rest separator wr [] = return_sink ()"
| "write_rest separator wr (field # fs) =
     then_sink separator (then_sink (wr field) (write_rest separator wr fs))"

definition emit_record_runtime :: "dialect \<Rightarrow> quoting \<Rightarrow> bytes list \<Rightarrow> nat sink" where
  "emit_record_runtime d q fs out =
     (let record_start = length out;
          done = then_sink (finish_record d) (return_sink (length fs))
      in case fs of
        [] \<Rightarrow> then_sink (finish_record d) (return_sink 0) out
      | first # rest \<Rightarrow>
          (case q of
             Necessary \<Rightarrow>
               then_sink
                 (if d = DIALECT_CSV
                  then then_sink (write_csv_necessary first True)
                         (write_rest (push_byte COMMA) (\<lambda>f. write_csv_necessary f False) rest)
                  else then_sink (write_necessary d first True)
                         (write_rest (write_delimiter d) (\<lambda>f. write_necessary d f False) rest))
                 (then_sink (\<lambda>out. if length out = record_start then extend [quote d, quote d] out
                                    else return_sink () out) done) out
           | NonNumeric \<Rightarrow>
               then_sink (write_non_numeric d first True)
                 (then_sink (write_rest (write_delimiter d) (\<lambda>f. write_non_numeric d f False) rest) done) out
           | Always \<Rightarrow>
               then_sink (write_quoted d first)
                 (then_sink (write_rest (write_delimiter d) (write_quoted d) rest) done) out
           | Never \<Rightarrow>
               then_sink (rollback_to record_start
                 (then_sink (write_unquoted d first True)
                   (write_rest (write_delimiter d) (\<lambda>f. write_unquoted d f False) rest))) done out
           | Raw \<Rightarrow>
               then_sink (extend first)
                 (then_sink (write_rest (write_delimiter d) extend rest) done) out))"

text \<open>
  The loop of \<open>emit_nullable_record_runtime\<close>; it returns the count and
  \<open>only_field_was_non_null_empty\<close>.
\<close>

fun write_nullable ::
    "dialect \<Rightarrow> quoting \<Rightarrow> nulls \<Rightarrow> nat \<Rightarrow> nat \<Rightarrow> bool \<Rightarrow> bytes option list \<Rightarrow> (nat \<times> bool) sink" where
  "write_nullable d q n record_start count only_empty [] = return_sink (count, only_empty)"
| "write_nullable d q n record_start count only_empty (f # fs) =
     then_sink (if count \<noteq> 0 then write_delimiter d else return_sink ())
       (case f of
          None \<Rightarrow>
            (if n = NullsNone
             then then_sink (write_non_null_empty d q)
                    (write_nullable d q n record_start (count + 1) True fs)
             else then_sink (write_null n)
                    (write_nullable d q n record_start (count + 1) only_empty fs))
        | Some field \<Rightarrow>
            then_sink (rollback_to record_start (write_configured_field d q n field (count + 1 = 1)))
              (write_nullable d q n record_start (count + 1) (field = []) fs))"

definition emit_nullable_record_runtime ::
    "dialect \<Rightarrow> quoting \<Rightarrow> nulls \<Rightarrow> bytes option list \<Rightarrow> nat sink" where
  "emit_nullable_record_runtime d q n fs out =
     bind_sink (write_nullable d q n (length out) 0 False fs) (\<lambda>(count, only_empty).
       then_sink (\<lambda>o'. if count = 1 \<and> only_empty \<and> length o' = length out \<and> q = Necessary
                       then extend [quote d, quote d] o' else return_sink () o')
         (then_sink (finish_record d) (return_sink count))) out"

definition validate_field_count :: "field_count \<Rightarrow> nat option \<Rightarrow> nat \<Rightarrow> unit outcome \<times> nat option" where
  "validate_field_count policy expected actual =
     (let mismatch = (\<lambda>required. if actual = required then Ok ()
            else Err (error_new (FieldCountMismatch required actual) LOC_START))
      in case policy of
           Flexible \<Rightarrow> (Ok (), expected)
         | Exact required \<Rightarrow> (mismatch required, expected)
         | MatchFirst \<Rightarrow>
             (case expected of Some required \<Rightarrow> (mismatch required, expected)
              | None \<Rightarrow> (Ok (), Some actual)))"

section \<open>The word test for a zero byte is exact\<close>

text \<open>
  The borrow of \<open>word - BYTE_ONES\<close> crosses a byte only out of a zero byte, so the test has no false
  positive as a whole; stated on integers, byte by byte, where the induction is on the width.
\<close>

fun int_ones :: "nat \<Rightarrow> int" where
  "int_ones 0 = 0"
| "int_ones (Suc n) = 1 + 256 * int_ones n"

lemma bit_shift_byte: "bit (b + 256 * y) (8 * Suc i + 7) = bit (y :: int) (8 * i + 7)"
  if "0 \<le> b" "b < 256"
proof -
  have "(b + 256 * y) div 2 ^ 8 = y" using that by simp
  then have "bit y k = bit (b + 256 * y) (8 + k)" for k
    using bit_drop_bit_eq [of 8 "b + 256 * y"] by (simp add: drop_bit_eq_div)
  from this [of "8 * i + 7"] show ?thesis by (simp add: add.assoc)
qed

lemma bit_low_byte: "bit (b + 256 * y) 7 \<longleftrightarrow> 128 \<le> b" if "0 \<le> b" "b < 256" for b y :: int
proof -
  have "(b + 256 * y) div 128 = b div 128 + 2 * y" by simp
  moreover have "b div 128 = (if 128 \<le> b then 1 else 0)" using that by auto
  ultimately show ?thesis by (simp add: bit_iff_odd)
qed

lemma zero_byte_int:
  "(\<exists>i < n. bit (x - int_ones n) (8 * i + 7) \<and> \<not> bit x (8 * i + 7)) \<longleftrightarrow>
   (\<exists>i < n. (x div 256 ^ i) mod 256 = 0)"
proof (induction n arbitrary: x)
  case (Suc n)
  define b where "b = x mod 256"
  define y where "y = x div 256"
  have x: "x = b + 256 * y" and b: "0 \<le> b" "b < 256" by (simp_all add: b_def y_def)
  have div: "x div 256 ^ Suc i = y div 256 ^ i" for i
    by (simp add: y_def zdiv_zmult2_eq)
  have ex: "(\<exists>i < Suc n. P i) \<longleftrightarrow> P 0 \<or> (\<exists>i < n. P (Suc i))" for P
    by (auto simp: less_Suc_eq_0_disj)
  show ?case
  proof (cases "b = 0")
    case True
    have "x - int_ones (Suc n) = 255 + 256 * (y - int_ones n - 1)" using x True by simp
    then have "bit (x - int_ones (Suc n)) 7" by (simp only: bit_low_byte)
    moreover have "\<not> bit x 7" using x b bit_low_byte [of b y] True by simp
    ultimately show ?thesis using True b_def by (auto simp: ex)
  next
    case False
    have sub: "x - int_ones (Suc n) = (b - 1) + 256 * (y - int_ones n)" using x by simp
    have "bit (x - int_ones (Suc n)) 7 \<longleftrightarrow> 128 \<le> b - 1"
      unfolding sub using b False by (intro bit_low_byte) auto
    moreover have "bit x 7 \<longleftrightarrow> 128 \<le> b" unfolding x by (rule bit_low_byte [OF b])
    moreover have "bit (x - int_ones (Suc n)) (8 * Suc i + 7) = bit (y - int_ones n) (8 * i + 7)" for i
      unfolding sub using b False by (intro bit_shift_byte) auto
    moreover have "bit x (8 * Suc i + 7) = bit y (8 * i + 7)" for i
      unfolding x by (rule bit_shift_byte [OF b])
    ultimately show ?thesis
      using False Suc.IH [of y] b_def div by (auto simp add: ex)
  qed
qed simp

lemma BYTE_HIGHS_bit: "k < 64 \<Longrightarrow> bit BYTE_HIGHS k \<longleftrightarrow> k mod 8 = 7"
proof -
  have "list_all (\<lambda>k. bit (0x8080808080808080 :: 64 word) k \<longleftrightarrow> k mod 8 = 7) [0..<64]"
    by (simp add: upt_rec)
  moreover have "BYTE_HIGHS = 0x8080808080808080"
    by (simp add: BYTE_HIGHS_def BYTE_ONES_def)
  ultimately show "k < 64 \<Longrightarrow> bit BYTE_HIGHS k \<longleftrightarrow> k mod 8 = 7"
    by (simp add: list_all_iff)
qed

lemma int_ones_8: "int_ones 8 = 0x0101010101010101"
  by (simp add: eval_nat_numeral)

lemma bit_word_minus: "bit (w - v) k \<longleftrightarrow> k < 64 \<and> bit (uint w - uint v) k" for w v :: "64 word"
proof -
  have "w - v = word_of_int (uint w - uint v)" by simp
  then show ?thesis by (simp only: bit_word_of_int_iff) simp
qed

definition word_byte :: "64 word \<Rightarrow> nat \<Rightarrow> int" where
  "word_byte w i = (uint w div 256 ^ i) mod 256"

lemma zero_byte_mask_iff: "zero_byte_mask w \<noteq> 0 \<longleftrightarrow> (\<exists>i < 8. word_byte w i = 0)"
proof -
  have ones: "uint BYTE_ONES = int_ones 8" by (simp add: BYTE_ONES_def int_ones_8)
  have bits: "bit (zero_byte_mask w) k \<longleftrightarrow>
      k < 64 \<and> k mod 8 = 7 \<and> bit (uint w - int_ones 8) k \<and> \<not> bit (uint w) k" for k
    by (auto simp: zero_byte_mask_def bit_and_iff bit_not_iff bit_word_minus ones BYTE_HIGHS_bit
        bit_uint_iff)
  have "zero_byte_mask w \<noteq> 0 \<longleftrightarrow> (\<exists>k. bit (zero_byte_mask w) k)"
    by (metis bit_eqI bit_0_eq bot_apply bot_bool_def)
  also have "\<dots> \<longleftrightarrow> (\<exists>i < 8. bit (uint w - int_ones 8) (8 * i + 7) \<and> \<not> bit (uint w) (8 * i + 7))"
  proof
    assume "\<exists>k. bit (zero_byte_mask w) k"
    then obtain k where k: "k < 64" "k mod 8 = 7" "bit (uint w - int_ones 8) k" "\<not> bit (uint w) k"
      by (auto simp: bits)
    moreover have "k = 8 * (k div 8) + 7" using k(2) by presburger
    moreover have "k div 8 < 8" using k(1) by simp
    ultimately show "\<exists>i < 8. bit (uint w - int_ones 8) (8 * i + 7) \<and> \<not> bit (uint w) (8 * i + 7)"
      by metis
  next
    assume "\<exists>i < 8. bit (uint w - int_ones 8) (8 * i + 7) \<and> \<not> bit (uint w) (8 * i + 7)"
    then obtain i where "i < 8" "bit (zero_byte_mask w) (8 * i + 7)" by (auto simp: bits)
    then show "\<exists>k. bit (zero_byte_mask w) k" by blast
  qed
  also have "\<dots> \<longleftrightarrow> (\<exists>i < 8. word_byte w i = 0)"
    unfolding word_byte_def by (rule zero_byte_int)
  finally show ?thesis .
qed

lemma bit_word_of_bytes:
  "bit (word_of_bytes bs) k \<longleftrightarrow> k < 64 \<and> k div 8 < length bs \<and> bit (bs ! (k div 8)) (k mod 8)"
proof (induction bs arbitrary: k)
  case (Cons b bs)
  show ?case
  proof (cases "k < 8")
    case True
    then show ?thesis by (simp add: bit_or_iff bit_ucast_iff bit_push_bit_iff)
  next
    case False
    then have "\<not> bit b k" using bit_imp_le_length [of b k] by auto
    moreover have "k div 8 = Suc ((k - 8) div 8)" "k mod 8 = (k - 8) mod 8"
      using False by (simp_all add: le_div_geq le_mod_geq)
    ultimately show ?thesis
      using False Cons.IH [of "k - 8"] by (auto simp: bit_or_iff bit_ucast_iff bit_push_bit_iff)
  qed
qed simp

lemma word_of_bytes_Cons: "word_of_bytes (b # bs) = ucast b + 256 * word_of_bytes bs"
proof -
  have "(ucast b :: 64 word) AND push_bit 8 (word_of_bytes bs) = 0"
    by (rule bit_eqI) (auto simp: bit_and_iff bit_ucast_iff bit_push_bit_iff dest: bit_imp_le_length)
  then have "ucast b OR push_bit 8 (word_of_bytes bs) = ucast b + push_bit 8 (word_of_bytes bs)"
    by (rule disjunctive_add_eq_or [symmetric])
  then show ?thesis by (simp add: push_bit_eq_mult mult.commute)
qed

lemma repeated_byte_eq: "repeated_byte b = word_of_bytes (replicate 8 b)"
proof -
  have "replicate 8 b = [b, b, b, b, b, b, b, b]" by (simp add: numeral_eq_Suc)
  then show ?thesis
    unfolding repeated_byte_def BYTE_ONES_def
    by (simp only: word_of_bytes_Cons word_of_bytes.simps(1)) (simp add: algebra_simps)
qed

lemma word_byte_zero_iff:
  assumes "i < 8"
  shows "word_byte w i = 0 \<longleftrightarrow> (\<forall>j < 8. \<not> bit w (8 * i + j))"
proof -
  let ?t = "take_bit 8 (drop_bit (8 * i) (uint w))"
  have "word_byte w i = ?t"
    by (simp add: word_byte_def take_bit_eq_mod drop_bit_eq_div power_mult)
  moreover have "?t = 0 \<longleftrightarrow> (\<forall>j. \<not> bit ?t j)"
    by (metis bit_eqI bit_0_eq bot_apply bot_bool_def)
  moreover have "(\<forall>j. \<not> bit ?t j) \<longleftrightarrow> (\<forall>j < 8. \<not> bit w (8 * i + j))"
    using assms by (auto simp: bit_take_bit_iff bit_drop_bit_eq bit_uint_iff)
  ultimately show ?thesis by simp
qed

lemma zero_byte_mask_xor:
  assumes "length chunk = 8"
  shows "zero_byte_mask (word_of_bytes chunk XOR repeated_byte b) \<noteq> 0 \<longleftrightarrow> b \<in> set chunk"
proof -
  have "word_byte (word_of_bytes chunk XOR repeated_byte b) i = 0 \<longleftrightarrow> chunk ! i = b" if "i < 8" for i
  proof -
    have "word_byte (word_of_bytes chunk XOR repeated_byte b) i = 0 \<longleftrightarrow>
        (\<forall>j < 8. bit (chunk ! i) j = bit b j)"
      using that assms by (simp add: word_byte_zero_iff repeated_byte_eq bit_xor_iff bit_word_of_bytes)
    also have "\<dots> \<longleftrightarrow> chunk ! i = b"
      by (auto intro!: bit_word_eqI)
    finally show ?thesis .
  qed
  then show ?thesis using assms by (auto simp: zero_byte_mask_iff in_set_conv_nth)
qed

lemma as_chunks8_spec:
  "as_chunks8 bs = (cs, r) \<Longrightarrow> bs = concat cs @ r \<and> (\<forall>c \<in> set cs. length c = 8) \<and> length r < 8"
proof (induction bs arbitrary: cs r rule: as_chunks8.induct)
  case (1 bs)
  show ?case
  proof (cases "length bs < 8")
    case True
    then show ?thesis using "1.prems" by (subst (asm) as_chunks8.simps) simp
  next
    case False
    obtain cs' r' where rest: "as_chunks8 (drop 8 bs) = (cs', r')" by (cases "as_chunks8 (drop 8 bs)")
    have "as_chunks8 bs = (take 8 bs # cs', r')"
      using False rest by (subst as_chunks8.simps) simp
    then have cs: "cs = take 8 bs # cs'" "r = r'" using "1.prems" by simp_all
    have IH: "concat cs' @ r' = drop 8 bs" "\<forall>c \<in> set cs'. length c = 8" "length r' < 8"
      using "1.IH" [OF False rest] by simp_all
    have "concat cs @ r = bs" unfolding cs by (simp add: IH(1))
    then show ?thesis using IH(2,3) False cs by auto
  qed
qed

section \<open>The quoting tests are what they stand for\<close>

text \<open>The bytes that force quotes, and the reference test.\<close>

definition special_bytes :: "dialect \<Rightarrow> byte set" where
  "special_bytes d =
     {delimiter d, quote d, ending_byte (record_ending d)} \<union>
     (if record_ending d = Newline \<or> record_ending d = CrLf then {CR} else {})"

definition must_quote :: "dialect \<Rightarrow> bytes \<Rightarrow> bool \<Rightarrow> bool" where
  "must_quote d field is_first \<longleftrightarrow>
     is_first \<and> (starts_with field BOM \<or> (\<exists>c rest. comment d = Some c \<and> field = c # rest)) \<or>
     set field \<inter> special_bytes d \<noteq> {}"

lemma chunks_any:
  assumes "as_chunks8 field = (cs, r)"
    and "\<And>c. c \<in> set cs \<Longrightarrow> length c = 8 \<Longrightarrow> P c \<longleftrightarrow> set c \<inter> S \<noteq> {}"
  shows "(\<exists>c \<in> set cs. P c) \<or> (\<exists>b \<in> set r. b \<in> S) \<longleftrightarrow> set field \<inter> S \<noteq> {}"
proof -
  have field: "field = concat cs @ r" and len: "\<forall>c \<in> set cs. length c = 8"
    using as_chunks8_spec [OF assms(1)] by simp_all
  have "(\<exists>c \<in> set cs. P c) \<longleftrightarrow> (\<exists>c \<in> set cs. set c \<inter> S \<noteq> {})"
    by (rule bex_cong [OF refl]) (rule assms(2), assumption, rule len [rule_format])
  moreover have "set field \<inter> S \<noteq> {} \<longleftrightarrow> (\<exists>c \<in> set cs. set c \<inter> S \<noteq> {}) \<or> (\<exists>b \<in> set r. b \<in> S)"
    unfolding field set_append set_concat by blast
  ultimately show ?thesis by simp
qed

lemma needs_quotes_words_eq:
  "needs_quotes_words dl q ending newline field \<longleftrightarrow>
     set field \<inter> ({dl, q, ending} \<union> (if newline then {CR} else {})) \<noteq> {}"
proof -
  obtain cs r where c: "as_chunks8 field = (cs, r)" by (cases "as_chunks8 field")
  let ?z = "\<lambda>chunk b. zero_byte_mask (word_of_bytes chunk XOR repeated_byte b)"
  let ?found = "\<lambda>chunk. if newline then (?z chunk dl OR ?z chunk q OR ?z chunk ending) OR ?z chunk CR
    else ?z chunk dl OR ?z chunk q OR ?z chunk ending"
  let ?S = "{dl, q, ending} \<union> (if newline then {CR} else {})"
  have S: "b \<in> ?S \<longleftrightarrow> b = dl \<or> b = q \<or> b = ending \<or> newline \<and> b = CR" for b by simp
  have main: "(\<exists>chunk \<in> set cs. ?found chunk \<noteq> 0) \<or> (\<exists>b \<in> set r. b \<in> ?S) \<longleftrightarrow> set field \<inter> ?S \<noteq> {}"
  proof (rule chunks_any [OF c])
    fix chunk :: bytes
    assume "length chunk = 8"
    note z = zero_byte_mask_xor [OF this]
    have "?found chunk \<noteq> 0 \<longleftrightarrow>
        ?z chunk dl \<noteq> 0 \<or> ?z chunk q \<noteq> 0 \<or> ?z chunk ending \<noteq> 0 \<or> newline \<and> ?z chunk CR \<noteq> 0"
      by (cases newline) (simp_all add: or_eq_0_iff)
    then show "?found chunk \<noteq> 0 \<longleftrightarrow> set chunk \<inter> ?S \<noteq> {}"
      unfolding z by auto
  qed
  show ?thesis
    unfolding needs_quotes_words_def Let_def c prod.case main [symmetric] S
    by (cases "\<exists>chunk \<in> set cs. ?found chunk \<noteq> 0") (simp_all only: if_True if_False simp_thms)
qed

lemma needs_quotes_blocks_eq:
  "needs_quotes_blocks dl q ending newline field \<longleftrightarrow>
     set field \<inter> ({dl, q, ending} \<union> (if newline then {CR} else {})) \<noteq> {}"
  by (cases newline) (auto simp: needs_quotes_blocks_def find4_position find3_position position_None_iff)

lemma needs_quotes_iff: "needs_quotes d field is_first \<longleftrightarrow> must_quote d field is_first"
proof -
  have first: "(case comment d of None \<Rightarrow> False | Some c \<Rightarrow> get_at field 0 = Some c) \<longleftrightarrow>
      (\<exists>c rest. comment d = Some c \<and> field = c # rest)"
    by (cases field; cases "comment d") (auto simp: get_at_Cons)
  have special: "special_bytes d = {delimiter d, quote d, ending_byte (record_ending d)} \<union>
      (if record_ending d = Newline \<or> record_ending d = CrLf then {CR} else {})"
    by (simp add: special_bytes_def)
  show ?thesis
    unfolding needs_quotes_def must_quote_def Let_def first special
      needs_quotes_blocks_eq needs_quotes_words_eq if_cancel if_bool_eq_disj by blast
qed

lemma needs_csv_quotes_iff: "needs_csv_quotes field is_first \<longleftrightarrow> must_quote DIALECT_CSV field is_first"
proof -
  let ?S = "{COMMA, DQUOTE, LF, CR}"
  have S: "special_bytes DIALECT_CSV = ?S"
    by (auto simp: special_bytes_def DIALECT_CSV_def)
  have c: "comment DIALECT_CSV = None" by (simp add: DIALECT_CSV_def)
  let ?z = "\<lambda>chunk b. zero_byte_mask (word_of_bytes chunk XOR repeated_byte b)"
  obtain cs r where cs: "as_chunks8 field = (cs, r)" by (cases "as_chunks8 field")
  have words: "(\<exists>chunk \<in> set cs. (?z chunk COMMA OR ?z chunk DQUOTE OR ?z chunk LF OR ?z chunk CR) \<noteq> 0) \<or>
      (\<exists>b \<in> set r. b \<in> ?S) \<longleftrightarrow> set field \<inter> ?S \<noteq> {}"
  proof (rule chunks_any [OF cs])
    fix chunk :: bytes
    assume "length chunk = 8"
    note z = zero_byte_mask_xor [OF this]
    have "(?z chunk COMMA OR ?z chunk DQUOTE OR ?z chunk LF OR ?z chunk CR) \<noteq> 0 \<longleftrightarrow>
        ?z chunk COMMA \<noteq> 0 \<or> ?z chunk DQUOTE \<noteq> 0 \<or> ?z chunk LF \<noteq> 0 \<or> ?z chunk CR \<noteq> 0"
      by (simp add: or_eq_0_iff)
    then show "(?z chunk COMMA OR ?z chunk DQUOTE OR ?z chunk LF OR ?z chunk CR) \<noteq> 0 \<longleftrightarrow>
        set chunk \<inter> ?S \<noteq> {}"
      unfolding z by blast
  qed
  have bytes: "(\<exists>b \<in> set field. b \<in> ?S) \<longleftrightarrow> set field \<inter> ?S \<noteq> {}" by blast
  show ?thesis
    unfolding needs_csv_quotes_def must_quote_def Let_def cs prod.case words bytes if_cancel S c
    by (cases is_first; cases "starts_with field BOM") simp_all
qed

section \<open>What the writers append\<close>

definition doubled :: "byte \<Rightarrow> bytes \<Rightarrow> bytes" where
  "doubled q field = concat (map (\<lambda>b. if b = q then [q, q] else [b]) field)"

definition backslashed :: "byte \<Rightarrow> byte \<Rightarrow> bytes \<Rightarrow> bytes" where
  "backslashed q esc field = concat (map (\<lambda>b. if b = q \<or> b = esc then [esc, b] else [b]) field)"

definition escaped_text :: "dialect \<Rightarrow> byte \<Rightarrow> bytes \<Rightarrow> bytes" where
  "escaped_text d esc field =
     concat (map (\<lambda>b. case escaped_as d esc b of Some e \<Rightarrow> [esc, e] | None \<Rightarrow> [b]) field)"

text \<open>A writer that always succeeds and only appends.\<close>

locale appender =
  fixes w :: "'a \<Rightarrow> unit sink" and added :: "'a \<Rightarrow> bytes"
  assumes append: "w x out = (out @ added x, Ok ())"
begin

lemma then_append: "then_sink (w x) m out = m (out @ added x)"
  by (simp add: then_sink_def bind_sink_def append)

lemma rollback_append: "rollback_to start (w x) out = (out @ added x, Ok ())"
  by (simp add: rollback_to_def append)

end

lemma then_sink_Ok: "m out = (out', Ok x) \<Longrightarrow> then_sink m n out = n out'"
  by (simp add: then_sink_def bind_sink_def)

lemma then_sink_cases:
  "then_sink m n out = (case m out of (out', Ok x) \<Rightarrow> n out' | (out', Err e) \<Rightarrow> (out', Err e)
     | (out', Panic) \<Rightarrow> (out', Panic))"
  by (simp add: then_sink_def bind_sink_def split: prod.splits outcome.splits)

interpretation ext: appender extend "\<lambda>bs. bs"
  by unfold_locales (simp add: extend_def)

interpretation psh: appender push_byte "\<lambda>b. [b]"
  by unfold_locales (simp add: push_byte_def)

interpretation ret: appender "\<lambda>_ :: unit. return_sink ()" "\<lambda>_. []"
  by unfold_locales (simp add: return_sink_def)

lemmas append_simps = ext.append ext.then_append psh.append psh.then_append
  ret.append ret.then_append

lemma concat_map_id: "(\<And>b. b \<in> set xs \<Longrightarrow> f b = [b]) \<Longrightarrow> concat (map f xs) = xs"
  by (induction xs) auto

lemma concat_map_at:
  assumes "at < length xs" "\<And>b. b \<in> set (take at xs) \<Longrightarrow> f b = [b]"
  shows "concat (map f xs) = take at xs @ f (xs ! at) @ concat (map f (drop (at + 1) xs))"
proof -
  have "xs = take at xs @ xs ! at # drop (at + 1) xs"
    using id_take_nth_drop [OF assms(1)] by simp
  then have "concat (map f xs) = concat (map f (take at xs @ xs ! at # drop (at + 1) xs))" by metis
  then show ?thesis using concat_map_id [of "take at xs" f] assms(2) by simp
qed

lemma position_take: "position P xs = Some i \<Longrightarrow> x \<in> set (take i xs) \<Longrightarrow> \<not> P x"
  by (auto simp: position_Some_iff in_set_conv_nth)

text \<open>The leading-byte shortcut finds the same byte as the search does.\<close>

lemma next_doubled_quote_position:
  "map_option match_index (next_doubled_quote d xs) = position (\<lambda>b. b = quote d) xs"
  by (cases xs) (auto simp: next_doubled_quote_def get_at_Cons find1_position option.map_comp
      comp_def option.map_ident)

lemma next_backslash_escape_position:
  "map_option match_index (next_backslash_escape d esc xs) = position (\<lambda>b. b = quote d \<or> b = esc) xs"
  by (cases xs) (auto simp: next_backslash_escape_def get_at_Cons find2_position option.map_comp
      comp_def option.map_ident)

interpretation dbl: appender "write_doubled d" "doubled (quote d)" for d
proof
  fix xs out
  show "write_doubled d xs out = (out @ doubled (quote d) xs, Ok ())"
  proof (induction d xs arbitrary: out rule: write_doubled.induct)
    case (1 d xs)
    show ?case
    proof (cases "next_doubled_quote d xs")
      case None
      then have "position (\<lambda>b. b = quote d) xs = None"
        using next_doubled_quote_position [of d xs] by simp
      then have "doubled (quote d) xs = xs"
        unfolding doubled_def by (intro concat_map_id) (auto simp: position_None_iff)
      then show ?thesis using None by (subst write_doubled.simps) (simp add: append_simps Let_def)
    next
      case (Some m)
      then have p: "position (\<lambda>b. b = quote d) xs = Some (match_index m)"
        using next_doubled_quote_position [of d xs] by simp
      have "doubled (quote d) xs = take (match_index m) xs @ [quote d, quote d] @
          doubled (quote d) (drop (match_index m + 1) xs)"
        unfolding doubled_def using position_SomeD [OF p] position_take [OF p]
        by (subst concat_map_at [where at = "match_index m"]) auto
      then show ?thesis
        using Some "1.IH" [OF Some refl] by (subst write_doubled.simps) (simp add: append_simps Let_def)
    qed
  qed
qed

interpretation bsl: appender "write_backslashed d esc" "backslashed (quote d) esc" for d esc
proof
  fix xs out
  show "write_backslashed d esc xs out = (out @ backslashed (quote d) esc xs, Ok ())"
  proof (induction d esc xs arbitrary: out rule: write_backslashed.induct)
    case (1 d esc xs)
    let ?P = "\<lambda>b. b = quote d \<or> b = esc"
    show ?case
    proof (cases "next_backslash_escape d esc xs")
      case None
      then have "position ?P xs = None"
        using next_backslash_escape_position [of d esc xs] by simp
      then have "backslashed (quote d) esc xs = xs"
        unfolding backslashed_def by (intro concat_map_id) (auto simp: position_None_iff)
      then show ?thesis using None by (subst write_backslashed.simps) (simp add: append_simps Let_def)
    next
      case (Some m)
      then have p: "position ?P xs = Some (match_index m)"
        using next_backslash_escape_position [of d esc xs] by simp
      have "backslashed (quote d) esc xs = take (match_index m) xs @ [esc, xs ! match_index m] @
          backslashed (quote d) esc (drop (match_index m + 1) xs)"
        unfolding backslashed_def using position_SomeD [OF p] position_take [OF p]
        by (subst concat_map_at [where at = "match_index m"]) auto
      then show ?thesis
        using Some "1.IH" [OF Some refl] by (subst write_backslashed.simps) (simp add: append_simps Let_def)
    qed
  qed
qed

lemma write_csv_doubled_eq: "write_csv_doubled field = write_doubled DIALECT_CSV field"
proof (induction field rule: write_csv_doubled.induct)
  case (1 xs)
  have q: "quote DIALECT_CSV = DQUOTE" by (simp add: DIALECT_CSV_def)
  have m: "map_option match_index (next_doubled_quote DIALECT_CSV xs) = find1 DQUOTE xs"
    by (simp add: next_doubled_quote_position q find1_position)
  show ?case
  proof (cases "next_doubled_quote DIALECT_CSV xs")
    case None
    then show ?thesis
      using m by (subst write_csv_doubled.simps, subst write_doubled.simps) simp
  next
    case (Some e)
    then have "find1 DQUOTE xs = Some (match_index e)" using m by simp
    then show ?thesis
      using Some "1.IH" by (subst write_csv_doubled.simps, subst write_doubled.simps) (simp add: Let_def q)
  qed
qed

lemma write_escaped_from_eq:
  "start \<le> index \<Longrightarrow> start \<le> length field \<Longrightarrow>
   (\<And>i. start \<le> i \<Longrightarrow> i < index \<Longrightarrow> i < length field \<Longrightarrow> escaped_as d esc (field ! i) = None) \<Longrightarrow>
   write_escaped_from d esc field start index out =
     (out @ escaped_text d esc (drop start field), Ok ())"
proof (induction d esc field start index arbitrary: out rule: write_escaped_from.induct)
  case (1 d esc field start index)
  let ?f = "\<lambda>b. case escaped_as d esc b of Some e \<Rightarrow> [esc, e] | None \<Rightarrow> [b]"
  show ?case
  proof (cases "index < length field")
    case False
    have "escaped_as d esc b = None" if b: "b \<in> set (drop start field)" for b
    proof -
      obtain i where "i < length field - start" "b = field ! (start + i)"
        using b by (auto simp: in_set_conv_nth)
      then show ?thesis using "1.prems"(3) [of "start + i"] False by simp
    qed
    then have "escaped_text d esc (drop start field) = drop start field"
      unfolding escaped_text_def by (intro concat_map_id) simp
    then show ?thesis
      using False by (subst write_escaped_from.simps) (simp add: append_simps)
  next
    case True
    show ?thesis
    proof (cases "escaped_as d esc (field ! index)")
      case None
      have "escaped_as d esc (field ! i) = None" if "start \<le> i" "i < index + 1" for i
        using that "1.prems"(3) [of i] True None by (cases "i = index") auto
      then show ?thesis
        using True None "1.IH"(1) [OF True None] "1.prems"(1,2)
        by (subst write_escaped_from.simps) simp
    next
      case (Some e)
      have IH: "write_escaped_from d esc field (index + 1) (index + 1) o' =
          (o' @ escaped_text d esc (drop (index + 1) field), Ok ())" for o'
        using "1.IH"(2) [OF True Some] True by simp
      let ?ys = "drop start field"
      have "escaped_as d esc b = None" if b: "b \<in> set (take (index - start) ?ys)" for b
      proof -
        obtain i where "i < index - start" "b = field ! (start + i)"
          using b True by (auto simp: in_set_conv_nth)
        then show ?thesis using "1.prems"(3) [of "start + i"] True by simp
      qed
      then have "escaped_text d esc ?ys =
          take (index - start) ?ys @ [esc, e] @ escaped_text d esc (drop (index + 1) field)"
        unfolding escaped_text_def using True "1.prems"(1) Some
        by (subst concat_map_at [where at = "index - start"]) auto
      then show ?thesis
        using True Some IH by (subst write_escaped_from.simps) (simp add: append_simps slice_def)
    qed
  qed
qed

text \<open>A leading comment or BOM byte is escaped even when it is not structural.\<close>

definition unquoted_text :: "dialect \<Rightarrow> byte \<Rightarrow> bytes \<Rightarrow> bool \<Rightarrow> bytes" where
  "unquoted_text d esc field is_first =
     (if is_first \<and> (starts_with field BOM \<or> (\<exists>c rest. comment d = Some c \<and> field = c # rest))
      then [esc, hd field] @ escaped_text d esc (tl field) else escaped_text d esc field)"

interpretation escw: appender "\<lambda>field. write_unquoted_escaped_field d e field is_first"
  "\<lambda>field. unquoted_text d e field is_first" for d e is_first
proof
  fix field out
  have first: "(case get_at field 0 of None \<Rightarrow> False | Some b \<Rightarrow> comment d = Some b) \<longleftrightarrow>
      (\<exists>c rest. comment d = Some c \<and> field = c # rest)"
    by (cases field) (auto simp: get_at_Cons)
  have ne: "field \<noteq> []" if "starts_with field BOM \<or> (\<exists>c rest. comment d = Some c \<and> field = c # rest)"
    using that by (auto simp: starts_with_def)
  show "write_unquoted_escaped_field d e field is_first out =
      (out @ unquoted_text d e field is_first, Ok ())"
  proof (cases "is_first \<and> (starts_with field BOM \<or> (\<exists>c rest. comment d = Some c \<and> field = c # rest))")
    case True
    then obtain b bs where field: "field = b # bs" using ne by (cases field) auto
    have "write_escaped_from d e field 1 1 o' = (o' @ escaped_text d e (drop 1 field), Ok ())" for o'
      by (rule write_escaped_from_eq) (auto simp: field)
    then show ?thesis
      using True
      unfolding write_unquoted_escaped_field_def unquoted_text_def first
      by (simp add: append_simps field)
  next
    case False
    have "write_escaped_from d e field 0 0 o' = (o' @ escaped_text d e (drop 0 field), Ok ())" for o'
      by (rule write_escaped_from_eq) auto
    then show ?thesis
      using False unfolding write_unquoted_escaped_field_def unquoted_text_def first by auto
  qed
qed

text \<open>The quoted spelling of a field, for the escapes that quote.\<close>

fun quoted_text :: "dialect \<Rightarrow> bytes \<Rightarrow> bytes" where
  "quoted_text d field =
     [quote d] @ (case escape d of Backslash e \<Rightarrow> backslashed (quote d) e field
                  | _ \<Rightarrow> doubled (quote d) field) @ [quote d]"

lemma write_quoted_quotes:
  "\<not> escapes_unquoted (escape d) \<Longrightarrow> write_quoted d field out = (out @ quoted_text d field, Ok ())"
  by (cases "escape d")
    (auto simp: write_quoted_def append_simps dbl.then_append bsl.then_append escapes_unquoted_def)

definition delimiter_text :: "dialect \<Rightarrow> bytes" where
  "delimiter_text d = delimiter d # tail_slice (delimiter_tail d)"

definition ending_text :: "dialect \<Rightarrow> bytes" where
  "ending_text d = (if record_ending d = CrLf then [CR] else []) @
     ending_byte (record_ending d) # tail_slice (ending_tail d)"

interpretation delim: appender "\<lambda>_ :: unit. write_delimiter d" "\<lambda>_. delimiter_text d" for d
  by unfold_locales (auto simp: write_delimiter_def delimiter_text_def append_simps)

interpretation fin: appender "\<lambda>_ :: unit. finish_record d" "\<lambda>_. ending_text d" for d
  by unfold_locales (auto simp: finish_record_def ending_text_def append_simps)

interpretation nullw: appender write_null "\<lambda>n. if n = NullsMysql then [BACKSLASH, LETTER_N] else []"
  by unfold_locales (auto simp: write_null_def append_simps)

lemmas frame_simps = delim.append delim.then_append fin.append fin.then_append
  nullw.append nullw.then_append escw.append escw.then_append escw.rollback_append

section \<open>The text of a field and of a record\<close>

text \<open>
  The specification the emitters meet: the spelling of one field, or nothing when the policy
  refuses it, and the spelling of a record.
\<close>

definition plain_spec :: "dialect \<Rightarrow> quoting \<Rightarrow> bytes \<Rightarrow> bool \<Rightarrow> bytes option" where
  "plain_spec d q field is_first =
     (case q of
        Necessary \<Rightarrow> Some (if must_quote d field is_first then quoted_text d field else field)
      | NonNumeric \<Rightarrow> Some (if must_quote d field is_first \<or> \<not> is_numeric field
                          then quoted_text d field else field)
      | Always \<Rightarrow> Some (quoted_text d field)
      | Never \<Rightarrow> if must_quote d field is_first then None else Some field
      | Raw \<Rightarrow> Some field)"

definition configured_spec :: "dialect \<Rightarrow> quoting \<Rightarrow> nulls \<Rightarrow> bytes \<Rightarrow> bool \<Rightarrow> bytes option" where
  "configured_spec d q n field is_first =
     (case unquoted_byte (escape d) of
        Some e \<Rightarrow> Some (if n = NullsMysql \<and> field = [BACKSLASH, LETTER_N] then [e, BACKSLASH, LETTER_N]
                      else unquoted_text d e field is_first)
      | None \<Rightarrow>
          if n = PostgresCsv \<and> field = [] then Some (quoted_text d field)
          else if n = NullsMysql \<and> field = [BACKSLASH, LETTER_N]
          then (if q \<in> {Never, Raw} then None else Some (quoted_text d field))
          else plain_spec d q field is_first)"

definition null_spec :: "dialect \<Rightarrow> quoting \<Rightarrow> nulls \<Rightarrow> bytes" where
  "null_spec d q n =
     (if n = NullsNone then (if q \<in> {NonNumeric, Always} then quoted_text d [] else [])
      else if n = NullsMysql then [BACKSLASH, LETTER_N] else [])"

definition field_spec :: "dialect \<Rightarrow> quoting \<Rightarrow> nulls \<Rightarrow> bytes option \<Rightarrow> bool \<Rightarrow> bytes option" where
  "field_spec d q n f is_first =
     (case f of None \<Rightarrow> Some (null_spec d q n) | Some field \<Rightarrow> configured_spec d q n field is_first)"

fun pieces :: "dialect \<Rightarrow> quoting \<Rightarrow> nulls \<Rightarrow> bool \<Rightarrow> bytes option list \<Rightarrow> bytes list option" where
  "pieces d q n is_first [] = Some []"
| "pieces d q n is_first (f # fs) =
     (case field_spec d q n f is_first of None \<Rightarrow> None
      | Some t \<Rightarrow> map_option (Cons t) (pieces d q n False fs))"

fun join_text :: "dialect \<Rightarrow> bytes list \<Rightarrow> bytes" where
  "join_text d [] = []"
| "join_text d (t # ts) = t @ concat (map (\<lambda>u. delimiter_text d @ u) ts)"

text \<open>A record of one empty field is spelled with a pair of quotes under \<open>Quoting::Necessary\<close>.\<close>

definition lone_empty :: "nulls \<Rightarrow> bytes option list \<Rightarrow> bool" where
  "lone_empty n fs \<longleftrightarrow> fs = [Some []] \<or> n = NullsNone \<and> fs = [None]"

definition record_spec :: "dialect \<Rightarrow> quoting \<Rightarrow> nulls \<Rightarrow> bytes option list \<Rightarrow> bytes option" where
  "record_spec d q n fs =
     map_option (\<lambda>ts.
       (if lone_empty n fs \<and> q = Necessary \<and> join_text d ts = [] then [quote d, quote d]
        else join_text d ts) @ ending_text d) (pieces d q n True fs)"

text \<open>What the validity check of a format gives the emitters: escapes that never quote are never asked to.\<close>

definition emit_safe :: "dialect \<Rightarrow> quoting \<Rightarrow> bool" where
  "emit_safe d q \<longleftrightarrow> (escapes_unquoted (escape d) \<longrightarrow> q = Never)"

lemma format_invalidity_emit_safe:
  "format_invalidity f = None \<Longrightarrow> emit_safe (fo_dialect f) (fo_quoting f)"
  by (auto simp: format_invalidity_def emit_safe_def split: option.splits if_splits)

lemma write_configured_field_spec:
  "\<exists>e. write_configured_field d q n field is_first out =
     (case configured_spec d q n field is_first of Some t \<Rightarrow> (out @ t, Ok ()) | None \<Rightarrow> (out, Err e))"
proof (cases "unquoted_byte (escape d)")
  case None
  then have "\<not> escapes_unquoted (escape d)" by (simp add: escapes_unquoted_def)
  note wq = write_quoted_quotes [OF this]
  show ?thesis
    using None
    by (auto simp: write_configured_field_def configured_spec_def plain_spec_def wq fail_sink_def
        write_necessary_def write_non_numeric_def write_unquoted_def needs_quotes_iff append_simps
        split: quoting.splits)
next
  case (Some e)
  then show ?thesis
    by (auto simp: write_configured_field_def configured_spec_def append_simps frame_simps)
qed

lemma write_null_spec:
  assumes "emit_safe d q"
  shows "(if n = NullsNone then write_non_null_empty d q else write_null n) out =
    (out @ null_spec d q n, Ok ())"
proof (cases "q \<in> {NonNumeric, Always}")
  case True
  then have "\<not> escapes_unquoted (escape d)" using assms by (auto simp: emit_safe_def)
  then show ?thesis using True
    by (auto simp: null_spec_def write_non_null_empty_def write_quoted_quotes frame_simps)
next
  case False
  then show ?thesis
    by (cases q) (auto simp: null_spec_def write_non_null_empty_def append_simps frame_simps)
qed

text \<open>The loop over the fields: the pieces, each after its separator, or an error after a rollback.\<close>

definition only_empty_after :: "nulls \<Rightarrow> bool \<Rightarrow> bytes option list \<Rightarrow> bool" where
  "only_empty_after n oe fs =
     foldl (\<lambda>o' f. case f of None \<Rightarrow> n = NullsNone \<or> o' | Some field \<Rightarrow> field = []) oe fs"

lemma write_nullable_spec:
  assumes safe: "emit_safe d q"
  shows "\<exists>e. start \<le> length out \<longrightarrow> write_nullable d q n start count oe fs out =
    (case pieces d q n (count = 0) fs of
       Some ts \<Rightarrow>
         (out @ (if count = 0 then join_text d ts else concat (map (\<lambda>u. delimiter_text d @ u) ts)),
          Ok (count + length fs, only_empty_after n oe fs))
     | None \<Rightarrow> (take start out, Err e))"
proof (induction fs arbitrary: count oe out)
  case Nil
  show ?case by (simp add: return_sink_def only_empty_after_def)
next
  case (Cons f fs)
  let ?out = "out @ (if count = 0 then [] else delimiter_text d)"
  have sep: "then_sink (if count \<noteq> 0 then write_delimiter d else return_sink ()) m out = m ?out"
    for m :: "(nat \<times> bool) sink"
    by (simp add: append_simps frame_simps)
  show ?case
  proof (cases f)
    case None
    let ?o = "?out @ null_spec d q n" and ?oe = "n = NullsNone \<or> oe"
    have "(if n = NullsNone then write_non_null_empty d q else write_null n) ?out = (?o, Ok ())"
      by (rule write_null_spec [OF safe])
    then have "then_sink (if n = NullsNone then write_non_null_empty d q else write_null n) m ?out = m ?o"
      for m :: "(nat \<times> bool) sink"
      by (rule then_sink_Ok)
    then have step: "write_nullable d q n start count oe (f # fs) out =
        write_nullable d q n start (count + 1) ?oe fs ?o"
      using None by (cases "n = NullsNone") (simp_all only: write_nullable.simps sep option.case
          if_True if_False simp_thms)
    obtain e where "start \<le> length ?o \<longrightarrow> write_nullable d q n start (count + 1) ?oe fs ?o = (case pieces d q n False fs of
        Some ts \<Rightarrow> (?o @ concat (map (\<lambda>u. delimiter_text d @ u) ts),
          Ok (count + 1 + length fs, only_empty_after n ?oe fs))
      | None \<Rightarrow> (take start ?o, Err e))"
      using Cons.IH [of ?o "count + 1" ?oe] by (auto cong: option.case_cong)
    then show ?thesis
      unfolding step
      by (intro exI [of _ e])
        (auto simp: None field_spec_def only_empty_after_def disj_commute split: option.splits)
  next
    case (Some field)
    let ?first = "count + 1 = (1 :: nat)"
    obtain e1 where w: "write_configured_field d q n field ?first ?out =
        (case configured_spec d q n field ?first of Some t \<Rightarrow> (?out @ t, Ok ()) | None \<Rightarrow> (?out, Err e1))"
      using write_configured_field_spec by blast
    show ?thesis
    proof (cases "configured_spec d q n field ?first")
      case None
      have "write_nullable d q n start count oe (f # fs) out = (take start ?out, Err e1)"
        unfolding Some write_nullable.simps sep option.case
        using w None by (simp add: then_sink_cases rollback_to_def)
      then show ?thesis
        using None Some by (intro exI [of _ e1]) (simp add: field_spec_def)
    next
      case (Some t)
      let ?o = "?out @ t"
      have step: "write_nullable d q n start count oe (f # fs) out =
          write_nullable d q n start (count + 1) (field = []) fs ?o"
        unfolding \<open>f = _\<close> write_nullable.simps sep option.case
        using w Some by (simp add: then_sink_cases rollback_to_def)
      obtain e where "start \<le> length ?o \<longrightarrow> write_nullable d q n start (count + 1) (field = []) fs ?o = (case pieces d q n False fs of
          Some ts \<Rightarrow> (?o @ concat (map (\<lambda>u. delimiter_text d @ u) ts),
            Ok (count + 1 + length fs, only_empty_after n (field = []) fs))
        | None \<Rightarrow> (take start ?o, Err e))"
        using Cons.IH [of ?o "count + 1" "field = []"] by (auto cong: option.case_cong)
      then show ?thesis
        unfolding step using Some
        by (intro exI [of _ e])
          (auto simp: \<open>f = _\<close> field_spec_def only_empty_after_def split: option.splits)
    qed
  qed
qed

lemma only_empty_after_lone:
  "length fs = 1 \<Longrightarrow> only_empty_after n False fs \<longleftrightarrow> lone_empty n fs"
  by (cases fs) (auto simp: only_empty_after_def lone_empty_def split: option.splits)

text \<open>\<open>emit_nullable_record_runtime\<close> meets the specification, and leaves the output alone when it fails.\<close>

lemma emit_nullable_spec:
  assumes "emit_safe d q"
  shows "\<exists>e. emit_nullable_record_runtime d q n fs out =
    (case record_spec d q n fs of Some t \<Rightarrow> (out @ t, Ok (length fs)) | None \<Rightarrow> (out, Err e))"
proof -
  obtain e where "length out \<le> length out \<longrightarrow> write_nullable d q n (length out) 0 False fs out =
    (case pieces d q n (0 = (0 :: nat)) fs of
       Some ts \<Rightarrow> (out @ (if 0 = (0 :: nat) then join_text d ts else concat (map (\<lambda>u. delimiter_text d @ u) ts)),
         Ok (0 + length fs, only_empty_after n False fs))
     | None \<Rightarrow> (take (length out) out, Err e))"
    using write_nullable_spec [OF assms, of "length out" out n 0 False fs] by blast
  then have w: "write_nullable d q n (length out) 0 False fs out =
    (case pieces d q n True fs of
       Some ts \<Rightarrow> (out @ join_text d ts, Ok (length fs, only_empty_after n False fs))
     | None \<Rightarrow> (out, Err e))"
    by (cases "pieces d q n True fs") simp_all
  show ?thesis
  proof (cases "pieces d q n True fs")
    case None
    then show ?thesis
      using w by (simp add: emit_nullable_record_runtime_def bind_sink_def record_spec_def)
  next
    case (Some ts)
    have lone: "length fs = 1 \<and> only_empty_after n False fs \<longleftrightarrow> lone_empty n fs"
      using only_empty_after_lone [of fs n] by (auto simp: lone_empty_def)
    have "then_sink (\<lambda>o'. if length fs = 1 \<and> only_empty_after n False fs \<and>
          length o' = length out \<and> q = Necessary
        then extend [quote d, quote d] o' else return_sink () o') m (out @ join_text d ts) =
      m (out @ (if lone_empty n fs \<and> q = Necessary \<and> join_text d ts = [] then [quote d, quote d]
        else join_text d ts))" for m :: "nat sink"
      unfolding conj_assoc [symmetric] lone
      by (auto simp: then_sink_cases extend_def return_sink_def)
    then show ?thesis
      using w Some
      by (simp add: emit_nullable_record_runtime_def bind_sink_def record_spec_def frame_simps
          append_simps return_sink_def)
  qed
qed

section \<open>The two record emitters agree\<close>

text \<open>A field writer appends the spelling its specification gives, or refuses and appends nothing.\<close>

locale field_writer =
  fixes wr :: "bytes \<Rightarrow> unit sink" and spec :: "bytes \<Rightarrow> bytes option"
  assumes writes: "\<exists>e. wr f out = (case spec f of Some t \<Rightarrow> (out @ t, Ok ()) | None \<Rightarrow> (out, Err e))"
begin

fun rest_spec :: "bytes list \<Rightarrow> bytes list option" where
  "rest_spec [] = Some []"
| "rest_spec (f # fs) = (case spec f of None \<Rightarrow> None | Some t \<Rightarrow> map_option (Cons t) (rest_spec fs))"

lemma rest_writes:
  assumes sep: "\<And>out. separator out = (out @ s, Ok ())"
  shows "\<exists>x e. write_rest separator wr fs out =
    (case rest_spec fs of Some ts \<Rightarrow> (out @ concat (map (\<lambda>t. s @ t) ts), Ok ())
     | None \<Rightarrow> (out @ x, Err e))"
proof (induction fs arbitrary: out)
  case (Cons f fs)
  have sep': "then_sink separator m out = m (out @ s)" for m :: "unit sink"
    by (simp add: then_sink_cases sep)
  obtain e1 where w: "wr f (out @ s) =
      (case spec f of Some t \<Rightarrow> ((out @ s) @ t, Ok ()) | None \<Rightarrow> (out @ s, Err e1))"
    using writes by blast
  show ?case
  proof (cases "spec f")
    case None
    then show ?thesis
      using w by (intro exI [of _ s] exI [of _ e1]) (simp add: sep' then_sink_cases [of "wr f"])
  next
    case (Some t)
    obtain x e where "write_rest separator wr fs (out @ s @ t) =
      (case rest_spec fs of Some ts \<Rightarrow> ((out @ s @ t) @ concat (map (\<lambda>t. s @ t) ts), Ok ())
       | None \<Rightarrow> ((out @ s @ t) @ x, Err e))"
      using Cons.IH by blast
    then show ?thesis
      using w Some
      by (intro exI [of _ "s @ t @ x"] exI [of _ e])
        (simp add: sep' then_sink_cases [of "wr f"] split: option.splits)
  qed
qed (simp add: return_sink_def)

text \<open>A first field, the rest, an adjustment of the joined text and the end of the record.\<close>

lemma first_rest_writes:
  assumes sep: "\<And>out. separator out = (out @ s, Ok ())"
    and first: "first out = (case a of Some t \<Rightarrow> (out @ t, Ok ()) | None \<Rightarrow> (out, Err e0))"
  shows "\<exists>x e. then_sink first (write_rest separator wr fs) out =
    (case a of None \<Rightarrow> (out @ x, Err e)
     | Some t \<Rightarrow> (case rest_spec fs of None \<Rightarrow> (out @ x, Err e)
       | Some ts \<Rightarrow> (out @ t @ concat (map (\<lambda>t. s @ t) ts), Ok ())))"
proof (cases a)
  case None
  then show ?thesis using first by (intro exI [of _ "[]"] exI [of _ e0]) (simp add: then_sink_cases)
next
  case (Some t)
  obtain x e where "write_rest separator wr fs (out @ t) =
    (case rest_spec fs of Some ts \<Rightarrow> ((out @ t) @ concat (map (\<lambda>t. s @ t) ts), Ok ())
     | None \<Rightarrow> ((out @ t) @ x, Err e))"
    using rest_writes [OF sep] by blast
  then show ?thesis
    using first Some
    by (intro exI [of _ "t @ x"] exI [of _ e]) (simp add: then_sink_cases split: option.splits)
qed

end

interpretation confw: field_writer "\<lambda>f. write_configured_field d q n f False"
  "\<lambda>f. configured_spec d q n f False" for d q n
  by unfold_locales (rule write_configured_field_spec)

lemma confw_pieces: "confw.rest_spec d q n fs = pieces d q n False (map Some fs)"
  by (induction fs) (simp_all add: field_spec_def cong: option.case_cong)

text \<open>Without NULLs and with an escape that quotes, the configured writer is the plain one.\<close>

lemma write_csv_necessary_eq:
  "write_csv_necessary f is_first = write_necessary DIALECT_CSV f is_first"
  by (rule ext)
    (simp add: write_csv_necessary_def write_necessary_def needs_csv_quotes_iff needs_quotes_iff
      write_csv_doubled_eq write_quoted_def, simp add: DIALECT_CSV_def)

lemma write_record_field_configured:
  "\<not> escapes_unquoted (escape d) \<Longrightarrow>
     write_record_field d q f is_first = write_configured_field d q NullsNone f is_first"
  by (cases q)
    (simp_all add: write_record_field_def write_configured_field_def escapes_unquoted_def
      write_csv_necessary_eq)

lemma write_record_field_simps:
  "write_record_field d NonNumeric = write_non_numeric d"
  "write_record_field d Always = (\<lambda>f _. write_quoted d f)"
  "write_record_field d Never = write_unquoted d"
  "write_record_field d Raw = (\<lambda>f _. extend f)"
  by (intro ext; simp add: write_record_field_def)+

lemma csv_frame: "write_delimiter DIALECT_CSV = push_byte COMMA"
  by (intro ext) (simp add: write_delimiter_def DIALECT_CSV_def append_simps push_byte_def)

text \<open>The five arms of \<open>emit_record_runtime\<close> as one shape.\<close>

definition record_body :: "dialect \<Rightarrow> quoting \<Rightarrow> bytes \<Rightarrow> bytes list \<Rightarrow> unit sink" where
  "record_body d q first rest =
     then_sink (write_record_field d q first True)
       (write_rest (write_delimiter d) (\<lambda>f. write_record_field d q f False) rest)"

lemma then_sink_assoc: "then_sink (then_sink m n) k = then_sink m (then_sink n k)"
  by (rule ext) (simp add: then_sink_cases split: prod.splits outcome.splits)

lemma then_sink_skip: "then_sink (\<lambda>out. (out, Ok ())) m = m"
  by (rule ext) (simp add: then_sink_cases)

lemma emit_record_runtime_Cons:
  "emit_record_runtime d q (first # rest) out =
     then_sink (if q = Never then rollback_to (length out) (record_body d q first rest)
                else record_body d q first rest)
       (then_sink (\<lambda>o'. if q = Necessary \<and> length o' = length out then extend [quote d, quote d] o'
                        else return_sink () o')
         (then_sink (finish_record d) (return_sink (length (first # rest))))) out"
proof (cases q)
  case Necessary
  have "record_body d Necessary first rest =
      (if d = DIALECT_CSV
       then then_sink (write_csv_necessary first True)
              (write_rest (push_byte COMMA) (\<lambda>f. write_csv_necessary f False) rest)
       else then_sink (write_necessary d first True)
              (write_rest (write_delimiter d) (\<lambda>f. write_necessary d f False) rest))"
    by (auto simp: record_body_def write_record_field_def csv_frame)
  then show ?thesis using Necessary by (simp add: emit_record_runtime_def Let_def)
qed (simp_all add: emit_record_runtime_def Let_def record_body_def write_record_field_simps
      then_sink_assoc append_simps then_sink_skip)

lemma record_body_spec:
  assumes "\<not> escapes_unquoted (escape d)"
  shows "\<exists>x e. record_body d q first rest out =
    (case pieces d q NullsNone True (map Some (first # rest)) of
       Some ts \<Rightarrow> (out @ join_text d ts, Ok ()) | None \<Rightarrow> (out @ x, Err e)) \<and> (q \<noteq> Never \<longrightarrow>
       pieces d q NullsNone True (map Some (first # rest)) \<noteq> None)"
proof -
  have body: "record_body d q first rest =
      then_sink (write_configured_field d q NullsNone first True)
        (write_rest (write_delimiter d) (\<lambda>f. write_configured_field d q NullsNone f False) rest)"
    by (simp add: record_body_def write_record_field_configured [OF assms])
  obtain e0 where "write_configured_field d q NullsNone first True out =
      (case configured_spec d q NullsNone first True of Some t \<Rightarrow> (out @ t, Ok ()) | None \<Rightarrow> (out, Err e0))"
    using write_configured_field_spec by blast
  then obtain x e where "record_body d q first rest out =
      (case configured_spec d q NullsNone first True of None \<Rightarrow> (out @ x, Err e)
       | Some t \<Rightarrow> (case confw.rest_spec d q NullsNone rest of None \<Rightarrow> (out @ x, Err e)
         | Some ts \<Rightarrow> (out @ t @ concat (map (\<lambda>t. delimiter_text d @ t) ts), Ok ())))"
    using confw.first_rest_writes [OF delim.append] unfolding body by blast
  moreover have "configured_spec d q NullsNone f b \<noteq> None" if "q \<noteq> Never" for f b
    using assms that by (cases q) (simp_all add: configured_spec_def plain_spec_def escapes_unquoted_def)
  moreover from this have "pieces d q NullsNone False (map Some fs) \<noteq> None" if "q \<noteq> Never" for fs
    using that by (induction fs) (auto simp: field_spec_def split: option.splits)
  ultimately show ?thesis
    by (intro exI [of _ x] exI [of _ e])
      (fastforce simp: field_spec_def confw_pieces split: option.splits)
qed

lemma join_text_empty: "join_text d ts = [] \<longleftrightarrow> ts = [] \<or> ts = [[]]"
  by (cases ts) (auto simp: delimiter_text_def)

lemma pieces_Nil: "pieces d q n b fs = Some [] \<longleftrightarrow> fs = []"
  by (cases fs) (auto split: option.splits)

lemma emit_record_spec:
  assumes "\<not> escapes_unquoted (escape d)"
  shows "\<exists>e. emit_record_runtime d q fs out =
    (case record_spec d q NullsNone (map Some fs) of Some t \<Rightarrow> (out @ t, Ok (length fs))
     | None \<Rightarrow> (out, Err e))"
proof (cases fs)
  case Nil
  then show ?thesis
    by (simp add: emit_record_runtime_def record_spec_def lone_empty_def frame_simps return_sink_def)
next
  case (Cons first rest)
  obtain x e where body: "record_body d q first rest out =
    (case pieces d q NullsNone True (map Some fs) of
       Some ts \<Rightarrow> (out @ join_text d ts, Ok ()) | None \<Rightarrow> (out @ x, Err e))"
    and total: "q \<noteq> Never \<longrightarrow> pieces d q NullsNone True (map Some fs) \<noteq> None"
    using record_body_spec [OF assms, of q first rest out] Cons by blast
  show ?thesis
  proof (cases "pieces d q NullsNone True (map Some fs)")
    case None
    then have "rollback_to (length out) (record_body d q first rest) out = (out, Err e)" "q = Never"
      using body total by (auto simp: rollback_to_def)
    then show ?thesis
      using None unfolding Cons emit_record_runtime_Cons
      by (auto simp: then_sink_cases record_spec_def Cons)
  next
    case (Some ts)
    have step: "then_sink (if q = Never then rollback_to (length out) (record_body d q first rest)
        else record_body d q first rest) m out = m (out @ join_text d ts)" for m :: "nat sink"
      using body Some by (cases "q = Never") (simp_all add: rollback_to_def then_sink_cases)
    have "lone_empty NullsNone (map Some fs)" if "q = Necessary" "join_text d ts = []"
      using that Some assms join_text_empty [of d ts] unfolding Cons
      by (auto simp: field_spec_def configured_spec_def escapes_unquoted_def plain_spec_def
          lone_empty_def pieces_Nil split: option.splits if_splits)
    then have "then_sink (\<lambda>o'. if q = Necessary \<and> length o' = length out
        then extend [quote d, quote d] o' else return_sink () o') m (out @ join_text d ts) =
      m (out @ (if lone_empty NullsNone (map Some fs) \<and> q = Necessary \<and> join_text d ts = []
        then [quote d, quote d] else join_text d ts))" for m :: "nat sink"
      by (auto simp: then_sink_cases extend_def return_sink_def)
    then show ?thesis
      using Some unfolding Cons emit_record_runtime_Cons step
      by (simp add: record_spec_def frame_simps return_sink_def Cons)
  qed
qed

section \<open>The numeric scan agrees with the float parser\<close>

text \<open>\<open>number_ok\<close> with a digit possibly seen before, the invariant of the scan before a dot.\<close>

definition number_shape :: "bool \<Rightarrow> bytes \<Rightarrow> bool" where
  "number_shape seen bs \<longleftrightarrow>
     (case dropWhile is_digit bs of
        b # t \<Rightarrow>
          (if b = 46 then (seen \<or> takeWhile is_digit bs \<noteq> [] \<or> takeWhile is_digit t \<noteq> []) \<and>
             exponent_ok (dropWhile is_digit t)
           else (seen \<or> takeWhile is_digit bs \<noteq> []) \<and> exponent_ok (b # t))
      | [] \<Rightarrow> seen \<or> takeWhile is_digit bs \<noteq> [])"

lemma number_ok_shape: "number_ok bs \<longleftrightarrow> number_shape False bs"
  by (cases "dropWhile is_digit bs") (simp_all add: number_ok_def number_shape_def del: dropWhile_eq_Nil_conv)

lemma number_shape_digit: "is_digit b \<Longrightarrow> number_shape seen (b # bs) = number_shape True bs"
  by (cases "dropWhile is_digit bs") (simp_all add: number_shape_def del: dropWhile_eq_Nil_conv)

lemma digit_range: "(48 \<le> b \<and> b \<le> 57) = is_digit b"
  by (simp add: is_digit_def)

lemma digit_not_dot: "is_digit b \<Longrightarrow> b \<noteq> 46"
  by (auto simp: is_digit_def)

lemma exponent_ok_head: "exponent_ok (b # bs) \<Longrightarrow> b = 101 \<or> b = 69"
  by (simp add: exponent_ok_def)

lemma scan_after_dot:
  "scan_digits seen True bs = Numeric \<Longrightarrow>
     (seen \<or> takeWhile is_digit bs \<noteq> []) \<and> exponent_ok (dropWhile is_digit bs)"
  "scan_digits seen True bs = NotNumeric \<Longrightarrow>
     \<not> ((seen \<or> takeWhile is_digit bs \<noteq> []) \<and> exponent_ok (dropWhile is_digit bs))"
  by (induction bs arbitrary: seen)
    (auto simp: digit_range exponent_ok_def [of "[]"] dest: exponent_ok_head split: if_splits)

lemma scan_before_dot:
  "scan_digits seen False bs = Numeric \<Longrightarrow> number_shape seen bs"
  "scan_digits seen False bs = NotNumeric \<Longrightarrow> \<not> number_shape seen bs"
proof (induction bs arbitrary: seen)
  case (Cons b bs)
  { case 1
    show ?case
    proof (cases "is_digit b")
      case True
      then show ?thesis using 1 Cons.IH(1) [of True] by (simp add: digit_range number_shape_digit)
    next
      case False
      then show ?thesis using 1 scan_after_dot(1) [of seen bs]
        by (auto simp: digit_range number_shape_def split: if_splits)
    qed }
  { case 2
    show ?case
    proof (cases "is_digit b")
      case True
      then show ?thesis using 2 Cons.IH(2) [of True] by (simp add: digit_range number_shape_digit)
    next
      case False
      then show ?thesis using 2 scan_after_dot(2) [of seen bs]
        by (auto simp: digit_range number_shape_def dest: exponent_ok_head split: if_splits)
    qed }
qed (auto simp: number_shape_def split: if_splits)

text \<open>The words of the float grammar start with a letter the scan defers.\<close>

lemma ascii_lower_eq: "ascii_lower b = c \<Longrightarrow> b = c \<or> b = c - 32"
  by (auto simp: ascii_lower_def)

lemma scan_defers_words:
  assumes "map ascii_lower bs = [105, 110, 102] \<or>
    map ascii_lower bs = [105, 110, 102, 105, 110, 105, 116, 121] \<or> map ascii_lower bs = [110, 97, 110]"
  shows "scan_digits False False bs = Fallback"
proof -
  obtain b rest where "bs = b # rest" "ascii_lower b = 105 \<or> ascii_lower b = 110"
    using assms by (cases bs) auto
  then show ?thesis by (auto dest!: ascii_lower_eq)
qed

lemma scan_numeric_body: "scan_numeric field = scan_digits False False (strip_sign field)"
  by (cases field) (simp_all add: scan_numeric_def strip_sign_def)

lemma is_numeric_eq: "is_numeric field \<longleftrightarrow> parses_f64 field"
proof (cases "scan_numeric field")
  case Numeric
  then show ?thesis
    using scan_before_dot(1) by (simp add: is_numeric_def scan_numeric_body parses_f64_def
        number_ok_shape Let_def)
next
  case NotNumeric
  then have "\<not> number_ok (strip_sign field)"
    using scan_before_dot(2) by (simp add: scan_numeric_body number_ok_shape)
  then show ?thesis
    using NotNumeric scan_defers_words [of "strip_sign field"]
    by (auto simp: is_numeric_def scan_numeric_body parses_f64_def Let_def)
qed (simp add: is_numeric_def)

end
