(* ===== verification/Emitter.thy ===== *)
theory Emitter
  imports Emit
begin

text \<open>
  The record emitters built on the field writers: the push-driven \<open>DirectEncodeVisitor\<close>
  (\<open>emit.rs\<close>) and \<open>PushEmitter\<close> (\<open>push_emitter.rs\<close>) with its commit and rollback. The Serde
  state, the builder's scratch record and the reserved capacities are not part of the state.
\<close>

section \<open>The direct visitor\<close>

text \<open>A static format is a parameter \<open>opts\<close>, as \<open>F::OPTIONS\<close> is; \<open>None\<close> is \<open>Dynamic\<close>.\<close>

definition fmt_dialect :: "format_options option \<Rightarrow> dialect \<Rightarrow> dialect" where
  "fmt_dialect opts d = (case opts of Some o' \<Rightarrow> fo_dialect o' | None \<Rightarrow> d)"

definition fmt_quoting :: "format_options option \<Rightarrow> quoting \<Rightarrow> quoting" where
  "fmt_quoting opts q = (case opts of Some o' \<Rightarrow> fo_quoting o' | None \<Rightarrow> q)"

definition fmt_nulls :: "format_options option \<Rightarrow> nulls \<Rightarrow> nulls" where
  "fmt_nulls opts n = (case opts of Some o' \<Rightarrow> fo_nulls o' | None \<Rightarrow> n)"

record encode_visitor =
  ev_output :: bytes
  ev_dialect :: dialect
  ev_quoting :: quoting
  ev_nulls :: nulls
  ev_record_start :: nat
  ev_field_count :: nat
  ev_only_empty :: bool

definition visitor_new ::
    "format_options option \<Rightarrow> bytes \<Rightarrow> dialect \<Rightarrow> quoting \<Rightarrow> nulls \<Rightarrow> encode_visitor" where
  "visitor_new opts output d q n =
     \<lparr>ev_output = output, ev_dialect = fmt_dialect opts d, ev_quoting = fmt_quoting opts q,
      ev_nulls = fmt_nulls opts n, ev_record_start = length output, ev_field_count = 0,
      ev_only_empty = False\<rparr>"

text \<open>Run a writer on the visitor's output.\<close>

definition visitor_write :: "encode_visitor \<Rightarrow> unit sink \<Rightarrow> encode_visitor \<times> unit outcome" where
  "visitor_write v m = (case m (ev_output v) of (out, r) \<Rightarrow> (v\<lparr>ev_output := out\<rparr>, r))"

definition csv_fast_format :: "format_options option \<Rightarrow> bool" where
  "csv_fast_format opts \<longleftrightarrow>
     (case opts of None \<Rightarrow> False
      | Some o' \<Rightarrow> fo_dialect o' = DIALECT_CSV \<and> fo_quoting o' = Necessary \<and> fo_nulls o' = NullsNone)"

definition visitor_write_field ::
    "format_options option \<Rightarrow> encode_visitor \<Rightarrow> bytes \<Rightarrow> encode_visitor \<times> unit outcome" where
  "visitor_write_field opts v field =
     (let separator = (if csv_fast_format opts then push_byte COMMA else write_delimiter (ev_dialect v));
          v1 = fst (visitor_write v (if ev_field_count v \<noteq> 0 then separator else return_sink ()));
          v2 = v1\<lparr>ev_field_count := ev_field_count v1 + 1\<rparr>;
          is_first = (ev_field_count v2 = 1);
          v3 = (if is_first then v2\<lparr>ev_only_empty := (field = [])\<rparr> else v2)
      in if csv_fast_format opts then visitor_write v3 (write_csv_necessary field is_first)
         else if ev_nulls v = NullsNone \<and> \<not> escapes_unquoted (escape (ev_dialect v))
         then visitor_write v3 (write_record_field (ev_dialect v) (ev_quoting v) field is_first)
         else visitor_write v3
                (write_configured_field (ev_dialect v) (ev_quoting v) (ev_nulls v) field is_first))"

definition visitor_write_null :: "encode_visitor \<Rightarrow> encode_visitor \<times> unit outcome" where
  "visitor_write_null v =
     (let v1 = fst (visitor_write v (if ev_field_count v \<noteq> 0 then write_delimiter (ev_dialect v)
                                     else return_sink ()));
          v2 = v1\<lparr>ev_field_count := ev_field_count v1 + 1\<rparr>
      in if ev_nulls v = NullsNone
         then visitor_write (v2\<lparr>ev_only_empty := True\<rparr>) (write_non_null_empty (ev_dialect v) (ev_quoting v))
         else visitor_write v2 (write_null (ev_nulls v)))"

definition visitor_fixup :: "encode_visitor \<Rightarrow> encode_visitor" where
  "visitor_fixup v =
     (if ev_field_count v = 1 \<and> ev_only_empty v \<and> ev_quoting v = Necessary \<and>
         length (ev_output v) = ev_record_start v
      then v\<lparr>ev_output := ev_output v @ [quote (ev_dialect v), quote (ev_dialect v)]\<rparr> else v)"

text \<open>\<open>finish\<close>: the fixup, the terminator, the count. The terminator always succeeds.\<close>

definition visitor_finish :: "encode_visitor \<Rightarrow> bytes \<times> nat" where
  "visitor_finish v =
     (let v' = visitor_fixup v
      in (fst (finish_record (ev_dialect v') (ev_output v')), ev_field_count v'))"

text \<open>
  The fields a value's \<open>csv_encode\<close> visits, in order, stopping at the first error, as the
  \<open>?\<close> of every generated implementation does.
\<close>

fun visit_all ::
    "format_options option \<Rightarrow> encode_visitor \<Rightarrow> bytes option list \<Rightarrow> encode_visitor \<times> unit outcome" where
  "visit_all opts v [] = (v, Ok ())"
| "visit_all opts v (f # fs) =
     (case (case f of Some field \<Rightarrow> visitor_write_field opts v field | None \<Rightarrow> visitor_write_null v) of
        (v', Ok _) \<Rightarrow> visit_all opts v' fs
      | (v', Err e) \<Rightarrow> (v', Err e)
      | (v', Panic) \<Rightarrow> (v', Panic))"

section \<open>The push emitter\<close>

record push_emitter =
  pe_buffer :: bytes
  pe_dialect :: dialect
  pe_quoting :: quoting
  pe_bom :: write_bom
  pe_nulls :: nulls
  pe_field_count :: field_count
  pe_expected :: "nat option"
  pe_started :: bool

definition emitter_from_config ::
    "bytes \<Rightarrow> dialect \<Rightarrow> quoting \<Rightarrow> write_bom \<Rightarrow> nulls \<Rightarrow> field_count \<Rightarrow> push_emitter" where
  "emitter_from_config buffer d q bom n policy =
     \<lparr>pe_buffer = buffer, pe_dialect = d, pe_quoting = q, pe_bom = bom, pe_nulls = n,
      pe_field_count = policy, pe_expected = None, pe_started = (buffer \<noteq> [])\<rparr>"

text \<open>\<open>PushEmitter::with_options\<close>: a validated format over an empty buffer.\<close>

definition emitter_with_options :: "format_options \<Rightarrow> field_count \<Rightarrow> push_emitter outcome" where
  "emitter_with_options f policy =
     bind_outcome (format_validate f) (\<lambda>_.
       Ok (emitter_from_config [] (fo_dialect f) (fo_quoting f) (fo_write_bom f) (fo_nulls f) policy))"

definition emitter_clear :: "push_emitter \<Rightarrow> push_emitter" where
  "emitter_clear p = p\<lparr>pe_buffer := []\<rparr>"

text \<open>The first committed record opens the document: the BOM is spliced in front of it.\<close>

definition emitter_commit :: "push_emitter \<Rightarrow> push_emitter" where
  "emitter_commit p =
     (if \<not> pe_started p then
        (let p' = p\<lparr>pe_started := True\<rparr>
         in if pe_bom p' = BomEmit then p'\<lparr>pe_buffer := BOM @ pe_buffer p'\<rparr> else p')
      else p)"

definition emitter_rollback :: "push_emitter \<Rightarrow> nat \<Rightarrow> push_emitter" where
  "emitter_rollback p start = p\<lparr>pe_buffer := take start (pe_buffer p)\<rparr>"

definition emitter_finish_record ::
    "push_emitter \<Rightarrow> nat \<Rightarrow> nat outcome \<Rightarrow> push_emitter \<times> unit outcome" where
  "emitter_finish_record p start encoded =
     (case encoded of
        Err e \<Rightarrow> (emitter_rollback p start, Err e)
      | Panic \<Rightarrow> (p, Panic)
      | Ok count \<Rightarrow>
          (case validate_field_count (pe_field_count p) (pe_expected p) count of (r, expected) \<Rightarrow>
             let p' = p\<lparr>pe_expected := expected\<rparr>
             in (case r of Err e \<Rightarrow> (emitter_rollback p' start, Err e)
                 | Panic \<Rightarrow> (p', Panic)
                 | Ok _ \<Rightarrow> (emitter_commit p', Ok ()))))"

definition emitter_run :: "push_emitter \<Rightarrow> nat sink \<Rightarrow> push_emitter \<times> unit outcome" where
  "emitter_run p m =
     (let start = length (pe_buffer p)
      in case m (pe_buffer p) of (buffer, r) \<Rightarrow> emitter_finish_record (p\<lparr>pe_buffer := buffer\<rparr>) start r)"

definition emitter_emit_record :: "push_emitter \<Rightarrow> bytes list \<Rightarrow> push_emitter \<times> unit outcome" where
  "emitter_emit_record p fs =
     emitter_run p
       (if pe_nulls p = NullsNone \<and> \<not> escapes_unquoted (escape (pe_dialect p))
        then emit_record_runtime (pe_dialect p) (pe_quoting p) fs
        else emit_nullable_record_runtime (pe_dialect p) (pe_quoting p) (pe_nulls p) (map Some fs))"

definition emitter_emit_nullable :: "push_emitter \<Rightarrow> bytes option list \<Rightarrow> push_emitter \<times> unit outcome" where
  "emitter_emit_nullable p fs =
     emitter_run p (emit_nullable_record_runtime (pe_dialect p) (pe_quoting p) (pe_nulls p) fs)"

text \<open>\<open>encode\<close>: the value's fields are visited straight into the buffer.\<close>

definition emitter_encode :: "push_emitter \<Rightarrow> bytes option list \<Rightarrow> push_emitter \<times> unit outcome" where
  "emitter_encode p fs =
     (let start = length (pe_buffer p);
          v = visitor_new None (pe_buffer p) (pe_dialect p) (pe_quoting p) (pe_nulls p)
      in case visit_all None v fs of
           (v', Ok _) \<Rightarrow> (case visitor_finish v' of (out, count) \<Rightarrow>
             emitter_finish_record (p\<lparr>pe_buffer := out\<rparr>) start (Ok count))
         | (v', Err e) \<Rightarrow> emitter_finish_record (p\<lparr>pe_buffer := ev_output v'\<rparr>) start (Err e)
         | (v', Panic) \<Rightarrow> (p\<lparr>pe_buffer := ev_output v'\<rparr>, Panic))"

section \<open>The visitor writes what the record emitter writes\<close>

text \<open>A visitor whose cached policies are those of its format.\<close>

definition visitor_wf :: "format_options option \<Rightarrow> encode_visitor \<Rightarrow> bool" where
  "visitor_wf opts v \<longleftrightarrow>
     (csv_fast_format opts \<longrightarrow>
        ev_dialect v = DIALECT_CSV \<and> ev_quoting v = Necessary \<and> ev_nulls v = NullsNone) \<and>
     ev_record_start v \<le> length (ev_output v)"

lemma csv_not_unquoted: "\<not> escapes_unquoted (escape DIALECT_CSV)"
  by (simp add: DIALECT_CSV_def escapes_unquoted_def)

lemma visitor_separator:
  assumes "visitor_wf opts v"
  shows "visitor_write v (if ev_field_count v \<noteq> 0
      then (if csv_fast_format opts then push_byte COMMA else write_delimiter (ev_dialect v))
      else return_sink ()) =
    (v\<lparr>ev_output := ev_output v @ (if ev_field_count v \<noteq> 0 then delimiter_text (ev_dialect v) else [])\<rparr>,
     Ok ())"
  using assms
  by (cases v) (auto simp: visitor_write_def visitor_wf_def frame_simps return_sink_def push_byte_def
      delimiter_text_def DIALECT_CSV_def)

text \<open>One field: the spelling of the specification, or an error that appends only the separator.\<close>

lemma visitor_write_field_spec:
  assumes wf: "visitor_wf opts v"
  shows "\<exists>e. visitor_write_field opts v field =
    (let sep = (if ev_field_count v \<noteq> 0 then delimiter_text (ev_dialect v) else []);
         v' = v\<lparr>ev_field_count := ev_field_count v + 1,
                ev_only_empty := (if ev_field_count v = 0 then field = [] else ev_only_empty v)\<rparr>
     in case configured_spec (ev_dialect v) (ev_quoting v) (ev_nulls v) field (ev_field_count v = 0) of
          Some t \<Rightarrow> (v'\<lparr>ev_output := ev_output v @ sep @ t\<rparr>, Ok ())
        | None \<Rightarrow> (v'\<lparr>ev_output := ev_output v @ sep\<rparr>, Err e))"
proof -
  let ?d = "ev_dialect v" and ?q = "ev_quoting v" and ?n = "ev_nulls v"
  let ?out = "ev_output v @ (if ev_field_count v \<noteq> 0 then delimiter_text ?d else [])"
  let ?first = "ev_field_count v = 0"
  define v3 where "v3 = v\<lparr>ev_output := ?out, ev_field_count := ev_field_count v + 1,
      ev_only_empty := (if ?first then field = [] else ev_only_empty v)\<rparr>"
  obtain e where w: "write_configured_field ?d ?q ?n field ?first ?out =
      (case configured_spec ?d ?q ?n field ?first of Some t \<Rightarrow> (?out @ t, Ok ()) | None \<Rightarrow> (?out, Err e))"
    using write_configured_field_spec by blast
  have csv: "write_csv_necessary field ?first = write_configured_field ?d ?q ?n field ?first"
    if "csv_fast_format opts"
    using that wf csv_not_unquoted
    by (simp add: visitor_wf_def write_csv_necessary_eq write_configured_field_def escapes_unquoted_def)
  have "visitor_write_field opts v field =
      visitor_write v3 (write_configured_field ?d ?q ?n field ?first)"
    unfolding visitor_write_field_def Let_def visitor_separator [OF wf] fst_conv
    using csv write_record_field_configured [of ?d ?q field ?first]
    by (auto simp: v3_def)
  also have "\<dots> = (case configured_spec ?d ?q ?n field ?first of
      Some t \<Rightarrow> (v3\<lparr>ev_output := ?out @ t\<rparr>, Ok ()) | None \<Rightarrow> (v3, Err e))"
    unfolding visitor_write_def using w by (auto simp: v3_def split: option.splits)
  finally show ?thesis
    by (intro exI [of _ e]) (auto simp: v3_def Let_def split: option.splits)
qed

lemma visitor_write_null_spec:
  assumes wf: "visitor_wf opts v" and safe: "emit_safe (ev_dialect v) (ev_quoting v)"
  shows "visitor_write_null v =
    (v\<lparr>ev_output := ev_output v @ (if ev_field_count v \<noteq> 0 then delimiter_text (ev_dialect v) else []) @
          null_spec (ev_dialect v) (ev_quoting v) (ev_nulls v),
       ev_field_count := ev_field_count v + 1,
       ev_only_empty := (ev_nulls v = NullsNone \<or> ev_only_empty v)\<rparr>, Ok ())"
  using write_null_spec [OF safe, of "ev_nulls v"]
  by (cases v) (auto simp: visitor_write_null_def Let_def visitor_write_def frame_simps
      append_simps return_sink_def split: if_splits)

text \<open>The text after the first \<open>count\<close> fields of a record.\<close>

definition rest_text :: "dialect \<Rightarrow> nat \<Rightarrow> bytes list \<Rightarrow> bytes" where
  "rest_text d count ts =
     (if count = 0 then join_text d ts else concat (map (\<lambda>u. delimiter_text d @ u) ts))"

lemma rest_text_Cons:
  "rest_text d count (t # ts) = (if count \<noteq> 0 then delimiter_text d else []) @ t @ rest_text d (count + 1) ts"
  by (simp add: rest_text_def)

lemma visit_all_spec:
  "visitor_wf opts v \<Longrightarrow> emit_safe (ev_dialect v) (ev_quoting v) \<Longrightarrow>
   (case pieces (ev_dialect v) (ev_quoting v) (ev_nulls v) (ev_field_count v = 0) fs of
      Some ts \<Rightarrow> \<exists>oe. visit_all opts v fs =
        (v\<lparr>ev_output := ev_output v @ rest_text (ev_dialect v) (ev_field_count v) ts,
           ev_field_count := ev_field_count v + length fs, ev_only_empty := oe\<rparr>, Ok ())
    | None \<Rightarrow> \<exists>v' x e. visit_all opts v fs = (v', Err e) \<and> ev_output v' = ev_output v @ x)"
proof (induction fs arbitrary: v)
  case Nil
  then show ?case by (cases v) (simp add: rest_text_def)
next
  case (Cons f fs)
  let ?d = "ev_dialect v" and ?q = "ev_quoting v" and ?n = "ev_nulls v" and ?c = "ev_field_count v"
  let ?sep = "if ?c \<noteq> 0 then delimiter_text ?d else []"
  show ?case
  proof (cases "field_spec ?d ?q ?n f (?c = 0)")
    case None
    then obtain field where f: "f = Some field" "configured_spec ?d ?q ?n field (?c = 0) = None"
      by (cases f) (auto simp: field_spec_def)
    then obtain e v' where "visitor_write_field opts v field = (v', Err e)"
        "ev_output v' = ev_output v @ ?sep"
      using visitor_write_field_spec [OF Cons.prems(1), of field] by (auto simp: Let_def)
    then show ?thesis using None f by (auto split: prod.splits)
  next
    case (Some t)
    obtain oe where step: "(case f of Some field \<Rightarrow> visitor_write_field opts v field
        | None \<Rightarrow> visitor_write_null v) =
        (v\<lparr>ev_output := ev_output v @ ?sep @ t, ev_field_count := ?c + 1, ev_only_empty := oe\<rparr>, Ok ())"
    proof (cases f)
      case None
      then show ?thesis
        using that Some visitor_write_null_spec [OF Cons.prems] by (auto simp: field_spec_def)
    next
      case (Some field)
      then show ?thesis
        using that \<open>field_spec ?d ?q ?n f (?c = 0) = Some t\<close>
          visitor_write_field_spec [OF Cons.prems(1), of field]
        by (cases v) (auto simp: field_spec_def Let_def)
    qed
    define v1 where "v1 = v\<lparr>ev_output := ev_output v @ ?sep @ t, ev_field_count := ?c + 1,
        ev_only_empty := oe\<rparr>"
    have v1: "visit_all opts v (f # fs) = visit_all opts v1 fs"
      by (simp only: visit_all.simps step v1_def prod.case outcome.case unit.case)
    have "visitor_wf opts v1" "emit_safe (ev_dialect v1) (ev_quoting v1)"
      using Cons.prems by (auto simp: v1_def visitor_wf_def)
    note IH = Cons.IH [OF this]
    show ?thesis
    proof (cases "pieces ?d ?q ?n False fs")
      case None
      then obtain v' x e where "visit_all opts v1 fs = (v', Err e)" "ev_output v' = ev_output v1 @ x"
        using IH by (auto simp: v1_def)
      then show ?thesis using None \<open>field_spec ?d ?q ?n f (?c = 0) = Some t\<close> v1
        by (auto simp: v1_def)
    next
      case ts: (Some ts)
      then obtain oe' where "visit_all opts v1 fs =
          (v1\<lparr>ev_output := ev_output v1 @ rest_text (ev_dialect v1) (ev_field_count v1) ts,
             ev_field_count := ev_field_count v1 + length fs, ev_only_empty := oe'\<rparr>, Ok ())"
        using IH by (auto simp: v1_def)
      then show ?thesis using ts \<open>field_spec ?d ?q ?n f (?c = 0) = Some t\<close> v1
        by (auto simp: v1_def rest_text_Cons)
    qed
  qed
qed

lemma visit_one_only_empty:
  assumes "visitor_wf opts v" "emit_safe (ev_dialect v) (ev_quoting v)" "ev_field_count v = 0"
    "\<not> ev_only_empty v" "visit_all opts v [f] = (v', Ok ())"
  shows "ev_only_empty v' \<longleftrightarrow> lone_empty (ev_nulls v) [f]"
proof (cases f)
  case None
  have "visitor_write_null v = (v', Ok ())"
    using assms(5) None by (cases "visitor_write_null v"; cases "snd (visitor_write_null v)") simp_all
  then have "ev_only_empty v' \<longleftrightarrow> ev_nulls v = NullsNone"
    unfolding visitor_write_null_spec [OF assms(1,2)] using assms(4) by auto
  then show ?thesis using None by (simp add: lone_empty_def)
next
  case (Some field)
  have step: "visitor_write_field opts v field = (v', Ok ())"
    using assms(5) Some
    by (cases "visitor_write_field opts v field"; cases "snd (visitor_write_field opts v field)") simp_all
  obtain e where "visitor_write_field opts v field =
    (let sep = (if ev_field_count v \<noteq> 0 then delimiter_text (ev_dialect v) else []);
         v' = v\<lparr>ev_field_count := ev_field_count v + 1,
                ev_only_empty := (if ev_field_count v = 0 then field = [] else ev_only_empty v)\<rparr>
     in case configured_spec (ev_dialect v) (ev_quoting v) (ev_nulls v) field (ev_field_count v = 0) of
          Some t \<Rightarrow> (v'\<lparr>ev_output := ev_output v @ sep @ t\<rparr>, Ok ())
        | None \<Rightarrow> (v'\<lparr>ev_output := ev_output v @ sep\<rparr>, Err e))"
    using visitor_write_field_spec [OF assms(1)] by blast
  then have "ev_only_empty v' \<longleftrightarrow> field = []"
    unfolding step using assms(3) by (simp add: Let_def split: option.splits)
  then show ?thesis using Some by (simp add: lone_empty_def)
qed

text \<open>The whole record: what the visitor leaves after \<open>finish\<close> is the specified record.\<close>

lemma visitor_record_spec:
  assumes wf: "visitor_wf opts v" and safe: "emit_safe (ev_dialect v) (ev_quoting v)"
    and fresh: "ev_field_count v = 0" "\<not> ev_only_empty v" "ev_record_start v = length (ev_output v)"
  shows "case record_spec (ev_dialect v) (ev_quoting v) (ev_nulls v) fs of
      Some t \<Rightarrow> \<exists>v'. visit_all opts v fs = (v', Ok ()) \<and> visitor_finish v' = (ev_output v @ t, length fs)
    | None \<Rightarrow> \<exists>v' x e. visit_all opts v fs = (v', Err e) \<and> ev_output v' = ev_output v @ x"
proof -
  let ?d = "ev_dialect v" and ?q = "ev_quoting v" and ?n = "ev_nulls v"
  show ?thesis
  proof (cases "pieces ?d ?q ?n True fs")
    case None
    then show ?thesis using visit_all_spec [OF wf safe, of fs] fresh by (simp add: record_spec_def)
  next
    case (Some ts)
    then obtain oe where run: "visit_all opts v fs =
        (v\<lparr>ev_output := ev_output v @ join_text ?d ts, ev_field_count := length fs, ev_only_empty := oe\<rparr>, Ok ())"
      using visit_all_spec [OF wf safe, of fs] fresh by (auto simp: rest_text_def)
    have "oe \<longleftrightarrow> lone_empty ?n fs" if len: "length fs = 1"
    proof -
      obtain f where "fs = [f]" using len by (auto simp: length_Suc_conv)
      then show ?thesis
        using visit_one_only_empty [OF wf safe fresh(1,2), of f] run by simp
    qed
    moreover have "length fs = 1" if "lone_empty ?n fs"
      using that by (auto simp: lone_empty_def)
    ultimately have "length fs = 1 \<and> oe \<longleftrightarrow> lone_empty ?n fs" by blast
    then show ?thesis
      using Some run fresh
      by (auto simp: record_spec_def visitor_finish_def visitor_fixup_def Let_def frame_simps)
  qed
qed

lemma visitor_new_wf:
  "visitor_wf opts (visitor_new opts out d q n)"
  "ev_field_count (visitor_new opts out d q n) = 0" "\<not> ev_only_empty (visitor_new opts out d q n)"
  "ev_record_start (visitor_new opts out d q n) = length (ev_output (visitor_new opts out d q n))"
  "ev_output (visitor_new opts out d q n) = out" "ev_dialect (visitor_new opts out d q n) = fmt_dialect opts d"
  "ev_quoting (visitor_new opts out d q n) = fmt_quoting opts q"
  "ev_nulls (visitor_new opts out d q n) = fmt_nulls opts n"
  by (auto simp: visitor_new_def visitor_wf_def csv_fast_format_def fmt_dialect_def fmt_quoting_def
      fmt_nulls_def split: option.splits)

lemmas visitor_new_spec =
  visitor_record_spec [OF visitor_new_wf(1) _ visitor_new_wf(2-4), unfolded visitor_new_wf(5-8)]

section \<open>Committing and rolling back\<close>

definition emitter_ok :: "push_emitter \<Rightarrow> bool" where
  "emitter_ok p \<longleftrightarrow> emit_safe (pe_dialect p) (pe_quoting p)"

lemma validate_field_count_cases:
  "validate_field_count policy expected n = (r, expected') \<Longrightarrow>
     r = Ok () \<or> (\<exists>e. r = Err e) \<and> expected' = expected"
  by (auto simp: validate_field_count_def Let_def split: field_count.splits option.splits if_splits)

text \<open>What any emission does to the emitter, given what it did to the buffer.\<close>

definition emits :: "push_emitter \<Rightarrow> bytes option list \<Rightarrow> push_emitter \<times> unit outcome \<Rightarrow> bool" where
  "emits p fs result \<longleftrightarrow>
     (case record_spec (pe_dialect p) (pe_quoting p) (pe_nulls p) fs of
        None \<Rightarrow> \<exists>e. result = (p, Err e)
      | Some t \<Rightarrow>
          (case validate_field_count (pe_field_count p) (pe_expected p) (length fs) of
             (Ok _, expected) \<Rightarrow>
               result = (emitter_commit (p\<lparr>pe_buffer := pe_buffer p @ t, pe_expected := expected\<rparr>), Ok ())
           | (Err e, _) \<Rightarrow> result = (p, Err e)
           | (Panic, _) \<Rightarrow> False))"

lemma emits_finish:
  assumes "case record_spec (pe_dialect p) (pe_quoting p) (pe_nulls p) fs of
      Some t \<Rightarrow> buffer = pe_buffer p @ t \<and> r = Ok (length fs)
    | None \<Rightarrow> \<exists>x e. buffer = pe_buffer p @ x \<and> r = Err e"
  shows "emits p fs (emitter_finish_record (p\<lparr>pe_buffer := buffer\<rparr>) (length (pe_buffer p)) r)"
proof (cases "record_spec (pe_dialect p) (pe_quoting p) (pe_nulls p) fs")
  case None
  then show ?thesis
    using assms by (cases p) (auto simp: emits_def emitter_finish_record_def emitter_rollback_def)
next
  case (Some t)
  obtain r' expected where v: "validate_field_count (pe_field_count p) (pe_expected p) (length fs) = (r', expected)"
    by fastforce
  show ?thesis
    using assms Some v validate_field_count_cases [OF v]
    by (cases p) (auto simp: emits_def emitter_finish_record_def emitter_rollback_def Let_def)
qed

lemma emits_run:
  assumes "\<exists>e. m (pe_buffer p) =
    (case record_spec (pe_dialect p) (pe_quoting p) (pe_nulls p) fs of
       Some t \<Rightarrow> (pe_buffer p @ t, Ok (length fs)) | None \<Rightarrow> (pe_buffer p, Err e))"
  shows "emits p fs (emitter_run p m)"
proof -
  obtain buffer r where m: "m (pe_buffer p) = (buffer, r)" by fastforce
  have "emits p fs (emitter_finish_record (p\<lparr>pe_buffer := buffer\<rparr>) (length (pe_buffer p)) r)"
    by (rule emits_finish) (use assms m in \<open>auto split: option.splits\<close>)
  then show ?thesis by (simp add: emitter_run_def Let_def m)
qed

lemma emits_nullable: "emitter_ok p \<Longrightarrow> emits p fs (emitter_emit_nullable p fs)"
  unfolding emitter_emit_nullable_def emitter_ok_def
  by (rule emits_run) (rule emit_nullable_spec)

lemma emits_record: "emitter_ok p \<Longrightarrow> emits p (map Some fs) (emitter_emit_record p fs)"
proof (cases "pe_nulls p = NullsNone \<and> \<not> escapes_unquoted (escape (pe_dialect p))")
  case False
  assume "emitter_ok p"
  then show ?thesis
    using emits_nullable [of p "map Some fs"] False
    by (simp add: emitter_emit_record_def emitter_emit_nullable_def del: de_Morgan_conj)
next
  case True
  have "emits p (map Some fs) (emitter_run p (emit_record_runtime (pe_dialect p) (pe_quoting p) fs))"
    by (rule emits_run) (use True emit_record_spec [of "pe_dialect p" "pe_quoting p" fs "pe_buffer p"]
        in \<open>simp cong: option.case_cong\<close>)
  then show ?thesis using True by (simp add: emitter_emit_record_def)
qed

lemma emits_encode: "emitter_ok p \<Longrightarrow> emits p fs (emitter_encode p fs)"
proof -
  assume "emitter_ok p"
  then have safe: "emit_safe (fmt_dialect None (pe_dialect p)) (fmt_quoting None (pe_quoting p))"
    by (simp add: emitter_ok_def fmt_dialect_def fmt_quoting_def)
  have fmt: "fmt_dialect None (pe_dialect p) = pe_dialect p" "fmt_quoting None (pe_quoting p) = pe_quoting p"
    "fmt_nulls None (pe_nulls p) = pe_nulls p"
    by (simp_all add: fmt_dialect_def fmt_quoting_def fmt_nulls_def)
  note spec = visitor_new_spec [OF safe, where n = "pe_nulls p" and fs = fs and out = "pe_buffer p",
      unfolded fmt]
  show ?thesis
  proof (cases "record_spec (pe_dialect p) (pe_quoting p) (pe_nulls p) fs")
    case None
    then obtain v' x e where "visit_all None (visitor_new None (pe_buffer p) (pe_dialect p)
        (pe_quoting p) (pe_nulls p)) fs = (v', Err e)" "ev_output v' = pe_buffer p @ x"
      using spec by auto
    then show ?thesis
      using emits_finish [where p = p and fs = fs and buffer = "ev_output v'" and r = "Err e"] None
      by (auto simp: emitter_encode_def Let_def)
  next
    case (Some t)
    then obtain v' where "visit_all None (visitor_new None (pe_buffer p) (pe_dialect p)
        (pe_quoting p) (pe_nulls p)) fs = (v', Ok ())" "visitor_finish v' = (pe_buffer p @ t, length fs)"
      using spec by auto
    then show ?thesis
      using emits_finish [where p = p and fs = fs and buffer = "pe_buffer p @ t" and r = "Ok (length fs)"] Some
      by (auto simp: emitter_encode_def Let_def)
  qed
qed

lemma emits_cases:
  assumes "emits p fs result"
  obtains e where "result = (p, Err e)"
  | t expected where "record_spec (pe_dialect p) (pe_quoting p) (pe_nulls p) fs = Some t"
      "validate_field_count (pe_field_count p) (pe_expected p) (length fs) = (Ok (), expected)"
      "result = (emitter_commit (p\<lparr>pe_buffer := pe_buffer p @ t, pe_expected := expected\<rparr>), Ok ())"
proof (cases "record_spec (pe_dialect p) (pe_quoting p) (pe_nulls p) fs")
  case None
  then show ?thesis using assms that(1) by (auto simp: emits_def)
next
  case (Some t)
  obtain r expected where v: "validate_field_count (pe_field_count p) (pe_expected p) (length fs) = (r, expected)"
    by fastforce
  then show ?thesis
    using assms that Some by (cases r) (auto simp: emits_def)
qed

text \<open>
  C6: Every emission is transactional. For an emitter over a validated format, \<open>emit_record\<close>,
  \<open>emit_nullable_record\<close> and \<open>encode\<close> never panic; an error, whether a field that cannot be spelled
  or a field count that does not fit, leaves the whole emitter as it was, and a success appends
  exactly one record.
\<close>

theorem emission_is_transactional:
  assumes "emitter_ok p"
    and "result = emitter_emit_nullable p fs \<or> result = emitter_encode p fs \<or>
         fs = map Some gs \<and> result = emitter_emit_record p gs"
  shows "case result of
      (p', Ok _) \<Rightarrow> \<exists>t. record_spec (pe_dialect p) (pe_quoting p) (pe_nulls p) fs = Some t \<and>
        pe_buffer p' = (if \<not> pe_started p \<and> pe_bom p = BomEmit then BOM else []) @ pe_buffer p @ t \<and>
        pe_started p'
    | (p', Err e) \<Rightarrow> p' = p
    | (p', Panic) \<Rightarrow> False"
proof -
  have "emits p fs result"
    using assms emits_nullable emits_encode emits_record by blast
  then show ?thesis
    by (rule emits_cases) (simp_all add: emitter_commit_def Let_def)
qed

section \<open>The document an emitter holds\<close>

text \<open>
  The states an emitter reaches from construction, with the records it accepted before the last
  \<open>clear\<close> and those it accepted since. \<open>clear\<close> empties the buffer but keeps the emitter started, so
  that a document drained in pieces has one byte-order mark and one field count.
\<close>

inductive emitter_run_of ::
    "format_options \<Rightarrow> field_count \<Rightarrow> push_emitter \<Rightarrow> bytes option list list \<Rightarrow>
     bytes option list list \<Rightarrow> bool"
  for f policy where
  run_new: "emitter_with_options f policy = Ok p \<Longrightarrow> emitter_run_of f policy p [] []"
| run_record: "emitter_run_of f policy p old docs \<Longrightarrow> emitter_emit_record p fs = (p', r) \<Longrightarrow>
    emitter_run_of f policy p' old (if r = Ok () then docs @ [map Some fs] else docs)"
| run_nullable: "emitter_run_of f policy p old docs \<Longrightarrow> emitter_emit_nullable p fs = (p', r) \<Longrightarrow>
    emitter_run_of f policy p' old (if r = Ok () then docs @ [fs] else docs)"
| run_encode: "emitter_run_of f policy p old docs \<Longrightarrow> emitter_encode p fs = (p', r) \<Longrightarrow>
    emitter_run_of f policy p' old (if r = Ok () then docs @ [fs] else docs)"
| run_clear: "emitter_run_of f policy p old docs \<Longrightarrow>
    emitter_run_of f policy (emitter_clear p) (old @ docs) []"

definition document_text ::
    "format_options \<Rightarrow> bytes option list list \<Rightarrow> bytes option list list \<Rightarrow> bytes" where
  "document_text f old docs =
     (if old = [] \<and> docs \<noteq> [] \<and> fo_write_bom f = BomEmit then BOM else []) @
     concat (map (\<lambda>fs. the (record_spec (fo_dialect f) (fo_quoting f) (fo_nulls f) fs)) docs)"

definition counts_fit :: "field_count \<Rightarrow> nat option \<Rightarrow> bytes option list list \<Rightarrow> bool" where
  "counts_fit policy expected docs \<longleftrightarrow>
     (case policy of
        Flexible \<Rightarrow> True
      | Exact n \<Rightarrow> \<forall>fs \<in> set docs. length fs = n
      | MatchFirst \<Rightarrow> (expected = None \<longrightarrow> docs = []) \<and>
          (\<forall>n. expected = Some n \<longrightarrow> docs \<noteq> [] \<and> (\<forall>fs \<in> set docs. length fs = n)))"

definition emitter_inv ::
    "format_options \<Rightarrow> field_count \<Rightarrow> push_emitter \<Rightarrow> bytes option list list \<Rightarrow>
     bytes option list list \<Rightarrow> bool" where
  "emitter_inv f policy p old docs \<longleftrightarrow>
     format_invalidity f = None \<and> pe_dialect p = fo_dialect f \<and> pe_quoting p = fo_quoting f \<and>
     pe_bom p = fo_write_bom f \<and> pe_nulls p = fo_nulls f \<and> pe_field_count p = policy \<and>
     (pe_started p \<longleftrightarrow> old @ docs \<noteq> []) \<and> pe_buffer p = document_text f old docs \<and>
     (\<forall>fs \<in> set docs. record_spec (fo_dialect f) (fo_quoting f) (fo_nulls f) fs \<noteq> None) \<and>
     counts_fit policy (pe_expected p) (old @ docs)"

lemma validate_counts:
  "validate_field_count policy expected n = (Ok (), expected') \<Longrightarrow> counts_fit policy expected docs \<Longrightarrow>
     length fs = n \<Longrightarrow> counts_fit policy expected' (docs @ [fs])"
  by (cases policy; cases expected)
    (auto simp: validate_field_count_def counts_fit_def Let_def split: if_splits)

lemma emitter_inv_emits:
  assumes inv: "emitter_inv f policy p old docs" and step: "emits p fs (p', r)"
  shows "emitter_inv f policy p' old (if r = Ok () then docs @ [fs] else docs)"
  using step
proof (rule emits_cases)
  fix e
  assume "(p', r) = (p, Err e)"
  then show ?thesis using inv by simp
next
  fix t expected
  assume t: "record_spec (pe_dialect p) (pe_quoting p) (pe_nulls p) fs = Some t"
    and v: "validate_field_count (pe_field_count p) (pe_expected p) (length fs) = (Ok (), expected)"
    and r: "(p', r) = (emitter_commit (p\<lparr>pe_buffer := pe_buffer p @ t, pe_expected := expected\<rparr>), Ok ())"
  have fmt: "pe_dialect p = fo_dialect f" "pe_quoting p = fo_quoting f" "pe_nulls p = fo_nulls f"
    "pe_bom p = fo_write_bom f" "pe_field_count p = policy" "pe_started p \<longleftrightarrow> old @ docs \<noteq> []"
    "pe_buffer p = document_text f old docs" "format_invalidity f = None"
    using inv by (simp_all add: emitter_inv_def)
  have fits: "counts_fit policy expected ((old @ docs) @ [fs])"
    using inv validate_counts [OF v [unfolded fmt], of "old @ docs" fs] by (simp add: emitter_inv_def)
  have whole: "document_text f old (docs @ [fs]) =
      (if old @ docs = [] \<and> fo_write_bom f = BomEmit then BOM else []) @ document_text f old docs @ t"
    using t fmt by (simp add: document_text_def)
  have specs: "\<forall>gs \<in> set (docs @ [fs]). record_spec (fo_dialect f) (fo_quoting f) (fo_nulls f) gs \<noteq> None"
    using inv t fmt by (simp add: emitter_inv_def)
  let ?p = "emitter_commit (p\<lparr>pe_buffer := pe_buffer p @ t, pe_expected := expected\<rparr>)"
  have "emitter_inv f policy ?p old (docs @ [fs])"
    unfolding emitter_inv_def whole using fmt fits specs
    by (auto simp: emitter_commit_def Let_def)
  then show ?thesis using r by simp
qed

lemma emitter_run_inv: "emitter_run_of f policy p old docs \<Longrightarrow> emitter_inv f policy p old docs"
proof (induction rule: emitter_run_of.induct)
  case (run_new p)
  then show ?case
    by (auto simp: emitter_with_options_def bind_outcome_Ok_iff format_validate_def
        emitter_from_config_def emitter_inv_def document_text_def counts_fit_def
        split: option.splits field_count.splits)
next
  case (run_record p old docs fs p' r)
  then have "emitter_ok p"
    by (auto simp: emitter_inv_def emitter_ok_def dest: format_invalidity_emit_safe)
  then have "emits p (map Some fs) (p', r)" using emits_record run_record.hyps(2) by metis
  then show ?case by (rule emitter_inv_emits [OF run_record.IH])
next
  case (run_nullable p old docs fs p' r)
  then have "emitter_ok p"
    by (auto simp: emitter_inv_def emitter_ok_def dest: format_invalidity_emit_safe)
  then have "emits p fs (p', r)" using emits_nullable run_nullable.hyps(2) by metis
  then show ?case by (rule emitter_inv_emits [OF run_nullable.IH])
next
  case (run_encode p old docs fs p' r)
  then have "emitter_ok p"
    by (auto simp: emitter_inv_def emitter_ok_def dest: format_invalidity_emit_safe)
  then have "emits p fs (p', r)" using emits_encode run_encode.hyps(2) by metis
  then show ?case by (rule emitter_inv_emits [OF run_encode.IH])
next
  case (run_clear p old docs)
  then show ?case by (auto simp: emitter_inv_def emitter_clear_def document_text_def)
qed

text \<open>
  C7: Whatever sequence of emissions and clears has been tried, whichever of the three ways of
  emitting and whichever of them failed, the buffer of an emitter built over a format is exactly the
  text of the records it accepted since the last clear. A byte-order mark opens it when the format
  asks for one and no record was accepted before, and the field counts of all the records ever
  accepted satisfy the policy.
\<close>

theorem emitter_document:
  assumes "emitter_run_of f policy p old docs"
  shows "pe_buffer p = document_text f old docs \<and>
    (\<forall>fs \<in> set docs. record_spec (fo_dialect f) (fo_quoting f) (fo_nulls f) fs \<noteq> None) \<and>
    (\<forall>n. policy = Exact n \<longrightarrow> (\<forall>fs \<in> set (old @ docs). length fs = n)) \<and>
    (policy = MatchFirst \<longrightarrow> (\<forall>fs \<in> set (old @ docs). \<forall>gs \<in> set (old @ docs). length fs = length gs))"
proof -
  have inv: "emitter_inv f policy p old docs" by (rule emitter_run_inv [OF assms])
  have fits: "counts_fit policy (pe_expected p) (old @ docs)" using inv by (simp add: emitter_inv_def)
  have "policy = MatchFirst \<longrightarrow> (\<forall>fs \<in> set (old @ docs). \<forall>gs \<in> set (old @ docs). length fs = length gs)"
    using fits by (cases "pe_expected p") (auto simp: counts_fit_def)
  moreover have "\<forall>n. policy = Exact n \<longrightarrow> (\<forall>fs \<in> set (old @ docs). length fs = n)"
    using fits by (auto simp: counts_fit_def)
  moreover have "pe_buffer p = document_text f old docs" using inv by (simp add: emitter_inv_def)
  moreover have "\<forall>fs \<in> set docs. record_spec (fo_dialect f) (fo_quoting f) (fo_nulls f) fs \<noteq> None"
    using inv unfolding emitter_inv_def by (elim conjE)
  ultimately show ?thesis by blast
qed

lemma csv_emitter_ok: "emitter_ok (emitter_from_config out DIALECT_CSV Necessary bom NullsNone policy)"
  by (simp add: emitter_ok_def emitter_from_config_def emit_safe_def DIALECT_CSV_def escapes_unquoted_def)

text \<open>A Never policy refuses the field \<open>a,b\<close>; the Necessary policy spells it with quotes.\<close>

theorem emission_is_transactional_witness:
  "case emitter_emit_nullable (emitter_from_config [] DIALECT_CSV Necessary BomOmit NullsNone Flexible)
      [Some [97, 44, 98], None] of
     (p', Ok _) \<Rightarrow> pe_started p' | (p', Err e) \<Rightarrow> pe_buffer p' = [] | (p', Panic) \<Rightarrow> False"
  using emission_is_transactional [OF csv_emitter_ok [of "[]" BomOmit Flexible] disjI1 [OF refl],
      of "[Some [97, 44, 98], None]"]
  by (auto simp: emitter_from_config_def split: prod.splits outcome.splits)

lemma sample_emission:
  "emitter_run_of FORMAT_EXCEL MatchFirst
     (fst (emitter_emit_record (emitter_from_config [] (fo_dialect FORMAT_EXCEL) (fo_quoting FORMAT_EXCEL)
        (fo_write_bom FORMAT_EXCEL) (fo_nulls FORMAT_EXCEL) MatchFirst) [[97], [98, 34]]))
     [] [[Some [97], Some [98, 34]]]"
proof -
  let ?p = "emitter_from_config [] (fo_dialect FORMAT_EXCEL) (fo_quoting FORMAT_EXCEL)
        (fo_write_bom FORMAT_EXCEL) (fo_nulls FORMAT_EXCEL) MatchFirst"
  have "emitter_with_options FORMAT_EXCEL MatchFirst = Ok ?p"
    using builtin_formats_valid by (simp add: emitter_with_options_def format_validate_def)
  then have new: "emitter_run_of FORMAT_EXCEL MatchFirst ?p [] []" by (rule run_new)
  obtain p' r where run: "emitter_emit_record ?p [[97], [98, 34]] = (p', r)" by fastforce
  have "emits ?p [Some [97], Some [98, 34]] (p', r)"
    using emits_record [of ?p "[[97], [98, 34]]"] run
    by (simp add: emitter_ok_def emitter_from_config_def emit_safe_def escapes_unquoted_def
        FORMAT_EXCEL_def DIALECT_EXCEL_def DIALECT_RFC4180_def DIALECT_CSV_def with_dialect_def)
  then have "r = Ok ()"
    by (auto simp: emits_def emitter_from_config_def FORMAT_EXCEL_def with_dialect_def record_spec_def
        field_spec_def configured_spec_def plain_spec_def DIALECT_EXCEL_def DIALECT_RFC4180_def
        DIALECT_CSV_def validate_field_count_def Let_def)
  then show ?thesis using run_record [OF new run] run by simp
qed

theorem emitter_document_witness:
  "pe_buffer (fst (emitter_emit_record (emitter_from_config [] (fo_dialect FORMAT_EXCEL)
     (fo_quoting FORMAT_EXCEL) (fo_write_bom FORMAT_EXCEL) (fo_nulls FORMAT_EXCEL) MatchFirst)
     [[97], [98, 34]])) = document_text FORMAT_EXCEL [] [[Some [97], Some [98, 34]]]"
  using emitter_document [OF sample_emission] by blast

section \<open>The emitters agree\<close>

text \<open>
  C8: The push-driven visitor and the record emitter write the same bytes and count the same
  fields, for a static format as for a dynamic one, and refuse the same records; a refusal leaves
  only bytes after the record start, which the caller truncates.
\<close>

theorem direct_visitor_agrees:
  assumes "emit_safe (fmt_dialect opts d) (fmt_quoting opts q)"
  shows "case emit_nullable_record_runtime (fmt_dialect opts d) (fmt_quoting opts q) (fmt_nulls opts n) fs out of
      (out', Ok count) \<Rightarrow> \<exists>v. visit_all opts (visitor_new opts out d q n) fs = (v, Ok ()) \<and>
        visitor_finish v = (out', count)
    | (out', Err e) \<Rightarrow> out' = out \<and> (\<exists>v e'. visit_all opts (visitor_new opts out d q n) fs = (v, Err e') \<and>
        take (length out) (ev_output v) = out)
    | (out', Panic) \<Rightarrow> False"
proof -
  let ?spec = "record_spec (fmt_dialect opts d) (fmt_quoting opts q) (fmt_nulls opts n) fs"
  obtain e where "emit_nullable_record_runtime (fmt_dialect opts d) (fmt_quoting opts q) (fmt_nulls opts n) fs out =
      (case ?spec of Some t \<Rightarrow> (out @ t, Ok (length fs)) | None \<Rightarrow> (out, Err e))"
    using emit_nullable_spec [OF assms] by blast
  then show ?thesis
    using visitor_new_spec [OF assms, where n = n and fs = fs and out = out]
    by (auto split: option.splits)
qed

theorem direct_visitor_agrees_witness:
  "\<exists>v out' count. visit_all (Some FORMAT_CSV) (visitor_new (Some FORMAT_CSV) [1] DIALECT_TSV Always NullsMysql)
      [Some [97], None] = (v, Ok ()) \<and> visitor_finish v = (out', count)"
proof -
  have safe: "emit_safe (fmt_dialect (Some FORMAT_CSV) DIALECT_TSV) (fmt_quoting (Some FORMAT_CSV) Always)"
    by (simp add: fmt_dialect_def FORMAT_CSV_def with_dialect_def emit_safe_def DIALECT_CSV_def
        escapes_unquoted_def)
  show ?thesis
    using direct_visitor_agrees [OF safe, where n = NullsMysql and fs = "[Some [97], None]" and out = "[1]"]
      emit_nullable_spec [OF safe, where n = "fmt_nulls (Some FORMAT_CSV) NullsMysql" and fs = "[Some [97], None]" and out = "[1]"]
    by (auto simp: record_spec_def field_spec_def configured_spec_def plain_spec_def fmt_dialect_def
        fmt_quoting_def FORMAT_CSV_def with_dialect_def DIALECT_CSV_def split: option.splits)
qed

text \<open>
  C9: For a dialect whose escape quotes, \<open>emit_record\<close>, with its five specialised loops and its
  CSV fast path, writes what the nullable emitter writes for fields that are all present, and
  refuses the same records.
\<close>

theorem emit_record_agrees:
  assumes "\<not> escapes_unquoted (escape d)"
  shows "case emit_nullable_record_runtime d q NullsNone (map Some fs) out of
      (out', Ok count) \<Rightarrow> emit_record_runtime d q fs out = (out', Ok count)
    | (out', Err e) \<Rightarrow> \<exists>e'. emit_record_runtime d q fs out = (out', Err e')
    | (out', Panic) \<Rightarrow> False"
proof -
  have "emit_safe d q" using assms by (simp add: emit_safe_def)
  then show ?thesis
    using emit_nullable_spec [of d q NullsNone "map Some fs" out] emit_record_spec [OF assms, of q fs out]
    by (auto split: option.splits)
qed

theorem emit_record_agrees_witness:
  "\<exists>out' r. emit_record_runtime DIALECT_CSV Never [[97], [44]] [] = (out', r) \<and> out' = []"
  using emit_record_agrees [OF csv_not_unquoted, of Never "[[97], [44]]" "[]"]
    emit_nullable_spec [of DIALECT_CSV Never NullsNone "map Some [[97], [44]]" "[]"]
  by (auto simp: emit_safe_def csv_not_unquoted record_spec_def field_spec_def configured_spec_def
      plain_spec_def DIALECT_CSV_def must_quote_def special_bytes_def split: option.splits)

section \<open>The quoting and numeric tests\<close>

text \<open>
  C10: The word-at-a-time and block-at-a-time quoting scans decide exactly whether the field holds a
  structural byte: the delimiter, the quote, the record ending, a carriage return where lines end
  the record, or a leading byte-order mark or comment byte in the first field.
\<close>

theorem needs_quotes_exact: "needs_quotes d field is_first \<longleftrightarrow> must_quote d field is_first"
  by (rule needs_quotes_iff)

text \<open>
  C11: The byte scan that shortcuts the float parser never changes its verdict: the non-numeric policy
  leaves a field unquoted exactly when \<open>f64::from_str\<close> accepts it.
\<close>

theorem numeric_scan_exact: "is_numeric field \<longleftrightarrow> parses_f64 field"
  by (rule is_numeric_eq)

end
