(* ===== verification/Spans.thy ===== *)
theory Spans
  imports Errors "HOL-Library.Word"
begin

text \<open>
  Packed field spans and the storage that owns their scratch bytes
  (\<open>coseva_unsafe/src/span.rs\<close>). A span is two 64-bit words: the top bit of \<open>start\<close> says which buffer
  the field lies in, the next one that it is NULL, and the top bit of \<open>end\<close> that it was quoted. The
  storage resolves a span with \<open>get_unchecked\<close>, so a span outside its buffer is undefined
  behaviour; \<open>resolve_span\<close> is \<open>None\<close> there, and the invariant \<open>storage_wf\<close>, kept by every operation,
  is what makes each resolution defined.
\<close>

unbundle bit_operations_syntax

section \<open>The packed representation\<close>

datatype source = FromInput | FromScratch

record span =
  sp_start :: "64 word"
  sp_end :: "64 word"

definition FLAG :: "64 word" where "FLAG = push_bit 63 1"
definition NULL_FLAG :: "64 word" where "NULL_FLAG = push_bit 62 1"
definition MAX_OFFSET :: nat where "MAX_OFFSET = unat (NULL_FLAG - 1)"

definition bounded_offset :: "nat \<Rightarrow> nat" where
  "bounded_offset offset = (if offset \<le> MAX_OFFSET then offset else MAX_OFFSET)"

definition from_range_unchecked :: "source \<Rightarrow> nat \<Rightarrow> nat \<Rightarrow> bool \<Rightarrow> span" where
  "from_range_unchecked src from until quoted =
     \<lparr>sp_start = (case src of FromInput \<Rightarrow> of_nat from | FromScratch \<Rightarrow> of_nat from OR FLAG),
      sp_end = (if quoted then of_nat until OR FLAG else of_nat until)\<rparr>"

definition from_valid_null :: "source \<Rightarrow> nat \<Rightarrow> span outcome" where
  "from_valid_null src offset =
     bind_outcome (assert_that (offset \<le> MAX_OFFSET)) (\<lambda>_.
       Ok \<lparr>sp_start = (case src of FromInput \<Rightarrow> of_nat offset | FromScratch \<Rightarrow> of_nat offset OR FLAG) OR NULL_FLAG,
           sp_end = of_nat offset\<rparr>)"

definition span_source :: "span \<Rightarrow> source" where
  "span_source s = (if sp_start s AND FLAG = 0 then FromInput else FromScratch)"

definition span_start :: "span \<Rightarrow> nat" where
  "span_start s = unat (sp_start s AND NOT (FLAG OR NULL_FLAG))"

definition span_end :: "span \<Rightarrow> nat" where
  "span_end s = unat (sp_end s AND NOT FLAG)"

definition span_is_quoted :: "span \<Rightarrow> bool" where
  "span_is_quoted s \<longleftrightarrow> sp_end s AND FLAG \<noteq> 0"

definition span_is_null :: "span \<Rightarrow> bool" where
  "span_is_null s \<longleftrightarrow> sp_start s AND NULL_FLAG \<noteq> 0"

definition is_ascii_whitespace :: "byte \<Rightarrow> bool" where
  "is_ascii_whitespace b \<longleftrightarrow> b \<in> {9, 10, 12, 13, 32}"

text \<open>The two loops of \<open>trim_ascii\<close>; an index outside the buffer panics.\<close>

function trim_front :: "bytes \<Rightarrow> nat \<Rightarrow> nat \<Rightarrow> nat outcome" where
  "trim_front bs from until =
     (if from < until then
        (case get_at bs from of
           None \<Rightarrow> Panic
         | Some b \<Rightarrow> if is_ascii_whitespace b then trim_front bs (from + 1) until else Ok from)
      else Ok from)"
  by pat_completeness auto
termination by (relation "measure (\<lambda>(_, from, until). until - from)") auto

declare trim_front.simps [simp del]

fun trim_back :: "bytes \<Rightarrow> nat \<Rightarrow> nat \<Rightarrow> nat outcome" where
  "trim_back bs from 0 = Ok 0"
| "trim_back bs from (Suc n) =
     (if from < Suc n then
        (case get_at bs n of
           None \<Rightarrow> Panic
         | Some b \<Rightarrow> if is_ascii_whitespace b then trim_back bs from n else Ok (Suc n))
      else Ok (Suc n))"

definition span_trim_ascii :: "bytes \<Rightarrow> bytes \<Rightarrow> span \<Rightarrow> span outcome" where
  "span_trim_ascii input scratch s =
     (if span_is_null s then Ok s
      else let bs = (case span_source s of FromInput \<Rightarrow> input | FromScratch \<Rightarrow> scratch)
        in bind_outcome (trim_front bs (span_start s) (span_end s)) (\<lambda>from.
             bind_outcome (trim_back bs from (span_end s)) (\<lambda>until.
               Ok \<lparr>sp_start = of_nat from OR (sp_start s AND FLAG),
                   sp_end = of_nat until OR (sp_end s AND FLAG)\<rparr>)))"

text \<open>\<open>get_unchecked\<close> on the source buffer: \<open>None\<close> is a range outside it.\<close>

definition resolve_span :: "bytes \<Rightarrow> bytes \<Rightarrow> span \<Rightarrow> bytes option" where
  "resolve_span input scratch s =
     get_range (case span_source s of FromInput \<Rightarrow> input | FromScratch \<Rightarrow> scratch) (span_start s) (span_end s)"

section \<open>The storage\<close>

text \<open>\<open>input_len\<close> is stored plus one, as a \<open>NonZeroUsize\<close>.\<close>

record span_storage =
  ss_spans :: "span list"
  ss_scratch :: bytes
  ss_input_bound :: nat

definition storage_with_capacity :: span_storage where
  "storage_with_capacity = \<lparr>ss_spans = [], ss_scratch = [], ss_input_bound = 1\<rparr>"

definition storage_begin :: "bytes \<Rightarrow> nat \<Rightarrow> span_storage \<Rightarrow> span_storage option" where
  "storage_begin input max_offset st =
     (if length input > bounded_offset max_offset then None
      else Some (st\<lparr>ss_spans := [], ss_scratch := [], ss_input_bound := length input + 1\<rparr>))"

definition input_len :: "span_storage \<Rightarrow> nat" where "input_len st = ss_input_bound st - 1"
definition storage_len :: "span_storage \<Rightarrow> nat" where "storage_len st = length (ss_spans st)"
definition scratch_len :: "span_storage \<Rightarrow> nat" where "scratch_len st = length (ss_scratch st)"

definition scratch_push :: "byte \<Rightarrow> span_storage \<Rightarrow> span_storage" where
  "scratch_push b st = st\<lparr>ss_scratch := ss_scratch st @ [b]\<rparr>"

definition scratch_extend :: "bytes \<Rightarrow> span_storage \<Rightarrow> span_storage" where
  "scratch_extend bs st = st\<lparr>ss_scratch := ss_scratch st @ bs\<rparr>"

definition clear_spans :: "span_storage \<Rightarrow> span_storage" where
  "clear_spans st = st\<lparr>ss_spans := []\<rparr>"

definition try_push_input_bounded :: "nat \<Rightarrow> nat \<Rightarrow> bool \<Rightarrow> nat \<Rightarrow> nat \<Rightarrow> span_storage \<Rightarrow> span_storage option" where
  "try_push_input_bounded from until quoted max_fields max_field_bytes st =
     (if until < from then None
      else if max_fields \<le> storage_len st \<or> max_field_bytes < until - from \<or> input_len st < until then None
      else Some (st\<lparr>ss_spans := ss_spans st @ [from_range_unchecked FromInput from until quoted]\<rparr>))"

definition try_push_scratch_bounded :: "nat \<Rightarrow> nat \<Rightarrow> bool \<Rightarrow> nat \<Rightarrow> nat \<Rightarrow> span_storage \<Rightarrow> span_storage option" where
  "try_push_scratch_bounded from until quoted max_fields max_field_bytes st =
     (if until < from then None
      else if max_fields \<le> storage_len st \<or> max_field_bytes < until - from \<or>
          length (ss_scratch st) < until \<or> input_len st < until then None
      else Some (st\<lparr>ss_spans := ss_spans st @ [from_range_unchecked FromScratch from until quoted]\<rparr>))"

definition storage_push_null :: "nat \<Rightarrow> span_storage \<Rightarrow> span_storage outcome" where
  "storage_push_null offset st =
     bind_outcome (assert_that (offset \<le> input_len st)) (\<lambda>_.
       bind_outcome (from_valid_null FromInput offset) (\<lambda>s.
         Ok (st\<lparr>ss_spans := ss_spans st @ [s]\<rparr>)))"

fun map_outcome :: "('a \<Rightarrow> 'b outcome) \<Rightarrow> 'a list \<Rightarrow> 'b list outcome" where
  "map_outcome f [] = Ok []"
| "map_outcome f (x # xs) = bind_outcome (f x) (\<lambda>y. map_ok ((#) y) (map_outcome f xs))"

definition trim_ascii_where :: "bytes \<Rightarrow> (bool \<Rightarrow> bool) \<Rightarrow> span_storage \<Rightarrow> span_storage outcome" where
  "trim_ascii_where input should_trim st =
     bind_outcome (assert_that (input_len st \<le> length input)) (\<lambda>_.
       map_ok (\<lambda>spans. st\<lparr>ss_spans := spans\<rparr>)
         (map_outcome (\<lambda>s. if should_trim (span_is_quoted s) then span_trim_ascii input (ss_scratch st) s else Ok s)
            (ss_spans st)))"

definition mark_input_nulls :: "bytes \<Rightarrow> (bytes \<Rightarrow> bool) \<Rightarrow> span_storage \<Rightarrow> span_storage outcome" where
  "mark_input_nulls input is_null st =
     bind_outcome (assert_that (input_len st \<le> length input)) (\<lambda>_.
       map_ok (\<lambda>spans. st\<lparr>ss_spans := spans\<rparr>)
         (map_outcome (\<lambda>s.
            if \<not> span_is_quoted s \<and> span_source s = FromInput then
              (case get_range input (span_start s) (span_end s) of
                 None \<Rightarrow> Panic
               | Some field \<Rightarrow> if is_null field then from_valid_null FromInput (span_start s) else Ok s)
            else Ok s) (ss_spans st)))"

definition storage_get :: "bytes \<Rightarrow> nat \<Rightarrow> span_storage \<Rightarrow> bytes option option" where
  "storage_get input index st =
     (case get_at (ss_spans st) index of
        None \<Rightarrow> None
      | Some s \<Rightarrow>
          if span_source s = FromScratch then Some (resolve_span input (ss_scratch st) s)
          else if length input < span_end s then None
          else Some (get_range input (span_start s) (span_end s)))"

text \<open>
  \<open>resolved\<close> and \<open>get_entry\<close> for every index: each field with its NULL mark. The assertion panics;
  a span outside its buffer leaves no defined result.
\<close>

definition resolved_entries :: "bytes \<Rightarrow> span_storage \<Rightarrow> (bytes option \<times> bool) list outcome" where
  "resolved_entries input st =
     bind_outcome (assert_that (input_len st \<le> length input)) (\<lambda>_.
       Ok (map (\<lambda>s. (resolve_span input (ss_scratch st) s, span_is_null s)) (ss_spans st)))"

section \<open>Reading a packed span back\<close>

lemma max_offset_value: "MAX_OFFSET = 2 ^ 62 - 1"
  by (simp add: MAX_OFFSET_def NULL_FLAG_def)

lemma flag_bits: "bit FLAG k \<longleftrightarrow> k = 63" "bit NULL_FLAG k \<longleftrightarrow> k = 62"
proof -
  show "bit FLAG k \<longleftrightarrow> k = 63"
    unfolding FLAG_def by (subst bit_push_bit_iff) (auto simp: bit_1_iff)
  show "bit NULL_FLAG k \<longleftrightarrow> k = 62"
    unfolding NULL_FLAG_def by (subst bit_push_bit_iff) (auto simp: bit_1_iff)
qed

lemma unat_offset: "n \<le> MAX_OFFSET \<Longrightarrow> unat (of_nat n :: 64 word) = n"
  by (simp add: max_offset_value unat_of_nat)

lemma offset_no_flag:
  assumes "n \<le> MAX_OFFSET"
  shows "\<not> bit n 63" "\<not> bit n 62"
  using assms by (simp_all add: bit_iff_odd max_offset_value)

lemma offset_and_not_flags:
  assumes "n \<le> MAX_OFFSET"
  shows "(of_nat n :: 64 word) AND NOT (FLAG OR NULL_FLAG) = of_nat n"
    "((of_nat n :: 64 word) OR FLAG) AND NOT (FLAG OR NULL_FLAG) = of_nat n"
    "((of_nat n :: 64 word) OR NULL_FLAG) AND NOT (FLAG OR NULL_FLAG) = of_nat n"
    "(of_nat n :: 64 word) AND NOT FLAG = of_nat n"
    "((of_nat n :: 64 word) OR FLAG) AND NOT FLAG = of_nat n"
    "(of_nat n :: 64 word) AND FLAG = 0" "(of_nat n :: 64 word) AND NULL_FLAG = 0"
    "((of_nat n :: 64 word) OR NULL_FLAG) AND FLAG = 0" "((of_nat n :: 64 word) OR FLAG) AND NULL_FLAG = 0"
    "((of_nat n :: 64 word) OR FLAG) AND FLAG = FLAG"
    "((of_nat n :: 64 word) OR NULL_FLAG) AND NULL_FLAG = NULL_FLAG"
  using offset_no_flag [OF assms] by (auto intro!: bit_word_eqI simp: bit_simps flag_bits)

lemma flags_nonzero: "FLAG \<noteq> 0" "NULL_FLAG \<noteq> 0"
  using flag_bits [of 63] flag_bits(2) [of 62] by auto

lemmas packing = from_range_unchecked_def span_source_def span_start_def span_end_def
  span_is_quoted_def span_is_null_def

lemma span_of_range:
  assumes "from \<le> MAX_OFFSET" "until \<le> MAX_OFFSET"
  shows "span_source (from_range_unchecked src from until quoted) = src"
    "span_start (from_range_unchecked src from until quoted) = from"
    "span_end (from_range_unchecked src from until quoted) = until"
    "span_is_quoted (from_range_unchecked src from until quoted) = quoted"
    "\<not> span_is_null (from_range_unchecked src from until quoted)"
  using offset_and_not_flags [OF assms(1)] offset_and_not_flags [OF assms(2)] assms flags_nonzero
  by (cases src; simp add: packing unat_offset)+

lemma span_of_null:
  assumes "n \<le> MAX_OFFSET"
  shows "\<exists>s. from_valid_null FromInput n = Ok s \<and> span_source s = FromInput \<and> span_start s = n \<and>
    span_end s = n \<and> \<not> span_is_quoted s \<and> span_is_null s"
  using offset_and_not_flags [OF assms] assms flags_nonzero
  by (simp add: packing from_valid_null_def unat_offset)

section \<open>Well-formed storage\<close>

text \<open>The bytes a span of this storage may lie in.\<close>

definition source_len :: "span_storage \<Rightarrow> source \<Rightarrow> nat" where
  "source_len st src = (case src of FromInput \<Rightarrow> input_len st | FromScratch \<Rightarrow> length (ss_scratch st))"

definition span_fits :: "span_storage \<Rightarrow> span \<Rightarrow> bool" where
  "span_fits st s \<longleftrightarrow>
     span_start s \<le> span_end s \<and> span_end s \<le> source_len st (span_source s) \<and> span_end s \<le> MAX_OFFSET"

definition storage_wf :: "span_storage \<Rightarrow> bool" where
  "storage_wf st \<longleftrightarrow> input_len st \<le> MAX_OFFSET \<and> (\<forall>s \<in> set (ss_spans st). span_fits st s)"

text \<open>A change of the storage that keeps its shape: what the parser relies on at each step.\<close>

definition grows :: "span_storage \<Rightarrow> span_storage \<Rightarrow> bool" where
  "grows st st' \<longleftrightarrow> input_len st' = input_len st \<and> (\<exists>bs. ss_scratch st' = ss_scratch st @ bs)"

lemma grows_refl [simp]: "grows st st" by (simp add: grows_def)

lemma grows_trans [trans]: "grows a b \<Longrightarrow> grows b c \<Longrightarrow> grows a c"
  by (auto simp: grows_def)

lemma span_fits_grows: "grows st st' \<Longrightarrow> span_fits st s \<Longrightarrow> span_fits st' s"
  by (auto simp: grows_def span_fits_def source_len_def split: source.splits)

lemma storage_begin_wf:
  "storage_begin input max_offset st = Some st' \<Longrightarrow>
     storage_wf st' \<and> ss_spans st' = [] \<and> ss_scratch st' = [] \<and> input_len st' = length input"
  by (auto simp: storage_begin_def bounded_offset_def storage_wf_def input_len_def split: if_splits)

lemma scratch_push_wf: "storage_wf st \<Longrightarrow> storage_wf (scratch_push b st)"
  using span_fits_grows [of st "scratch_push b st"]
  by (auto simp: storage_wf_def scratch_push_def grows_def input_len_def)

lemma scratch_extend_wf: "storage_wf st \<Longrightarrow> storage_wf (scratch_extend bs st)"
  using span_fits_grows [of st "scratch_extend bs st"]
  by (auto simp: storage_wf_def scratch_extend_def grows_def input_len_def)

lemma clear_spans_wf: "storage_wf st \<Longrightarrow> storage_wf (clear_spans st)"
  by (simp add: storage_wf_def clear_spans_def input_len_def)

lemma spans_update [simp]:
  "input_len (st\<lparr>ss_spans := x\<rparr>) = input_len st"
  "source_len (st\<lparr>ss_spans := x\<rparr>) src = source_len st src"
  "span_fits (st\<lparr>ss_spans := x\<rparr>) s = span_fits st s"
  by (simp_all add: span_fits_def source_len_def input_len_def cong: source.case_cong)

lemma try_push_input_wf:
  assumes "try_push_input_bounded from until quoted mf mb st = Some st'" "storage_wf st"
  shows "storage_wf st'" "ss_spans st' = ss_spans st @ [from_range_unchecked FromInput from until quoted]"
    "from \<le> until" "until - from \<le> mb" "until \<le> input_len st" "storage_len st < mf"
    "ss_scratch st' = ss_scratch st" "input_len st' = input_len st"
proof -
  have p: "from \<le> until" "until - from \<le> mb" "until \<le> input_len st" "storage_len st < mf"
    "st' = st\<lparr>ss_spans := ss_spans st @ [from_range_unchecked FromInput from until quoted]\<rparr>"
    using assms(1) by (auto simp: try_push_input_bounded_def not_le not_less split: if_splits)
  then have "until \<le> MAX_OFFSET" "from \<le> MAX_OFFSET" using assms(2) by (auto simp: storage_wf_def)
  then show "storage_wf st'"
    using assms(2) p by (auto simp: storage_wf_def span_fits_def [of _ "from_range_unchecked _ _ _ _"] span_of_range source_len_def)
  show "ss_spans st' = ss_spans st @ [from_range_unchecked FromInput from until quoted]"
    "from \<le> until" "until - from \<le> mb" "until \<le> input_len st" "storage_len st < mf"
    "ss_scratch st' = ss_scratch st" "input_len st' = input_len st"
    using p by simp_all
qed

lemma try_push_scratch_wf:
  assumes "try_push_scratch_bounded from until quoted mf mb st = Some st'" "storage_wf st"
  shows "storage_wf st'" "ss_spans st' = ss_spans st @ [from_range_unchecked FromScratch from until quoted]"
    "from \<le> until" "until - from \<le> mb" "until \<le> length (ss_scratch st)" "storage_len st < mf"
    "ss_scratch st' = ss_scratch st" "input_len st' = input_len st"
proof -
  have p: "from \<le> until" "until - from \<le> mb" "until \<le> length (ss_scratch st)" "until \<le> input_len st"
    "storage_len st < mf"
    "st' = st\<lparr>ss_spans := ss_spans st @ [from_range_unchecked FromScratch from until quoted]\<rparr>"
    using assms(1) by (auto simp: try_push_scratch_bounded_def not_le not_less split: if_splits)
  then have "until \<le> MAX_OFFSET" "from \<le> MAX_OFFSET" using assms(2) by (auto simp: storage_wf_def)
  then show "storage_wf st'"
    using assms(2) p by (auto simp: storage_wf_def span_fits_def [of _ "from_range_unchecked _ _ _ _"] span_of_range source_len_def)
  show "ss_spans st' = ss_spans st @ [from_range_unchecked FromScratch from until quoted]"
    "from \<le> until" "until - from \<le> mb" "until \<le> length (ss_scratch st)" "storage_len st < mf"
    "ss_scratch st' = ss_scratch st" "input_len st' = input_len st"
    using p by simp_all
qed

text \<open>Pushing a NULL inside the input never panics.\<close>

lemma storage_push_null_wf:
  assumes "storage_wf st" "n \<le> input_len st"
  obtains s where "storage_push_null n st = Ok (st\<lparr>ss_spans := ss_spans st @ [s]\<rparr>)"
    "storage_wf (st\<lparr>ss_spans := ss_spans st @ [s]\<rparr>)" "from_valid_null FromInput n = Ok s"
proof -
  have n: "n \<le> MAX_OFFSET" using assms by (simp add: storage_wf_def)
  obtain s where s: "from_valid_null FromInput n = Ok s" "span_source s = FromInput" "span_start s = n"
    "span_end s = n" using span_of_null [OF n] by blast
  have "storage_push_null n st = Ok (st\<lparr>ss_spans := ss_spans st @ [s]\<rparr>)"
    using assms s(1) by (simp add: storage_push_null_def)
  moreover have "storage_wf (st\<lparr>ss_spans := ss_spans st @ [s]\<rparr>)"
    using assms s n by (auto simp: storage_wf_def span_fits_def [of _ s] source_len_def)
  ultimately show thesis using s(1) by (rule that)
qed

section \<open>Passes over the spans\<close>

lemma map_outcome_all:
  assumes "\<And>x. x \<in> set xs \<Longrightarrow> \<exists>y. f x = Ok y \<and> P x y"
  shows "\<exists>ys. map_outcome f xs = Ok ys \<and> list_all2 P xs ys"
  using assms
proof (induction xs)
  case (Cons x xs)
  then obtain y where y: "f x = Ok y" "P x y" by force
  moreover obtain ys where "map_outcome f xs = Ok ys" "list_all2 P xs ys" using Cons by force
  ultimately show ?case by simp
qed simp

lemma trim_front_bounds:
  "until \<le> length bs \<Longrightarrow> from \<le> until \<Longrightarrow>
     \<exists>n. trim_front bs from until = Ok n \<and> from \<le> n \<and> n \<le> until"
proof (induction bs "from" until rule: trim_front.induct)
  case (1 bs a b)
  show ?case
  proof (cases "a < b \<and> is_ascii_whitespace (bs ! a)")
    case True
    then have "get_at bs a = Some (bs ! a)" using 1 by (simp add: get_at_def)
    moreover obtain n where "trim_front bs (a + 1) b = Ok n" "a + 1 \<le> n" "n \<le> b"
      using 1 True \<open>get_at bs a = Some (bs ! a)\<close> by force
    ultimately show ?thesis using True by (subst trim_front.simps) auto
  next
    case False
    then show ?thesis using 1(2,3) by (subst trim_front.simps) (auto simp: get_at_def)
  qed
qed

lemma trim_back_bounds:
  "until \<le> length bs \<Longrightarrow> from \<le> until \<Longrightarrow>
     \<exists>n. trim_back bs from until = Ok n \<and> from \<le> n \<and> n \<le> until"
proof (induction bs "from" until rule: trim_back.induct)
  case (2 bs a n)
  show ?case
  proof (cases "a < Suc n \<and> is_ascii_whitespace (bs ! n)")
    case True
    have g: "get_at bs n = Some (bs ! n)" using 2 by (simp add: get_at_def)
    then obtain k where "trim_back bs a n = Ok k" "a \<le> k" "k \<le> n"
      using 2 True by force
    then show ?thesis using g True by auto
  next
    case False
    then show ?thesis using 2(2,3) by (auto simp: get_at_def)
  qed
qed simp

lemma and_flag_cases: "w AND FLAG = 0 \<or> w AND FLAG = FLAG"
  proof (cases "bit w 63")
  case True
  then have "w AND FLAG = FLAG" by (auto intro!: bit_word_eqI simp: bit_simps flag_bits)
  then show ?thesis ..
next
  case False
  then have "w AND FLAG = 0" by (auto intro!: bit_word_eqI simp: bit_simps flag_bits)
  then show ?thesis ..
qed

text \<open>
  Trimming a span that fits never panics, and what is left fits, keeps its marks and lies inside
  what was there.
\<close>

lemma span_trim_fits:
  assumes "storage_wf st" "span_fits st s" "input_len st \<le> length input"
  shows "\<exists>s'. span_trim_ascii input (ss_scratch st) s = Ok s' \<and> span_fits st s' \<and>
    span_source s' = span_source s \<and> span_is_quoted s' = span_is_quoted s \<and>
    span_is_null s' = span_is_null s \<and> span_start s \<le> span_start s' \<and> span_end s' \<le> span_end s \<and>
    (\<not> span_is_null s \<longrightarrow>
       (let bs = (case span_source s of FromInput \<Rightarrow> input | FromScratch \<Rightarrow> ss_scratch st)
        in trim_front bs (span_start s) (span_end s) = Ok (span_start s') \<and>
           trim_back bs (span_start s') (span_end s) = Ok (span_end s')))"
proof (cases "span_is_null s")
  case True
  then show ?thesis using assms by (simp add: span_trim_ascii_def)
next
  case False
  let ?bs = "case span_source s of FromInput \<Rightarrow> input | FromScratch \<Rightarrow> ss_scratch st"
  have fit: "span_start s \<le> span_end s" "span_end s \<le> length ?bs" "span_end s \<le> MAX_OFFSET"
    using assms by (auto simp: span_fits_def source_len_def split: source.splits)
  obtain a where a: "trim_front ?bs (span_start s) (span_end s) = Ok a" "span_start s \<le> a" "a \<le> span_end s"
    using trim_front_bounds [OF fit(2,1)] by blast
  obtain b where b: "trim_back ?bs a (span_end s) = Ok b" "a \<le> b" "b \<le> span_end s"
    using trim_back_bounds [OF fit(2) a(3)] by blast
  let ?s = "\<lparr>sp_start = of_nat a OR (sp_start s AND FLAG), sp_end = of_nat b OR (sp_end s AND FLAG)\<rparr>"
  have eq: "?s = from_range_unchecked (span_source s) a b (span_is_quoted s)"
    using and_flag_cases [of "sp_start s"] and_flag_cases [of "sp_end s"] flags_nonzero
    by (auto simp: from_range_unchecked_def span_source_def span_is_quoted_def)
  have off: "a \<le> MAX_OFFSET" "b \<le> MAX_OFFSET" using a b fit by auto
  show ?thesis
    using a b False fit assms(2)
    by (auto simp: span_trim_ascii_def Let_def eq span_of_range [OF off] span_fits_def off)
qed

lemma resolve_span_fits:
  assumes "span_fits st s" "input_len st \<le> length input"
  shows "resolve_span input (ss_scratch st) s =
    Some (slice (case span_source s of FromInput \<Rightarrow> input | FromScratch \<Rightarrow> ss_scratch st) (span_start s) (span_end s))"
  using assms by (auto simp: resolve_span_def get_range_def span_fits_def source_len_def split: source.splits)

lemma resolved_entries_wf:
  assumes "storage_wf st" "input_len st \<le> length input"
  shows "\<exists>es. resolved_entries input st = Ok es \<and> length es = length (ss_spans st) \<and>
    (\<forall>e \<in> set es. fst e \<noteq> None)"
  using assms resolve_span_fits [OF _ assms(2)] by (auto simp: resolved_entries_def storage_wf_def)

lemma passes_keep_wf:
  assumes "storage_wf st" "list_all2 (\<lambda>s s'. span_fits st s') (ss_spans st) spans"
  shows "storage_wf (st\<lparr>ss_spans := spans\<rparr>)" "length spans = length (ss_spans st)"
  using assms by (auto simp: storage_wf_def list_all2_conv_all_nth in_set_conv_nth)

lemma trim_ascii_where_wf:
  assumes "storage_wf st" "input_len st \<le> length input"
  shows "\<exists>spans. trim_ascii_where input should_trim st = Ok (st\<lparr>ss_spans := spans\<rparr>) \<and>
    storage_wf (st\<lparr>ss_spans := spans\<rparr>) \<and>
    list_all2 (\<lambda>s s'. span_is_null s' = span_is_null s \<and> span_end s' - span_start s' \<le> span_end s - span_start s)
      (ss_spans st) spans"
proof -
  let ?f = "\<lambda>s. if should_trim (span_is_quoted s) then span_trim_ascii input (ss_scratch st) s else Ok s"
  let ?P = "\<lambda>s s'. span_fits st s' \<and> span_is_null s' = span_is_null s \<and>
    span_end s' - span_start s' \<le> span_end s - span_start s"
  have "\<exists>s'. ?f s = Ok s' \<and> ?P s s'" if "s \<in> set (ss_spans st)" for s
    using span_trim_fits [OF assms(1) _ assms(2), of s] that assms(1)
    by (force simp: storage_wf_def intro: diff_le_mono2 order_trans diff_le_mono)
  then obtain spans where spans: "map_outcome ?f (ss_spans st) = Ok spans" "list_all2 ?P (ss_spans st) spans"
    using map_outcome_all [of "ss_spans st" ?f ?P] by blast
  have "storage_wf (st\<lparr>ss_spans := spans\<rparr>)"
    by (rule passes_keep_wf(1) [OF assms(1)]) (use spans(2) in \<open>auto elim: list_all2_mono\<close>)
  then show ?thesis
    using spans assms(2) by (auto simp: trim_ascii_where_def elim: list_all2_mono)
qed

lemma from_valid_null_fits:
  assumes "storage_wf st" "span_fits st s" "span_source s = FromInput"
  shows "\<exists>s'. from_valid_null FromInput (span_start s) = Ok s' \<and> span_fits st s' \<and> span_is_null s' \<and>
    span_start s' = span_start s \<and> span_end s' = span_start s"
proof -
  have "span_start s \<le> MAX_OFFSET" using assms(2) by (simp add: span_fits_def)
  then show ?thesis
    using span_of_null [of "span_start s"] assms by (force simp: span_fits_def)
qed

lemma mark_input_nulls_wf:
  assumes "storage_wf st" "input_len st \<le> length input"
  shows "\<exists>spans. mark_input_nulls input is_null st = Ok (st\<lparr>ss_spans := spans\<rparr>) \<and>
    storage_wf (st\<lparr>ss_spans := spans\<rparr>) \<and>
    list_all2 (\<lambda>s s'. s' = s \<or> span_is_null s' \<and> span_end s' = span_start s') (ss_spans st) spans"
proof -
  let ?f = "\<lambda>s. if \<not> span_is_quoted s \<and> span_source s = FromInput then
      (case get_range input (span_start s) (span_end s) of
         None \<Rightarrow> Panic
       | Some field \<Rightarrow> if is_null field then from_valid_null FromInput (span_start s) else Ok s)
    else Ok s"
  let ?P = "\<lambda>s s'. span_fits st s' \<and> (s' = s \<or> span_is_null s' \<and> span_end s' = span_start s')"
  have "\<exists>s'. ?f s = Ok s' \<and> ?P s s'" if "s \<in> set (ss_spans st)" for s
  proof -
    have fit: "span_fits st s" using that assms(1) by (simp add: storage_wf_def)
    show ?thesis
    proof (cases "\<not> span_is_quoted s \<and> span_source s = FromInput")
      case True
      then have "get_range input (span_start s) (span_end s) \<noteq> None"
        using fit assms(2) by (auto simp: get_range_def span_fits_def source_len_def)
      then show ?thesis using True fit from_valid_null_fits [OF assms(1) fit] by auto
    qed (use fit in auto)
  qed
  then obtain spans where spans: "map_outcome ?f (ss_spans st) = Ok spans" "list_all2 ?P (ss_spans st) spans"
    using map_outcome_all [of "ss_spans st" ?f ?P] by blast
  have "storage_wf (st\<lparr>ss_spans := spans\<rparr>)"
    by (rule passes_keep_wf(1) [OF assms(1)]) (use spans(2) in \<open>auto elim: list_all2_mono\<close>)
  then show ?thesis
    using spans assms(2) by (auto simp: mark_input_nulls_def elim: list_all2_mono)
qed

section \<open>What trimming leaves\<close>

definition trim_ascii :: "bytes \<Rightarrow> bytes" where
  "trim_ascii bs = rev (dropWhile is_ascii_whitespace (rev (dropWhile is_ascii_whitespace bs)))"

lemma slice_Suc_left: "a < b \<Longrightarrow> b \<le> length xs \<Longrightarrow> slice xs a b = xs ! a # slice xs (Suc a) b"
  by (simp add: slice_def Cons_nth_drop_Suc [symmetric] Suc_diff_Suc [symmetric])

lemma slice_Suc_right: "a \<le> n \<Longrightarrow> n < length xs \<Longrightarrow> slice xs a (Suc n) = slice xs a n @ [xs ! n]"
  by (simp add: slice_def Suc_diff_le take_Suc_conv_app_nth)

lemma trim_front_drops:
  "until \<le> length bs \<Longrightarrow> from \<le> until \<Longrightarrow> trim_front bs from until = Ok n \<Longrightarrow>
     slice bs n until = dropWhile is_ascii_whitespace (slice bs from until)"
proof (induction bs "from" until rule: trim_front.induct)
  case (1 bs a b)
  show ?case
  proof (cases "a < b")
    case True
    then have g: "get_at bs a = Some (bs ! a)" using 1 by (simp add: get_at_def)
    show ?thesis
      using 1 True g by (simp add: trim_front.simps [of bs a b] slice_Suc_left split: if_splits)
  next
    case False
    then show ?thesis using 1(4) by (simp add: trim_front.simps [of bs a b])
  qed
qed

lemma trim_back_drops:
  "until \<le> length bs \<Longrightarrow> from \<le> until \<Longrightarrow> trim_back bs from until = Ok n \<Longrightarrow>
     slice bs from n = rev (dropWhile is_ascii_whitespace (rev (slice bs from until)))"
proof (induction bs "from" until rule: trim_back.induct)
  case (2 bs a n')
  show ?case
  proof (cases "a < Suc n'")
    case True
    then have g: "get_at bs n' = Some (bs ! n')" using 2 by (simp add: get_at_def)
    show ?thesis using 2 True g by (auto simp: slice_Suc_right split: if_splits)
  next
    case False
    then show ?thesis using 2(3,4) by simp
  qed
qed simp

section \<open>What every storage operation promises\<close>

text \<open>
  The contract between the storage and the parser that fills it: an operation over the bound input
  leaves a well-formed storage bound to the same input.
\<close>

locale storage_operation =
  fixes op :: "bytes \<Rightarrow> span_storage \<Rightarrow> span_storage option"
  assumes op_wf: "storage_wf st \<Longrightarrow> input_len st = length input \<Longrightarrow> op input st = Some st' \<Longrightarrow> storage_wf st'"
    and op_bound: "storage_wf st \<Longrightarrow> input_len st = length input \<Longrightarrow> op input st = Some st' \<Longrightarrow>
      input_len st' = length input"
begin

lemma op_resolves:
  assumes "storage_wf st" "input_len st = length input" "op input st = Some st'"
  shows "\<exists>es. resolved_entries input st' = Ok es \<and> (\<forall>e \<in> set es. fst e \<noteq> None)"
  using resolved_entries_wf [OF op_wf [OF assms]] op_bound [OF assms] by force

end

text \<open>A result that may panic, as an operation that may refuse.\<close>

definition accepted :: "'a outcome \<Rightarrow> 'a option" where
  "accepted r = (case r of Ok x \<Rightarrow> Some x | _ \<Rightarrow> None)"

lemma accepted_Some_iff [simp]: "accepted r = Some x \<longleftrightarrow> r = Ok x"
  by (cases r) (auto simp: accepted_def)

interpretation push_input: storage_operation
  "\<lambda>_. try_push_input_bounded from until quoted max_fields max_field_bytes"
  by unfold_locales (auto dest: try_push_input_wf)

interpretation push_scratch: storage_operation
  "\<lambda>_. try_push_scratch_bounded from until quoted max_fields max_field_bytes"
  by unfold_locales (auto dest: try_push_scratch_wf)

interpretation push_null: storage_operation "\<lambda>_ st. accepted (storage_push_null n st)"
proof
  fix st input st'
  assume st: "storage_wf st" "input_len st = length (input :: bytes)" "accepted (storage_push_null n st) = Some st'"
  then have n: "n \<le> input_len st"
    by (auto simp: storage_push_null_def bind_outcome_Ok_iff assert_that_def split: if_splits)
  obtain s where "storage_push_null n st = Ok (st\<lparr>ss_spans := ss_spans st @ [s]\<rparr>)"
    "storage_wf (st\<lparr>ss_spans := ss_spans st @ [s]\<rparr>)"
    using storage_push_null_wf [OF st(1) n] by metis
  then show "storage_wf st'" "input_len st' = length input" using st by auto
qed

interpretation add_scratch: storage_operation "\<lambda>_ st. Some (scratch_extend bs st)"
  by unfold_locales (auto simp: scratch_extend_wf, simp add: scratch_extend_def input_len_def)

interpretation add_scratch_byte: storage_operation "\<lambda>_ st. Some (scratch_push b st)"
  by unfold_locales (auto simp: scratch_push_wf, simp add: scratch_push_def input_len_def)

interpretation clear: storage_operation "\<lambda>_ st. Some (clear_spans st)"
  by unfold_locales (auto simp: clear_spans_wf, simp add: clear_spans_def)

interpretation trimming: storage_operation
  "\<lambda>input st. accepted (trim_ascii_where input should_trim st)"
  by unfold_locales (use trim_ascii_where_wf [where should_trim = should_trim] in force)+

interpretation marking: storage_operation "\<lambda>input st. accepted (mark_input_nulls input is_null st)"
  by unfold_locales (use mark_input_nulls_wf [where is_null = is_null] in force)+

section \<open>Every resolution is defined\<close>

text \<open>The storages a parser can build over one input.\<close>

inductive storage_run :: "bytes \<Rightarrow> span_storage \<Rightarrow> bool" for input where
  run_begin: "storage_begin input max_offset st = Some st' \<Longrightarrow> storage_run input st'"
| run_push_input: "storage_run input st \<Longrightarrow>
    try_push_input_bounded from until quoted mf mb st = Some st' \<Longrightarrow> storage_run input st'"
| run_push_scratch: "storage_run input st \<Longrightarrow>
    try_push_scratch_bounded from until quoted mf mb st = Some st' \<Longrightarrow> storage_run input st'"
| run_push_null: "storage_run input st \<Longrightarrow> storage_push_null n st = Ok st' \<Longrightarrow> storage_run input st'"
| run_extend: "storage_run input st \<Longrightarrow> storage_run input (scratch_extend bs st)"
| run_push: "storage_run input st \<Longrightarrow> storage_run input (scratch_push b st)"
| run_clear_spans: "storage_run input st \<Longrightarrow> storage_run input (clear_spans st)"
| run_trim: "storage_run input st \<Longrightarrow> trim_ascii_where input f st = Ok st' \<Longrightarrow> storage_run input st'"
| run_mark: "storage_run input st \<Longrightarrow> mark_input_nulls input g st = Ok st' \<Longrightarrow> storage_run input st'"

lemma storage_run_wf: "storage_run input st \<Longrightarrow> storage_wf st \<and> input_len st = length input"
proof (induction rule: storage_run.induct)
  case (run_begin max_offset st st')
  then show ?case using storage_begin_wf by blast
next
  case run_push_input
  then show ?case using push_input.op_wf push_input.op_bound by blast
next
  case run_push_scratch
  then show ?case using push_scratch.op_wf push_scratch.op_bound by blast
next
  case (run_push_null st n st')
  then show ?case using push_null.op_wf push_null.op_bound accepted_Some_iff by metis
next
  case run_extend
  then show ?case using add_scratch.op_wf add_scratch.op_bound by blast
next
  case run_push
  then show ?case using add_scratch_byte.op_wf add_scratch_byte.op_bound by blast
next
  case run_clear_spans
  then show ?case using clear.op_wf clear.op_bound by blast
next
  case (run_trim st f st')
  then show ?case using trimming.op_wf trimming.op_bound accepted_Some_iff by metis
next
  case (run_mark st g st')
  then show ?case using marking.op_wf marking.op_bound accepted_Some_iff by metis
qed

text \<open>
  C34: Whatever sequence of pushes, NULL marks, scratch writes, trims and resets built a span storage
  over an input, resolving every span against that input with the unchecked slice access is
  defined: no field can reach outside the input or the scratch buffer.
\<close>

theorem storage_resolution_defined:
  assumes "storage_run input st"
  shows "\<exists>es. resolved_entries input st = Ok es \<and> length es = storage_len st \<and> (\<forall>e \<in> set es. fst e \<noteq> None)"
  using resolved_entries_wf [of st input] storage_run_wf [OF assms] by (auto simp: storage_len_def)

text \<open>
  A storage over two bytes, built as an accepted record is: a field lent from the input, an unescaped
  field in the scratch buffer, and a NULL.
\<close>

definition sample_storage :: span_storage where
  "sample_storage = \<lparr>ss_spans = [from_range_unchecked FromInput 0 2 False, from_range_unchecked FromScratch 0 1 True,
     \<lparr>sp_start = of_nat 2 OR NULL_FLAG, sp_end = of_nat 2\<rparr>], ss_scratch = [7], ss_input_bound = 3\<rparr>"

lemma sample_storage_run: "storage_run [1, 2] sample_storage"
proof -
  let ?st0 = "\<lparr>ss_spans = [], ss_scratch = [], ss_input_bound = 3\<rparr>"
  let ?in = "from_range_unchecked FromInput 0 2 False" and ?scr = "from_range_unchecked FromScratch 0 1 True"
  have "storage_run [1, 2] ?st0"
    by (rule run_begin [of "[1, 2]" MAX_OFFSET storage_with_capacity])
      (simp add: storage_begin_def storage_with_capacity_def bounded_offset_def max_offset_value)
  then have "storage_run [1, 2] (?st0\<lparr>ss_spans := [?in]\<rparr>)"
    by (rule run_push_input [of _ _ 0 2 False 9 9]) (simp add: try_push_input_bounded_def storage_len_def input_len_def)
  then have "storage_run [1, 2] (scratch_push 7 (?st0\<lparr>ss_spans := [?in]\<rparr>))" by (rule run_push)
  then have "storage_run [1, 2] ((scratch_push 7 (?st0\<lparr>ss_spans := [?in]\<rparr>))\<lparr>ss_spans := [?in, ?scr]\<rparr>)"
    by (rule run_push_scratch [of _ _ 0 1 True 9 9])
      (simp add: try_push_scratch_bounded_def storage_len_def input_len_def scratch_push_def)
  then show ?thesis
    by (rule run_push_null [of _ _ 2])
      (simp add: storage_push_null_def from_valid_null_def input_len_def scratch_push_def sample_storage_def max_offset_value)
qed

theorem storage_resolution_defined_witness:
  "map span_source (ss_spans sample_storage) = [FromInput, FromScratch, FromInput] \<and>
   (\<exists>es. resolved_entries [1, 2] sample_storage = Ok es \<and> length es = 3 \<and> (\<forall>e \<in> set es. fst e \<noteq> None))"
proof -
  have "map span_source (ss_spans sample_storage) = [FromInput, FromScratch, FromInput]"
    using span_of_null [of 2] by (simp add: sample_storage_def span_of_range max_offset_value from_valid_null_def)
  then show ?thesis
    using storage_resolution_defined [OF sample_storage_run] by (simp add: sample_storage_def storage_len_def numeral_3_eq_3)
qed

text \<open>
  C35: Packing loses nothing: for offsets up to \<open>MAX_OFFSET\<close> a span reads back the buffer, the bounds
  and the quoted mark it was built from, and a NULL span reads back as an empty, unquoted, NULL field.
\<close>

theorem span_packing_roundtrip:
  assumes "from \<le> MAX_OFFSET" "until \<le> MAX_OFFSET"
  shows "span_source (from_range_unchecked src from until quoted) = src \<and>
    span_start (from_range_unchecked src from until quoted) = from \<and>
    span_end (from_range_unchecked src from until quoted) = until \<and>
    span_is_quoted (from_range_unchecked src from until quoted) = quoted \<and>
    \<not> span_is_null (from_range_unchecked src from until quoted) \<and>
    (\<exists>s. from_valid_null FromInput from = Ok s \<and> span_is_null s \<and> span_start s = from \<and> span_end s = from \<and>
      \<not> span_is_quoted s)"
  using span_of_range [OF assms] span_of_null [OF assms(1)] by blast

theorem span_packing_roundtrip_witness:
  "span_end (from_range_unchecked FromScratch 3 (2 ^ 62 - 1) True) = 2 ^ 62 - 1"
  using span_packing_roundtrip [of 3 "2 ^ 62 - 1" FromScratch True] by (simp add: max_offset_value)

text \<open>
  C37: Trimming a field leaves the bytes of the field without the ASCII whitespace around it, and
  never panics.
\<close>

theorem trimmed_span_bytes:
  assumes "storage_wf st" "s \<in> set (ss_spans st)" "input_len st \<le> length input" "\<not> span_is_null s"
  shows "\<exists>s'. span_trim_ascii input (ss_scratch st) s = Ok s' \<and>
    resolve_span input (ss_scratch st) s' = map_option trim_ascii (resolve_span input (ss_scratch st) s)"
proof -
  let ?bs = "case span_source s of FromInput \<Rightarrow> input | FromScratch \<Rightarrow> ss_scratch st"
  have fit: "span_fits st s" using assms by (simp add: storage_wf_def)
  have len: "span_end s \<le> length ?bs" "span_start s \<le> span_end s"
    using fit assms(3) by (auto simp: span_fits_def source_len_def split: source.splits)
  obtain s' where s': "span_trim_ascii input (ss_scratch st) s = Ok s'" "span_fits st s'"
    "span_source s' = span_source s" "trim_front ?bs (span_start s) (span_end s) = Ok (span_start s')"
    "trim_back ?bs (span_start s') (span_end s) = Ok (span_end s')"
    using span_trim_fits [OF assms(1) fit assms(3)] assms(4) by (auto simp: Let_def)
  have mid: "span_start s' \<le> span_end s"
    using trim_front_bounds [OF len] s'(4) by auto
  have "slice ?bs (span_start s') (span_end s') = trim_ascii (slice ?bs (span_start s) (span_end s))"
    using trim_back_drops [OF len(1) mid s'(5)] trim_front_drops [OF len s'(4)] by (simp add: trim_ascii_def)
  then show ?thesis
    using s' resolve_span_fits [OF fit assms(3)] resolve_span_fits [OF s'(2) assms(3)] by simp
qed

theorem trimmed_span_bytes_witness:
  "\<exists>s'. span_trim_ascii [32, 65, 32] [] (from_range_unchecked FromInput 0 3 False) = Ok s' \<and>
    resolve_span [32, 65, 32] [] s' = Some [65]"
proof -
  have off: "(0 :: nat) \<le> MAX_OFFSET" "(3 :: nat) \<le> MAX_OFFSET" by (simp_all add: max_offset_value)
  let ?s = "from_range_unchecked FromInput 0 3 False"
  let ?st = "\<lparr>ss_spans = [?s], ss_scratch = [], ss_input_bound = 4\<rparr>"
  have wf: "storage_wf ?st" "?s \<in> set (ss_spans ?st)" "input_len ?st \<le> length [32, 65, 32 :: byte]"
    by (simp_all add: storage_wf_def span_fits_def span_of_range [OF off] source_len_def input_len_def
        max_offset_value)
  have "resolve_span [32, 65, 32] [] ?s = Some [32, 65, 32]"
    by (simp add: resolve_span_def span_of_range [OF off] get_range_def slice_def)
  moreover have "trim_ascii [32, 65, 32] = [65]" by (simp add: trim_ascii_def is_ascii_whitespace_def)
  ultimately show ?thesis
    using trimmed_span_bytes [OF wf] span_of_range(5) [OF off] by auto
qed

end
