(* ===== verification/Engine.thy ===== *)
theory Engine
  imports Config Search Spans
begin

text \<open>
  The parsing engine (\<open>coseva/src/engine.rs\<close>, \<open>engine/construct.rs\<close>, \<open>engine/format_access.rs\<close>,
  \<open>engine/limits.rs\<close>): its state, its construction from parser settings, the format accessors and
  the limit checks. A format parameter \<open>F: CsvFormat\<close> is a \<open>format_options option\<close>: \<open>None\<close> is
  \<open>Dynamic\<close>, which reads the engine's own configuration.

  The fields the record parser does not read (headers and typed mappings, the cursor's own latches
  and the filter state) are added by the theories that use them; those of the owned-record parsers and
  their predictors are left out. On x86-64 only, a CSV engine with the default limits first tries the two vectorised
  default-CSV parsers; the model is the build for the other targets, where the code compiles without
  them. Counters of records and lines are unbounded.
\<close>

section \<open>State\<close>

datatype format_kind = KindCsv | KindTsv | KindOther

record resume_state =
  rs_record_start :: nat
  rs_scanned_to :: nat
  rs_field_start :: nat
  rs_in_quotes :: bool
  rs_ignored :: bool

definition NO_OFFSET :: nat where "NO_OFFSET = usize_max"

definition resume_new :: resume_state where
  "resume_new = \<lparr>rs_record_start = NO_OFFSET, rs_scanned_to = NO_OFFSET, rs_field_start = NO_OFFSET,
     rs_in_quotes = False, rs_ignored = False\<rparr>"

definition resume_fresh :: "nat \<Rightarrow> resume_state" where
  "resume_fresh record_start = \<lparr>rs_record_start = record_start, rs_scanned_to = record_start,
     rs_field_start = record_start, rs_in_quotes = False, rs_ignored = False\<rparr>"

definition resume_ignored :: "nat \<Rightarrow> nat \<Rightarrow> resume_state" where
  "resume_ignored record_start scanned_to = \<lparr>rs_record_start = record_start, rs_scanned_to = scanned_to,
     rs_field_start = record_start, rs_in_quotes = False, rs_ignored = True\<rparr>"

record engine =
  en_location :: nat
  en_line_base :: nat
  en_line_origin :: nat
  en_folded_upto :: nat
  en_folded_lines :: nat
  en_record_index :: nat
  en_dialect :: dialect
  en_format_kind :: format_kind
  en_limits :: limits
  en_field_count :: field_count
  en_expected :: "nat option"
  en_trim :: whitespace
  en_blank_records :: blank_records
  en_syntax :: csv_syntax
  en_skip_initial_space :: bool
  en_nulls :: nulls
  en_general_parsing :: bool
  en_plain_kernel :: bool
  en_record_pass :: bool
  en_skips_records :: bool
  en_spans :: span_storage
  en_resume :: resume_state
  en_failed :: bool
  en_terminated :: bool

text \<open>The settings a parser is built from; header settings are not part of the model.\<close>

record parser_settings =
  ps_dialect :: dialect
  ps_limits :: limits
  ps_field_count :: field_count
  ps_trim :: whitespace
  ps_blank_records :: blank_records
  ps_bom :: read_bom
  ps_syntax :: csv_syntax
  ps_nulls :: nulls
  ps_skip_initial_space :: bool
  ps_format_tag :: format_tag

definition format_agrees :: "format_options \<Rightarrow> parser_settings \<Rightarrow> bool" where
  "format_agrees f s \<longleftrightarrow>
     fo_dialect f = ps_dialect s \<and> fo_syntax f = ps_syntax s \<and> fo_nulls f = ps_nulls s \<and>
     fo_trim f = ps_trim s \<and> fo_blank_records f = ps_blank_records s \<and>
     fo_skip_initial_space f = ps_skip_initial_space s"

definition kind_by_comparison :: "parser_settings \<Rightarrow> format_kind" where
  "kind_by_comparison s =
     (if format_agrees FORMAT_CSV s then KindCsv
      else if format_agrees FORMAT_TSV s then KindTsv else KindOther)"

definition kind_of :: "parser_settings \<Rightarrow> format_kind" where
  "kind_of s =
     (case ps_format_tag s of
        TagCsv \<Rightarrow> KindCsv | TagTsv \<Rightarrow> KindTsv | TagCustom \<Rightarrow> kind_by_comparison s | _ \<Rightarrow> KindOther)"

definition needs_general_parsing :: "dialect \<Rightarrow> whitespace \<Rightarrow> bool" where
  "needs_general_parsing d trim \<longleftrightarrow>
     record_ending d = CrLf \<or> escapes_unquoted (escape d) \<or> multibyte d \<or> ws_exempts_quoted trim"

definition plain_kernel :: "parser_settings \<Rightarrow> bool" where
  "plain_kernel s \<longleftrightarrow> \<not> ps_skip_initial_space s \<and> \<not> multibyte (ps_dialect s)"

definition needs_record_pass :: "dialect \<Rightarrow> nulls \<Rightarrow> bool" where
  "needs_record_pass d n \<longleftrightarrow> n \<noteq> NullsNone \<or> record_ending d = CrLf"

text \<open>\<open>from_config\<close> without headers; the byte-order mark is stepped over here.\<close>

definition engine_from_config :: "bytes \<Rightarrow> parser_settings \<Rightarrow> engine" where
  "engine_from_config input s =
     \<lparr>en_location = (if ps_bom s = BomDetect \<and> starts_with input BOM then 1 else 0) * 3,
      en_line_base = 1, en_line_origin = 0, en_folded_upto = 0, en_folded_lines = 0,
      en_record_index = 0, en_dialect = ps_dialect s, en_format_kind = kind_of s,
      en_limits = ps_limits s, en_field_count = ps_field_count s, en_expected = None,
      en_trim = ps_trim s, en_blank_records = ps_blank_records s, en_syntax = ps_syntax s,
      en_skip_initial_space = ps_skip_initial_space s, en_nulls = ps_nulls s,
      en_general_parsing = needs_general_parsing (ps_dialect s) (ps_trim s),
      en_plain_kernel = plain_kernel s,
      en_record_pass = needs_record_pass (ps_dialect s) (ps_nulls s),
      en_skips_records = (comment (ps_dialect s) \<noteq> None \<or> ps_blank_records s = BlankSkip),
      en_spans = storage_with_capacity, en_resume = resume_new, en_failed = False,
      en_terminated = False\<rparr>"

section \<open>Format accessors\<close>

definition fmt_delimiter :: "format_options option \<Rightarrow> engine \<Rightarrow> byte" where
  "fmt_delimiter opts e = (case opts of Some f \<Rightarrow> delimiter (fo_dialect f) | None \<Rightarrow> delimiter (en_dialect e))"

definition fmt_quote :: "format_options option \<Rightarrow> engine \<Rightarrow> byte" where
  "fmt_quote opts e = (case opts of Some f \<Rightarrow> quote (fo_dialect f) | None \<Rightarrow> quote (en_dialect e))"

definition fmt_terminator :: "format_options option \<Rightarrow> engine \<Rightarrow> byte" where
  "fmt_terminator opts e =
     (case opts of Some f \<Rightarrow> ending_byte (record_ending (fo_dialect f))
      | None \<Rightarrow> ending_byte (record_ending (en_dialect e)))"

definition fmt_delimiter_tail :: "format_options option \<Rightarrow> engine \<Rightarrow> tail" where
  "fmt_delimiter_tail opts e =
     (case opts of Some f \<Rightarrow> delimiter_tail (fo_dialect f) | None \<Rightarrow> delimiter_tail (en_dialect e))"

definition fmt_ending_tail :: "format_options option \<Rightarrow> engine \<Rightarrow> tail" where
  "fmt_ending_tail opts e =
     (case opts of Some f \<Rightarrow> ending_tail (fo_dialect f) | None \<Rightarrow> ending_tail (en_dialect e))"

definition strips_cr :: "record_ending \<Rightarrow> bool" where
  "strips_cr r \<longleftrightarrow> r = Newline \<or> r = CrLf"

definition fmt_strips_cr :: "format_options option \<Rightarrow> engine \<Rightarrow> bool" where
  "fmt_strips_cr opts e =
     (case opts of Some f \<Rightarrow> strips_cr (record_ending (fo_dialect f))
      | None \<Rightarrow> strips_cr (record_ending (en_dialect e)))"

definition fmt_quoting_enabled :: "format_options option \<Rightarrow> engine \<Rightarrow> bool" where
  "fmt_quoting_enabled opts e =
     (case opts of Some f \<Rightarrow> quoting_enabled (fo_syntax f) | None \<Rightarrow> quoting_enabled (en_syntax e))"

definition fmt_plain_kernel :: "format_options option \<Rightarrow> engine \<Rightarrow> bool" where
  "fmt_plain_kernel opts e =
     (case opts of Some f \<Rightarrow> \<not> fo_skip_initial_space f | None \<Rightarrow> en_plain_kernel e)"

definition fmt_unquoted_escape :: "format_options option \<Rightarrow> engine \<Rightarrow> byte option" where
  "fmt_unquoted_escape opts e =
     (case opts of Some f \<Rightarrow> unquoted_byte (escape (fo_dialect f)) | None \<Rightarrow> unquoted_byte (escape (en_dialect e)))"

definition fmt_record_pass :: "format_options option \<Rightarrow> engine \<Rightarrow> bool" where
  "fmt_record_pass opts e =
     (case opts of Some f \<Rightarrow> needs_record_pass (fo_dialect f) (fo_nulls f) | None \<Rightarrow> en_record_pass e)"

definition fmt_general_parsing :: "format_options option \<Rightarrow> engine \<Rightarrow> bool" where
  "fmt_general_parsing opts e =
     (case opts of Some f \<Rightarrow> needs_general_parsing (fo_dialect f) (fo_trim f) | None \<Rightarrow> en_general_parsing e)"

definition fmt_null_policy :: "format_options option \<Rightarrow> engine \<Rightarrow> nulls" where
  "fmt_null_policy opts e = (case opts of Some f \<Rightarrow> fo_nulls f | None \<Rightarrow> en_nulls e)"

definition fmt_escape :: "format_options option \<Rightarrow> engine \<Rightarrow> escape" where
  "fmt_escape opts e = (case opts of Some f \<Rightarrow> escape (fo_dialect f) | None \<Rightarrow> escape (en_dialect e))"

definition fmt_record_ending :: "format_options option \<Rightarrow> engine \<Rightarrow> record_ending" where
  "fmt_record_ending opts e =
     (case opts of Some f \<Rightarrow> record_ending (fo_dialect f) | None \<Rightarrow> record_ending (en_dialect e))"

definition fmt_permits_unquoted_quotes :: "format_options option \<Rightarrow> engine \<Rightarrow> bool" where
  "fmt_permits_unquoted_quotes opts e =
     (case opts of Some f \<Rightarrow> permits_unquoted_quotes (fo_syntax f) | None \<Rightarrow> permits_unquoted_quotes (en_syntax e))"

definition fmt_permits_any_backslash_escape :: "format_options option \<Rightarrow> engine \<Rightarrow> bool" where
  "fmt_permits_any_backslash_escape opts e =
     (case opts of Some f \<Rightarrow> permits_any_backslash_escape (fo_syntax f)
      | None \<Rightarrow> permits_any_backslash_escape (en_syntax e))"

definition fmt_permits_trailing_whitespace :: "format_options option \<Rightarrow> engine \<Rightarrow> bool" where
  "fmt_permits_trailing_whitespace opts e =
     (case opts of Some f \<Rightarrow> permits_trailing_whitespace (fo_syntax f)
      | None \<Rightarrow> permits_trailing_whitespace (en_syntax e))"

definition fmt_skip_initial_space :: "format_options option \<Rightarrow> engine \<Rightarrow> bool" where
  "fmt_skip_initial_space opts e =
     (case opts of Some f \<Rightarrow> fo_skip_initial_space f | None \<Rightarrow> en_skip_initial_space e)"

section \<open>Steps and errors\<close>

type_synonym ('s, 'a) act = "'s \<Rightarrow> 's \<times> 'a outcome"
type_synonym 'a step = "(engine, 'a) act"

definition bind_step :: "('s, 'a) act \<Rightarrow> ('a \<Rightarrow> ('s, 'b) act) \<Rightarrow> ('s, 'b) act" where
  "bind_step m f e =
     (case m e of (e', r) \<Rightarrow>
        (case r of Ok x \<Rightarrow> f x e' | Err er \<Rightarrow> (e', Err er) | Panic \<Rightarrow> (e', Panic)))"

definition return_step :: "'a \<Rightarrow> ('s, 'a) act" where "return_step x e = (e, Ok x)"

definition physical_line :: "bytes \<Rightarrow> nat \<Rightarrow> nat \<Rightarrow> nat \<Rightarrow> nat" where
  "physical_line input line_base line_origin at =
     (let until = min at (length input);
          prefix = slice input (min line_origin until) until
      in sat_add line_base (count1_scalar LF prefix))"

definition error_for :: "engine \<Rightarrow> bytes \<Rightarrow> error_kind \<Rightarrow> nat \<Rightarrow> nat \<Rightarrow> error" where
  "error_for e input kind at field =
     error_new kind \<lparr>loc_byte = at, loc_line = physical_line input (en_line_base e) (en_line_origin e) at,
       loc_record = en_record_index e, loc_field = field\<rparr>"

definition engine_error :: "engine \<Rightarrow> bytes \<Rightarrow> error_kind \<Rightarrow> nat \<Rightarrow> error" where
  "engine_error e input kind at = error_for e input kind at (storage_len (en_spans e))"

definition fail_at :: "bytes \<Rightarrow> error_kind \<Rightarrow> nat \<Rightarrow> 'a step" where
  "fail_at input kind at e = (e, Err (engine_error e input kind at))"

section \<open>Limits\<close>

definition validate_count :: "bytes \<Rightarrow> nat \<Rightarrow> unit step" where
  "validate_count input actual e =
     (let mismatch = (\<lambda>expected. if actual = expected then (e, Ok ())
            else (e, Err (engine_error e input (FieldCountMismatch expected actual) (en_location e))))
      in case en_field_count e of
           Flexible \<Rightarrow> (e, Ok ())
         | Exact expected \<Rightarrow> mismatch expected
         | MatchFirst \<Rightarrow>
             (case en_expected e of Some expected \<Rightarrow> mismatch expected
              | None \<Rightarrow> (e\<lparr>en_expected := Some actual\<rparr>, Ok ())))"

definition scan_end :: "engine \<Rightarrow> bytes \<Rightarrow> nat \<Rightarrow> nat \<Rightarrow> nat" where
  "scan_end e input record_start field_start =
     (let record_end = sat_add record_start (sat_add (max_record_bytes (en_limits e)) 1);
          field_end = sat_add field_start (sat_add (max_field_bytes (en_limits e)) 1)
      in min (length input) (min record_end field_end))"

text \<open>The subtraction underflows, a panic, when \<open>at\<close> precedes the record.\<close>

definition check_record_limit_for :: "bytes \<Rightarrow> nat \<Rightarrow> nat \<Rightarrow> nat \<Rightarrow> unit step" where
  "check_record_limit_for input record_start at field e =
     (if at < record_start then (e, Panic)
      else if max_record_bytes (en_limits e) < at - record_start
      then (e, Err (error_for e input (RecordTooLarge (max_record_bytes (en_limits e))) at field))
      else (e, Ok ()))"

definition check_record_limit :: "bytes \<Rightarrow> nat \<Rightarrow> nat \<Rightarrow> unit step" where
  "check_record_limit input record_start at e =
     check_record_limit_for input record_start at (storage_len (en_spans e)) e"

definition check_scan_end_for :: "bytes \<Rightarrow> nat \<Rightarrow> nat \<Rightarrow> nat \<Rightarrow> nat \<Rightarrow> unit step" where
  "check_scan_end_for input at record_start field_start field e =
     (if field_start \<le> at \<and> max_field_bytes (en_limits e) < at - field_start
      then (e, Err (error_for e input (FieldTooLarge (max_field_bytes (en_limits e))) at field))
      else check_record_limit_for input record_start at field e)"

definition check_scan_end :: "bytes \<Rightarrow> nat \<Rightarrow> nat \<Rightarrow> nat \<Rightarrow> unit step" where
  "check_scan_end input at record_start field_start e =
     check_scan_end_for input at record_start field_start (storage_len (en_spans e)) e"

definition check_scratch_limit_for :: "bytes \<Rightarrow> nat \<Rightarrow> nat \<Rightarrow> nat \<Rightarrow> nat \<Rightarrow> unit step" where
  "check_scratch_limit_for input scratch_start slen at field e =
     (if slen < scratch_start then (e, Panic)
      else if max_field_bytes (en_limits e) < slen - scratch_start
      then (e, Err (error_for e input (FieldTooLarge (max_field_bytes (en_limits e))) at field))
      else (e, Ok ()))"

definition check_scratch_limit :: "bytes \<Rightarrow> nat \<Rightarrow> nat \<Rightarrow> unit step" where
  "check_scratch_limit input scratch_start at e =
     check_scratch_limit_for input scratch_start (scratch_len (en_spans e)) at (storage_len (en_spans e)) e"

function skip_delimiter_spaces_loop :: "bytes \<Rightarrow> nat \<Rightarrow> nat \<Rightarrow> unit step" where
  "skip_delimiter_spaces_loop input record_start field e =
     (if get_at input (en_location e) = Some 32 then
        (let e' = e\<lparr>en_location := en_location e + 1\<rparr>
         in case check_record_limit_for input record_start (en_location e') field e' of
              (_, Ok _) \<Rightarrow> skip_delimiter_spaces_loop input record_start field e'
            | failed \<Rightarrow> failed)
      else (e, Ok ()))"
  by pat_completeness auto
termination
  by (relation "measure (\<lambda>(input, _, _, e). length input - en_location e)") (auto simp: get_at_Some_iff)

declare skip_delimiter_spaces_loop.simps [simp del]

definition skip_delimiter_spaces_for :: "format_options option \<Rightarrow> bytes \<Rightarrow> nat \<Rightarrow> nat \<Rightarrow> unit step" where
  "skip_delimiter_spaces_for opts input record_start field e =
     (if \<not> fmt_skip_initial_space opts e \<or> en_location e = record_start then (e, Ok ())
      else skip_delimiter_spaces_loop input record_start field e)"

definition skip_delimiter_spaces :: "format_options option \<Rightarrow> bytes \<Rightarrow> nat \<Rightarrow> unit step" where
  "skip_delimiter_spaces opts input record_start e =
     skip_delimiter_spaces_for opts input record_start (storage_len (en_spans e)) e"

end
