(* ===== verification/Parser.thy ===== *)
theory Parser
  imports Engine
begin

text \<open>
  The borrowed record parser (\<open>coseva/src/engine/borrowed_parser.rs\<close>): the general field loop with
  its unquoted and quoted parsers, and the plain kernel that takes records without quotes or escapes
  off the structural scan. Fields are pushed as spans of the input, or of the scratch buffer when an
  escape had to be removed. A slice the code forms out of range is \<open>Panic\<close>.
\<close>

section \<open>Pushing fields\<close>

definition note_terminated :: "engine \<Rightarrow> engine" where
  "note_terminated e = e\<lparr>en_terminated := True\<rparr>"

definition clear_terminated :: "engine \<Rightarrow> engine" where
  "clear_terminated e = e\<lparr>en_terminated := False\<rparr>"

definition span_limit_error :: "engine \<Rightarrow> bytes \<Rightarrow> nat \<Rightarrow> error" where
  "span_limit_error e input at =
     engine_error e input
       (if max_fields (en_limits e) \<le> storage_len (en_spans e) then TooManyFields (max_fields (en_limits e))
        else FieldTooLarge (max_field_bytes (en_limits e))) at"

definition push_span :: "bytes \<Rightarrow> source \<Rightarrow> nat \<Rightarrow> nat \<Rightarrow> nat \<Rightarrow> bool \<Rightarrow> unit step" where
  "push_span input src from until at quoted e =
     (case (case src of
              FromInput \<Rightarrow> try_push_input_bounded from until quoted (max_fields (en_limits e))
                (max_field_bytes (en_limits e)) (en_spans e)
            | FromScratch \<Rightarrow> try_push_scratch_bounded from until quoted (max_fields (en_limits e))
                (max_field_bytes (en_limits e)) (en_spans e)) of
        Some st \<Rightarrow> (e\<lparr>en_spans := st\<rparr>, Ok ())
      | None \<Rightarrow> (e, Err (span_limit_error e input at)))"

definition push_null_span :: "bytes \<Rightarrow> nat \<Rightarrow> unit step" where
  "push_null_span input at e =
     (if storage_len (en_spans e) = max_fields (en_limits e)
      then (e, Err (engine_error e input (TooManyFields (max_fields (en_limits e))) at))
      else case storage_push_null at (en_spans e) of
             Ok st \<Rightarrow> (e\<lparr>en_spans := st\<rparr>, Ok ())
           | Err er \<Rightarrow> (e, Err er)
           | Panic \<Rightarrow> (e, Panic))"

definition mysql_unescape_byte :: "byte \<Rightarrow> byte" where
  "mysql_unescape_byte b =
     (if b = 48 then 0 else if b = 98 then 8 else if b = 110 then LF else if b = 114 then CR
      else if b = 116 then TAB else if b = 90 then 26 else b)"

definition raw_field_is_null :: "nulls \<Rightarrow> bytes \<Rightarrow> bool" where
  "raw_field_is_null n raw =
     (case n of NullsNone \<Rightarrow> False | PostgresCsv \<Rightarrow> raw = [] | NullsMysql \<Rightarrow> raw = [BACKSLASH, LETTER_N])"

text \<open>The loop of \<open>push_unescaped_span\<close>, writing the unescaped bytes to the scratch buffer.\<close>

function unescape_into :: "bool \<Rightarrow> byte \<Rightarrow> bytes \<Rightarrow> nat \<Rightarrow> nat \<Rightarrow> nat \<Rightarrow> span_storage \<Rightarrow> span_storage" where
  "unescape_into mysql esc input segment_start cursor field_end st =
     (case find1 esc (slice input cursor field_end) of
        None \<Rightarrow> scratch_extend (slice input segment_start field_end) st
      | Some relative \<Rightarrow>
          let backslash = cursor + relative;
              st1 = scratch_extend (slice input segment_start backslash) st
          in if backslash + 1 < field_end then
               (let escaped = input ! (backslash + 1);
                    st2 = scratch_push (if mysql then mysql_unescape_byte escaped else escaped) st1
                in unescape_into mysql esc input (backslash + 2) (backslash + 2) field_end st2)
             else unescape_into mysql esc input (backslash + 1) (backslash + 1) field_end
                    (scratch_push esc st1))"
  by pat_completeness auto
termination
  by (relation "measure (\<lambda>(_, _, _, _, cursor, field_end, _). field_end - cursor)")
    (auto simp: find_simps dest!: position_less)

declare unescape_into.simps [simp del]

definition push_unescaped_span :: "bytes \<Rightarrow> byte \<Rightarrow> nat \<Rightarrow> nat \<Rightarrow> nat \<Rightarrow> unit step" where
  "push_unescaped_span input esc field_start field_end at e =
     (let mysql = (escape (en_dialect e) = EscapeMysql);
          scratch_start = scratch_len (en_spans e);
          e1 = e\<lparr>en_spans := unescape_into mysql esc input field_start field_start field_end (en_spans e)\<rparr>
      in bind_step (check_scratch_limit input scratch_start at) (\<lambda>_ e2.
           push_span input FromScratch scratch_start (scratch_len (en_spans e2)) at False e2) e1)"

definition push_general_unquoted_span :: "bytes \<Rightarrow> nat \<Rightarrow> nat \<Rightarrow> nat \<Rightarrow> bool \<Rightarrow> unit step" where
  "push_general_unquoted_span input field_start field_end at header e =
     (case get_range input field_start field_end of
        None \<Rightarrow> (e, Panic)
      | Some raw \<Rightarrow>
          if \<not> header \<and> en_nulls e = NullsMysql \<and> raw = [BACKSLASH, LETTER_N] then
            push_null_span input field_start e
          else if \<not> header \<and> en_nulls e = PostgresCsv \<and> raw = [] then
            push_null_span input field_start e
          else case unquoted_byte (escape (en_dialect e)) of
                 Some esc \<Rightarrow>
                   (if esc \<in> set raw then push_unescaped_span input esc field_start field_end at e
                    else push_span input FromInput field_start field_end at False e)
               | None \<Rightarrow> push_span input FromInput field_start field_end at False e)"

section \<open>Unquoted fields\<close>

definition earliest :: "nat option \<Rightarrow> nat option \<Rightarrow> nat option" where
  "earliest a b =
     (case (a, b) of
        (Some x, Some y) \<Rightarrow> Some (if x < y then x else y)
      | (Some x, None) \<Rightarrow> Some x
      | (None, Some y) \<Rightarrow> Some y
      | (None, None) \<Rightarrow> None)"

definition find_stop_byte :: "engine \<Rightarrow> bool \<Rightarrow> bytes \<Rightarrow> bool \<Rightarrow> byte \<Rightarrow> byte \<Rightarrow> byte option \<Rightarrow> nat option" where
  "find_stop_byte e extra_needle remaining allow_quote_search ending extra also =
     (let d = en_dialect e;
          found = (if extra_needle then
                     (if allow_quote_search then find4 (delimiter d) (quote d) ending extra remaining
                      else find3 (delimiter d) ending extra remaining)
                   else if allow_quote_search then find3 (delimiter d) (quote d) ending remaining
                   else find2 (delimiter d) ending remaining)
      in case also of Some esc \<Rightarrow> earliest found (find1 esc remaining) | None \<Rightarrow> found)"

definition resume_after_unquoted_escape :: "bytes \<Rightarrow> nat \<Rightarrow> nat" where
  "resume_after_unquoted_escape input at = (if get_at input (at + 1) \<noteq> None then at + 2 else at + 1)"

definition parse_unquoted_field_runtime ::
    "bytes \<Rightarrow> nat \<Rightarrow> byte \<Rightarrow> byte \<Rightarrow> byte \<Rightarrow> bool \<Rightarrow> bool \<Rightarrow> bool \<Rightarrow> bool step" where
  "parse_unquoted_field_runtime input record_start delim qt terminator quoting unquoted_quotes strip e =
     (let field_start = en_location e;
          scan_stop = scan_end e input record_start field_start
      in case get_range input field_start scan_stop of
           None \<Rightarrow> (e, Panic)
         | Some remaining \<Rightarrow>
             (case (if quoting \<and> \<not> unquoted_quotes then find3 delim qt terminator remaining
                    else find2 delim terminator remaining) of
                None \<Rightarrow>
                  bind_step (check_scan_end input scan_stop record_start field_start) (\<lambda>_.
                    bind_step (push_span input FromInput field_start scan_stop scan_stop False) (\<lambda>_ e'.
                      (clear_terminated (e'\<lparr>en_location := scan_stop\<rparr>), Ok True))) e
              | Some relative \<Rightarrow>
                  let at = field_start + relative; b = input ! at
                  in if b = qt then fail_at input UnexpectedQuote at e
                     else let terminated = (b = terminator);
                            field_end = (if terminated \<and> strip \<and> field_start < at \<and> input ! (at - 1) = CR
                                         then at - 1 else at)
                       in bind_step (push_span input FromInput field_start field_end at False) (\<lambda>_ e1.
                            let e2 = e1\<lparr>en_location := at + 1\<rparr>;
                                e3 = (if terminated then note_terminated e2 else e2)
                            in bind_step (check_record_limit input record_start (en_location e3))
                                 (\<lambda>_. return_step terminated) e3) e))"

lemma scan_end_le [simp]: "scan_end e input record_start field_start \<le> length input"
  by (simp add: scan_end_def Let_def)

lemma before_scan_end:
  "\<not> scan_end e input rs fs \<le> cursor \<Longrightarrow> cursor < scan_end e input rs fs \<and> cursor < length input"
  using scan_end_le [of e input rs fs] by linarith

text \<open>The locals \<open>general_unquoted_field\<close> computes once, before its loop.\<close>

definition allow_quote_search :: "engine \<Rightarrow> bool" where
  "allow_quote_search e \<longleftrightarrow> quoting_enabled (en_syntax e) \<and> \<not> permits_unquoted_quotes (en_syntax e)"

definition is_crlf :: "engine \<Rightarrow> bool" where
  "is_crlf e \<longleftrightarrow> record_ending (en_dialect e) = CrLf"

definition unquoted_escape :: "engine \<Rightarrow> byte option" where
  "unquoted_escape e = unquoted_byte (escape (en_dialect e))"

definition escape_or_backslash :: "engine \<Rightarrow> byte" where
  "escape_or_backslash e = (case unquoted_escape e of Some b \<Rightarrow> b | None \<Rightarrow> BACKSLASH)"

definition next_stop :: "engine \<Rightarrow> bool \<Rightarrow> bytes \<Rightarrow> nat option" where
  "next_stop e extra_needle remaining =
     find_stop_byte e extra_needle remaining (allow_quote_search e)
       (ending_byte (record_ending (en_dialect e)))
       (if is_crlf e then CR else escape_or_backslash e)
       (if is_crlf e \<and> unquoted_escape e \<noteq> None then Some (escape_or_backslash e) else None)"

text \<open>A field and, for \<open>ends\<close>, its record, that stop at \<open>at\<close>; the scan resumes at \<open>resume\<close>.\<close>

definition end_general_field ::
    "bytes \<Rightarrow> nat \<Rightarrow> bool \<Rightarrow> nat \<Rightarrow> nat \<Rightarrow> nat \<Rightarrow> nat \<Rightarrow> bool \<Rightarrow> bool step" where
  "end_general_field input record_start header field_start field_end at resume ends =
     bind_step (push_general_unquoted_span input field_start field_end at header) (\<lambda>_ e1.
       let e2 = e1\<lparr>en_location := resume\<rparr>;
           e3 = (if ends then note_terminated e2 else e2)
       in bind_step (check_record_limit input record_start (en_location e3)) (\<lambda>_. return_step ends) e3)"

text \<open>\<open>general_unquoted_field\<close>: the loop over stop bytes; the engine changes only on the way out.\<close>

function general_unquoted_loop :: "bool \<Rightarrow> bytes \<Rightarrow> nat \<Rightarrow> bool \<Rightarrow> nat \<Rightarrow> nat \<Rightarrow> engine \<Rightarrow> engine \<times> bool outcome" where
  "general_unquoted_loop extra_needle input record_start header field_start cursor e =
     (if scan_end e input record_start field_start \<le> cursor then
        (let scan_stop = scan_end e input record_start field_start
         in bind_step (check_scan_end input scan_stop record_start field_start) (\<lambda>_.
              bind_step (push_general_unquoted_span input field_start scan_stop scan_stop header) (\<lambda>_ e'.
                (clear_terminated (e'\<lparr>en_location := scan_stop\<rparr>), Ok True))) e)
      else case next_stop e extra_needle (slice input cursor (scan_end e input record_start field_start)) of
        None \<Rightarrow> general_unquoted_loop extra_needle input record_start header field_start
                  (scan_end e input record_start field_start) e
      | Some relative \<Rightarrow>
          (if unquoted_escape e = Some (input ! (cursor + relative)) then
             general_unquoted_loop extra_needle input record_start header field_start
               (resume_after_unquoted_escape input (cursor + relative)) e
           else if allow_quote_search e \<and> input ! (cursor + relative) = quote (en_dialect e) then
             fail_at input UnexpectedQuote (cursor + relative) e
           else if is_crlf e \<and> input ! (cursor + relative) = CR then
             (let at = cursor + relative
              in if get_at input (at + 1) = Some LF
                 then end_general_field input record_start header field_start at at (at + 2) True e
                 else fail_at input (InvalidRecordEnding CR) at e)
           else if input ! (cursor + relative) = ending_byte (record_ending (en_dialect e)) then
             (if is_crlf e then fail_at input (InvalidRecordEnding LF) (cursor + relative) e
              else if \<not> tail_confirms (ending_tail (en_dialect e)) (drop (cursor + relative + 1) input) then
                general_unquoted_loop extra_needle input record_start header field_start
                  (cursor + relative + 1) e
              else let at = cursor + relative;
                       bare_lf = (record_ending (en_dialect e) = Newline);
                       field_end = (if bare_lf \<and> field_start < at \<and> input ! (at - 1) = CR then at - 1 else at)
                in end_general_field input record_start header field_start field_end at
                     (at + tail_width (ending_tail (en_dialect e))) True e)
           else if \<not> tail_confirms (delimiter_tail (en_dialect e)) (drop (cursor + relative + 1) input) then
             general_unquoted_loop extra_needle input record_start header field_start
               (cursor + relative + 1) e
           else let at = cursor + relative
             in end_general_field input record_start header field_start at at
                  (at + tail_width (delimiter_tail (en_dialect e))) False e))"
  by pat_completeness auto
termination
  by (relation "measure (\<lambda>(_, input, _, _, _, cursor, _). length input + 2 - cursor)")
    (auto simp: resume_after_unquoted_escape_def dest!: before_scan_end)

declare general_unquoted_loop.simps [simp del]

definition parse_general_unquoted_field :: "bytes \<Rightarrow> nat \<Rightarrow> bool \<Rightarrow> bool step" where
  "parse_general_unquoted_field input record_start header e =
     (let extra_needle = (record_ending (en_dialect e) = CrLf \<or> escapes_unquoted (escape (en_dialect e)))
      in general_unquoted_loop extra_needle input record_start header (en_location e) (en_location e) e)"

definition parse_unquoted_field :: "format_options option \<Rightarrow> bytes \<Rightarrow> nat \<Rightarrow> bool \<Rightarrow> bool step" where
  "parse_unquoted_field opts input record_start header e =
     (if fmt_general_parsing opts e then parse_general_unquoted_field input record_start header e
      else parse_unquoted_field_runtime input record_start (fmt_delimiter opts e) (fmt_quote opts e)
             (fmt_terminator opts e) (fmt_quoting_enabled opts e) (fmt_permits_unquoted_quotes opts e)
             (fmt_strips_cr opts e) e)"

section \<open>Quoted fields\<close>

record quoted_config =
  qc_escape :: escape
  qc_quote :: byte
  qc_delimiter :: byte
  qc_delimiter_tail :: tail
  qc_terminator :: byte
  qc_ending_tail :: tail
  qc_record_ending :: record_ending
  qc_any_backslash :: bool
  qc_trailing_ws :: bool

function skip_whitespace_from :: "bytes \<Rightarrow> nat \<Rightarrow> nat" where
  "skip_whitespace_from input at =
     (if get_at input at = Some 32 \<or> get_at input at = Some TAB then skip_whitespace_from input (at + 1) else at)"
  by pat_completeness auto
termination by (relation "measure (\<lambda>(input, at). length input - at)") (auto simp: get_at_Some_iff)

declare skip_whitespace_from.simps [simp del]

definition skip_post_quote_whitespace :: "bytes \<Rightarrow> nat \<Rightarrow> bool \<Rightarrow> nat" where
  "skip_post_quote_whitespace input at permits = (if \<not> permits then at else skip_whitespace_from input at)"

definition finish_quoted_field :: "bytes \<Rightarrow> nat \<Rightarrow> nat \<Rightarrow> quoted_config \<Rightarrow> bool step" where
  "finish_quoted_field input record_start closed cfg e =
     (let after_quote = skip_post_quote_whitespace input closed (qc_trailing_ws cfg)
      in case get_at input after_quote of
           None \<Rightarrow>
             (let e1 = clear_terminated (e\<lparr>en_location := after_quote\<rparr>)
              in bind_step (check_record_limit input record_start (en_location e1)) (\<lambda>_. return_step True) e1)
         | Some nxt \<Rightarrow>
             if nxt = qc_delimiter cfg \<and> tail_confirms (qc_delimiter_tail cfg) (drop (after_quote + 1) input) then
               (e\<lparr>en_location := after_quote + tail_width (qc_delimiter_tail cfg)\<rparr>, Ok False)
             else if qc_record_ending cfg \<noteq> CrLf \<and> nxt = qc_terminator cfg \<and>
                     tail_confirms (qc_ending_tail cfg) (drop (after_quote + 1) input) then
               (let e1 = note_terminated (e\<lparr>en_location := after_quote + tail_width (qc_ending_tail cfg)\<rparr>)
                in bind_step (check_record_limit input record_start (en_location e1)) (\<lambda>_. return_step True) e1)
             else if (qc_record_ending cfg = Newline \<or> qc_record_ending cfg = CrLf) \<and> nxt = CR \<and>
                     get_at input (after_quote + 1) = Some LF then
               (let e1 = note_terminated (e\<lparr>en_location := after_quote + 2\<rparr>)
                in bind_step (check_record_limit input record_start (en_location e1)) (\<lambda>_. return_step True) e1)
             else fail_at input (UnexpectedByteAfterQuote nxt) after_quote e)"

definition copy_segment :: "bytes \<Rightarrow> bool \<Rightarrow> nat \<Rightarrow> nat \<Rightarrow> nat \<Rightarrow> span_storage \<Rightarrow> span_storage" where
  "copy_segment input copied content_start segment_start segment_end st =
     (let st1 = (if \<not> copied then scratch_extend (slice input content_start segment_start) st else st)
      in scratch_extend (slice input segment_start segment_end) st1)"

text \<open>One escape taken out: the segment before it and the byte it stands for go to the scratch buffer.\<close>

definition take_escape :: "bytes \<Rightarrow> bool \<Rightarrow> nat \<Rightarrow> nat \<Rightarrow> nat \<Rightarrow> byte \<Rightarrow> nat \<Rightarrow> unit step" where
  "take_escape input copied content_start segment_start at b scratch_start e =
     (let e1 = e\<lparr>en_spans := scratch_push b (copy_segment input copied content_start segment_start at (en_spans e))\<rparr>
      in check_scratch_limit input scratch_start at e1)"

text \<open>The step \<open>finish\<close> of a quoted field: its span is pushed, then what follows the quote is read.\<close>

definition close_quoted ::
    "bytes \<Rightarrow> nat \<Rightarrow> quoted_config \<Rightarrow> nat \<Rightarrow> nat \<Rightarrow> nat \<Rightarrow> bool \<Rightarrow> nat \<Rightarrow> bool step" where
  "close_quoted input record_start cfg content_start scratch_start segment_start copied at e =
     (let e1 = (if copied then e\<lparr>en_spans := scratch_extend (slice input segment_start at) (en_spans e)\<rparr> else e)
      in bind_step
           (if copied then push_span input FromScratch scratch_start (scratch_len (en_spans e1)) at True
            else push_span input FromInput content_start at at True)
           (\<lambda>_. finish_quoted_field input record_start (at + 1) cfg) e1)"

definition quoted_stop :: "quoted_config \<Rightarrow> bytes \<Rightarrow> nat option" where
  "quoted_stop cfg remaining =
     (case qc_escape cfg of
        DoubleQuote \<Rightarrow> find1 (qc_quote cfg) remaining
      | Backslash esc \<Rightarrow> find2 (qc_quote cfg) esc remaining
      | Unquoted esc \<Rightarrow> find2 (qc_quote cfg) esc remaining
      | EscapeMysql \<Rightarrow> find2 (qc_quote cfg) BACKSLASH remaining)"

text \<open>
  What the byte at \<open>at\<close> means inside quotes: an escaped byte, the closing quote, or an error at a
  position.
\<close>

datatype quoted_event = Escaped byte | ClosingQuote | BadQuoted error_kind nat

definition quoted_event_at :: "bytes \<Rightarrow> quoted_config \<Rightarrow> nat \<Rightarrow> nat \<Rightarrow> quoted_event" where
  "quoted_event_at input cfg scan_stop at =
     (let b = input ! at; nxt = get_at input (at + 1) in
      if qc_escape cfg = DoubleQuote \<and> nxt = Some (qc_quote cfg) then Escaped (qc_quote cfg)
      else if qc_escape cfg = Backslash b then
        (case nxt of
           None \<Rightarrow> BadQuoted (InvalidEscape b) at
         | Some escaped \<Rightarrow>
             if escaped \<noteq> qc_quote cfg \<and> escaped \<noteq> b \<and> \<not> qc_any_backslash cfg
             then BadQuoted (InvalidEscape escaped) (at + 1) else Escaped escaped)
      else if unquoted_byte (qc_escape cfg) = Some b then
        (case nxt of
           None \<Rightarrow> BadQuoted UnterminatedQuotedField scan_stop
         | Some escaped \<Rightarrow>
             Escaped (if qc_escape cfg = EscapeMysql then mysql_unescape_byte escaped else escaped))
      else ClosingQuote)"

text \<open>
  The loop of \<open>parse_quoted_field_runtime\<close>. When an escape has carried the cursor past the end of
  the scan, the code expects the record limit to be the reason and panics otherwise.
\<close>

function parse_quoted_loop ::
    "bytes \<Rightarrow> nat \<Rightarrow> quoted_config \<Rightarrow> nat \<Rightarrow> nat \<Rightarrow> nat \<Rightarrow> nat \<Rightarrow> bool \<Rightarrow> engine \<Rightarrow> engine \<times> bool outcome" where
  "parse_quoted_loop input record_start cfg content_start scratch_start segment_start cursor copied e =
     (let scan_stop = scan_end e input record_start content_start
      in case get_range input cursor scan_stop of
           None \<Rightarrow>
             (case check_record_limit input record_start scan_stop e of
                (e', Err er) \<Rightarrow> (e', Err er)
              | (e', _) \<Rightarrow> (e', Panic))
         | Some remaining \<Rightarrow>
             (case quoted_stop cfg remaining of
                None \<Rightarrow>
                  bind_step (check_scan_end input scan_stop record_start content_start)
                    (\<lambda>_. fail_at input UnterminatedQuotedField scan_stop) e
              | Some relative \<Rightarrow>
                  (case quoted_event_at input cfg scan_stop (cursor + relative) of
                     BadQuoted kind at \<Rightarrow> fail_at input kind at e
                   | ClosingQuote \<Rightarrow>
                       close_quoted input record_start cfg content_start scratch_start segment_start copied
                         (cursor + relative) e
                   | Escaped b \<Rightarrow>
                       (case take_escape input copied content_start segment_start (cursor + relative) b
                               scratch_start e of
                          (e', Ok _) \<Rightarrow>
                            parse_quoted_loop input record_start cfg content_start scratch_start
                              (cursor + relative + 2) (cursor + relative + 2) True e'
                        | (e', Err er) \<Rightarrow> (e', Err er)
                        | (e', Panic) \<Rightarrow> (e', Panic)))))"
  by pat_completeness auto
termination
  by (relation "measure (\<lambda>(input, _, _, _, _, _, cursor, _). length input + 2 - cursor)")
    (auto simp: get_range_def split: if_splits dest!: le_trans [OF _ scan_end_le])

declare parse_quoted_loop.simps [simp del]

definition parse_quoted_field :: "format_options option \<Rightarrow> bytes \<Rightarrow> nat \<Rightarrow> bool step" where
  "parse_quoted_field opts input record_start e =
     (let cfg = \<lparr>qc_escape = fmt_escape opts e, qc_quote = fmt_quote opts e,
            qc_delimiter = fmt_delimiter opts e, qc_delimiter_tail = fmt_delimiter_tail opts e,
            qc_terminator = fmt_terminator opts e, qc_ending_tail = fmt_ending_tail opts e,
            qc_record_ending = fmt_record_ending opts e,
            qc_any_backslash = fmt_permits_any_backslash_escape opts e,
            qc_trailing_ws = fmt_permits_trailing_whitespace opts e\<rparr>;
          content_start = en_location e + 1
      in parse_quoted_loop input record_start cfg content_start (scratch_len (en_spans e))
           content_start content_start False e)"

section \<open>Every field moves the parser forward\<close>

lemma bind_step_Ok:
  assumes "bind_step m f e = (e'', Ok y)"
  obtains e' x where "m e = (e', Ok x)" "f x e' = (e'', Ok y)"
  using assms by (auto simp: bind_step_def split: prod.splits outcome.splits)

lemma check_record_limit_Ok_iff [simp]:
  "check_record_limit input rs at e = (e', Ok u) \<longleftrightarrow>
     e' = e \<and> rs \<le> at \<and> at - rs \<le> max_record_bytes (en_limits e)"
  by (cases u) (auto simp: check_record_limit_def check_record_limit_for_def)

lemma check_scan_end_Ok_iff [simp]:
  "check_scan_end input at rs fs e = (e', Ok u) \<longleftrightarrow>
     e' = e \<and> (fs \<le> at \<longrightarrow> at - fs \<le> max_field_bytes (en_limits e)) \<and>
     rs \<le> at \<and> at - rs \<le> max_record_bytes (en_limits e)"
  by (cases u) (auto simp: check_scan_end_def check_scan_end_for_def check_record_limit_for_def)

lemma check_scratch_limit_Ok_iff [simp]:
  "check_scratch_limit input ss at e = (e', Ok u) \<longleftrightarrow>
     e' = e \<and> ss \<le> scratch_len (en_spans e) \<and> scratch_len (en_spans e) - ss \<le> max_field_bytes (en_limits e)"
  by (cases u) (auto simp: check_scratch_limit_def check_scratch_limit_for_def)

lemma return_step_eq [simp]: "return_step x e = (e', r) \<longleftrightarrow> e' = e \<and> r = Ok x"
  by (auto simp: return_step_def)

lemma fail_at_eq [simp]: "fail_at input k at e = (e', r) \<longleftrightarrow> e' = e \<and> r = Err (engine_error e input k at)"
  by (auto simp: fail_at_def)

text \<open>Only the spans change when a field is pushed.\<close>

definition same_but_spans :: "engine \<Rightarrow> engine \<Rightarrow> bool" where
  "same_but_spans e e' \<longleftrightarrow> (\<exists>st. e' = e\<lparr>en_spans := st\<rparr>)"

lemma push_span_same: "push_span input src a b at q e = (e', r) \<Longrightarrow> same_but_spans e e'"
  by (auto simp: push_span_def same_but_spans_def split: option.splits intro: exI [of _ "en_spans e"])

lemma push_null_span_same: "push_null_span input at e = (e', r) \<Longrightarrow> same_but_spans e e'"
  by (auto simp: push_null_span_def same_but_spans_def split: if_splits outcome.splits
      intro: exI [of _ "en_spans e"])

lemma same_but_spans_trans: "same_but_spans a b \<Longrightarrow> same_but_spans b c \<Longrightarrow> same_but_spans a c"
  by (auto simp: same_but_spans_def)

lemma push_general_same:
  assumes "push_general_unquoted_span input fs fe at header e = (e', Ok u)"
  shows "same_but_spans e e'"
proof -
  have "same_but_spans e e'" if "push_unescaped_span input esc fs fe at e = (e', Ok u)" for esc
    using that
    by (auto simp: push_unescaped_span_def Let_def same_but_spans_def elim!: bind_step_Ok dest!: push_span_same)
  then show ?thesis
    using assms push_span_same push_null_span_same
    by (auto simp: push_general_unquoted_span_def split: option.splits if_splits)
qed

lemma end_general_field_location:
  "end_general_field input rs header fs fe at resume ends e = (e', Ok b) \<Longrightarrow> en_location e' = resume \<and> b = ends"
  by (auto simp: end_general_field_def note_terminated_def Let_def elim!: bind_step_Ok split: if_splits)

lemma next_stop_less: "next_stop e ex remaining = Some i \<Longrightarrow> i < length remaining"
  by (auto simp: next_stop_def find_stop_byte_def earliest_def find_simps Let_def
      dest!: position_less split: option.splits if_splits)

lemma less_add_width [simp]: "a \<le> b \<Longrightarrow> a < b + tail_width t"
  using tail_width_pos [of t] by linarith

lemma general_unquoted_loop_progress:
  "general_unquoted_loop ex input rs header fs cursor e = (e', Ok False) \<Longrightarrow> fs \<le> cursor \<Longrightarrow>
     fs < length input \<and> fs < en_location e'"
proof (induction ex input rs header fs cursor e rule: general_unquoted_loop.induct)
  case (1 ex input rs header fs cursor e)
  note run = 1(5) [unfolded general_unquoted_loop.simps [of ex input rs header fs cursor e]]
  show ?case
  proof (cases "scan_end e input rs fs \<le> cursor")
    case True
    then show ?thesis using run by (auto simp: Let_def elim!: bind_step_Ok)
  next
    case False
    then have c: "cursor < length input" "cursor < scan_end e input rs fs" using before_scan_end by auto
    have step: "fs \<le> resume_after_unquoted_escape input (cursor + i)" for i
      using 1(6) by (simp add: resume_after_unquoted_escape_def)
    show ?thesis
    proof (cases "next_stop e ex (slice input cursor (scan_end e input rs fs))")
      case None
      then show ?thesis using 1(1,6) run False c by simp
    next
      case (Some i)
      show ?thesis
        using run False Some 1(6) c 1(2-4) [OF False Some] step
        by (simp add: Let_def split: if_splits) (fastforce dest!: end_general_field_location)+
    qed
  qed
qed

lemma parse_unquoted_runtime_progress:
  "parse_unquoted_field_runtime input rs dl qt tm q uq st e = (e', Ok False) \<Longrightarrow>
     en_location e < length input \<and> en_location e < en_location e'"
proof -
  assume run: "parse_unquoted_field_runtime input rs dl qt tm q uq st e = (e', Ok False)"
  then have loc: "en_location e \<le> scan_end e input rs (en_location e)"
    by (auto simp: parse_unquoted_field_runtime_def get_range_def Let_def split: if_splits)
  let ?rest = "slice input (en_location e) (scan_end e input rs (en_location e))"
  let ?find = "if q \<and> \<not> uq then find3 dl qt tm ?rest else find2 dl tm ?rest"
  obtain i where i: "?find = Some i" "en_location e' = en_location e + i + 1"
    using run loc
    by (fastforce simp: parse_unquoted_field_runtime_def get_range_def Let_def push_span_def note_terminated_def
        elim!: bind_step_Ok split: option.splits if_splits)
  then have "i < length ?rest"
    by (auto simp: find_simps dest!: position_less split: if_splits)
  then have "i < scan_end e input rs (en_location e) - en_location e" by simp
  then show ?thesis using i(2) scan_end_le [of e input rs "en_location e"] by linarith
qed

lemma finish_quoted_field_progress:
  assumes "finish_quoted_field input rs closed cfg e = (e', Ok False)"
  shows "closed < length input \<and> closed < en_location e'"
proof -
  have le: "at \<le> skip_whitespace_from input at" for at
    by (induction input at rule: skip_whitespace_from.induct)
      (subst skip_whitespace_from.simps, auto simp: get_at_Some_iff)
  have "closed \<le> skip_post_quote_whitespace input closed (qc_trailing_ws cfg)"
    using le by (simp add: skip_post_quote_whitespace_def)
  then show ?thesis
    using assms
    by (auto simp: finish_quoted_field_def Let_def get_at_Some_iff elim!: bind_step_Ok
        split: option.splits if_splits)
qed

lemma quoted_stop_less: "quoted_stop cfg remaining = Some i \<Longrightarrow> i < length remaining"
  by (auto simp: quoted_stop_def find_simps dest!: position_less split: escape.splits)

lemma parse_quoted_loop_progress:
  "parse_quoted_loop input rs cfg cs ss seg cursor copied e = (e', Ok False) \<Longrightarrow> cs \<le> cursor \<Longrightarrow>
     cs < length input \<and> cs < en_location e'"
proof (induction input rs cfg cs ss seg cursor copied e rule: parse_quoted_loop.induct)
  case (1 input rs cfg cs ss seg cursor copied e)
  note run = 1(2) [unfolded parse_quoted_loop.simps [of input rs cfg cs ss seg cursor copied e]]
  let ?stop = "scan_end e input rs cs"
  obtain remaining i where r: "get_range input cursor ?stop = Some remaining"
      "quoted_stop cfg remaining = Some i"
    using run by (auto simp: Let_def split: option.splits prod.splits outcome.splits elim!: bind_step_Ok)
  show ?case
  proof (cases "quoted_event_at input cfg ?stop (cursor + i)")
    case (Escaped b)
    obtain e1 u where t: "take_escape input copied cs seg (cursor + i) b ss e = (e1, Ok u)"
      using run r Escaped by (auto simp: Let_def split: prod.splits outcome.splits)
    show ?thesis
      using 1(1) [OF refl r Escaped t [symmetric] refl] run r Escaped t 1(3) by (simp add: Let_def)
  next
    case ClosingQuote
    then have "close_quoted input rs cfg cs ss seg copied (cursor + i) e = (e', Ok False)"
      using run r by (simp add: Let_def)
    then obtain e1 where "finish_quoted_field input rs (cursor + i + 1) cfg e1 = (e', Ok False)"
      by (auto simp: close_quoted_def Let_def elim!: bind_step_Ok split: if_splits)
    then show ?thesis using finish_quoted_field_progress 1(3) by fastforce
  next
    case BadQuoted
    then show ?thesis using run r by (simp add: Let_def)
  qed
qed

lemma parse_field_progress:
  assumes "parse_quoted_field opts input rs e = (e', Ok False) \<or>
    parse_unquoted_field opts input rs header e = (e', Ok False)"
  shows "en_location e < length input \<and> en_location e < en_location e'"
  using assms parse_quoted_loop_progress [of input rs _ "en_location e + 1"] general_unquoted_loop_progress
    parse_unquoted_runtime_progress
  by (auto simp: parse_quoted_field_def parse_unquoted_field_def parse_general_unquoted_field_def Let_def
      split: if_splits dest: Suc_lessD) fastforce+

lemma skip_delimiter_spaces_location:
  "skip_delimiter_spaces opts input rs e = (e', Ok u) \<Longrightarrow> en_location e \<le> en_location e'"
proof -
  have loop: "skip_delimiter_spaces_loop input rs field e = (e', Ok u) \<Longrightarrow> en_location e \<le> en_location e'" for field
  proof (induction input rs field e rule: skip_delimiter_spaces_loop.induct)
    case (1 input rs field e)
    show ?case
      using 1(2) 1(1)
      by (subst (asm) skip_delimiter_spaces_loop.simps)
        (fastforce simp: Let_def split: if_splits prod.splits outcome.splits)
  qed
  assume "skip_delimiter_spaces opts input rs e = (e', Ok u)"
  then show ?thesis
    using loop by (auto simp: skip_delimiter_spaces_def skip_delimiter_spaces_for_def split: if_splits)
qed

section \<open>The general record loop\<close>

definition mark_null_spans_cold :: "bytes \<Rightarrow> nulls \<Rightarrow> unit step" where
  "mark_null_spans_cold input n e =
     (case mark_input_nulls input (raw_field_is_null n) (en_spans e) of
        Ok st \<Rightarrow> (e\<lparr>en_spans := st\<rparr>, Ok ())
      | Err er \<Rightarrow> (e, Err er)
      | Panic \<Rightarrow> (e, Panic))"

definition mark_null_spans :: "format_options option \<Rightarrow> bytes \<Rightarrow> bool \<Rightarrow> unit step" where
  "mark_null_spans opts input header e =
     (let n = fmt_null_policy opts e
      in if n = NullsNone \<or> header then (e, Ok ()) else mark_null_spans_cold input n e)"

definition finish_general_record :: "format_options option \<Rightarrow> bytes \<Rightarrow> bool \<Rightarrow> unit step" where
  "finish_general_record opts input header =
     bind_step (mark_null_spans opts input header) (\<lambda>_ e.
       validate_count input (storage_len (en_spans e)) e)"

definition parse_one_field :: "format_options option \<Rightarrow> bytes \<Rightarrow> nat \<Rightarrow> bool \<Rightarrow> bool step" where
  "parse_one_field opts input record_start header =
     bind_step (skip_delimiter_spaces opts input record_start) (\<lambda>_ e.
       if get_at input (en_location e) = Some (fmt_quote opts e) \<and> fmt_quoting_enabled opts e
       then parse_quoted_field opts input record_start e
       else parse_unquoted_field opts input record_start header e)"

lemma parse_one_field_progress:
  assumes "parse_one_field opts input rs header e = (e', Ok False)"
  shows "en_location e < length input \<and> en_location e < en_location e'"
proof -
  obtain e1 u where e1: "skip_delimiter_spaces opts input rs e = (e1, Ok u)"
    "parse_quoted_field opts input rs e1 = (e', Ok False) \<or> parse_unquoted_field opts input rs header e1 = (e', Ok False)"
    using assms unfolding parse_one_field_def by (auto elim!: bind_step_Ok split: if_splits)
  then show ?thesis
    using skip_delimiter_spaces_location [OF e1(1)] parse_field_progress [OF e1(2)] by simp
qed

function parse_record_fields ::
    "format_options option \<Rightarrow> bytes \<Rightarrow> nat \<Rightarrow> bool \<Rightarrow> engine \<Rightarrow> engine \<times> unit outcome" where
  "parse_record_fields opts input record_start header e =
     (case parse_one_field opts input record_start header e of
        (e', Ok record_end) \<Rightarrow>
          (if record_end then finish_general_record opts input header e'
           else parse_record_fields opts input record_start header e')
      | (e', Err er) \<Rightarrow> (e', Err er)
      | (e', Panic) \<Rightarrow> (e', Panic))"
  by pat_completeness auto
termination
  by (relation "measure (\<lambda>(_, input, _, _, e). length input - en_location e)")
    (auto dest!: parse_one_field_progress [OF sym])

declare parse_record_fields.simps [simp del]

section \<open>The plain kernel\<close>

definition fold_plain_record :: "format_options option \<Rightarrow> nat \<Rightarrow> bool \<Rightarrow> engine \<Rightarrow> engine" where
  "fold_plain_record opts record_start terminated e =
     (if en_folded_upto e \<noteq> record_start \<or> fmt_terminator opts e \<noteq> LF then e
      else e\<lparr>en_folded_lines := en_folded_lines e + (if terminated then 1 else 0),
             en_folded_upto := en_location e\<rparr>)"

definition borrowed_scan_end :: "engine \<Rightarrow> nat \<Rightarrow> nat \<Rightarrow> nat" where
  "borrowed_scan_end e input_length record_start =
     min input_length (sat_add record_start (sat_add (max_record_bytes (en_limits e)) 1))"

text \<open>An escape byte before \<open>until\<close>: the kernel cannot judge the record.\<close>

definition holds_escape :: "format_options option \<Rightarrow> engine \<Rightarrow> bytes \<Rightarrow> nat \<Rightarrow> nat \<Rightarrow> bool" where
  "holds_escape opts e input record_start until \<longleftrightarrow>
     (case fmt_unquoted_escape opts e of
        None \<Rightarrow> False
      | Some esc \<Rightarrow> find1 esc (slice input record_start until) \<noteq> None)"

definition decline :: "bool step" where
  "decline e = (e\<lparr>en_spans := clear_spans (en_spans e)\<rparr>, Ok False)"

definition kernel_at_terminator :: "format_options option \<Rightarrow> bytes \<Rightarrow> nat \<Rightarrow> nat \<Rightarrow> nat \<Rightarrow> bool step" where
  "kernel_at_terminator opts input record_start field_start cursor e =
     (if holds_escape opts e input record_start cursor then decline e
      else let field_end = (if fmt_strips_cr opts e \<and> field_start < cursor \<and> input ! (cursor - 1) = CR
                            then cursor - 1 else cursor)
        in bind_step (push_span input FromInput field_start field_end cursor False) (\<lambda>_ e1.
             let e2 = note_terminated (e1\<lparr>en_location := cursor + 1\<rparr>)
             in bind_step (check_record_limit input record_start (en_location e2))
                  (\<lambda>_ e3. (fold_plain_record opts record_start True e3, Ok True)) e2) e)"

definition kernel_at_end :: "format_options option \<Rightarrow> bytes \<Rightarrow> nat \<Rightarrow> nat \<Rightarrow> bool step" where
  "kernel_at_end opts input record_start field_start e =
     (let scan_stop = borrowed_scan_end e (length input) record_start
      in if scan_stop < length input
         then fail_at input (RecordTooLarge (max_record_bytes (en_limits e))) scan_stop e
         else if holds_escape opts e input record_start scan_stop then decline e
         else bind_step (push_span input FromInput field_start scan_stop scan_stop False) (\<lambda>_ e1.
                let e2 = clear_terminated (e1\<lparr>en_location := scan_stop\<rparr>)
                in bind_step (check_record_limit input record_start (en_location e2))
                     (\<lambda>_ e3. (fold_plain_record opts record_start False e3, Ok True)) e2) e)"

text \<open>The loop over the structural matches, in the order the block scan yields them.\<close>

fun kernel_loop ::
    "format_options option \<Rightarrow> bytes \<Rightarrow> nat \<Rightarrow> (nat \<times> byte) list \<Rightarrow> nat \<Rightarrow> bool step" where
  "kernel_loop opts input record_start [] field_start e = kernel_at_end opts input record_start field_start e"
| "kernel_loop opts input record_start ((cursor, b) # found) field_start e =
     (if b = fmt_delimiter opts e then
        (case push_span input FromInput field_start cursor cursor False e of
           (e', Ok _) \<Rightarrow> kernel_loop opts input record_start found (cursor + 1) e'
         | (e', Err er) \<Rightarrow> (e', Err er)
         | (e', Panic) \<Rightarrow> (e', Panic))
      else if b = fmt_quote opts e \<and> fmt_quoting_enabled opts e \<and>
              (cursor = field_start \<or> \<not> fmt_permits_unquoted_quotes opts e) then decline e
      else if b = fmt_terminator opts e then
        kernel_at_terminator opts input record_start field_start cursor e
      else kernel_loop opts input record_start found field_start e)"

definition try_parse_borrowed_plain :: "format_options option \<Rightarrow> bytes \<Rightarrow> nat \<Rightarrow> bool step" where
  "try_parse_borrowed_plain opts input record_start e =
     (let scan_stop = borrowed_scan_end e (length input) record_start;
          structural = blocks_resume (take scan_stop input) (fmt_delimiter opts e) (fmt_quote opts e)
            (fmt_terminator opts e) record_start
      in kernel_loop opts input record_start (blocks_matches structural) record_start e)"

text \<open>\<open>validate_crlf\<close> judges a record the kernel finished; the offending field is looked up in the spans.\<close>

definition field_at :: "engine \<Rightarrow> nat \<Rightarrow> nat" where
  "field_at e at = (case position (\<lambda>s. at < span_end s) (ss_spans (en_spans e)) of Some i \<Rightarrow> i | None \<Rightarrow> 0)"

definition validate_crlf :: "bytes \<Rightarrow> nat \<Rightarrow> unit step" where
  "validate_crlf input record_start e =
     (let until = en_location e;
          terminated = (record_start < until \<and> get_at input (until - 1) = Some LF);
          lf = until - 1;
          carriage = (record_start < lf \<and> input ! (lf - 1) = CR);
          search_end = (if terminated then (if carriage then lf - 1 else lf) else until)
      in case get_range input record_start search_end of
           None \<Rightarrow> (e, Panic)
         | Some whole \<Rightarrow>
             (case find1 CR whole of
                Some offset \<Rightarrow>
                  (let at = record_start + offset
                   in (e, Err (error_for e input (InvalidRecordEnding CR) at (field_at e at))))
              | None \<Rightarrow>
                  if terminated \<and> search_end = lf
                  then (e, Err (error_for e input (InvalidRecordEnding LF) lf (storage_len (en_spans e) - 1)))
                  else (e, Ok ())))"

definition finish_plain_record :: "format_options option \<Rightarrow> bytes \<Rightarrow> nat \<Rightarrow> bool \<Rightarrow> unit step" where
  "finish_plain_record opts input record_start header e =
     bind_step (if fmt_record_ending opts e = CrLf then validate_crlf input record_start else return_step ()) (\<lambda>_ e1.
       if fmt_null_policy opts e \<noteq> NullsNone \<and> \<not> header
       then mark_null_spans_cold input (fmt_null_policy opts e) e1 else (e1, Ok ())) e"

definition plain_record_candidate :: "format_options option \<Rightarrow> byte \<Rightarrow> engine \<Rightarrow> bool" where
  "plain_record_candidate opts first e \<longleftrightarrow>
     fmt_plain_kernel opts e \<and> (\<not> fmt_quoting_enabled opts e \<or> first \<noteq> fmt_quote opts e)"

text \<open>The static format a dynamic engine hands its record to.\<close>

definition dispatch_format :: "format_options option \<Rightarrow> engine \<Rightarrow> format_options option" where
  "dispatch_format opts e =
     (case opts of Some f \<Rightarrow> Some f
      | None \<Rightarrow> (case en_format_kind e of KindCsv \<Rightarrow> Some FORMAT_CSV | KindTsv \<Rightarrow> Some FORMAT_TSV | KindOther \<Rightarrow> None))"

definition parse_record :: "format_options option \<Rightarrow> bytes \<Rightarrow> nat \<Rightarrow> bool \<Rightarrow> unit step" where
  "parse_record opts input record_start header e =
     (case get_at input record_start of
        None \<Rightarrow> (e, Panic)
      | Some first \<Rightarrow>
          bind_step (if plain_record_candidate opts first e then try_parse_borrowed_plain opts input record_start
                     else return_step False)
            (\<lambda>plain e1.
               if plain then
                 bind_step (if fmt_record_pass opts e1 then finish_plain_record opts input record_start header
                            else return_step ())
                   (\<lambda>_ e2. validate_count input (storage_len (en_spans e2)) e2) e1
               else parse_record_fields (dispatch_format opts e1) input record_start header e1) e)"

end
