(* ===== verification/Framing.thy ===== *)
theory Framing
  imports Parser
begin

text \<open>
  Record framing (\<open>coseva/src/engine/framing.rs\<close>, \<open>skip_comments\<close> of \<open>engine/limits.rs\<close>): comment and
  blank lines are stepped over, the storage is bound to the window, one record is parsed and its
  fields trimmed. \<open>records_of\<close> is the loop of a caller that reads a whole input; its fuel, one call
  per byte and one more, is enough (\<open>reading_ends\<close>).
\<close>

section \<open>Record endings\<close>

definition record_ending_width_at :: "dialect \<Rightarrow> bytes \<Rightarrow> nat \<Rightarrow> nat option" where
  "record_ending_width_at d input at =
     (if record_ending d = Newline \<and> get_at input at = Some LF then Some 1
      else if (record_ending d = Newline \<or> record_ending d = CrLf) \<and>
              get_range input at (at + 2) = Some [CR, LF] then Some 2
      else case record_ending d of
             EndByte b \<Rightarrow>
               (if get_at input at = Some b \<and> tail_confirms (ending_tail d) (drop (at + 1) input)
                then Some (tail_width (ending_tail d)) else None)
           | _ \<Rightarrow> None)"

definition ending_confirmed :: "dialect \<Rightarrow> bytes \<Rightarrow> nat \<Rightarrow> nat \<Rightarrow> bool" where
  "ending_confirmed d input start at \<longleftrightarrow>
     (case record_ending d of
        Newline \<Rightarrow> True
      | CrLf \<Rightarrow> start < at \<and> input ! (at - 1) = CR
      | EndByte _ \<Rightarrow> tail_confirms (ending_tail d) (drop (at + 1) input))"

function find_record_ending_from :: "dialect \<Rightarrow> bytes \<Rightarrow> nat \<Rightarrow> nat \<Rightarrow> nat option" where
  "find_record_ending_from d input start search_start =
     (if length input < search_start then None
      else case find1 (ending_byte (record_ending d)) (drop search_start input) of
        None \<Rightarrow> None
      | Some relative \<Rightarrow>
          let at = search_start + relative
          in if ending_confirmed d input start at then Some (at + tail_width (ending_tail d))
             else find_record_ending_from d input start (at + 1))"
  by pat_completeness auto
termination
  by (relation "measure (\<lambda>(_, input, _, search_start). length input + 1 - search_start)") auto

declare find_record_ending_from.simps [simp del]

definition find_record_ending :: "dialect \<Rightarrow> bytes \<Rightarrow> nat \<Rightarrow> nat option" where
  "find_record_ending d input start = find_record_ending_from d input start start"

lemma find_record_ending_from_bounds:
  "find_record_ending_from d input start s = Some n \<Longrightarrow> s < n \<and> s < length input"
proof (induction d input start s rule: find_record_ending_from.induct)
  case (1 d input start s)
  note run = 1(2) [unfolded find_record_ending_from.simps [of d input start s]]
  obtain i where i: "\<not> length input < s" "find1 (ending_byte (record_ending d)) (drop s input) = Some i"
    using run by (auto split: if_splits option.splits)
  have "i < length input - s" using i(2) by (auto simp: find_simps dest: position_less)
  then show ?case
    using run i 1(1) [OF i refl] by (fastforce simp: Let_def split: if_splits)
qed

section \<open>Ignored records\<close>

text \<open>
  Resuming a comment that an earlier, narrower window could not finish. A checkpoint is sane when it
  does not lie before the record it describes.
\<close>

definition resuming :: "bytes \<Rightarrow> engine \<Rightarrow> bool" where
  "resuming input e \<longleftrightarrow>
     rs_ignored (en_resume e) \<and> rs_record_start (en_resume e) = en_location e \<and>
     rs_scanned_to (en_resume e) \<le> length input"

function skip_comments_loop :: "byte \<Rightarrow> bytes \<Rightarrow> engine \<Rightarrow> engine" where
  "skip_comments_loop c input e =
     (if \<not> resuming input e \<and> get_at input (en_location e) \<noteq> Some c then e
      else let comment_start = en_location e;
               scan_start = (if resuming input e then rs_scanned_to (en_resume e) else comment_start)
        in case find_record_ending (en_dialect e) input scan_start of
             Some until \<Rightarrow> skip_comments_loop c input (e\<lparr>en_location := until, en_resume := resume_new\<rparr>)
           | None \<Rightarrow>
               let overlap = max (tail_width (ending_tail (en_dialect e))) 2;
                   scanned_to = max (length input - overlap) comment_start
               in e\<lparr>en_resume := resume_ignored comment_start scanned_to, en_location := length input\<rparr>)"
  by pat_completeness auto
termination
proof (relation "measures [\<lambda>(c, input, e). if rs_ignored (en_resume e) then 1 else 0,
    \<lambda>(c, input, e). length input - en_location e]")
  fix c input e x xa until
  assume a: "\<not> (\<not> resuming input e \<and> get_at input (en_location e) \<noteq> Some c)"
    and x: "x = en_location e" "xa = (if resuming input e then rs_scanned_to (en_resume e) else x)"
    and f: "find_record_ending (en_dialect e) input xa = Some until"
  have "until > xa" "xa < length input"
    using f find_record_ending_from_bounds by (auto simp: find_record_ending_def)
  then show "((c, input, e\<lparr>en_location := until, en_resume := resume_new\<rparr>), c, input, e)
      \<in> measures [\<lambda>(c, input, e). if rs_ignored (en_resume e) then 1 else 0,
          \<lambda>(c, input, e). length input - en_location e]"
    using a x by (auto simp: resume_new_def resuming_def)
qed simp

declare skip_comments_loop.simps [simp del]

definition skip_comments :: "bytes \<Rightarrow> engine \<Rightarrow> engine" where
  "skip_comments input e =
     (case comment (en_dialect e) of None \<Rightarrow> e | Some c \<Rightarrow> skip_comments_loop c input e)"

lemma record_ending_width_pos:
  "record_ending_width_at d input at = Some w \<Longrightarrow> 0 < w \<and> at < length input"
  by (auto simp: record_ending_width_at_def get_at_Some_iff get_range_def split: if_splits record_ending.splits)

function skip_blank_lines_loop :: "bytes \<Rightarrow> engine \<Rightarrow> engine" where
  "skip_blank_lines_loop input e =
     (case record_ending_width_at (en_dialect e) input (en_location e) of
        None \<Rightarrow> e
      | Some width \<Rightarrow> skip_blank_lines_loop input (e\<lparr>en_location := en_location e + width\<rparr>))"
  by pat_completeness auto
termination
  by (relation "measure (\<lambda>(input, e). length input - en_location e)") (auto dest: record_ending_width_pos)

declare skip_blank_lines_loop.simps [simp del]

definition skip_blank_lines :: "bytes \<Rightarrow> engine \<Rightarrow> engine" where
  "skip_blank_lines input e = (if en_blank_records e \<noteq> BlankSkip then e else skip_blank_lines_loop input e)"

text \<open>
  A checkpoint inside a comment never lies before it: every checkpoint the parser makes is like this,
  and the passes below end from any other, too.
\<close>

definition checkpoint_sane :: "engine \<Rightarrow> bool" where
  "checkpoint_sane e \<longleftrightarrow> (rs_ignored (en_resume e) \<longrightarrow> rs_record_start (en_resume e) \<le> rs_scanned_to (en_resume e))"

lemma skip_comments_loop_moves:
  "(skip_comments_loop c input e = e \<and> \<not> resuming input e) \<or>
   checkpoint_sane (skip_comments_loop c input e) \<and>
   (checkpoint_sane e \<longrightarrow> en_location (skip_comments_loop c input e) = en_location e \<or>
      en_location e < length input \<and> en_location e < en_location (skip_comments_loop c input e))"
proof (induction c input e rule: skip_comments_loop.induct)
  case (1 c input e)
  let ?start = "if resuming input e then rs_scanned_to (en_resume e) else en_location e"
  show ?case
  proof (cases "\<not> resuming input e \<and> get_at input (en_location e) \<noteq> Some c")
    case True
    then show ?thesis by (subst skip_comments_loop.simps) simp
  next
    case False
    have start: "checkpoint_sane e \<Longrightarrow> en_location e \<le> ?start"
      by (auto simp: resuming_def checkpoint_sane_def)
    show ?thesis
    proof (cases "find_record_ending (en_dialect e) input ?start")
      case None
      have here: "checkpoint_sane e \<Longrightarrow> en_location e \<le> length input"
        using False start by (auto simp: resuming_def get_at_Some_iff split: if_splits)
      have "skip_comments_loop c input e =
          e\<lparr>en_resume := resume_ignored (en_location e)
              (max (length input - max (tail_width (ending_tail (en_dialect e))) 2) (en_location e)),
            en_location := length input\<rparr>"
        using False None by (subst skip_comments_loop.simps) (auto simp: Let_def)
      then show ?thesis using here by (auto simp: checkpoint_sane_def resume_ignored_def)
    next
      case (Some n)
      let ?e = "e\<lparr>en_location := n, en_resume := resume_new\<rparr>"
      have n: "?start < n" "?start < length input"
        using find_record_ending_from_bounds Some by (auto simp: find_record_ending_def)
      have eq: "skip_comments_loop c input e = skip_comments_loop c input ?e"
        using False Some by (subst skip_comments_loop.simps) (auto simp: Let_def)
      have "checkpoint_sane ?e" "\<not> resuming input ?e"
        by (auto simp: checkpoint_sane_def resume_new_def resuming_def)
      then show ?thesis
        using 1 [OF False refl refl Some] start n unfolding eq by auto
    qed
  qed
qed

lemma skip_blank_lines_loop_moves:
  "skip_blank_lines_loop input e = e \<or>
   en_location e < length input \<and> en_location e < en_location (skip_blank_lines_loop input e) \<and>
   en_resume (skip_blank_lines_loop input e) = en_resume e"
proof (induction input e rule: skip_blank_lines_loop.induct)
  case (1 input e)
  show ?case
    using 1 by (cases "record_ending_width_at (en_dialect e) input (en_location e)")
      (auto simp: skip_blank_lines_loop.simps [of input e] dest!: record_ending_width_pos)
qed

definition skip_pass :: "bytes \<Rightarrow> engine \<Rightarrow> engine" where
  "skip_pass input e = skip_blank_lines input (skip_comments input e)"

lemma skip_pass_measure:
  assumes "en_location (skip_pass input e) \<noteq> en_location e"
  shows "(if checkpoint_sane (skip_pass input e) then 0 else length input + 1) +
      (length input - en_location (skip_pass input e))
    < (if checkpoint_sane e then 0 else length input + 1) + (length input - en_location e)"
proof -
  let ?c = "skip_comments input e"
  have c: "?c = e \<or> checkpoint_sane ?c \<and> (checkpoint_sane e \<longrightarrow> en_location ?c = en_location e \<or>
      en_location e < length input \<and> en_location e < en_location ?c)"
    using skip_comments_loop_moves [of _ input e] by (auto simp: skip_comments_def split: option.splits)
  have b: "skip_pass input e = ?c \<or> en_location ?c < length input \<and>
      en_location ?c < en_location (skip_pass input e) \<and> en_resume (skip_pass input e) = en_resume ?c"
    using skip_blank_lines_loop_moves [of input ?c] by (auto simp: skip_pass_def skip_blank_lines_def)
  then have sane: "checkpoint_sane (skip_pass input e) = checkpoint_sane ?c"
    by (auto simp: checkpoint_sane_def)
  show ?thesis using assms b c sane by (auto split: if_splits)
qed

function skip_ignored_loop :: "bytes \<Rightarrow> bool \<Rightarrow> engine \<Rightarrow> bool \<times> engine" where
  "skip_ignored_loop input skipped e =
     (let origin = en_location e; e' = skip_pass input e
      in if en_location e' = origin then (skipped, e') else skip_ignored_loop input True e')"
  by pat_completeness auto
termination
proof (relation "measure (\<lambda>(input, _, e). (if checkpoint_sane e then 0 else length input + 1) +
        (length input - en_location e))")
  fix input e x xa
  assume "x = en_location e" "xa = skip_pass input e" "en_location xa \<noteq> x"
  then show "((input, True, xa), input, skipped, e) \<in> measure (\<lambda>(input, _, e).
      (if checkpoint_sane e then 0 else length input + 1) + (length input - en_location e))" for skipped
    using skip_pass_measure [of input e] unfolding in_measure split_conv by blast
qed simp

declare skip_ignored_loop.simps [simp del]

definition skip_ignored_records :: "bytes \<Rightarrow> engine \<Rightarrow> engine" where
  "skip_ignored_records input e =
     (case skip_ignored_loop input (rs_ignored (en_resume e)) e of (skipped, e') \<Rightarrow>
        if skipped \<and> \<not> rs_ignored (en_resume e') then e'\<lparr>en_resume := resume_fresh (en_location e')\<rparr> else e')"

section \<open>Reading a record\<close>

definition begin_spans :: "bytes \<Rightarrow> unit step" where
  "begin_spans input e =
     (case storage_begin input MAX_OFFSET (en_spans e) of
        Some st \<Rightarrow> (e\<lparr>en_spans := st\<rparr>, Ok ())
      | None \<Rightarrow> (e\<lparr>en_failed := True\<rparr>, Err (engine_error e input LocationOverflow (en_location e))))"

definition trim_spans :: "bytes \<Rightarrow> bool \<Rightarrow> unit step" where
  "trim_spans input header e =
     (if ws_applies_to_scope (en_trim e) header then
        (case trim_ascii_where input (ws_applies (en_trim e) header) (en_spans e) of
           Ok st \<Rightarrow> (e\<lparr>en_spans := st\<rparr>, Ok ())
         | Err er \<Rightarrow> (e, Err er)
         | Panic \<Rightarrow> (e, Panic))
      else (e, Ok ()))"

definition parse_positioned_record :: "format_options option \<Rightarrow> bytes \<Rightarrow> bool \<Rightarrow> ((nat \<times> nat) \<times> nat) step" where
  "parse_positioned_record opts input header =
     bind_step (begin_spans input) (\<lambda>_ e.
       let record_start = en_location e
       in case parse_record opts input record_start header e of
            (e1, Err er) \<Rightarrow> (e1\<lparr>en_failed := True\<rparr>, Err er)
          | (e1, Panic) \<Rightarrow> (e1, Panic)
          | (e1, Ok _) \<Rightarrow>
              bind_step (trim_spans input header) (\<lambda>_ e2.
                (e2\<lparr>en_record_index := en_record_index e2 + 1\<rparr>,
                 Ok ((record_start, en_location e2), en_record_index e2))) e1)"

definition fill_record_spans :: "format_options option \<Rightarrow> bytes \<Rightarrow> bool \<Rightarrow> ((nat \<times> nat) \<times> nat) option step" where
  "fill_record_spans opts input header e =
     (if en_failed e then (e, Err (engine_error e input ParserFailed (en_location e)))
      else let e1 = (if en_skips_records e then skip_ignored_records input e else e)
        in if en_location e1 = length input then (e1, Ok None)
           else bind_step (parse_positioned_record opts input header) (\<lambda>r. return_step (Some r)) e1)"

text \<open>The fields of a parsed record, \<open>None\<close> for a NULL one: the entries of \<open>read_physical_storage_general\<close>.\<close>

definition record_entries :: "bytes \<Rightarrow> engine \<Rightarrow> (bytes option \<times> bool) list outcome" where
  "record_entries input e = resolved_entries input (en_spans e)"


text \<open>A caller that asks for records until there are none, and how that ended.\<close>

datatype reading_end = AllRead | Refused error | Crashed | OutOfFuel

type_synonym parsed_record = "(nat \<times> nat) \<times> (bytes option \<times> bool) list"

fun read_records :: "format_options option \<Rightarrow> bytes \<Rightarrow> nat \<Rightarrow> engine \<Rightarrow> parsed_record list \<times> reading_end" where
  "read_records opts input 0 e = ([], OutOfFuel)"
| "read_records opts input (Suc fuel) e =
     (case fill_record_spans opts input False e of
        (e', Ok None) \<Rightarrow> ([], AllRead)
      | (e', Err er) \<Rightarrow> ([], Refused er)
      | (e', Panic) \<Rightarrow> ([], Crashed)
      | (e', Ok (Some (bounds, index))) \<Rightarrow>
          (case record_entries input e' of
             Ok entries \<Rightarrow>
               (case read_records opts input fuel e' of (rest, how) \<Rightarrow> ((bounds, entries) # rest, how))
           | _ \<Rightarrow> ([], Crashed)))"

definition records_of :: "format_options option \<Rightarrow> bytes \<Rightarrow> engine \<Rightarrow> parsed_record list \<times> reading_end" where
  "records_of opts input e = read_records opts input (length input + 1) e"

end
