(* ===== verification/Safety.thy ===== *)
theory Safety
  imports Framing
begin

text \<open>
  What the record parser guarantees whatever the input: it stays inside the window, its spans stay
  inside the buffers they name, the configuration does not change, the limits hold of what it
  accepts, and it does not panic when the limits leave room for the window. \<open>good\<close> is the contract of
  every step; the locale \<open>field_parser\<close> is what the record loop asks of a field parser.
\<close>

section \<open>The contract of a step\<close>

definition config_of :: "engine \<Rightarrow> engine" where
  "config_of e = e\<lparr>en_location := 0, en_spans := storage_with_capacity, en_terminated := False,
     en_expected := None, en_folded_upto := 0, en_folded_lines := 0\<rparr>"

lemma config_of_updates [simp]:
  "config_of (e\<lparr>en_location := a\<rparr>) = config_of e"
  "config_of (e\<lparr>en_spans := b\<rparr>) = config_of e"
  "config_of (e\<lparr>en_terminated := c\<rparr>) = config_of e"
  "config_of (e\<lparr>en_expected := d\<rparr>) = config_of e"
  "config_of (e\<lparr>en_folded_upto := g\<rparr>) = config_of e"
  "config_of (e\<lparr>en_folded_lines := h\<rparr>) = config_of e"
  "config_of (note_terminated e) = config_of e"
  "config_of (clear_terminated e) = config_of e"
  by (simp_all add: config_of_def note_terminated_def clear_terminated_def)

lemma config_ofD:
  assumes "config_of e' = config_of e"
  shows "en_dialect e' = en_dialect e" "en_limits e' = en_limits e" "en_syntax e' = en_syntax e"
    "en_nulls e' = en_nulls e" "en_trim e' = en_trim e" "en_field_count e' = en_field_count e"
    "en_general_parsing e' = en_general_parsing e" "en_plain_kernel e' = en_plain_kernel e"
    "en_record_pass e' = en_record_pass e" "en_skip_initial_space e' = en_skip_initial_space e"
    "en_format_kind e' = en_format_kind e" "en_record_index e' = en_record_index e"
    "en_line_base e' = en_line_base e" "en_line_origin e' = en_line_origin e"
  using assms unfolding config_of_def by (cases e; cases e'; simp)+

text \<open>The tails a validated dialect carries.\<close>

definition tails_wf :: "dialect \<Rightarrow> bool" where
  "tails_wf d \<longleftrightarrow> tail_wf (delimiter_tail d) \<and> tail_wf (ending_tail d) \<and>
     \<not> tail_unusable (delimiter_tail d) \<and> \<not> tail_unusable (ending_tail d) \<and>
     ((\<forall>b. record_ending d \<noteq> EndByte b) \<longrightarrow> tail_is_empty (ending_tail d))"

lemma valid_tails:
  assumes "invalidity d = None" "tail_wf (delimiter_tail d)" "tail_wf (ending_tail d)"
  shows "tails_wf d"
  using invalidity_NoneD(7) [OF assms(1)] assms(2,3)
  by (auto simp: multibyte_invalidity_def tails_wf_def multibyte_def tail_is_empty_def tail_unusable_def
      TAIL_MAX_def Let_def split: if_splits record_ending.splits)

text \<open>A static format parameter is the configuration the engine was built with.\<close>

definition format_matches :: "format_options option \<Rightarrow> engine \<Rightarrow> bool" where
  "format_matches opts e \<longleftrightarrow>
     (case opts of None \<Rightarrow> True
      | Some f \<Rightarrow> fo_dialect f = en_dialect e \<and> fo_syntax f = en_syntax e \<and> fo_nulls f = en_nulls e \<and>
          fo_trim f = en_trim e \<and> fo_skip_initial_space f = en_skip_initial_space e)"

text \<open>What \<open>from_config\<close> derives from the settings, and the well-formed tails of their dialect.\<close>

definition engine_wf :: "engine \<Rightarrow> bool" where
  "engine_wf e \<longleftrightarrow>
     tails_wf (en_dialect e) \<and>
     en_general_parsing e = needs_general_parsing (en_dialect e) (en_trim e) \<and>
     en_plain_kernel e = (\<not> en_skip_initial_space e \<and> \<not> multibyte (en_dialect e)) \<and>
     en_record_pass e = needs_record_pass (en_dialect e) (en_nulls e) \<and>
     (en_format_kind e = KindCsv \<longrightarrow> format_matches (Some FORMAT_CSV) e) \<and>
     (en_format_kind e = KindTsv \<longrightarrow> format_matches (Some FORMAT_TSV) e)"

lemma engine_wf_config: "config_of e' = config_of e \<Longrightarrow> engine_wf e' = engine_wf e"
  by (simp add: engine_wf_def format_matches_def config_ofD [of e' e])

lemma format_matches_None [simp]: "format_matches None e"
  by (simp add: format_matches_def)

lemma format_matches_config: "config_of e' = config_of e \<Longrightarrow> format_matches opts e' = format_matches opts e"
  by (simp add: format_matches_def config_ofD [of e' e] cong: option.case_cong)

lemma fmt_of_engine:
  assumes "format_matches opts e" "engine_wf e"
  shows "fmt_delimiter opts e = delimiter (en_dialect e)" "fmt_quote opts e = quote (en_dialect e)"
    "fmt_terminator opts e = ending_byte (record_ending (en_dialect e))"
    "fmt_delimiter_tail opts e = delimiter_tail (en_dialect e)"
    "fmt_ending_tail opts e = ending_tail (en_dialect e)"
    "fmt_strips_cr opts e = strips_cr (record_ending (en_dialect e))"
    "fmt_quoting_enabled opts e = quoting_enabled (en_syntax e)"
    "fmt_unquoted_escape opts e = unquoted_byte (escape (en_dialect e))"
    "fmt_record_pass opts e = needs_record_pass (en_dialect e) (en_nulls e)"
    "fmt_general_parsing opts e = needs_general_parsing (en_dialect e) (en_trim e)"
    "fmt_null_policy opts e = en_nulls e" "fmt_escape opts e = escape (en_dialect e)"
    "fmt_record_ending opts e = record_ending (en_dialect e)"
    "fmt_permits_unquoted_quotes opts e = permits_unquoted_quotes (en_syntax e)"
    "fmt_permits_any_backslash_escape opts e = permits_any_backslash_escape (en_syntax e)"
    "fmt_permits_trailing_whitespace opts e = permits_trailing_whitespace (en_syntax e)"
    "fmt_skip_initial_space opts e = en_skip_initial_space e"
  using assms by (auto simp: format_matches_def engine_wf_def fmt_delimiter_def fmt_quote_def fmt_terminator_def
      fmt_delimiter_tail_def fmt_ending_tail_def fmt_strips_cr_def fmt_quoting_enabled_def
      fmt_unquoted_escape_def fmt_record_pass_def fmt_general_parsing_def fmt_null_policy_def fmt_escape_def
      fmt_record_ending_def fmt_permits_unquoted_quotes_def fmt_permits_any_backslash_escape_def
      fmt_permits_trailing_whitespace_def fmt_skip_initial_space_def split: option.splits)

lemma engine_from_config_wf:
  assumes "tails_wf (ps_dialect s)" "ps_format_tag s \<in> {TagCsv, TagTsv} \<Longrightarrow>
    format_agrees (if ps_format_tag s = TagCsv then FORMAT_CSV else FORMAT_TSV) s"
  shows "engine_wf (engine_from_config input s)"
proof -
  have kinds: "kind_of s = KindCsv \<Longrightarrow> format_agrees FORMAT_CSV s" "kind_of s = KindTsv \<Longrightarrow> format_agrees FORMAT_TSV s"
    using assms(2) by (auto simp: kind_of_def kind_by_comparison_def split: format_tag.splits if_splits)
  show ?thesis
    using assms(1) kinds
    by (auto simp: engine_wf_def engine_from_config_def plain_kernel_def format_matches_def format_agrees_def)
qed

text \<open>The limits leave room for the whole window.\<close>

definition roomy :: "bytes \<Rightarrow> engine \<Rightarrow> bool" where
  "roomy input e \<longleftrightarrow> length input \<le> max_record_bytes (en_limits e) \<and> length input \<le> max_field_bytes (en_limits e) \<and>
     length input < usize_max"

definition field_width :: "span \<Rightarrow> nat" where "field_width s = span_end s - span_start s"

definition parse_inv :: "bytes \<Rightarrow> nat \<Rightarrow> engine \<Rightarrow> bool" where
  "parse_inv input rs e \<longleftrightarrow>
     storage_wf (en_spans e) \<and> input_len (en_spans e) = length input \<and>
     rs \<le> en_location e \<and> en_location e \<le> length input \<and>
     storage_len (en_spans e) \<le> max_fields (en_limits e) \<and>
     (\<forall>s \<in> set (ss_spans (en_spans e)). field_width s \<le> max_field_bytes (en_limits e))"

definition good :: "bytes \<Rightarrow> nat \<Rightarrow> engine \<Rightarrow> engine \<times> 'a outcome \<Rightarrow> bool" where
  "good input rs e res \<longleftrightarrow>
     (case res of (e', r) \<Rightarrow>
        config_of e' = config_of e \<and>
        (case r of Ok _ \<Rightarrow> parse_inv input rs e' | Err _ \<Rightarrow> True | Panic \<Rightarrow> \<not> roomy input e))"

lemma roomy_config: "config_of e' = config_of e \<Longrightarrow> roomy input e' = roomy input e"
  by (simp add: roomy_def config_ofD [of e' e])

lemma good_bind:
  assumes "good input rs e (m e)"
    and "\<And>e' x. m e = (e', Ok x) \<Longrightarrow> config_of e' = config_of e \<Longrightarrow> parse_inv input rs e' \<Longrightarrow>
      good input rs e' (f x e')"
  shows "good input rs e (bind_step m f e)"
proof (cases "m e")
  case (Pair e' r)
  then show ?thesis
    using assms roomy_config [of e' e input]
    by (cases r) (auto simp: good_def bind_step_def split: prod.splits outcome.splits)
qed

lemma good_mono: "good input rs e res \<Longrightarrow> config_of e = config_of e0 \<Longrightarrow> good input rs e0 res"
  using roomy_config [of e e0 input] by (auto simp: good_def split: prod.splits outcome.splits)

lemma good_return [simp]: "good input rs e (return_step x e) \<longleftrightarrow> parse_inv input rs e"
  by (simp add: good_def return_step_def)

lemma good_Ok [simp]: "good input rs e (e', Ok x) \<longleftrightarrow> config_of e' = config_of e \<and> parse_inv input rs e'"
  by (simp add: good_def)

lemma good_Err [simp]: "good input rs e (e', Err er) \<longleftrightarrow> config_of e' = config_of e"
  by (simp add: good_def)

lemma good_fail [simp]: "good input rs e (fail_at input k at e)"
  by (simp add: good_def fail_at_def)

lemma good_if: "(b \<Longrightarrow> good input rs e x) \<Longrightarrow> (\<not> b \<Longrightarrow> good input rs e y) \<Longrightarrow> good input rs e (if b then x else y)"
  by simp

section \<open>The limit checks\<close>

lemma good_record_limit:
  "parse_inv input rs e \<Longrightarrow> rs \<le> at \<Longrightarrow> good input rs e (check_record_limit input rs at e)"
  by (auto simp: good_def check_record_limit_def check_record_limit_for_def)

lemma good_scan_end:
  "parse_inv input rs e \<Longrightarrow> rs \<le> at \<Longrightarrow> good input rs e (check_scan_end input at rs fs e)"
  by (auto simp: good_def check_scan_end_def check_scan_end_for_def check_record_limit_for_def)

lemma good_scratch_limit:
  "parse_inv input rs e \<Longrightarrow> ss \<le> scratch_len (en_spans e) \<Longrightarrow> good input rs e (check_scratch_limit input ss at e)"
  by (auto simp: good_def check_scratch_limit_def check_scratch_limit_for_def)

lemma scan_end_ge: "rs \<le> length input \<Longrightarrow> fs \<le> length input \<Longrightarrow> length input \<le> usize_max \<Longrightarrow>
    min rs fs \<le> scan_end e input rs fs"
  by (auto simp: scan_end_def sat_add_def Let_def min_def)

section \<open>Pushing a field\<close>

lemma wf_offsets: "storage_wf st \<Longrightarrow> n \<le> input_len st \<Longrightarrow> n \<le> MAX_OFFSET"
  by (simp add: storage_wf_def)

lemma push_span_Ok:
  assumes "push_span input src a b at q e = (e', Ok u)" "parse_inv input rs e"
  shows "parse_inv input rs e'" "e' = e\<lparr>en_spans := en_spans e'\<rparr>"
    "ss_spans (en_spans e') = ss_spans (en_spans e) @ [from_range_unchecked src a b q]"
    "ss_scratch (en_spans e') = ss_scratch (en_spans e)" "input_len (en_spans e') = input_len (en_spans e)"
proof -
  have wf: "storage_wf (en_spans e)" using assms(2) by (simp add: parse_inv_def)
  obtain st where st: "e' = e\<lparr>en_spans := st\<rparr>"
    "(src = FromInput \<and> try_push_input_bounded a b q (max_fields (en_limits e)) (max_field_bytes (en_limits e)) (en_spans e) = Some st) \<or>
     (src = FromScratch \<and> try_push_scratch_bounded a b q (max_fields (en_limits e)) (max_field_bytes (en_limits e)) (en_spans e) = Some st)"
    using assms(1) by (auto simp: push_span_def split: option.splits source.splits)
  have pushed: "(a \<le> b \<and> b - a \<le> max_field_bytes (en_limits e) \<and> b \<le> input_len (en_spans e) \<and>
      storage_len (en_spans e) < max_fields (en_limits e)) \<and>
    (storage_wf st \<and> ss_spans st = ss_spans (en_spans e) @ [from_range_unchecked src a b q] \<and>
      ss_scratch st = ss_scratch (en_spans e) \<and> input_len st = input_len (en_spans e))"
    using st(2)
  proof
    assume f: "src = FromInput \<and> try_push_input_bounded a b q (max_fields (en_limits e))
        (max_field_bytes (en_limits e)) (en_spans e) = Some st"
    show ?thesis using try_push_input_wf [OF conjunct2 [OF f] wf] f by simp
  next
    assume f: "src = FromScratch \<and> try_push_scratch_bounded a b q (max_fields (en_limits e))
        (max_field_bytes (en_limits e)) (en_spans e) = Some st"
    then have "b \<le> input_len (en_spans e)" by (auto simp: try_push_scratch_bounded_def split: if_splits)
    then show ?thesis using try_push_scratch_wf [OF conjunct2 [OF f] wf] f by simp
  qed
  then have props: "storage_wf st" "ss_spans st = ss_spans (en_spans e) @ [from_range_unchecked src a b q]"
    "a \<le> b" "b - a \<le> max_field_bytes (en_limits e)" "b \<le> input_len (en_spans e)"
    "storage_len (en_spans e) < max_fields (en_limits e)" "ss_scratch st = ss_scratch (en_spans e)"
    "input_len st = input_len (en_spans e)" by simp_all
  have off: "a \<le> MAX_OFFSET" "b \<le> MAX_OFFSET" using wf_offsets [OF wf] props by auto
  show "parse_inv input rs e'"
    using assms(2) st props
    by (auto simp: parse_inv_def storage_len_def field_width_def span_of_range [OF off])
  show "e' = e\<lparr>en_spans := en_spans e'\<rparr>"
    "ss_spans (en_spans e') = ss_spans (en_spans e) @ [from_range_unchecked src a b q]"
    "ss_scratch (en_spans e') = ss_scratch (en_spans e)" "input_len (en_spans e') = input_len (en_spans e)"
    using st props by simp_all
qed

lemma good_push_span: "parse_inv input rs e \<Longrightarrow> good input rs e (push_span input src a b at q e)"
proof (cases "push_span input src a b at q e")
  case (Pair e' r)
  assume inv: "parse_inv input rs e"
  have conf: "config_of e' = config_of e" and r: "r \<noteq> Panic"
    using Pair by (auto simp: push_span_def split: option.splits)
  then show ?thesis
    using Pair push_span_Ok(1) [OF _ inv] by (cases r) (auto simp: good_def)
qed

lemma good_push_null_span:
  assumes "parse_inv input rs e" "at \<le> length input"
  shows "good input rs e (push_null_span input at e)"
proof -
  have wf: "storage_wf (en_spans e)" "at \<le> input_len (en_spans e)" using assms by (simp_all add: parse_inv_def)
  obtain s where s: "storage_push_null at (en_spans e) = Ok (en_spans e\<lparr>ss_spans := ss_spans (en_spans e) @ [s]\<rparr>)"
    "storage_wf (en_spans e\<lparr>ss_spans := ss_spans (en_spans e) @ [s]\<rparr>)" "from_valid_null FromInput at = Ok s"
    using storage_push_null_wf [OF wf] by blast
  have "field_width s = 0"
    using span_of_null [OF wf_offsets [OF wf]] s(3) by (auto simp: field_width_def)
  then show ?thesis
    using assms s by (auto simp: push_null_span_def good_def parse_inv_def storage_len_def)
qed

lemma unescape_into_grows:
  "ss_spans (unescape_into mysql esc input seg cur fe st) = ss_spans st \<and>
   grows st (unescape_into mysql esc input seg cur fe st)"
proof (induction mysql esc input seg cur fe st rule: unescape_into.induct)
  case (1 mysql esc input seg cur fe st)
  have ext: "grows st (scratch_extend bs st) \<and> ss_spans (scratch_extend bs st) = ss_spans st" for bs
    by (auto simp: grows_def scratch_extend_def input_len_def)
  have push: "grows st (scratch_push b (scratch_extend bs st)) \<and>
      ss_spans (scratch_push b (scratch_extend bs st)) = ss_spans st" for b bs
    by (auto simp: grows_def scratch_extend_def scratch_push_def input_len_def)
  show ?case
  proof (cases "find1 esc (slice input cur fe)")
    case None
    then show ?thesis using ext by (simp add: unescape_into.simps [of mysql esc input seg cur fe st])
  next
    case (Some i)
    note eq = unescape_into.simps [of mysql esc input seg cur fe st]
    have step: "grows st (unescape_into mysql esc input k k fe (scratch_push b (scratch_extend bs st))) \<and>
        ss_spans (unescape_into mysql esc input k k fe (scratch_push b (scratch_extend bs st))) = ss_spans st"
      if "ss_spans (unescape_into mysql esc input k k fe (scratch_push b (scratch_extend bs st))) =
          ss_spans (scratch_push b (scratch_extend bs st)) \<and>
        grows (scratch_push b (scratch_extend bs st))
          (unescape_into mysql esc input k k fe (scratch_push b (scratch_extend bs st)))" for k b bs
      using that push [of b bs] grows_trans by metis
    show ?thesis
    proof (cases "cur + i + 1 < fe")
      case True
      then show ?thesis
        using step [OF 1(1) [OF Some refl refl True refl refl]] eq Some
        by (simp add: Let_def cong: if_cong split del: if_split)
    next
      case False
      then show ?thesis using step [OF 1(2) [OF Some refl refl False]] eq Some by (simp add: Let_def)
    qed
  qed
qed

lemma grows_keeps_inv:
  assumes "parse_inv input rs e" "grows (en_spans e) st" "ss_spans st = ss_spans (en_spans e)"
  shows "parse_inv input rs (e\<lparr>en_spans := st\<rparr>)"
  using assms span_fits_grows [OF assms(2)]
  by (auto simp: parse_inv_def storage_wf_def storage_len_def grows_def)

lemma good_push_unescaped:
  assumes "parse_inv input rs e"
  shows "good input rs e (push_unescaped_span input esc fs fe at e)"
proof -
  let ?st = "unescape_into (escape (en_dialect e) = EscapeMysql) esc input fs fs fe (en_spans e)"
  let ?e = "e\<lparr>en_spans := ?st\<rparr>"
  have inv: "parse_inv input rs ?e" using grows_keeps_inv [OF assms] unescape_into_grows by blast
  have le: "scratch_len (en_spans e) \<le> scratch_len (en_spans ?e)"
    using unescape_into_grows [of "escape (en_dialect e) = EscapeMysql" esc input fs fs fe "en_spans e"]
    by (auto simp: grows_def scratch_len_def)
  have "good input rs ?e (push_unescaped_span input esc fs fe at e)"
    unfolding push_unescaped_span_def Let_def
    by (rule good_bind, rule good_scratch_limit [OF inv le], rule good_push_span)
  then show ?thesis by (rule good_mono) simp
qed

lemma good_push_general:
  assumes "parse_inv input rs e" "fs \<le> fe" "fe \<le> length input"
  shows "good input rs e (push_general_unquoted_span input fs fe at header e)"
  using assms good_push_null_span [OF assms(1)] good_push_unescaped [OF assms(1)] good_push_span [OF assms(1)]
  by (auto simp: push_general_unquoted_span_def get_range_def split: option.splits)

section \<open>Unquoted fields\<close>

lemma tail_confirms_width:
  assumes "tail_confirms t (drop (at + 1) input)" "tail_wf t" "\<not> tail_unusable t" "at < length input"
  shows "at + tail_width t \<le> length input"
  using assms tail_width_slice [OF assms(2,3)] by (auto simp: tail_confirms_def)

lemma inv_location: "parse_inv input rs e \<Longrightarrow> rs \<le> n \<Longrightarrow> n \<le> length input \<Longrightarrow> parse_inv input rs (e\<lparr>en_location := n\<rparr>)"
  by (simp add: parse_inv_def)

lemma inv_terminated [simp]:
  "parse_inv input rs (note_terminated e) = parse_inv input rs e"
  "parse_inv input rs (clear_terminated e) = parse_inv input rs e"
  by (simp_all add: parse_inv_def note_terminated_def clear_terminated_def)

lemma location_terminated [simp]:
  "en_location (note_terminated e) = en_location e" "en_location (clear_terminated e) = en_location e"
  by (simp_all add: note_terminated_def clear_terminated_def)

lemma good_end_general_field:
  assumes "parse_inv input rs e" "fs \<le> fe" "fe \<le> length input" "rs \<le> resume" "resume \<le> length input"
  shows "good input rs e (end_general_field input rs header fs fe at resume ends e)"
  unfolding end_general_field_def Let_def
  by (rule good_bind, rule good_push_general [OF assms(1-3)], rule good_mono, rule good_bind,
      rule good_record_limit) (use assms in \<open>auto simp: inv_location\<close>)

lemma inv_length: "parse_inv input rs e \<Longrightarrow> length input < usize_max"
  by (auto simp: parse_inv_def storage_wf_def max_offset_value usize_max_def)

lemma scan_end_above_record:
  assumes "parse_inv input rs e" "rs \<le> fs"
  shows "rs \<le> scan_end e input rs fs"
  using assms inv_length [OF assms(1)] scan_end_ge [of rs input fs e]
  by (auto simp: scan_end_def sat_add_def Let_def parse_inv_def)

text \<open>A scan that stops before the field was cut by the record limit, which the check then reports.\<close>

lemma scan_end_above_field:
  assumes "parse_inv input rs e" "fs \<le> length input"
    "scan_end e input rs fs - rs \<le> max_record_bytes (en_limits e)"
  shows "fs \<le> scan_end e input rs fs"
  using assms inv_length [OF assms(1)] by (auto simp: scan_end_def sat_add_def Let_def min_def split: if_splits)

lemma roomy_scan_end:
  assumes "roomy input e" "rs \<le> length input" "fs \<le> length input"
  shows "scan_end e input rs fs = length input"
  using assms by (auto simp: roomy_def scan_end_def sat_add_def Let_def min_def)

lemma good_end_of_scan:
  assumes "parse_inv input rs e" "rs \<le> fs" "fs \<le> length input"
    "\<And>stop. fs \<le> stop \<Longrightarrow> stop \<le> length input \<Longrightarrow> stop = scan_end e input rs fs \<Longrightarrow> good input rs e (m stop e)"
  shows "good input rs e (bind_step (check_scan_end input (scan_end e input rs fs) rs fs) (\<lambda>_.
      bind_step (m (scan_end e input rs fs))
        (\<lambda>_ e'. (clear_terminated (e'\<lparr>en_location := scan_end e input rs fs\<rparr>), Ok True))) e)"
proof -
  have ge: "rs \<le> scan_end e input rs fs" by (rule scan_end_above_record [OF assms(1,2)])
  show ?thesis
  proof (rule good_bind, rule good_scan_end [OF assms(1) ge])
    fix e1 u
    assume "check_scan_end input (scan_end e input rs fs) rs fs e = (e1, Ok u)"
    then have e1: "e1 = e" and "fs \<le> scan_end e input rs fs"
      using scan_end_above_field [OF assms(1,3)] by auto
    then have m: "good input rs e1 (m (scan_end e input rs fs) e1)" using assms(4) by simp
    show "good input rs e1 (bind_step (m (scan_end e input rs fs))
        (\<lambda>_ e'. (clear_terminated (e'\<lparr>en_location := scan_end e input rs fs\<rparr>), Ok True)) e1)"
      by (rule good_bind, rule m) (use ge in \<open>auto simp: inv_location\<close>)
  qed
qed

lemma slice_index: "i < length (slice xs a b) \<Longrightarrow> a + i < length xs \<and> a + i < b"
  by auto

lemma good_general_loop:
  assumes "parse_inv input rs e" "tails_wf (en_dialect e)" "rs \<le> fs" "fs \<le> length input" "fs \<le> cursor"
  shows "good input rs e (general_unquoted_loop ex input rs header fs cursor e)"
  using assms
proof (induction ex input rs header fs cursor e rule: general_unquoted_loop.induct)
  case (1 ex input rs header fs cursor e)
  let ?stop = "scan_end e input rs fs"
  note eq = general_unquoted_loop.simps [of ex input rs header fs cursor e]
  show ?case
  proof (cases "?stop \<le> cursor")
    case True
    have "good input rs e (bind_step (check_scan_end input ?stop rs fs) (\<lambda>_.
        bind_step (push_general_unquoted_span input fs ?stop ?stop header)
          (\<lambda>_ e'. (clear_terminated (e'\<lparr>en_location := ?stop\<rparr>), Ok True))) e)"
      by (rule good_end_of_scan [where m = "\<lambda>stop. push_general_unquoted_span input fs stop stop header",
            OF 1(5,7,8)])
        (rule good_push_general [OF 1(5)], auto)
    then show ?thesis using True by (simp add: eq Let_def)
  next
    case False
    then have c: "cursor < length input" using before_scan_end by blast
    show ?thesis
    proof (cases "next_stop e ex (slice input cursor ?stop)")
      case None
      then show ?thesis using 1(1) [OF False None 1(5-8)] 1(9) False by (simp add: eq)
    next
      case (Some i)
      let ?at = "cursor + i"
      have at: "?at < length input" "fs \<le> ?at" "rs \<le> ?at"
        using slice_index [OF next_stop_less [OF Some]] 1(7,9) by auto
      have w: "tail_confirms (ending_tail (en_dialect e)) (drop (?at + 1) input) \<Longrightarrow>
            ?at + tail_width (ending_tail (en_dialect e)) \<le> length input"
          "tail_confirms (delimiter_tail (en_dialect e)) (drop (?at + 1) input) \<Longrightarrow>
            ?at + tail_width (delimiter_tail (en_dialect e)) \<le> length input"
        using tail_confirms_width at(1) 1(6) by (auto simp: tails_wf_def)
      have fe: "fs \<le> (if b \<and> fs < ?at \<and> x then ?at - 1 else ?at)" for b x using at by auto
      have resume: "fs \<le> resume_after_unquoted_escape input ?at"
        using at by (simp add: resume_after_unquoted_escape_def)
      have escaped: "unquoted_escape e = Some (input ! ?at) \<Longrightarrow>
          good input rs e (general_unquoted_loop ex input rs header fs (resume_after_unquoted_escape input ?at) e)"
        using 1(2) [OF False Some _ 1(5-8) resume] by simp
      have ends: "good input rs e (end_general_field input rs header fs fe' ?at n b e)"
        if "fs \<le> fe'" "fe' \<le> ?at" "?at \<le> n" "n \<le> length input" for fe' n b
        by (rule good_end_general_field) (use that at 1(5) in auto)
      show ?thesis
        unfolding eq if_not_P [OF False] Some option.case Let_def
        apply (intro good_if good_fail)
        subgoal by (rule escaped)
        subgoal by (rule ends) (use at in \<open>auto simp: get_at_Some_iff\<close>)
        subgoal by (rule 1(3) [OF False Some]) (use 1(5-9) at in auto)
        subgoal by (rule ends) (use at fe w in auto)
        subgoal by (rule 1(4) [OF False Some]) (use 1(5-9) at in auto)
        subgoal by (rule ends) (use at w in auto)
        done
    qed
  qed
qed

lemma good_unquoted_runtime:
  assumes "parse_inv input rs e"
  shows "good input rs e (parse_unquoted_field_runtime input rs dl qt tm q uq st e)"
proof -
  let ?fs = "en_location e"
  let ?stop = "scan_end e input rs ?fs"
  have loc: "rs \<le> ?fs" "?fs \<le> length input" using assms by (auto simp: parse_inv_def)
  show ?thesis
  proof (cases "?fs \<le> ?stop")
    case False
    then have "\<not> roomy input e" using roomy_scan_end [of input e rs ?fs] loc by force
    then show ?thesis using False
      by (simp add: parse_unquoted_field_runtime_def get_range_def good_def)
  next
    case True
    then have range: "get_range input ?fs ?stop = Some (slice input ?fs ?stop)" by (simp add: get_range_def)
    let ?rest = "slice input ?fs ?stop"
    let ?find = "if q \<and> \<not> uq then find3 dl qt tm ?rest else find2 dl tm ?rest"
    show ?thesis
    proof (cases ?find)
      case None
      have "good input rs e (bind_step (check_scan_end input ?stop rs ?fs) (\<lambda>_.
          bind_step (push_span input FromInput ?fs ?stop ?stop False)
            (\<lambda>_ e'. (clear_terminated (e'\<lparr>en_location := ?stop\<rparr>), Ok True))) e)"
        by (rule good_end_of_scan [where m = "\<lambda>stop. push_span input FromInput ?fs stop stop False",
              OF assms loc]) (rule good_push_span [OF assms])
      then show ?thesis using None range
        by (simp add: parse_unquoted_field_runtime_def Let_def split del: if_split)
    next
      case (Some i)
      then have "i < length ?rest" by (auto simp: find_simps dest!: position_less split: if_splits)
      then have at: "?fs + i < length input" "rs \<le> ?fs + i"
        using loc slice_index [of i input ?fs ?stop] by auto
      have pushed: "good input rs e (bind_step (push_span input FromInput ?fs fe (?fs + i) False) (\<lambda>_ e1.
          let e2 = e1\<lparr>en_location := ?fs + i + 1\<rparr>; e3 = (if trm then note_terminated e2 else e2)
          in bind_step (check_record_limit input rs (en_location e3)) (\<lambda>_. return_step trm) e3) e)" for fe trm
        unfolding Let_def
        by (rule good_bind, rule good_push_span [OF assms], rule good_mono, rule good_bind, rule good_record_limit)
          (use at in \<open>auto simp: inv_location\<close>)
      then show ?thesis using Some range
        by (simp add: parse_unquoted_field_runtime_def Let_def good_if split del: if_split)
    qed
  qed
qed

section \<open>Quoted fields\<close>

lemma good_finish_quoted:
  assumes "parse_inv input rs e" "rs \<le> closed" "closed \<le> length input" "tail_wf (qc_delimiter_tail cfg)"
    "\<not> tail_unusable (qc_delimiter_tail cfg)" "tail_wf (qc_ending_tail cfg)" "\<not> tail_unusable (qc_ending_tail cfg)"
  shows "good input rs e (finish_quoted_field input rs closed cfg e)"
proof -
  let ?a = "skip_post_quote_whitespace input closed (qc_trailing_ws cfg)"
  have ws: "at \<le> length input \<Longrightarrow> at \<le> skip_whitespace_from input at \<and> skip_whitespace_from input at \<le> length input" for at
  proof (induction input at rule: skip_whitespace_from.induct)
    case (1 input at)
    then show ?case by (auto simp: skip_whitespace_from.simps [of input at] get_at_Some_iff)
  qed
  have a: "closed \<le> ?a" "?a \<le> length input"
    using ws [OF assms(3)] assms(3) by (auto simp: skip_post_quote_whitespace_def)
  have noted: "good input rs e (bind_step (check_record_limit input rs (en_location (note_terminated (e\<lparr>en_location := n\<rparr>))))
      (\<lambda>_. return_step True) (note_terminated (e\<lparr>en_location := n\<rparr>)))" if "closed \<le> n" "n \<le> length input" for n
    by (rule good_mono, rule good_bind, rule good_record_limit)
      (use that assms(1,2) in \<open>auto simp: inv_location\<close>)
  have cleared: "good input rs e (bind_step (check_record_limit input rs (en_location (clear_terminated (e\<lparr>en_location := n\<rparr>))))
      (\<lambda>_. return_step True) (clear_terminated (e\<lparr>en_location := n\<rparr>)))" if "closed \<le> n" "n \<le> length input" for n
    by (rule good_mono, rule good_bind, rule good_record_limit)
      (use that assms(1,2) in \<open>auto simp: inv_location\<close>)
  have w: "?a < length input \<Longrightarrow> tail_confirms (qc_delimiter_tail cfg) (drop (?a + 1) input) \<Longrightarrow>
      ?a + tail_width (qc_delimiter_tail cfg) \<le> length input"
    "?a < length input \<Longrightarrow> tail_confirms (qc_ending_tail cfg) (drop (?a + 1) input) \<Longrightarrow>
      ?a + tail_width (qc_ending_tail cfg) \<le> length input"
    using tail_confirms_width assms(4-7) by auto
  show ?thesis
  proof (cases "get_at input ?a")
    case None
    then show ?thesis using cleared a by (simp add: finish_quoted_field_def Let_def)
  next
    case (Some nxt)
    then have len: "?a < length input" by (simp add: get_at_Some_iff)
    have two: "get_at input (?a + 1) = Some LF \<Longrightarrow> ?a + 2 \<le> length input" by (simp add: get_at_Some_iff)
    show ?thesis
      unfolding finish_quoted_field_def Let_def Some option.case
      by (intro good_if) (use a w [OF len] two noted assms(1,2) in \<open>auto simp: inv_location\<close>)
  qed
qed

lemma scratch_grows:
  "grows st (scratch_push b st)" "ss_spans (scratch_push b st) = ss_spans st"
  "grows st (scratch_extend bs st)" "ss_spans (scratch_extend bs st) = ss_spans st"
  "grows st (copy_segment input copied cs seg at st)" "ss_spans (copy_segment input copied cs seg at st) = ss_spans st"
  by (auto simp: grows_def scratch_push_def scratch_extend_def input_len_def copy_segment_def Let_def)

lemma grows_scratch_len: "grows st st' \<Longrightarrow> scratch_len st \<le> scratch_len st'"
  by (auto simp: grows_def scratch_len_def)

lemma good_take_escape:
  assumes "parse_inv input rs e" "ss \<le> scratch_len (en_spans e)"
  shows "good input rs e (take_escape input copied cs seg at b ss e)"
    "take_escape input copied cs seg at b ss e = (e', Ok u) \<Longrightarrow> ss \<le> scratch_len (en_spans e')"
proof -
  let ?st = "scratch_push b (copy_segment input copied cs seg at (en_spans e))"
  have g: "grows (en_spans e) ?st" "ss_spans ?st = ss_spans (en_spans e)"
    using scratch_grows grows_trans by metis+
  have inv: "parse_inv input rs (e\<lparr>en_spans := ?st\<rparr>)" by (rule grows_keeps_inv [OF assms(1) g])
  have le: "ss \<le> scratch_len (en_spans (e\<lparr>en_spans := ?st\<rparr>))"
    using grows_scratch_len [OF g(1)] assms(2) by simp
  show "good input rs e (take_escape input copied cs seg at b ss e)"
    unfolding take_escape_def Let_def
    by (rule good_mono, rule good_scratch_limit [OF inv le]) simp
  show "take_escape input copied cs seg at b ss e = (e', Ok u) \<Longrightarrow> ss \<le> scratch_len (en_spans e')"
    using le by (auto simp: take_escape_def Let_def)
qed

definition config_tails_wf :: "quoted_config \<Rightarrow> bool" where
  "config_tails_wf cfg \<longleftrightarrow> tail_wf (qc_delimiter_tail cfg) \<and> \<not> tail_unusable (qc_delimiter_tail cfg) \<and>
     tail_wf (qc_ending_tail cfg) \<and> \<not> tail_unusable (qc_ending_tail cfg)"

lemma good_close_quoted:
  assumes "parse_inv input rs e" "rs \<le> at" "at < length input" "config_tails_wf cfg"
  shows "good input rs e (close_quoted input rs cfg cs ss seg copied at e)"
proof -
  let ?e = "if copied then e\<lparr>en_spans := scratch_extend (slice input seg at) (en_spans e)\<rparr> else e"
  have inv: "parse_inv input rs ?e"
    using assms(1) grows_keeps_inv [OF assms(1) scratch_grows(3,4)] by simp
  have conf: "config_of ?e = config_of e" by simp
  have push: "good input rs ?e ((if copied then push_span input FromScratch ss n at True
      else push_span input FromInput cs at at True) ?e)" for n
    using good_push_span [OF inv] by (cases copied) simp_all
  have "good input rs ?e (bind_step (if copied then push_span input FromScratch ss n at True
      else push_span input FromInput cs at at True) (\<lambda>_. finish_quoted_field input rs (at + 1) cfg) ?e)" for n
    by (rule good_bind, rule push)
      (use assms in \<open>auto simp: config_tails_wf_def intro!: good_finish_quoted\<close>)
  from good_mono [OF this conf] show ?thesis unfolding close_quoted_def Let_def .
qed

lemma good_parse_quoted_loop:
  assumes "parse_inv input rs e" "rs \<le> cs" "cs \<le> cursor" "cursor \<le> length input"
    "ss \<le> scratch_len (en_spans e)" "config_tails_wf cfg"
  shows "good input rs e (parse_quoted_loop input rs cfg cs ss seg cursor copied e)"
  using assms
proof (induction input rs cfg cs ss seg cursor copied e rule: parse_quoted_loop.induct)
  case (1 input rs cfg cs ss seg cursor copied e)
  note eq = parse_quoted_loop.simps [of input rs cfg cs ss seg cursor copied e]
  let ?stop = "scan_end e input rs cs"
  have above: "rs \<le> ?stop" by (rule scan_end_above_record [OF 1(2,3)])
  show ?case
  proof (cases "get_range input cursor ?stop")
    case None
    then have "\<not> roomy input e"
      using roomy_scan_end [of input e rs cs] 1(2-5) by (auto simp: get_range_def parse_inv_def)
    then show ?thesis
      using None good_record_limit [OF 1(2) above]
      by (auto simp: eq Let_def good_def split: prod.splits outcome.splits)
  next
    case (Some remaining)
    have slice: "remaining = slice input cursor ?stop" using Some by (simp add: get_range_def split: if_splits)
    show ?thesis
    proof (cases "quoted_stop cfg remaining")
      case None
      have "good input rs e (bind_step (check_scan_end input ?stop rs cs) (\<lambda>_. fail_at input UnterminatedQuotedField ?stop) e)"
        by (rule good_bind, rule good_scan_end [OF 1(2) above]) simp
      then show ?thesis using Some None by (simp add: eq Let_def)
    next
      case stop: (Some i)
      let ?at = "cursor + i"
      have at: "?at < length input" "rs \<le> ?at"
        using slice_index [OF quoted_stop_less [OF stop [unfolded slice]]] 1(3,4) by auto
      show ?thesis
      proof (cases "quoted_event_at input cfg ?stop ?at")
        case (Escaped b)
        have next_in: "?at + 2 \<le> length input"
          using Escaped by (auto simp: quoted_event_at_def Let_def get_at_Some_iff split: if_splits option.splits)
        obtain e1 r where t: "take_escape input copied cs seg ?at b ss e = (e1, r)" by fastforce
        have g: "good input rs e (e1, r)" using good_take_escape(1) [OF 1(2,6)] t by metis
        show ?thesis
        proof (cases r)
          case (Ok u)
          have e1: "config_of e1 = config_of e" "parse_inv input rs e1" using g Ok by simp_all
          have "ss \<le> scratch_len (en_spans e1)" using good_take_escape(2) [OF 1(2,6)] t Ok by blast
          then have "good input rs e1 (parse_quoted_loop input rs cfg cs ss (?at + 2) (?at + 2) True e1)"
            using 1(1) [OF refl Some stop Escaped t [symmetric] Ok e1(2) 1(3) _ next_in _ 1(7)] 1(4) by simp
          then have "good input rs e (parse_quoted_loop input rs cfg cs ss (?at + 2) (?at + 2) True e1)"
            by (rule good_mono) (rule e1(1))
          then show ?thesis using Some stop Escaped t Ok by (simp add: eq Let_def)
        next
          case (Err er)
          then show ?thesis using Some stop Escaped t g by (simp add: eq Let_def)
        next
          case Panic
          then show ?thesis using Some stop Escaped t g by (simp add: eq Let_def good_def)
        qed
      next
        case ClosingQuote
        then show ?thesis
          using Some stop good_close_quoted [OF 1(2) at(2,1) 1(7)] by (simp add: eq Let_def)
      next
        case BadQuoted
        then show ?thesis using Some stop by (simp add: eq Let_def)
      qed
    qed
  qed
qed

section \<open>Field parsers\<close>

text \<open>
  What the record loop relies on: from a state inside the window, a field parser keeps the contract,
  and one that reports no record end has moved forward.
\<close>

locale field_parser =
  fixes ready :: "bytes \<Rightarrow> engine \<Rightarrow> bool"
    and parse :: "bytes \<Rightarrow> nat \<Rightarrow> bool step"
  assumes parse_good: "ready input e \<Longrightarrow> engine_wf e \<Longrightarrow> parse_inv input rs e \<Longrightarrow> good input rs e (parse input rs e)"
    and parse_moves: "parse input rs e = (e', Ok False) \<Longrightarrow>
      en_location e < length input \<and> en_location e < en_location e'"
begin

lemma parse_keeps:
  assumes "ready input e" "engine_wf e" "parse_inv input rs e" "parse input rs e = (e', Ok ended)"
  shows "parse_inv input rs e'" "config_of e' = config_of e"
  using parse_good [OF assms(1-3)] assms(4) by (simp_all add: good_def)

lemma parse_panics_only_when_tight:
  assumes "ready input e" "engine_wf e" "parse_inv input rs e" "roomy input e"
  shows "snd (parse input rs e) \<noteq> Panic"
  using parse_good [OF assms(1-3)] assms(4) by (auto simp: good_def split: prod.splits)

lemma parse_shrinks:
  assumes "ready input e" "engine_wf e" "parse_inv input rs e" "parse input rs e = (e', Ok False)"
  shows "length input - en_location e' < length input - en_location e"
  using parse_moves [OF assms(4)] by (auto intro: diff_less_mono2)

end

lemma good_parse_quoted_field:
  assumes "parse_inv input rs e" "engine_wf e" "format_matches opts e" "en_location e < length input"
  shows "good input rs e (parse_quoted_field opts input rs e)"
  unfolding parse_quoted_field_def Let_def
  by (rule good_parse_quoted_loop)
    (use assms in \<open>auto simp: parse_inv_def config_tails_wf_def fmt_of_engine engine_wf_def tails_wf_def\<close>)

lemma good_parse_unquoted_field:
  assumes "parse_inv input rs e" "engine_wf e"
  shows "good input rs e (parse_unquoted_field opts input rs header e)"
  using good_general_loop [OF assms(1)] good_unquoted_runtime [OF assms(1)] assms
  by (auto simp: parse_unquoted_field_def parse_general_unquoted_field_def Let_def engine_wf_def parse_inv_def)

interpretation quoted: field_parser
  "\<lambda>input e. format_matches opts e \<and> en_location e < length input" "parse_quoted_field opts"
proof
  fix input rs e e'
  show "format_matches opts e \<and> en_location e < length input \<Longrightarrow> engine_wf e \<Longrightarrow> parse_inv input rs e \<Longrightarrow>
      good input rs e (parse_quoted_field opts input rs e)"
    using good_parse_quoted_field by blast
  show "parse_quoted_field opts input rs e = (e', Ok False) \<Longrightarrow>
      en_location e < length input \<and> en_location e < en_location e'"
    using parse_field_progress by blast
qed

interpretation unquoted: field_parser "\<lambda>_ _. True" "\<lambda>input rs. parse_unquoted_field opts input rs header"
proof
  fix input rs e e'
  show "engine_wf e \<Longrightarrow> parse_inv input rs e \<Longrightarrow> good input rs e (parse_unquoted_field opts input rs header e)"
    using good_parse_unquoted_field by blast
  show "parse_unquoted_field opts input rs header e = (e', Ok False) \<Longrightarrow>
      en_location e < length input \<and> en_location e < en_location e'"
    using parse_field_progress by blast
qed

lemma good_skip_loop:
  "parse_inv input rs e \<Longrightarrow> good input rs e (skip_delimiter_spaces_loop input rs field e)"
proof (induction input rs field e rule: skip_delimiter_spaces_loop.induct)
  case (1 input rs field e)
  note eq = skip_delimiter_spaces_loop.simps [of input rs field e]
  let ?e = "e\<lparr>en_location := en_location e + 1\<rparr>"
  show ?case
  proof (cases "get_at input (en_location e) = Some 32")
    case True
    then have inv: "parse_inv input rs ?e" using 1(2) by (auto simp: parse_inv_def get_at_Some_iff)
    obtain e1 r where c: "check_record_limit_for input rs (en_location ?e) field ?e = (e1, r)" by fastforce
    have e1: "e1 = ?e \<and> r \<noteq> Panic"
      using c inv by (auto simp: check_record_limit_for_def parse_inv_def split: if_splits)
    show ?thesis
    proof (cases r)
      case (Ok u)
      then have "good input rs ?e (skip_delimiter_spaces_loop input rs field ?e)"
        using 1(1) [OF True refl c [symmetric]] inv by simp
      then have "good input rs e (skip_delimiter_spaces_loop input rs field ?e)" by (rule good_mono) simp
      then show ?thesis using True c Ok by (simp add: eq)
    next
      case (Err er)
      then show ?thesis using True c e1 by (simp add: eq)
    next
      case Panic
      then show ?thesis using e1 by simp
    qed
  next
    case False
    then show ?thesis using 1(2) by (simp add: eq)
  qed
qed

lemma good_parse_one_field:
  assumes "parse_inv input rs e" "engine_wf e" "format_matches opts e"
  shows "good input rs e (parse_one_field opts input rs header e)"
  unfolding parse_one_field_def
proof (rule good_bind)
  show "good input rs e (skip_delimiter_spaces opts input rs e)"
    using good_skip_loop [OF assms(1)] assms(1) by (simp add: skip_delimiter_spaces_def skip_delimiter_spaces_for_def)
  fix e1 u
  assume e1: "config_of e1 = config_of e" "parse_inv input rs e1"
  then have "engine_wf e1" "format_matches opts e1"
    using assms engine_wf_config format_matches_config by blast+
  then show "good input rs e1 (if get_at input (en_location e1) = Some (fmt_quote opts e1) \<and> fmt_quoting_enabled opts e1
      then parse_quoted_field opts input rs e1 else parse_unquoted_field opts input rs header e1)"
    using quoted.parse_good unquoted.parse_good e1(2) by (auto simp: get_at_Some_iff)
qed

interpretation one_field: field_parser "\<lambda>_. format_matches opts" "\<lambda>input rs. parse_one_field opts input rs header"
proof
  fix input rs e e'
  show "format_matches opts e \<Longrightarrow> engine_wf e \<Longrightarrow> parse_inv input rs e \<Longrightarrow>
      good input rs e (parse_one_field opts input rs header e)"
    using good_parse_one_field by blast
  show "parse_one_field opts input rs header e = (e', Ok False) \<Longrightarrow>
      en_location e < length input \<and> en_location e < en_location e'"
    using parse_one_field_progress by blast
qed

section \<open>A whole record\<close>

lemma inv_spans:
  assumes "parse_inv input rs e" "storage_wf (en_spans e\<lparr>ss_spans := spans\<rparr>)"
    "list_all2 (\<lambda>s s'. field_width s' \<le> field_width s) (ss_spans (en_spans e)) spans"
  shows "parse_inv input rs (e\<lparr>en_spans := en_spans e\<lparr>ss_spans := spans\<rparr>\<rparr>)"
proof -
  have "length spans = length (ss_spans (en_spans e))" using assms(3) list_all2_lengthD by metis
  moreover have "\<forall>s' \<in> set spans. field_width s' \<le> max_field_bytes (en_limits e)"
  proof
    fix s' assume "s' \<in> set spans"
    then obtain i where i: "i < length spans" "s' = spans ! i" by (auto simp: in_set_conv_nth)
    then have "field_width s' \<le> field_width (ss_spans (en_spans e) ! i)" "i < length (ss_spans (en_spans e))"
      using assms(3) by (auto simp: list_all2_conv_all_nth)
    then show "field_width s' \<le> max_field_bytes (en_limits e)"
      using assms(1) nth_mem by (fastforce simp: parse_inv_def)
  qed
  ultimately show ?thesis using assms(1,2) by (simp add: parse_inv_def storage_len_def)
qed

lemma good_mark_nulls:
  assumes "parse_inv input rs e"
  shows "good input rs e (mark_null_spans_cold input n e)"
proof -
  have wf: "storage_wf (en_spans e)" "input_len (en_spans e) \<le> length input" using assms by (simp_all add: parse_inv_def)
  obtain spans where s: "mark_input_nulls input (raw_field_is_null n) (en_spans e) = Ok (en_spans e\<lparr>ss_spans := spans\<rparr>)"
    "storage_wf (en_spans e\<lparr>ss_spans := spans\<rparr>)"
    "list_all2 (\<lambda>s s'. s' = s \<or> span_is_null s' \<and> span_end s' = span_start s') (ss_spans (en_spans e)) spans"
    using mark_input_nulls_wf [OF wf] by blast
  have "list_all2 (\<lambda>s s'. field_width s' \<le> field_width s) (ss_spans (en_spans e)) spans"
    by (rule list_all2_mono [OF s(3)]) (auto simp: field_width_def)
  then show ?thesis using inv_spans [OF assms s(2)] s(1) by (simp add: mark_null_spans_cold_def)
qed

lemma good_trim:
  assumes "parse_inv input rs e"
  shows "good input rs e (trim_spans input header e)"
proof -
  have wf: "storage_wf (en_spans e)" "input_len (en_spans e) \<le> length input" using assms by (simp_all add: parse_inv_def)
  obtain spans where s: "trim_ascii_where input (ws_applies (en_trim e) header) (en_spans e) = Ok (en_spans e\<lparr>ss_spans := spans\<rparr>)"
    "storage_wf (en_spans e\<lparr>ss_spans := spans\<rparr>)"
    "list_all2 (\<lambda>s s'. span_is_null s' = span_is_null s \<and> span_end s' - span_start s' \<le> span_end s - span_start s)
      (ss_spans (en_spans e)) spans"
    using trim_ascii_where_wf [OF wf] by blast
  have "list_all2 (\<lambda>s s'. field_width s' \<le> field_width s) (ss_spans (en_spans e)) spans"
    by (rule list_all2_mono [OF s(3)]) (auto simp: field_width_def)
  then show ?thesis using inv_spans [OF assms s(2)] s(1) assms by (simp add: trim_spans_def)
qed

lemma good_validate_count: "parse_inv input rs e \<Longrightarrow> good input rs e (validate_count input n e)"
  by (auto simp: validate_count_def Let_def parse_inv_def split: field_count.split option.split)

lemma good_finish_general: "parse_inv input rs e \<Longrightarrow> good input rs e (finish_general_record opts input header e)"
  unfolding finish_general_record_def
  by (rule good_bind) (auto simp: mark_null_spans_def Let_def intro: good_mark_nulls good_validate_count)

lemma good_parse_record_fields:
  assumes "parse_inv input rs e" "engine_wf e" "format_matches opts e"
  shows "good input rs e (parse_record_fields opts input rs header e)"
  using assms
proof (induction opts input rs header e rule: parse_record_fields.induct)
  case (1 opts input rs header e)
  note eq = parse_record_fields.simps [of opts input rs header e]
  obtain e1 r where step: "parse_one_field opts input rs header e = (e1, r)" by fastforce
  have g: "good input rs e (e1, r)" using one_field.parse_good [OF 1(4,3,2)] step by metis
  show ?case
  proof (cases r)
    case (Ok ended)
    then have e1: "parse_inv input rs e1" "config_of e1 = config_of e"
      using one_field.parse_keeps [OF 1(4,3,2)] step by blast+
    have "good input rs e1 (if ended then finish_general_record opts input header e1
        else parse_record_fields opts input rs header e1)"
      using good_finish_general [OF e1(1)] 1(1) [OF step [symmetric] Ok _ e1(1)] 1(3,4)
        engine_wf_config [OF e1(2)] format_matches_config [OF e1(2)] by simp
    then have "good input rs e (if ended then finish_general_record opts input header e1
        else parse_record_fields opts input rs header e1)"
      by (rule good_mono) (rule e1(2))
    then show ?thesis using step Ok by (simp add: eq)
  next
    case (Err er)
    then show ?thesis using g step by (simp add: eq)
  next
    case Panic
    then show ?thesis using g step by (simp add: eq good_def)
  qed
qed

section \<open>The plain kernel\<close>

lemma good_fold [simp]: "parse_inv input rs (fold_plain_record opts rs0 t e) = parse_inv input rs e"
  "config_of (fold_plain_record opts rs0 t e) = config_of e"
  by (simp_all add: fold_plain_record_def parse_inv_def config_of_def)

lemma good_decline: "parse_inv input rs e \<Longrightarrow> good input rs e (decline e)"
  using clear_spans_wf [of "en_spans e"]
  by (auto simp: decline_def parse_inv_def clear_spans_def storage_len_def)

lemma good_commit:
  assumes "parse_inv input rs e" "rs \<le> n" "n \<le> length input" "f = note_terminated \<or> f = clear_terminated"
  shows "good input rs e (bind_step (push_span input FromInput a b at False) (\<lambda>_ e1.
    bind_step (check_record_limit input rs (en_location (f (e1\<lparr>en_location := n\<rparr>))))
      (\<lambda>_ e3. (fold_plain_record opts rs t e3, Ok True)) (f (e1\<lparr>en_location := n\<rparr>))) e)"
  by (rule good_bind, rule good_push_span [OF assms(1)], rule good_mono, rule good_bind, rule good_record_limit)
    (use assms(2-4) in \<open>auto simp: inv_location\<close>)

lemma good_kernel_loop:
  "parse_inv input rs e \<Longrightarrow> \<forall>(cursor, b) \<in> set found. rs \<le> cursor \<and> cursor < length input \<Longrightarrow>
     good input rs e (kernel_loop opts input rs found fs e)"
proof (induction opts input rs found fs e rule: kernel_loop.induct)
  case (1 opts input rs fs e)
  have "rs \<le> length input" using 1(1) by (simp add: parse_inv_def)
  then have "rs \<le> borrowed_scan_end e (length input) rs" "borrowed_scan_end e (length input) rs \<le> length input"
    using inv_length [OF 1(1)] by (auto simp: borrowed_scan_end_def sat_add_def)
  then show ?case
    using good_commit [OF 1(1), where f = clear_terminated] good_decline [OF 1(1)]
    by (auto simp: kernel_at_end_def Let_def intro!: good_if)
next
  case (2 opts input rs cursor b found fs e)
  have cur: "rs \<le> cursor" "cursor < length input" "\<forall>(c, b) \<in> set found. rs \<le> c \<and> c < length input"
    using 2(4) by auto
  have terminator: "good input rs e (kernel_at_terminator opts input rs fs cursor e)"
    using good_commit [OF 2(3), where f = note_terminated] good_decline [OF 2(3)] cur
    by (auto simp: kernel_at_terminator_def Let_def intro!: good_if)
  obtain e1 r where push: "push_span input FromInput fs cursor cursor False e = (e1, r)" by fastforce
  have g: "good input rs e (e1, r)" using good_push_span [OF 2(3)] push by metis
  have deliver: "good input rs e (kernel_loop opts input rs found (cursor + 1) e1)" if "b = fmt_delimiter opts e" "r = Ok u" for u
  proof -
    have "good input rs e1 (kernel_loop opts input rs found (cursor + 1) e1)"
      using 2(1) [OF that(1) push [symmetric] that(2)] g that cur(3) by simp
    then show ?thesis by (rule good_mono) (use g that in simp)
  qed
  show ?case
    using deliver g push terminator good_decline [OF 2(3)] 2(2,3) cur(3)
    by (cases r) (auto simp: good_def [of _ _ _ "(e1, Panic)"])
qed

lemma good_try_plain:
  assumes "parse_inv input rs e"
  shows "good input rs e (try_parse_borrowed_plain opts input rs e)"
proof -
  have "\<forall>(cursor, b) \<in> set (structural_offsets (take n input) x y z rs). rs \<le> cursor \<and> cursor < length input" for n x y z
    by (auto simp: structural_offsets_def)
  then show ?thesis
    unfolding try_parse_borrowed_plain_def Let_def blocks_matches_resume
    by (intro good_kernel_loop [OF assms]) auto
qed

lemma good_validate_crlf:
  assumes "parse_inv input rs e"
  shows "good input rs e (validate_crlf input rs e)"
  using assms
  by (auto simp: validate_crlf_def Let_def parse_inv_def get_range_def split: option.splits if_splits)

lemma good_finish_plain:
  assumes "parse_inv input rs e"
  shows "good input rs e (finish_plain_record opts input rs header e)"
  unfolding finish_plain_record_def
  by (rule good_bind) (use assms good_validate_crlf good_mark_nulls in auto)

lemma dispatch_matches:
  "engine_wf e \<Longrightarrow> format_matches opts e \<Longrightarrow> format_matches (dispatch_format opts e) e"
  by (auto simp: dispatch_format_def engine_wf_def format_matches_def [of None] split: option.splits format_kind.splits)

lemma good_parse_record:
  assumes "parse_inv input rs e" "engine_wf e" "format_matches opts e" "rs < length input"
  shows "good input rs e (parse_record opts input rs header e)"
proof -
  obtain first where first: "get_at input rs = Some first" using assms(4) by (simp add: get_at_def)
  show ?thesis
    unfolding parse_record_def first option.case
  proof (rule good_bind)
    show "good input rs e ((if plain_record_candidate opts first e then try_parse_borrowed_plain opts input rs
        else return_step False) e)"
      using good_try_plain [OF assms(1)] assms(1) by simp
    fix e1 plain
    assume e1: "config_of e1 = config_of e" "parse_inv input rs e1"
    then have wf: "engine_wf e1" "format_matches opts e1"
      using assms engine_wf_config format_matches_config by blast+
    have "good input rs e1 (bind_step (if fmt_record_pass opts e1 then finish_plain_record opts input rs header
        else return_step ()) (\<lambda>_ e2. validate_count input (storage_len (en_spans e2)) e2) e1)"
      by (rule good_bind) (use good_finish_plain [OF e1(2)] e1(2) in \<open>auto intro: good_validate_count\<close>)
    moreover have "good input rs e1 (parse_record_fields (dispatch_format opts e1) input rs header e1)"
      by (rule good_parse_record_fields [OF e1(2) wf(1) dispatch_matches [OF wf]])
    ultimately show "good input rs e1 (if plain then
          bind_step (if fmt_record_pass opts e1 then finish_plain_record opts input rs header else return_step ())
            (\<lambda>_ e2. validate_count input (storage_len (en_spans e2)) e2) e1
        else parse_record_fields (dispatch_format opts e1) input rs header e1)" by simp
  qed
qed

section \<open>Where a record ends\<close>

text \<open>At the end of a record the cursor is within the record limit, and it moved or the input ended.\<close>

definition ends_well :: "bytes \<Rightarrow> nat \<Rightarrow> engine \<Rightarrow> engine \<Rightarrow> bool" where
  "ends_well input rs e e' \<longleftrightarrow>
     en_location e' - rs \<le> max_record_bytes (en_limits e) \<and>
     (en_location e' = length input \<or> en_location e < en_location e')"

lemma check_scan_end_at_end:
  assumes "parse_inv input rs e" "fs \<le> length input" "rs \<le> fs"
    "check_scan_end input (scan_end e input rs fs) rs fs e = (e', Ok u)"
  shows "scan_end e input rs fs = length input"
proof -
  let ?r = "sat_add rs (sat_add (max_record_bytes (en_limits e)) 1)"
  let ?f = "sat_add fs (sat_add (max_field_bytes (en_limits e)) 1)"
  have stop: "scan_end e input rs fs = min (length input) (min ?r ?f)" by (simp add: scan_end_def Let_def)
  have sat: "n \<le> sat_add a (sat_add m 1) \<or> sat_add a (sat_add m 1) = a + m + 1" if "n < usize_max" for n a m
    using that by (auto simp: sat_add_def min_def)
  have fits: "scan_end e input rs fs - rs \<le> max_record_bytes (en_limits e)" using assms(4) by simp
  have fs: "fs \<le> scan_end e input rs fs" by (rule scan_end_above_field [OF assms(1,2) fits])
  then have "scan_end e input rs fs - fs \<le> max_field_bytes (en_limits e)" using assms(4) by simp
  then show ?thesis
    using sat [of "length input" rs "max_record_bytes (en_limits e)"]
      sat [of "length input" fs "max_field_bytes (en_limits e)"] inv_length [OF assms(1)] fits fs assms(3)
    unfolding stop by linarith
qed

lemma end_general_field_ends:
  assumes "end_general_field input rs header fs fe at n b e = (e', Ok True)"
  shows "en_location e' = n \<and> n - rs \<le> max_record_bytes (en_limits e')"
  using assms by (auto simp: end_general_field_def Let_def elim!: bind_step_Ok)

lemma good_config: "good input rs e (e', Ok x) \<Longrightarrow> en_limits e' = en_limits e"
  by (simp add: config_ofD [of e' e])

lemma general_loop_ends:
  assumes "parse_inv input rs e" "tails_wf (en_dialect e)" "rs \<le> fs" "fs \<le> length input" "fs \<le> cursor"
    "general_unquoted_loop ex input rs header fs cursor e = (e', Ok True)"
  shows "en_location e' - rs \<le> max_record_bytes (en_limits e) \<and>
    (en_location e' = length input \<or> fs < en_location e')"
  using assms
proof (induction ex input rs header fs cursor e rule: general_unquoted_loop.induct)
  case (1 ex input rs header fs cursor e)
  let ?stop = "scan_end e input rs fs"
  have limits: "en_limits e' = en_limits e"
    using good_config [OF good_general_loop [OF 1(5-9), of ex header, unfolded 1(10)]] .
  note run = 1(10) [unfolded general_unquoted_loop.simps [of ex input rs header fs cursor e]]
  show ?case
  proof (cases "?stop \<le> cursor")
    case True
    then have "?stop = length input" "?stop - rs \<le> max_record_bytes (en_limits e)" "en_location e' = ?stop"
      using run check_scan_end_at_end [OF 1(5,8,7)] by (auto simp: Let_def elim!: bind_step_Ok)
    then show ?thesis by simp
  next
    case False
    show ?thesis
    proof (cases "next_stop e ex (slice input cursor ?stop)")
      case None
      then show ?thesis using 1(1) [OF False None 1(5-8)] 1(9) run False by simp
    next
      case (Some i)
      have resume: "fs \<le> resume_after_unquoted_escape input (cursor + i)"
        using 1(9) by (simp add: resume_after_unquoted_escape_def)
      have ended: "en_location e' - rs \<le> max_record_bytes (en_limits e) \<and>
          (en_location e' = length input \<or> fs < en_location e')"
        if "end_general_field input rs header fs fe (cursor + i) n b e = (e', Ok True)" "fs < n" for fe n b
        using end_general_field_ends [OF that(1)] that(2) limits by simp
      have later: "fs \<le> cursor + i + 1" using 1(9) by simp
      note ih = 1(2) [OF False Some _ 1(5-8) resume]
        1(3) [OF False Some _ _ _ _ _ _ 1(5-8) later] 1(4) [OF False Some _ _ _ _ _ 1(5-8) later]
      have width: "0 < tail_width t" for t by (rule tail_width_pos)
      show ?thesis
        using run
        by (simp only: if_not_P [OF False] Some option.case Let_def split: if_split_asm)
          (use ih ended 1(9) width in \<open>auto simp: fail_at_def trans_less_add1 less_add_width simp del: tail_width_pos dest!: ended\<close>)
    qed
  qed
qed

lemma unquoted_runtime_ends:
  assumes "parse_inv input rs e" "parse_unquoted_field_runtime input rs dl qt tm q uq st e = (e', Ok True)"
  shows "ends_well input rs e e'"
proof -
  let ?fs = "en_location e"
  let ?stop = "scan_end e input rs ?fs"
  have limits: "en_limits e' = en_limits e"
    using good_config [OF good_unquoted_runtime [OF assms(1), of dl qt tm q uq st, unfolded assms(2)]] .
  have loc: "rs \<le> ?fs" "?fs \<le> length input" using assms(1) by (auto simp: parse_inv_def)
  let ?rest = "slice input ?fs ?stop"
  let ?find = "if q \<and> \<not> uq then find3 dl qt tm ?rest else find2 dl tm ?rest"
  have range: "get_range input ?fs ?stop = Some ?rest"
    using assms(2) by (simp add: parse_unquoted_field_runtime_def Let_def get_range_def split: if_splits)
  show ?thesis
  proof (cases ?find)
    case None
    then have "bind_step (check_scan_end input ?stop rs ?fs) (\<lambda>_.
        bind_step (push_span input FromInput ?fs ?stop ?stop False)
          (\<lambda>_ e'. (clear_terminated (e'\<lparr>en_location := ?stop\<rparr>), Ok True))) e = (e', Ok True)"
      using assms(2) range by (simp add: parse_unquoted_field_runtime_def Let_def split del: if_split)
    then have "?stop = length input" "?stop - rs \<le> max_record_bytes (en_limits e)" "en_location e' = ?stop"
      using check_scan_end_at_end [OF assms(1) loc(2,1)] by (auto elim!: bind_step_Ok)
    then show ?thesis unfolding ends_well_def by simp
  next
    case (Some i)
    have "bind_step (push_span input FromInput ?fs fe (?fs + i) False) (\<lambda>_ e1.
        let e2 = e1\<lparr>en_location := ?fs + i + 1\<rparr>; e3 = (if trm then note_terminated e2 else e2)
        in bind_step (check_record_limit input rs (en_location e3)) (\<lambda>_. return_step trm) e3) e = (e', Ok True)
      \<Longrightarrow> en_location e' = ?fs + i + 1 \<and> ?fs + i + 1 - rs \<le> max_record_bytes (en_limits e')" for fe trm
      by (auto simp: Let_def elim!: bind_step_Ok split: if_splits)
    then have "en_location e' = ?fs + i + 1 \<and> ?fs + i + 1 - rs \<le> max_record_bytes (en_limits e')"
      using assms(2) range Some
      by (simp add: parse_unquoted_field_runtime_def Let_def split del: if_split split: if_split_asm)
    then show ?thesis using limits by (simp add: ends_well_def)
  qed
qed

lemma finish_quoted_ends:
  assumes "finish_quoted_field input rs closed cfg e = (e', Ok True)"
  shows "closed \<le> en_location e' \<and> en_location e' - rs \<le> max_record_bytes (en_limits e')"
proof -
  have ws: "at \<le> skip_whitespace_from input at" for at
  proof (induction input at rule: skip_whitespace_from.induct)
    case (1 input at)
    then show ?case by (auto simp: skip_whitespace_from.simps [of input at] get_at_Some_iff)
  qed
  have a: "closed \<le> skip_post_quote_whitespace input closed (qc_trailing_ws cfg)"
    using ws by (simp add: skip_post_quote_whitespace_def)
  show ?thesis
    using assms a
    by (auto simp: finish_quoted_field_def Let_def elim!: bind_step_Ok split: option.splits if_splits)
qed

lemma quoted_loop_ends:
  "parse_quoted_loop input rs cfg cs ss seg cursor copied e = (e', Ok True) \<Longrightarrow> cs \<le> cursor \<Longrightarrow>
     cs < en_location e' \<and> en_location e' - rs \<le> max_record_bytes (en_limits e')"
proof (induction input rs cfg cs ss seg cursor copied e rule: parse_quoted_loop.induct)
  case (1 input rs cfg cs ss seg cursor copied e)
  note run = 1(2) [unfolded parse_quoted_loop.simps [of input rs cfg cs ss seg cursor copied e]]
  let ?stop = "scan_end e input rs cs"
  obtain remaining i where r: "get_range input cursor ?stop = Some remaining"
      "quoted_stop cfg remaining = Some i"
    using run by (auto simp: Let_def split: option.splits prod.splits outcome.splits elim!: bind_step_Ok)
  show ?case
  proof (cases "quoted_event_at input cfg ?stop (cursor + i)")
    case (Escaped b)
    obtain e1 u where t: "take_escape input copied cs seg (cursor + i) b ss e = (e1, Ok u)"
      using run r Escaped by (auto simp: Let_def split: prod.splits outcome.splits)
    show ?thesis
      using 1(1) [OF refl r Escaped t [symmetric] refl] run r Escaped t 1(3) by (simp add: Let_def)
  next
    case ClosingQuote
    then have "close_quoted input rs cfg cs ss seg copied (cursor + i) e = (e', Ok True)"
      using run r by (simp add: Let_def)
    then obtain e1 where "finish_quoted_field input rs (cursor + i + 1) cfg e1 = (e', Ok True)"
      by (auto simp: close_quoted_def Let_def elim!: bind_step_Ok split: if_splits)
    then show ?thesis using finish_quoted_ends 1(3) by fastforce
  next
    case BadQuoted
    then show ?thesis using run r by (simp add: Let_def)
  qed
qed

lemma parse_one_field_ends:
  assumes "parse_inv input rs e" "engine_wf e" "format_matches opts e"
    "parse_one_field opts input rs header e = (e', Ok True)"
  shows "ends_well input rs e e'"
proof -
  have limits: "en_limits e' = en_limits e"
    using good_config [OF good_parse_one_field [OF assms(1-3), of header, unfolded assms(4)]] .
  obtain e1 u where e1: "skip_delimiter_spaces opts input rs e = (e1, Ok u)"
    "parse_quoted_field opts input rs e1 = (e', Ok True) \<or> parse_unquoted_field opts input rs header e1 = (e', Ok True)"
    using assms(4) unfolding parse_one_field_def by (auto elim!: bind_step_Ok split: if_splits)
  have "good input rs e (e1, Ok u)"
    using good_skip_loop [OF assms(1)] assms(1) e1(1)
    by (metis skip_delimiter_spaces_def skip_delimiter_spaces_for_def good_return return_step_def)
  then have inv1: "parse_inv input rs e1" "config_of e1 = config_of e" by simp_all
  have limits1: "en_limits e1 = en_limits e" "tails_wf (en_dialect e1)"
    using inv1(2) assms(2) by (simp_all add: config_ofD [of e1 e] engine_wf_def)
  have le: "en_location e \<le> en_location e1" using skip_delimiter_spaces_location [OF e1(1)] .
  have "ends_well input rs e1 e'"
    using e1(2)
  proof
    assume "parse_quoted_field opts input rs e1 = (e', Ok True)"
    then show ?thesis
      unfolding parse_quoted_field_def Let_def by (auto dest!: quoted_loop_ends simp: ends_well_def limits limits1)
  next
    assume run: "parse_unquoted_field opts input rs header e1 = (e', Ok True)"
    show ?thesis
    proof (cases "fmt_general_parsing opts e1")
      case True
      have loc: "rs \<le> en_location e1" "en_location e1 \<le> length input" using inv1(1) by (auto simp: parse_inv_def)
      show ?thesis
        using general_loop_ends [OF inv1(1) limits1(2) loc order_refl] run True
        by (auto simp: parse_unquoted_field_def parse_general_unquoted_field_def Let_def ends_well_def)
    next
      case False
      then show ?thesis using unquoted_runtime_ends [OF inv1(1)] run by (simp add: parse_unquoted_field_def)
    qed
  qed
  then show ?thesis using le limits1(1) by (auto simp: ends_well_def)
qed


lemma finish_general_location:
  assumes "finish_general_record opts input header e = (e', Ok u)"
  shows "en_location e' = en_location e"
proof -
  have mark: "mark_null_spans opts input header e = (e1, Ok v) \<Longrightarrow> en_location e1 = en_location e" for e1 v
    by (auto simp: mark_null_spans_def mark_null_spans_cold_def Let_def split: if_splits outcome.splits)
  have count: "validate_count input n e1 = (e', Ok u) \<Longrightarrow> en_location e' = en_location e1" for e1 n
    by (auto simp: validate_count_def Let_def split: if_splits field_count.splits option.splits)
  show ?thesis
    using assms unfolding finish_general_record_def by (elim bind_step_Ok) (drule mark, drule count, simp)
qed

lemma parse_record_fields_ends:
  assumes "parse_inv input rs e" "engine_wf e" "format_matches opts e"
    "parse_record_fields opts input rs header e = (e', Ok u)"
  shows "ends_well input rs e e'"
  using assms
proof (induction opts input rs header e rule: parse_record_fields.induct)
  case (1 opts input rs header e)
  obtain e1 ended where step: "parse_one_field opts input rs header e = (e1, Ok ended)"
      "(if ended then finish_general_record opts input header e1
        else parse_record_fields opts input rs header e1) = (e', Ok u)"
    using 1(5) unfolding parse_record_fields.simps [of opts input rs header e]
    by (auto split: prod.splits outcome.splits)
  have e1: "parse_inv input rs e1" "config_of e1 = config_of e"
    using one_field.parse_keeps [OF 1(4,3,2)] step(1) by blast+
  show ?case
  proof (cases ended)
    case True
    then show ?thesis
      using parse_one_field_ends [OF 1(2-4)] step finish_general_location by (auto simp: ends_well_def)
  next
    case False
    then have "ends_well input rs e1 e'"
      using 1(1) [OF step(1) [symmetric] refl False e1(1)] engine_wf_config [OF e1(2)]
        format_matches_config [OF e1(2)] 1(3,4) step(2) by simp
    moreover have "en_location e < en_location e1"
      using parse_one_field_progress [of opts input rs header e e1] step(1) False by simp
    ultimately show ?thesis using config_ofD(2) [OF e1(2)] by (auto simp: ends_well_def)
  qed
qed

lemma kernel_commit_ends:
  assumes "bind_step (push_span input FromInput a b at False) (\<lambda>_ e1.
      bind_step (check_record_limit input rs (en_location (f (e1\<lparr>en_location := n\<rparr>))))
        (\<lambda>_ e3. (fold_plain_record opts rs t e3, Ok True)) (f (e1\<lparr>en_location := n\<rparr>))) e = (e', Ok ended)"
    "f = note_terminated \<or> f = clear_terminated"
  shows "en_location e' = n \<and> n - rs \<le> max_record_bytes (en_limits e')"
  using assms by (auto simp: fold_plain_record_def note_terminated_def clear_terminated_def elim!: bind_step_Ok)

lemma kernel_loop_ends:
  "kernel_loop opts input rs found fs e = (e', Ok True) \<Longrightarrow>
     \<forall>(cursor, b) \<in> set found. rs \<le> cursor \<and> cursor < length input \<Longrightarrow>
     en_location e' - rs \<le> max_record_bytes (en_limits e') \<and>
     (en_location e' = length input \<or> rs < en_location e')"
proof (induction opts input rs found fs e rule: kernel_loop.induct)
  case (1 opts input rs fs e)
  have "borrowed_scan_end e (length input) rs = length input"
    if "\<not> borrowed_scan_end e (length input) rs < length input"
    using that by (simp add: borrowed_scan_end_def)
  then show ?case
    using 1(1) kernel_commit_ends [where f = clear_terminated]
    by (auto simp: kernel_at_end_def Let_def decline_def split: if_splits)
next
  case (2 opts input rs cursor b found fs e)
  have cur: "rs \<le> cursor" "\<forall>(c, b) \<in> set found. rs \<le> c \<and> c < length input" using 2(4) by auto
  have terminator: "en_location e' = cursor + 1 \<and> cursor + 1 - rs \<le> max_record_bytes (en_limits e')"
    if "kernel_at_terminator opts input rs fs cursor e = (e', Ok True)"
    using that kernel_commit_ends [where f = note_terminated]
    by (auto simp: kernel_at_terminator_def Let_def decline_def split: if_splits)
  show ?case
    using 2(3) cur terminator 2(1) 2(2)
    by (fastforce simp: decline_def split: if_splits prod.splits outcome.splits)
qed


lemma parse_record_ends:
  assumes "parse_inv input rs e" "engine_wf e" "format_matches opts e" "rs < length input" "en_location e = rs"
    "parse_record opts input rs header e = (e', Ok u)"
  shows "rs < en_location e' \<and> en_location e' - rs \<le> max_record_bytes (en_limits e)"
proof -
  have good: "good input rs e (e', Ok u)"
    using good_parse_record [OF assms(1-4), of header] assms(6) by simp
  then have limits: "en_limits e' = en_limits e" by (rule good_config)
  obtain first where first: "get_at input rs = Some first" using assms(4) by (simp add: get_at_def)
  obtain e1 plain where plain: "(if plain_record_candidate opts first e then try_parse_borrowed_plain opts input rs
        else return_step False) e = (e1, Ok plain)"
      "(if plain then bind_step (if fmt_record_pass opts e1 then finish_plain_record opts input rs header
            else return_step ()) (\<lambda>_ e2. validate_count input (storage_len (en_spans e2)) e2) e1
        else parse_record_fields (dispatch_format opts e1) input rs header e1) = (e', Ok u)"
    using assms(6) unfolding parse_record_def first option.case by (auto elim!: bind_step_Ok)
  have e1: "parse_inv input rs e1" "config_of e1 = config_of e"
    using good_try_plain [OF assms(1), of opts] plain(1) assms(1) by (auto split: if_splits)
  have wf: "engine_wf e1" "format_matches opts e1"
    using assms(2,3) engine_wf_config [OF e1(2)] format_matches_config [OF e1(2)] by simp_all
  show ?thesis
  proof (cases plain)
    case True
    have found: "\<forall>(cursor, b) \<in> set (structural_offsets (take n input) x y z rs). rs \<le> cursor \<and> cursor < length input" for n x y z
      by (auto simp: structural_offsets_def)
    have "try_parse_borrowed_plain opts input rs e = (e1, Ok True)" using plain(1) True by (simp split: if_splits)
    then have ends: "en_location e1 - rs \<le> max_record_bytes (en_limits e1) \<and>
        (en_location e1 = length input \<or> rs < en_location e1)"
      unfolding try_parse_borrowed_plain_def Let_def blocks_matches_resume by (rule kernel_loop_ends) (rule found)
    have crlf: "validate_crlf input rs e2 = (e3, Ok v) \<Longrightarrow> en_location e3 = en_location e2" for e2 e3 v
      by (auto simp: validate_crlf_def Let_def split: option.splits if_splits)
    have cold: "mark_null_spans_cold input m e2 = (e3, Ok v) \<Longrightarrow> en_location e3 = en_location e2" for m e2 e3 v
      by (auto simp: mark_null_spans_cold_def split: outcome.splits)
    have finish: "finish_plain_record opts input rs header e2 = (e3, Ok v) \<Longrightarrow> en_location e3 = en_location e2" for e2 e3 v
      unfolding finish_plain_record_def by (elim bind_step_Ok) (auto dest!: crlf cold split: if_splits)
    have count: "validate_count input n e2 = (e3, Ok v) \<Longrightarrow> en_location e3 = en_location e2" for n e2 e3 v
      by (auto simp: validate_count_def Let_def split: if_splits field_count.splits option.splits)
    have "en_location e' = en_location e1"
      using plain(2) True by (auto dest!: finish count elim!: bind_step_Ok split: if_splits)
    moreover have "en_limits e1 = en_limits e" using config_ofD(2) [OF e1(2)] .
    ultimately show ?thesis using ends assms(4) by auto
  next
    case False
    then have "ends_well input rs e1 e'"
      using parse_record_fields_ends [OF e1(1) wf(1) dispatch_matches [OF wf]] plain(2) by simp
    moreover have "rs \<le> en_location e1" using e1(1) by (simp add: parse_inv_def)
    ultimately show ?thesis using config_ofD(2) [OF e1(2)] assms(4) by (auto simp: ends_well_def)
  qed
qed

section \<open>Ignored records\<close>

lemma find_record_ending_inside:
  assumes "find_record_ending_from d input start s = Some n" "tails_wf d"
  shows "n \<le> length input"
  using assms
proof (induction d input start s rule: find_record_ending_from.induct)
  case (1 d input start s)
  note run = 1(2) [unfolded find_record_ending_from.simps [of d input start s]]
  obtain i where i: "\<not> length input < s" "find1 (ending_byte (record_ending d)) (drop s input) = Some i"
    using run by (auto split: if_splits option.splits)
  have at: "s + i < length input" using i(2) by (auto simp: find_simps dest: position_less)
  have "s + i + tail_width (ending_tail d) \<le> length input" if "ending_confirmed d input start (s + i)"
    using that 1(3) at tail_confirms_width [OF _ _ _ at]
    by (auto simp: ending_confirmed_def tails_wf_def split: record_ending.splits)
  then show ?case
    using run i 1(1) [OF i refl] 1(3) by (auto simp: Let_def split: if_splits)
qed

lemma record_ending_inside:
  assumes "record_ending_width_at d input at = Some w" "tails_wf d"
  shows "at + w \<le> length input"
  using assms tail_confirms_width [of "ending_tail d" at input]
  by (auto simp: record_ending_width_at_def tails_wf_def get_at_Some_iff get_range_def
      split: if_splits record_ending.splits)

text \<open>Skipping touches the position and the checkpoint only, and stays inside the window.\<close>

definition set_aside :: "engine \<Rightarrow> engine" where
  "set_aside e = e\<lparr>en_location := 0, en_resume := resume_new\<rparr>"

lemma set_aside_updates [simp]:
  "set_aside (e\<lparr>en_location := a\<rparr>) = set_aside e" "set_aside (e\<lparr>en_resume := r\<rparr>) = set_aside e"
  by (simp_all add: set_aside_def)

lemma set_asideD:
  assumes "set_aside e' = set_aside e"
  shows "en_dialect e' = en_dialect e" "config_of (e'\<lparr>en_resume := resume_new\<rparr>) = config_of (e\<lparr>en_resume := resume_new\<rparr>)"
  using assms unfolding set_aside_def config_of_def by (cases e; cases e'; simp)+

definition skips :: "bytes \<Rightarrow> engine \<Rightarrow> engine \<Rightarrow> bool" where
  "skips input e e' \<longleftrightarrow>
     set_aside e' = set_aside e \<and>
     (en_location e \<le> length input \<longrightarrow> en_location e' \<le> length input) \<and>
     (checkpoint_sane e \<longrightarrow> checkpoint_sane e' \<and> en_location e \<le> en_location e')"

lemma skips_refl [simp]: "skips input e e"
  by (simp add: skips_def)

lemma skips_trans: "skips input e e1 \<Longrightarrow> skips input e1 e2 \<Longrightarrow> skips input e e2"
  by (auto simp: skips_def)

lemma skips_dialect: "skips input e e' \<Longrightarrow> en_dialect e' = en_dialect e"
  unfolding skips_def using set_asideD(1) by blast

lemma skip_comments_loop_skips:
  "tails_wf (en_dialect e) \<Longrightarrow> skips input e (skip_comments_loop c input e)"
proof (induction c input e rule: skip_comments_loop.induct)
  case (1 c input e)
  let ?start = "if resuming input e then rs_scanned_to (en_resume e) else en_location e"
  note eq = skip_comments_loop.simps [of c input e]
  show ?case
  proof (cases "\<not> resuming input e \<and> get_at input (en_location e) \<noteq> Some c")
    case True
    then show ?thesis by (simp add: eq)
  next
    case False
    have start: "checkpoint_sane e \<Longrightarrow> en_location e \<le> ?start"
      by (auto simp: resuming_def checkpoint_sane_def)
    show ?thesis
    proof (cases "find_record_ending (en_dialect e) input ?start")
      case None
      have "checkpoint_sane e \<Longrightarrow> en_location e \<le> length input"
        using False start by (auto simp: resuming_def get_at_Some_iff split: if_splits)
      then show ?thesis using False None
        by (auto simp: eq Let_def skips_def checkpoint_sane_def resume_ignored_def)
    next
      case (Some n)
      let ?e = "e\<lparr>en_location := n, en_resume := resume_new\<rparr>"
      have "?start < n" "n \<le> length input"
        using find_record_ending_from_bounds find_record_ending_inside [OF _ 1(2)] Some
        by (auto simp: find_record_ending_def)
      then have "skips input e ?e"
        using start by (auto simp: skips_def checkpoint_sane_def resume_new_def)
      moreover have "skips input ?e (skip_comments_loop c input ?e)"
        using 1(1) [OF False refl refl Some] 1(2) by simp
      ultimately have "skips input e (skip_comments_loop c input ?e)" by (rule skips_trans)
      then show ?thesis using False Some by (simp add: eq Let_def)
    qed
  qed
qed

lemma skip_blank_lines_loop_skips:
  "tails_wf (en_dialect e) \<Longrightarrow> skips input e (skip_blank_lines_loop input e)"
proof (induction input e rule: skip_blank_lines_loop.induct)
  case (1 input e)
  note eq = skip_blank_lines_loop.simps [of input e]
  show ?case
  proof (cases "record_ending_width_at (en_dialect e) input (en_location e)")
    case (Some w)
    let ?e = "e\<lparr>en_location := en_location e + w\<rparr>"
    have "skips input e ?e"
      using record_ending_inside [OF Some 1(2)] by (auto simp: skips_def checkpoint_sane_def)
    then show ?thesis using 1 Some skips_trans by (auto simp: eq)
  qed (simp add: eq)
qed

lemma skip_pass_skips:
  assumes "tails_wf (en_dialect e)"
  shows "skips input e (skip_pass input e)"
proof -
  have c: "skips input e (skip_comments input e)"
    using skip_comments_loop_skips [OF assms] by (simp add: skip_comments_def split: option.split)
  have "skips input (skip_comments input e) (skip_pass input e)"
    using skip_blank_lines_loop_skips skips_dialect [OF c] assms by (simp add: skip_pass_def skip_blank_lines_def)
  with c show ?thesis by (rule skips_trans)
qed

lemma skip_ignored_skips:
  assumes "tails_wf (en_dialect e)"
  shows "skips input e (skip_ignored_records input e)"
proof -
  have loop: "tails_wf (en_dialect e) \<Longrightarrow> skips input e (snd (skip_ignored_loop input b e))" for b e
  proof (induction input b e rule: skip_ignored_loop.induct)
    case (1 input b e)
    have p: "skips input e (skip_pass input e)" by (rule skip_pass_skips [OF 1(2)])
    show ?case
      using 1(1) [OF refl refl] p skips_dialect [OF p] 1(2) skips_trans [OF p]
      by (auto simp: skip_ignored_loop.simps [of input b e] Let_def)
  qed
  have fresh: "skips input e1 (e1\<lparr>en_resume := resume_fresh (en_location e1)\<rparr>)" for e1
    by (auto simp: skips_def checkpoint_sane_def resume_fresh_def)
  show ?thesis
    using loop [OF assms] fresh skips_trans
    by (auto simp: skip_ignored_records_def split: prod.splits) (metis snd_conv)+
qed


section \<open>Reading a record\<close>

lemma skips_config:
  assumes "skips input e e'"
  shows "engine_wf e' = engine_wf e" "format_matches opts e' = format_matches opts e"
    "en_limits e' = en_limits e" "en_record_index e' = en_record_index e"
proof -
  have c: "config_of (e'\<lparr>en_resume := resume_new\<rparr>) = config_of (e\<lparr>en_resume := resume_new\<rparr>)"
    using assms set_asideD(2) unfolding skips_def by blast
  have forget: "engine_wf (e\<lparr>en_resume := r\<rparr>) = engine_wf e" "format_matches opts (e\<lparr>en_resume := r\<rparr>) = format_matches opts e" for e r opts
    by (simp_all add: engine_wf_def format_matches_def cong: option.case_cong)
  show "engine_wf e' = engine_wf e" using engine_wf_config [OF c] by (simp add: forget)
  show "format_matches opts e' = format_matches opts e" using format_matches_config [OF c] by (simp add: forget)
  show "en_limits e' = en_limits e" "en_record_index e' = en_record_index e"
    using config_ofD [OF c] by simp_all
qed

lemma begin_spans_inv:
  assumes "begin_spans input e = (e', Ok u)" "en_location e \<le> length input"
  shows "parse_inv input (en_location e') e'" "config_of e' = config_of e" "en_location e' = en_location e"
  using assms storage_begin_wf [of input MAX_OFFSET "en_spans e"]
  by (auto simp: begin_spans_def parse_inv_def storage_len_def split: option.splits)

lemma trim_spans_location: "trim_spans input header e = (e', Ok u) \<Longrightarrow> en_location e' = en_location e"
  by (auto simp: trim_spans_def split: if_splits outcome.splits)

definition record_accepted :: "bytes \<Rightarrow> engine \<Rightarrow> nat \<Rightarrow> nat \<Rightarrow> engine \<Rightarrow> bool" where
  "record_accepted input e origin until e' \<longleftrightarrow>
     origin < until \<and> until \<le> length input \<and> until - origin \<le> max_record_bytes (en_limits e) \<and>
     (\<exists>fields. record_entries input e' = Ok (map (\<lambda>(bs, null). (Some bs, null)) fields) \<and>
        length fields \<le> max_fields (en_limits e) \<and>
        (\<forall>(bs, null) \<in> set fields. length bs \<le> max_field_bytes (en_limits e)))"

lemma inv_entries:
  assumes "parse_inv input rs e"
  shows "\<exists>fields. record_entries input e = Ok (map (\<lambda>(bs, null). (Some bs, null)) fields) \<and>
    length fields \<le> max_fields (en_limits e) \<and>
    (\<forall>(bs, null) \<in> set fields. length bs \<le> max_field_bytes (en_limits e))"
proof -
  let ?st = "en_spans e"
  let ?bytes = "\<lambda>s. slice (case span_source s of FromInput \<Rightarrow> input | FromScratch \<Rightarrow> ss_scratch ?st) (span_start s) (span_end s)"
  let ?fields = "map (\<lambda>s. (?bytes s, span_is_null s)) (ss_spans ?st)"
  have wf: "storage_wf ?st" "input_len ?st \<le> length input" "storage_len ?st \<le> max_fields (en_limits e)"
    using assms by (simp_all add: parse_inv_def)
  have resolve: "resolve_span input (ss_scratch ?st) s = Some (?bytes s)" if "s \<in> set (ss_spans ?st)" for s
    using resolve_span_fits [OF _ wf(2)] that wf(1) by (simp add: storage_wf_def)
  have "record_entries input e = Ok (map (\<lambda>(bs, null). (Some bs, null)) ?fields)"
    using wf(2) resolve by (simp add: record_entries_def resolved_entries_def assert_that_def)
  moreover have "length (?bytes s) \<le> max_field_bytes (en_limits e)" if "s \<in> set (ss_spans ?st)" for s
  proof -
    have "length (?bytes s) \<le> field_width s" by (simp add: slice_def field_width_def)
    also have "\<dots> \<le> max_field_bytes (en_limits e)" using assms that by (simp add: parse_inv_def)
    finally show ?thesis .
  qed
  ultimately show ?thesis using wf(3) by (intro exI [of _ ?fields]) (auto simp: storage_len_def)
qed

lemma parse_positioned_result:
  assumes "engine_wf e" "format_matches opts e" "en_location e < length input"
  shows "(case parse_positioned_record opts input header e of
      (e', Ok ((origin, until), i)) \<Rightarrow>
        origin = en_location e \<and> until = en_location e' \<and> i = en_record_index e \<and>
        record_accepted input e origin until e' \<and> en_record_index e' = i + 1 \<and>
        config_of (e'\<lparr>en_record_index := 0\<rparr>) = config_of (e\<lparr>en_record_index := 0\<rparr>)
    | (e', Err er) \<Rightarrow> en_failed e'
    | (e', Panic) \<Rightarrow> \<not> roomy input e)"
proof (cases "begin_spans input e")
  case (Pair e1 r)
  show ?thesis
  proof (cases r)
    case (Ok u)
    note e1 = begin_spans_inv [OF Pair [unfolded Ok] less_imp_le [OF assms(3)]]
    have wf: "engine_wf e1" "format_matches opts e1" "en_location e1 < length input"
      using assms e1(3) engine_wf_config [OF e1(2)] format_matches_config [OF e1(2)] by simp_all
    obtain e2 r2 where parse: "parse_record opts input (en_location e1) header e1 = (e2, r2)" by fastforce
    have good: "good input (en_location e1) e1 (e2, r2)"
      using good_parse_record [OF e1(1) wf, of header] parse by simp
    show ?thesis
    proof (cases r2)
      case (Ok v)
      have e2: "parse_inv input (en_location e1) e2" "config_of e2 = config_of e1" using good Ok by simp_all
      note ends = parse_record_ends [OF e1(1) wf refl, of header e2 v] parse Ok
      obtain e3 r3 where trim: "trim_spans input header e2 = (e3, r3)" by fastforce
      have good3: "good input (en_location e1) e2 (e3, r3)" using good_trim [OF e2(1), of header] trim by simp
      show ?thesis
      proof (cases r3)
        case (Ok w)
        have e3: "parse_inv input (en_location e1) e3" "config_of e3 = config_of e2" using good3 Ok by simp_all
        have c: "config_of e3 = config_of e" using e3(2) e2(2) e1(2) by simp
        then have "config_of (e3\<lparr>en_record_index := 0\<rparr>) = config_of (e\<lparr>en_record_index := 0\<rparr>)"
          unfolding config_of_def by (cases e; cases e3; simp)
        moreover have "record_accepted input e (en_location e1) (en_location e3) (e3\<lparr>en_record_index := en_record_index e3 + 1\<rparr>)"
          using inv_entries [OF e3(1)] ends e3(1) trim_spans_location [OF trim [unfolded Ok]] config_ofD [OF c]
            config_ofD [OF e1(2)]
          by (auto simp: record_accepted_def parse_inv_def record_entries_def)
        ultimately show ?thesis
          using Pair \<open>r = Ok u\<close> parse \<open>r2 = Ok v\<close> trim Ok e1(3) config_ofD [OF c]
          by (simp add: parse_positioned_record_def bind_step_def Let_def)
      next
        case (Err er)
        have "\<exists>spans. trim_ascii_where input (ws_applies (en_trim e2) header) (en_spans e2) =
            Ok (en_spans e2\<lparr>ss_spans := spans\<rparr>)"
          using trim_ascii_where_wf [of "en_spans e2" input] e2(1) by (fastforce simp: parse_inv_def)
        then show ?thesis using trim Err by (auto simp: trim_spans_def split: if_splits)
      next
        case Panic
        then show ?thesis using good3 \<open>r = Ok u\<close> Pair parse \<open>r2 = Ok v\<close> trim
            roomy_config [OF e2(2)] roomy_config [OF e1(2)]
          by (simp add: parse_positioned_record_def bind_step_def Let_def good_def)
      qed
    next
      case (Err er)
      then show ?thesis using Pair Ok parse by (simp add: parse_positioned_record_def bind_step_def Let_def)
    next
      case Panic
      then show ?thesis using Pair Ok parse good roomy_config [OF e1(2)]
        by (simp add: parse_positioned_record_def bind_step_def Let_def good_def)
    qed
  next
    case (Err er)
    then show ?thesis using Pair
      by (auto simp: parse_positioned_record_def bind_step_def begin_spans_def split: option.splits)
  next
    case Panic
    then show ?thesis using Pair by (simp add: begin_spans_def split: option.splits)
  qed
qed


lemma fill_record_result:
  assumes "engine_wf e" "format_matches opts e" "en_location e \<le> length input"
  shows "(case fill_record_spans opts input header e of
      (e', Ok (Some ((origin, until), i))) \<Rightarrow>
        until = en_location e' \<and> i = en_record_index e \<and> record_accepted input e origin until e' \<and>
        (checkpoint_sane e \<longrightarrow> en_location e \<le> origin \<and> checkpoint_sane e') \<and>
        engine_wf e' \<and> format_matches opts e' \<and> en_limits e' = en_limits e
    | (e', Ok None) \<Rightarrow> en_location e' = length input
    | (e', Err er) \<Rightarrow> en_failed e'
    | (e', Panic) \<Rightarrow> \<not> roomy input e)"
proof (cases "en_failed e")
  case True
  then show ?thesis by (simp add: fill_record_spans_def)
next
  case False
  let ?e = "if en_skips_records e then skip_ignored_records input e else e"
  have sk: "skips input e ?e" using skip_ignored_skips assms(1) by (simp add: engine_wf_def)
  note c = skips_config [OF sk]
  have loc: "en_location ?e \<le> length input" "checkpoint_sane e \<Longrightarrow> checkpoint_sane ?e \<and> en_location e \<le> en_location ?e"
    using sk assms(3) by (auto simp: skips_def)
  show ?thesis
  proof (cases "en_location ?e = length input")
    case True
    then show ?thesis using False by (simp add: fill_record_spans_def Let_def)
  next
    case more: False
    then have lt: "en_location ?e < length input" using loc(1) by simp
    have wf: "engine_wf ?e" "format_matches opts ?e" using c(1,2) assms(1,2) by simp_all
    obtain e' r where run: "parse_positioned_record opts input header ?e = (e', r)" by fastforce
    have res: "fill_record_spans opts input header e =
        bind_step (parse_positioned_record opts input header) (\<lambda>r. return_step (Some r)) ?e"
      using False more by (simp add: fill_record_spans_def Let_def)
    note p = parse_positioned_result [OF wf lt, of header, unfolded run]
    show ?thesis
    proof (cases r)
      case (Ok x)
      then obtain origin until i where x: "x = ((origin, until), i)" by (metis prod.collapse)
      have q: "config_of (e'\<lparr>en_record_index := 0\<rparr>) = config_of (?e\<lparr>en_record_index := 0\<rparr>)"
        "origin = en_location ?e" "until = en_location e'" "i = en_record_index ?e"
        "record_accepted input ?e origin until e'"
        using p unfolding Ok x outcome.case prod.case by blast+
      have forget: "engine_wf (a\<lparr>en_record_index := n\<rparr>) = engine_wf a"
          "format_matches opts' (a\<lparr>en_record_index := n\<rparr>) = format_matches opts' a" for a n opts'
        by (simp_all add: engine_wf_def format_matches_def cong: option.case_cong)
      have "engine_wf e'" "format_matches opts e'" "en_limits e' = en_limits ?e"
        using engine_wf_config [OF q(1)] format_matches_config [OF q(1)] config_ofD(2) [OF q(1)] wf
        by (simp_all add: forget)
      moreover have "en_resume e' = en_resume ?e"
        using q(1) unfolding config_of_def by (cases e'; cases ?e; simp)
      moreover have "record_accepted input e origin until e'"
        using q(5) c(3) by (simp add: record_accepted_def)
      ultimately show ?thesis
        using res run Ok x q loc(2) c(3,4) by (simp add: bind_step_def checkpoint_sane_def return_step_def)
    next
      case (Err er)
      then show ?thesis using res run p by (simp add: bind_step_def)
    next
      case Panic
      then show ?thesis using res run p c(3) by (simp add: bind_step_def roomy_def)
    qed
  qed
qed

text \<open>
  C12: Parsing a record never panics when the limits leave room for the window: whatever the bytes,
  the configuration and the position, the answer is a record, the end of the input or an error.
\<close>

theorem parsing_never_panics:
  assumes "engine_wf e" "format_matches opts e" "en_location e \<le> length input" "roomy input e"
  shows "snd (fill_record_spans opts input header e) \<noteq> Panic"
  using fill_record_result [OF assms(1-3), of header] assms(4) by (auto split: prod.splits)

text \<open>A CSV engine over \<open>a,b\<close> and a line feed, used to instantiate the theorems.\<close>

definition sample_settings :: parser_settings where
  "sample_settings = \<lparr>ps_dialect = DIALECT_CSV,
     ps_limits = \<lparr>max_record_bytes = 100, max_field_bytes = 50, max_fields = 9\<rparr>,
     ps_field_count = Flexible, ps_trim = WS_NONE, ps_blank_records = BlankPreserve, ps_bom = BomDetect,
     ps_syntax = Strict, ps_nulls = NullsNone, ps_skip_initial_space = False, ps_format_tag = TagCustom\<rparr>"

definition sample_engine :: engine where "sample_engine = engine_from_config [97, 44, 98, 10] sample_settings"

lemma sample_engine_ok:
  "engine_wf sample_engine" "format_matches None sample_engine"
  "en_location sample_engine \<le> length [97, 44, 98, 10 :: byte]" "roomy [97, 44, 98, 10] sample_engine"
  "checkpoint_sane sample_engine"
proof -
  have "tails_wf (ps_dialect sample_settings)"
    by (simp add: sample_settings_def tails_wf_def DIALECT_CSV_def)
  then show "engine_wf sample_engine"
    unfolding sample_engine_def by (rule engine_from_config_wf) (simp add: sample_settings_def)
  show "format_matches None sample_engine" by (simp add: format_matches_def)
  show "en_location sample_engine \<le> length [97, 44, 98, 10 :: byte]" "roomy [97, 44, 98, 10] sample_engine"
    "checkpoint_sane sample_engine"
    by (simp_all add: sample_engine_def engine_from_config_def sample_settings_def starts_with_def roomy_def
        checkpoint_sane_def resume_new_def usize_max_def)
qed

theorem parsing_never_panics_witness:
  "snd (fill_record_spans None [97, 44, 98, 10] True sample_engine) \<noteq> Panic"
  by (rule parsing_never_panics) (fact sample_engine_ok)+

text \<open>
  C13: A record that is accepted kept every limit: it is not empty, lies in the window, has at most
  \<open>max_record_bytes\<close> bytes and \<open>max_fields\<close> fields, and each of its fields resolves to at most
  \<open>max_field_bytes\<close> bytes.
\<close>

theorem accepted_record_within_limits:
  assumes "engine_wf e" "format_matches opts e" "en_location e \<le> length input"
    "fill_record_spans opts input header e = (e', Ok (Some ((origin, until), i)))"
  shows "record_accepted input e origin until e' \<and> until = en_location e' \<and> i = en_record_index e"
  using fill_record_result [OF assms(1-3), of header] unfolding assms(4) outcome.case prod.case option.case by blast

lemmas parser_eval =
  fill_record_spans_def parse_positioned_record_def begin_spans_def storage_begin_def bounded_offset_def
  trim_spans_def ws_applies_to_scope_def WS_NONE_def bind_step_def return_step_def fail_at_def Let_def
  parse_record_def plain_record_candidate_def dispatch_format_def try_parse_borrowed_plain_def
  blocks_matches_resume structural_offsets_def borrowed_scan_end_def kernel_at_terminator_def
  kernel_at_end_def holds_escape_def decline_def push_span_def try_push_input_bounded_def
  storage_len_def input_len_def note_terminated_def clear_terminated_def check_record_limit_def
  check_record_limit_for_def fold_plain_record_def validate_count_def
  fmt_plain_kernel_def fmt_quoting_enabled_def fmt_quote_def fmt_delimiter_def fmt_terminator_def
  fmt_strips_cr_def strips_cr_def fmt_unquoted_escape_def fmt_record_pass_def fmt_permits_unquoted_quotes_def
  get_at_def get_range_def upt_rec sat_add_def usize_max_def max_offset_value

lemmas sample_eval = sample_engine_def sample_settings_def engine_from_config_def DIALECT_CSV_def starts_with_def
  needs_general_parsing_def plain_kernel_def needs_record_pass_def multibyte_def storage_with_capacity_def

theorem accepted_record_within_limits_witness:
  "\<exists>e'. fill_record_spans None [97, 44, 98, 10] False sample_engine = (e', Ok (Some ((0, 4), 0))) \<and>
     record_accepted [97, 44, 98, 10] sample_engine 0 4 e'"
proof -
  have "\<exists>e'. fill_record_spans None [97, 44, 98, 10] False sample_engine = (e', Ok (Some ((0, 4), 0)))"
    by (simp add: parser_eval sample_eval)
  then show ?thesis using accepted_record_within_limits [OF sample_engine_ok(1-3)] by blast
qed

section \<open>Reading an input\<close>

definition in_order :: "nat \<Rightarrow> (nat \<times> nat) list \<Rightarrow> bool" where
  "in_order at ranges \<longleftrightarrow> (\<forall>(a, b) \<in> set ranges. at \<le> a \<and> a < b) \<and> sorted_wrt (\<lambda>r s. snd r \<le> fst s) ranges"

lemma read_records_end:
  assumes "engine_wf e" "format_matches opts e" "en_location e \<le> length input" "checkpoint_sane e"
    "length input - en_location e < fuel"
  shows "(case read_records opts input fuel e of (records, how) \<Rightarrow>
      how \<noteq> OutOfFuel \<and> (roomy input e \<longrightarrow> how \<noteq> Crashed) \<and> in_order (en_location e) (map fst records))"
  using assms
proof (induction fuel arbitrary: e)
  case (Suc fuel)
  obtain e' r where run: "fill_record_spans opts input False e = (e', r)" by fastforce
  note p = fill_record_result [OF Suc(2-4), of False, unfolded run]
  show ?case
  proof (cases r)
    case (Ok x)
    show ?thesis
    proof (cases x)
      case None
      then show ?thesis using run Ok by (simp add: in_order_def)
    next
      case (Some y)
      then obtain origin until i where y: "y = ((origin, until), i)" by (metis prod.collapse)
      have q: "until = en_location e'" "record_accepted input e origin until e'" "en_location e \<le> origin"
        "checkpoint_sane e'" "engine_wf e'" "format_matches opts e'" "en_limits e' = en_limits e"
        using p Suc(5) unfolding Ok Some y outcome.case prod.case option.case by blast+
      then have b: "origin < until" "until \<le> length input" by (simp_all add: record_accepted_def)
      obtain entries where entries: "record_entries input e' = Ok entries"
        using q(2) by (auto simp: record_accepted_def)
      obtain records how where rest: "read_records opts input fuel e' = (records, how)" by fastforce
      have "how \<noteq> OutOfFuel \<and> (roomy input e' \<longrightarrow> how \<noteq> Crashed) \<and> in_order (en_location e') (map fst records)"
        using Suc(1) [of e'] q b Suc(6) rest by simp
      then show ?thesis
        using run Ok Some y entries rest q b by (fastforce simp: in_order_def roomy_def)
    qed
  next
    case (Err er)
    then show ?thesis using run by (simp add: in_order_def)
  next
    case Panic
    then show ?thesis using run p by (simp add: in_order_def)
  qed
qed simp

text \<open>
  C14: Reading a whole input ends: one call per byte and one more is enough to reach the end of the
  input or an error, and no call panics when the limits leave room for the input. The records read
  are not empty, come in the order of the input and do not overlap.
\<close>

theorem reading_ends:
  assumes "engine_wf e" "format_matches opts e" "en_location e \<le> length input" "checkpoint_sane e"
  shows "snd (records_of opts input e) \<noteq> OutOfFuel \<and>
    (roomy input e \<longrightarrow> snd (records_of opts input e) \<noteq> Crashed) \<and>
    in_order (en_location e) (map fst (fst (records_of opts input e)))"
proof -
  have fuel: "length input - en_location e < length input + 1" by simp
  show ?thesis
    using read_records_end [OF assms fuel]
    by (cases "read_records opts input (length input + 1) e") (simp add: records_of_def)
qed

theorem reading_ends_witness: "snd (records_of None [97, 44, 98, 10] sample_engine) \<noteq> OutOfFuel"
  using reading_ends [OF sample_engine_ok(1,2,3,5)] by blast

end
