(* ===== verification/PlainFields.thy ===== *)
theory PlainFields
  imports Safety
begin

text \<open>
  What one step of the record parser does with a field that needs no decoding: the bytes up to the
  first stop byte, whichever of the two unquoted parsers reads them. The plain kernel and the round
  trip both rest on these lemmas. The first section shows that a static format parameter changes
  nothing.
\<close>

section \<open>The format parameter\<close>

lemma unquoted_without_format:
  assumes "format_matches opts e" "engine_wf e"
  shows "parse_unquoted_field opts input rs header e = parse_unquoted_field None input rs header e"
  using fmt_of_engine [OF assms] fmt_of_engine [OF format_matches_None assms(2)]
  by (simp add: parse_unquoted_field_def)

lemma quoted_without_format:
  assumes "format_matches opts e" "engine_wf e"
  shows "parse_quoted_field opts input rs e = parse_quoted_field None input rs e"
  using fmt_of_engine [OF assms] fmt_of_engine [OF format_matches_None assms(2)]
  by (simp add: parse_quoted_field_def)

lemma spaces_keep_config:
  "parse_inv input rs e \<Longrightarrow> skip_delimiter_spaces opts input rs e = (e', Ok u) \<Longrightarrow> config_of e' = config_of e"
  using good_skip_loop [of input rs e "storage_len (en_spans e)"]
  by (auto simp: skip_delimiter_spaces_def skip_delimiter_spaces_for_def split: if_splits)

lemma bind_step_cong:
  "m e = m' e \<Longrightarrow> (\<And>x e'. m e = (e', Ok x) \<Longrightarrow> f x e' = g x e') \<Longrightarrow> bind_step m f e = bind_step m' g e"
  by (auto simp: bind_step_def split: prod.splits outcome.splits)

lemma one_field_without_format:
  assumes "format_matches opts e" "engine_wf e" "parse_inv input rs e"
  shows "parse_one_field opts input rs header e = parse_one_field None input rs header e"
proof -
  note fmt = fmt_of_engine [OF assms(1,2)] fmt_of_engine [OF format_matches_None assms(2)]
  have spaces: "skip_delimiter_spaces opts input rs e = skip_delimiter_spaces None input rs e"
    using fmt by (simp add: skip_delimiter_spaces_def skip_delimiter_spaces_for_def)
  have later: "(if get_at input (en_location e') = Some (fmt_quote opts e') \<and> fmt_quoting_enabled opts e'
       then parse_quoted_field opts input rs e' else parse_unquoted_field opts input rs header e') =
     (if get_at input (en_location e') = Some (fmt_quote None e') \<and> fmt_quoting_enabled None e'
       then parse_quoted_field None input rs e' else parse_unquoted_field None input rs header e')"
    if "skip_delimiter_spaces None input rs e = (e', Ok u)" for e' u
  proof -
    have c: "config_of e' = config_of e" using spaces_keep_config [OF assms(3) that] .
    have wf: "format_matches opts e'" "engine_wf e'"
      using assms(1,2) format_matches_config [OF c] engine_wf_config [OF c] by simp_all
    show ?thesis
      using fmt_of_engine [OF wf] fmt_of_engine [OF format_matches_None wf(2)]
        unquoted_without_format [OF wf] quoted_without_format [OF wf] by simp
  qed
  show ?thesis
    unfolding parse_one_field_def by (rule bind_step_cong) (use spaces later in simp_all)
qed

lemma record_fields_without_format:
  assumes "parse_inv input rs e" "engine_wf e" "format_matches opts e"
  shows "parse_record_fields opts input rs header e = parse_record_fields None input rs header e"
  using assms
proof (induction opts input rs header e rule: parse_record_fields.induct)
  case (1 opts input rs header e)
  note one = one_field_without_format [OF 1(4,3,2), of header]
  obtain e1 r where step: "parse_one_field opts input rs header e = (e1, r)" by fastforce
  show ?case
  proof (cases r)
    case (Ok ended)
    have e1: "parse_inv input rs e1" "config_of e1 = config_of e"
      using one_field.parse_keeps [OF 1(4,3,2)] step Ok by blast+
    have wf: "engine_wf e1" "format_matches opts e1"
      using 1(3,4) engine_wf_config [OF e1(2)] format_matches_config [OF e1(2)] by simp_all
    have finish: "finish_general_record opts input header e1 = finish_general_record None input header e1"
      using fmt_of_engine [OF wf(2,1)] fmt_of_engine [OF format_matches_None wf(1)]
      by (simp add: finish_general_record_def bind_step_def mark_null_spans_def Let_def)
    show ?thesis
      using step Ok one finish 1(1) [OF step [symmetric] Ok _ e1(1) wf]
      by (simp add: parse_record_fields.simps [of opts] parse_record_fields.simps [of None])
  qed (use step one in \<open>simp_all add: parse_record_fields.simps [of opts] parse_record_fields.simps [of None]\<close>)
qed

section \<open>Stop bytes\<close>

text \<open>The bytes the unquoted parsers stop at.\<close>

definition stop_bytes :: "engine \<Rightarrow> byte set" where
  "stop_bytes e =
     {delimiter (en_dialect e), ending_byte (record_ending (en_dialect e))} \<union>
     (if allow_quote_search e then {quote (en_dialect e)} else {}) \<union>
     (if is_crlf e then {CR} else {}) \<union>
     (case unquoted_escape e of Some b \<Rightarrow> {b} | None \<Rightarrow> {})"

definition stop_free :: "engine \<Rightarrow> bytes \<Rightarrow> nat \<Rightarrow> nat \<Rightarrow> bool" where
  "stop_free e input a b \<longleftrightarrow> (\<forall>i. a \<le> i \<longrightarrow> i < b \<longrightarrow> input ! i \<notin> stop_bytes e)"

lemma stop_bytes_config: "config_of e' = config_of e \<Longrightarrow> stop_bytes e' = stop_bytes e"
  by (simp add: stop_bytes_def allow_quote_search_def is_crlf_def unquoted_escape_def config_ofD [of e' e])

lemma earliest_position:
  "earliest (position P xs) (position Q xs) = position (\<lambda>x. P x \<or> Q x) xs"
proof (induction xs)
  case (Cons x xs)
  then show ?case
    by (auto simp: earliest_def map_option_case split: option.splits if_splits)
qed (simp add: earliest_def)

lemma escapes_unquoted_iff: "escapes_unquoted x \<longleftrightarrow> unquoted_byte x \<noteq> None"
  by (cases x) (auto simp: escapes_unquoted_def)

lemma next_stop_position:
  assumes "ex = (is_crlf e \<or> unquoted_escape e \<noteq> None)"
  shows "next_stop e ex remaining = position (\<lambda>b. b \<in> stop_bytes e) remaining"
  using assms
  by (cases "unquoted_escape e"; cases "is_crlf e"; cases "allow_quote_search e")
    (auto simp: next_stop_def find_stop_byte_def Let_def find_simps earliest_position stop_bytes_def
      escape_or_backslash_def intro!: position_cong)

lemma position_slice_first:
  assumes "a \<le> i" "i < b" "b \<le> length xs" "P (xs ! i)" "\<And>j. a \<le> j \<Longrightarrow> j < i \<Longrightarrow> \<not> P (xs ! j)"
  shows "position P (slice xs a b) = Some (i - a)"
  using assms by (intro position_SomeI) auto

lemma position_slice_none:
  assumes "b \<le> length xs" "\<And>j. a \<le> j \<Longrightarrow> j < b \<Longrightarrow> \<not> P (xs ! j)"
  shows "position P (slice xs a b) = None"
  using assms by (auto simp: position_None_iff in_set_conv_nth)

section \<open>A field without escapes\<close>

text \<open>A single-byte dialect that passes its validity check.\<close>

definition simple_dialect :: "engine \<Rightarrow> bool" where
  "simple_dialect e \<longleftrightarrow> engine_wf e \<and> invalidity (en_dialect e) = None \<and> \<not> multibyte (en_dialect e)"

lemma simple_dialect_config: "config_of e' = config_of e \<Longrightarrow> simple_dialect e' = simple_dialect e"
  using engine_wf_config [of e' e] by (simp add: simple_dialect_def config_ofD [of e' e])

lemma simple_dialectD:
  assumes "simple_dialect e"
  shows "delimiter (en_dialect e) \<noteq> quote (en_dialect e)"
    "ending_byte (record_ending (en_dialect e)) \<noteq> delimiter (en_dialect e)"
    "ending_byte (record_ending (en_dialect e)) \<noteq> quote (en_dialect e)"
    "record_ending (en_dialect e) = CrLf \<Longrightarrow> delimiter (en_dialect e) \<noteq> CR \<and> quote (en_dialect e) \<noteq> CR"
    "tail_is_empty (delimiter_tail (en_dialect e))" "tail_is_empty (ending_tail (en_dialect e))"
    "engine_wf e"
  using assms by (auto simp: simple_dialect_def invalidity_None_iff multibyte_def)

definition push_field :: "bytes \<Rightarrow> nat \<Rightarrow> nat \<Rightarrow> nat \<Rightarrow> bool \<Rightarrow> unit step" where
  "push_field input fs fe at header e =
     (if needs_general_parsing (en_dialect e) (en_trim e) then push_general_unquoted_span input fs fe at header e
      else push_span input FromInput fs fe at False e)"

lemma bind_push_field:
  "needs_general_parsing (en_dialect e) (en_trim e) \<Longrightarrow> bind_step (push_field input fs fe at header) f e =
     bind_step (push_general_unquoted_span input fs fe at header) f e"
  "\<not> needs_general_parsing (en_dialect e) (en_trim e) \<Longrightarrow> bind_step (push_field input fs fe at header) f e =
     bind_step (push_span input FromInput fs fe at False) f e"
  by (simp_all add: bind_step_def push_field_def)

definition close_field :: "bytes \<Rightarrow> nat \<Rightarrow> bool \<Rightarrow> nat \<Rightarrow> nat \<Rightarrow> nat \<Rightarrow> nat \<Rightarrow> bool \<Rightarrow> bool step" where
  "close_field input rs header fs fe at resume ends =
     bind_step (push_field input fs fe at header) (\<lambda>_ e1.
       let e2 = e1\<lparr>en_location := resume\<rparr>; e3 = (if ends then note_terminated e2 else e2)
       in bind_step (check_record_limit input rs resume) (\<lambda>_. return_step ends) e3)"

definition end_of_input :: "bytes \<Rightarrow> nat \<Rightarrow> bool \<Rightarrow> nat \<Rightarrow> nat \<Rightarrow> bool step" where
  "end_of_input input rs header fs stop =
     bind_step (check_scan_end input stop rs fs) (\<lambda>_.
       bind_step (push_field input fs stop stop header)
         (\<lambda>_ e'. (clear_terminated (e'\<lparr>en_location := stop\<rparr>), Ok True)))"

lemma general_parsing_iff:
  assumes "simple_dialect e" "\<not> needs_general_parsing (en_dialect e) (en_trim e)"
  shows "unquoted_escape e = None" "\<not> is_crlf e"
  using assms by (auto simp: needs_general_parsing_def is_crlf_def unquoted_escape_def escapes_unquoted_iff)

lemma general_extra: "(record_ending (en_dialect e) = CrLf \<or> escapes_unquoted (escape (en_dialect e))) =
    (is_crlf e \<or> unquoted_escape e \<noteq> None)"
  by (simp add: is_crlf_def unquoted_escape_def escapes_unquoted_iff)

text \<open>The runtime search is the search for the stop bytes.\<close>

lemma runtime_search:
  assumes "simple_dialect e" "\<not> needs_general_parsing (en_dialect e) (en_trim e)"
  shows "(if quoting_enabled (en_syntax e) \<and> \<not> permits_unquoted_quotes (en_syntax e)
      then find3 (delimiter (en_dialect e)) (quote (en_dialect e)) (ending_byte (record_ending (en_dialect e))) remaining
      else find2 (delimiter (en_dialect e)) (ending_byte (record_ending (en_dialect e))) remaining) =
    position (\<lambda>b. b \<in> stop_bytes e) remaining"
  using general_parsing_iff [OF assms]
  by (auto simp: find_simps stop_bytes_def allow_quote_search_def intro!: position_cong)

lemma escape_not_structural:
  assumes "simple_dialect e" "unquoted_escape e = Some b"
  shows "b \<noteq> delimiter (en_dialect e)" "b \<noteq> quote (en_dialect e)"
    "b \<noteq> ending_byte (record_ending (en_dialect e))"
proof -
  have "escape_conflict (en_dialect e) = None"
    using assms(1) by (simp add: simple_dialect_def invalidity_None_iff)
  then show "b \<noteq> delimiter (en_dialect e)" "b \<noteq> quote (en_dialect e)"
    "b \<noteq> ending_byte (record_ending (en_dialect e))"
    using assms(2)
    by (auto simp: escape_conflict_def unquoted_escape_def Let_def split: escape.splits if_splits)
qed

text \<open>What the two unquoted parsers do, in terms of the first stop byte.\<close>

lemma unquoted_field_cases:
  assumes "simple_dialect e"
  shows "parse_unquoted_field None input rs header e =
    (if needs_general_parsing (en_dialect e) (en_trim e)
     then general_unquoted_loop (is_crlf e \<or> unquoted_escape e \<noteq> None) input rs header (en_location e) (en_location e) e
     else parse_unquoted_field_runtime input rs (delimiter (en_dialect e)) (quote (en_dialect e))
       (ending_byte (record_ending (en_dialect e))) (quoting_enabled (en_syntax e))
       (permits_unquoted_quotes (en_syntax e)) (strips_cr (record_ending (en_dialect e))) e)"
  using fmt_of_engine [OF format_matches_None simple_dialectD(7) [OF assms]]
  by (simp add: parse_unquoted_field_def parse_general_unquoted_field_def general_extra)

lemma first_stop:
  assumes "stop_free e input fs at" "fs \<le> at" "at < n" "n \<le> length input" "input ! at \<in> stop_bytes e"
  shows "position (\<lambda>b. b \<in> stop_bytes e) (slice input fs n) = Some (at - fs)"
  using assms by (intro position_slice_first) (auto simp: stop_free_def)

lemma first_stop_general:
  assumes "stop_free e input fs at" "fs \<le> at" "at < scan_end e input rs fs" "input ! at \<in> stop_bytes e"
  shows "next_stop e (is_crlf e \<or> unquoted_escape e \<noteq> None) (slice input fs (scan_end e input rs fs)) = Some (at - fs)"
  using first_stop [OF assms(1-3) scan_end_le assms(4)] by (simp add: next_stop_position)

lemma field_at_delimiter:
  assumes "simple_dialect e" "stop_free e input (en_location e) at" "en_location e \<le> at"
    "at < scan_end e input rs (en_location e)" "input ! at = delimiter (en_dialect e)"
  shows "parse_unquoted_field None input rs header e =
    close_field input rs header (en_location e) at at (at + 1) False e"
proof -
  let ?fs = "en_location e" and ?stop = "scan_end e input rs (en_location e)"
  note d = simple_dialectD [OF assms(1)]
  have stop: "input ! at \<in> stop_bytes e" using assms(5) by (simp add: stop_bytes_def)
  note first = first_stop [OF assms(2-4) scan_end_le stop]
  have esc: "unquoted_escape e \<noteq> Some (input ! at)" using escape_not_structural(1) [OF assms(1)] assms(5) by blast
  show ?thesis
  proof (cases "needs_general_parsing (en_dialect e) (en_trim e)")
    case True
    have crlf: "\<not> (is_crlf e \<and> delimiter (en_dialect e) = CR)" using d(4) by (auto simp: is_crlf_def)
    show ?thesis
      using True assms(3,4,5) d(1) d(2) [symmetric] d(5) esc first_stop_general [OF assms(2-4) stop]
      by (simp add: crlf bind_push_field unquoted_field_cases [OF assms(1)] general_unquoted_loop.simps [of _ input rs header ?fs ?fs]
          close_field_def end_general_field_def Let_def)
  next
    case False
    have "get_range input ?fs ?stop = Some (slice input ?fs ?stop)" using assms(3,4) by (simp add: get_range_def)
    then show ?thesis
      using False assms(3,5) d(1,2)
      by (simp add: unquoted_field_cases [OF assms(1)] parse_unquoted_field_runtime_def Let_def
          runtime_search [OF assms(1) False] first close_field_def bind_push_field)
  qed
qed

text \<open>Where a field that ends at the line feed of a record ends.\<close>

definition stripped_end :: "engine \<Rightarrow> bytes \<Rightarrow> nat \<Rightarrow> nat \<Rightarrow> nat" where
  "stripped_end e input fs at =
     (if record_ending (en_dialect e) = Newline \<and> fs < at \<and> input ! (at - 1) = CR then at - 1 else at)"

lemma field_at_ending:
  assumes "simple_dialect e" "stop_free e input (en_location e) at" "en_location e \<le> at"
    "at < scan_end e input rs (en_location e)" "input ! at = ending_byte (record_ending (en_dialect e))"
    "\<not> is_crlf e"
  shows "parse_unquoted_field None input rs header e =
    close_field input rs header (en_location e) (stripped_end e input (en_location e) at) at (at + 1) True e"
proof -
  let ?fs = "en_location e" and ?stop = "scan_end e input rs (en_location e)"
  note d = simple_dialectD [OF assms(1)]
  have stop: "input ! at \<in> stop_bytes e" using assms(5) by (simp add: stop_bytes_def)
  note first = first_stop [OF assms(2-4) scan_end_le stop]
  have esc: "unquoted_escape e \<noteq> Some (input ! at)" using escape_not_structural(3) [OF assms(1)] assms(5) by blast
  show ?thesis
  proof (cases "needs_general_parsing (en_dialect e) (en_trim e)")
    case True
    show ?thesis
      using True assms(3-6) d(3,6) esc first_stop_general [OF assms(2-4) stop]
      by (simp add: unquoted_field_cases [OF assms(1)] general_unquoted_loop.simps [of _ input rs header ?fs ?fs]
          close_field_def end_general_field_def stripped_end_def Let_def bind_push_field note_terminated_def)
  next
    case False
    have "get_range input ?fs ?stop = Some (slice input ?fs ?stop)" using assms(3,4) by (simp add: get_range_def)
    moreover have "strips_cr (record_ending (en_dialect e)) = (record_ending (en_dialect e) = Newline)"
      using assms(6) by (auto simp: strips_cr_def is_crlf_def)
    ultimately show ?thesis
      using False assms(3,5) d(1-3)
      by (simp add: unquoted_field_cases [OF assms(1)] parse_unquoted_field_runtime_def Let_def
          runtime_search [OF assms(1) False] first close_field_def bind_push_field stripped_end_def
          note_terminated_def)
  qed
qed

lemma field_at_crlf:
  assumes "simple_dialect e" "stop_free e input (en_location e) at" "en_location e \<le> at"
    "at < scan_end e input rs (en_location e)" "input ! at = CR" "at + 1 < length input" "input ! (at + 1) = LF"
    "is_crlf e" "unquoted_escape e \<noteq> Some CR"
  shows "parse_unquoted_field None input rs header e =
    close_field input rs header (en_location e) at at (at + 2) True e"
proof -
  let ?fs = "en_location e"
  note d = simple_dialectD [OF assms(1)]
  have stop: "input ! at \<in> stop_bytes e" using assms(5,8) by (simp add: stop_bytes_def)
  have general: "needs_general_parsing (en_dialect e) (en_trim e)"
    using assms(8) by (simp add: needs_general_parsing_def is_crlf_def)
  have quote: "input ! at \<noteq> quote (en_dialect e)" using d(4) assms(5,8) by (simp add: is_crlf_def)
  show ?thesis
    using general assms(3-9) quote first_stop_general [OF assms(2-4) stop]
    by (simp add: unquoted_field_cases [OF assms(1)] general_unquoted_loop.simps [of _ input rs header ?fs ?fs]
        close_field_def end_general_field_def get_at_def Let_def bind_push_field note_terminated_def)
qed

lemma field_at_input_end:
  assumes "simple_dialect e" "en_location e \<le> scan_end e input rs (en_location e)"
    "stop_free e input (en_location e) (scan_end e input rs (en_location e))"
  shows "parse_unquoted_field None input rs header e =
    end_of_input input rs header (en_location e) (scan_end e input rs (en_location e)) e"
proof -
  let ?fs = "en_location e" and ?stop = "scan_end e input rs (en_location e)"
  have none: "position (\<lambda>b. b \<in> stop_bytes e) (slice input ?fs ?stop) = None"
    using assms(3) by (intro position_slice_none) (auto simp: stop_free_def)
  show ?thesis
  proof (cases "needs_general_parsing (en_dialect e) (en_trim e)")
    case True
    let ?ex = "is_crlf e \<or> unquoted_escape e \<noteq> None"
    have at_stop: "general_unquoted_loop ?ex input rs header ?fs ?stop e = end_of_input input rs header ?fs ?stop e"
      using True by (subst general_unquoted_loop.simps, simp add: end_of_input_def Let_def)
        (rule bind_step_cong, auto simp: bind_push_field)
    show ?thesis
    proof (cases "?stop \<le> ?fs")
      case True
      then have "?stop = ?fs" using assms(2) by simp
      then show ?thesis using at_stop \<open>needs_general_parsing _ _\<close> by (simp add: unquoted_field_cases [OF assms(1)])
    next
      case False
      then have "general_unquoted_loop ?ex input rs header ?fs ?fs e = general_unquoted_loop ?ex input rs header ?fs ?stop e"
        using none by (subst general_unquoted_loop.simps) (simp add: next_stop_position)
      then show ?thesis using at_stop \<open>needs_general_parsing _ _\<close> by (simp add: unquoted_field_cases [OF assms(1)])
    qed
  next
    case False
    have "get_range input ?fs ?stop = Some (slice input ?fs ?stop)" using assms(2) by (simp add: get_range_def)
    then show ?thesis
      using False
      unfolding unquoted_field_cases [OF assms(1)] parse_unquoted_field_runtime_def Let_def
      by (simp add: runtime_search [OF assms(1) False] none end_of_input_def)
        (rule bind_step_cong, auto simp: bind_push_field)
  qed
qed

end
