(* ===== verification/Kernel.thy ===== *)
theory Kernel
  imports PlainFields
begin

text \<open>
  The plain kernel (\<open>try_parse_borrowed_plain\<close>) against the general field loop
  (\<open>parse_record_fields\<close>): a record the kernel takes is the record the general loop would have read,
  field by field, when the dialect has single bytes only and the window is within the field limit. The two differ on the way in how NULL fields are marked, by a pass at the end or
  when the field is pushed; \<open>agrees\<close> relates their engines.
\<close>

section \<open>Engines that agree\<close>

text \<open>The span of a NULL field, as the general parser pushes it and the kernel leaves it to be marked.\<close>

definition span_agrees :: "bytes \<Rightarrow> nulls \<Rightarrow> bool \<Rightarrow> span \<Rightarrow> span \<Rightarrow> bool" where
  "span_agrees input n header s t \<longleftrightarrow>
     t = s \<or> \<not> header \<and> \<not> span_is_quoted s \<and> span_source s = FromInput \<and>
       (\<exists>raw. get_range input (span_start s) (span_end s) = Some raw \<and> raw_field_is_null n raw) \<and>
       from_valid_null FromInput (span_start s) = Ok t"

definition core :: "engine \<Rightarrow> engine" where
  "core e = e\<lparr>en_location := 0, en_spans := storage_with_capacity, en_terminated := False,
     en_folded_upto := 0, en_folded_lines := 0\<rparr>"

lemma core_updates [simp]:
  "core (e\<lparr>en_location := a\<rparr>) = core e" "core (e\<lparr>en_spans := b\<rparr>) = core e"
  "core (e\<lparr>en_terminated := c\<rparr>) = core e" "core (e\<lparr>en_folded_upto := g\<rparr>) = core e"
  "core (e\<lparr>en_folded_lines := h\<rparr>) = core e" "core (note_terminated e) = core e"
  "core (clear_terminated e) = core e"
  by (simp_all add: core_def note_terminated_def clear_terminated_def)

lemma core_config: "core e' = core e \<Longrightarrow> config_of e' = config_of e"
proof -
  assume "core e' = core e"
  moreover have "config_of x = (core x)\<lparr>en_expected := None\<rparr>" for x by (simp add: core_def config_of_def)
  ultimately show "config_of e' = config_of e" by simp
qed

lemma core_fields:
  assumes "core e' = core e"
  shows "en_expected e' = en_expected e" "en_resume e' = en_resume e" "en_failed e' = en_failed e"
  using arg_cong [OF assms, of en_expected] arg_cong [OF assms, of en_resume] arg_cong [OF assms, of en_failed]
  by (simp_all add: core_def)

definition agrees :: "bytes \<Rightarrow> bool \<Rightarrow> engine \<Rightarrow> engine \<Rightarrow> bool" where
  "agrees input header e g \<longleftrightarrow>
     core g = core e \<and> ss_scratch (en_spans g) = ss_scratch (en_spans e) \<and>
     ss_input_bound (en_spans g) = ss_input_bound (en_spans e) \<and>
     list_all2 (span_agrees input (en_nulls e) header) (ss_spans (en_spans e)) (ss_spans (en_spans g))"

lemma agrees_config: "agrees input header e g \<Longrightarrow> config_of g = config_of e"
  unfolding agrees_def by (elim conjE) (rule core_config)

lemma agrees_storage:
  assumes "agrees input header e g"
  shows "storage_len (en_spans g) = storage_len (en_spans e)" "input_len (en_spans g) = input_len (en_spans e)"
  using assms by (auto simp: agrees_def storage_len_def input_len_def dest: list_all2_lengthD)

lemma agrees_move [simp]:
  "agrees input header e (g\<lparr>en_location := n\<rparr>) = agrees input header e g"
  "agrees input header e (note_terminated g) = agrees input header e g"
  "agrees input header e (clear_terminated g) = agrees input header e g"
  "agrees input header (e\<lparr>en_location := n\<rparr>) g = agrees input header e g"
  "agrees input header (note_terminated e) g = agrees input header e g"
  "agrees input header (clear_terminated e) g = agrees input header e g"
  "agrees input header (fold_plain_record opts rs t e) g = agrees input header e g"
  by (simp_all add: agrees_def note_terminated_def clear_terminated_def fold_plain_record_def)

lemma push_input_agrees:
  assumes "agrees input header e g" "parse_inv input rs e"
    "push_span input FromInput a b at False e = (e', Ok u)"
  shows "\<exists>g'. push_span input FromInput a b at' False g = (g', Ok ()) \<and> agrees input header e' g' \<and>
    en_location g' = en_location g \<and> en_terminated g' = en_terminated g"
proof -
  let ?s = "from_range_unchecked FromInput a b False"
  have lim: "en_limits g = en_limits e" using config_ofD(2) [OF agrees_config [OF assms(1)]] .
  note s = agrees_storage [OF assms(1)]
  obtain st where st: "try_push_input_bounded a b False (max_fields (en_limits e)) (max_field_bytes (en_limits e)) (en_spans e) = Some st"
    "e' = e\<lparr>en_spans := st\<rparr>"
    using assms(3) by (auto simp: push_span_def split: option.splits)
  have "en_nulls e' = en_nulls e" using st by simp
  then show ?thesis
    using assms(1) st s lim
    by (auto simp: try_push_input_bounded_def push_span_def agrees_def span_agrees_def list_all2_appendI split: if_splits)
qed

lemma push_null_agrees:
  assumes "agrees input header e g" "parse_inv input rs e" "\<not> header"
    "get_range input a b = Some raw" "raw_field_is_null (en_nulls e) raw"
    "push_span input FromInput a b at False e = (e', Ok u)"
  shows "\<exists>g'. push_null_span input a g = (g', Ok ()) \<and> agrees input header e' g' \<and>
    en_location g' = en_location g \<and> en_terminated g' = en_terminated g"
proof -
  let ?s = "from_range_unchecked FromInput a b False"
  have lim: "en_limits g = en_limits e" using config_ofD(2) [OF agrees_config [OF assms(1)]] .
  note s = agrees_storage [OF assms(1)]
  have wf: "storage_wf (en_spans e)" "input_len (en_spans e) = length input" using assms(2) by (simp_all add: parse_inv_def)
  obtain st where st: "try_push_input_bounded a b False (max_fields (en_limits e)) (max_field_bytes (en_limits e)) (en_spans e) = Some st"
    "e' = e\<lparr>en_spans := st\<rparr>"
    using assms(6) by (auto simp: push_span_def split: option.splits)
  have p: "a \<le> b" "b \<le> input_len (en_spans e)" "storage_len (en_spans e) < max_fields (en_limits e)"
    "st = (en_spans e)\<lparr>ss_spans := ss_spans (en_spans e) @ [?s]\<rparr>"
    using st(1) by (auto simp: try_push_input_bounded_def split: if_splits)
  have off: "a \<le> MAX_OFFSET" "b \<le> MAX_OFFSET" using wf_offsets [OF wf(1)] p by auto
  obtain t where t: "from_valid_null FromInput a = Ok t" using span_of_null [OF off(1)] by blast
  have "push_null_span input a g = (g\<lparr>en_spans := (en_spans g)\<lparr>ss_spans := ss_spans (en_spans g) @ [t]\<rparr>\<rparr>, Ok ())"
    using p s lim t by (simp add: push_null_span_def storage_push_null_def assert_that_def)
  moreover have "span_agrees input (en_nulls e) header ?s t"
    using assms(3-5) t by (simp add: span_agrees_def span_of_range [OF off])
  ultimately show ?thesis
    using assms(1) st(2) p(4) by (auto simp: agrees_def list_all2_appendI)
qed

lemma slice_member: "x \<in> set (slice xs a b) \<Longrightarrow> b \<le> length xs \<Longrightarrow> \<exists>i. a \<le> i \<and> i < b \<and> xs ! i = x"
  unfolding in_set_conv_nth by (metis add_diff_inverse_nat le_add1 length_slice less_diff_conv
      min_less_iff_conj not_less_zero nth_slice add.commute)

text \<open>Pushing a field in both: the field holds no byte that escapes.\<close>

lemma push_field_agrees:
  assumes "agrees input header e g" "parse_inv input rs e"
    "push_span input FromInput a b at False e = (e', Ok u)"
    "\<forall>i. a \<le> i \<longrightarrow> i < b \<longrightarrow> unquoted_escape e \<noteq> Some (input ! i)"
  shows "\<exists>g'. push_field input a b at' header g = (g', Ok ()) \<and> agrees input header e' g' \<and>
    en_location g' = en_location g \<and> en_terminated g' = en_terminated g"
proof -
  note c = config_ofD [OF agrees_config [OF assms(1)]]
  have wf: "input_len (en_spans e) = length input" using assms(2) by (simp add: parse_inv_def)
  have "a \<le> b" "b \<le> length input"
    using assms(3) wf by (auto simp: push_span_def try_push_input_bounded_def split: if_splits)
  then obtain raw where raw: "get_range input a b = Some raw" "raw = slice input a b" by (simp add: get_range_def)
  have "unquoted_escape g = unquoted_escape e" using c(1) by (simp add: unquoted_escape_def)
  then have esc: "unquoted_byte (escape (en_dialect g)) = Some x \<Longrightarrow> x \<notin> set raw" for x
    using assms(4) raw(2) slice_member [of x input a b] \<open>b \<le> length input\<close>
    unfolding unquoted_escape_def by metis
  note plain = push_input_agrees [OF assms(1-3), where at' = at']
  show ?thesis
  proof (cases "needs_general_parsing (en_dialect g) (en_trim g) \<and> \<not> header \<and> raw_field_is_null (en_nulls e) raw")
    case True
    then show ?thesis
      using push_null_agrees [OF assms(1,2) _ raw(1) _ assms(3)] c(4) raw(1)
      by (auto simp: push_field_def push_general_unquoted_span_def raw_field_is_null_def split: nulls.splits)
  next
    case False
    then have "push_field input a b at' header g = push_span input FromInput a b at' False g"
      using raw(1) esc c(4)
      by (auto simp: push_field_def push_general_unquoted_span_def raw_field_is_null_def split: nulls.splits option.splits)
    then show ?thesis using plain by simp
  qed
qed

section \<open>Structural offsets one by one\<close>

lemma structural_offsets_rec:
  "structural_offsets xs a b c pos =
     (if length xs \<le> pos then []
      else if xs ! pos \<in> {a, b, c} then (pos, xs ! pos) # structural_offsets xs a b c (pos + 1)
      else structural_offsets xs a b c (pos + 1))"
  by (simp add: structural_offsets_def upt_rec [of pos])

lemma structural_offsets_Nil:
  assumes "structural_offsets xs a b c pos = []" "pos \<le> j" "j < length xs"
  shows "xs ! j \<notin> {a, b, c}"
  using assms by (auto simp: structural_offsets_def filter_empty_conv)

lemma structural_offsets_Cons:
  "structural_offsets xs a b c pos = (i, x) # rest \<Longrightarrow>
     pos \<le> i \<and> i < length xs \<and> x = xs ! i \<and> x \<in> {a, b, c} \<and>
     (\<forall>j. pos \<le> j \<longrightarrow> j < i \<longrightarrow> xs ! j \<notin> {a, b, c}) \<and> rest = structural_offsets xs a b c (i + 1)"
proof (induction "length xs - pos" arbitrary: pos)
  case 0
  then show ?case by (subst (asm) structural_offsets_rec) simp
next
  case (Suc n)
  have lt: "\<not> length xs \<le> pos" using Suc(2) by simp
  show ?case
  proof (cases "xs ! pos \<in> {a, b, c}")
    case True
    then have eq: "structural_offsets xs a b c pos = (pos, xs ! pos) # structural_offsets xs a b c (pos + 1)"
      using lt by (subst structural_offsets_rec) simp
    have "(pos, xs ! pos) # structural_offsets xs a b c (pos + 1) = (i, x) # rest"
      unfolding eq [symmetric] by (rule Suc(3))
    then have "i = pos" "x = xs ! pos" "rest = structural_offsets xs a b c (pos + 1)"
      unfolding list.inject prod.inject by blast+
    then show ?thesis using lt True by simp
  next
    case False
    then have eq: "structural_offsets xs a b c pos = structural_offsets xs a b c (pos + 1)"
      using lt by (subst structural_offsets_rec) simp
    have "structural_offsets xs a b c (pos + 1) = (i, x) # rest"
      unfolding eq [symmetric] by (rule Suc(3))
    moreover have "n = length xs - (pos + 1)" using Suc(2) by simp
    ultimately have ih: "pos + 1 \<le> i \<and> i < length xs \<and> x = xs ! i \<and> x \<in> {a, b, c} \<and>
        (\<forall>j. pos + 1 \<le> j \<longrightarrow> j < i \<longrightarrow> xs ! j \<notin> {a, b, c}) \<and> rest = structural_offsets xs a b c (i + 1)"
      by (rule Suc(1) [rotated])
    have "xs ! j \<notin> {a, b, c}" if "pos \<le> j" "j < i" for j
      using that ih False by (cases "j = pos") auto
    moreover have "pos \<le> i" using ih by simp
    ultimately show ?thesis using ih by blast
  qed
qed

section \<open>One field in both\<close>

text \<open>The bytes from the start of a field that the kernel went past.\<close>

definition passed :: "engine \<Rightarrow> bytes \<Rightarrow> nat \<Rightarrow> nat \<Rightarrow> bool" where
  "passed e input fs pos \<longleftrightarrow>
     (\<forall>i. fs \<le> i \<longrightarrow> i < pos \<longrightarrow>
        input ! i \<noteq> delimiter (en_dialect e) \<and> input ! i \<noteq> ending_byte (record_ending (en_dialect e)) \<and>
        (input ! i = quote (en_dialect e) \<longrightarrow>
           \<not> quoting_enabled (en_syntax e) \<or> i \<noteq> fs \<and> permits_unquoted_quotes (en_syntax e)))"

definition escape_free :: "engine \<Rightarrow> bytes \<Rightarrow> nat \<Rightarrow> nat \<Rightarrow> bool" where
  "escape_free e input a b \<longleftrightarrow> (\<forall>i. a \<le> i \<longrightarrow> i < b \<longrightarrow> unquoted_escape e \<noteq> Some (input ! i))"

definition carriage_free :: "engine \<Rightarrow> bytes \<Rightarrow> nat \<Rightarrow> nat \<Rightarrow> bool" where
  "carriage_free e input a b \<longleftrightarrow> (is_crlf e \<longrightarrow> (\<forall>i. a \<le> i \<longrightarrow> i < b \<longrightarrow> input ! i \<noteq> CR))"

lemma passed_stop_free:
  "passed e input fs at \<Longrightarrow> escape_free e input fs at \<Longrightarrow> carriage_free e input fs at \<Longrightarrow> stop_free e input fs at"
  by (fastforce simp: passed_def escape_free_def carriage_free_def stop_free_def stop_bytes_def
      allow_quote_search_def split: if_splits option.splits)

lemma passed_config:
  assumes "config_of g = config_of e"
  shows "passed g = passed e" "escape_free g = escape_free e" "carriage_free g = carriage_free e"
  by (intro ext; simp add: passed_def escape_free_def carriage_free_def unquoted_escape_def is_crlf_def config_ofD [OF assms])+

lemma unquoted_field_chosen:
  assumes "simple_dialect g" "\<not> en_skip_initial_space g"
    "get_at input (en_location g) \<noteq> Some (quote (en_dialect g)) \<or> \<not> quoting_enabled (en_syntax g)"
  shows "parse_one_field None input rs header g = parse_unquoted_field None input rs header g"
  using assms fmt_of_engine [OF format_matches_None simple_dialectD(7) [OF assms(1)]]
  by (auto simp: parse_one_field_def skip_delimiter_spaces_def skip_delimiter_spaces_for_def bind_step_def)

lemma close_field_agrees:
  assumes "agrees input header e g" "parse_inv input rs e"
    "push_span input FromInput fs fe at False e = (e', Ok u)" "escape_free e input fs fe"
    "rs \<le> resume" "resume - rs \<le> max_record_bytes (en_limits e)"
  shows "\<exists>g'. close_field input rs header fs fe at' resume ends g = (g', Ok ends) \<and> agrees input header e' g' \<and>
    en_location g' = resume \<and> (ends \<longrightarrow> en_terminated g')"
proof -
  obtain g1 where g1: "push_field input fs fe at' header g = (g1, Ok ())" "agrees input header e' g1"
    using push_field_agrees [OF assms(1-3)] assms(4) unfolding escape_free_def by blast
  have "config_of e' = config_of e" using good_push_span [OF assms(2), of FromInput fs fe at False] assms(3) by simp
  then have "en_limits g1 = en_limits e" using config_ofD(2) agrees_config [OF g1(2)] by metis
  then show ?thesis
    using g1 assms(5,6)
    by (auto simp: close_field_def bind_step_def Let_def check_record_limit_def check_record_limit_for_def
        note_terminated_def return_step_def agrees_move [unfolded note_terminated_def])
qed

lemma end_of_input_agrees:
  assumes "agrees input header e g" "parse_inv input rs e"
    "push_span input FromInput fs stop at False e = (e', Ok u)" "escape_free e input fs stop"
    "rs \<le> stop" "stop - rs \<le> max_record_bytes (en_limits e)" "stop - fs \<le> max_field_bytes (en_limits e)"
  shows "\<exists>g'. end_of_input input rs header fs stop g = (g', Ok True) \<and> agrees input header e' g' \<and>
    en_location g' = stop \<and> \<not> en_terminated g'"
proof -
  obtain g1 where g1: "push_field input fs stop stop header g = (g1, Ok ())" "agrees input header e' g1"
    using push_field_agrees [OF assms(1-3)] assms(4) unfolding escape_free_def by blast
  have "en_limits g = en_limits e" using config_ofD(2) [OF agrees_config [OF assms(1)]] .
  then show ?thesis
    using g1 assms(5-7)
    by (auto simp: end_of_input_def bind_step_def clear_terminated_def agrees_move [unfolded clear_terminated_def]
        check_scan_end_def check_scan_end_for_def check_record_limit_for_def)
qed

section \<open>The kernel's loop against the field loop\<close>

lemma record_fields_step:
  "parse_one_field None input rs header g = (g', Ok ended) \<Longrightarrow>
     parse_record_fields None input rs header g =
       (if ended then finish_general_record None input header g' else parse_record_fields None input rs header g')"
  by (simp add: parse_record_fields.simps [of None input rs header g])

lemma kernel_loop_after:
  "kernel_loop opts input rs found fs e = (e', Ok True) \<Longrightarrow> fs \<le> en_location e'"
proof (induction opts input rs found fs e rule: kernel_loop.induct)
  case (1 opts input rs fs e)
  have le: "push_span input FromInput a b at q e = (e1, Ok u) \<Longrightarrow> a \<le> b" for a b at q e e1 u
    by (auto simp: push_span_def try_push_input_bounded_def split: if_splits)
  show ?case
    using 1 by (auto simp: kernel_at_end_def Let_def decline_def fold_plain_record_def clear_terminated_def
        elim!: bind_step_Ok dest!: le split: if_splits)
next
  case (2 opts input rs cursor b found fs e)
  have le: "push_span input FromInput a b at q e = (e1, Ok u) \<Longrightarrow> a \<le> b" for a b at q e e1 u
    by (auto simp: push_span_def try_push_input_bounded_def split: if_splits)
  have terminator: "fs \<le> en_location e'" if "kernel_at_terminator opts input rs fs cursor e = (e', Ok True)"
    using that by (auto simp: kernel_at_terminator_def Let_def decline_def fold_plain_record_def note_terminated_def
        elim!: bind_step_Ok dest!: le split: if_splits)
  have deliver: "fs \<le> en_location e'"
    if p: "push_span input FromInput fs cursor cursor False e = (e1, Ok u)" "b = fmt_delimiter opts e"
      "kernel_loop opts input rs found (cursor + 1) e1 = (e', Ok True)" for e1 u
    using le [OF p(1)] 2(1) [OF p(2) p(1) [symmetric] refl p(3)] by simp
  show ?case
    using 2(2) 2(3) terminator deliver by (auto simp: decline_def split: if_splits prod.splits outcome.splits)
qed

text \<open>What \<open>validate_crlf\<close> leaves of a record that ends at \<open>n\<close>.\<close>

definition crlf_clean :: "engine \<Rightarrow> bytes \<Rightarrow> nat \<Rightarrow> nat \<Rightarrow> bool" where
  "crlf_clean e input rs n \<longleftrightarrow>
     (is_crlf e \<longrightarrow>
        (if rs < n \<and> input ! (n - 1) = LF
         then rs < n - 1 \<and> input ! (n - 2) = CR \<and> (\<forall>i. rs \<le> i \<longrightarrow> i < n - 2 \<longrightarrow> input ! i \<noteq> CR)
         else \<forall>i. rs \<le> i \<longrightarrow> i < n \<longrightarrow> input ! i \<noteq> CR))"

lemma crlf_clean_carriage:
  assumes "crlf_clean e input rs n" "rs \<le> a" "b < n" "\<forall>i. a \<le> i \<longrightarrow> i < b \<longrightarrow> input ! i \<noteq> LF"
    "input ! b \<noteq> CR" "input ! b \<noteq> LF"
  shows "carriage_free e input a b"
proof -
  have "input ! i \<noteq> CR" if "is_crlf e" "a \<le> i" "i < b" for i
  proof (cases "rs < n \<and> input ! (n - 1) = LF")
    case True
    then have "b \<noteq> n - 1" "b \<noteq> n - 2" using assms(1,5,6) that(1) by (auto simp: crlf_clean_def)
    then have "i < n - 2" using assms(3) that(3) by simp
    then show ?thesis using True assms(1,2) that by (auto simp: crlf_clean_def)
  next
    case False
    then show ?thesis using assms(1-3) that by (auto simp: crlf_clean_def)
  qed
  then show ?thesis by (simp add: carriage_free_def)
qed

lemma scan_end_borrowed:
  assumes "length input \<le> max_field_bytes (en_limits e)" "config_of g = config_of e" "length input \<le> usize_max"
  shows "scan_end g input rs fs = borrowed_scan_end e (length input) rs"
proof -
  have "length input \<le> sat_add fs (sat_add (max_field_bytes (en_limits e)) 1)"
    using assms(1,3) by (auto simp: sat_add_def)
  then show ?thesis
    using config_ofD(2) [OF assms(2)] by (simp add: scan_end_def borrowed_scan_end_def Let_def)
qed

definition kernel_setup :: "bytes \<Rightarrow> nat \<Rightarrow> engine \<Rightarrow> bool" where
  "kernel_setup input rs e \<longleftrightarrow>
     simple_dialect e \<and> \<not> en_skip_initial_space e \<and> parse_inv input rs e \<and>
     length input \<le> max_field_bytes (en_limits e)"

definition structure_from :: "bytes \<Rightarrow> nat \<Rightarrow> engine \<Rightarrow> nat \<Rightarrow> (nat \<times> byte) list" where
  "structure_from input rs e pos =
     structural_offsets (take (borrowed_scan_end e (length input) rs) input) (delimiter (en_dialect e))
       (quote (en_dialect e)) (ending_byte (record_ending (en_dialect e))) pos"

lemma structure_config: "config_of e' = config_of e \<Longrightarrow> structure_from input rs e' pos = structure_from input rs e pos"
  by (simp add: structure_from_def borrowed_scan_end_def config_ofD [of e' e])

lemma borrowed_end_le: "borrowed_scan_end e (length input) rs \<le> length input"
  by (simp add: borrowed_scan_end_def)

lemma structure_Cons:
  assumes "structure_from input rs e pos = (i, x) # rest"
  shows "pos \<le> i" "i < borrowed_scan_end e (length input) rs" "i < length input" "x = input ! i"
    "x = delimiter (en_dialect e) \<or> x = quote (en_dialect e) \<or> x = ending_byte (record_ending (en_dialect e))"
    "\<And>j. pos \<le> j \<Longrightarrow> j < i \<Longrightarrow> input ! j \<noteq> delimiter (en_dialect e) \<and> input ! j \<noteq> quote (en_dialect e) \<and>
       input ! j \<noteq> ending_byte (record_ending (en_dialect e))"
    "rest = structure_from input rs e (i + 1)"
  using structural_offsets_Cons [OF assms [unfolded structure_from_def]] borrowed_end_le [of e input rs]
  by (auto simp: structure_from_def)

lemma structure_found: "\<forall>(c, b) \<in> set (structure_from input rs e pos). c < length input \<and> b = input ! c"
  using borrowed_end_le [of e input rs] by (auto simp: structure_from_def structural_offsets_def)

lemma structure_Nil:
  assumes "structure_from input rs e pos = []" "pos \<le> j" "j < borrowed_scan_end e (length input) rs"
  shows "input ! j \<noteq> delimiter (en_dialect e) \<and> input ! j \<noteq> quote (en_dialect e) \<and>
    input ! j \<noteq> ending_byte (record_ending (en_dialect e))"
  using structural_offsets_Nil [OF assms(1) [unfolded structure_from_def] assms(2)] assms(3)
    borrowed_end_le [of e input rs] by simp

lemma passed_further:
  assumes "passed e input fs pos" "\<And>j. pos \<le> j \<Longrightarrow> j < i \<Longrightarrow> input ! j \<noteq> delimiter (en_dialect e) \<and>
      input ! j \<noteq> quote (en_dialect e) \<and> input ! j \<noteq> ending_byte (record_ending (en_dialect e))"
  shows "passed e input fs i"
  unfolding passed_def
proof (intro allI impI)
  fix j assume "fs \<le> j" "j < i"
  then show "input ! j \<noteq> delimiter (en_dialect e) \<and> input ! j \<noteq> ending_byte (record_ending (en_dialect e)) \<and>
      (input ! j = quote (en_dialect e) \<longrightarrow>
         \<not> quoting_enabled (en_syntax e) \<or> j \<noteq> fs \<and> permits_unquoted_quotes (en_syntax e))"
    using assms(1) assms(2) [of j] by (cases "j < pos") (auto simp: passed_def)
qed

text \<open>The field loop takes the unquoted parser where the kernel did not decline.\<close>

lemma not_quoted_here:
  assumes "passed e input fs at" "fs \<le> at" "input ! at \<noteq> quote (en_dialect e) \<or> fs < at \<or> length input \<le> at"
  shows "get_at input fs \<noteq> Some (quote (en_dialect e)) \<or> \<not> quoting_enabled (en_syntax e)"
  using assms by (cases "fs < at") (auto simp: passed_def get_at_def)

lemma stripped_at_end:
  assumes "simple_dialect e" "\<not> is_crlf e"
  shows "(if fmt_strips_cr None e \<and> fs < cursor \<and> input ! (cursor - 1) = CR then cursor - 1 else cursor) =
    stripped_end e input fs cursor"
  using assms fmt_of_engine [OF format_matches_None simple_dialectD(7) [OF assms(1)]]
  by (auto simp: stripped_end_def strips_cr_def is_crlf_def)

lemma commit_parts:
  assumes "bind_step (push_span input FromInput a b at False) (\<lambda>_ e1.
      bind_step (check_record_limit input rs (en_location (f (e1\<lparr>en_location := n\<rparr>))))
        (\<lambda>_ e3. (fold_plain_record opts rs t e3, Ok True)) (f (e1\<lparr>en_location := n\<rparr>))) e = (e', Ok ended)"
    "f = note_terminated \<or> f = clear_terminated"
  obtains e1 where "push_span input FromInput a b at False e = (e1, Ok ())"
    "e' = fold_plain_record opts rs t (f (e1\<lparr>en_location := n\<rparr>))" "rs \<le> n"
    "n - rs \<le> max_record_bytes (en_limits e)"
proof -
  obtain e1 where e1: "push_span input FromInput a b at False e = (e1, Ok ())"
    "e' = fold_plain_record opts rs t (f (e1\<lparr>en_location := n\<rparr>))" "rs \<le> n" "n - rs \<le> max_record_bytes (en_limits e1)"
    using assms by (auto simp: note_terminated_def clear_terminated_def elim!: bind_step_Ok)
  have "en_limits e1 = en_limits e" using e1(1) by (auto simp: push_span_def split: option.splits)
  then show thesis using that e1 by metis
qed

lemma general_setup:
  assumes "kernel_setup input rs e" "agrees input header e g"
  shows "simple_dialect g" "\<not> en_skip_initial_space g" "en_dialect g = en_dialect e" "en_syntax g = en_syntax e"
    "is_crlf g = is_crlf e" "unquoted_escape g = unquoted_escape e"
    "scan_end g input rs fs = borrowed_scan_end e (length input) rs"
proof -
  note c = config_ofD [OF agrees_config [OF assms(2)]]
  show "simple_dialect g" "\<not> en_skip_initial_space g"
    using assms(1) simple_dialect_config [OF agrees_config [OF assms(2)]] c(10) by (simp_all add: kernel_setup_def)
  show "en_dialect g = en_dialect e" "en_syntax g = en_syntax e" "is_crlf g = is_crlf e" "unquoted_escape g = unquoted_escape e"
    using c(1,3) by (simp_all add: is_crlf_def unquoted_escape_def)
  show "scan_end g input rs fs = borrowed_scan_end e (length input) rs"
    using assms(1) inv_length by (intro scan_end_borrowed [OF _ agrees_config [OF assms(2)]])
      (auto simp: kernel_setup_def dest: inv_length)
qed

text \<open>The end of the input: the kernel's last commit and the general parser's.\<close>

lemma kernel_end_agrees:
  assumes "kernel_at_end None input rs fs e = (e1, Ok True)" "structure_from input rs e pos = []"
    "kernel_setup input rs e" "agrees input header e g" "en_location g = fs" "rs \<le> fs" "fs \<le> pos"
    "passed e input fs pos" "fs = rs \<or> input ! (fs - 1) = delimiter (en_dialect e)"
    "escape_free e input rs (en_location e1)" "crlf_clean e input rs (en_location e1)"
  shows "\<exists>g1. parse_record_fields None input rs header g = finish_general_record None input header g1 \<and>
    agrees input header e1 g1 \<and> en_location g1 = en_location e1 \<and> en_terminated g1 = en_terminated e1"
proof -
  let ?stop = "borrowed_scan_end e (length input) rs" and ?len = "length input"
  have stop: "?stop = ?len" using assms(1) borrowed_end_le [of e input rs] by (auto simp: kernel_at_end_def Let_def split: if_splits)
  have "bind_step (push_span input FromInput fs ?len ?len False) (\<lambda>_ e1.
      bind_step (check_record_limit input rs (en_location (clear_terminated (e1\<lparr>en_location := ?len\<rparr>))))
        (\<lambda>_ e3. (fold_plain_record None rs False e3, Ok True)) (clear_terminated (e1\<lparr>en_location := ?len\<rparr>))) e = (e1, Ok True)"
    using assms(1) stop by (auto simp: kernel_at_end_def Let_def decline_def split: if_splits)
  then obtain e0 where e0: "push_span input FromInput fs ?len ?len False e = (e0, Ok ())"
    "e1 = fold_plain_record None rs False (clear_terminated (e0\<lparr>en_location := ?len\<rparr>))"
    "rs \<le> ?len" "?len - rs \<le> max_record_bytes (en_limits e)"
    by (rule commit_parts) simp_all
  have loc: "en_location e1 = ?len" "\<not> en_terminated e1"
    using e0(2) by (simp_all add: fold_plain_record_def clear_terminated_def)
  have inv: "parse_inv input rs e" using assms(3) by (simp add: kernel_setup_def)
  have le: "fs \<le> ?len" using e0(1) inv
    by (auto simp: push_span_def try_push_input_bounded_def parse_inv_def split: if_splits)
  have more: "passed e input fs ?len"
    by (rule passed_further [OF assms(8)]) (use structure_Nil [OF assms(2)] stop in auto)
  note gs = general_setup [OF assms(3,4)]
  have d: "is_crlf e \<Longrightarrow> delimiter (en_dialect e) \<noteq> LF \<and> ending_byte (record_ending (en_dialect e)) = LF"
    using assms(3) simple_dialectD(2) [of e] by (auto simp: kernel_setup_def is_crlf_def)
  have lf: "is_crlf e \<Longrightarrow> \<not> (rs < ?len \<and> input ! (?len - 1) = LF)"
    using d more assms(9) le by (cases "fs = ?len") (auto simp: passed_def)
  have "carriage_free e input fs ?len"
    using assms(11) lf loc(1) assms(6) by (auto simp: carriage_free_def crlf_clean_def)
  then have free: "stop_free g input fs ?len"
    using passed_stop_free [of e input fs ?len] more assms(10) loc(1) assms(6)
      stop_bytes_config [OF agrees_config [OF assms(4)]]
    by (auto simp: stop_free_def escape_free_def)
  have "parse_one_field None input rs header g = parse_unquoted_field None input rs header g"
    using not_quoted_here [OF more le] gs(3,4) assms(5) by (intro unquoted_field_chosen [OF gs(1,2)]) simp
  also have "\<dots> = end_of_input input rs header fs ?len g"
    using field_at_input_end [OF gs(1), of input rs header] free le gs(7) stop assms(5) by simp
  finally have one: "parse_one_field None input rs header g = end_of_input input rs header fs ?len g" .
  have "escape_free e input fs ?len" using assms(6,10) loc(1) by (auto simp: escape_free_def)
  moreover have "?len - fs \<le> max_field_bytes (en_limits e)" using assms(3) by (auto simp: kernel_setup_def)
  ultimately obtain g1 where g1: "end_of_input input rs header fs ?len g = (g1, Ok True)"
    "agrees input header e0 g1" "en_location g1 = ?len" "\<not> en_terminated g1"
    using end_of_input_agrees [OF assms(4) inv e0(1)] e0(3,4) by blast
  have "parse_record_fields None input rs header g = finish_general_record None input header g1"
    using record_fields_step [of input rs header g g1 True] one g1(1) by simp
  then show ?thesis using g1 e0(2) loc by auto
qed

text \<open>The terminator: the kernel's first commit and the end of the record in the general parser.\<close>

lemma kernel_terminator_agrees:
  assumes "kernel_at_terminator None input rs fs cursor e = (e1, Ok True)"
    "structure_from input rs e pos = (cursor, ending_byte (record_ending (en_dialect e))) # found"
    "kernel_setup input rs e" "agrees input header e g" "en_location g = fs" "rs \<le> fs" "fs \<le> pos"
    "passed e input fs pos" "fs = rs \<or> input ! (fs - 1) = delimiter (en_dialect e)"
    "escape_free e input rs (en_location e1)" "crlf_clean e input rs (en_location e1)"
  shows "\<exists>g1. parse_record_fields None input rs header g = finish_general_record None input header g1 \<and>
    agrees input header e1 g1 \<and> en_location g1 = en_location e1 \<and> en_terminated g1 = en_terminated e1"
proof -
  note s = structure_Cons [OF assms(2)]
  note gs = general_setup [OF assms(3,4)]
  have inv: "parse_inv input rs e" and simple: "simple_dialect e" using assms(3) by (simp_all add: kernel_setup_def)
  let ?fe = "if fmt_strips_cr None e \<and> fs < cursor \<and> input ! (cursor - 1) = CR then cursor - 1 else cursor"
  have "bind_step (push_span input FromInput fs ?fe cursor False) (\<lambda>_ e1.
      bind_step (check_record_limit input rs (en_location (note_terminated (e1\<lparr>en_location := cursor + 1\<rparr>))))
        (\<lambda>_ e3. (fold_plain_record None rs True e3, Ok True)) (note_terminated (e1\<lparr>en_location := cursor + 1\<rparr>))) e = (e1, Ok True)"
    using assms(1) by (auto simp: kernel_at_terminator_def Let_def decline_def split: if_splits)
  then obtain e0 where e0: "push_span input FromInput fs ?fe cursor False e = (e0, Ok ())"
    "e1 = fold_plain_record None rs True (note_terminated (e0\<lparr>en_location := cursor + 1\<rparr>))"
    "rs \<le> cursor + 1" "cursor + 1 - rs \<le> max_record_bytes (en_limits e)"
    by (rule commit_parts) simp_all
  have loc: "en_location e1 = cursor + 1" "en_terminated e1"
    using e0(2) by (simp_all add: fold_plain_record_def note_terminated_def)
  have le: "fs \<le> cursor" using assms(7) s(1) by simp
  have more: "passed e input fs cursor" by (rule passed_further [OF assms(8)]) (use s(6) in auto)
  have one: "parse_one_field None input rs header g = parse_unquoted_field None input rs header g"
    using not_quoted_here [OF more le] gs(3,4) assms(5) s(4) simple_dialectD(3) [OF simple]
    by (intro unquoted_field_chosen [OF gs(1,2)]) simp
  have esc: "escape_free e input fs cursor" "escape_free e input fs ?fe"
    using assms(6,10) loc(1) by (auto simp: escape_free_def)
  have esc_cr: "unquoted_escape e \<noteq> Some CR" if "rs < cursor" "input ! (cursor - 1) = CR"
  proof -
    have "rs \<le> cursor - 1" "cursor - 1 < en_location e1" using that(1) loc(1) by simp_all
    then have "unquoted_escape e \<noteq> Some (input ! (cursor - 1))" using assms(10) unfolding escape_free_def by blast
    then show ?thesis using that(2) by simp
  qed
  have "\<exists>g1. parse_unquoted_field None input rs header g = (g1, Ok True) \<and> agrees input header e0 g1 \<and>
      en_location g1 = cursor + 1 \<and> en_terminated g1"
  proof (cases "is_crlf e")
    case False
    have fe: "?fe = stripped_end g input fs cursor"
      using stripped_at_end [OF simple False] gs(3) by (simp add: stripped_end_def)
    have "carriage_free e input fs cursor" using False by (simp add: carriage_free_def)
    then have free: "stop_free g input fs cursor"
      using passed_stop_free [OF more esc(1)] stop_bytes_config [OF agrees_config [OF assms(4)]] by (simp add: stop_free_def)
    have "parse_unquoted_field None input rs header g = close_field input rs header fs ?fe cursor (cursor + 1) True g"
      using field_at_ending [OF gs(1), of input cursor rs header] free le s(2,4) gs(3,5,7) False assms(5) fe by simp
    then show ?thesis using close_field_agrees [OF assms(4) inv e0(1) esc(2) e0(3,4), of cursor True] by auto
  next
    case True
    have ending: "ending_byte (record_ending (en_dialect e)) = LF" "delimiter (en_dialect e) \<noteq> CR" "delimiter (en_dialect e) \<noteq> LF"
      using True simple_dialectD(2,4) [OF simple] by (auto simp: is_crlf_def)
    have cr: "rs < cursor" "input ! (cursor - 1) = CR" "\<forall>i. rs \<le> i \<longrightarrow> i < cursor - 1 \<longrightarrow> input ! i \<noteq> CR"
    proof -
      have "rs < cursor + 1" using le assms(6) by simp
      then have "rs < cursor + 1 - 1 \<and> input ! (cursor + 1 - 2) = CR \<and>
          (\<forall>i. rs \<le> i \<longrightarrow> i < cursor + 1 - 2 \<longrightarrow> input ! i \<noteq> CR)"
        using assms(11) loc(1) True s(4) ending(1) by (simp add: crlf_clean_def)
      moreover have "cursor + 1 - 2 = cursor - 1" by simp
      ultimately show "rs < cursor" "input ! (cursor - 1) = CR" "\<forall>i. rs \<le> i \<longrightarrow> i < cursor - 1 \<longrightarrow> input ! i \<noteq> CR"
        by simp_all
    qed
    have lt: "fs < cursor" using le cr assms(9) ending(2) by (cases "fs = cursor") auto
    have fe: "?fe = cursor - 1"
      using lt cr(2) True fmt_of_engine [OF format_matches_None simple_dialectD(7) [OF simple]]
      by (simp add: is_crlf_def strips_cr_def)
    have "carriage_free e input fs (cursor - 1)" using cr(3) assms(6) by (simp add: carriage_free_def)
    moreover have "passed e input fs (cursor - 1)" "escape_free e input fs (cursor - 1)"
      using more esc(1) by (auto simp: passed_def escape_free_def)
    ultimately have free: "stop_free g input fs (cursor - 1)"
      using passed_stop_free [of e input fs "cursor - 1"] stop_bytes_config [OF agrees_config [OF assms(4)]] by (simp add: stop_free_def)
    have "cursor - 1 < scan_end g input rs fs" using s(2) gs(7) lt by simp
    then have "parse_unquoted_field None input rs header g = close_field input rs header fs ?fe (cursor - 1) (cursor + 1) True g"
      using field_at_crlf [OF gs(1), of input "cursor - 1" rs header] free lt s(3,4) cr(1,2) gs(5,6) True ending(1) esc_cr fe assms(5)
      by simp
    then show ?thesis using close_field_agrees [OF assms(4) inv e0(1) esc(2) e0(3,4), of "cursor - 1" True] by auto
  qed
  then obtain g1 where g1: "parse_unquoted_field None input rs header g = (g1, Ok True)" "agrees input header e0 g1"
      "en_location g1 = cursor + 1" "en_terminated g1" by blast
  have "parse_record_fields None input rs header g = finish_general_record None input header g1"
    using record_fields_step [of input rs header g g1 True] one g1(1) by simp
  then show ?thesis using g1 e0(2) loc by auto
qed

lemma kernel_loop_agrees:
  assumes "kernel_loop None input rs found fs e = (e1, Ok True)" "found = structure_from input rs e pos"
    "kernel_setup input rs e" "agrees input header e g" "en_location g = fs" "rs \<le> fs" "fs \<le> pos"
    "passed e input fs pos" "fs = rs \<or> input ! (fs - 1) = delimiter (en_dialect e)"
    "escape_free e input rs (en_location e1)" "crlf_clean e input rs (en_location e1)"
  shows "\<exists>g1. parse_record_fields None input rs header g = finish_general_record None input header g1 \<and>
    agrees input header e1 g1 \<and> en_location g1 = en_location e1 \<and> en_terminated g1 = en_terminated e1"
  using assms
proof (induction found arbitrary: fs pos e g)
  case Nil
  then show ?case using kernel_end_agrees [of input rs fs e e1 pos header g] by simp
next
  case (Cons m found)
  obtain cursor b where m: "m = (cursor, b)" by fastforce
  note cons = Cons(3) [symmetric, unfolded m]
  note s = structure_Cons [OF cons]
  note gs = general_setup [OF Cons(4,5)]
  have inv: "parse_inv input rs e" and simple: "simple_dialect e" using Cons(4) by (simp_all add: kernel_setup_def)
  note d = simple_dialectD [OF simple]
  note fmt = fmt_of_engine [OF format_matches_None d(7)]
  have le: "fs \<le> cursor" using Cons(8) s(1) by simp
  have more: "passed e input fs cursor" by (rule passed_further [OF Cons(9)]) (use s(6) in auto)
  consider (delim) "b = delimiter (en_dialect e)"
    | (quoted) "b = quote (en_dialect e)" "\<not> (quoting_enabled (en_syntax e) \<and> (cursor = fs \<or> \<not> permits_unquoted_quotes (en_syntax e)))"
    | (ending) "b = ending_byte (record_ending (en_dialect e))"
    using s(5) Cons(2) m fmt d(1,2) by (auto simp: decline_def split: if_splits)
  then show ?case
  proof cases
    case delim
    obtain e2 where e2: "push_span input FromInput fs cursor cursor False e = (e2, Ok ())"
      "kernel_loop None input rs found (cursor + 1) e2 = (e1, Ok True)"
      using Cons(2) m delim fmt by (auto split: prod.splits outcome.splits)
    have c: "config_of e2 = config_of e" "parse_inv input rs e2"
      using good_push_span [OF inv, of FromInput fs cursor cursor False] e2(1) by simp_all
    have setup2: "kernel_setup input rs e2"
      using Cons(4) c simple_dialect_config [OF c(1)] config_ofD [OF c(1)] by (simp add: kernel_setup_def)
    have after: "cursor + 1 \<le> en_location e1" by (rule kernel_loop_after [OF e2(2)])
    have "\<forall>(i, x) \<in> set found. rs \<le> i \<and> i < length input"
      using s(1,7) Cons(7,8) borrowed_end_le [of e input rs] by (auto simp: structure_from_def structural_offsets_def)
    then have "en_location e1 - rs \<le> max_record_bytes (en_limits e1)" using kernel_loop_ends [OF e2(2)] by blast
    moreover have "config_of e1 = config_of e2"
      using good_kernel_loop [OF c(2), of found None "cursor + 1"] e2(2) \<open>\<forall>(i, x) \<in> set found. _\<close> by simp
    ultimately have limit: "cursor + 1 - rs \<le> max_record_bytes (en_limits e)"
      using after config_ofD(2) [of e1 e2] config_ofD(2) [OF c(1)] by simp
    have esc: "escape_free e input fs cursor" using Cons(7,11) after by (auto simp: escape_free_def)
    have "carriage_free e input fs cursor"
    proof (cases "is_crlf e")
      case True
      have b: "input ! cursor \<noteq> CR" "input ! cursor \<noteq> LF" "ending_byte (record_ending (en_dialect e)) = LF"
        using d(2,4) True delim s(4) by (auto simp: is_crlf_def)
      show ?thesis
        by (rule crlf_clean_carriage [OF Cons(12,7)]) (use after b more in \<open>auto simp: passed_def\<close>)
    qed (simp add: carriage_free_def)
    then have free: "stop_free g input fs cursor"
      using passed_stop_free [OF more esc] stop_bytes_config [OF agrees_config [OF Cons(5)]] by (simp add: stop_free_def)
    have "parse_one_field None input rs header g = parse_unquoted_field None input rs header g"
      using not_quoted_here [OF more le] gs(3,4) Cons(6) s(4) delim d(1)
      by (intro unquoted_field_chosen [OF gs(1,2)]) simp
    also have "\<dots> = close_field input rs header fs cursor cursor (cursor + 1) False g"
      using field_at_delimiter [OF gs(1), of input cursor rs header] free le s(2,4) gs(3,7) Cons(6) delim by simp
    finally have one: "parse_one_field None input rs header g = close_field input rs header fs cursor cursor (cursor + 1) False g" .
    obtain g2 where g2: "close_field input rs header fs cursor cursor (cursor + 1) False g = (g2, Ok False)"
      "agrees input header e2 g2" "en_location g2 = cursor + 1"
      using close_field_agrees [OF Cons(5) inv e2(1) esc _ limit, of cursor False] Cons(7) le by auto
    have "\<exists>g1. parse_record_fields None input rs header g2 = finish_general_record None input header g1 \<and>
        agrees input header e1 g1 \<and> en_location g1 = en_location e1 \<and> en_terminated g1 = en_terminated e1"
    proof (rule Cons(1) [OF e2(2) _ setup2 g2(2,3), of "cursor + 1"])
      show "found = structure_from input rs e2 (cursor + 1)" using s(7) structure_config [OF c(1)] by simp
      show "rs \<le> cursor + 1" "cursor + 1 \<le> cursor + 1" using Cons(7) le by simp_all
      show "passed e2 input (cursor + 1) (cursor + 1)" by (simp add: passed_def)
      show "cursor + 1 = rs \<or> input ! (cursor + 1 - 1) = delimiter (en_dialect e2)"
        using s(4) delim config_ofD(1) [OF c(1)] by simp
      show "escape_free e2 input rs (en_location e1)" using Cons(11) passed_config(2) [OF c(1)] by simp
      show "crlf_clean e2 input rs (en_location e1)" using Cons(12) config_ofD(1) [OF c(1)] by (simp add: crlf_clean_def is_crlf_def)
    qed
    then show ?thesis using record_fields_step [of input rs header g g2 False] one g2(1) by simp
  next
    case quoted
    have "passed e input fs (cursor + 1)"
      using more quoted d(1,3) s(4) le unfolding passed_def by (metis less_Suc_eq Suc_eq_plus1)
    moreover have "kernel_loop None input rs found fs e = (e1, Ok True)"
      using Cons(2) m quoted d(1,3) fmt by (auto simp: decline_def split: if_splits)
    ultimately show ?thesis
      using Cons(1) [OF _ s(7) Cons(4,5,6,7) _ _ Cons(10-12)] le by simp
  next
    case ending
    then show ?thesis
      using kernel_terminator_agrees [OF _ _ Cons(4-12)] cons Cons(2) m d(1-3) fmt by (auto split: if_splits)
  qed
qed

section \<open>The end of the record in both\<close>

text \<open>An engine without the count of the lines already folded, the one thing the kernel keeps besides.\<close>

definition unfolded :: "engine \<Rightarrow> engine" where
  "unfolded e = e\<lparr>en_folded_upto := 0, en_folded_lines := 0\<rparr>"

lemma unfolded_eqI:
  assumes "core g = core e" "en_location g = en_location e" "en_terminated g = en_terminated e" "en_spans g = en_spans e"
  shows "unfolded g = unfolded e"
proof -
  have "unfolded x = (core x)\<lparr>en_location := en_location x, en_terminated := en_terminated x, en_spans := en_spans x\<rparr>" for x
    by (simp add: unfolded_def core_def)
  then show ?thesis using assms by simp
qed

lemma map_outcome_agree: "list_all2 (\<lambda>s t. f s = f t) xs ys \<Longrightarrow> map_outcome f xs = map_outcome f ys"
  by (induction rule: list_all2_induct) simp_all

lemma marked_agree:
  assumes "agrees input header e g" "parse_inv input rs e" "\<not> header"
  shows "mark_input_nulls input (raw_field_is_null (en_nulls e)) (en_spans g) =
    mark_input_nulls input (raw_field_is_null (en_nulls e)) (en_spans e)"
proof -
  let ?n = "raw_field_is_null (en_nulls e)"
  let ?f = "\<lambda>s. if \<not> span_is_quoted s \<and> span_source s = FromInput then
      (case get_range input (span_start s) (span_end s) of
         None \<Rightarrow> Panic
       | Some field \<Rightarrow> if ?n field then from_valid_null FromInput (span_start s) else Ok s)
    else Ok s"
  have wf: "storage_wf (en_spans e)" "input_len (en_spans e) = length input" using assms(2) by (simp_all add: parse_inv_def)
  have same: "?f s = ?f t" if fit: "span_fits (en_spans e) s" and sa: "span_agrees input (en_nulls e) header s t" for s t
  proof (cases "t = s")
    case False
    then obtain raw where n: "\<not> span_is_quoted s" "span_source s = FromInput" "from_valid_null FromInput (span_start s) = Ok t"
      "get_range input (span_start s) (span_end s) = Some raw" "?n raw"
      using sa by (auto simp: span_agrees_def)
    have off: "span_start s \<le> MAX_OFFSET" "span_start s \<le> length input"
      using fit n(2) wf(2) by (auto simp: span_fits_def source_len_def)
    obtain t' where t': "from_valid_null FromInput (span_start s) = Ok t'" "span_source t' = FromInput"
      "span_start t' = span_start s" "span_end t' = span_start s" "\<not> span_is_quoted t'"
      using span_of_null [OF off(1)] by blast
    then have "t' = t" using n(3) by simp
    then show ?thesis using n t' off(2) by (simp add: get_range_def)
  next
    case True
    show ?thesis unfolding True ..
  qed
  have "list_all2 (\<lambda>s t. ?f s = ?f t) (ss_spans (en_spans e)) (ss_spans (en_spans g))"
    using assms(1) wf(1) same by (auto simp: agrees_def storage_wf_def list_all2_conv_all_nth)
  then have "map_outcome ?f (ss_spans (en_spans g)) = map_outcome ?f (ss_spans (en_spans e))"
    by (rule map_outcome_agree [symmetric])
  moreover have "(\<lambda>spans. (en_spans g)\<lparr>ss_spans := spans\<rparr>) = (\<lambda>spans. (en_spans e)\<lparr>ss_spans := spans\<rparr>)"
    using assms(1) by (auto simp: agrees_def)
  ultimately show ?thesis
    unfolding mark_input_nulls_def agrees_storage(2) [OF assms(1)] by (simp only:)
qed

lemma unmarked_same:
  assumes "agrees input header e g" "header \<or> en_nulls e = NullsNone"
  shows "en_spans g = en_spans e"
proof -
  have "span_agrees input (en_nulls e) header = (=)"
    by (intro ext) (use assms(2) in \<open>auto simp: span_agrees_def raw_field_is_null_def\<close>)
  then have "ss_spans (en_spans g) = ss_spans (en_spans e)"
    using assms(1) by (simp add: agrees_def list_all2_eq [symmetric])
  then show ?thesis using assms(1) by (simp add: agrees_def)
qed

definition seen :: "engine \<times> 'a outcome \<Rightarrow> engine \<times> 'a outcome" where
  "seen res = (unfolded (fst res), snd res)"

lemma seen_validate_count:
  assumes "unfolded g = unfolded e"
  shows "seen (validate_count input n g) = seen (validate_count input n e)"
proof -
  have f: "en_field_count g = en_field_count e" "en_expected g = en_expected e" "en_location g = en_location e"
    "en_spans g = en_spans e" "en_line_base g = en_line_base e" "en_line_origin g = en_line_origin e"
    "en_record_index g = en_record_index e"
    using arg_cong [OF assms, of en_field_count] arg_cong [OF assms, of en_expected]
      arg_cong [OF assms, of en_location] arg_cong [OF assms, of en_spans] arg_cong [OF assms, of en_line_base]
      arg_cong [OF assms, of en_line_origin] arg_cong [OF assms, of en_record_index]
    by (simp_all add: unfolded_def)
  have "unfolded (g\<lparr>en_expected := x\<rparr>) = unfolded (e\<lparr>en_expected := x\<rparr>)" for x
  proof -
    have "unfolded (a\<lparr>en_expected := x\<rparr>) = (unfolded a)\<lparr>en_expected := x\<rparr>" for a
      by (cases a) (simp add: unfolded_def)
    then show ?thesis using assms by simp
  qed
  then show ?thesis
    using assms f by (auto simp: validate_count_def seen_def Let_def engine_error_def error_for_def
        split: field_count.splits option.splits)
qed

lemma validate_crlf_clean:
  assumes "validate_crlf input rs e = (e', Ok u)" "is_crlf e" "rs \<le> en_location e" "en_location e \<le> length input"
  shows "crlf_clean e input rs (en_location e)" "e' = e"
proof -
  let ?n = "en_location e"
  have whole: "find1 CR (slice input rs m) = None \<Longrightarrow> m \<le> length input \<Longrightarrow> rs \<le> i \<Longrightarrow> i < m \<Longrightarrow> input ! i \<noteq> CR" for m i
  proof
    assume a: "find1 CR (slice input rs m) = None" "m \<le> length input" "rs \<le> i" "i < m" "input ! i = CR"
    then have "slice input rs m ! (i - rs) = CR" "i - rs < length (slice input rs m)" by auto
    then have "CR \<in> set (slice input rs m)" by (metis nth_mem)
    then show False using a(1) by (auto simp: find_simps position_None_iff)
  qed
  have range: "get_range input rs m = Some w \<Longrightarrow> w = slice input rs m \<and> m \<le> length input" for m w
    by (auto simp: get_range_def split: if_splits)
  show "e' = e" using assms(1) by (auto simp: validate_crlf_def Let_def split: option.splits if_splits)
  show "crlf_clean e input rs ?n"
  proof (cases "rs < ?n \<and> input ! (?n - 1) = LF")
    case True
    then have lf: "get_at input (?n - 1) = Some LF" using assms(4) by (auto simp: get_at_def)
    have cr: "rs < ?n - 1 \<and> input ! (?n - 1 - 1) = CR"
      using assms(1) True lf by (auto simp: validate_crlf_def Let_def split: option.splits if_splits)
    have "find1 CR (slice input rs (?n - 1 - 1)) = None"
      using assms(1) True lf cr by (auto simp: validate_crlf_def Let_def dest!: range split: option.splits if_splits)
    moreover have "?n - 1 - 1 = ?n - 2" by simp
    ultimately show ?thesis using True cr whole [of "?n - 2"] assms(4) by (simp add: crlf_clean_def)
  next
    case False
    then have "\<not> (rs < ?n \<and> get_at input (?n - 1) = Some LF)" by (auto simp: get_at_Some_iff)
    then have "find1 CR (slice input rs ?n) = None"
      using assms(1) by (auto simp: validate_crlf_def Let_def dest!: range split: option.splits if_splits)
    then show ?thesis using False whole [of ?n] assms(4) by (auto simp: crlf_clean_def)
  qed
qed

lemma seen_bind_count:
  assumes "m e = (e', Ok ())" "m' g = (g', Ok ())" "unfolded g' = unfolded e'" "en_spans g' = en_spans e'"
  shows "seen (bind_step m' (\<lambda>_ x. validate_count input (storage_len (en_spans x)) x) g) =
    seen (bind_step m (\<lambda>_ x. validate_count input (storage_len (en_spans x)) x) e)"
  using seen_validate_count [OF assms(3)] assms by (simp add: bind_step_def)

lemma finish_agrees:
  assumes "agrees input header e g" "parse_inv input rs e" "en_location g = en_location e"
    "en_terminated g = en_terminated e" "simple_dialect e"
    "(if fmt_record_pass None e then finish_plain_record None input rs header else return_step ()) e = (e', Ok u)"
  shows "seen (finish_general_record None input header g) =
    seen (bind_step (if fmt_record_pass None e then finish_plain_record None input rs header else return_step ())
      (\<lambda>_ e2. validate_count input (storage_len (en_spans e2)) e2) e)"
proof -
  note fmt = fmt_of_engine [OF format_matches_None simple_dialectD(7) [OF assms(5)]]
  have c: "core g = core e" using assms(1) by (simp add: agrees_def)
  have nulls: "en_nulls g = en_nulls e" using config_ofD(4) [OF agrees_config [OF assms(1)]] .
  have crlf: "validate_crlf input rs x = (y, Ok v) \<Longrightarrow> y = x" for x y v
    by (auto simp: validate_crlf_def Let_def split: option.splits if_splits)
  have fmt_g: "fmt_null_policy None x = en_nulls x" for x by (simp add: fmt_null_policy_def)
  have pass: "en_nulls e \<noteq> NullsNone \<Longrightarrow> fmt_record_pass None e" using fmt by (simp add: needs_record_pass_def)
  show ?thesis
  proof (cases "header \<or> en_nulls e = NullsNone")
    case True
    have kept: "e' = e"
      using assms(6) True fmt_g
      by (auto simp: finish_plain_record_def dest!: crlf elim!: bind_step_Ok split: if_splits)
    have marked: "mark_null_spans None input header g = (g, Ok ())"
      using True nulls by (auto simp: mark_null_spans_def fmt_g Let_def)
    show ?thesis
      unfolding finish_general_record_def
      by (rule seen_bind_count [where m = "if fmt_record_pass None e then finish_plain_record None input rs header else return_step ()"
          and m' = "mark_null_spans None input header" and e = e and g = g and input = input and e' = e' and g' = g])
        (use kept marked assms(3,4,6) c unmarked_same [OF assms(1) True] unfolded_eqI [of g e] in auto)
  next
    case False
    then have "mark_null_spans_cold input (en_nulls e) e = (e', Ok ())"
      using assms(6) pass fmt_g by (auto simp: finish_plain_record_def dest!: crlf elim!: bind_step_Ok split: if_splits)
    then obtain st where st: "mark_input_nulls input (raw_field_is_null (en_nulls e)) (en_spans e) = Ok st" "e' = e\<lparr>en_spans := st\<rparr>"
      by (auto simp: mark_null_spans_cold_def split: outcome.splits)
    have marked: "mark_null_spans None input header g = (g\<lparr>en_spans := st\<rparr>, Ok ())"
      using False nulls marked_agree [OF assms(1,2)] st(1)
      by (auto simp: mark_null_spans_def mark_null_spans_cold_def fmt_g Let_def)
    show ?thesis
      unfolding finish_general_record_def
      by (rule seen_bind_count [where m = "if fmt_record_pass None e then finish_plain_record None input rs header else return_step ()"
          and m' = "mark_null_spans None input header" and e = e and g = g and input = input and e' = e' and g' = "g\<lparr>en_spans := st\<rparr>"])
        (use marked unfolded_eqI [of "g\<lparr>en_spans := st\<rparr>" e'] st(2) c assms(3,4,6) in auto)
  qed
qed

section \<open>Whole records\<close>

lemma fold_without_format:
  assumes "format_matches opts e" "engine_wf e" "config_of x = config_of e"
  shows "fold_plain_record opts rs t x = fold_plain_record None rs t x"
proof -
  have "format_matches opts x" "engine_wf x"
    using assms format_matches_config [OF assms(3)] engine_wf_config [OF assms(3)] by simp_all
  then show ?thesis
    using fmt_of_engine(3) [of opts x] fmt_of_engine(3) [OF format_matches_None, of x]
    by (simp add: fold_plain_record_def)
qed

lemma commit_without_format:
  assumes "format_matches opts e" "engine_wf e" "parse_inv input rs e" "f = note_terminated \<or> f = clear_terminated"
  shows "bind_step (push_span input FromInput a b at False) (\<lambda>_ e1.
      bind_step (check_record_limit input rs (en_location (f (e1\<lparr>en_location := n\<rparr>))))
        (\<lambda>_ e3. (fold_plain_record opts rs t e3, Ok True)) (f (e1\<lparr>en_location := n\<rparr>))) e =
    bind_step (push_span input FromInput a b at False) (\<lambda>_ e1.
      bind_step (check_record_limit input rs (en_location (f (e1\<lparr>en_location := n\<rparr>))))
        (\<lambda>_ e3. (fold_plain_record None rs t e3, Ok True)) (f (e1\<lparr>en_location := n\<rparr>))) e"
proof (rule bind_step_cong [OF refl], rule bind_step_cong [OF refl])
  fix x e1 y e3
  assume push: "push_span input FromInput a b at False e = (e1, Ok x)"
    and check: "check_record_limit input rs (en_location (f (e1\<lparr>en_location := n\<rparr>))) (f (e1\<lparr>en_location := n\<rparr>)) = (e3, Ok y)"
  have "config_of e1 = config_of e" using good_push_span [OF assms(3), of FromInput a b at False] push by simp
  then have "config_of e3 = config_of e" using check assms(4) by auto
  then show "(fold_plain_record opts rs t e3, Ok True) = (fold_plain_record None rs t e3, Ok True)"
    using fold_without_format [OF assms(1,2)] by simp
qed

lemma kernel_without_format:
  "format_matches opts e \<Longrightarrow> engine_wf e \<Longrightarrow> parse_inv input rs e \<Longrightarrow>
     kernel_loop opts input rs found fs e = kernel_loop None input rs found fs e"
proof (induction found arbitrary: fs e)
  case Nil
  note fmt = fmt_of_engine [OF Nil(1,2)] fmt_of_engine [OF format_matches_None Nil(2)]
  show ?case
    using fmt commit_without_format [OF Nil, where f = clear_terminated]
    by (simp add: kernel_at_end_def holds_escape_def Let_def)
next
  case (Cons m found)
  obtain cursor b where m: "m = (cursor, b)" by fastforce
  note fmt = fmt_of_engine [OF Cons(2,3)] fmt_of_engine [OF format_matches_None Cons(3)]
  have terminator: "kernel_at_terminator opts input rs fs cursor e = kernel_at_terminator None input rs fs cursor e"
    using fmt commit_without_format [OF Cons(2-4), where f = note_terminated]
    by (simp add: kernel_at_terminator_def holds_escape_def Let_def)
  obtain e1 r where push: "push_span input FromInput fs cursor cursor False e = (e1, r)" by fastforce
  have "kernel_loop opts input rs found (cursor + 1) e1 = kernel_loop None input rs found (cursor + 1) e1" if "r = Ok u" for u
  proof -
    have c: "config_of e1 = config_of e" "parse_inv input rs e1"
      using good_push_span [OF Cons(4), of FromInput fs cursor cursor False] push that by simp_all
    show ?thesis
      using Cons(1) [OF _ _ c(2)] Cons(2,3) format_matches_config [OF c(1)] engine_wf_config [OF c(1)] by simp
  qed
  then show ?case
    using fmt terminator push Cons(1) [OF Cons(2-4)] m by (cases r) (simp_all split del: if_split cong: if_cong)
qed

text \<open>A kernel that declines leaves the engine as it found it.\<close>

lemma kernel_declines:
  "kernel_loop opts input rs found fs e = (e', Ok False) \<Longrightarrow> parse_inv input rs e \<Longrightarrow>
     e' = e\<lparr>en_spans := clear_spans (en_spans e)\<rparr>"
proof (induction found arbitrary: fs e)
  case Nil
  then show ?case by (auto simp: kernel_at_end_def decline_def Let_def elim!: bind_step_Ok split: if_splits)
next
  case (Cons m found)
  obtain cursor b where m: "m = (cursor, b)" by fastforce
  have terminator: "kernel_at_terminator opts input rs fs cursor e = (e', Ok False) \<Longrightarrow> ?case"
    by (auto simp: kernel_at_terminator_def decline_def Let_def elim!: bind_step_Ok split: if_splits)
  have deliver: ?case if p: "push_span input FromInput fs cursor cursor False e = (e1, Ok u)"
    "kernel_loop opts input rs found (cursor + 1) e1 = (e', Ok False)" for e1 u
  proof -
    note q = push_span_Ok [OF p(1) Cons(3)]
    have "clear_spans (en_spans e1) = clear_spans (en_spans e)"
      using p(1) by (auto simp: push_span_def clear_spans_def try_push_input_bounded_def split: if_splits)
    moreover obtain st where "e1 = e\<lparr>en_spans := st\<rparr>" using q(2) by blast
    ultimately show ?thesis using Cons(1) [OF p(2) q(1)] by simp
  qed
  show ?case
    using Cons(2) m deliver terminator Cons(1) [OF _ Cons(3)]
    by (auto simp: decline_def split: if_splits prod.splits outcome.splits)
qed

lemma find1_member: "find1 b (slice input rs m) = None \<Longrightarrow> m \<le> length input \<Longrightarrow> rs \<le> i \<Longrightarrow> i < m \<Longrightarrow> input ! i \<noteq> b"
proof
  assume a: "find1 b (slice input rs m) = None" "m \<le> length input" "rs \<le> i" "i < m" "input ! i = b"
  then have "slice input rs m ! (i - rs) = b" "i - rs < length (slice input rs m)" by auto
  then have "b \<in> set (slice input rs m)" by (metis nth_mem)
  then show False using a(1) by (auto simp: find_simps position_None_iff)
qed

lemma holds_escape_free:
  assumes "\<not> holds_escape None e input rs m" "m \<le> length input"
  shows "escape_free e input rs m"
  using assms
  by (auto simp: holds_escape_def escape_free_def unquoted_escape_def fmt_unquoted_escape_def
      dest: find1_member split: option.splits)

text \<open>A record the kernel takes holds no byte that escapes outside quotes.\<close>

lemma kernel_escape_free:
  "kernel_loop None input rs found fs e = (e1, Ok True) \<Longrightarrow> parse_inv input rs e \<Longrightarrow> simple_dialect e \<Longrightarrow>
     \<forall>(c, b) \<in> set found. c < length input \<and> b = input ! c \<Longrightarrow> escape_free e input rs (en_location e1)"
proof (induction found arbitrary: fs e)
  case Nil
  have "en_location e1 = borrowed_scan_end e (length input) rs" "\<not> holds_escape None e input rs (borrowed_scan_end e (length input) rs)"
    using Nil(1) by (auto simp: kernel_at_end_def Let_def decline_def fold_plain_record_def clear_terminated_def
        elim!: bind_step_Ok split: if_splits)
  then show ?case using holds_escape_free [OF _ borrowed_end_le] by simp
next
  case (Cons m found)
  obtain cursor b where m: "m = (cursor, b)" by fastforce
  have at: "cursor < length input" "b = input ! cursor" using Cons(5) m by simp_all
  have terminator: "escape_free e input rs (en_location e1)"
    if t: "kernel_at_terminator None input rs fs cursor e = (e1, Ok True)" "b = ending_byte (record_ending (en_dialect e))"
  proof -
    have l: "en_location e1 = cursor + 1" "\<not> holds_escape None e input rs cursor"
      using t(1) by (auto simp: kernel_at_terminator_def Let_def decline_def fold_plain_record_def note_terminated_def
          elim!: bind_step_Ok split: if_splits)
    then have "escape_free e input rs cursor" using holds_escape_free at(1) by simp
    moreover have "unquoted_escape e \<noteq> Some b" using escape_not_structural(3) [OF Cons(4)] t(2) by blast
    ultimately show ?thesis using l(1) at(2) by (auto simp: escape_free_def less_Suc_eq)
  qed
  have deliver: "escape_free e input rs (en_location e1)"
    if p: "push_span input FromInput fs cursor cursor False e = (e2, Ok u)"
      "kernel_loop None input rs found (cursor + 1) e2 = (e1, Ok True)" for e2 u
  proof -
    have c: "config_of e2 = config_of e" "parse_inv input rs e2"
      using good_push_span [OF Cons(3), of FromInput fs cursor cursor False] p(1) by simp_all
    then show ?thesis
      using Cons(1) [OF p(2) c(2)] Cons(4,5) simple_dialect_config [OF c(1)] passed_config(2) [OF c(1)] by simp
  qed
  show ?case
    using Cons(2) m deliver terminator Cons(1) [OF _ Cons(3,4)] Cons(5)
    by (auto simp: decline_def fmt_terminator_def split: if_splits prod.splits outcome.splits)
qed

lemma validate_crlf_same: "validate_crlf input rs x = (y, Ok v) \<Longrightarrow> y = x"
  by (auto simp: validate_crlf_def Let_def split: option.splits if_splits)

lemma finish_without_format:
  assumes "format_matches opts e" "engine_wf e"
  shows "finish_plain_record opts input rs header e = finish_plain_record None input rs header e"
proof -
  note fmt = fmt_of_engine [OF assms] fmt_of_engine [OF format_matches_None assms(2)]
  show ?thesis
    unfolding finish_plain_record_def using fmt by (intro bind_step_cong) (auto split: if_splits dest!: validate_crlf_same)
qed

text \<open>The settings under which the general loop reads what the kernel reads.\<close>

definition plain_ready :: "format_options option \<Rightarrow> bytes \<Rightarrow> engine \<Rightarrow> bool" where
  "plain_ready opts input e \<longleftrightarrow>
     simple_dialect e \<and> format_matches opts e \<and> parse_inv input (en_location e) e \<and>
     en_location e < length input \<and> ss_spans (en_spans e) = [] \<and>
     length input \<le> max_field_bytes (en_limits e)"

lemma kernel_then_loop:
  assumes "plain_ready opts input e" "rs = en_location e"
    "snd (parse_record opts input rs header e) = Ok ()"
  shows "seen (parse_record_fields None input rs header e) = seen (parse_record opts input rs header e)"
proof -
  have simple: "simple_dialect e" and matches: "format_matches opts e" and inv: "parse_inv input rs e"
    and lt: "rs < length input" and empty: "ss_spans (en_spans e) = []"
    and limit: "length input \<le> max_field_bytes (en_limits e)"
    using assms(1,2) by (simp_all add: plain_ready_def)
  note wf = simple_dialectD(7) [OF simple]
  note fmt = fmt_of_engine [OF matches wf]
  obtain first where first: "get_at input rs = Some first" using lt by (simp add: get_at_def)
  let ?kernel = "if plain_record_candidate opts first e then try_parse_borrowed_plain opts input rs else return_step False"
  obtain e1 plain where k: "?kernel e = (e1, Ok plain)"
    using assms(3) unfolding parse_record_def first option.case
    by (cases "?kernel e"; cases "snd (?kernel e)") (auto simp: bind_step_def)
  have run: "parse_record opts input rs header e =
     (if plain then bind_step (if fmt_record_pass opts e1 then finish_plain_record opts input rs header else return_step ())
        (\<lambda>_ e2. validate_count input (storage_len (en_spans e2)) e2) e1
      else parse_record_fields (dispatch_format opts e1) input rs header e1)"
    unfolding parse_record_def first option.case by (simp add: bind_step_def k)
  show ?thesis
  proof (cases plain)
    case False
    have e1: "e1 = e"
    proof (cases "plain_record_candidate opts first e")
      case True
      then have "kernel_loop opts input rs (structural_offsets (take (borrowed_scan_end e (length input) rs) input)
          (fmt_delimiter opts e) (fmt_quote opts e) (fmt_terminator opts e) rs) rs e = (e1, Ok False)"
        using k False by (simp add: try_parse_borrowed_plain_def Let_def blocks_matches_resume)
      then have "e1 = e\<lparr>en_spans := clear_spans (en_spans e)\<rparr>" using kernel_declines inv by blast
      then show ?thesis using empty by (simp add: clear_spans_def)
    qed (use k in simp)
    then show ?thesis
      using run False record_fields_without_format [OF inv wf dispatch_matches [OF wf matches]] by simp
  next
    case True
    then have cand: "plain_record_candidate opts first e" using k by (auto split: if_splits)
    have loop: "kernel_loop None input rs (structure_from input rs e rs) rs e = (e1, Ok True)"
      using k cand True kernel_without_format [OF matches wf inv] fmt
      by (simp add: try_parse_borrowed_plain_def Let_def blocks_matches_resume structure_from_def)
    have space: "\<not> en_skip_initial_space e"
      using cand matches wf
      by (auto simp: plain_record_candidate_def fmt_plain_kernel_def format_matches_def engine_wf_def split: option.splits)
    have ready: "kernel_setup input rs e" using simple space inv limit by (simp add: kernel_setup_def)
    have e1: "parse_inv input rs e1" "config_of e1 = config_of e"
      using good_try_plain [OF inv, of opts] k cand True by (simp_all split: if_splits)
    note simple1 = simple_dialect_config [OF e1(2), THEN iffD2, OF simple]
    have matches1: "format_matches opts e1" using matches format_matches_config [OF e1(2)] by simp
    note fmt1 = fmt_of_engine [OF matches1 simple_dialectD(7) [OF simple1]]
      fmt_of_engine [OF format_matches_None simple_dialectD(7) [OF simple1]]
    let ?finish = "if fmt_record_pass None e1 then finish_plain_record None input rs header else return_step ()"
    have same_finish: "(if fmt_record_pass opts e1 then finish_plain_record opts input rs header else return_step ()) e1 = ?finish e1"
      using finish_without_format [OF matches1 simple_dialectD(7) [OF simple1]] fmt1(9) fmt1(26) by simp
    have run1: "parse_record opts input rs header e =
        bind_step ?finish (\<lambda>_ e2. validate_count input (storage_len (en_spans e2)) e2) e1"
      using run True same_finish by (simp add: bind_step_def)
    obtain e2 where e2: "?finish e1 = (e2, Ok ())"
      using assms(3) unfolding run1 by (cases "?finish e1"; cases "snd (?finish e1)") (auto simp: bind_step_def)
    have loc: "rs \<le> en_location e1" "en_location e1 \<le> length input" using e1(1) by (simp_all add: parse_inv_def)
    have clean: "crlf_clean e input rs (en_location e1)"
    proof (cases "is_crlf e")
      case True
      then have c1: "is_crlf e1" "fmt_record_pass None e1" "fmt_record_ending None e1 = CrLf"
        using fmt1 config_ofD(1) [OF e1(2)] by (simp_all add: is_crlf_def needs_record_pass_def)
      obtain x u where "validate_crlf input rs e1 = (x, Ok u)"
        using e2 c1 by (auto simp: finish_plain_record_def elim!: bind_step_Ok)
      then have "crlf_clean e1 input rs (en_location e1)" using validate_crlf_clean(1) c1(1) loc by blast
      then show ?thesis using config_ofD(1) [OF e1(2)] by (simp add: crlf_clean_def is_crlf_def)
    qed (simp add: crlf_clean_def)
    have esc: "escape_free e input rs (en_location e1)" by (rule kernel_escape_free [OF loop inv simple]) (use structure_found in blast)
    have same: "agrees input header e e" by (simp add: agrees_def span_agrees_def list_all2_refl)
    obtain g1 where g1: "parse_record_fields None input rs header e = finish_general_record None input header g1"
      "agrees input header e1 g1" "en_location g1 = en_location e1" "en_terminated g1 = en_terminated e1"
      using kernel_loop_agrees [OF loop refl ready same _ _ _ _ _ esc clean] assms(2) by (auto simp: passed_def)
    show ?thesis
      unfolding run1 g1(1) by (rule finish_agrees [OF g1(2) e1(1) g1(3,4) simple1 e2])
  qed
qed

text \<open>
  C15: In a dialect of single-byte separators, over a window no longer than the field limit, whatever
  record \<open>parse_record\<close> accepts at a record start, the general field loop alone accepts
  too and leaves the same engine: the same spans, NULL marks, position and counts. The plain kernel is
  there only an optimisation of the general loop, whatever the escape style, the record ending and the
  NULL policy. Without those conditions the two can differ: over a longer window they measure the last
  field of a line that ends in CR LF differently against the field limit.
\<close>

theorem plain_kernel_agrees:
  assumes "plain_ready opts input e" "rs = en_location e"
    "snd (parse_record opts input rs header e) = Ok ()"
  shows "seen (parse_record_fields None input rs header e) = seen (parse_record opts input rs header e)"
  by (rule kernel_then_loop [OF assms])

text \<open>The sample engine at the start of its record.\<close>

definition sample_start :: engine where "sample_start = fst (begin_spans [97, 44, 98, 10] sample_engine)"

lemma sample_start_ready: "plain_ready None [97, 44, 98, 10] sample_start"
proof -
  have wf: "engine_wf sample_engine" by (rule sample_engine_ok(1))
  have begun: "begin_spans [97, 44, 98, 10] sample_engine = (sample_start, Ok ())"
    by (simp add: sample_start_def parser_eval sample_eval)
  note start = begin_spans_inv [OF begun sample_engine_ok(3)]
  have "invalidity (en_dialect sample_engine) = None" "\<not> multibyte (en_dialect sample_engine)"
    by (simp_all add: sample_eval invalidity_None_iff escape_conflict_def comment_conflict_def multibyte_invalidity_def
        tail_is_empty_def TAIL_EMPTY_def)
  then have "simple_dialect sample_engine" using wf by (simp add: simple_dialect_def)
  then have "simple_dialect sample_start" using simple_dialect_config [OF start(2)] by simp
  moreover have "en_limits sample_start = en_limits sample_engine" using config_ofD [OF start(2)] by simp
  moreover have "ss_spans (en_spans sample_start) = []" by (simp add: sample_start_def parser_eval sample_eval)
  ultimately show ?thesis
    using start by (simp add: plain_ready_def format_matches_None sample_eval)
qed

theorem plain_kernel_agrees_witness:
  "seen (parse_record_fields None [97, 44, 98, 10] 0 False sample_start) =
     seen (parse_record None [97, 44, 98, 10] 0 False sample_start)"
proof (rule plain_kernel_agrees [OF sample_start_ready])
  show "0 = en_location sample_start" by (simp add: sample_start_def parser_eval sample_eval)
  show "snd (parse_record None [97, 44, 98, 10] 0 False sample_start) = Ok ()"
    by (simp add: sample_start_def parser_eval sample_eval)
qed

end
