(* ===== verification/HeaderLookup.thy ===== *)
theory HeaderLookup
  imports Errors
begin

text \<open>
  The lookup from header names to columns (\<open>coseva/src/engine/header_lookup.rs\<close>): the hash of a
  name, the columns filed under one key, and the table keyed by hashes, which walks to the next key
  on a collision. A header record is the list of its names. The walk may not return when all
  \<open>2 ^ 64\<close> keys are taken, so its result is an option; the theorems show that it returns.
\<close>

section \<open>The hash of a name\<close>

definition SEED :: "64 word" where "SEED = 0x517cc1b727220a95"

definition hash_mix :: "64 word \<Rightarrow> 64 word \<Rightarrow> 64 word" where
  "hash_mix state w = (word_rotl 5 state XOR w) * SEED"

text \<open>The whole eight-byte words of \<open>HeaderHasher::write\<close>, leaving the tail.\<close>

function hash_words :: "64 word \<Rightarrow> bytes \<Rightarrow> 64 word \<times> bytes" where
  "hash_words state rest =
     (if 8 \<le> length rest then hash_words (hash_mix state (word_of_bytes (take 8 rest))) (drop 8 rest)
      else (state, rest))"
  by pat_completeness auto
termination by (relation "measure (length \<circ> snd)") auto

declare hash_words.simps [simp del]

definition hash_remainder :: "bytes \<Rightarrow> 64 word" where
  "hash_remainder rest = fold (\<lambda>b remainder. push_bit 8 remainder OR ucast b) rest 0"

definition hash_write :: "64 word \<Rightarrow> bytes \<Rightarrow> 64 word" where
  "hash_write state name =
     (case hash_words state name of (state1, rest) \<Rightarrow>
        let (state2, rest2) =
              (if 4 \<le> length rest then (hash_mix state1 (word_of_bytes (take 4 rest)), drop 4 rest)
               else (state1, rest))
        in hash_mix state2 (hash_remainder rest2 XOR of_nat (length name)))"

definition hash_name :: "bytes \<Rightarrow> 64 word" where "hash_name name = hash_write 0 name"

section \<open>Columns under one name\<close>

datatype header_slots = One nat | Many "nat list"

fun slots_push :: "nat \<Rightarrow> header_slots \<Rightarrow> header_slots" where
  "slots_push index (One first) = Many [first, index]"
| "slots_push index (Many indices) = Many (indices @ [index])"

fun slots_list :: "header_slots \<Rightarrow> nat list" where
  "slots_list (One index) = [index]"
| "slots_list (Many indices) = indices"

fun slots_first :: "header_slots \<Rightarrow> nat" where
  "slots_first (One index) = index"
| "slots_first (Many indices) = indices ! 0"

section \<open>The table\<close>

type_synonym header_lookup = "64 word \<rightharpoonup> header_slots"

definition lookup_clear :: "header_lookup \<Rightarrow> header_lookup" where "lookup_clear t = Map.empty"

partial_function (option) insert_at ::
    "bytes list \<Rightarrow> header_lookup \<Rightarrow> 64 word \<Rightarrow> bytes \<Rightarrow> nat \<Rightarrow> header_lookup option" where
  "insert_at headers t key name index =
     (case t key of
        Some slots \<Rightarrow>
          if get_at headers (slots_first slots) = Some name
          then Some (t(key \<mapsto> slots_push index slots))
          else insert_at headers t (key + 1) name index
      | None \<Rightarrow> Some (t(key \<mapsto> One index)))"

partial_function (option) get_from ::
    "bytes list \<Rightarrow> header_lookup \<Rightarrow> 64 word \<Rightarrow> bytes \<Rightarrow> header_slots option option" where
  "get_from headers t key name =
     (case t key of
        None \<Rightarrow> Some None
      | Some slots \<Rightarrow>
          if get_at headers (slots_first slots) = Some name then Some (Some slots)
          else get_from headers t (key + 1) name)"

definition lookup_get :: "bytes list \<Rightarrow> header_lookup \<Rightarrow> bytes \<Rightarrow> header_slots option option" where
  "lookup_get headers t name = get_from headers t (hash_name name) name"

fun insert_all :: "bytes list \<Rightarrow> (nat \<times> bytes) list \<Rightarrow> header_lookup \<Rightarrow> header_lookup option" where
  "insert_all headers [] t = Some t"
| "insert_all headers ((index, name) # rest) t =
     Option.bind (insert_at headers t (hash_name name) name index) (insert_all headers rest)"

definition rebuild :: "bytes list \<Rightarrow> header_lookup \<Rightarrow> header_lookup option" where
  "rebuild headers t = insert_all headers (List.enumerate 0 headers) (lookup_clear t)"

section \<open>The walk\<close>

text \<open>The columns below \<open>n\<close> that carry a name, and the walk over keys that other names hold.\<close>

definition columns_below :: "bytes list \<Rightarrow> nat \<Rightarrow> bytes \<Rightarrow> nat list" where
  "columns_below headers n name = filter (\<lambda>i. headers ! i = name) [0..<n]"

definition columns_of :: "bytes list \<Rightarrow> bytes \<Rightarrow> nat list" where
  "columns_of headers name = columns_below headers (length headers) name"

definition holds :: "bytes list \<Rightarrow> header_slots \<Rightarrow> bytes \<Rightarrow> bool" where
  "holds headers slots name \<longleftrightarrow> get_at headers (slots_first slots) = Some name"

definition walk :: "bytes list \<Rightarrow> header_lookup \<Rightarrow> 64 word \<Rightarrow> bytes \<Rightarrow> nat \<Rightarrow> bool" where
  "walk headers t key name d \<longleftrightarrow>
     (\<forall>i < d. \<exists>s. t (key + of_nat i) = Some s \<and> \<not> holds headers s name)"

definition stops :: "bytes list \<Rightarrow> header_lookup \<Rightarrow> 64 word \<Rightarrow> bytes \<Rightarrow> bool" where
  "stops headers t key name \<longleftrightarrow>
     (case t key of None \<Rightarrow> True | Some s \<Rightarrow> holds headers s name)"

lemma walk_Suc: "walk headers t key name (Suc d) \<longleftrightarrow>
    walk headers t key name d \<and> \<not> stops headers t (key + of_nat d) name"
  by (auto simp: walk_def stops_def less_Suc_eq split: option.splits)

lemma walk_stops: "walk headers t key name d \<longleftrightarrow> (\<forall>i < d. \<not> stops headers t (key + of_nat i) name)"
  by (induction d) (auto simp: walk_Suc less_Suc_eq, simp add: walk_def)

lemma insert_at_walk:
  "walk headers t key name d \<Longrightarrow>
    insert_at headers t key name index = insert_at headers t (key + of_nat d) name index"
proof (induction d)
  case (Suc d)
  then obtain s where "t (key + of_nat d) = Some s" "\<not> holds headers s name" by (auto simp: walk_def)
  then show ?case
    using Suc by (auto simp: walk_Suc holds_def insert_at.simps [of _ _ "key + of_nat d"] algebra_simps)
qed simp

lemma get_from_walk:
  "walk headers t key name d \<Longrightarrow> get_from headers t key name = get_from headers t (key + of_nat d) name"
proof (induction d)
  case (Suc d)
  then obtain s where "t (key + of_nat d) = Some s" "\<not> holds headers s name" by (auto simp: walk_def)
  then show ?case
    using Suc by (auto simp: walk_Suc holds_def get_from.simps [of _ _ "key + of_nat d"] algebra_simps)
qed simp

text \<open>With a free key the walk stops.\<close>

lemma walk_ends:
  assumes "dom t \<noteq> UNIV"
  obtains d where "walk headers t key name d" "stops headers t (key + of_nat d) name"
proof -
  let ?stop = "\<lambda>d. stops headers t (key + of_nat d) name"
  obtain free where "t free = None" using assms by auto
  then have "?stop (unat (free - key))" by (simp add: stops_def)
  then have "?stop (LEAST d. ?stop d)" by (rule LeastI)
  moreover have "walk headers t key name (LEAST d. ?stop d)"
    unfolding walk_stops by (blast dest: not_less_Least)
  ultimately show ?thesis using that by blast
qed

section \<open>What the table holds\<close>

text \<open>
  After the first \<open>n\<close> names are filed: every entry lists exactly the columns of its name and is
  reached from the hash of that name, and every name has an entry.
\<close>

definition entry_ok :: "bytes list \<Rightarrow> nat \<Rightarrow> header_lookup \<Rightarrow> 64 word \<Rightarrow> header_slots \<Rightarrow> bool" where
  "entry_ok headers n t key s \<longleftrightarrow>
     slots_list s \<noteq> [] \<and> slots_list s = columns_below headers n (headers ! slots_first s) \<and>
     (\<exists>d. key = hash_name (headers ! slots_first s) + of_nat d \<and>
        walk headers t (hash_name (headers ! slots_first s)) (headers ! slots_first s) d)"

definition filed :: "bytes list \<Rightarrow> nat \<Rightarrow> header_lookup \<Rightarrow> bool" where
  "filed headers n t \<longleftrightarrow>
     (\<forall>key s. t key = Some s \<longrightarrow> entry_ok headers n t key s) \<and>
     (\<forall>name. columns_below headers n name \<noteq> [] \<longrightarrow> (\<exists>key s. t key = Some s \<and> headers ! slots_first s = name)) \<and>
     card (dom t) \<le> n"

lemma slots_first_hd: "slots_list s \<noteq> [] \<Longrightarrow> slots_first s = hd (slots_list s)"
  by (cases s) (auto simp: hd_conv_nth)

lemma entry_first:
  assumes "entry_ok headers n t key s" "n \<le> length headers"
  shows "slots_first s < n" "holds headers s name \<longleftrightarrow> headers ! slots_first s = name"
proof -
  have some: "slots_list s \<noteq> []" using assms(1) unfolding entry_ok_def by blast
  have "slots_first s \<in> set (slots_list s)" using some by (simp add: slots_first_hd)
  moreover have "set (slots_list s) = set (columns_below headers n (headers ! slots_first s))"
    using assms(1) unfolding entry_ok_def by metis
  then have "set (slots_list s) \<subseteq> {..<n}" by (auto simp: columns_below_def)
  ultimately show "slots_first s < n" by blast
  then show "holds headers s name \<longleftrightarrow> headers ! slots_first s = name"
    using assms(2) by (auto simp: holds_def get_at_def)
qed

lemma columns_below_Suc: "columns_below headers (Suc n) name =
    columns_below headers n name @ (if headers ! n = name then [n] else [])"
  by (simp add: columns_below_def)

lemma filed_empty: "filed headers 0 Map.empty"
  by (simp add: filed_def columns_below_def)

lemma lookup_not_full:
  fixes t :: header_lookup
  assumes "card (dom t) < 2 ^ 64"
  shows "dom t \<noteq> UNIV"
proof
  assume "dom t = UNIV"
  then have "card (dom t) = 2 ^ 64" using card_word [where 'a = 64] by simp
  then show False using assms by simp
qed

text \<open>The walk of a filed name ends at the entry of that name.\<close>

lemma filed_stop:
  assumes "filed headers n t" "n \<le> length headers"
    "walk headers t (hash_name name) name d" "stops headers t (hash_name name + of_nat d) name"
  shows "(case t (hash_name name + of_nat d) of
       None \<Rightarrow> columns_below headers n name = []
     | Some s \<Rightarrow> headers ! slots_first s = name \<and> slots_list s = columns_below headers n name \<and>
         slots_list s \<noteq> [])"
proof (cases "t (hash_name name + of_nat d)")
  case None
  show ?thesis
  proof (cases "columns_below headers n name = []")
    case False
    then obtain key s where s: "t key = Some s" "headers ! slots_first s = name"
      using assms(1) unfolding filed_def by blast
    then have ok: "entry_ok headers n t key s" using assms(1) by (simp add: filed_def)
    then obtain d' where d': "key = hash_name name + of_nat d'" "walk headers t (hash_name name) name d'"
      using s(2) by (auto simp: entry_ok_def)
    have "holds headers s name" using entry_first(2) [OF ok assms(2)] s(2) by simp
    moreover have "d' \<noteq> d" using None s(1) d'(1) by auto
    ultimately have False
      using assms(3) d' s(1) None unfolding walk_def by (cases d d' rule: linorder_cases) fastforce+
    then show ?thesis ..
  qed (simp add: None)
next
  case (Some s)
  then have ok: "entry_ok headers n t (hash_name name + of_nat d) s" using assms(1) by (simp add: filed_def)
  then have "headers ! slots_first s = name"
    using Some assms(4) entry_first(2) [OF ok assms(2)] by (simp add: stops_def)
  moreover from this have "slots_list s \<noteq> []" "slots_list s = columns_below headers n name"
    using ok unfolding entry_ok_def by blast+
  ultimately show ?thesis using Some by simp
qed

section \<open>Filing one more name\<close>

lemma walk_functional:
  assumes "walk headers t key name d" "stops headers t (key + of_nat d) name"
    "walk headers t key name d'" "stops headers t (key + of_nat d') name"
  shows "d = d'"
  using assms unfolding walk_stops by (metis linorder_neqE_nat)

lemma entry_unique:
  assumes "filed headers n t" "n \<le> length headers" "t key = Some s" "t key' = Some s'"
    "headers ! slots_first s = headers ! slots_first s'"
  shows "key = key'"
proof -
  have ok: "entry_ok headers n t key s" "entry_ok headers n t key' s'" using assms by (simp_all add: filed_def)
  let ?name = "headers ! slots_first s"
  obtain d d' where d: "key = hash_name ?name + of_nat d" "walk headers t (hash_name ?name) ?name d"
    "key' = hash_name ?name + of_nat d'" "walk headers t (hash_name ?name) ?name d'"
    using ok assms(5) unfolding entry_ok_def by metis
  have "stops headers t key ?name" "stops headers t key' ?name"
    using assms(3-5) entry_first(2) [OF ok(1) assms(2)] entry_first(2) [OF ok(2) assms(2)]
    by (simp_all add: stops_def)
  then have "d = d'" using walk_functional d by blast
  then show ?thesis using d by simp
qed

lemma walk_update:
  assumes "walk headers t key name d" "case t k of None \<Rightarrow> True | Some s \<Rightarrow> slots_first s' = slots_first s"
  shows "walk headers (t(k \<mapsto> s')) key name d"
  using assms unfolding walk_def holds_def by (fastforce split: option.splits)

lemma slots_push_simps:
  "slots_list s \<noteq> [] \<Longrightarrow> slots_list (slots_push n s) = slots_list s @ [n]"
  "slots_list s \<noteq> [] \<Longrightarrow> slots_first (slots_push n s) = slots_first s"
  by (cases s; simp add: nth_append)+

lemma filed_insert:
  assumes "filed headers n t" "n < length headers" "length headers < 2 ^ 64"
  shows "\<exists>t'. insert_at headers t (hash_name (headers ! n)) (headers ! n) n = Some t' \<and> filed headers (Suc n) t'"
proof -
  let ?name = "headers ! n"
  have n: "n \<le> length headers" using assms(2) by simp
  have card: "card (dom t) \<le> n" using assms(1) by (simp add: filed_def)
  then obtain d where d: "walk headers t (hash_name ?name) ?name d" "stops headers t (hash_name ?name + of_nat d) ?name"
    using walk_ends lookup_not_full [of t] assms(2,3) by (metis le_less_trans order.strict_trans)
  define key where "key = hash_name ?name + of_nat d"
  define s' where "s' = (case t key of None \<Rightarrow> One n | Some s \<Rightarrow> slots_push n s)"
  note stop = filed_stop [OF assms(1) n d, folded key_def]
  have "insert_at headers t key ?name n = Some (t(key \<mapsto> s'))"
    using d(2) [folded key_def]
    by (subst insert_at.simps) (simp add: s'_def stops_def holds_def split: option.splits)
  then have insert: "insert_at headers t (hash_name ?name) ?name n = Some (t(key \<mapsto> s'))"
    using insert_at_walk [OF d(1)] by (simp add: key_def)
  have s': "headers ! slots_first s' = ?name" "slots_list s' = columns_below headers (Suc n) ?name" "slots_list s' \<noteq> []"
    using stop by (auto simp: s'_def columns_below_Suc slots_push_simps split: option.splits)
  have old: "case t key of None \<Rightarrow> True | Some s \<Rightarrow> slots_first s' = slots_first s"
    using stop by (auto simp: s'_def slots_push_simps split: option.splits)
  have others: "headers ! slots_first s \<noteq> ?name" if "t k = Some s" "k \<noteq> key" for k s
  proof
    assume same: "headers ! slots_first s = ?name"
    have ok: "entry_ok headers n t k s" using assms(1) that(1) by (simp add: filed_def)
    then have "columns_below headers n ?name \<noteq> []" using same unfolding entry_ok_def by metis
    then obtain s0 where "t key = Some s0" "headers ! slots_first s0 = ?name"
      using stop by (auto split: option.splits)
    then show False using entry_unique [OF assms(1) n that(1)] same that(2) by simp
  qed
  have "entry_ok headers (Suc n) (t(key \<mapsto> s')) k s" if "(t(key \<mapsto> s')) k = Some s" for k s
  proof (cases "k = key")
    case True
    then show ?thesis
      using that s' walk_update [OF d(1) old] by (auto simp: entry_ok_def key_def)
  next
    case False
    then have k: "t k = Some s" using that by simp
    then have "entry_ok headers n t k s" using assms(1) by (simp add: filed_def)
    then show ?thesis
      using others [OF k False] walk_update [where k = key and s' = s'] old
      unfolding entry_ok_def columns_below_Suc by fastforce
  qed
  moreover have "\<exists>k s. (t(key \<mapsto> s')) k = Some s \<and> headers ! slots_first s = nm"
    if "columns_below headers (Suc n) nm \<noteq> []" for nm
  proof (cases "nm = ?name")
    case True
    then show ?thesis using s'(1) by (intro exI [of _ key] exI [of _ s']) simp
  next
    case False
    then have "columns_below headers n nm \<noteq> []" using that by (auto simp: columns_below_Suc)
    then obtain k s where ks: "t k = Some s" "headers ! slots_first s = nm" using assms(1) unfolding filed_def by blast
    then show ?thesis
      using s' stop False by (intro exI [of _ k] exI [of _ "if k = key then s' else s"]) (auto split: option.splits)
  qed
  moreover have "card (dom (t(key \<mapsto> s'))) \<le> Suc n"
    using card card_insert_le_m1 by (simp add: card_insert_if)
  ultimately have "filed headers (Suc n) (t(key \<mapsto> s'))" unfolding filed_def by blast
  then show ?thesis using insert by blast
qed

lemma insert_all_filed:
  assumes "filed headers n t" "n \<le> length headers" "length headers < 2 ^ 64"
  shows "\<exists>t'. insert_all headers (List.enumerate n (drop n headers)) t = Some t' \<and> filed headers (length headers) t'"
  using assms
proof (induction "length headers - n" arbitrary: n t)
  case 0
  then show ?case by simp
next
  case (Suc k)
  then have lt: "n < length headers" by simp
  obtain t1 where t1: "insert_at headers t (hash_name (headers ! n)) (headers ! n) n = Some t1" "filed headers (Suc n) t1"
    using filed_insert [OF Suc.prems(1) lt Suc.prems(3)] by blast
  have "drop n headers = headers ! n # drop (Suc n) headers" using lt by (simp add: Cons_nth_drop_Suc)
  then show ?case using Suc.hyps(1) [OF _ t1(2)] Suc.hyps(2) Suc.prems lt t1(1) by simp
qed

lemma rebuild_filed:
  assumes "length headers < 2 ^ 64"
  shows "\<exists>t'. rebuild headers t = Some t' \<and> filed headers (length headers) t'"
  using insert_all_filed [OF filed_empty _ assms] by (simp add: rebuild_def lookup_clear_def)

lemma filed_get:
  assumes "filed headers (length headers) t" "length headers < 2 ^ 64"
  shows "\<exists>r. lookup_get headers t name = Some r \<and>
    map_option slots_list r = (if columns_of headers name = [] then None else Some (columns_of headers name))"
proof -
  have "card (dom t) < 2 ^ 64" using assms by (simp add: filed_def)
  then obtain d where d: "walk headers t (hash_name name) name d" "stops headers t (hash_name name + of_nat d) name"
    using walk_ends lookup_not_full by metis
  have "get_from headers t (hash_name name + of_nat d) name = Some (t (hash_name name + of_nat d))"
    using d(2) by (subst get_from.simps) (simp add: stops_def holds_def split: option.splits)
  then have "get_from headers t (hash_name name) name = Some (t (hash_name name + of_nat d))"
    using get_from_walk [OF d(1)] by simp
  then show ?thesis
    using filed_stop [OF assms(1) _ d] unfolding lookup_get_def columns_of_def
    by (auto split: option.splits)
qed

text \<open>
  C29: After \<open>rebuild\<close>, the lookup answers every name with exactly the columns that carry it, in
  ascending order, and \<open>None\<close> for a name no column carries; both walks return, whatever the hashes of
  the names, colliding or wrapping past the last key.
\<close>

theorem lookup_after_rebuild:
  assumes "length headers < 2 ^ 64"
  shows "\<exists>t'. rebuild headers t = Some t' \<and>
    (\<forall>name. \<exists>r. lookup_get headers t' name = Some r \<and>
       map_option slots_list r = (if columns_of headers name = [] then None else Some (columns_of headers name)))"
  using rebuild_filed [OF assms] filed_get [OF _ assms] by blast

theorem lookup_after_rebuild_witness:
  "\<exists>t'. rebuild [[97], [98], [97]] Map.empty = Some t' \<and>
     (\<exists>r. lookup_get [[97], [98], [97]] t' [97] = Some r \<and> map_option slots_list r = Some [0, 2])"
proof -
  have "columns_of [[97], [98], [97]] [97] = [0, 2]"
    by (simp add: columns_of_def columns_below_def upt_rec)
  then show ?thesis
    using lookup_after_rebuild [of "[[97], [98], [97]]" Map.empty] by fastforce
qed

end
