(* ===== verification/Columns.thy ===== *)
theory Columns
  imports HeaderLookup
begin

text \<open>
  How the names of a target type resolve to the columns of a header record
  (\<open>coseva/src/engine.rs\<close>, \<open>engine/scanner.rs\<close>): by scanning the headers once per name, or through
  the header lookup for wide types. Names and aliases are byte strings. The indexed resolver reads
  the lookup, whose walk is an option.
\<close>

type_synonym field_aliases = "bytes list list"

definition MAPPING_INDEX_THRESHOLD :: nat where "MAPPING_INDEX_THRESHOLD = 1024"

definition wide_mapping :: "nat \<Rightarrow> nat \<Rightarrow> bool" where
  "wide_mapping names headers \<longleftrightarrow> MAPPING_INDEX_THRESHOLD < sat_mul names headers"

text \<open>\<open>aliases.get(target).copied().unwrap_or(&[])\<close>.\<close>

definition alternates_of :: "field_aliases \<Rightarrow> nat \<Rightarrow> bytes list" where
  "alternates_of aliases target = (case get_at aliases target of Some a \<Rightarrow> a | None \<Rightarrow> [])"

section \<open>By scanning\<close>

definition scan_matches :: "bytes list \<Rightarrow> bytes \<Rightarrow> bytes list \<Rightarrow> nat list" where
  "scan_matches headers name alternates =
     map fst (filter (\<lambda>(index, header). header = name \<or> (\<exists>alias \<in> set alternates. header = alias))
       (List.enumerate 0 headers))"

fun scan_names :: "bytes list \<Rightarrow> field_aliases \<Rightarrow> (nat \<times> bytes) list \<Rightarrow> nat list \<Rightarrow> nat list outcome" where
  "scan_names headers aliases [] mapping = Ok mapping"
| "scan_names headers aliases ((target, name) # rest) mapping =
     (case scan_matches headers name (alternates_of aliases target) of
        [] \<Rightarrow> Err (error_field DecodeError target (Some name))
      | source # others \<Rightarrow>
          if others \<noteq> [] then Err (error_field DecodeError target (Some name))
          else scan_names headers aliases rest (mapping @ [source]))"

definition resolve_decode_mapping :: "bytes list \<Rightarrow> bytes list \<Rightarrow> field_aliases \<Rightarrow> nat list outcome" where
  "resolve_decode_mapping headers names aliases = scan_names headers aliases (List.enumerate 0 names) []"

section \<open>Through the lookup\<close>

text \<open>One column found for a target: the source so far and whether a second column was seen.\<close>

fun note_column :: "nat \<Rightarrow> nat option \<times> bool \<Rightarrow> nat option \<times> bool" where
  "note_column column (None, ambiguous) = (Some column, ambiguous)"
| "note_column column (Some first, ambiguous) = (Some first, if first = column then ambiguous else True)"

fun query_columns ::
    "bytes list \<Rightarrow> header_lookup \<Rightarrow> bytes list \<Rightarrow> nat option \<times> bool \<Rightarrow> (nat option \<times> bool) option" where
  "query_columns headers t [] found = Some found"
| "query_columns headers t (query # rest) found =
     Option.bind (lookup_get headers t query) (\<lambda>r.
       query_columns headers t rest
         (case r of None \<Rightarrow> found | Some slots \<Rightarrow> fold note_column (slots_list slots) found))"

fun query_names ::
    "bytes list \<Rightarrow> header_lookup \<Rightarrow> field_aliases \<Rightarrow> (nat \<times> bytes) list \<Rightarrow> nat list \<Rightarrow> nat list outcome option" where
  "query_names headers t aliases [] mapping = Some (Ok mapping)"
| "query_names headers t aliases ((target, name) # rest) mapping =
     Option.bind (query_columns headers t (name # alternates_of aliases target) (None, False)) (\<lambda>found.
       case found of
         (Some column, False) \<Rightarrow> query_names headers t aliases rest (mapping @ [column])
       | _ \<Rightarrow> Some (Err (error_field DecodeError target (Some name))))"

definition resolve_decode_mapping_indexed ::
    "bytes list \<Rightarrow> header_lookup \<Rightarrow> bytes list \<Rightarrow> field_aliases \<Rightarrow> nat list outcome option" where
  "resolve_decode_mapping_indexed headers t names aliases =
     query_names headers t aliases (List.enumerate 0 names) []"

section \<open>The typed mapping\<close>

datatype typed_mapping = Identity | Mapped "nat list"

definition typed_mapping_from :: "nat list \<Rightarrow> nat \<Rightarrow> typed_mapping" where
  "typed_mapping_from source_mapping header_len =
     (if length source_mapping = header_len \<and>
         (\<forall>(target, source) \<in> set (List.enumerate 0 source_mapping). target = source)
      then Identity else Mapped source_mapping)"

text \<open>The columns a typed mapping stands for: target \<open>i\<close> decodes column \<open>i\<close> of an identity.\<close>

fun mapping_columns :: "typed_mapping \<Rightarrow> nat \<Rightarrow> nat list" where
  "mapping_columns Identity header_len = [0..<header_len]"
| "mapping_columns (Mapped columns) header_len = columns"

section \<open>The two resolvers agree\<close>

text \<open>The interface the indexed resolver relies on: a lookup that reports the columns of a name.\<close>

locale column_source =
  fixes columns :: "bytes \<Rightarrow> nat list" and headers :: "bytes list"
  assumes columns_exact: "set (columns name) = {i. i < length headers \<and> headers ! i = name}"
begin

definition found_in :: "bytes list \<Rightarrow> nat option \<times> bool" where
  "found_in queries = fold (\<lambda>q found. fold note_column (columns q) found) queries (None, False)"

lemma note_columns:
  "fold note_column xs (Some c, amb) = (Some c, amb \<or> (\<exists>x \<in> set xs. x \<noteq> c))"
  by (induction xs arbitrary: amb) auto

lemma fold_note_concat: "fold (\<lambda>q found. fold note_column (columns q) found) queries found =
    fold note_column (concat (map columns queries)) found"
  by (induction queries arbitrary: found) auto

lemma fold_note: "fold note_column xs (None, False) =
    (case xs of [] \<Rightarrow> (None, False) | c # cs \<Rightarrow> (Some c, \<exists>x \<in> set cs. x \<noteq> c))"
  by (cases xs) (simp_all add: note_columns)

lemma found_in_cases: "found_in queries =
    (case concat (map columns queries) of [] \<Rightarrow> (None, False)
     | c # cs \<Rightarrow> (Some c, \<exists>x \<in> set cs. x \<noteq> c))"
  by (simp only: found_in_def fold_note_concat fold_note)

lemma scan_matches_set: "set (scan_matches headers name alternates) =
    {i. i < length headers \<and> (headers ! i = name \<or> headers ! i \<in> set alternates)}"
  by (auto simp: scan_matches_def in_set_enumerate_eq image_iff)

lemma scan_matches_distinct: "distinct (scan_matches headers name alternates)"
  unfolding scan_matches_def by (rule distinct_map_filter) (simp add: distinct_enumerate)

lemma found_in_scan:
  obtains (none) "scan_matches headers name alternates = []" "found_in (name # alternates) = (None, False)"
    | (one) c where "scan_matches headers name alternates = [c]" "found_in (name # alternates) = (Some c, False)"
    | (many) c a b cs where "scan_matches headers name alternates = a # b # cs" "found_in (name # alternates) = (Some c, True)"
proof -
  let ?cols = "concat (map columns (name # alternates))" and ?scan = "scan_matches headers name alternates"
  have same: "set ?cols = set ?scan" using columns_exact by (auto simp: scan_matches_set)
  show ?thesis
  proof (cases ?cols)
    case Nil
    have "found_in (name # alternates) = (None, False)" unfolding found_in_cases Nil by simp
    moreover have "?scan = []" using same unfolding Nil by simp
    ultimately show ?thesis by (rule none [rotated])
  next
    case (Cons c cs)
    then have c: "insert c (set cs) = set ?scan" using same by (metis list.simps(15))
    have found: "found_in (name # alternates) = (Some c, \<exists>x \<in> set cs. x \<noteq> c)"
      unfolding found_in_cases Cons by simp
    show ?thesis
    proof (cases ?scan)
      case Nil
      then show ?thesis using c by simp
    next
      case scan: (Cons a as)
      show ?thesis
      proof (cases as)
        case Nil
        then have all: "insert c (set cs) = {a}" using c scan by simp
        then have "a = c" "\<not> (\<exists>x \<in> set cs. x \<noteq> c)" by blast+
        then show ?thesis using one [of c] Nil scan found by simp
      next
        case (Cons b bs)
        have "a \<in> insert c (set cs)" "b \<in> insert c (set cs)" "a \<noteq> b"
          using c scan Cons scan_matches_distinct [of name alternates] by simp_all
        then have "\<exists>x \<in> set cs. x \<noteq> c" by (metis insertE)
        then show ?thesis using many [of a b bs c] scan Cons found by simp
      qed
    qed
  qed
qed

end

text \<open>The columns a lookup reports are such a source.\<close>

lemma lookup_columns:
  assumes "filed headers (length headers) t" "length headers < 2 ^ 64"
  shows "\<exists>r. lookup_get headers t name = Some r \<and> (case r of None \<Rightarrow> [] | Some slots \<Rightarrow> slots_list slots) = columns_of headers name"
  using filed_get [OF assms, of name] by (auto split: if_splits option.splits)

lemma columns_of_set: "set (columns_of headers name) = {i. i < length headers \<and> headers ! i = name}"
  by (auto simp: columns_of_def columns_below_def)

interpretation scanned: column_source "columns_of headers" headers for headers
  by unfold_locales (rule columns_of_set)

lemma query_columns_found:
  assumes "filed headers (length headers) t" "length headers < 2 ^ 64"
  shows "query_columns headers t queries found =
    Some (fold (\<lambda>q found. fold note_column (columns_of headers q) found) queries found)"
proof (induction queries arbitrary: found)
  case (Cons q qs)
  obtain r where "lookup_get headers t q = Some r"
    "(case r of None \<Rightarrow> [] | Some slots \<Rightarrow> slots_list slots) = columns_of headers q"
    using lookup_columns [OF assms] by blast
  then show ?case using Cons by (cases r) auto
qed simp

lemma query_names_scan:
  assumes "filed headers (length headers) t" "length headers < 2 ^ 64"
  shows "query_names headers t aliases targets mapping = Some (scan_names headers aliases targets mapping)"
proof (induction targets arbitrary: mapping)
  case (Cons tn rest)
  obtain target name where tn: "tn = (target, name)" by fastforce
  have found: "query_columns headers t (name # alternates_of aliases target) (None, False) =
      Some (scanned.found_in headers (name # alternates_of aliases target))"
    unfolding query_columns_found [OF assms] scanned.found_in_def ..
  show ?case
    by (cases rule: scanned.found_in_scan [of headers name "alternates_of aliases target"])
      (simp_all add: tn found Cons del: query_columns.simps)
qed simp

text \<open>
  C30: The indexed resolver gives what the scanning resolver gives, mapping or error, for any names
  and aliases over a lookup rebuilt from the same headers.
\<close>

theorem resolvers_agree:
  assumes "rebuild headers t = Some t'" "length headers < 2 ^ 64"
  shows "resolve_decode_mapping_indexed headers t' names aliases = Some (resolve_decode_mapping headers names aliases)"
proof -
  have "filed headers (length headers) t'" using rebuild_filed [OF assms(2), of t] assms(1) by auto
  then show ?thesis
    using query_names_scan assms(2) by (simp add: resolve_decode_mapping_indexed_def resolve_decode_mapping_def)
qed

lemma scan_names_result:
  "(case scan_names headers aliases targets mapping of
      Ok m \<Rightarrow> \<exists>columns. m = mapping @ columns \<and>
        list_all2 (\<lambda>(target, name) c. scan_matches headers name (alternates_of aliases target) = [c]) targets columns
    | Err er \<Rightarrow> \<exists>seen target name rest. targets = seen @ (target, name) # rest \<and>
        er = error_field DecodeError target (Some name) \<and>
        length (scan_matches headers name (alternates_of aliases target)) \<noteq> 1 \<and>
        (\<forall>(i, n) \<in> set seen. length (scan_matches headers n (alternates_of aliases i)) = 1)
    | Panic \<Rightarrow> False)"
proof (induction targets arbitrary: mapping)
  case (Cons tn rest)
  obtain target name where tn: "tn = (target, name)" by fastforce
  let ?m = "scan_matches headers name (alternates_of aliases target)"
  show ?case
  proof (cases "\<exists>c. ?m = [c]")
    case True
    then obtain c where c: "?m = [c]" ..
    have step: "scan_names headers aliases (tn # rest) mapping = scan_names headers aliases rest (mapping @ [c])"
      by (simp add: tn c)
    show ?thesis
    proof (cases "scan_names headers aliases rest (mapping @ [c])")
      case (Ok m)
      then obtain columns where "m = (mapping @ [c]) @ columns"
        "list_all2 (\<lambda>(target, name) c. scan_matches headers name (alternates_of aliases target) = [c]) rest columns"
        using Cons.IH [of "mapping @ [c]"] by auto
      then show ?thesis using step Ok c tn by (auto intro!: exI [of _ "c # columns"])
    next
      case (Err er)
      then obtain seen target' name' rest' where "rest = seen @ (target', name') # rest'"
        "er = error_field DecodeError target' (Some name')"
        "length (scan_matches headers name' (alternates_of aliases target')) \<noteq> 1"
        "\<forall>(i, n) \<in> set seen. length (scan_matches headers n (alternates_of aliases i)) = 1"
        using Cons.IH [of "mapping @ [c]"] by auto
      then show ?thesis
        unfolding step Err outcome.case
        by (intro exI [of _ "(target, name) # seen"] exI [of _ target'] exI [of _ name'] exI [of _ rest'])
          (simp add: c tn)
    next
      case Panic
      then show ?thesis using Cons.IH [of "mapping @ [c]"] by simp
    qed
  next
    case False
    then have "scan_names headers aliases (tn # rest) mapping = Err (error_field DecodeError target (Some name))"
      "length ?m \<noteq> 1"
      by (auto simp: tn length_Suc_conv split: list.split)
    then show ?thesis using tn by (auto intro!: exI [of _ "[]"])
  qed
qed simp

text \<open>
  C31: The scanning resolver accepts exactly when every target has one column, and then maps it to
  that column; the error names the first target that has none or several.
\<close>

theorem resolve_decode_mapping_result:
  "(case resolve_decode_mapping headers names aliases of
      Ok m \<Rightarrow> list_all2 (\<lambda>(target, name) c. scan_matches headers name (alternates_of aliases target) = [c])
        (List.enumerate 0 names) m
    | Err er \<Rightarrow> \<exists>target < length names.
        er = error_field DecodeError target (Some (names ! target)) \<and>
        length (scan_matches headers (names ! target) (alternates_of aliases target)) \<noteq> 1 \<and>
        (\<forall>i < target. length (scan_matches headers (names ! i) (alternates_of aliases i)) = 1)
    | Panic \<Rightarrow> False)"
proof (cases "resolve_decode_mapping headers names aliases")
  case (Err er)
  then obtain seen target name rest where err: "List.enumerate 0 names = seen @ (target, name) # rest"
    "er = error_field DecodeError target (Some name)"
    "length (scan_matches headers name (alternates_of aliases target)) \<noteq> 1"
    "\<forall>(i, n) \<in> set seen. length (scan_matches headers n (alternates_of aliases i)) = 1"
    using scan_names_result [where headers = headers and aliases = aliases and targets = "List.enumerate 0 names" and mapping = "[]"]
    by (auto simp: resolve_decode_mapping_def)
  have lt: "length seen < length names" using arg_cong [OF err(1), of length] by simp
  have "List.enumerate 0 names ! length seen = (target, name)" by (simp add: err(1))
  then have at: "target = length seen" "name = names ! target"
    using lt by (auto simp: nth_enumerate_eq)
  have "(i, names ! i) \<in> set seen" if "i < target" for i
  proof -
    have "seen ! i = List.enumerate 0 names ! i" using that at(1) by (simp add: err(1) nth_append)
    also have "\<dots> = (i, names ! i)" using that at(1) lt by (simp add: nth_enumerate_eq)
    finally show ?thesis using that at(1) nth_mem [of i seen] by simp
  qed
  then have "\<forall>i < target. length (scan_matches headers (names ! i) (alternates_of aliases i)) = 1"
    using err(4) by blast
  then show ?thesis
    unfolding Err outcome.case using err(2,3) at lt by (intro exI [of _ target]) simp
qed (use scan_names_result [where headers = headers and aliases = aliases and targets = "List.enumerate 0 names" and mapping = "[]"] in
    \<open>simp_all add: resolve_decode_mapping_def\<close>)

theorem resolve_decode_mapping_result_witness:
  "list_all2 (\<lambda>(target, name) c. scan_matches [[97], [98]] name (alternates_of [] target) = [c])
     (List.enumerate 0 [[98]]) [1]"
proof -
  have "resolve_decode_mapping [[97], [98]] [[98]] [] = Ok [1]"
    by (simp add: resolve_decode_mapping_def scan_matches_def alternates_of_def get_at_def)
  then show ?thesis
    using resolve_decode_mapping_result [where headers = "[[97], [98]]" and names = "[[98]]" and aliases = "[]"]
    by simp
qed

theorem resolvers_agree_witness:
  "\<exists>t. rebuild [[97], [98]] Map.empty = Some t \<and>
     resolve_decode_mapping_indexed [[97], [98]] t [[98], [99]] [[], [[97]]] = Some (Ok [1, 0])"
proof -
  obtain t where t: "rebuild [[97], [98]] Map.empty = Some t" using rebuild_filed [of "[[97], [98]]"] by auto
  have "resolve_decode_mapping [[97], [98]] [[98], [99]] [[], [[97]]] = Ok [1, 0]"
    by (simp add: resolve_decode_mapping_def scan_matches_def alternates_of_def get_at_def)
  then show ?thesis using resolvers_agree [OF t] t by simp
qed

end
