(* ===== verification/Headers.thy ===== *)
theory Headers
  imports Columns Safety
begin

text \<open>
  Header discovery, lookup and the caches over the header record (\<open>coseva/src/engine/headers.rs\<close>,
  the header policy of \<open>engine/construct.rs\<close>, and the header part of \<open>engine/cursor.rs\<close>). A \<open>headed\<close> state is the parsing
  engine with the header fields of \<open>Engine\<close>; the Serde cache, a feature of its own, is left out. An
  operation that may build or read the lookup returns an option, \<open>None\<close> when a walk over a full key
  space does not return.
\<close>

section \<open>State\<close>

datatype headers = HeadersNone | FirstRecord | Provided "bytes list"

record headed =
  he_engine :: engine
  he_consume_first_record :: bool
  he_record :: "bytes list option"
  he_lookup :: header_lookup
  he_lookup_ready :: bool
  he_typed_mapping :: "(bytes list \<times> field_aliases \<times> typed_mapping) option"
  he_filter_column :: "(bytes \<times> nat) option"
  he_initialized :: bool

text \<open>The header policy of \<open>from_config\<close> and \<open>reset_for\<close>.\<close>

definition header_policy :: "headers \<Rightarrow> bool \<times> bytes list option \<times> bool" where
  "header_policy headers =
     (case headers of
        HeadersNone \<Rightarrow> (False, None, True)
      | FirstRecord \<Rightarrow> (True, None, False)
      | Provided names \<Rightarrow> (False, Some names, True))"

definition expected_from :: "field_count \<Rightarrow> bytes list option \<Rightarrow> nat option" where
  "expected_from policy names = (if policy = MatchFirst then map_option length names else None)"

definition headed_from_config :: "bytes \<Rightarrow> parser_settings \<Rightarrow> headers \<Rightarrow> headed" where
  "headed_from_config input s headers =
     (case header_policy headers of (consume, names, initialized) \<Rightarrow>
        \<lparr>he_engine = (engine_from_config input s)\<lparr>en_expected := expected_from (ps_field_count s) names\<rparr>,
         he_consume_first_record = consume, he_record = names, he_lookup = Map.empty,
         he_lookup_ready = False, he_typed_mapping = None, he_filter_column = None,
         he_initialized = initialized\<rparr>)"

definition on_headers_changed :: "headed \<Rightarrow> headed" where
  "on_headers_changed h =
     h\<lparr>he_lookup := lookup_clear (he_lookup h), he_lookup_ready := False, he_typed_mapping := None,
       he_filter_column := None\<rparr>"

section \<open>Discovery\<close>

text \<open>\<open>ByteRecord::copied_from\<close>, read back by name: a NULL field is empty.\<close>

definition names_of :: "(bytes option \<times> bool) list \<Rightarrow> bytes list" where
  "names_of entries = map (\<lambda>(field, is_null). if is_null then [] else case field of Some bs \<Rightarrow> bs | None \<Rightarrow> []) entries"

definition ensure_headers :: "bytes \<Rightarrow> headed \<Rightarrow> headed \<times> unit outcome" where
  "ensure_headers input h =
     (if he_initialized h then (h, Ok ())
      else
        let h1 = h\<lparr>he_initialized := True\<rparr>
        in if \<not> he_consume_first_record h then (h1, Ok ())
           else case fill_record_spans None input True (he_engine h1) of
              (e, Err er) \<Rightarrow> (h1\<lparr>he_engine := e\<rparr>, Err er)
            | (e, Panic) \<Rightarrow> (h1\<lparr>he_engine := e\<rparr>, Panic)
            | (e, Ok None) \<Rightarrow> (on_headers_changed (h1\<lparr>he_engine := e, he_record := None\<rparr>), Ok ())
            | (e, Ok (Some _)) \<Rightarrow>
                (case record_entries input e of
                   Ok entries \<Rightarrow>
                     (on_headers_changed (h1\<lparr>he_engine := e, he_record := Some (names_of entries)\<rparr>), Ok ())
                 | Err er \<Rightarrow> (h1\<lparr>he_engine := e\<rparr>, Err er)
                 | Panic \<Rightarrow> (h1\<lparr>he_engine := e\<rparr>, Panic)))"

text \<open>What follows a successful \<open>ensure_headers\<close>.\<close>

definition with_headers ::
    "bytes \<Rightarrow> (headed \<Rightarrow> (headed \<times> 'a outcome) option) \<Rightarrow> headed \<Rightarrow> (headed \<times> 'a outcome) option" where
  "with_headers input f h =
     (case ensure_headers input h of
        (h1, Ok _) \<Rightarrow> f h1
      | (h1, Err er) \<Rightarrow> Some (h1, Err er)
      | (h1, Panic) \<Rightarrow> Some (h1, Panic))"

definition set_headers :: "bytes list \<Rightarrow> headed \<Rightarrow> headed" where
  "set_headers names h =
     (let e = he_engine h;
          e1 = (if en_field_count e = MatchFirst then e\<lparr>en_expected := Some (length names)\<rparr> else e)
      in on_headers_changed (h\<lparr>he_engine := e1, he_consume_first_record := False, he_record := Some names,
           he_initialized := True\<rparr>))"

definition has_headers :: "headed \<Rightarrow> bool" where
  "has_headers h \<longleftrightarrow> he_consume_first_record h \<or> he_record h \<noteq> None"

definition reset_headers :: "headed \<Rightarrow> headed" where
  "reset_headers h =
     (let h1 = (if he_consume_first_record h
                then on_headers_changed (h\<lparr>he_record := None, he_initialized := False\<rparr>) else h)
      in if en_field_count (he_engine h1) = MatchFirst
         then h1\<lparr>he_engine := (he_engine h1)\<lparr>en_expected := map_option length (he_record h1)\<rparr>\<rparr> else h1)"

section \<open>Lookup by name\<close>

definition ensure_header_lookup :: "headed \<Rightarrow> headed option" where
  "ensure_header_lookup h =
     (if he_lookup_ready h then Some h
      else
        let h1 = h\<lparr>he_lookup_ready := True\<rparr>
        in case he_record h1 of
             None \<Rightarrow> Some h1
           | Some names \<Rightarrow> map_option (\<lambda>t. h1\<lparr>he_lookup := t\<rparr>) (rebuild names (he_lookup h1)))"

definition header_slots_of :: "bytes \<Rightarrow> headed \<Rightarrow> (headed \<times> header_slots option) option" where
  "header_slots_of name h =
     Option.bind (ensure_header_lookup h) (\<lambda>h1.
       case he_record h1 of
         None \<Rightarrow> Some (h1, None)
       | Some names \<Rightarrow> map_option (Pair h1) (lookup_get names (he_lookup h1) name))"

definition header_index :: "bytes \<Rightarrow> bytes \<Rightarrow> headed \<Rightarrow> (headed \<times> nat option outcome) option" where
  "header_index input name =
     with_headers input (\<lambda>h. map_option (\<lambda>(h1, slots). (h1, Ok (map_option slots_first slots))) (header_slots_of name h))"

definition header_indices :: "bytes \<Rightarrow> bytes \<Rightarrow> headed \<Rightarrow> (headed \<times> nat list outcome) option" where
  "header_indices input name =
     with_headers input (\<lambda>h. map_option (\<lambda>(h1, slots).
       (h1, Ok (case slots of None \<Rightarrow> [] | Some s \<Rightarrow> slots_list s))) (header_slots_of name h))"

definition headers_of :: "bytes \<Rightarrow> headed \<Rightarrow> (headed \<times> bytes list option outcome) option" where
  "headers_of input = with_headers input (\<lambda>h. Some (h, Ok (he_record h)))"

section \<open>The column of a filter\<close>

datatype column = Index nat | Name bytes

definition cached_filter_column :: "bytes \<Rightarrow> headed \<Rightarrow> nat option" where
  "cached_filter_column name h =
     (case he_filter_column h of
        None \<Rightarrow> None
      | Some (cached, column) \<Rightarrow> if cached = name then Some column else None)"

definition store_filter_column :: "bytes \<Rightarrow> nat \<Rightarrow> headed \<Rightarrow> headed" where
  "store_filter_column name column h = h\<lparr>he_filter_column := Some (name, column)\<rparr>"

definition resolve_filter_column :: "column \<Rightarrow> headed \<Rightarrow> (headed \<times> nat option) option" where
  "resolve_filter_column column h =
     (case column of
        Index i \<Rightarrow> Some (h, Some i)
      | Name name \<Rightarrow>
          (case cached_filter_column name h of
             Some c \<Rightarrow> Some (h, Some c)
           | None \<Rightarrow>
               map_option (\<lambda>(h1, slots).
                 case map_option slots_first slots of
                   None \<Rightarrow> (h1, None)
                 | Some c \<Rightarrow> (store_filter_column name c h1, Some c)) (header_slots_of name h)))"

section \<open>Typed mappings\<close>

definition engine_location :: "engine \<Rightarrow> bytes \<Rightarrow> location" where
  "engine_location e input =
     \<lparr>loc_byte = en_location e, loc_line = physical_line input (en_line_base e) (en_line_origin e) (en_location e),
      loc_record = en_record_index e, loc_field = 0\<rparr>"

text \<open>Re-keying the cache with equal names leaves it as it is.\<close>

definition cached_typed_mapping :: "bytes list \<Rightarrow> field_aliases \<Rightarrow> headed \<Rightarrow> typed_mapping option" where
  "cached_typed_mapping names aliases h =
     (case he_typed_mapping h of
        None \<Rightarrow> None
      | Some (cached_names, cached_aliases, mapping) \<Rightarrow>
          if cached_names \<noteq> names \<or> cached_aliases \<noteq> aliases then None else Some mapping)"

definition compute_typed_mapping ::
    "bytes list \<Rightarrow> field_aliases \<Rightarrow> headed \<Rightarrow> (headed \<times> typed_mapping outcome) option" where
  "compute_typed_mapping names aliases h =
     (case he_record h of
        None \<Rightarrow> Some (h, Ok Identity)
      | Some headers \<Rightarrow>
          if wide_mapping (length names) (length headers)
          then Option.bind (ensure_header_lookup h) (\<lambda>h1.
                 map_option (\<lambda>r. (h1, map_ok (\<lambda>m. typed_mapping_from m (length headers)) r))
                   (resolve_decode_mapping_indexed headers (he_lookup h1) names aliases))
          else Some (h, map_ok (\<lambda>m. typed_mapping_from m (length headers))
                 (resolve_decode_mapping headers names aliases)))"

definition resolve_typed_mapping ::
    "bytes \<Rightarrow> bytes list \<Rightarrow> field_aliases \<Rightarrow> headed \<Rightarrow> (headed \<times> typed_mapping outcome) option" where
  "resolve_typed_mapping input names aliases =
     with_headers input (\<lambda>h.
       case cached_typed_mapping names aliases h of
         Some mapping \<Rightarrow> Some (h, Ok mapping)
       | None \<Rightarrow>
           map_option (\<lambda>(h1, r).
             case r of
               Ok mapping \<Rightarrow> (h1\<lparr>he_typed_mapping := Some (names, aliases, mapping)\<rparr>, Ok mapping)
             | Err er \<Rightarrow> (h1, Err (error_at er (engine_location (he_engine h1) input)))
             | Panic \<Rightarrow> (h1, Panic)) (compute_typed_mapping names aliases h))"

definition resolve_optional_typed_mapping ::
    "bytes \<Rightarrow> bytes list \<Rightarrow> field_aliases \<Rightarrow> headed \<Rightarrow> (headed \<times> typed_mapping outcome) option" where
  "resolve_optional_typed_mapping input names aliases h =
     (case (if he_initialized h then cached_typed_mapping names aliases h else None) of
        Some mapping \<Rightarrow> Some (h, Ok mapping)
      | None \<Rightarrow>
          with_headers input (\<lambda>h1.
            if he_record h1 = None then Some (h1, Ok Identity)
            else resolve_typed_mapping input names aliases h1) h)"

section \<open>Repositioning\<close>

definition seek_to_exact :: "nat \<Rightarrow> nat \<Rightarrow> nat \<Rightarrow> engine \<Rightarrow> engine" where
  "seek_to_exact byte line rec e =
     e\<lparr>en_location := byte, en_line_base := line, en_line_origin := byte, en_folded_upto := byte,
       en_folded_lines := 0, en_record_index := rec, en_resume := resume_new, en_failed := False,
       en_terminated := False\<rparr>"

section \<open>The caches agree with the headers\<close>

definition mapping_for :: "bytes list option \<Rightarrow> bytes list \<Rightarrow> field_aliases \<Rightarrow> typed_mapping outcome" where
  "mapping_for record names aliases =
     (case record of
        None \<Rightarrow> Ok Identity
      | Some headers \<Rightarrow>
          map_ok (\<lambda>m. typed_mapping_from m (length headers)) (resolve_decode_mapping headers names aliases))"

definition named_columns :: "bytes list option \<Rightarrow> bytes \<Rightarrow> nat list" where
  "named_columns record name = (case record of None \<Rightarrow> [] | Some headers \<Rightarrow> columns_of headers name)"

definition engine_ok :: "bytes \<Rightarrow> engine \<Rightarrow> bool" where
  "engine_ok input e \<longleftrightarrow>
     en_failed e \<or> engine_wf e \<and> en_location e \<le> length input \<and> max_fields (en_limits e) < 2 ^ 64"

definition lookup_ok :: "bytes list option \<Rightarrow> bool \<Rightarrow> header_lookup \<Rightarrow> bool" where
  "lookup_ok heading ready t \<longleftrightarrow>
     (case heading of None \<Rightarrow> True
      | Some headers \<Rightarrow> length headers < 2 ^ 64 \<and> (ready \<longrightarrow> filed headers (length headers) t))"

definition mapping_ok :: "bytes list option \<Rightarrow> (bytes list \<times> field_aliases \<times> typed_mapping) option \<Rightarrow> bool" where
  "mapping_ok heading cached \<longleftrightarrow>
     (case cached of None \<Rightarrow> True | Some (names, aliases, m) \<Rightarrow> mapping_for heading names aliases = Ok m)"

definition filter_ok :: "bytes list option \<Rightarrow> (bytes \<times> nat) option \<Rightarrow> bool" where
  "filter_ok heading cached \<longleftrightarrow>
     (case cached of None \<Rightarrow> True
      | Some (name, c) \<Rightarrow> named_columns heading name \<noteq> [] \<and> hd (named_columns heading name) = c)"

definition coherent :: "headed \<Rightarrow> bool" where
  "coherent h \<longleftrightarrow>
     lookup_ok (he_record h) (he_lookup_ready h) (he_lookup h) \<and>
     mapping_ok (he_record h) (he_typed_mapping h) \<and> filter_ok (he_record h) (he_filter_column h)"

lemmas cache_ok = lookup_ok_def mapping_ok_def filter_ok_def

lemma coherent_changed [simp]:
  "coherent (on_headers_changed h) \<longleftrightarrow>
     (case he_record h of None \<Rightarrow> True | Some headers \<Rightarrow> length headers < 2 ^ 64)"
  by (simp add: coherent_def cache_ok on_headers_changed_def split: option.split)

lemma coherent_updates [simp]:
  "coherent (h\<lparr>he_engine := e\<rparr>) = coherent h" "coherent (h\<lparr>he_initialized := b\<rparr>) = coherent h"
  "coherent (h\<lparr>he_consume_first_record := b\<rparr>) = coherent h"
  by (simp_all add: coherent_def)

lemma headers_changed_simps [simp]:
  "he_engine (on_headers_changed h) = he_engine h" "he_record (on_headers_changed h) = he_record h"
  "he_initialized (on_headers_changed h) = he_initialized h"
  by (simp_all add: on_headers_changed_def)

lemma fill_record_engine_ok:
  assumes "engine_ok input e" "format_matches opts e" "fill_record_spans opts input header e = (e', r)" "r \<noteq> Panic"
  shows "engine_ok input e'"
    "r = Ok (Some x) \<Longrightarrow> \<exists>entries. record_entries input e' = Ok entries \<and> length entries < 2 ^ 64"
proof -
  have "engine_ok input e' \<and> (\<forall>x. r = Ok (Some x) \<longrightarrow>
      (\<exists>entries. record_entries input e' = Ok entries \<and> length entries < 2 ^ 64))"
  proof (cases "en_failed e")
    case True
    then show ?thesis using assms(1,3) by (auto simp: fill_record_spans_def)
  next
    case False
    then have ok: "engine_wf e" "en_location e \<le> length input" "max_fields (en_limits e) < 2 ^ 64"
      using assms(1) by (simp_all add: engine_ok_def)
    note result = fill_record_result [OF ok(1) assms(2) ok(2), of header, unfolded assms(3)]
    show ?thesis
    proof (cases r)
      case (Ok x)
      show ?thesis
      proof (cases x)
        case None
        let ?e = "if en_skips_records e then skip_ignored_records input e else e"
        have "skips input e ?e" using skip_ignored_skips ok(1) by (simp add: engine_wf_def)
        note sk = skips_config [OF this]
        have "e' = ?e" using assms(3) False Ok None
          by (auto simp: fill_record_spans_def Let_def bind_step_def return_step_def split: if_splits prod.splits outcome.splits)
        then show ?thesis using sk(1,3) ok result Ok None by (simp add: engine_ok_def)
      next
        case (Some y)
        obtain origin until i where y: "y = ((origin, until), i)" by (metis prod.collapse)
        have facts: "until = en_location e'" "record_accepted input e origin until e'" "engine_wf e'" "en_limits e' = en_limits e"
          using result unfolding Ok Some y outcome.case option.case prod.case by blast+
        then obtain fs where "record_entries input e' = Ok (map (\<lambda>(bs, null). (Some bs, null)) fs)"
            "length fs \<le> max_fields (en_limits e)" "until \<le> length input"
          unfolding record_accepted_def by blast
        then show ?thesis using facts ok(3) by (simp add: engine_ok_def)
      qed
    qed (use result assms(4) in \<open>simp_all add: engine_ok_def\<close>)
  qed
  then show "engine_ok input e'"
    "r = Ok (Some x) \<Longrightarrow> \<exists>entries. record_entries input e' = Ok entries \<and> length entries < 2 ^ 64"
    by blast+
qed

lemma length_names_of [simp]: "length (names_of entries) = length entries"
  by (simp add: names_of_def)

lemma ensure_headers_keeps:
  assumes "coherent h" "engine_ok input (he_engine h)" "ensure_headers input h = (h', r)" "r \<noteq> Panic"
  shows "coherent h' \<and> engine_ok input (he_engine h') \<and> he_initialized h'"
proof (cases "he_initialized h \<or> \<not> he_consume_first_record h")
  case True
  then show ?thesis using assms by (auto simp: ensure_headers_def split: if_splits)
next
  case False
  obtain e r' where fill: "fill_record_spans None input True (he_engine h) = (e, r')" by fastforce
  have "r' \<noteq> Panic" using assms(3,4) False fill by (auto simp: ensure_headers_def)
  note kept = fill_record_engine_ok [OF assms(2) format_matches_None fill this]
  show ?thesis
  proof (cases r')
    case (Ok x)
    show ?thesis
    proof (cases x)
      case (Some y)
      then obtain entries where "record_entries input e = Ok entries" "length entries < 2 ^ 64" using kept(2) Ok by blast
      then show ?thesis using assms False fill Ok Some kept(1) by (auto simp: ensure_headers_def)
    qed (use assms False fill Ok kept(1) in \<open>auto simp: ensure_headers_def\<close>)
  qed (use assms False fill kept(1) in \<open>auto simp: ensure_headers_def\<close>)
qed

lemma with_headers_cases:
  assumes "coherent h" "engine_ok input (he_engine h)"
  obtains (ready) h1 where "with_headers input f h = f h1" "ensure_headers input h = (h1, Ok ())"
      "coherent h1" "engine_ok input (he_engine h1)" "he_initialized h1"
    | (refused) h1 er where "with_headers input f h = Some (h1, Err er)" "ensure_headers input h = (h1, Err er)"
      "coherent h1" "engine_ok input (he_engine h1)"
    | (panicked) h1 where "with_headers input f h = Some (h1, Panic)" "ensure_headers input h = (h1, Panic)"
proof (cases "ensure_headers input h")
  case (Pair h1 r)
  show ?thesis
  proof (cases r)
    case (Ok u)
    then show ?thesis
      using ready [of h1] ensure_headers_keeps [OF assms Pair] Pair by (simp add: with_headers_def)
  next
    case (Err er)
    then show ?thesis
      using refused [of h1 er] ensure_headers_keeps [OF assms Pair] Pair by (simp add: with_headers_def)
  next
    case Panic
    then show ?thesis using panicked [of h1] Pair by (simp add: with_headers_def)
  qed
qed

text \<open>Building the lookup changes nothing else.\<close>

definition same_headers :: "headed \<Rightarrow> headed \<Rightarrow> bool" where
  "same_headers h h1 \<longleftrightarrow>
     he_engine h1 = he_engine h \<and> he_record h1 = he_record h \<and> he_initialized h1 = he_initialized h"

lemma ensure_header_lookup_keeps:
  assumes "coherent h"
  obtains h1 where "ensure_header_lookup h = Some h1" "coherent h1" "same_headers h h1" "he_lookup_ready h1"
proof (cases "he_lookup_ready h")
  case True
  then show ?thesis using that [of h] assms by (simp add: ensure_header_lookup_def same_headers_def)
next
  case False
  show ?thesis
  proof (cases "he_record h")
    case None
    show ?thesis
      using that [of "h\<lparr>he_lookup_ready := True\<rparr>"] assms False None
      by (simp add: ensure_header_lookup_def same_headers_def coherent_def lookup_ok_def)
  next
    case (Some names)
    then have "length names < 2 ^ 64" using assms by (simp add: coherent_def lookup_ok_def)
    then obtain t where t: "rebuild names (he_lookup h) = Some t" "filed names (length names) t"
      using rebuild_filed by blast
    show ?thesis
      using that [of "h\<lparr>he_lookup_ready := True, he_lookup := t\<rparr>"] assms False Some t
      by (simp add: ensure_header_lookup_def same_headers_def coherent_def lookup_ok_def)
  qed
qed

lemma header_slots_answer:
  assumes "coherent h"
  obtains h1 r where "header_slots_of name h = Some (h1, r)" "coherent h1" "same_headers h h1"
    "(case r of None \<Rightarrow> [] | Some s \<Rightarrow> slots_list s) = named_columns (he_record h) name"
    "map_option slots_first r =
      (if named_columns (he_record h) name = [] then None else Some (hd (named_columns (he_record h) name)))"
proof -
  obtain h1 where h1: "ensure_header_lookup h = Some h1" "coherent h1" "same_headers h h1" "he_lookup_ready h1"
    using ensure_header_lookup_keeps [OF assms] by blast
  show ?thesis
  proof (cases "he_record h1")
    case None
    then show ?thesis
      using that [of h1 None] h1 by (simp add: header_slots_of_def same_headers_def named_columns_def)
  next
    case (Some names)
    then have filed: "filed names (length names) (he_lookup h1)" "length names < 2 ^ 64"
      using h1 by (simp_all add: coherent_def lookup_ok_def)
    obtain r where r: "lookup_get names (he_lookup h1) name = Some r"
        "map_option slots_list r = (if columns_of names name = [] then None else Some (columns_of names name))"
      using filed_get [OF filed] by blast
    have names: "he_record h = Some names" using Some h1(3) by (simp add: same_headers_def)
    show ?thesis
    proof (rule that [of h1 r])
      show "header_slots_of name h = Some (h1, r)" using h1(1) Some r(1) by (simp add: header_slots_of_def)
      show "(case r of None \<Rightarrow> [] | Some s \<Rightarrow> slots_list s) = named_columns (he_record h) name"
        using r(2) names by (auto simp: named_columns_def split: if_splits option.splits)
      show "map_option slots_first r =
          (if named_columns (he_record h) name = [] then None else Some (hd (named_columns (he_record h) name)))"
        using r(2) names slots_first_hd by (auto simp: named_columns_def split: if_splits)
    qed (use h1 in auto)
  qed
qed

lemma compute_typed_mapping_answer:
  assumes "coherent h"
  obtains h1 where "compute_typed_mapping names aliases h = Some (h1, mapping_for (he_record h) names aliases)"
    "coherent h1" "same_headers h h1"
proof (cases "\<exists>headers. he_record h = Some headers \<and> wide_mapping (length names) (length headers)")
  case True
  then obtain headers where wide: "he_record h = Some headers" "wide_mapping (length names) (length headers)" by blast
  obtain h1 where h1: "ensure_header_lookup h = Some h1" "coherent h1" "same_headers h h1" "he_lookup_ready h1"
    using ensure_header_lookup_keeps [OF assms] by blast
  then have "filed headers (length headers) (he_lookup h1)" "length headers < 2 ^ 64"
    using wide(1) by (simp_all add: coherent_def lookup_ok_def same_headers_def)
  then have "resolve_decode_mapping_indexed headers (he_lookup h1) names aliases =
      Some (resolve_decode_mapping headers names aliases)"
    using query_names_scan by (simp add: resolve_decode_mapping_indexed_def resolve_decode_mapping_def)
  then show ?thesis using that [of h1] wide h1 by (simp add: compute_typed_mapping_def mapping_for_def)
next
  case False
  then show ?thesis
    using that [of h] assms
    by (auto simp: compute_typed_mapping_def mapping_for_def same_headers_def split: option.splits)
qed

section \<open>Every operation keeps the caches\<close>

lemma store_filter_keeps:
  assumes "coherent h" "named_columns (he_record h) name \<noteq> []" "hd (named_columns (he_record h) name) = c"
  shows "coherent (store_filter_column name c h)"
  using assms by (simp add: coherent_def filter_ok_def store_filter_column_def)

lemma same_headers_keep: "same_headers h h1 \<Longrightarrow> engine_ok input (he_engine h) \<Longrightarrow> engine_ok input (he_engine h1)"
  by (simp add: same_headers_def)

lemma resolve_filter_column_answer:
  assumes "coherent h"
  obtains h1 where "resolve_filter_column column h = Some (h1, case column of Index i \<Rightarrow> Some i
      | Name name \<Rightarrow> (if named_columns (he_record h) name = [] then None else Some (hd (named_columns (he_record h) name))))"
    "coherent h1" "same_headers h h1"
proof (cases column)
  case (Index i)
  then show ?thesis using that [of h] assms by (simp add: resolve_filter_column_def same_headers_def)
next
  case (Name name)
  show ?thesis
  proof (cases "cached_filter_column name h")
    case (Some c)
    then show ?thesis
      using that [of h] assms Name
      by (auto simp: resolve_filter_column_def cached_filter_column_def same_headers_def coherent_def filter_ok_def
          split: option.splits if_splits)
  next
    case None
    obtain h1 r where slots: "header_slots_of name h = Some (h1, r)" "coherent h1" "same_headers h h1"
      "map_option slots_first r =
        (if named_columns (he_record h) name = [] then None else Some (hd (named_columns (he_record h) name)))"
      using header_slots_answer [OF assms] by metis
    then have "coherent (store_filter_column name c h1)" if "map_option slots_first r = Some c" for c
      using store_filter_keeps [OF slots(2)] that by (simp add: same_headers_def split: if_splits)
    then show ?thesis
      using that [of h1] that [of "store_filter_column name (hd (named_columns (he_record h) name)) h1"]
        slots None Name
      by (auto simp: resolve_filter_column_def same_headers_def store_filter_column_def split: if_splits)
  qed
qed

lemma cached_mapping_for:
  assumes "coherent h" "cached_typed_mapping names aliases h = Some m"
  shows "mapping_for (he_record h) names aliases = Ok m"
  using assms by (auto simp: cached_typed_mapping_def coherent_def mapping_ok_def split: option.splits if_splits)

text \<open>The error of a mapping is placed where the parser stands.\<close>

fun located :: "location \<Rightarrow> 'a outcome \<Rightarrow> 'a outcome" where
  "located l (Ok x) = Ok x"
| "located l (Err er) = Err (error_at er l)"
| "located l Panic = Panic"

lemma mapping_never_panics: "mapping_for heading names aliases \<noteq> Panic"
proof -
  have "resolve_decode_mapping headers names aliases \<noteq> Panic" for headers
  proof
    assume "resolve_decode_mapping headers names aliases = Panic"
    then show False using resolve_decode_mapping_result [where headers = headers and names = names and aliases = aliases] by simp
  qed
  then show ?thesis by (simp add: mapping_for_def split: option.split)
qed

text \<open>
  The operations a reader performs on the headers of one window; a refused operation leaves its state
  too. Reading a record changes the engine only.
\<close>

inductive header_step :: "bytes \<Rightarrow> headed \<Rightarrow> headed \<Rightarrow> bool" for input where
  step_discover: "ensure_headers input h = (h', r) \<Longrightarrow> r \<noteq> Panic \<Longrightarrow> header_step input h h'"
| step_set: "length names < 2 ^ 64 \<Longrightarrow> header_step input h (set_headers names h)"
| step_reset: "header_step input h (reset_headers h)"
| step_index: "header_index input name h = Some (h', r) \<Longrightarrow> r \<noteq> Panic \<Longrightarrow> header_step input h h'"
| step_indices: "header_indices input name h = Some (h', r) \<Longrightarrow> r \<noteq> Panic \<Longrightarrow> header_step input h h'"
| step_filter: "resolve_filter_column column h = Some (h', c) \<Longrightarrow> header_step input h h'"
| step_mapping: "resolve_typed_mapping input names aliases h = Some (h', r) \<Longrightarrow> r \<noteq> Panic \<Longrightarrow>
    header_step input h h'"
| step_optional: "resolve_optional_typed_mapping input names aliases h = Some (h', r) \<Longrightarrow> r \<noteq> Panic \<Longrightarrow>
    header_step input h h'"
| step_read: "fill_record_spans opts input False (he_engine h) = (e, r) \<Longrightarrow> format_matches opts (he_engine h) \<Longrightarrow>
    r \<noteq> Panic \<Longrightarrow> header_step input h (h\<lparr>he_engine := e\<rparr>)"

inductive header_run :: "bytes \<Rightarrow> headed \<Rightarrow> bool" for input where
  run_new: "engine_wf (engine_from_config input s) \<Longrightarrow> max_fields (ps_limits s) < 2 ^ 64 \<Longrightarrow>
    (\<forall>names. headers = Provided names \<longrightarrow> length names < 2 ^ 64) \<Longrightarrow>
    header_run input (headed_from_config input s headers)"
| run_step: "header_run input h \<Longrightarrow> header_step input h h' \<Longrightarrow> header_run input h'"

lemma engine_wf_expected [simp]: "engine_wf (e\<lparr>en_expected := x\<rparr>) = engine_wf e"
  by (simp add: engine_wf_def format_matches_def cong: option.case_cong)

lemma engine_ok_expected [simp]: "engine_ok input (e\<lparr>en_expected := x\<rparr>) = engine_ok input e"
  by (simp add: engine_ok_def)

lemma headed_from_config_ok:
  assumes "engine_wf (engine_from_config input s)" "max_fields (ps_limits s) < 2 ^ 64"
    "\<forall>names. headers = Provided names \<longrightarrow> length names < 2 ^ 64"
  shows "coherent (headed_from_config input s headers) \<and> engine_ok input (he_engine (headed_from_config input s headers))"
proof -
  let ?e = "engine_from_config input s"
  have "starts_with input BOM \<Longrightarrow> 3 \<le> length input"
    by (auto simp: starts_with_def dest: arg_cong [of _ _ length])
  then have "en_location ?e \<le> length input" "en_limits ?e = ps_limits s" by (simp_all add: engine_from_config_def)
  then have "engine_ok input ?e" using assms(1,2) by (simp add: engine_ok_def)
  then show ?thesis
    using assms(3) by (cases headers) (simp_all add: headed_from_config_def header_policy_def coherent_def cache_ok)
qed

lemma set_headers_keeps:
  assumes "engine_ok input (he_engine h)" "length names < 2 ^ 64"
  shows "coherent (set_headers names h) \<and> engine_ok input (he_engine (set_headers names h))"
  using assms by (simp add: set_headers_def Let_def)

lemma reset_headers_keeps:
  assumes "coherent h" "engine_ok input (he_engine h)"
  shows "coherent (reset_headers h) \<and> engine_ok input (he_engine (reset_headers h))"
  using assms by (simp add: reset_headers_def Let_def)

section \<open>Answers after discovery\<close>

text \<open>What an operation answers once the headers are discovered: an error of the discovery comes first.\<close>

definition after_headers :: "bytes \<Rightarrow> (headed \<Rightarrow> 'a outcome) \<Rightarrow> headed \<Rightarrow> 'a outcome" where
  "after_headers input spec h =
     (case ensure_headers input h of (h1, Ok _) \<Rightarrow> spec h1 | (_, Err er) \<Rightarrow> Err er | (_, Panic) \<Rightarrow> Panic)"

definition kept :: "bytes \<Rightarrow> headed \<Rightarrow> headed \<Rightarrow> bool" where
  "kept input h h' \<longleftrightarrow>
     coherent h' \<and> engine_ok input (he_engine h') \<and> same_headers (fst (ensure_headers input h)) h'"

locale header_query =
  fixes op :: "headed \<Rightarrow> (headed \<times> 'a outcome) option" and spec :: "bytes list option \<Rightarrow> location \<Rightarrow> 'a outcome"
    and input :: bytes
  assumes op_answer: "coherent h \<Longrightarrow> he_initialized h \<Longrightarrow> \<exists>h'. op h = Some (h', spec (he_record h) (engine_location (he_engine h) input)) \<and>
    coherent h' \<and> same_headers h h'"
begin

abbreviation answer :: "headed \<Rightarrow> 'a outcome" where
  "answer h \<equiv> after_headers input (\<lambda>h1. spec (he_record h1) (engine_location (he_engine h1) input)) h"

lemma answered:
  assumes "coherent h" "engine_ok input (he_engine h)"
  shows "\<exists>h'. with_headers input op h = Some (h', answer h) \<and> (answer h \<noteq> Panic \<longrightarrow> kept input h h')"
  using assms
proof (cases rule: with_headers_cases [where f = op])
  case (ready h1)
  then obtain h2 where "op h1 = Some (h2, spec (he_record h1) (engine_location (he_engine h1) input))"
      "coherent h2" "same_headers h1 h2"
    using op_answer by blast
  then show ?thesis using ready same_headers_keep by (auto simp: after_headers_def kept_def)
qed (auto simp: after_headers_def kept_def same_headers_def)

lemma answered_keeps:
  assumes "coherent h" "engine_ok input (he_engine h)" "with_headers input op h = Some (h', r)" "r \<noteq> Panic"
  shows "coherent h' \<and> engine_ok input (he_engine h')"
  using answered [OF assms(1,2)] assms(3,4) by (auto simp: kept_def)

end

definition index_answer :: "bytes list option \<Rightarrow> bytes \<Rightarrow> nat option" where
  "index_answer heading name =
     (if named_columns heading name = [] then None else Some (hd (named_columns heading name)))"

interpretation index: header_query
  "\<lambda>h. map_option (\<lambda>(h1, slots). (h1, Ok (map_option slots_first slots))) (header_slots_of name h)"
  "\<lambda>heading _. Ok (index_answer heading name)" input for name input
proof
  fix h assume "coherent h"
  then show "\<exists>h'. map_option (\<lambda>(h1, slots). (h1, Ok (map_option slots_first slots))) (header_slots_of name h) =
      Some (h', Ok (index_answer (he_record h) name)) \<and> coherent h' \<and> same_headers h h'"
    by (rule header_slots_answer [of h name]) (auto simp: index_answer_def)
qed

interpretation indices: header_query
  "\<lambda>h. map_option (\<lambda>(h1, slots). (h1, Ok (case slots of None \<Rightarrow> [] | Some s \<Rightarrow> slots_list s))) (header_slots_of name h)"
  "\<lambda>heading _. Ok (named_columns heading name)" input for name input
proof
  fix h assume "coherent h"
  then show "\<exists>h'. map_option (\<lambda>(h1, slots). (h1, Ok (case slots of None \<Rightarrow> [] | Some s \<Rightarrow> slots_list s)))
        (header_slots_of name h) =
      Some (h', Ok (named_columns (he_record h) name)) \<and> coherent h' \<and> same_headers h h'"
    by (rule header_slots_answer [of h name]) auto
qed

text \<open>The part of \<open>resolve_typed_mapping\<close> after discovery.\<close>

abbreviation mapping_lookup :: "bytes \<Rightarrow> bytes list \<Rightarrow> field_aliases \<Rightarrow> headed \<Rightarrow> (headed \<times> typed_mapping outcome) option" where
  "mapping_lookup input names aliases \<equiv> (\<lambda>h.
     case cached_typed_mapping names aliases h of
       Some mapping \<Rightarrow> Some (h, Ok mapping)
     | None \<Rightarrow>
         map_option (\<lambda>(h1, r).
           case r of
             Ok mapping \<Rightarrow> (h1\<lparr>he_typed_mapping := Some (names, aliases, mapping)\<rparr>, Ok mapping)
           | Err er \<Rightarrow> (h1, Err (error_at er (engine_location (he_engine h1) input)))
           | Panic \<Rightarrow> (h1, Panic)) (compute_typed_mapping names aliases h))"

lemma mapping_lookup_answer:
  assumes "coherent h"
  shows "\<exists>h'. mapping_lookup input names aliases h =
      Some (h', located (engine_location (he_engine h) input) (mapping_for (he_record h) names aliases)) \<and>
    coherent h' \<and> same_headers h h'"
proof (cases "cached_typed_mapping names aliases h")
  case (Some m)
  then show ?thesis using cached_mapping_for [OF assms Some] assms by (simp add: same_headers_def)
next
  case None
  obtain h1 where h1: "compute_typed_mapping names aliases h = Some (h1, mapping_for (he_record h) names aliases)"
    "coherent h1" "same_headers h h1"
    using compute_typed_mapping_answer [OF assms] by blast
  have "coherent (h1\<lparr>he_typed_mapping := Some (names, aliases, m)\<rparr>)"
    if "mapping_for (he_record h) names aliases = Ok m" for m
    using h1(2,3) that by (simp add: coherent_def mapping_ok_def same_headers_def)
  then show ?thesis
    using None h1 mapping_never_panics [of "he_record h" names aliases]
    by (cases "mapping_for (he_record h) names aliases") (auto simp: same_headers_def)
qed

abbreviation mapping_answer :: "bytes \<Rightarrow> bytes list \<Rightarrow> field_aliases \<Rightarrow> headed \<Rightarrow> typed_mapping outcome" where
  "mapping_answer input names aliases \<equiv> after_headers input (\<lambda>h.
     located (engine_location (he_engine h) input) (mapping_for (he_record h) names aliases))"

interpretation typed: header_query "mapping_lookup input names aliases"
  "\<lambda>heading l. located l (mapping_for heading names aliases)" input for input names aliases
  by unfold_locales (rule mapping_lookup_answer)

interpretation optional: header_query
  "\<lambda>h. if he_record h = None then Some (h, Ok Identity) else resolve_typed_mapping input names aliases h"
  "\<lambda>heading l. located l (mapping_for heading names aliases)" input for input names aliases
proof
  fix h assume c: "coherent h"
  assume init: "he_initialized h"
  have "with_headers input f h = f h" for f :: "headed \<Rightarrow> (headed \<times> 'b outcome) option"
    using init by (simp add: with_headers_def ensure_headers_def)
  then have "resolve_typed_mapping input names aliases h = mapping_lookup input names aliases h"
    by (simp add: resolve_typed_mapping_def)
  then show "\<exists>h'. (if he_record h = None then Some (h, Ok Identity) else resolve_typed_mapping input names aliases h) =
      Some (h', located (engine_location (he_engine h) input) (mapping_for (he_record h) names aliases)) \<and>
    coherent h' \<and> same_headers h h'"
    using mapping_lookup_answer [OF c] c by (auto simp: mapping_for_def same_headers_def)
qed

lemma optional_after_discovery:
  assumes "coherent h" "engine_ok input (he_engine h)"
  shows "\<exists>h'. resolve_optional_typed_mapping input names aliases h = Some (h', mapping_answer input names aliases h) \<and>
    (mapping_answer input names aliases h \<noteq> Panic \<longrightarrow> kept input h h')"
proof (cases "if he_initialized h then cached_typed_mapping names aliases h else None")
  case (Some m)
  then have init: "he_initialized h" and m: "cached_typed_mapping names aliases h = Some m" by (auto split: if_splits)
  then show ?thesis
    using cached_mapping_for [OF assms(1) m] assms
    by (auto simp: resolve_optional_typed_mapping_def after_headers_def ensure_headers_def kept_def same_headers_def)
next
  case None
  then show ?thesis using optional.answered [OF assms] by (simp add: resolve_optional_typed_mapping_def)
qed

section \<open>The theorems\<close>

lemma header_step_keeps:
  assumes "header_step input h h'" "coherent h" "engine_ok input (he_engine h)"
  shows "coherent h' \<and> engine_ok input (he_engine h')"
  using assms
proof (induction rule: header_step.induct)
  case (step_discover h h' r)
  then show ?case using ensure_headers_keeps by blast
next
  case (step_set names h)
  then show ?case using set_headers_keeps by blast
next
  case (step_reset h)
  then show ?case using reset_headers_keeps by blast
next
  case (step_index name h h' r)
  then show ?case using index.answered_keeps unfolding header_index_def by blast
next
  case (step_indices name h h' r)
  then show ?case using indices.answered_keeps unfolding header_indices_def by blast
next
  case (step_filter column h h' c)
  show ?case
    by (rule resolve_filter_column_answer [OF step_filter(2), of column])
      (use step_filter same_headers_keep in auto)
next
  case (step_mapping names aliases h h' r)
  then show ?case using typed.answered_keeps unfolding resolve_typed_mapping_def by blast
next
  case (step_optional names aliases h h' r)
  then show ?case using optional_after_discovery [OF step_optional(3,4), of names aliases] by (auto simp: kept_def)
next
  case (step_read opts h e r)
  then show ?case using fill_record_engine_ok(1) by auto
qed

lemma header_run_ok: "header_run input h \<Longrightarrow> coherent h \<and> engine_ok input (he_engine h)"
proof (induction rule: header_run.induct)
  case (run_new s headers)
  then show ?case using headed_from_config_ok by blast
next
  case (run_step h h')
  then show ?case using header_step_keeps by blast
qed

text \<open>
  C24: Whatever a parser did before, asking for a header name answers from the headers in force: the
  first column, and all columns, that carry the name. The lazily built lookup and its reuse across
  calls never show.
\<close>

theorem header_names_answered:
  assumes "header_run input h"
  shows "\<exists>h1 h2.
    header_index input name h = Some (h1, after_headers input (\<lambda>h'. Ok (index_answer (he_record h') name)) h) \<and>
    header_indices input name h = Some (h2, after_headers input (\<lambda>h'. Ok (named_columns (he_record h') name)) h)"
  using header_run_ok [OF assms] index.answered indices.answered
  unfolding header_index_def header_indices_def by metis

text \<open>
  C25: Resolving a target type answers from the headers in force, through the cache, the scan or the
  lookup alike: the identity without headers, the identity or the column list of the resolver, or its
  error placed where the parser stands.
\<close>

theorem typed_mapping_answered:
  assumes "header_run input h"
  shows "\<exists>h1 h2. let answer = after_headers input (\<lambda>h'.
        located (engine_location (he_engine h') input) (mapping_for (he_record h') names aliases)) h in
    resolve_typed_mapping input names aliases h = Some (h1, answer) \<and>
    resolve_optional_typed_mapping input names aliases h = Some (h2, answer)"
proof -
  have ok: "coherent h" "engine_ok input (he_engine h)" using header_run_ok [OF assms] by auto
  obtain h1 where "resolve_typed_mapping input names aliases h = Some (h1, mapping_answer input names aliases h)"
    using typed.answered [OF ok, of names aliases] by (auto simp: resolve_typed_mapping_def)
  moreover obtain h2 where
    "resolve_optional_typed_mapping input names aliases h = Some (h2, mapping_answer input names aliases h)"
    using optional_after_discovery [OF ok, of names aliases] by auto
  ultimately show ?thesis unfolding Let_def by blast
qed

text \<open>
  C33: The column of a filter is the column of its name in the headers in force, whether it comes from
  the cache or from the lookup.
\<close>

theorem filter_column_answered:
  assumes "header_run input h"
  shows "\<exists>h1. resolve_filter_column column h = Some (h1, case column of Index i \<Rightarrow> Some i
      | Name name \<Rightarrow> index_answer (he_record h) name)"
proof -
  have "coherent h" using header_run_ok [OF assms] by blast
  then show ?thesis by (rule resolve_filter_column_answer [of h column]) (auto simp: index_answer_def split: column.split)
qed

text \<open>A parser over \<open>a,b\<close> that takes its first record as headers, and one that was given them.\<close>

definition sample_headed :: headed where
  "sample_headed = headed_from_config [97, 44, 98, 10] sample_settings FirstRecord"

lemma sample_headed_run: "header_run [97, 44, 98, 10] sample_headed"
  unfolding sample_headed_def
proof (rule run_new)
  show "engine_wf (engine_from_config [97, 44, 98, 10] sample_settings)"
    using sample_engine_ok(1) by (simp add: sample_engine_def)
qed (simp_all add: sample_settings_def)

lemma sample_discovery:
  "\<exists>h. ensure_headers [97, 44, 98, 10] sample_headed = (h, Ok ()) \<and> he_record h = Some [[97], [98]]"
  by (simp add: sample_headed_def headed_from_config_def header_policy_def expected_from_def ensure_headers_def
      parser_eval sample_eval record_entries_def resolved_entries_def names_of_def span_of_range max_offset_value
      resolve_span_def get_range_def slice_def)

theorem header_names_answered_witness:
  "\<exists>h1 h2. header_index [97, 44, 98, 10] [98] sample_headed = Some (h1, Ok (Some 1)) \<and>
     header_indices [97, 44, 98, 10] [98] sample_headed = Some (h2, Ok [1])"
proof -
  obtain h where h: "ensure_headers [97, 44, 98, 10] sample_headed = (h, Ok ())" "he_record h = Some [[97], [98]]"
    using sample_discovery by blast
  have "named_columns (he_record h) [98] = [1]"
    by (simp add: h(2) named_columns_def columns_of_def columns_below_def upt_rec)
  then show ?thesis
    using header_names_answered [OF sample_headed_run, of "[98]"] h(1)
    by (simp add: after_headers_def index_answer_def)
qed

theorem typed_mapping_answered_witness:
  "\<exists>h1. resolve_typed_mapping [97, 44, 98, 10] [[98]] [] sample_headed = Some (h1, Ok (Mapped [1]))"
proof -
  obtain h where h: "ensure_headers [97, 44, 98, 10] sample_headed = (h, Ok ())" "he_record h = Some [[97], [98]]"
    using sample_discovery by blast
  have "mapping_for (he_record h) [[98]] [] = Ok (Mapped [1])"
    by (simp add: h(2) mapping_for_def resolve_decode_mapping_def scan_matches_def alternates_of_def get_at_def
        typed_mapping_from_def)
  then show ?thesis
    using typed_mapping_answered [OF sample_headed_run, of "[[98]]" "[]"] h(1)
    by (simp add: after_headers_def Let_def)
qed

theorem filter_column_answered_witness:
  "\<exists>h h1. header_run [97, 44, 98, 10] h \<and> resolve_filter_column (Name [98]) h = Some (h1, Some 1)"
proof -
  obtain h where h: "ensure_headers [97, 44, 98, 10] sample_headed = (h, Ok ())" "he_record h = Some [[97], [98]]"
    using sample_discovery by blast
  then have run: "header_run [97, 44, 98, 10] h"
    using run_step [OF sample_headed_run step_discover [OF h(1)]] by simp
  have "named_columns (he_record h) [98] = [1]"
    by (simp add: h(2) named_columns_def columns_of_def columns_below_def upt_rec)
  then show ?thesis
    using filter_column_answered [OF run, of "Name [98]"] run by (auto simp: index_answer_def)
qed

end
