(* ===== verification/ReadBack.thy ===== *)
theory ReadBack
  imports Emitter Kernel
begin

text \<open>
  What the record parser makes of the text the emitters write, one field at a time: a field spelled
  plainly and a field spelled in quotes are both read back as the field. The reader is one that
  neither trims nor skips spaces, with limits that leave room for the window.
\<close>

section \<open>The reader\<close>

definition reads_plainly :: "engine \<Rightarrow> bool" where
  "reads_plainly e \<longleftrightarrow>
     simple_dialect e \<and> \<not> escapes_unquoted (escape (en_dialect e)) \<and> quoting_enabled (en_syntax e) \<and>
     \<not> permits_trailing_whitespace (en_syntax e) \<and> \<not> en_skip_initial_space e \<and> en_nulls e = NullsNone"

definition ample :: "bytes \<Rightarrow> engine \<Rightarrow> bool" where
  "ample input e \<longleftrightarrow>
     length input \<le> max_record_bytes (en_limits e) \<and> length input \<le> max_field_bytes (en_limits e)"

lemma reader_config:
  assumes "config_of e' = config_of e"
  shows "reads_plainly e' = reads_plainly e" "ample input e' = ample input e"
  using simple_dialect_config [OF assms]
  by (simp_all add: reads_plainly_def ample_def config_ofD [OF assms])

lemma reads_plainlyD:
  assumes "reads_plainly e"
  shows "simple_dialect e" "unquoted_escape e = None" "engine_wf e" "unquoted_byte (escape (en_dialect e)) = None"
  using assms escapes_unquoted_iff [of "escape (en_dialect e)"]
  by (simp_all add: reads_plainly_def simple_dialect_def unquoted_escape_def)

lemma scan_end_ample:
  assumes "parse_inv input rs e" "ample input e"
  shows "scan_end e input rs fs = length input"
  using assms inv_length [OF assms(1)]
  by (simp add: scan_end_def ample_def sat_add_def Let_def min_def)

lemma borrowed_end_ample:
  assumes "parse_inv input rs e" "ample input e"
  shows "borrowed_scan_end e (length input) rs = length input"
  using assms inv_length [OF assms(1)]
  by (auto simp: borrowed_scan_end_def ample_def sat_add_def)

lemma record_limit_ample:
  assumes "ample input e" "rs \<le> at" "at \<le> length input"
  shows "check_record_limit input rs at e = (e, Ok ())"
  using assms by (auto simp: check_record_limit_def check_record_limit_for_def ample_def)

section \<open>Pushing a field\<close>

text \<open>The state after a field was read: one more entry, nothing else of the configuration changed.\<close>

definition pushes :: "bytes \<Rightarrow> engine \<Rightarrow> bytes \<Rightarrow> engine \<Rightarrow> bool" where
  "pushes input e f e' \<longleftrightarrow>
     core e' = core e \<and> storage_len (en_spans e') = Suc (storage_len (en_spans e)) \<and>
     (\<forall>es. record_entries input e = Ok es \<longrightarrow> record_entries input e' = Ok (es @ [(Some f, False)]))"

lemma pushes_move [simp]:
  "pushes input e f (e'\<lparr>en_location := n\<rparr>) = pushes input e f e'"
  "pushes input e f (note_terminated e') = pushes input e f e'"
  "pushes input e f (clear_terminated e') = pushes input e f e'"
  by (simp_all add: pushes_def record_entries_def note_terminated_def clear_terminated_def)

lemma pushes_config: "pushes input e f e' \<Longrightarrow> config_of e' = config_of e"
  unfolding pushes_def by (elim conjE) (rule core_config)

lemma push_input_reads:
  assumes "parse_inv input rs e" "ample input e" "a \<le> b" "b \<le> length input"
    "storage_len (en_spans e) < max_fields (en_limits e)"
  obtains e' where "push_span input FromInput a b at q e = (e', Ok ())" "pushes input e (slice input a b) e'"
    "parse_inv input rs e'" "en_location e' = en_location e" "scratch_len (en_spans e') = scratch_len (en_spans e)"
proof -
  have wf: "storage_wf (en_spans e)" "input_len (en_spans e) = length input" using assms(1) by (simp_all add: parse_inv_def)
  have width: "b - a \<le> max_field_bytes (en_limits e)" using assms(2,4) by (auto simp: ample_def)
  then obtain st where st: "try_push_input_bounded a b q (max_fields (en_limits e)) (max_field_bytes (en_limits e)) (en_spans e) = Some st"
    using assms(3-5) wf(2) by (auto simp: try_push_input_bounded_def)
  then have push: "push_span input FromInput a b at q e = (e\<lparr>en_spans := st\<rparr>, Ok ())" by (simp add: push_span_def)
  note ok = push_span_Ok [OF push assms(1)]
  have off: "a \<le> MAX_OFFSET" "b \<le> MAX_OFFSET" using wf_offsets [OF wf(1)] wf(2) assms(3,4) by auto
  have "resolve_span input scratch (from_range_unchecked FromInput a b q) = Some (slice input a b)" for scratch
    using assms(3,4) by (simp add: resolve_span_def span_of_range [OF off] get_range_def)
  then have "pushes input e (slice input a b) (e\<lparr>en_spans := st\<rparr>)"
    using ok(3-5) span_of_range(5) [OF off]
    by (auto simp: pushes_def storage_len_def record_entries_def resolved_entries_def bind_outcome_Ok_iff assert_that_def)
  then show thesis using that push ok(1,4) by (simp add: scratch_len_def)
qed

text \<open>The scratch buffer only grows; the entries stay.\<close>

lemma entries_grow:
  assumes "parse_inv input rs e" "ss_spans st = ss_spans (en_spans e)" "grows (en_spans e) st"
  shows "record_entries input (e\<lparr>en_spans := st\<rparr>) = record_entries input e"
proof -
  have wf: "storage_wf (en_spans e)" "input_len (en_spans e) = length input" using assms(1) by (simp_all add: parse_inv_def)
  have "resolve_span input (ss_scratch st) s = resolve_span input (ss_scratch (en_spans e)) s"
    if "s \<in> set (ss_spans (en_spans e))" for s
  proof -
    have fit: "span_fits (en_spans e) s" using wf(1) that by (simp add: storage_wf_def)
    then have fit': "span_fits st s" using span_fits_grows [OF assms(3)] by simp
    obtain bs where "ss_scratch st = ss_scratch (en_spans e) @ bs" "input_len st = length input"
      using assms(3) wf(2) by (auto simp: grows_def)
    then show ?thesis
      using resolve_span_fits [OF fit'] resolve_span_fits [OF fit] fit wf(2)
      by (auto simp: span_fits_def source_len_def split: source.splits)
  qed
  moreover have "input_len st = input_len (en_spans e)" using assms(3) by (simp add: grows_def)
  ultimately show ?thesis
    using assms(2) by (simp add: record_entries_def resolved_entries_def cong: map_cong)
qed

lemma push_scratch_reads:
  assumes "parse_inv input rs e" "ample input e" "ss \<le> scratch_len (en_spans e)"
    "scratch_len (en_spans e) \<le> length input" "storage_len (en_spans e) < max_fields (en_limits e)"
  obtains e' where "push_span input FromScratch ss (scratch_len (en_spans e)) at q e = (e', Ok ())"
    "pushes input e (drop ss (ss_scratch (en_spans e))) e'" "parse_inv input rs e'"
    "en_location e' = en_location e" "scratch_len (en_spans e') = scratch_len (en_spans e)"
proof -
  let ?b = "scratch_len (en_spans e)"
  have wf: "storage_wf (en_spans e)" "input_len (en_spans e) = length input" using assms(1) by (simp_all add: parse_inv_def)
  have width: "?b - ss \<le> max_field_bytes (en_limits e)" using assms(2,4) by (auto simp: ample_def)
  then obtain st where st: "try_push_scratch_bounded ss ?b q (max_fields (en_limits e)) (max_field_bytes (en_limits e)) (en_spans e) = Some st"
    using assms(3-5) wf(2) by (auto simp: try_push_scratch_bounded_def scratch_len_def)
  then have push: "push_span input FromScratch ss ?b at q e = (e\<lparr>en_spans := st\<rparr>, Ok ())" by (simp add: push_span_def)
  note ok = push_span_Ok [OF push assms(1)]
  have off: "ss \<le> MAX_OFFSET" "?b \<le> MAX_OFFSET" using wf_offsets [OF wf(1)] wf(2) assms(3,4) by auto
  have "resolve_span input (ss_scratch (en_spans e)) (from_range_unchecked FromScratch ss ?b q) =
      Some (drop ss (ss_scratch (en_spans e)))"
    using assms(3) unfolding resolve_span_def span_of_range [OF off]
    by (simp add: get_range_def scratch_len_def slice_drop)
  then have "pushes input e (drop ss (ss_scratch (en_spans e))) (e\<lparr>en_spans := st\<rparr>)"
    using ok(3-5) span_of_range(5) [OF off]
    by (auto simp: pushes_def storage_len_def record_entries_def resolved_entries_def bind_outcome_Ok_iff assert_that_def)
  then show thesis using that push ok(1,4) by (simp add: scratch_len_def)
qed

section \<open>A quoted field\<close>

definition quoted_body :: "dialect \<Rightarrow> bytes \<Rightarrow> bytes" where
  "quoted_body d field =
     (case escape d of Backslash esc \<Rightarrow> backslashed (quote d) esc field | _ \<Rightarrow> doubled (quote d) field)"

lemma quoted_text_body: "quoted_text d field = quote d # quoted_body d field @ [quote d]"
  by (simp add: quoted_body_def split: escape.split)

text \<open>The bytes a quoted field escapes, and the byte that escapes them.\<close>

definition escaped_bytes :: "dialect \<Rightarrow> byte set" where
  "escaped_bytes d = insert (quote d) (case escape d of Backslash esc \<Rightarrow> {esc} | _ \<Rightarrow> {})"

definition escaper :: "dialect \<Rightarrow> byte" where
  "escaper d = (case escape d of Backslash esc \<Rightarrow> esc | _ \<Rightarrow> quote d)"

lemma quoted_body_Nil [simp]: "quoted_body d [] = []"
  by (simp add: quoted_body_def doubled_def backslashed_def split: escape.split)

lemma quoted_body_Cons:
  "quoted_body d (b # field) = (if b \<in> escaped_bytes d then [escaper d, b] else [b]) @ quoted_body d field"
  by (simp add: quoted_body_def doubled_def backslashed_def escaped_bytes_def escaper_def split: escape.split)

lemma quoted_body_plain: "set g \<inter> escaped_bytes d = {} \<Longrightarrow> quoted_body d (g @ field) = g @ quoted_body d field"
  by (induction g) (auto simp: quoted_body_Cons)

text \<open>What the loop sees: the plain bytes, then the closing quote or an escape.\<close>

lemma quoted_split:
  obtains (plain) "set field \<inter> escaped_bytes d = {}"
    | (escaped) g b later where "field = g @ b # later" "set g \<inter> escaped_bytes d = {}" "b \<in> escaped_bytes d"
  using split_list_first_prop [of field "\<lambda>b. b \<in> escaped_bytes d"] by (cases "\<exists>b \<in> set field. b \<in> escaped_bytes d") blast+

definition quoting_config :: "engine \<Rightarrow> quoted_config \<Rightarrow> bool" where
  "quoting_config e cfg \<longleftrightarrow>
     qc_escape cfg = escape (en_dialect e) \<and> qc_quote cfg = quote (en_dialect e) \<and>
     qc_trailing_ws cfg = permits_trailing_whitespace (en_syntax e) \<and>
     qc_delimiter cfg = delimiter (en_dialect e) \<and> qc_delimiter_tail cfg = delimiter_tail (en_dialect e) \<and>
     qc_terminator cfg = ending_byte (record_ending (en_dialect e)) \<and> qc_ending_tail cfg = ending_tail (en_dialect e) \<and>
     qc_record_ending cfg = record_ending (en_dialect e)"

lemma quoting_config_of: "config_of e' = config_of e \<Longrightarrow> quoting_config e' cfg = quoting_config e cfg"
  by (simp add: quoting_config_def config_ofD [of e' e])

lemma backslash_not_quote: "reads_plainly e \<Longrightarrow> escape (en_dialect e) = Backslash esc \<Longrightarrow> esc \<noteq> quote (en_dialect e)"
  by (auto simp: reads_plainly_def simple_dialect_def invalidity_None_iff escape_conflict_def split: if_splits)

lemma plain_position:
  assumes "drop cursor input = g @ b # rest" "\<forall>x \<in> set g. \<not> P x" "P b" "cursor \<le> length input"
  shows "position P (slice input cursor (length input)) = Some (length g)" "input ! (cursor + length g) = b"
    "drop (cursor + length g + 1) input = rest" "cursor + length g < length input"
proof -
  have "slice input cursor (length input) = g @ b # rest" using assms(1) by (simp add: slice_drop)
  then show "position P (slice input cursor (length input)) = Some (length g)"
    using assms(2,3) by (intro position_SomeI) (auto simp: nth_append)
  have len: "length input - cursor = length g + length rest + 1" using arg_cong [OF assms(1), of length] by simp
  show "cursor + length g < length input" using len by simp
  have "input ! (cursor + length g) = drop cursor input ! length g" using assms(4) by simp
  then show "input ! (cursor + length g) = b" by (simp add: assms(1) nth_append)
  have "drop (cursor + length g + 1) input = drop (length g + 1) (drop cursor input)" by (simp add: add_ac)
  then show "drop (cursor + length g + 1) input = rest" by (simp add: assms(1))
qed

lemma quoted_stop_position:
  assumes "reads_plainly e" "quoting_config e cfg"
  shows "quoted_stop cfg remaining = position (\<lambda>b. b \<in> escaped_bytes (en_dialect e)) remaining"
proof -
  have "\<not> escapes_unquoted (escape (en_dialect e))" using assms(1) by (simp add: reads_plainly_def)
  then show ?thesis
    using assms(2) by (cases "escape (en_dialect e)")
      (auto simp: quoting_config_def quoted_stop_def escaped_bytes_def escapes_unquoted_def find_simps intro!: position_cong)
qed

lemma get_at_drop: "drop n xs = ys \<Longrightarrow> n \<le> length xs \<Longrightarrow> get_at xs n = get_at ys 0"
  by (cases ys) (auto simp: get_at_def drop_eq_Nil nth_via_drop dest: arg_cong [of _ _ length])

text \<open>An escape, and the closing quote.\<close>

lemma quoted_event_escape:
  assumes "reads_plainly e" "quoting_config e cfg" "b \<in> escaped_bytes (en_dialect e)"
    "input ! at = escaper (en_dialect e)" "get_at input (at + 1) = Some b"
  shows "quoted_event_at input cfg stop at = Escaped b"
  using assms backslash_not_quote [OF assms(1)]
  by (cases "escape (en_dialect e)")
    (auto simp: quoting_config_def quoted_event_at_def escaped_bytes_def escaper_def reads_plainly_def
      escapes_unquoted_def Let_def)

lemma quoted_event_close:
  assumes "reads_plainly e" "quoting_config e cfg" "input ! at = quote (en_dialect e)"
    "get_at input (at + 1) \<noteq> Some (quote (en_dialect e))"
  shows "quoted_event_at input cfg stop at = ClosingQuote"
  using assms backslash_not_quote [OF assms(1)]
  by (cases "escape (en_dialect e)")
    (auto simp: quoting_config_def quoted_event_at_def reads_plainly_def escapes_unquoted_def Let_def)

definition decoding :: "engine \<Rightarrow> nat \<Rightarrow> nat \<Rightarrow> nat \<Rightarrow> bool \<Rightarrow> bytes \<Rightarrow> bool" where
  "decoding e cs ss cursor copied decoded \<longleftrightarrow>
     cs \<le> cursor \<and> scratch_len (en_spans e) \<le> cursor \<and>
     (if copied then ss \<le> scratch_len (en_spans e) \<and> drop ss (ss_scratch (en_spans e)) = decoded
      else cursor = cs \<and> ss = scratch_len (en_spans e) \<and> decoded = [])"

lemma scratch_step:
  assumes "parse_inv input rs e" "st = scratch_extend bs (en_spans e)"
  shows "parse_inv input rs (e\<lparr>en_spans := st\<rparr>)" "record_entries input (e\<lparr>en_spans := st\<rparr>) = record_entries input e"
    "storage_len st = storage_len (en_spans e)" "scratch_len st = scratch_len (en_spans e) + length bs"
    "ss_scratch st = ss_scratch (en_spans e) @ bs"
proof -
  have st: "ss_spans st = ss_spans (en_spans e)" "grows (en_spans e) st" "input_len st = input_len (en_spans e)"
    using assms(2) by (auto simp: scratch_extend_def grows_def input_len_def)
  show "parse_inv input rs (e\<lparr>en_spans := st\<rparr>)"
    using assms scratch_extend_wf [of "en_spans e" bs] st by (simp add: parse_inv_def storage_len_def)
  show "record_entries input (e\<lparr>en_spans := st\<rparr>) = record_entries input e" by (rule entries_grow [OF assms(1) st(1,2)])
  show "storage_len st = storage_len (en_spans e)" "scratch_len st = scratch_len (en_spans e) + length bs"
    "ss_scratch st = ss_scratch (en_spans e) @ bs"
    using assms(2) by (simp_all add: scratch_extend_def storage_len_def scratch_len_def)
qed

lemma take_escape_reads:
  assumes "parse_inv input rs e" "ample input e" "decoding e cs ss cursor copied decoded"
    "slice input cursor at = g" "at = cursor + length g" "at + 2 \<le> length input"
  obtains e' where "take_escape input copied cs cursor at b ss e = (e', Ok ())"
    "decoding e' cs ss (at + 2) True (decoded @ g @ [b])" "parse_inv input rs e'" "core e' = core e"
    "en_location e' = en_location e" "record_entries input e' = record_entries input e"
    "storage_len (en_spans e') = storage_len (en_spans e)"
proof -
  let ?st = "scratch_extend (g @ [b]) (en_spans e)"
  have segment: "copy_segment input copied cs cursor at (en_spans e) = scratch_extend g (en_spans e)"
    using assms(3,4) by (auto simp: copy_segment_def decoding_def scratch_extend_def Let_def split: if_splits)
  have st: "scratch_push b (copy_segment input copied cs cursor at (en_spans e)) = ?st"
    unfolding segment by (simp add: scratch_push_def scratch_extend_def)
  note step = scratch_step [OF assms(1) refl, of "g @ [b]"]
  let ?e = "e\<lparr>en_spans := ?st\<rparr>"
  have dec: "decoding ?e cs ss (at + 2) True (decoded @ g @ [b])"
    using assms(3,5) step(4,5) by (auto simp: decoding_def scratch_len_def split: if_splits)
  then have "scratch_len ?st - ss \<le> length input" "ss \<le> scratch_len ?st" using assms(6) by (auto simp: decoding_def)
  then have "check_scratch_limit input ss at ?e = (?e, Ok ())" using assms(2) by (simp add: ample_def)
  then have "take_escape input copied cs cursor at b ss e = (?e, Ok ())" by (simp only: take_escape_def st Let_def)
  then show thesis using that dec step(1-3) by simp
qed

lemma quoted_loop_reads:
  "drop cursor input = quoted_body (en_dialect e) field @ quote (en_dialect e) # rest \<Longrightarrow>
   get_at rest 0 \<noteq> Some (quote (en_dialect e)) \<Longrightarrow> reads_plainly e \<Longrightarrow> quoting_config e cfg \<Longrightarrow>
   parse_inv input rs e \<Longrightarrow> ample input e \<Longrightarrow> decoding e cs ss cursor copied decoded \<Longrightarrow> cursor \<le> length input \<Longrightarrow>
   storage_len (en_spans e) < max_fields (en_limits e) \<Longrightarrow>
   \<exists>e'. parse_quoted_loop input rs cfg cs ss cursor cursor copied e =
        finish_quoted_field input rs (cursor + length (quoted_body (en_dialect e) field) + 1) cfg e' \<and>
     pushes input e (decoded @ field) e' \<and> parse_inv input rs e' \<and> en_location e' = en_location e \<and>
     scratch_len (en_spans e') \<le> cursor + length (quoted_body (en_dialect e) field)"
proof (induction "length field" arbitrary: field cursor e copied decoded rule: less_induct)
  case less
  let ?d = "en_dialect e" and ?len = "length input"
  note inv = less(6) and amp = less(7) and dec = less(8)
  have stop: "scan_end e input rs cs = ?len" by (rule scan_end_ample [OF inv amp])
  have range: "get_range input cursor ?len = Some (slice input cursor ?len)" using less(9) by (simp add: get_range_def)
  show ?case
  proof (cases rule: quoted_split [of field ?d])
    case plain
    then have body: "quoted_body ?d field = field" using quoted_body_plain [of field ?d "[]"] by simp
    have "quote ?d \<in> escaped_bytes ?d" by (simp add: escaped_bytes_def)
    note at = plain_position [where P = "\<lambda>b. b \<in> escaped_bytes ?d", OF less(2) [unfolded body] _ this less(9)]
    have at': "position (\<lambda>b. b \<in> escaped_bytes ?d) (slice input cursor ?len) = Some (length field)"
      "input ! (cursor + length field) = quote ?d" "drop (cursor + length field + 1) input = rest" "cursor + length field < ?len"
      using at plain by blast+
    have "get_at input (cursor + length field + 1) \<noteq> Some (quote ?d)"
      using get_at_drop [OF at'(3)] at'(4) less(3) by simp
    then have event: "quoted_event_at input cfg ?len (cursor + length field) = ClosingQuote"
      using quoted_event_close [OF less(4,5) at'(2)] by simp
    let ?at = "cursor + length field"
    have loop: "parse_quoted_loop input rs cfg cs ss cursor cursor copied e = close_quoted input rs cfg cs ss cursor copied ?at e"
      using range at'(1) event by (simp add: parse_quoted_loop.simps [of input rs cfg cs ss cursor cursor copied e]
          stop quoted_stop_position [OF less(4,5)])
    have field: "slice input cursor ?at = field" using less(2) body by (simp add: slice_def)
    show ?thesis
    proof (cases copied)
      case True
      let ?st = "scratch_extend field (en_spans e)" and ?e = "e\<lparr>en_spans := scratch_extend field (en_spans e)\<rparr>"
      note step = scratch_step [OF inv refl, of field]
      have scratch: "scratch_len ?st \<le> ?at" "ss \<le> scratch_len ?st" "drop ss (ss_scratch ?st) = decoded @ field"
        using dec True step(4,5) by (auto simp: decoding_def scratch_len_def)
      obtain e' where e': "push_span input FromScratch ss (scratch_len ?st) ?at True ?e = (e', Ok ())"
        "pushes input ?e (decoded @ field) e'" "parse_inv input rs e'" "en_location e' = en_location e"
        "scratch_len (en_spans e') = scratch_len ?st"
        using push_scratch_reads [OF step(1), of ss ?at True] amp scratch at'(4) less(10) step(3)
        by (auto simp: ample_def)
      have "close_quoted input rs cfg cs ss cursor copied ?at e = finish_quoted_field input rs (?at + 1) cfg e'"
        using True e'(1) field by (simp add: close_quoted_def Let_def bind_step_def)
      moreover have "pushes input e (decoded @ field) e'"
        using e'(2) step(2,3) by (simp add: pushes_def)
      ultimately show ?thesis using loop e'(3-5) scratch(1) body by auto
    next
      case False
      then have c: "cs = cursor" "decoded = []" "scratch_len (en_spans e) \<le> cursor" using dec by (simp_all add: decoding_def)
      obtain e' where e': "push_span input FromInput cs ?at ?at True e = (e', Ok ())"
        "pushes input e field e'" "parse_inv input rs e'" "en_location e' = en_location e"
        "scratch_len (en_spans e') = scratch_len (en_spans e)"
        using push_input_reads [OF inv amp, of cs ?at ?at True] c(1) at'(4) less(10) field by auto
      have "close_quoted input rs cfg cs ss cursor copied ?at e = finish_quoted_field input rs (?at + 1) cfg e'"
        using False e'(1) by (simp add: close_quoted_def Let_def bind_step_def)
      then show ?thesis using loop e' c body by auto
    qed
  next
    case (escaped g b later)
    have body: "quoted_body ?d field = g @ escaper ?d # b # quoted_body ?d later"
      using escaped quoted_body_plain [of g ?d "b # later"] by (simp add: quoted_body_Cons)
    have special: "escaper ?d \<in> escaped_bytes ?d" by (auto simp: escaper_def escaped_bytes_def split: escape.split)
    have spelled: "drop cursor input = g @ escaper ?d # b # quoted_body ?d later @ quote ?d # rest"
      using less(2) body by simp
    have none: "\<forall>x \<in> set g. x \<notin> escaped_bytes ?d" using escaped(2) by auto
    note at = plain_position [where P = "\<lambda>b. b \<in> escaped_bytes ?d", OF spelled none special less(9)]
    let ?at = "cursor + length g"
    have beyond: "drop (?at + 2) input = quoted_body ?d later @ quote ?d # rest" "get_at input (?at + 1) = Some b" "?at + 2 \<le> ?len"
    proof -
      have "drop (?at + 2) input = drop 1 (drop (?at + 1) input)" by simp
      then show "drop (?at + 2) input = quoted_body ?d later @ quote ?d # rest" unfolding at(3) by simp
      show "get_at input (?at + 1) = Some b" using get_at_drop [OF at(3)] at(4) by (simp add: get_at_Cons)
      then show "?at + 2 \<le> ?len" by (simp add: get_at_Some_iff)
    qed
    have field: "slice input cursor ?at = g" using spelled by (simp add: slice_def)
    obtain e1 where e1: "take_escape input copied cs cursor ?at b ss e = (e1, Ok ())"
      "decoding e1 cs ss (?at + 2) True (decoded @ g @ [b])" "parse_inv input rs e1" "core e1 = core e"
      "en_location e1 = en_location e" "record_entries input e1 = record_entries input e"
      "storage_len (en_spans e1) = storage_len (en_spans e)"
      using take_escape_reads [OF inv amp dec field refl beyond(3)] by blast
    note same = core_config [OF e1(4)]
    note c = config_ofD(1,2) [OF same]
    have event: "quoted_event_at input cfg ?len ?at = Escaped b"
      by (rule quoted_event_escape [OF less(4,5) escaped(3) at(2) beyond(2)])
    have loop: "parse_quoted_loop input rs cfg cs ss cursor cursor copied e =
        parse_quoted_loop input rs cfg cs ss (?at + 2) (?at + 2) True e1"
      using range at(1) event e1(1) by (simp add: parse_quoted_loop.simps [of input rs cfg cs ss cursor cursor copied e]
          stop quoted_stop_position [OF less(4,5)])
    obtain e' where e': "parse_quoted_loop input rs cfg cs ss (?at + 2) (?at + 2) True e1 =
          finish_quoted_field input rs (?at + 2 + length (quoted_body ?d later) + 1) cfg e'"
      "pushes input e1 ((decoded @ g @ [b]) @ later) e'" "parse_inv input rs e'" "en_location e' = en_location e1"
      "scratch_len (en_spans e') \<le> ?at + 2 + length (quoted_body ?d later)"
      using less(1) [of later "?at + 2" e1 True "decoded @ g @ [b]"] escaped(1) beyond less(3,4,5,7,10) e1 c
        reader_config [OF same] quoting_config_of [OF same] by auto
    have "pushes input e (decoded @ field) e'"
      using e'(2) e1(4,6,7) escaped(1) by (simp add: pushes_def)
    then show ?thesis using loop e' e1(5) body by (auto simp: add_ac)
  qed
qed

section \<open>What follows a field\<close>

definition separator_text :: "dialect \<Rightarrow> bool \<Rightarrow> bytes" where
  "separator_text d ended = (if ended then ending_text d else delimiter_text d)"

lemma separator_simple:
  assumes "simple_dialect e"
  shows "separator_text (en_dialect e) False = [delimiter (en_dialect e)]"
    "\<not> is_crlf e \<Longrightarrow> separator_text (en_dialect e) True = [ending_byte (record_ending (en_dialect e))]"
    "is_crlf e \<Longrightarrow> separator_text (en_dialect e) True = [CR, LF]"
  using simple_dialectD(5,6) [OF assms]
  by (simp_all add: separator_text_def delimiter_text_def ending_text_def is_crlf_def)

lemma separator_first:
  assumes "simple_dialect e"
  obtains b bs where "separator_text (en_dialect e) ended = b # bs" "b \<noteq> quote (en_dialect e)"
  using that separator_simple [OF assms] simple_dialectD(1-4) [OF assms]
  by (cases ended; cases "is_crlf e") (auto simp: is_crlf_def)

lemma tail_confirms_simple:
  assumes "simple_dialect e"
  shows "tail_confirms (delimiter_tail (en_dialect e)) xs" "tail_confirms (ending_tail (en_dialect e)) xs"
    "tail_width (delimiter_tail (en_dialect e)) = 1" "tail_width (ending_tail (en_dialect e)) = 1"
  using simple_dialectD(5,6) [OF assms] by simp_all

lemma get_at_text:
  assumes "drop at input = b # rest"
  shows "get_at input at = Some b" "at < length input" "drop (at + 1) input = rest"
proof -
  have "length input - at = Suc (length rest)" using arg_cong [OF assms, of length] by simp
  then show lt: "at < length input" by simp
  show "get_at input at = Some b" using get_at_drop [OF assms] lt by (simp add: get_at_Cons)
  have "drop (at + 1) input = drop 1 (drop at input)" by simp
  then show "drop (at + 1) input = rest" by (simp add: assms)
qed

lemma finish_quoted_reads:
  assumes "reads_plainly e" "quoting_config e cfg" "ample input e" "rs \<le> closed"
    "drop closed input = separator_text (en_dialect e) ended @ rest"
  obtains e' where "finish_quoted_field input rs closed cfg e = (e', Ok ended)"
    "en_location e' = closed + length (separator_text (en_dialect e) ended)" "en_spans e' = en_spans e"
    "core e' = core e"
proof -
  note simple = reads_plainlyD(1) [OF assms(1)]
  note d = simple_dialectD [OF simple] and tails = tail_confirms_simple [OF simple] and seps = separator_simple [OF simple]
  have space: "skip_post_quote_whitespace input closed (qc_trailing_ws cfg) = closed"
    using assms(1,2) by (simp add: skip_post_quote_whitespace_def quoting_config_def reads_plainly_def)
  have amp: "ample input (e\<lparr>en_location := n\<rparr>)" "ample input (note_terminated (e\<lparr>en_location := n\<rparr>))" for n
    using assms(3) by (simp_all add: ample_def note_terminated_def)
  show thesis
  proof (cases ended)
    case False
    have at: "drop closed input = delimiter (en_dialect e) # rest" using assms(5) False seps(1) by simp
    show thesis
      using that [of "e\<lparr>en_location := closed + 1\<rparr>"] False space get_at_text [OF at] assms(2) tails seps(1)
      by (simp add: finish_quoted_field_def Let_def quoting_config_def)
  next
    case True
    show thesis
    proof (cases "is_crlf e")
      case crlf: True
      have at: "drop closed input = CR # LF # rest" using assms(5) True seps(3) crlf by simp
      note g = get_at_text [OF at] and g2 = get_at_text [OF get_at_text(3) [OF at]]
      let ?e = "note_terminated (e\<lparr>en_location := closed + 2\<rparr>)"
      have "finish_quoted_field input rs closed cfg e =
          bind_step (check_record_limit input rs (closed + 2)) (\<lambda>_. return_step True) ?e"
        using crlf space g(1) g2(1) assms(2) d(4)
        by (simp add: finish_quoted_field_def Let_def quoting_config_def is_crlf_def note_terminated_def)
      moreover have "check_record_limit input rs (closed + 2) ?e = (?e, Ok ())"
        using amp(2) assms(4) g2(2) by (intro record_limit_ample) simp_all
      ultimately have "finish_quoted_field input rs closed cfg e = (?e, Ok ended)"
        using True by (simp add: bind_step_def return_step_def del: check_record_limit_Ok_iff)
      then show thesis using that [of ?e] True seps(3) [OF crlf] by (simp add: note_terminated_def)
    next
      case False
      have at: "drop closed input = ending_byte (record_ending (en_dialect e)) # rest" using assms(5) True seps(2) False by simp
      note g = get_at_text [OF at]
      let ?e = "note_terminated (e\<lparr>en_location := closed + 1\<rparr>)"
      have "finish_quoted_field input rs closed cfg e =
          bind_step (check_record_limit input rs (closed + 1)) (\<lambda>_. return_step True) ?e"
        using False space g(1) assms(2) d(2) tails
        by (simp add: finish_quoted_field_def Let_def quoting_config_def is_crlf_def note_terminated_def)
      moreover have "check_record_limit input rs (closed + 1) ?e = (?e, Ok ())"
        using amp(2) assms(4) g(2) by (intro record_limit_ample) simp_all
      ultimately have "finish_quoted_field input rs closed cfg e = (?e, Ok ended)"
        using True by (simp add: bind_step_def return_step_def del: check_record_limit_Ok_iff)
      then show thesis using that [of ?e] True seps(2) [OF False] by (simp add: note_terminated_def)
    qed
  qed
qed

section \<open>One field\<close>

definition spells :: "dialect \<Rightarrow> bytes \<Rightarrow> bytes \<Rightarrow> bool" where
  "spells d field t \<longleftrightarrow> t = quoted_text d field \<or> t = field \<and> set field \<inter> special_bytes d = {}"

lemma stop_bytes_special: "reads_plainly e \<Longrightarrow> stop_bytes e \<subseteq> special_bytes (en_dialect e)"
  using reads_plainlyD(2) [of e] by (auto simp: stop_bytes_def special_bytes_def is_crlf_def split: if_splits)

lemma push_field_plain:
  assumes "reads_plainly e" "a \<le> b" "b \<le> length input"
  shows "push_field input a b at header e = push_span input FromInput a b at False e"
  using assms reads_plainlyD(4) [OF assms(1)]
  by (simp add: push_field_def push_general_unquoted_span_def get_range_def reads_plainly_def)

lemma close_field_reads:
  assumes "reads_plainly e" "parse_inv input rs e" "ample input e" "storage_len (en_spans e) < max_fields (en_limits e)"
    "scratch_len (en_spans e) \<le> a" "a \<le> b" "b \<le> resume" "resume \<le> length input" "rs \<le> a" "slice input a b = field"
  obtains e' where "close_field input rs header a b at resume ended e = (e', Ok ended)" "pushes input e field e'"
    "en_location e' = resume" "scratch_len (en_spans e') \<le> resume"
proof -
  obtain e1 where e1: "push_span input FromInput a b at False e = (e1, Ok ())" "pushes input e (slice input a b) e1"
    "scratch_len (en_spans e1) = scratch_len (en_spans e)"
    using push_input_reads [OF assms(2,3), of a b at False] assms(4-8) by (metis le_trans)
  let ?e = "if ended then note_terminated (e1\<lparr>en_location := resume\<rparr>) else e1\<lparr>en_location := resume\<rparr>"
  note c = pushes_config [OF e1(2)]
  have "ample input ?e" using assms(3) config_ofD(2) [OF c] by (simp add: ample_def note_terminated_def)
  then have "check_record_limit input rs resume ?e = (?e, Ok ())" using assms(6-9) by (intro record_limit_ample) simp_all
  then have "close_field input rs header a b at resume ended e = (?e, Ok ended)"
    using push_field_plain [OF assms(1,6)] assms(7,8) e1(1)
    by (simp add: close_field_def bind_step_def return_step_def Let_def del: check_record_limit_Ok_iff)
  then show thesis
    using that [of ?e] e1 assms(5-7,10) by (auto simp: note_terminated_def [abs_def] pushes_move [unfolded note_terminated_def])
qed

lemma unquoted_closes:
  assumes "reads_plainly e" "parse_inv input rs e" "ample input e" "set field \<inter> special_bytes (en_dialect e) = {}"
    "drop (en_location e) input = field @ separator_text (en_dialect e) ended @ rest"
  shows "\<exists>at'. parse_one_field None input rs header e =
      close_field input rs header (en_location e) (en_location e + length field) at'
        (en_location e + length field + length (separator_text (en_dialect e) ended)) ended e"
    "en_location e + length field + length (separator_text (en_dialect e) ended) \<le> length input"
proof -
  let ?fs = "en_location e" and ?d = "en_dialect e"
  let ?at = "?fs + length field"
  note simple = reads_plainlyD(1) [OF assms(1)]
  note d = simple_dialectD [OF simple] and seps = separator_simple [OF simple]
  obtain b bs where sep: "separator_text ?d ended = b # bs" "b \<noteq> quote ?d" using separator_first [OF simple] .
  have "drop ?at input = drop (length field) (drop ?fs input)" by (simp add: add_ac)
  then have at: "drop ?at input = b # bs @ rest" by (simp add: assms(5) sep(1))
  note g = get_at_text [OF at]
  show len: "?at + length (separator_text ?d ended) \<le> length input"
    using arg_cong [OF at, of length] sep(1) by simp
  have b: "input ! ?at = b" using g(1) by (simp add: get_at_Some_iff)
  have inside: "input ! i \<in> set field" if "?fs \<le> i" "i < ?at" for i
  proof -
    have "i < length input" using that g(2) by simp
    then have "input ! i = drop ?fs input ! (i - ?fs)" using that(1) by simp
    also have "\<dots> = field ! (i - ?fs)" unfolding assms(5) by (rule nth_append_left) (use that in linarith)
    finally show ?thesis using that by simp
  qed
  have free: "stop_free e input ?fs ?at"
    using inside stop_bytes_special [OF assms(1)] assms(4) by (fastforce simp: stop_free_def)
  have no_cr: "\<not> (strips_cr (record_ending ?d) \<and> ?fs < ?at \<and> input ! (?at - 1) = CR)"
  proof (cases field)
    case (Cons x xs)
    then have "input ! (?at - 1) \<in> set field" by (intro inside) simp_all
    then show ?thesis using assms(4) by (auto simp: strips_cr_def special_bytes_def)
  qed simp
  have first: "get_at input ?fs \<noteq> Some (quote ?d)"
  proof (cases field)
    case Nil
    then show ?thesis using g(1) sep(2) by simp
  next
    case (Cons x xs)
    have "get_at input ?fs = Some x" using get_at_text(1) [of ?fs input x] assms(5) Cons by simp
    then show ?thesis using assms(4) Cons by (auto simp: special_bytes_def)
  qed
  have chosen: "parse_one_field None input rs header e = parse_unquoted_field None input rs header e"
    using first assms(1) by (intro unquoted_field_chosen [OF simple]) (simp_all add: reads_plainly_def)
  have lt: "?at < scan_end e input rs ?fs" using scan_end_ample [OF assms(2,3)] g(2) by simp
  show "\<exists>at'. parse_one_field None input rs header e =
      close_field input rs header ?fs ?at at' (?at + length (separator_text ?d ended)) ended e"
  proof (cases ended)
    case False
    then have "b = delimiter ?d" "length (separator_text ?d ended) = 1" using sep(1) seps(1) by simp_all
    then show ?thesis using field_at_delimiter [OF simple free _ lt] b chosen False by auto
  next
    case True
    show ?thesis
    proof (cases "is_crlf e")
      case crlf: True
      then have s: "b = CR" "bs = [LF]" "length (separator_text ?d ended) = 2" using sep(1) seps(3) True by auto
      have "get_at input (?at + 1) = Some LF" using get_at_text(1) [OF g(3) [unfolded s(2) append.simps]] .
      then have "?at + 1 < length input" "input ! (?at + 1) = LF" by (simp_all add: get_at_Some_iff)
      then show ?thesis
        using field_at_crlf [OF simple free _ lt _ _ _ crlf] b s chosen True reads_plainlyD(2) [OF assms(1)] by auto
    next
      case False
      then have s: "b = ending_byte (record_ending ?d)" "length (separator_text ?d ended) = 1" using sep(1) seps(2) True by simp_all
      moreover have "stripped_end e input ?fs ?at = ?at" using no_cr by (auto simp: stripped_end_def strips_cr_def)
      ultimately show ?thesis using field_at_ending [OF simple free _ lt _ False] b chosen True by auto
    qed
  qed
qed

lemma unquoted_reads:
  assumes "reads_plainly e" "parse_inv input rs e" "ample input e" "storage_len (en_spans e) < max_fields (en_limits e)"
    "scratch_len (en_spans e) \<le> en_location e" "set field \<inter> special_bytes (en_dialect e) = {}"
    "drop (en_location e) input = field @ separator_text (en_dialect e) ended @ rest"
  obtains e' where "parse_one_field None input rs header e = (e', Ok ended)" "pushes input e field e'"
    "en_location e' = en_location e + length field + length (separator_text (en_dialect e) ended)"
    "scratch_len (en_spans e') \<le> en_location e'"
proof -
  let ?fs = "en_location e" and ?sep = "separator_text (en_dialect e) ended"
  let ?at = "?fs + length field"
  obtain at' where close: "parse_one_field None input rs header e =
      close_field input rs header ?fs ?at at' (?at + length ?sep) ended e"
    using unquoted_closes(1) [OF assms(1-3,6,7)] by blast
  have len: "?at + length ?sep \<le> length input" by (rule unquoted_closes(2) [OF assms(1-3,6,7)])
  have rs: "rs \<le> ?fs" using assms(2) by (simp add: parse_inv_def)
  have "slice input ?fs ?at = field" by (simp add: slice_def assms(7))
  then obtain e' where "close_field input rs header ?fs ?at at' (?at + length ?sep) ended e = (e', Ok ended)"
    "pushes input e field e'" "en_location e' = ?at + length ?sep" "scratch_len (en_spans e') \<le> ?at + length ?sep"
    by (rule close_field_reads [OF assms(1-5) le_add1 le_add1 len rs])
  then show thesis using that close by simp
qed

lemma quoted_field_chosen:
  assumes "reads_plainly e" "get_at input (en_location e) = Some (quote (en_dialect e))"
  obtains cfg where "quoting_config e cfg" "parse_one_field None input rs header e =
      parse_quoted_loop input rs cfg (en_location e + 1) (scratch_len (en_spans e)) (en_location e + 1) (en_location e + 1) False e"
proof -
  note fmt = fmt_of_engine [OF format_matches_None reads_plainlyD(3) [OF assms(1)]]
  have "parse_one_field None input rs header e = parse_quoted_field None input rs e"
    using assms fmt by (simp add: parse_one_field_def skip_delimiter_spaces_def skip_delimiter_spaces_for_def
        bind_step_def reads_plainly_def)
  then show thesis
    unfolding parse_quoted_field_def Let_def fmt by (rule that [rotated]) (simp add: quoting_config_def)
qed

lemma quoted_reads:
  assumes "reads_plainly e" "parse_inv input rs e" "ample input e" "storage_len (en_spans e) < max_fields (en_limits e)"
    "scratch_len (en_spans e) \<le> en_location e"
    "drop (en_location e) input = quoted_text (en_dialect e) field @ separator_text (en_dialect e) ended @ rest"
  obtains e' where "parse_one_field None input rs header e = (e', Ok ended)" "pushes input e field e'"
    "en_location e' = en_location e + length (quoted_text (en_dialect e) field) + length (separator_text (en_dialect e) ended)"
    "scratch_len (en_spans e') \<le> en_location e'"
proof -
  let ?d = "en_dialect e" and ?fs = "en_location e"
  let ?sep = "separator_text ?d ended" and ?body = "quoted_body ?d field"
  have start: "drop ?fs input = quote ?d # ?body @ quote ?d # ?sep @ rest"
    using assms(6) by (simp add: quoted_text_body del: quoted_text.simps)
  note g = get_at_text [OF start]
  obtain cfg where cfg: "quoting_config e cfg" "parse_one_field None input rs header e =
      parse_quoted_loop input rs cfg (?fs + 1) (scratch_len (en_spans e)) (?fs + 1) (?fs + 1) False e"
    using quoted_field_chosen [OF assms(1) g(1)] .
  obtain b bs where sep: "?sep = b # bs" "b \<noteq> quote ?d" using separator_first [OF reads_plainlyD(1) [OF assms(1)]] .
  have "get_at (?sep @ rest) 0 \<noteq> Some (quote ?d)" using sep by (simp add: get_at_Cons)
  moreover have "decoding e (?fs + 1) (scratch_len (en_spans e)) (?fs + 1) False []" using assms(5) by (simp add: decoding_def)
  moreover have "?fs + 1 \<le> length input" using g(2) by simp
  ultimately obtain e1 where e1: "parse_one_field None input rs header e =
        finish_quoted_field input rs (?fs + 1 + length ?body + 1) cfg e1"
      "pushes input e field e1" "en_location e1 = ?fs" "scratch_len (en_spans e1) \<le> ?fs + 1 + length ?body"
    using quoted_loop_reads [OF g(3) _ assms(1) cfg(1) assms(2,3) _ _ assms(4)] cfg(2) by fastforce
  note c = pushes_config [OF e1(2)]
  let ?closed = "?fs + 1 + length ?body + 1"
  have "drop ?closed input = drop (length ?body + 1) (drop (?fs + 1) input)" by (simp add: add_ac)
  then have "drop ?closed input = ?sep @ rest" by (simp only: g(3)) simp
  then have at: "drop ?closed input = separator_text (en_dialect e1) ended @ rest" by (simp add: config_ofD [OF c])
  have rs: "rs \<le> ?closed" using assms(2) by (simp add: parse_inv_def)
  obtain e' where "finish_quoted_field input rs ?closed cfg e1 = (e', Ok ended)"
    "en_location e' = ?closed + length ?sep" "en_spans e' = en_spans e1" "core e' = core e1"
    using finish_quoted_reads [OF _ _ _ rs at, of cfg] assms(1,3) cfg(1) reader_config [OF c] quoting_config_of [OF c]
      config_ofD [OF c] by metis
  moreover from this have "pushes input e field e'"
    using e1(2) c by (simp add: pushes_def record_entries_def)
  ultimately show thesis
    using that [of e'] e1 by (simp add: quoted_text_body del: quoted_text.simps)
qed

text \<open>Either spelling reads back.\<close>

lemma field_reads:
  assumes "reads_plainly e" "parse_inv input rs e" "ample input e" "storage_len (en_spans e) < max_fields (en_limits e)"
    "scratch_len (en_spans e) \<le> en_location e" "spells (en_dialect e) field t"
    "drop (en_location e) input = t @ separator_text (en_dialect e) ended @ rest"
  obtains e' where "parse_one_field None input rs header e = (e', Ok ended)" "pushes input e field e'" "parse_inv input rs e'"
    "en_location e' = en_location e + length t + length (separator_text (en_dialect e) ended)"
    "scratch_len (en_spans e') \<le> en_location e'"
proof -
  obtain e' where e': "parse_one_field None input rs header e = (e', Ok ended)" "pushes input e field e'"
    "en_location e' = en_location e + length t + length (separator_text (en_dialect e) ended)"
    "scratch_len (en_spans e') \<le> en_location e'"
    using assms(6) unfolding spells_def
  proof (elim disjE conjE)
    assume t: "t = quoted_text (en_dialect e) field"
    note [simp del] = quoted_text.simps
    show thesis by (rule quoted_reads [OF assms(1-5) assms(7) [unfolded t]]) (rule that, assumption+, simp add: t, simp)
  next
    assume t: "t = field" "set field \<inter> special_bytes (en_dialect e) = {}"
    show thesis by (rule unquoted_reads [OF assms(1-5) t(2) assms(7) [unfolded t(1)]]) (rule that, assumption+, simp add: t, simp)
  qed
  have "parse_inv input rs e'"
    using one_field.parse_keeps(1) [OF _ reads_plainlyD(3) [OF assms(1)] assms(2) e'(1)] format_matches_None by blast
  then show thesis using that e' by blast
qed

end
