(* ===== verification/RoundTrip.thy ===== *)
theory RoundTrip
  imports ReadBack
begin

text \<open>
  A record, and a document, that an emitter wrote is what the record parser reads: the field loop and
  the plain kernel on the joined pieces, the ignored records that the spelling cannot be taken for,
  and the reading of the whole buffer.
\<close>

section \<open>The field loop on the pieces of a record\<close>

lemma join_pieces:
  "ts \<noteq> [] \<Longrightarrow> join_text d (t # ts) = t @ separator_text d False @ join_text d ts"
  by (cases ts) (simp_all add: separator_text_def)

lemma config_reads:
  assumes "core e' = core e"
  shows "reads_plainly e' = reads_plainly e" "ample input e' = ample input e" "en_dialect e' = en_dialect e"
    "en_limits e' = en_limits e"
  using reader_config [OF core_config [OF assms]] config_ofD [OF core_config [OF assms]] by simp_all

definition reads_fields :: "bytes \<Rightarrow> engine \<Rightarrow> bytes list \<Rightarrow> engine \<Rightarrow> bool" where
  "reads_fields input e fs e' \<longleftrightarrow>
     core e' = core e \<and> storage_len (en_spans e') = storage_len (en_spans e) + length fs \<and>
     (\<forall>es. record_entries input e = Ok es \<longrightarrow>
        record_entries input e' = Ok (es @ map (\<lambda>f. (Some f, False)) fs))"

lemma reads_fields_Cons:
  "pushes input e f e1 \<Longrightarrow> reads_fields input e1 fs e' \<Longrightarrow> reads_fields input e (f # fs) e'"
  by (simp add: pushes_def reads_fields_def)

lemma fields_read:
  "list_all2 (spells (en_dialect e)) fs ts \<Longrightarrow> ts \<noteq> [] \<Longrightarrow> reads_plainly e \<Longrightarrow> parse_inv input rs e \<Longrightarrow> ample input e \<Longrightarrow>
   storage_len (en_spans e) + length fs \<le> max_fields (en_limits e) \<Longrightarrow> scratch_len (en_spans e) \<le> en_location e \<Longrightarrow>
   drop (en_location e) input = join_text (en_dialect e) ts @ ending_text (en_dialect e) @ rest \<Longrightarrow>
   \<exists>e'. parse_record_fields None input rs header e = finish_general_record None input header e' \<and>
     reads_fields input e fs e' \<and> parse_inv input rs e' \<and>
     en_location e' = en_location e + length (join_text (en_dialect e) ts @ ending_text (en_dialect e))"
proof (induction ts arbitrary: fs e)
  case (Cons t ts)
  obtain f fs' where fs: "fs = f # fs'" "spells (en_dialect e) f t" "list_all2 (spells (en_dialect e)) fs' ts"
    using Cons.prems(1) by (auto simp: list_all2_Cons2)
  have room: "storage_len (en_spans e) < max_fields (en_limits e)" using Cons.prems(6) fs(1) by simp
  show ?case
  proof (cases "ts = []")
    case True
    then have spelled: "drop (en_location e) input = t @ separator_text (en_dialect e) True @ rest" and single: "fs = [f]"
      using Cons.prems(8) fs by (simp_all add: separator_text_def)
    obtain e' where e': "parse_one_field None input rs header e = (e', Ok True)" "pushes input e f e'" "parse_inv input rs e'"
      "en_location e' = en_location e + length t + length (separator_text (en_dialect e) True)"
      by (rule field_reads [OF Cons.prems(3-5) room Cons.prems(7) fs(2) spelled])
    then show ?thesis
      using record_fields_step [OF e'(1)] True single
      by (auto simp: pushes_def reads_fields_def separator_text_def add_ac)
  next
    case False
    let ?rest = "join_text (en_dialect e) ts @ ending_text (en_dialect e) @ rest"
    have spelled: "drop (en_location e) input = t @ separator_text (en_dialect e) False @ ?rest"
      using Cons.prems(8) join_pieces [OF False, of "en_dialect e" t] by simp
    obtain e1 where e1: "parse_one_field None input rs header e = (e1, Ok False)" "pushes input e f e1" "parse_inv input rs e1"
      "en_location e1 = en_location e + length t + length (separator_text (en_dialect e) False)"
      "scratch_len (en_spans e1) \<le> en_location e1"
      by (rule field_reads [OF Cons.prems(3-5) room Cons.prems(7) fs(2) spelled])
    have same: "core e1 = core e" "storage_len (en_spans e1) = Suc (storage_len (en_spans e))"
      using e1(2) by (simp_all add: pushes_def)
    note c = config_reads [OF same(1)]
    have "drop (en_location e1) input =
        drop (length (t @ separator_text (en_dialect e) False)) (drop (en_location e) input)"
      by (simp add: e1(4) add_ac)
    then have at: "drop (en_location e1) input = ?rest" unfolding spelled by simp
    obtain e' where e': "parse_record_fields None input rs header e1 = finish_general_record None input header e'"
      "reads_fields input e1 fs' e'" "parse_inv input rs e'"
      "en_location e' = en_location e1 + length (join_text (en_dialect e) ts @ ending_text (en_dialect e))"
      using Cons.IH [of e1 fs'] False fs Cons.prems(3-6) e1(3,5) c same(2) at by auto
    have "reads_fields input e fs e'" unfolding fs(1) by (rule reads_fields_Cons [OF e1(2) e'(2)])
    then show ?thesis
      using record_fields_step [OF e1(1)] e' e1(4) join_pieces [OF False, of "en_dialect e" t] by auto
  qed
qed simp

section \<open>The plain kernel on the pieces\<close>

lemma structure_first:
  assumes "pos \<le> i" "i < borrowed_scan_end e (length input) rs"
    "input ! i \<in> {delimiter (en_dialect e), quote (en_dialect e), ending_byte (record_ending (en_dialect e))}"
    "\<And>j. pos \<le> j \<Longrightarrow> j < i \<Longrightarrow>
       input ! j \<notin> {delimiter (en_dialect e), quote (en_dialect e), ending_byte (record_ending (en_dialect e))}"
  shows "structure_from input rs e pos = (i, input ! i) # structure_from input rs e (i + 1)"
proof (cases "structure_from input rs e pos")
  case Nil
  then show ?thesis using structure_Nil [OF Nil assms(1,2)] assms(3) by simp
next
  case (Cons m found)
  obtain i' x where m: "m = (i', x)" by fastforce
  note s = structure_Cons [OF Cons [unfolded m]]
  have "\<not> i < i'" using s(6) [of i] assms(1,3) by auto
  moreover have "\<not> i' < i" using s(1,4,5) assms(4) [of i'] by auto
  ultimately show ?thesis using s(4,7) m Cons by simp
qed

text \<open>What is left of the input when the kernel stands at a field.\<close>

lemma plain_bytes:
  assumes "drop pos input = t @ rest" "i < length t"
  shows "input ! (pos + i) = t ! i" "pos + i < length input"
proof -
  show lt: "pos + i < length input" using arg_cong [OF assms(1), of length] assms(2) by simp
  have "input ! (pos + i) = drop pos input ! i" using lt by simp
  then show "input ! (pos + i) = t ! i" using assms by (simp add: nth_append)
qed

definition kernel_fine :: "bytes \<Rightarrow> engine \<Rightarrow> nat \<Rightarrow> nat \<Rightarrow> engine \<times> bool outcome \<Rightarrow> bool" where
  "kernel_fine input e rs count res \<longleftrightarrow>
     snd res = Ok False \<or>
     snd res = Ok True \<and> core (fst res) = core e \<and> storage_len (en_spans (fst res)) = count \<and>
     crlf_clean e input rs (en_location (fst res))"

lemma kernel_ends_fine:
  assumes "reads_plainly e" "parse_inv input rs e" "ample input e" "storage_len (en_spans e) < max_fields (en_limits e)"
    "set t \<inter> special_bytes (en_dialect e) = {}" "rs \<le> fs" "carriage_free e input rs fs"
    "drop fs input = t @ separator_text (en_dialect e) True @ rest"
    "cursor = fs + length t + (if is_crlf e then 1 else 0)"
  shows "kernel_fine input e rs (Suc (storage_len (en_spans e))) (kernel_at_terminator None input rs fs cursor e)"
proof -
  let ?d = "en_dialect e"
  note simple = reads_plainlyD(1) [OF assms(1)]
  note d = simple_dialectD [OF simple] and seps = separator_simple [OF simple]
  note fmt = fmt_of_engine [OF format_matches_None d(7)]
  have sep: "separator_text ?d True = (if is_crlf e then [CR, LF] else [ending_byte (record_ending ?d)])"
    using seps(2,3) by simp
  have at: "cursor < length input" "fs \<le> cursor"
    using arg_cong [OF assms(8), of length] sep assms(9) by (auto split: if_splits)
  have none: "\<not> holds_escape None e input rs cursor"
    using assms(1) reads_plainlyD(4) [OF assms(1)] by (simp add: holds_escape_def fmt)
  let ?fe = "if fmt_strips_cr None e \<and> fs < cursor \<and> input ! (cursor - 1) = CR then cursor - 1 else cursor"
  have fe: "fs \<le> ?fe" "?fe \<le> length input" using at by auto
  obtain e1 where e1: "push_span input FromInput fs ?fe cursor False e = (e1, Ok ())"
    "pushes input e (slice input fs ?fe) e1"
    by (rule push_input_reads [OF assms(2,3) fe assms(4)])
  have same: "core e1 = core e" "storage_len (en_spans e1) = Suc (storage_len (en_spans e))"
    using e1(2) by (simp_all add: pushes_def)
  let ?e2 = "note_terminated (e1\<lparr>en_location := cursor + 1\<rparr>)"
  have "ample input ?e2" using assms(3) config_reads(2) [OF same(1)] by (simp add: ample_def note_terminated_def)
  then have check: "check_record_limit input rs (cursor + 1) ?e2 = (?e2, Ok ())"
    using at assms(6) by (intro record_limit_ample) simp_all
  have run: "kernel_at_terminator None input rs fs cursor e = (fold_plain_record None rs True ?e2, Ok True)"
    unfolding kernel_at_terminator_def Let_def using none e1(1) check
    by (simp add: bind_step_def note_terminated_def del: check_record_limit_Ok_iff)
  have clean: "crlf_clean e input rs (cursor + 1)"
  proof (cases "is_crlf e")
    case True
    then have whole: "drop fs input = (t @ [CR, LF]) @ rest" using assms(8) sep by simp
    have "input ! (fs + length t) = CR" using plain_bytes(1) [OF whole, of "length t"] by (simp add: nth_append)
    moreover have "input ! (fs + (length t + 1)) = LF" using plain_bytes(1) [OF whole, of "length t + 1"] by (simp add: nth_append)
    moreover have "input ! i \<noteq> CR" if i: "rs \<le> i" "i < fs + length t" for i
    proof (cases "i < fs")
      case True
      then show ?thesis using assms(7) \<open>is_crlf e\<close> i(1) by (simp add: carriage_free_def)
    next
      case False
      then have "input ! (fs + (i - fs)) = t ! (i - fs)" "i - fs < length t"
        using plain_bytes(1) [OF assms(8), of "i - fs"] i(2) by simp_all
      then have "input ! i \<in> set t" using False by simp
      then show ?thesis using assms(5) \<open>is_crlf e\<close> by (auto simp: special_bytes_def is_crlf_def)
    qed
    ultimately show ?thesis using True assms(6,9) by (simp add: crlf_clean_def)
  qed (simp add: crlf_clean_def)
  show ?thesis
    using same clean unfolding run kernel_fine_def
    by (simp add: fold_plain_record_def note_terminated_def core_updates [unfolded note_terminated_def])
qed

lemma plain_member:
  assumes "drop pos input = t @ rest" "pos \<le> i" "i < pos + length t"
  shows "input ! i \<in> set t"
proof -
  have "input ! (pos + (i - pos)) = t ! (i - pos)" "i - pos < length t"
    using plain_bytes(1) [OF assms(1), of "i - pos"] assms(2,3) by simp_all
  then show ?thesis using assms(2) by simp
qed

lemma structure_at_separator:
  assumes "reads_plainly e" "parse_inv input rs e" "ample input e" "set t \<inter> special_bytes (en_dialect e) = {}"
    "drop pos input = t @ separator_text (en_dialect e) ended @ rest"
    "cursor = pos + length t + (if ended \<and> is_crlf e then 1 else 0)"
    "b = (if ended then ending_byte (record_ending (en_dialect e)) else delimiter (en_dialect e))"
  shows "structure_from input rs e pos = (cursor, b) # structure_from input rs e (cursor + 1)"
proof -
  let ?d = "en_dialect e"
  note simple = reads_plainlyD(1) [OF assms(1)]
  note d = simple_dialectD [OF simple] and seps = separator_simple [OF simple]
  have sep: "separator_text ?d ended = (if ended \<and> is_crlf e then [CR, LF] else [b])"
    using seps assms(7) by simp
  have whole: "drop pos input = (t @ separator_text ?d ended) @ rest" using assms(5) by simp
  have in_text: "cursor - pos < length (t @ separator_text ?d ended)" "pos \<le> cursor" using sep assms(6) by simp_all
  have crlf: "b = LF" if "ended" "is_crlf e" using that assms(7) by (simp add: is_crlf_def)
  have "input ! (pos + (cursor - pos)) = (t @ separator_text ?d ended) ! (cursor - pos)"
    by (rule plain_bytes(1) [OF whole in_text(1)])
  then have byte: "input ! cursor = b"
    using in_text(2) assms(6) sep crlf by (auto simp: nth_append split: if_splits)
  have "pos + (cursor - pos) < length input" by (rule plain_bytes(2) [OF whole in_text(1)])
  then have lt: "cursor < borrowed_scan_end e (length input) rs"
    using in_text(2) borrowed_end_ample [OF assms(2,3)] by simp
  have before: "input ! j \<notin> {delimiter ?d, quote ?d, ending_byte (record_ending ?d)}" if "pos \<le> j" "j < cursor" for j
  proof (cases "j < pos + length t")
    case True
    then have "input ! j \<in> set t" using plain_member [OF assms(5) that(1)] by simp
    then show ?thesis using assms(4) by (auto simp: special_bytes_def)
  next
    case False
    then have c: "ended" "is_crlf e" "j = pos + length t" using that assms(6) by (auto split: if_splits)
    then have "input ! j = CR" using plain_bytes(1) [OF whole, of "length t"] sep by (simp add: nth_append)
    then show ?thesis using c d(4) by (auto simp: is_crlf_def)
  qed
  show ?thesis
    using structure_first [OF in_text(2) lt _ before] byte assms(7) by (auto split: if_splits)
qed

lemma kernel_loop_fine:
  "list_all2 (spells (en_dialect e)) fs ts \<Longrightarrow> ts \<noteq> [] \<Longrightarrow> reads_plainly e \<Longrightarrow> parse_inv input rs e \<Longrightarrow> ample input e \<Longrightarrow>
   storage_len (en_spans e) + length fs \<le> max_fields (en_limits e) \<Longrightarrow> rs \<le> pos \<Longrightarrow> carriage_free e input rs pos \<Longrightarrow>
   drop pos input = join_text (en_dialect e) ts @ ending_text (en_dialect e) @ rest \<Longrightarrow>
   kernel_fine input e rs (storage_len (en_spans e) + length fs)
     (kernel_loop None input rs (structure_from input rs e pos) pos e)"
proof (induction ts arbitrary: fs e pos)
  case (Cons t ts)
  let ?d = "en_dialect e" and ?ended = "ts = []"
  note simple = reads_plainlyD(1) [OF Cons.prems(3)]
  note d = simple_dialectD [OF simple] and seps = separator_simple [OF simple]
  note fmt = fmt_of_engine [OF format_matches_None d(7)]
  obtain f fs' where fs: "fs = f # fs'" "spells ?d f t" "list_all2 (spells ?d) fs' ts"
    using Cons.prems(1) by (auto simp: list_all2_Cons2)
  have room: "storage_len (en_spans e) < max_fields (en_limits e)" using Cons.prems(6) fs(1) by simp
  define more_text where "more_text = (if ?ended then rest else join_text ?d ts @ ending_text ?d @ rest)"
  have spelled: "drop pos input = t @ separator_text ?d ?ended @ more_text"
    using Cons.prems(9) join_pieces [of ts ?d t] by (simp add: more_text_def separator_text_def)
  show ?case
  proof (cases "t = quoted_text ?d f")
    case True
    have "drop pos input = quote ?d # quoted_body ?d f @ quote ?d # separator_text ?d ?ended @ more_text"
      using spelled True by (simp add: quoted_text_body del: quoted_text.simps)
    note g = get_at_text [OF this]
    have byte: "input ! pos = quote ?d" using g(1) by (simp add: get_at_Some_iff)
    have "pos < borrowed_scan_end e (length input) rs" using g(2) borrowed_end_ample [OF Cons.prems(4,5)] by simp
    then have "structure_from input rs e pos = (pos, quote ?d) # structure_from input rs e (pos + 1)"
      using structure_first [of pos pos e input rs] byte by simp
    moreover have "quoting_enabled (en_syntax e)" using Cons.prems(3) by (simp add: reads_plainly_def)
    ultimately have "snd (kernel_loop None input rs (structure_from input rs e pos) pos e) = Ok False"
      using d(1) fmt by (simp add: decline_def)
    then show ?thesis by (simp add: kernel_fine_def)
  next
    case False
    then have t: "t = f" "set t \<inter> special_bytes ?d = {}" using fs(2) by (auto simp: spells_def)
    let ?cursor = "pos + length t + (if ?ended \<and> is_crlf e then 1 else 0)"
    note first = structure_at_separator [OF Cons.prems(3-5) t(2) spelled refl refl]
    show ?thesis
    proof (cases ?ended)
      case True
      have "kernel_loop None input rs (structure_from input rs e pos) pos e = kernel_at_terminator None input rs pos ?cursor e"
        using first True fmt d(2,3) by simp
      then show ?thesis
        using kernel_ends_fine [OF Cons.prems(3-5) room t(2) Cons.prems(7,8), of more_text ?cursor] spelled True fs by simp
    next
      case more: False
      let ?at = "pos + length t"
      have at: "?at < length input" using arg_cong [OF spelled, of length] seps(1) more by simp
      have le: "pos \<le> ?at" "?at \<le> length input" using at by simp_all
      obtain e1 where e1: "push_span input FromInput pos ?at ?at False e = (e1, Ok ())"
        "pushes input e (slice input pos ?at) e1" "parse_inv input rs e1"
        by (rule push_input_reads [OF Cons.prems(4,5) le room])
      have same: "core e1 = core e" "storage_len (en_spans e1) = Suc (storage_len (en_spans e))"
        using e1(2) by (simp_all add: pushes_def)
      note c = config_reads [OF same(1)] and cc = core_config [OF same(1)]
      have run: "kernel_loop None input rs (structure_from input rs e pos) pos e =
          kernel_loop None input rs (structure_from input rs e1 (?at + 1)) (?at + 1) e1"
        using first more fmt e1(1) structure_config [OF cc] by simp
      have clean: "carriage_free e input rs (?at + 1)"
        unfolding carriage_free_def
      proof (intro impI allI)
        fix i assume i: "is_crlf e" "rs \<le> i" "i < ?at + 1"
        consider "i < pos" | "pos \<le> i" "i < ?at" | "i = ?at" using i(3) by linarith
        then show "input ! i \<noteq> CR"
        proof cases
          case 1
          then show ?thesis using Cons.prems(8) i by (simp add: carriage_free_def)
        next
          case 2
          then have "input ! i \<in> set t" by (rule plain_member [OF spelled])
          then show ?thesis using t(2) i(1) by (auto simp: special_bytes_def is_crlf_def)
        next
          case 3
          have "input ! ?at = delimiter ?d"
            using plain_bytes(1) [of pos input "t @ separator_text ?d False", of more_text "length t"] spelled more seps(1)
            by (simp add: nth_append)
          then show ?thesis using 3 i(1) d(4) by (simp add: is_crlf_def)
        qed
      qed
      have "drop (?at + 1) input = drop (length (t @ separator_text ?d False)) (drop pos input)" using seps(1) by (simp add: add_ac)
      then have "drop (?at + 1) input = join_text ?d ts @ ending_text ?d @ rest"
        unfolding spelled using more by (simp add: more_text_def)
      then have "kernel_fine input e1 rs (storage_len (en_spans e1) + length fs')
          (kernel_loop None input rs (structure_from input rs e1 (?at + 1)) (?at + 1) e1)"
        using Cons.IH [of e1 fs' "?at + 1"] more fs Cons.prems(3,5-7) e1(3) c same(2) clean passed_config(3) [OF cc] by simp
      then show ?thesis
        using run same fs(1) config_ofD(1) [OF cc] by (simp add: kernel_fine_def crlf_clean_def is_crlf_def)
    qed
  qed
qed simp

section \<open>A record\<close>

lemma validate_crlf_accepts:
  assumes "crlf_clean e input rs (en_location e)" "is_crlf e" "rs \<le> en_location e" "en_location e \<le> length input"
  shows "validate_crlf input rs e = (e, Ok ())"
proof -
  let ?n = "en_location e"
  have none: "find1 CR (slice input rs m) = None" if "m \<le> length input" "\<And>i. rs \<le> i \<Longrightarrow> i < m \<Longrightarrow> input ! i \<noteq> CR" for m
    using that slice_member [of CR input rs m] by (auto simp: find_simps position_None_iff)
  have range: "get_range input rs m = Some (slice input rs m)" if "rs \<le> m" "m \<le> length input" for m
    using that by (simp add: get_range_def)
  show ?thesis
  proof (cases "rs < ?n \<and> input ! (?n - 1) = LF")
    case True
    then have "get_at input (?n - 1) = Some LF" using assms(4) by (auto simp: get_at_def)
    moreover have cr: "rs < ?n - 1" "input ! (?n - 1 - 1) = CR" "\<And>i. rs \<le> i \<Longrightarrow> i < ?n - 2 \<Longrightarrow> input ! i \<noteq> CR"
      using assms(1,2) True by (auto simp: crlf_clean_def numeral_2_eq_2)
    moreover have "?n - 1 - 1 = ?n - 2" by simp
    ultimately show ?thesis
      using True none [of "?n - 2"] range [of "?n - 2"] assms(4) by (auto simp: validate_crlf_def Let_def)
  next
    case False
    then have "\<not> (rs < ?n \<and> get_at input (?n - 1) = Some LF)" by (auto simp: get_at_Some_iff)
    moreover have "\<And>i. rs \<le> i \<Longrightarrow> i < ?n \<Longrightarrow> input ! i \<noteq> CR" using assms(1,2) False by (auto simp: crlf_clean_def)
    ultimately show ?thesis
      using none [of ?n] range [of ?n] assms(3,4) unfolding validate_crlf_def Let_def by auto
  qed
qed

text \<open>The count that the policy expects of a record, and what it leaves.\<close>

definition count_accepts :: "engine \<Rightarrow> nat \<Rightarrow> bool" where
  "count_accepts e n \<longleftrightarrow>
     (case en_field_count e of Flexible \<Rightarrow> True | Exact k \<Rightarrow> n = k
      | MatchFirst \<Rightarrow> (case en_expected e of Some k \<Rightarrow> n = k | None \<Rightarrow> True))"

definition count_noted :: "nat \<Rightarrow> engine \<Rightarrow> engine" where
  "count_noted n e = (if en_field_count e = MatchFirst then e\<lparr>en_expected := Some n\<rparr> else e)"

lemma validate_count_accepts:
  "count_accepts e n \<Longrightarrow> validate_count input n e = (count_noted n e, Ok ())"
  by (auto simp: count_accepts_def count_noted_def validate_count_def Let_def split: field_count.splits option.splits)

lemma count_accepts_core:
  assumes "core e' = core e"
  shows "count_accepts e' n = count_accepts e n"
proof -
  have "en_field_count x = en_field_count (core x)" for x by (simp add: core_def)
  then have "en_field_count e' = en_field_count e" using assms by metis
  then show ?thesis using core_fields(1) [OF assms] by (simp only: count_accepts_def)
qed

definition before_record :: "format_options option \<Rightarrow> bytes \<Rightarrow> engine \<Rightarrow> bool" where
  "before_record opts input e \<longleftrightarrow>
     reads_plainly e \<and> format_matches opts e \<and> parse_inv input (en_location e) e \<and> ample input e \<and>
     ss_spans (en_spans e) = [] \<and> ss_scratch (en_spans e) = []"

lemma parse_record_accepts:
  assumes "before_record opts input e" "rs = en_location e" "list_all2 (spells (en_dialect e)) fs ts" "ts \<noteq> []"
    "length fs \<le> max_fields (en_limits e)" "count_accepts e (length fs)"
    "drop (en_location e) input = join_text (en_dialect e) ts @ ending_text (en_dialect e) @ rest"
  shows "snd (parse_record opts input rs header e) = Ok ()"
proof -
  have plainly: "reads_plainly e" and matches: "format_matches opts e" and inv: "parse_inv input rs e" and amp: "ample input e"
    and empty: "ss_spans (en_spans e) = []" "storage_len (en_spans e) = 0" "scratch_len (en_spans e) = 0"
    using assms(1,2) by (simp_all add: before_record_def storage_len_def scratch_len_def)
  note d = simple_dialectD [OF reads_plainlyD(1) [OF plainly]]
  note fmt = fmt_of_engine [OF matches d(7)]
  have "0 < length (ending_text (en_dialect e))" by (simp add: ending_text_def)
  then have "0 < length (drop rs input)" unfolding assms(2,7) by simp
  then have lt: "rs < length input" by simp
  obtain first where first: "get_at input rs = Some first" using lt by (simp add: get_at_def)
  have fields: "\<exists>e'. parse_record_fields None input rs header e = finish_general_record None input header e' \<and>
      reads_fields input e fs e'"
    using fields_read [OF assms(3,4) plainly inv amp _ _ assms(7), of header] assms(5) empty by auto
  then have general: "snd (parse_record_fields None input rs header e) = Ok ()"
  proof (elim exE conjE)
    fix e' assume e': "parse_record_fields None input rs header e = finish_general_record None input header e'"
      "reads_fields input e fs e'"
    have same: "core e' = core e" "storage_len (en_spans e') = length fs" using e'(2) empty by (simp_all add: reads_fields_def)
    have "en_nulls e' = en_nulls e" using config_ofD [OF core_config [OF same(1)]] by simp
    then have "mark_null_spans None input header e' = (e', Ok ())"
      using plainly fmt_of_engine [OF format_matches_None, of e'] by (simp add: mark_null_spans_def reads_plainly_def fmt_null_policy_def)
    then show ?thesis
      using e'(1) validate_count_accepts count_accepts_core [OF same(1)] assms(6) same(2)
      by (simp add: finish_general_record_def bind_step_def)
  qed
  let ?kernel = "if plain_record_candidate opts first e then try_parse_borrowed_plain opts input rs else return_step False"
  have "kernel_fine input e rs (length fs) (try_parse_borrowed_plain opts input rs e)"
    using kernel_loop_fine [OF assms(3,4) plainly inv amp _ _ _ assms(7) [folded assms(2)]] assms(2,5) empty
      kernel_without_format [OF matches d(7) inv] fmt
    by (simp add: try_parse_borrowed_plain_def Let_def blocks_matches_resume structure_from_def carriage_free_def)
  then have fine: "kernel_fine input e rs (length fs) (?kernel e)"
    by (auto simp: kernel_fine_def return_step_def split: if_splits)
  obtain e1 r where k: "?kernel e = (e1, r)" by fastforce
  show ?thesis
  proof (cases "r = Ok False")
    case True
    have e1: "e1 = e"
    proof (cases "plain_record_candidate opts first e")
      case True
      then have "kernel_loop opts input rs (structural_offsets (take (borrowed_scan_end e (length input) rs) input)
          (fmt_delimiter opts e) (fmt_quote opts e) (fmt_terminator opts e) rs) rs e = (e1, Ok False)"
        using k \<open>r = Ok False\<close> by (simp add: try_parse_borrowed_plain_def Let_def blocks_matches_resume)
      then have "e1 = e\<lparr>en_spans := clear_spans (en_spans e)\<rparr>" using kernel_declines inv by blast
      then show ?thesis using empty by (simp add: clear_spans_def)
    qed (use k in simp)
    have "parse_record opts input rs header e = parse_record_fields (dispatch_format opts e) input rs header e"
      unfolding parse_record_def first option.case by (simp add: bind_step_def k True e1)
    then show ?thesis
      using general record_fields_without_format [OF inv d(7) dispatch_matches [OF d(7) matches]] by simp
  next
    case False
    then have t: "r = Ok True" "core e1 = core e" "storage_len (en_spans e1) = length fs" "crlf_clean e input rs (en_location e1)"
      using fine k by (auto simp: kernel_fine_def)
    have cand: "plain_record_candidate opts first e" using k t(1) by (auto split: if_splits)
    note cc = core_config [OF t(2)]
    have "parse_inv input rs e1" using good_try_plain [OF inv, of opts] k cand t(1) by simp
    then have loc: "rs \<le> en_location e1" "en_location e1 \<le> length input" by (simp_all add: parse_inv_def)
    have matches1: "format_matches opts e1" "engine_wf e1"
      using matches d(7) format_matches_config [OF cc] engine_wf_config [OF cc] by simp_all
    note fmt1 = fmt_of_engine [OF matches1]
    have nulls: "en_nulls e1 = NullsNone" using plainly config_ofD [OF cc] by (simp add: reads_plainly_def)
    have "crlf_clean e1 input rs (en_location e1)"
      using t(4) config_ofD(1) [OF cc] by (simp add: crlf_clean_def is_crlf_def)
    then have "finish_plain_record opts input rs header e1 = (e1, Ok ())"
      using validate_crlf_accepts [OF _ _ loc] nulls fmt1
      by (auto simp: finish_plain_record_def bind_step_def return_step_def is_crlf_def)
    then have "(if fmt_record_pass opts e1 then finish_plain_record opts input rs header else return_step ()) e1 = (e1, Ok ())"
      by (simp add: return_step_def)
    then show ?thesis
      unfolding parse_record_def first option.case
      using validate_count_accepts count_accepts_core [OF t(2)] assms(6) t(3) by (simp add: bind_step_def k t(1))
  qed
qed

lemma count_noted_keeps [simp]:
  "en_spans (count_noted n e) = en_spans e" "en_location (count_noted n e) = en_location e"
  "config_of (count_noted n e) = config_of e"
  by (simp_all add: count_noted_def)

lemma unfolded_parts:
  assumes "unfolded a = unfolded b"
  shows "en_spans a = en_spans b" "en_location a = en_location b" "en_expected a = en_expected b" "config_of a = config_of b"
proof -
  have parts: "en_spans x = en_spans (unfolded x)" "en_location x = en_location (unfolded x)"
    "en_expected x = en_expected (unfolded x)" "config_of x = config_of (unfolded x)" for x
    by (simp_all add: unfolded_def)
  show "en_spans a = en_spans b" "en_location a = en_location b" "en_expected a = en_expected b" "config_of a = config_of b"
    by (simp_all only: parts [of a] parts [of b] assms)
qed

lemma count_noted_expected:
  assumes "core g = core e"
  shows "en_expected (count_noted n g) = en_expected (count_noted n e)"
proof -
  have "en_field_count x = en_field_count (core x)" for x by (simp add: core_def)
  then have "en_field_count g = en_field_count e" using assms by metis
  then show ?thesis using core_fields(1) [OF assms] by (simp add: count_noted_def)
qed

lemma finish_reads:
  assumes "reads_plainly e" "en_nulls e = NullsNone" "count_accepts e (storage_len (en_spans e))"
  shows "finish_general_record None input header e = (count_noted (storage_len (en_spans e)) e, Ok ())"
  using assms validate_count_accepts [OF assms(3)]
  by (simp add: finish_general_record_def mark_null_spans_def fmt_null_policy_def bind_step_def)

lemma parse_record_reads:
  assumes "before_record opts input e" "list_all2 (spells (en_dialect e)) fs ts" "ts \<noteq> []"
    "length fs \<le> max_fields (en_limits e)" "count_accepts e (length fs)"
    "drop (en_location e) input = join_text (en_dialect e) ts @ ending_text (en_dialect e) @ rest"
  obtains e' where "parse_record opts input (en_location e) header e = (e', Ok ())"
    "record_entries input e' = Ok (map (\<lambda>f. (Some f, False)) fs)" "config_of e' = config_of e"
    "en_location e' = en_location e + length (join_text (en_dialect e) ts @ ending_text (en_dialect e))"
    "en_expected e' = en_expected (count_noted (length fs) e)"
proof -
  let ?rs = "en_location e"
  have plainly: "reads_plainly e" and matches: "format_matches opts e" and inv: "parse_inv input ?rs e" and amp: "ample input e"
    and empty: "ss_spans (en_spans e) = []" "storage_len (en_spans e) = 0" "scratch_len (en_spans e) = 0"
    using assms(1) by (simp_all add: before_record_def storage_len_def scratch_len_def)
  note d = simple_dialectD [OF reads_plainlyD(1) [OF plainly]]
  have ok: "snd (parse_record opts input ?rs header e) = Ok ()" by (rule parse_record_accepts [OF assms(1) refl assms(2-6)])
  have "0 < length (ending_text (en_dialect e))" by (simp add: ending_text_def)
  then have "0 < length (drop ?rs input)" unfolding assms(6) by simp
  then have "plain_ready opts input e"
    using reads_plainlyD(1) [OF plainly] matches inv empty amp by (simp add: plain_ready_def ample_def)
  then have same: "seen (parse_record_fields None input ?rs header e) = seen (parse_record opts input ?rs header e)"
    by (rule kernel_then_loop [OF _ refl ok])
  obtain g where g: "parse_record_fields None input ?rs header e = finish_general_record None input header g"
    "reads_fields input e fs g" "en_location g = ?rs + length (join_text (en_dialect e) ts @ ending_text (en_dialect e))"
    using fields_read [OF assms(2,3) plainly inv amp _ _ assms(6), of header] assms(4) empty by auto
  have gs: "core g = core e" "storage_len (en_spans g) = length fs" using g(2) empty by (simp_all add: reads_fields_def)
  have "record_entries input e = Ok []"
    using empty inv by (simp add: record_entries_def resolved_entries_def parse_inv_def assert_that_def)
  then have entries: "record_entries input g = Ok (map (\<lambda>f. (Some f, False)) fs)" using g(2) by (simp add: reads_fields_def)
  have nulls: "en_nulls g = NullsNone"
    using plainly config_ofD [OF core_config [OF gs(1)]] by (simp add: reads_plainly_def)
  have fields: "parse_record_fields None input ?rs header e = (count_noted (length fs) g, Ok ())"
    unfolding g(1) using finish_reads [of g] plainly config_reads(1) [OF gs(1)] nulls count_accepts_core [OF gs(1)] assms(5) gs(2)
    by simp
  obtain e' where e': "parse_record opts input ?rs header e = (e', Ok ())" using ok by (cases "parse_record opts input ?rs header e") simp
  have "unfolded e' = unfolded (count_noted (length fs) g)"
    using same unfolding fields e' by (simp add: seen_def)
  note like = unfolded_parts [OF this, unfolded count_noted_keeps]
  have "record_entries input e' = Ok (map (\<lambda>f. (Some f, False)) fs)"
    using entries like(1) by (simp add: record_entries_def)
  then show thesis
    using that [OF e'] like g(3) core_config [OF gs(1)] count_noted_expected [OF gs(1)] by simp
qed

section \<open>The spelling of a record\<close>

lemma pieces_spell:
  "pieces d q NullsNone first (map Some fs) = Some ts \<Longrightarrow> unquoted_byte (escape d) = None \<Longrightarrow> q \<noteq> Raw \<Longrightarrow>
     list_all2 (spells d) fs ts"
proof (induction fs arbitrary: first ts)
  case (Cons f fs)
  obtain t ts' where ts: "ts = t # ts'" "configured_spec d q NullsNone f first = Some t"
    "pieces d q NullsNone False (map Some fs) = Some ts'"
    using Cons.prems(1) by (auto simp: field_spec_def split: option.splits)
  have "spells d f t"
    using ts(2) Cons.prems(2,3)
    by (cases q) (auto simp: configured_spec_def plain_spec_def spells_def must_quote_def split: if_splits)
  then show ?case using Cons.IH [OF ts(3) Cons.prems(2,3)] ts(1) by simp
qed simp

lemma record_spelled:
  assumes "record_spec d q NullsNone (map Some fs) = Some t" "unquoted_byte (escape d) = None" "q \<noteq> Raw" "fs \<noteq> []"
  obtains ts where "ts \<noteq> []" "list_all2 (spells d) fs ts" "t = join_text d ts @ ending_text d"
proof -
  obtain ts where ts: "pieces d q NullsNone True (map Some fs) = Some ts"
    "t = (if lone_empty NullsNone (map Some fs) \<and> q = Necessary \<and> join_text d ts = [] then [quote d, quote d]
          else join_text d ts) @ ending_text d"
    using assms(1) by (auto simp: record_spec_def)
  have spelled: "list_all2 (spells d) fs ts" by (rule pieces_spell [OF ts(1) assms(2,3)])
  show thesis
  proof (cases "lone_empty NullsNone (map Some fs) \<and> q = Necessary \<and> join_text d ts = []")
    case True
    then have "fs = [[]]" by (auto simp: lone_empty_def)
    moreover have "quoted_text d [] = [quote d, quote d]" using quoted_text_body [of d "[]"] by simp
    ultimately show thesis
      using that [of "[quoted_text d []]"] ts(2) True by (simp add: spells_def del: quoted_text.simps)
  next
    case False
    then have "t = join_text d ts @ ending_text d" using ts(2) by auto
    moreover have "ts \<noteq> []" using list_all2_lengthD [OF spelled] assms(4) by auto
    ultimately show thesis using that spelled by blast
  qed
qed

text \<open>Its first byte: what the passes over ignored records look at.\<close>

lemma empty_not_numeric [simp]: "\<not> is_numeric []"
  by code_simp

lemma first_byte:
  assumes "record_spec d q NullsNone (map Some fs) = Some t" "unquoted_byte (escape d) = None" "q \<noteq> Raw" "fs \<noteq> []"
  shows "(\<exists>b bs. t = b # bs \<and> (b = quote d \<or> b = delimiter d \<or> b \<notin> special_bytes d \<and> comment d \<noteq> Some b)) \<or>
    fs = [[]] \<and> q = Never \<and> t = ending_text d"
proof -
  obtain f fs' where fs: "fs = f # fs'" using assms(4) by (cases fs) auto
  obtain u us where u: "configured_spec d q NullsNone f True = Some u" "pieces d q NullsNone False (map Some fs') = Some us"
    "t = (if lone_empty NullsNone (map Some fs) \<and> q = Necessary \<and> join_text d (u # us) = [] then [quote d, quote d]
          else join_text d (u # us)) @ ending_text d"
    using assms(1) fs by (auto simp: record_spec_def field_spec_def split: option.splits)
  have us: "us = [] \<longleftrightarrow> fs' = []" using u(2) pieces_Nil [of d q NullsNone False "map Some fs'"] by auto
  have kind: "u = quoted_text d f \<or> u = f \<and> \<not> must_quote d f True \<and> (f = [] \<longrightarrow> q \<in> {Necessary, Never})"
    using u(1) assms(2,3) by (cases q) (auto simp: configured_spec_def plain_spec_def split: if_splits)
  show ?thesis
  proof (cases u)
    case Nil
    then have f: "f = []" "q \<in> {Necessary, Never}" using kind by auto
    show ?thesis
    proof (cases us)
      case Nil
      then have "fs = [[]]" using us fs f by simp
      then show ?thesis using u(3) \<open>u = []\<close> Nil f(2) by (auto simp: lone_empty_def)
    next
      case (Cons v vs)
      then show ?thesis using u(3) \<open>u = []\<close> by (simp add: delimiter_text_def)
    qed
  next
    case (Cons b bs)
    then have whole: "t = b # bs @ concat (map (\<lambda>v. delimiter_text d @ v) us) @ ending_text d" using u(3) by simp
    show ?thesis
    proof (cases "u = quoted_text d f")
      case True
      then have "b = quote d" using Cons by simp
      then show ?thesis using whole by simp
    next
      case False
      then have "u = f" "\<not> must_quote d f True" using kind by auto
      then have "b \<notin> special_bytes d" "comment d \<noteq> Some b" using Cons by (auto simp: must_quote_def)
      then show ?thesis using whole by simp
    qed
  qed
qed

section \<open>The ignored records\<close>

text \<open>
  A record the reader cannot take for a blank line: a dialect may have the carriage return for its
  delimiter or quote, and under \<open>Never\<close> a record of one empty field is a blank line.
\<close>

definition not_blank :: "engine \<Rightarrow> quoting \<Rightarrow> bytes list \<Rightarrow> bool" where
  "not_blank e q fs \<longleftrightarrow>
     (en_blank_records e = BlankSkip \<longrightarrow>
        delimiter (en_dialect e) \<noteq> CR \<and> quote (en_dialect e) \<noteq> CR \<and> \<not> (fs = [[]] \<and> q = Never))"

lemma record_not_ignored:
  assumes "reads_plainly e" "\<not> rs_ignored (en_resume e)" "not_blank e q fs"
    "record_spec (en_dialect e) q NullsNone (map Some fs) = Some t" "q \<noteq> Raw" "fs \<noteq> []"
    "drop (en_location e) input = t @ rest"
  shows "skip_ignored_records input e = e"
proof -
  let ?d = "en_dialect e"
  note simple = reads_plainlyD(1) [OF assms(1)]
  note d = simple_dialectD [OF simple]
  have no_conflict: "\<not> comment_conflict ?d" using simple by (simp add: simple_dialect_def invalidity_None_iff)
  note first = first_byte [OF assms(4) reads_plainlyD(4) [OF assms(1)] assms(5,6)]
  have ending: "ending_text ?d = (if is_crlf e then [CR, LF] else [ending_byte (record_ending ?d)])"
    using separator_simple(2,3) [OF simple] by (simp add: separator_text_def)
  have "\<exists>b bs. t = b # bs \<and> comment ?d \<noteq> Some b"
    using first
  proof (elim disjE exE conjE)
    fix b bs assume "t = b # bs" "b = quote ?d"
    then show ?thesis using no_conflict by (auto simp: comment_conflict_def)
  next
    fix b bs assume "t = b # bs" "b = delimiter ?d"
    then show ?thesis using no_conflict by (auto simp: comment_conflict_def)
  next
    assume "t = ending_text ?d"
    then show ?thesis using no_conflict ending by (auto simp: comment_conflict_def is_crlf_def)
  qed auto
  then obtain b bs where b: "t = b # bs" "comment ?d \<noteq> Some b" by blast
  have at: "get_at input (en_location e) = Some b" using get_at_text(1) [of "en_location e" input b] assms(7) b(1) by simp
  have comments: "skip_comments input e = e"
    using at b(2) assms(2)
    by (auto simp: skip_comments_def resuming_def skip_comments_loop.simps [of _ input e] split: option.split)
  have blanks: "skip_blank_lines input e = e"
  proof (cases "en_blank_records e = BlankSkip")
    case True
    then have "b = quote ?d \<or> b = delimiter ?d \<or> b \<notin> special_bytes ?d" "delimiter ?d \<noteq> CR" "quote ?d \<noteq> CR"
      using first assms(3) b(1) by (auto simp: not_blank_def)
    then have c: "b \<noteq> ending_byte (record_ending ?d)"
      "record_ending ?d = Newline \<or> record_ending ?d = CrLf \<longrightarrow> b \<noteq> CR"
      using d(2,3) by (auto simp: special_bytes_def)
    have "get_range input (en_location e) (en_location e + 2) \<noteq> Some [CR, LF]" if "b \<noteq> CR"
    proof
      assume "get_range input (en_location e) (en_location e + 2) = Some [CR, LF]"
      then have pair: "take 2 (drop (en_location e) input) = [CR, LF]" and lt: "en_location e + 2 \<le> length input"
        by (auto simp: get_range_def slice_def split: if_splits)
      have "input ! en_location e = take 2 (drop (en_location e) input) ! 0" using lt by simp
      then show False using at that unfolding pair by (simp add: get_at_Some_iff)
    qed
    then have "record_ending_width_at ?d input (en_location e) = None"
      using c at by (cases "record_ending ?d") (auto simp: record_ending_width_at_def)
    then show ?thesis by (simp add: skip_blank_lines_def skip_blank_lines_loop.simps [of input e])
  qed (simp add: skip_blank_lines_def)
  have "skip_ignored_loop input False e = (False, e)"
    using comments blanks by (simp add: skip_ignored_loop.simps [of input False e] skip_pass_def Let_def)
  then show ?thesis using assms(2) by (simp add: skip_ignored_records_def)
qed

section \<open>The whole text\<close>

definition ready_to_read :: "format_options option \<Rightarrow> bytes \<Rightarrow> engine \<Rightarrow> bool" where
  "ready_to_read opts input e \<longleftrightarrow>
     reads_plainly e \<and> format_matches opts e \<and> ample input e \<and> length input \<le> MAX_OFFSET \<and>
     en_location e \<le> length input \<and> \<not> en_failed e \<and> \<not> rs_ignored (en_resume e) \<and> en_trim e = WS_NONE"

definition uniform_counts :: "engine \<Rightarrow> 'a list list \<Rightarrow> bool" where
  "uniform_counts e docs \<longleftrightarrow>
     (case en_field_count e of Flexible \<Rightarrow> True | Exact n \<Rightarrow> \<forall>fs \<in> set docs. length fs = n
      | MatchFirst \<Rightarrow> \<exists>n. (\<forall>fs \<in> set docs. length fs = n) \<and> (en_expected e = None \<or> en_expected e = Some n))"

lemma uniform_counts_Cons:
  assumes "uniform_counts e (fs # docs)"
  shows "count_accepts e (length fs)"
    "en_field_count e' = en_field_count e \<Longrightarrow> en_expected e' = en_expected (count_noted (length fs) e) \<Longrightarrow> uniform_counts e' docs"
  using assms by (auto simp: uniform_counts_def count_accepts_def count_noted_def split: field_count.splits option.splits)

lemma begin_reads:
  assumes "length input \<le> MAX_OFFSET"
  shows "begin_spans input e = (e\<lparr>en_spans := the (storage_begin input MAX_OFFSET (en_spans e))\<rparr>, Ok ())"
    "ss_spans (the (storage_begin input MAX_OFFSET (en_spans e))) = []"
    "ss_scratch (the (storage_begin input MAX_OFFSET (en_spans e))) = []"
  using assms by (auto simp: begin_spans_def storage_begin_def bounded_offset_def)

lemma ready_record_index:
  "ready_to_read opts input (e\<lparr>en_record_index := n\<rparr>) = ready_to_read opts input e"
  by (cases opts) (simp_all add: ready_to_read_def reads_plainly_def simple_dialect_def engine_wf_def format_matches_def ample_def)

lemma config_rest:
  assumes "config_of e' = config_of e"
  shows "en_failed e' = en_failed e" "en_resume e' = en_resume e" "en_blank_records e' = en_blank_records e"
  using assms unfolding config_of_def by (cases e; cases e'; simp)+

lemma ready_config:
  assumes "config_of e' = config_of e" "en_location e' \<le> length input" "ready_to_read opts input e"
  shows "ready_to_read opts input e'"
  using assms(2,3) reader_config [OF assms(1)] format_matches_config [OF assms(1)] config_ofD [OF assms(1)] config_rest [OF assms(1)]
  by (simp add: ready_to_read_def)

lemma record_read:
  assumes "ready_to_read opts input e" "not_blank e q fs" "count_accepts e (length fs)" "length fs \<le> max_fields (en_limits e)"
    "record_spec (en_dialect e) q NullsNone (map Some fs) = Some t" "q \<noteq> Raw" "fs \<noteq> []"
    "drop (en_location e) input = t @ rest"
  obtains e' bounds index where "fill_record_spans opts input False e = (e', Ok (Some (bounds, index)))"
    "record_entries input e' = Ok (map (\<lambda>f. (Some f, False)) fs)" "en_location e' = en_location e + length t"
    "ready_to_read opts input e'" "en_dialect e' = en_dialect e" "en_field_count e' = en_field_count e"
    "en_limits e' = en_limits e" "en_blank_records e' = en_blank_records e"
    "en_expected e' = en_expected (count_noted (length fs) e)"
proof -
  have plainly: "reads_plainly e" and fresh: "\<not> rs_ignored (en_resume e)" "\<not> en_failed e" "length input \<le> MAX_OFFSET"
    "en_location e \<le> length input" "en_trim e = WS_NONE"
    using assms(1) by (simp_all add: ready_to_read_def)
  have skip: "(if en_skips_records e then skip_ignored_records input e else e) = e"
    using record_not_ignored [OF plainly fresh(1) assms(2,5-8)] by simp
  obtain ts where ts: "ts \<noteq> []" "list_all2 (spells (en_dialect e)) fs ts" "t = join_text (en_dialect e) ts @ ending_text (en_dialect e)"
    by (rule record_spelled [OF assms(5) reads_plainlyD(4) [OF plainly] assms(6,7)])
  have "0 < length (ending_text (en_dialect e))" by (simp add: ending_text_def)
  then have "0 < length (drop (en_location e) input)" unfolding assms(8) ts(3) by simp
  then have more: "en_location e \<noteq> length input" by simp
  let ?b = "e\<lparr>en_spans := the (storage_begin input MAX_OFFSET (en_spans e))\<rparr>"
  note begun = begin_reads [OF fresh(3), of e]
  note b = begin_spans_inv [OF begun(1) fresh(4)]
  have ready: "before_record opts input ?b"
    using assms(1) begun(2,3) b reader_config [OF b(2)] format_matches_config [OF b(2)]
    by (simp add: before_record_def ready_to_read_def)
  have accepts: "count_accepts ?b (length fs)" using assms(3) count_accepts_core [of ?b e] by simp
  have spelled: "drop (en_location ?b) input = join_text (en_dialect ?b) ts @ ending_text (en_dialect ?b) @ rest"
    using assms(8) ts(3) by simp
  obtain e' where e': "parse_record opts input (en_location ?b) False ?b = (e', Ok ())"
    "record_entries input e' = Ok (map (\<lambda>f. (Some f, False)) fs)" "config_of e' = config_of ?b"
    "en_location e' = en_location ?b + length (join_text (en_dialect ?b) ts @ ending_text (en_dialect ?b))"
    "en_expected e' = en_expected (count_noted (length fs) ?b)"
    using parse_record_reads [OF ready _ ts(1) _ accepts spelled] ts(2) assms(4) by auto
  have cc: "config_of e' = config_of e" using e'(3) by simp
  note c = config_ofD [OF cc]
  have trim: "trim_spans input False e' = (e', Ok ())"
    using fresh(5) c by (simp add: trim_spans_def WS_NONE_def ws_applies_to_scope_def)
  let ?e = "e'\<lparr>en_record_index := en_record_index e' + 1\<rparr>"
  have "fill_record_spans opts input False e = (?e, Ok (Some ((en_location e, en_location e'), en_record_index e')))"
    using fresh(2) more e'(1) trim skip begun(1)
    by (simp add: fill_record_spans_def Let_def parse_positioned_record_def bind_step_def return_step_def)
  moreover have "en_location e + length t \<le> length input"
    using arg_cong [OF assms(8), of length] fresh(4) by simp
  then have "ready_to_read opts input e'"
    using ready_config [OF cc _ assms(1)] e'(4) ts(3) by simp
  then have "ready_to_read opts input ?e" by (simp add: ready_record_index)
  ultimately show thesis
    using that [of ?e] e'(2,4,5) ts(3) c config_rest(3) [OF cc] count_noted_expected [of ?b e] by (simp add: record_entries_def)
qed

lemma nothing_left:
  assumes "\<not> rs_ignored (en_resume e)" "en_location e = length input"
  shows "skip_ignored_records input e = e"
proof -
  have "get_at input (en_location e) = None" using assms(2) by (simp add: get_at_def)
  then have comments: "skip_comments input e = e"
    using assms(1) by (auto simp: skip_comments_def resuming_def skip_comments_loop.simps [of _ input e] split: option.split)
  have "record_ending_width_at (en_dialect e) input (en_location e) = None"
    using record_ending_width_pos [of "en_dialect e" input "en_location e"] assms(2) by (cases "record_ending_width_at (en_dialect e) input (en_location e)") auto
  then have "skip_blank_lines input e = e" by (simp add: skip_blank_lines_def skip_blank_lines_loop.simps [of input e])
  then have "skip_ignored_loop input False e = (False, e)"
    using comments by (simp add: skip_ignored_loop.simps [of input False e] skip_pass_def Let_def)
  then show ?thesis using assms(1) by (simp add: skip_ignored_records_def)
qed

text \<open>The conditions on one record.\<close>

definition writable :: "engine \<Rightarrow> quoting \<Rightarrow> bytes list \<Rightarrow> bool" where
  "writable e q fs \<longleftrightarrow>
     fs \<noteq> [] \<and> length fs \<le> max_fields (en_limits e) \<and> not_blank e q fs \<and>
     record_spec (en_dialect e) q NullsNone (map Some fs) \<noteq> None"

definition written :: "dialect \<Rightarrow> quoting \<Rightarrow> bytes list list \<Rightarrow> bytes" where
  "written d q docs = concat (map (\<lambda>fs. the (record_spec d q NullsNone (map Some fs))) docs)"

lemma written_longer: "length docs \<le> length (written d q docs)" if "\<forall>fs \<in> set docs. record_spec d q NullsNone (map Some fs) \<noteq> None"
  using that
proof (induction docs)
  case (Cons fs docs)
  then obtain t where t: "record_spec d q NullsNone (map Some fs) = Some t" by auto
  then have "t \<noteq> []" by (auto simp: record_spec_def ending_text_def)
  then have "0 < length t" by simp
  moreover have "length docs \<le> length (written d q docs)" using Cons by simp
  ultimately have "Suc (length docs) \<le> length t + length (written d q docs)" by linarith
  then show ?case using t by (simp add: written_def)
qed (simp add: written_def)

lemma records_read:
  "ready_to_read opts input e \<Longrightarrow> uniform_counts e docs \<Longrightarrow> \<forall>fs \<in> set docs. writable e q fs \<Longrightarrow> q \<noteq> Raw \<Longrightarrow>
   drop (en_location e) input = written (en_dialect e) q docs \<Longrightarrow> length docs < fuel \<Longrightarrow>
   \<exists>rs. read_records opts input fuel e = (rs, AllRead) \<and> map snd rs = map (map (\<lambda>f. (Some f, False))) docs"
proof (induction docs arbitrary: e fuel)
  case Nil
  then obtain fuel' where fuel: "fuel = Suc fuel'" by (cases fuel) auto
  have "en_location e = length input" "\<not> en_failed e" "\<not> rs_ignored (en_resume e)"
    using Nil(1,5) by (auto simp: ready_to_read_def written_def)
  then show ?case using nothing_left [of e input] fuel by (simp add: fill_record_spans_def)
next
  case (Cons fs docs)
  obtain fuel' where fuel: "fuel = Suc fuel'" "length docs < fuel'" using Cons.prems(6) by (cases fuel) auto
  have w: "writable e q fs" using Cons.prems(3) by simp
  obtain t where t: "record_spec (en_dialect e) q NullsNone (map Some fs) = Some t" using w by (auto simp: writable_def)
  have spelled: "drop (en_location e) input = t @ written (en_dialect e) q docs"
    using Cons.prems(5) t by (simp add: written_def)
  have accepts: "count_accepts e (length fs)" by (rule uniform_counts_Cons(1) [OF Cons.prems(2)])
  have fs: "not_blank e q fs" "length fs \<le> max_fields (en_limits e)" "fs \<noteq> []" using w by (simp_all add: writable_def)
  obtain e' bounds index where e': "fill_record_spans opts input False e = (e', Ok (Some (bounds, index)))"
    "record_entries input e' = Ok (map (\<lambda>f. (Some f, False)) fs)" "en_location e' = en_location e + length t"
    "ready_to_read opts input e'" "en_dialect e' = en_dialect e" "en_field_count e' = en_field_count e"
    "en_limits e' = en_limits e" "en_blank_records e' = en_blank_records e"
    "en_expected e' = en_expected (count_noted (length fs) e)"
    by (rule record_read [OF Cons.prems(1) fs(1) accepts fs(2) t Cons.prems(4) fs(3) spelled])
  have "drop (en_location e') input = drop (length t) (drop (en_location e) input)" by (simp add: e'(3) add_ac)
  then have rest: "drop (en_location e') input = written (en_dialect e') q docs" unfolding spelled by (simp add: e'(5))
  have "\<forall>gs \<in> set docs. writable e' q gs"
    using Cons.prems(3) e'(5,7,8) by (simp add: writable_def not_blank_def)
  then obtain rs where "read_records opts input fuel' e' = (rs, AllRead)" "map snd rs = map (map (\<lambda>f. (Some f, False))) docs"
    using Cons.IH [OF e'(4) uniform_counts_Cons(2) [OF Cons.prems(2) e'(6,9)] _ Cons.prems(4) rest fuel(2)] by blast
  then show ?case using e'(1,2) fuel(1) by simp
qed

text \<open>
  What \<open>write_record_text\<close> spells, \<open>read_record\<close> reads: the concatenation of the texts of any
  records, under every quoting policy but \<open>Raw\<close>, every single-byte dialect whose escape quotes and
  every record ending, is read back as exactly those records, to the end of the input, by a reader
  that does not trim, under a field-count policy the records meet and limits that hold the input.
  Comments and blank lines may be skipped: no record is taken for one, except for a record of one
  empty field under \<open>Never\<close> and for dialects whose delimiter or quote is the carriage return.
\<close>

lemma written_records_read_back:
  assumes "ready_to_read opts input e" "drop (en_location e) input = written (en_dialect e) q docs" "q \<noteq> Raw"
    "\<forall>fs \<in> set docs. writable e q fs" "uniform_counts e docs"
  shows "\<exists>rs. records_of opts input e = (rs, AllRead) \<and> map snd rs = map (map (\<lambda>f. (Some f, False))) docs"
proof -
  have "\<forall>fs \<in> set docs. record_spec (en_dialect e) q NullsNone (map Some fs) \<noteq> None"
    using assms(4) by (simp add: writable_def)
  then have "length docs \<le> length (drop (en_location e) input)" using written_longer assms(2) by simp
  then have "length docs < length input + 1" by simp
  then show ?thesis unfolding records_of_def by (rule records_read [OF assms(1,5,4,3,2)])
qed

end
