(* ===== verification/Cursor.thy ===== *)
theory Cursor
  imports Headers
begin

text \<open>
  The pull cursor over a whole input (\<open>coseva/src/engine/cursor.rs\<close>, the record views of
  \<open>engine/access.rs\<close>): \<open>advance_line\<close> settles the record it stands at, positions on the next one without
  parsing it, and a view parses it when it is asked for. The cursor is the engine with its headers
  and the position of the current record; \<open>NO_OFFSET\<close> stands for no position. The theorem is that a
  caller who views some of the lines and skips the others sees the same records as \<open>records_of\<close>
  reads, and the same end.
\<close>

section \<open>State\<close>

record line_cursor =
  cu_headed :: headed
  cu_start :: nat
  cu_index :: nat
  cu_end :: nat
  cu_staged_valid :: bool
  cu_staged_form_owned :: bool
  cu_backoff :: nat

type_synonym 'a move = "(line_cursor, 'a) act"

definition cu_engine :: "line_cursor \<Rightarrow> engine" where "cu_engine c = he_engine (cu_headed c)"

definition set_engine :: "engine \<Rightarrow> line_cursor \<Rightarrow> line_cursor" where
  "set_engine e c = c\<lparr>cu_headed := (cu_headed c)\<lparr>he_engine := e\<rparr>\<rparr>"

definition on_engine :: "'a step \<Rightarrow> 'a move" where
  "on_engine m c = (case m (cu_engine c) of (e, r) \<Rightarrow> (set_engine e c, r))"

definition on_headed :: "(headed, 'a) act \<Rightarrow> 'a move" where
  "on_headed m c = (case m (cu_headed c) of (h, r) \<Rightarrow> (c\<lparr>cu_headed := h\<rparr>, r))"

definition cursor_from_config :: "bytes \<Rightarrow> parser_settings \<Rightarrow> headers \<Rightarrow> line_cursor" where
  "cursor_from_config input s headers =
     \<lparr>cu_headed = headed_from_config input s headers, cu_start = NO_OFFSET, cu_index = 0, cu_end = NO_OFFSET,
      cu_staged_valid = False, cu_staged_form_owned = False, cu_backoff = 0\<rparr>"

section \<open>Moving to the next record\<close>

definition prepare_advance :: "bytes \<Rightarrow> unit move" where
  "prepare_advance input c =
     (let e = cu_engine c
      in if en_failed e then (c, Err (engine_error e input ParserFailed (en_location e)))
         else on_headed (ensure_headers input) c)"

text \<open>A record that was advanced to but never viewed is parsed before the cursor leaves it.\<close>

definition settle :: "format_options option \<Rightarrow> bytes \<Rightarrow> unit move" where
  "settle opts input c =
     (let e = cu_engine c
      in if en_location e = cu_start c
         then bind_step (on_engine (parse_positioned_record opts input False)) (\<lambda>_. return_step ())
                (set_engine (e\<lparr>en_record_index := cu_index c\<rparr>) c)
         else (c, Ok ()))"

text \<open>
  The engine on the next record. A checkpoint after skipped records says where a data record starts
  that an earlier, narrower window refused.
\<close>

definition position_engine :: "bytes \<Rightarrow> engine \<Rightarrow> engine" where
  "position_engine input e =
     (if en_skips_records e
      then skip_ignored_records input
        (if \<not> rs_ignored (en_resume e) \<and> rs_record_start (en_resume e) \<le> length input
         then e\<lparr>en_location := max (en_location e) (rs_record_start (en_resume e))\<rparr> else e)
      else e)"

definition position_next :: "bytes \<Rightarrow> bool move" where
  "position_next input c =
     (let e = position_engine input (cu_engine c); c1 = set_engine e c
      in if en_location e = length input then (c1\<lparr>cu_start := NO_OFFSET\<rparr>, Ok False)
         else (c1\<lparr>cu_start := en_location e, cu_index := en_record_index e, cu_end := NO_OFFSET\<rparr>, Ok True))"

definition advance_line :: "format_options option \<Rightarrow> bytes \<Rightarrow> bool move" where
  "advance_line opts input =
     bind_step (prepare_advance input) (\<lambda>_. bind_step (settle opts input) (\<lambda>_. position_next input))"

section \<open>Viewing the current record\<close>

definition rewind_to_current :: "unit move" where
  "rewind_to_current c =
     (let e = cu_engine c
      in if cu_start c = NO_OFFSET then (c, Panic)
         else if en_location e \<noteq> cu_start c
         then (set_engine (e\<lparr>en_location := cu_start c, en_record_index := cu_index c\<rparr>) c, Ok ())
         else (c, Ok ()))"

definition check_materialized :: "((nat \<times> nat) \<times> nat) option move" where
  "check_materialized c =
     (if cu_start c = NO_OFFSET then (c, Panic)
      else if cu_end c \<noteq> NO_OFFSET \<and> \<not> cu_staged_valid c
      then (c, Ok (Some ((cu_start c, cu_end c), cu_index c)))
      else (c\<lparr>cu_staged_form_owned := False, cu_staged_valid := False\<rparr>, Ok None))"

definition materialize_full :: "format_options option \<Rightarrow> bytes \<Rightarrow> ((nat \<times> nat) \<times> nat) move" where
  "materialize_full opts input =
     bind_step check_materialized (\<lambda>found.
       case found of
         Some r \<Rightarrow> return_step r
       | None \<Rightarrow>
           bind_step rewind_to_current (\<lambda>_.
             bind_step (on_engine (parse_positioned_record opts input False)) (\<lambda>r c.
               (c\<lparr>cu_end := snd (fst r)\<rparr>, Ok r))))"

text \<open>\<open>record\<close>: the byte range, the index and the fields of the current record.\<close>

definition record_view :: "format_options option \<Rightarrow> bytes \<Rightarrow> (parsed_record \<times> nat) move" where
  "record_view opts input =
     bind_step (materialize_full opts input) (\<lambda>(bounds, index) c.
       (c, map_ok (\<lambda>entries. ((bounds, entries), index)) (record_entries input (cu_engine c))))"

text \<open>One field of the current record, without the view around it.\<close>

definition field_view :: "format_options option \<Rightarrow> bytes \<Rightarrow> nat \<Rightarrow> bytes option option move" where
  "field_view opts input column =
     bind_step (materialize_full opts input) (\<lambda>_ c. (c, Ok (storage_get input column (en_spans (cu_engine c)))))"

section \<open>Repositioning\<close>

definition seek_exact :: "nat \<Rightarrow> nat \<Rightarrow> nat \<Rightarrow> line_cursor \<Rightarrow> line_cursor" where
  "seek_exact byte line rec c =
     (set_engine (seek_to_exact byte line rec (cu_engine c)) c)
       \<lparr>cu_start := NO_OFFSET, cu_index := 0, cu_end := NO_OFFSET, cu_backoff := 0\<rparr>"

definition seek_line :: "nat \<Rightarrow> nat \<Rightarrow> nat \<Rightarrow> line_cursor \<Rightarrow> line_cursor" where
  "seek_line byte line rec = seek_exact byte (max line 1) rec"

definition reset_position :: "nat \<Rightarrow> nat \<Rightarrow> line_cursor \<Rightarrow> line_cursor" where
  "reset_position line rec c =
     (set_engine ((cu_engine c)\<lparr>en_location := 0, en_line_base := max line 1, en_line_origin := 0, en_folded_upto := 0,
        en_folded_lines := 0, en_record_index := rec, en_resume := resume_new, en_failed := False\<rparr>) c)
       \<lparr>cu_start := NO_OFFSET, cu_index := 0, cu_end := NO_OFFSET, cu_backoff := 0\<rparr>"

definition advance_line_origin :: "nat \<Rightarrow> nat \<Rightarrow> engine \<Rightarrow> engine" where
  "advance_line_origin byte line e =
     (if en_line_origin e \<le> byte
      then e\<lparr>en_line_base := max line 1, en_line_origin := byte, en_folded_upto := byte, en_folded_lines := 0\<rparr>
      else e)"

definition skip_detected_bom :: "bytes \<Rightarrow> engine \<Rightarrow> engine" where
  "skip_detected_bom input e = (if en_location e = 0 \<and> starts_with input BOM then e\<lparr>en_location := 3\<rparr> else e)"

definition needs_first_record_width :: "engine \<Rightarrow> bool" where
  "needs_first_record_width e \<longleftrightarrow> en_field_count e = MatchFirst \<and> en_expected e = None"

definition is_done :: "bytes \<Rightarrow> engine \<Rightarrow> bool" where
  "is_done input e \<longleftrightarrow> en_failed e \<or> length input \<le> en_location e"

section \<open>A caller who views some of the lines\<close>

fun read_lines ::
    "format_options option \<Rightarrow> bytes \<Rightarrow> (nat \<Rightarrow> bool) \<Rightarrow> nat \<Rightarrow> line_cursor \<Rightarrow> parsed_record list \<times> reading_end" where
  "read_lines opts input view 0 c = ([], OutOfFuel)"
| "read_lines opts input view (Suc fuel) c =
     (case advance_line opts input c of
        (c', Ok False) \<Rightarrow> ([], AllRead)
      | (c', Err er) \<Rightarrow> ([], Refused er)
      | (c', Panic) \<Rightarrow> ([], Crashed)
      | (c', Ok True) \<Rightarrow>
          if view (cu_index c') then
            (case record_view opts input c' of
               (c2, Ok (r, _)) \<Rightarrow>
                 (case read_lines opts input view fuel c2 of (rest, how) \<Rightarrow> (r # rest, how))
             | (c2, Err er) \<Rightarrow> ([], Refused er)
             | (c2, Panic) \<Rightarrow> ([], Crashed))
          else read_lines opts input view fuel c')"

section \<open>Where the checkpoint is\<close>

text \<open>A checkpoint that a whole-input parser can hold: behind the cursor, or none.\<close>

definition behind :: "bytes \<Rightarrow> engine \<Rightarrow> bool" where
  "behind input e \<longleftrightarrow>
     \<not> rs_ignored (en_resume e) \<and>
     (length input < rs_record_start (en_resume e) \<or> rs_record_start (en_resume e) \<le> en_location e)"

definition stuck :: "bytes \<Rightarrow> engine \<Rightarrow> bool" where
  "stuck input e \<longleftrightarrow> en_location e = length input \<and> \<not> resuming input e"

lemma behind_new: "length input < usize_max \<Longrightarrow> behind input (e\<lparr>en_location := n, en_resume := resume_new\<rparr>)"
  by (simp add: behind_def resume_new_def NO_OFFSET_def)

lemma behind_comments:
  "behind input e \<Longrightarrow> length input < usize_max \<Longrightarrow>
     behind input (skip_comments_loop c input e) \<or> stuck input (skip_comments_loop c input e)"
proof (induction c input e rule: skip_comments_loop.induct)
  case (1 c input e)
  have fresh: "\<not> resuming input e" using 1(2) by (simp add: behind_def resuming_def)
  note eq = skip_comments_loop.simps [of c input e]
  show ?case
  proof (cases "get_at input (en_location e) = Some c")
    case False
    then show ?thesis using 1(2) fresh by (simp add: eq)
  next
    case True
    then have lt: "en_location e < length input" by (simp add: get_at_Some_iff)
    show ?thesis
    proof (cases "find_record_ending (en_dialect e) input (en_location e)")
      case None
      then have "skip_comments_loop c input e = e\<lparr>en_resume := resume_ignored (en_location e)
          (max (length input - max (tail_width (ending_tail (en_dialect e))) 2) (en_location e)),
          en_location := length input\<rparr>"
        using True fresh by (simp add: eq Let_def)
      then show ?thesis using lt by (simp add: stuck_def resuming_def resume_ignored_def)
    next
      case (Some n)
      then show ?thesis
        using 1(1) [OF _ refl refl, of n] True fresh 1(3) behind_new by (simp add: eq Let_def)
    qed
  qed
qed

lemma behind_blanks: "behind input e \<Longrightarrow> behind input (skip_blank_lines_loop input e)"
proof (induction input e rule: skip_blank_lines_loop.induct)
  case (1 input e)
  then show ?case
    by (cases "record_ending_width_at (en_dialect e) input (en_location e)")
      (auto simp: skip_blank_lines_loop.simps [of input e] behind_def)
qed

lemma stuck_pass: "stuck input e \<Longrightarrow> skip_pass input e = e"
proof -
  assume s: "stuck input e"
  then have none: "get_at input (en_location e) = None" by (simp add: stuck_def get_at_def)
  have "skip_comments input e = e"
    using s none by (auto simp: skip_comments_def stuck_def skip_comments_loop.simps [of _ input e] split: option.split)
  moreover have "record_ending_width_at (en_dialect e) input (en_location e) = None"
    using s record_ending_width_pos [of "en_dialect e" input "en_location e"]
    by (cases "record_ending_width_at (en_dialect e) input (en_location e)") (auto simp: stuck_def)
  ultimately show "skip_pass input e = e"
    by (simp add: skip_pass_def skip_blank_lines_def skip_blank_lines_loop.simps [of input e])
qed

lemma behind_pass:
  assumes "behind input e" "length input < usize_max"
  shows "behind input (skip_pass input e) \<or> stuck input (skip_pass input e)"
proof -
  have "behind input (skip_comments input e) \<or> stuck input (skip_comments input e)"
    using assms behind_comments by (auto simp: skip_comments_def split: option.split)
  then show ?thesis
  proof
    assume "behind input (skip_comments input e)"
    then show ?thesis using behind_blanks by (simp add: skip_pass_def skip_blank_lines_def)
  next
    assume s: "stuck input (skip_comments input e)"
    have "record_ending_width_at d input (length input) = None" for d
      using record_ending_width_pos [of d input "length input"] by (cases "record_ending_width_at d input (length input)") auto
    then show ?thesis
      using s by (simp add: skip_pass_def skip_blank_lines_def skip_blank_lines_loop.simps [of input "skip_comments input e"] stuck_def)
  qed
qed

lemma behind_loop:
  "behind input x \<or> stuck input x \<Longrightarrow> length input < usize_max \<Longrightarrow>
     behind input (snd (skip_ignored_loop input b x)) \<or> stuck input (snd (skip_ignored_loop input b x))"
proof (induction input b x rule: skip_ignored_loop.induct)
  case (1 input b x)
  have keep: "behind input (skip_pass input x) \<or> stuck input (skip_pass input x)"
    using 1(2) behind_pass [OF _ 1(3), of x] stuck_pass [of input x] by (elim disjE) simp_all
  show ?case
  proof (cases "en_location (skip_pass input x) = en_location x")
    case True
    then show ?thesis using keep by (simp add: skip_ignored_loop.simps [of input b x])
  next
    case False
    have "skip_ignored_loop input b x = skip_ignored_loop input True (skip_pass input x)"
      using False by (simp add: skip_ignored_loop.simps [of input b x])
    then show ?thesis using 1(1) [OF refl refl False keep 1(3)] by (simp only:)
  qed
qed

lemma behind_skip:
  assumes "behind input e" "length input < usize_max"
  shows "behind input (skip_ignored_records input e) \<or> en_location (skip_ignored_records input e) = length input"
proof -
  obtain b x where x: "skip_ignored_loop input (rs_ignored (en_resume e)) e = (b, x)" by fastforce
  have "behind input x \<or> stuck input x" using behind_loop [of input e "rs_ignored (en_resume e)"] assms x by simp
  then show ?thesis
    using x by (auto simp: skip_ignored_records_def behind_def stuck_def resume_fresh_def)
qed

lemma position_engine_behind:
  "behind input e \<Longrightarrow> position_engine input e = (if en_skips_records e then skip_ignored_records input e else e)"
proof -
  assume b: "behind input e"
  have "e\<lparr>en_location := max (en_location e) (rs_record_start (en_resume e))\<rparr> = e" if "rs_record_start (en_resume e) \<le> length input"
    using b that by (simp add: behind_def max_absorb1)
  then show ?thesis by (simp add: position_engine_def)
qed

section \<open>Lazy lines are the records\<close>

lemma engine_of_set [simp]:
  "cu_engine (set_engine e c) = e" "he_initialized (cu_headed (set_engine e c)) = he_initialized (cu_headed c)"
  "cu_start (set_engine e c) = cu_start c" "cu_index (set_engine e c) = cu_index c"
  "set_engine (cu_engine c) c = c" "set_engine e (set_engine e' c) = set_engine e c"
  by (simp_all add: set_engine_def cu_engine_def)

lemma engine_of_updates [simp]:
  "cu_engine (c\<lparr>cu_start := a\<rparr>) = cu_engine c" "cu_engine (c\<lparr>cu_index := b\<rparr>) = cu_engine c"
  "cu_engine (c\<lparr>cu_end := d\<rparr>) = cu_engine c" "cu_engine (c\<lparr>cu_staged_valid := x\<rparr>) = cu_engine c"
  "cu_engine (c\<lparr>cu_staged_form_owned := y\<rparr>) = cu_engine c" "cu_engine (c\<lparr>cu_backoff := z\<rparr>) = cu_engine c"
  by (simp_all add: cu_engine_def)

text \<open>An engine the pull cursor can stand on, and the two states of the cursor.\<close>

definition steady :: "format_options option \<Rightarrow> bytes \<Rightarrow> engine \<Rightarrow> bool" where
  "steady opts input e \<longleftrightarrow>
     engine_wf e \<and> format_matches opts e \<and> en_location e \<le> length input \<and> \<not> en_failed e \<and>
     checkpoint_sane e \<and> behind input e \<and> length input < usize_max"

definition at_rest :: "line_cursor \<Rightarrow> engine \<Rightarrow> bool" where
  "at_rest c e \<longleftrightarrow> cu_engine c = e \<and> he_initialized (cu_headed c) \<and> cu_start c \<noteq> en_location e"

definition pending :: "line_cursor \<Rightarrow> engine \<Rightarrow> bool" where
  "pending c e \<longleftrightarrow>
     cu_engine c = e \<and> he_initialized (cu_headed c) \<and> cu_start c = en_location e \<and>
     cu_index c = en_record_index e \<and> cu_end c = NO_OFFSET"

lemma prepared: "he_initialized (cu_headed c) \<Longrightarrow> \<not> en_failed (cu_engine c) \<Longrightarrow> prepare_advance input c = (c, Ok ())"
  by (simp add: prepare_advance_def on_headed_def ensure_headers_def)

lemma parsed_steady:
  assumes "steady opts input e" "en_location e < length input" "parse_positioned_record opts input header e = (e', Ok r)"
  shows "r = ((en_location e, en_location e'), en_record_index e)" "en_location e < en_location e'" "steady opts input e'"
    "en_record_index e' = en_record_index e + 1" "\<exists>entries. record_entries input e' = Ok entries"
    "format_matches g e' = format_matches g e"
proof -
  have s: "engine_wf e" "format_matches opts e" using assms(1) by (simp_all add: steady_def)
  obtain origin until i where r: "r = ((origin, until), i)" by (metis prod.collapse)
  have p: "origin = en_location e \<and> until = en_location e' \<and> i = en_record_index e \<and>
      record_accepted input e origin until e' \<and> en_record_index e' = i + 1 \<and>
      config_of (e'\<lparr>en_record_index := 0\<rparr>) = config_of (e\<lparr>en_record_index := 0\<rparr>)"
    using parse_positioned_result [OF s assms(2), of header] unfolding assms(3) r outcome.case prod.case .
  show "r = ((en_location e, en_location e'), en_record_index e)" "en_record_index e' = en_record_index e + 1"
    using p r by simp_all
  have lt: "en_location e < en_location e'" "en_location e' \<le> length input" and
    entries: "\<exists>fields. record_entries input e' = Ok (map (\<lambda>(bs, null). (Some bs, null)) fields)"
    using p by (auto simp: record_accepted_def)
  show "en_location e < en_location e'" by (rule lt(1))
  show "\<exists>entries. record_entries input e' = Ok entries" using entries by blast
  have c: "config_of (e'\<lparr>en_record_index := 0\<rparr>) = config_of (e\<lparr>en_record_index := 0\<rparr>)" using p by blast
  have forget: "engine_wf (a\<lparr>en_record_index := n\<rparr>) = engine_wf a" "format_matches x (a\<lparr>en_record_index := n\<rparr>) = format_matches x a" for a n x
    by (simp_all add: engine_wf_def format_matches_def cong: option.case_cong)
  show "format_matches g e' = format_matches g e" using format_matches_config [OF c, of g] by (simp add: forget)
  have "engine_wf e'" "format_matches opts e'"
    using engine_wf_config [OF c] format_matches_config [OF c, of opts] s by (simp_all add: forget)
  moreover have "en_failed e' = en_failed e" "en_resume e' = en_resume e"
    using c unfolding config_of_def by (cases e; cases e'; simp)+
  ultimately show "steady opts input e'"
    using assms(1) lt by (auto simp: steady_def behind_def checkpoint_sane_def)
qed

lemma parsed_otherwise:
  assumes "steady opts input e" "roomy input e" "en_location e < length input"
  shows "parse_positioned_record opts input False e \<noteq> (e', Panic)"
proof
  assume "parse_positioned_record opts input False e = (e', Panic)"
  then have "\<not> roomy input e" using parse_positioned_result [of e opts input False] assms(1,3) by (simp add: steady_def)
  then show False using assms(2) by simp
qed

lemma position_steady:
  assumes "steady opts input e"
  shows "fill_record_spans opts input header e =
      (if en_location (position_engine input e) = length input then (position_engine input e, Ok None)
       else bind_step (parse_positioned_record opts input header) (\<lambda>r. return_step (Some r)) (position_engine input e))"
    "en_location (position_engine input e) \<noteq> length input \<Longrightarrow> steady opts input (position_engine input e)"
    "en_location (position_engine input e) \<le> length input" "en_record_index (position_engine input e) = en_record_index e"
    "en_failed (position_engine input e) = en_failed e" "checkpoint_sane (position_engine input e)"
    "engine_wf (position_engine input e)"
proof -
  let ?e = "position_engine input e"
  have s: "engine_wf e" "format_matches opts e" "\<not> en_failed e" "behind input e" "length input < usize_max" "checkpoint_sane e"
    "en_location e \<le> length input"
    using assms by (simp_all add: steady_def)
  note pos = position_engine_behind [OF s(4)]
  show "fill_record_spans opts input header e =
      (if en_location ?e = length input then (?e, Ok None)
       else bind_step (parse_positioned_record opts input header) (\<lambda>r. return_step (Some r)) ?e)"
    using s(3) by (simp add: fill_record_spans_def Let_def pos)
  have sk: "skips input e ?e" using skip_ignored_skips [of e input] s(1) by (simp add: pos engine_wf_def)
  have aside: "set_aside ?e = set_aside e" and moved: "en_location ?e \<le> length input" "checkpoint_sane ?e"
    using sk s by (auto simp: skips_def)
  show "en_location ?e \<le> length input" "checkpoint_sane ?e" by (rule moved)+
  note c = skips_config [OF sk]
  show "engine_wf ?e" using c(1) s(1) by simp
  show "en_record_index ?e = en_record_index e" by (rule c(4))
  have "config_of (?e\<lparr>en_resume := resume_new\<rparr>) = config_of (e\<lparr>en_resume := resume_new\<rparr>)" by (rule set_asideD(2) [OF aside])
  then show failed: "en_failed ?e = en_failed e" unfolding config_of_def by (cases e; cases ?e; simp)
  assume more: "en_location ?e \<noteq> length input"
  then have "behind input ?e" using behind_skip [OF s(4,5)] s(4) by (auto simp: pos split: if_splits)
  then show "steady opts input ?e"
    using s c moved failed by (simp add: steady_def)
qed

lemma advance_rest:
  assumes "at_rest c e" "steady opts input e"
  shows "advance_line opts input c = position_next input c"
  using assms by (auto simp: advance_line_def bind_step_def prepared settle_def at_rest_def steady_def Let_def)

lemma position_next_cases:
  assumes "at_rest c e" "steady opts input e"
  shows "if en_location (position_engine input e) = length input then \<exists>c'. position_next input c = (c', Ok False)
    else \<exists>c'. position_next input c = (c', Ok True) \<and> pending c' (position_engine input e)"
  using assms by (auto simp: position_next_def at_rest_def pending_def Let_def set_engine_def cu_engine_def)

text \<open>Moving on from a pending line parses it first.\<close>

lemma advance_pending:
  assumes "pending c e" "steady opts input e"
  shows "advance_line opts input c =
    (case parse_positioned_record opts input False e of
       (e', Ok _) \<Rightarrow> position_next input (set_engine e' c)
     | (e', Err er) \<Rightarrow> (set_engine e' c, Err er)
     | (e', Panic) \<Rightarrow> (set_engine e' c, Panic))"
proof -
  have c: "cu_engine c = e" "cu_start c = en_location e" "cu_index c = en_record_index e" "he_initialized (cu_headed c)" "\<not> en_failed e"
    using assms by (simp_all add: pending_def steady_def)
  have "set_engine (e\<lparr>en_record_index := cu_index c\<rparr>) c = c" using c(1,3) by (auto simp: set_engine_def cu_engine_def)
  then show ?thesis
    using c by (auto simp: advance_line_def bind_step_def prepared settle_def Let_def on_engine_def return_step_def
        split: prod.split outcome.split)
qed

text \<open>A view of a pending line parses it too.\<close>

lemma view_pending:
  assumes "pending c e" "steady opts input e" "en_location e < length input"
  shows "record_view opts input c =
    (case parse_positioned_record opts input False e of
       (e', Ok ((origin, until), i)) \<Rightarrow>
         ((set_engine e' c)\<lparr>cu_staged_form_owned := False, cu_staged_valid := False, cu_end := until\<rparr>,
          map_ok (\<lambda>entries. (((origin, until), entries), i)) (record_entries input e'))
     | (e', Err er) \<Rightarrow> ((set_engine e' c)\<lparr>cu_staged_form_owned := False, cu_staged_valid := False\<rparr>, Err er)
     | (e', Panic) \<Rightarrow> ((set_engine e' c)\<lparr>cu_staged_form_owned := False, cu_staged_valid := False\<rparr>, Panic))"
proof -
  let ?c = "c\<lparr>cu_staged_form_owned := False, cu_staged_valid := False\<rparr>"
  have c: "cu_engine c = e" "cu_start c = en_location e" "cu_end c = NO_OFFSET" "cu_start c \<noteq> NO_OFFSET"
    using assms by (auto simp: pending_def steady_def NO_OFFSET_def)
  have "check_materialized c = (?c, Ok None)" "rewind_to_current ?c = (?c, Ok ())"
    using c by (simp_all add: check_materialized_def rewind_to_current_def Let_def cu_engine_def)
  then show ?thesis
    using c by (auto simp: record_view_def materialize_full_def bind_step_def on_engine_def set_engine_def cu_engine_def
        split: prod.split outcome.split)
qed

lemma rest_after:
  assumes "pending c e" "en_location e < en_location e'" "cu_engine c' = e'" "he_initialized (cu_headed c')" "cu_start c' = cu_start c"
  shows "at_rest c' e'"
  using assms by (simp add: at_rest_def pending_def)

definition chosen :: "(nat \<Rightarrow> bool) \<Rightarrow> nat \<Rightarrow> parsed_record list \<times> reading_end \<Rightarrow> parsed_record list \<times> reading_end" where
  "chosen view n result = (nths (fst result) {i. view (n + i)}, snd result)"

lemma chosen_Cons:
  "chosen view n (case result of (rest, how) \<Rightarrow> (x # rest, how)) =
     (case chosen view (Suc n) result of (rest, how) \<Rightarrow> (if view n then x # rest else rest, how))"
  by (auto simp: chosen_def nths_Cons split: prod.split)

lemma lines_match:
  "steady opts input e \<Longrightarrow> at_rest c e \<Longrightarrow> snd (read_records opts input fuel e) \<noteq> OutOfFuel \<Longrightarrow>
     read_lines opts input view (Suc fuel) c = chosen view (en_record_index e) (read_records opts input fuel e)"
proof (induction fuel arbitrary: c e)
  case (Suc fuel)
  let ?e = "position_engine input e"
  note pos = position_steady [OF Suc.prems(1)]
  note next_pos = position_next_cases [OF Suc.prems(2,1)]
  note run = advance_rest [OF Suc.prems(2,1)]
  show ?case
  proof (cases "en_location ?e = length input")
    case True
    then obtain c' where "position_next input c = (c', Ok False)" using next_pos by auto
    then show ?thesis using True run pos(1) by (simp add: chosen_def)
  next
    case more: False
    then obtain c1 where c1: "position_next input c = (c1, Ok True)" "pending c1 ?e" using next_pos by auto
    have steady: "steady opts input ?e" by (rule pos(2) [OF more])
    have lt: "en_location ?e < length input" using more pos(3) by simp
    have index: "cu_index c1 = en_record_index e" using c1(2) pos(4) by (simp add: pending_def)
    have first: "read_lines opts input view (Suc (Suc fuel)) c =
        (if view (en_record_index e) then
            (case record_view opts input c1 of
               (c2, Ok (r, _)) \<Rightarrow> (case read_lines opts input view (Suc fuel) c2 of (rest, how) \<Rightarrow> (r # rest, how))
             | (c2, Err er) \<Rightarrow> ([], Refused er)
             | (c2, Panic) \<Rightarrow> ([], Crashed))
          else read_lines opts input view (Suc fuel) c1)"
      by (subst read_lines.simps) (simp add: run c1(1) index)
    note parse = advance_pending [OF c1(2) steady] view_pending [OF c1(2) steady lt]
    obtain e' r where p: "parse_positioned_record opts input False ?e = (e', r)" by fastforce
    have records: "read_records opts input (Suc fuel) e =
        (case r of Err er \<Rightarrow> ([], Refused er) | Panic \<Rightarrow> ([], Crashed)
         | Ok (bounds, index) \<Rightarrow> (case record_entries input e' of
             Ok entries \<Rightarrow> (case read_records opts input fuel e' of (rest, how) \<Rightarrow> ((bounds, entries) # rest, how))
           | _ \<Rightarrow> ([], Crashed)))"
      using more p pos(1) by (auto simp: bind_step_def return_step_def split: outcome.splits prod.split)
    show ?thesis
    proof (cases r)
      case (Ok x)
      note q = parsed_steady [OF steady lt p [unfolded Ok]]
      obtain entries where entries: "record_entries input e' = Ok entries" using q(5) by blast
      have whole: "read_records opts input (Suc fuel) e =
          (case read_records opts input fuel e' of (rest, how) \<Rightarrow> (((en_location ?e, en_location e'), entries) # rest, how))"
        using records Ok q(1) entries by simp
      have "snd (read_records opts input fuel e') \<noteq> OutOfFuel"
        using Suc.prems(3) unfolding whole by (simp split: prod.splits)
      then have IH: "read_lines opts input view (Suc fuel) c2 = chosen view (Suc (en_record_index e)) (read_records opts input fuel e')"
        if "at_rest c2 e'" for c2
        using Suc.IH [OF q(3) that] q(4) pos(4) by simp
      show ?thesis
      proof (cases "view (en_record_index e)")
        case True
        let ?c2 = "(set_engine e' c1)\<lparr>cu_staged_form_owned := False, cu_staged_valid := False, cu_end := en_location e'\<rparr>"
        have "at_rest ?c2 e'" using rest_after [OF c1(2) q(2), of ?c2] c1(2) by (simp add: pending_def)
        then show ?thesis
          using first True parse(2) p Ok q(1) entries IH whole by (simp add: chosen_Cons)
      next
        case False
        let ?c2 = "set_engine e' c1"
        have rest: "at_rest ?c2 e'" using rest_after [OF c1(2) q(2), of ?c2] c1(2) by (simp add: pending_def)
        have "advance_line opts input c1 = advance_line opts input ?c2"
          using parse(1) p Ok advance_rest [OF rest q(3)] by simp
        then have "read_lines opts input view (Suc fuel) c1 = read_lines opts input view (Suc fuel) ?c2" by simp
        then show ?thesis using first False IH [OF rest] whole by (simp add: chosen_Cons split: prod.split)
      qed
    next
      case (Err er)
      then show ?thesis using first parse p records by (simp add: chosen_def)
    next
      case Panic
      then show ?thesis using first parse p records by (simp add: chosen_def)
    qed
  qed
qed (simp add: chosen_def)

text \<open>
  C20: Parsing is lazy and it does not show: a caller who walks the lines of an input with \<open>advance_line\<close>
  and views only those it chooses gets exactly the chosen records of the eager reading, with the same
  bounds and fields, and stops where that stops, with the same error; a line that is skipped over
  unviewed is still checked. The cursor is any that stands between two records with its headers
  settled and has not failed, over any valid dialect and any limits, errors of the limits included.
\<close>

theorem lazy_lines_are_records:
  assumes "steady opts input (cu_engine c)" "at_rest c (cu_engine c)"
  shows "read_lines opts input view (length input + 2) c =
    chosen view (en_record_index (cu_engine c)) (records_of opts input (cu_engine c))"
proof -
  have "snd (records_of opts input (cu_engine c)) \<noteq> OutOfFuel"
    using assms(1) read_records_end [of "cu_engine c" opts input "length input + 1"]
    unfolding records_of_def steady_def
    by (cases "read_records opts input (length input + 1) (cu_engine c)") (simp del: read_records.simps)
  then show ?thesis
    using lines_match [OF assms, of "length input + 1" view] by (simp add: records_of_def)
qed

definition sample_cursor :: line_cursor where "sample_cursor = cursor_from_config [97, 44, 98, 10] sample_settings HeadersNone"

lemma sample_cursor_engine: "cu_engine sample_cursor = sample_engine" "at_rest sample_cursor sample_engine"
  by (simp_all add: sample_cursor_def cursor_from_config_def cu_engine_def headed_from_config_def header_policy_def
      expected_from_def sample_eval at_rest_def NO_OFFSET_def usize_max_def)

lemma sample_steady: "steady None [97, 44, 98, 10] sample_engine"
  using sample_engine_ok
  by (simp add: steady_def behind_def sample_eval resume_new_def NO_OFFSET_def usize_max_def)

theorem lazy_lines_are_records_witness:
  "read_lines None [97, 44, 98, 10] (\<lambda>i. i = 0) 6 sample_cursor =
     chosen (\<lambda>i. i = 0) 0 (records_of None [97, 44, 98, 10] sample_engine)"
proof -
  have "en_record_index sample_engine = 0" by (simp add: sample_eval)
  then show ?thesis
    using lazy_lines_are_records [of None "[97, 44, 98, 10]" sample_cursor "\<lambda>i. i = 0"] sample_cursor_engine sample_steady
    by (simp add: eval_nat_numeral)
qed

end
