(* ===== verification/SliceParser.thy ===== *)
theory SliceParser
  imports RoundTrip Cursor
begin

text \<open>
  Options and the parser over a slice: the setters of \<open>config/format_options.rs\<close>,
  \<open>config/parse_options.rs\<close>, \<open>config/buffer_capacity.rs\<close> and \<open>slice_parser.rs\<close>. The theorem closes the
  loop between the emitter and the parser: what was emitted under a format is read back by a parser
  built with the same format, for the formats of \<open>reads_back\<close> and within the limits.
\<close>

section \<open>Setting a format\<close>

text \<open>Every setter drops the tag, a hint that must never claim more than the fields say.\<close>

definition set_delimiter :: "byte \<Rightarrow> format_options \<Rightarrow> format_options" where
  "set_delimiter b f =
     f\<lparr>fo_tag := TagCustom, fo_dialect := (fo_dialect f)\<lparr>delimiter := b, delimiter_tail := TAIL_EMPTY\<rparr>\<rparr>"

definition delimiter_sequence :: "bytes \<Rightarrow> format_options \<Rightarrow> format_options" where
  "delimiter_sequence bs f =
     (let d = fo_dialect f; d1 = (if bs \<noteq> [] then d\<lparr>delimiter := hd bs\<rparr> else d)
      in f\<lparr>fo_tag := TagCustom, fo_dialect := d1\<lparr>delimiter_tail := tail_of bs\<rparr>\<rparr>)"

definition set_quote :: "byte \<Rightarrow> format_options \<Rightarrow> format_options" where
  "set_quote b f = f\<lparr>fo_tag := TagCustom, fo_dialect := (fo_dialect f)\<lparr>quote := b\<rparr>\<rparr>"

definition set_record_ending :: "record_ending \<Rightarrow> format_options \<Rightarrow> format_options" where
  "set_record_ending r f =
     f\<lparr>fo_tag := TagCustom, fo_dialect := (fo_dialect f)\<lparr>record_ending := r, ending_tail := TAIL_EMPTY\<rparr>\<rparr>"

definition record_ending_sequence :: "bytes \<Rightarrow> format_options \<Rightarrow> format_options" where
  "record_ending_sequence bs f =
     (let d = fo_dialect f; d1 = (if bs \<noteq> [] then d\<lparr>record_ending := EndByte (hd bs)\<rparr> else d)
      in f\<lparr>fo_tag := TagCustom, fo_dialect := d1\<lparr>ending_tail := tail_of bs\<rparr>\<rparr>)"

definition set_escape :: "escape \<Rightarrow> format_options \<Rightarrow> format_options" where
  "set_escape x f = f\<lparr>fo_tag := TagCustom, fo_dialect := (fo_dialect f)\<lparr>escape := x\<rparr>\<rparr>"

definition set_comment :: "byte option \<Rightarrow> format_options \<Rightarrow> format_options" where
  "set_comment c f = f\<lparr>fo_tag := TagCustom, fo_dialect := (fo_dialect f)\<lparr>comment := c\<rparr>\<rparr>"

definition set_trim :: "whitespace \<Rightarrow> format_options \<Rightarrow> format_options" where
  "set_trim w f = f\<lparr>fo_tag := TagCustom, fo_trim := w\<rparr>"

definition set_blank_records :: "blank_records \<Rightarrow> format_options \<Rightarrow> format_options" where
  "set_blank_records b f = f\<lparr>fo_tag := TagCustom, fo_blank_records := b\<rparr>"

definition set_read_bom :: "read_bom \<Rightarrow> format_options \<Rightarrow> format_options" where
  "set_read_bom b f = f\<lparr>fo_tag := TagCustom, fo_read_bom := b\<rparr>"

definition emits_bom :: "format_options \<Rightarrow> bool" where "emits_bom f \<longleftrightarrow> fo_write_bom f = BomEmit"

definition set_write_bom :: "write_bom \<Rightarrow> format_options \<Rightarrow> format_options" where
  "set_write_bom b f = f\<lparr>fo_tag := TagCustom, fo_write_bom := b\<rparr>"

definition set_syntax :: "csv_syntax \<Rightarrow> format_options \<Rightarrow> format_options" where
  "set_syntax s f = f\<lparr>fo_tag := TagCustom, fo_syntax := s\<rparr>"

definition set_nulls :: "nulls \<Rightarrow> format_options \<Rightarrow> format_options" where
  "set_nulls n f = f\<lparr>fo_tag := TagCustom, fo_nulls := n\<rparr>"

definition set_quoting :: "quoting \<Rightarrow> format_options \<Rightarrow> format_options" where
  "set_quoting q f = f\<lparr>fo_tag := TagCustom, fo_quoting := q\<rparr>"

definition set_skip_initial_space :: "bool \<Rightarrow> format_options \<Rightarrow> format_options" where
  "set_skip_initial_space b f = f\<lparr>fo_tag := TagCustom, fo_skip_initial_space := b\<rparr>"

lemmas setter_defs = set_delimiter_def delimiter_sequence_def set_quote_def set_record_ending_def
  record_ending_sequence_def set_escape_def set_comment_def set_trim_def set_blank_records_def set_read_bom_def
  set_write_bom_def set_syntax_def set_nulls_def set_quoting_def set_skip_initial_space_def

text \<open>The formats a caller can make: a built-in one, a dialect's, and what the setters make of them.\<close>

definition builtin_formats :: "format_options list" where
  "builtin_formats = [FORMAT_CSV, FORMAT_TSV, FORMAT_SEMICOLON, FORMAT_PIPE, FORMAT_BACKSLASH_CSV,
     FORMAT_BACKSLASH_TSV, FORMAT_COMMENTED_CSV, FORMAT_TRIMMED_CSV, FORMAT_PYTHON_CSV, FORMAT_PYTHON_ESCAPED,
     FORMAT_RFC4180, FORMAT_EXCEL, FORMAT_POSTGRES_COPY_CSV, FORMAT_MYSQL]"

definition format_setters :: "(format_options \<Rightarrow> format_options) set" where
  "format_setters =
     range set_delimiter \<union> range delimiter_sequence \<union> range set_quote \<union> range set_record_ending \<union>
     range record_ending_sequence \<union> range set_escape \<union> range set_comment \<union> range set_trim \<union>
     range set_blank_records \<union> range set_read_bom \<union> range set_write_bom \<union> range set_syntax \<union>
     range set_nulls \<union> range set_quoting \<union> range set_skip_initial_space"

inductive built_format :: "format_options \<Rightarrow> bool" where
  built_in: "f \<in> set builtin_formats \<Longrightarrow> built_format f"
| built_dialect: "tail_wf (delimiter_tail d) \<Longrightarrow> tail_wf (ending_tail d) \<Longrightarrow> built_format (with_dialect d)"
| built_set: "built_format f \<Longrightarrow> g \<in> format_setters \<Longrightarrow> built_format (g f)"

lemma setter_drops_tag: "g \<in> format_setters \<Longrightarrow> fo_tag (g f) = TagCustom"
  unfolding format_setters_def by (auto simp: setter_defs Let_def)

lemma built_in_tag:
  "f \<in> set builtin_formats \<Longrightarrow> fo_tag f = TagCsv \<longrightarrow> f = FORMAT_CSV"
  "f \<in> set builtin_formats \<Longrightarrow> fo_tag f = TagTsv \<longrightarrow> f = FORMAT_TSV"
  by (auto simp: builtin_formats_def FORMAT_CSV_def FORMAT_TSV_def FORMAT_SEMICOLON_def FORMAT_PIPE_def
      FORMAT_BACKSLASH_CSV_def FORMAT_BACKSLASH_TSV_def FORMAT_COMMENTED_CSV_def FORMAT_TRIMMED_CSV_def
      FORMAT_PYTHON_CSV_def FORMAT_PYTHON_ESCAPED_def FORMAT_RFC4180_def FORMAT_EXCEL_def
      FORMAT_POSTGRES_COPY_CSV_def FORMAT_MYSQL_def)

text \<open>The tag is never optimistic.\<close>

lemma tag_honest: "built_format f \<Longrightarrow> (fo_tag f = TagCsv \<longrightarrow> f = FORMAT_CSV) \<and> (fo_tag f = TagTsv \<longrightarrow> f = FORMAT_TSV)"
proof (induction rule: built_format.induct)
  case (built_in f)
  then show ?case using built_in_tag by blast
next
  case (built_dialect d)
  then show ?case by (simp add: with_dialect_def)
next
  case (built_set f g)
  then show ?case using setter_drops_tag [of g f] by simp
qed

lemma tail_of_array: "tail_wf (tail_of bs)"
  by (auto simp: tail_of_def tail_wf_def TAIL_MAX_def TAIL_EMPTY_def)

lemma built_tails: "built_format f \<Longrightarrow> tail_wf (delimiter_tail (fo_dialect f)) \<and> tail_wf (ending_tail (fo_dialect f))"
proof (induction rule: built_format.induct)
  case (built_in f)
  have "list_all (\<lambda>f. tail_wf (delimiter_tail (fo_dialect f)) \<and> tail_wf (ending_tail (fo_dialect f))) builtin_formats"
    by code_simp
  then show ?case using built_in by (simp add: list_all_iff)
next
  case (built_dialect d)
  then show ?case by (simp add: with_dialect_def)
next
  case (built_set f g)
  then show ?case unfolding format_setters_def by (auto simp: setter_defs Let_def tail_of_array)
qed

section \<open>Options\<close>

definition DEFAULT_READ_BUFFER_BYTES :: nat where "DEFAULT_READ_BUFFER_BYTES = 8 * 1024"
definition isize_max :: nat where "isize_max = 2 ^ 63 - 1"

definition validate_buffer_capacity :: "nat \<Rightarrow> unit outcome" where
  "validate_buffer_capacity capacity =
     (if capacity = 0 then Err (error_detailed Configuration ''buffer capacity must be greater than zero'')
      else if isize_max < capacity
      then Err (error_detailed Configuration ''buffer capacity exceeds the platform allocation limit'')
      else Ok ())"

record parse_options =
  po_limits :: limits
  po_field_count :: field_count
  po_headers :: headers
  po_buffer_capacity :: nat

definition parse_options_new :: parse_options where
  "parse_options_new =
     \<lparr>po_limits = LIMITS_DEFAULT, po_field_count = Flexible, po_headers = FirstRecord,
      po_buffer_capacity = DEFAULT_READ_BUFFER_BYTES\<rparr>"

text \<open>The settings of a parser; the header policy is the second component.\<close>

definition into_settings :: "parse_options \<Rightarrow> format_options \<Rightarrow> (parser_settings \<times> headers) outcome" where
  "into_settings options f =
     bind_outcome (format_validate f) (\<lambda>_.
       bind_outcome (validate_buffer_capacity (po_buffer_capacity options)) (\<lambda>_.
         Ok (\<lparr>ps_dialect = fo_dialect f, ps_limits = po_limits options, ps_field_count = po_field_count options,
              ps_trim = fo_trim f, ps_blank_records = fo_blank_records f, ps_bom = fo_read_bom f,
              ps_syntax = fo_syntax f, ps_nulls = fo_nulls f, ps_skip_initial_space = fo_skip_initial_space f,
              ps_format_tag = fo_tag f\<rparr>, po_headers options)))"

section \<open>The slice parser\<close>

text \<open>\<open>sp_format\<close> is the format the type of the parser fixes, if it does.\<close>

record slice_parser =
  sp_format :: "format_options option"
  sp_input :: bytes
  sp_core :: line_cursor

definition slice_build :: "format_options option \<Rightarrow> bytes \<Rightarrow> format_options \<Rightarrow> parse_options \<Rightarrow> slice_parser outcome" where
  "slice_build static_format input f options =
     bind_outcome (into_settings options f) (\<lambda>(s, headers).
       if ps_bom s = BomReject \<and> starts_with input BOM then Err (error_new RejectedBom LOC_START)
       else Ok \<lparr>sp_format = static_format, sp_input = input, sp_core = cursor_from_config input s headers\<rparr>)"

definition slice_with_options :: "bytes \<Rightarrow> format_options \<Rightarrow> parse_options \<Rightarrow> slice_parser outcome" where
  "slice_with_options = slice_build None"

definition slice_new :: "format_options \<Rightarrow> bytes \<Rightarrow> parse_options \<Rightarrow> slice_parser outcome" where
  "slice_new static_format input options = slice_build (Some static_format) input static_format options"

definition on_core :: "'a move \<Rightarrow> (slice_parser, 'a) act" where
  "on_core m sp = (case m (sp_core sp) of (c, r) \<Rightarrow> (sp\<lparr>sp_core := c\<rparr>, r))"

definition slice_advance :: "(slice_parser, bool) act" where
  "slice_advance sp = on_core (advance_line (sp_format sp) (sp_input sp)) sp"

definition slice_record :: "(slice_parser, parsed_record \<times> nat) act" where
  "slice_record sp = on_core (record_view (sp_format sp) (sp_input sp)) sp"

definition slice_has_headers :: "slice_parser \<Rightarrow> bool" where
  "slice_has_headers sp = has_headers (cu_headed (sp_core sp))"

definition slice_set_headers :: "bytes list \<Rightarrow> slice_parser \<Rightarrow> slice_parser" where
  "slice_set_headers names sp =
     sp\<lparr>sp_core := (sp_core sp)\<lparr>cu_headed := set_headers names (cu_headed (sp_core sp))\<rparr>\<rparr>"

definition slice_location :: "slice_parser \<Rightarrow> location" where
  "slice_location sp = engine_location (cu_engine (sp_core sp)) (sp_input sp)"

definition slice_is_done :: "slice_parser \<Rightarrow> bool" where
  "slice_is_done sp = is_done (sp_input sp) (cu_engine (sp_core sp))"

definition slice_seek :: "location \<Rightarrow> (slice_parser, unit) act" where
  "slice_seek l sp =
     (if loc_field l \<noteq> 0
      then (sp, Err (error_detailed Configuration ''CSV seek positions must identify a record boundary with field 0''))
      else if length (sp_input sp) < loc_byte l
      then (sp, Err (error_detailed Configuration ''CSV seek positions must lie within the input''))
      else bind_step (on_core (on_headed (ensure_headers (sp_input sp)))) (\<lambda>_ sp.
             (sp\<lparr>sp_core := seek_line (loc_byte l) (loc_line l) (loc_record l) (sp_core sp)\<rparr>, Ok ())) sp)"

section \<open>What was emitted is read back\<close>

text \<open>The formats whose text determines the fields: no NULLs, no trimming, quoting on and one-byte separators.\<close>

definition reads_back :: "format_options \<Rightarrow> bool" where
  "reads_back f \<longleftrightarrow>
     fo_nulls f = NullsNone \<and> fo_quoting f \<noteq> Raw \<and> \<not> multibyte (fo_dialect f) \<and> \<not> escapes_unquoted (escape (fo_dialect f)) \<and>
     quoting_enabled (fo_syntax f) \<and> \<not> permits_trailing_whitespace (fo_syntax f) \<and> \<not> fo_skip_initial_space f \<and>
     fo_trim f = WS_NONE"

definition blank_safe :: "format_options \<Rightarrow> bytes list list \<Rightarrow> bool" where
  "blank_safe f docs \<longleftrightarrow>
     (fo_blank_records f = BlankSkip \<longrightarrow>
        delimiter (fo_dialect f) \<noteq> CR \<and> quote (fo_dialect f) \<noteq> CR \<and> \<not> ([[]] \<in> set docs \<and> fo_quoting f = Never))"

text \<open>A mark that was written is looked for, and text that was written without one is not taken for one.\<close>

definition mark_agrees :: "format_options \<Rightarrow> bytes \<Rightarrow> bytes list list \<Rightarrow> bool" where
  "mark_agrees f out docs \<longleftrightarrow>
     (if emits_bom f \<and> docs \<noteq> [] then fo_read_bom f = BomDetect else fo_read_bom f = BomPreserve \<or> \<not> starts_with out BOM)"

definition options_hold :: "parse_options \<Rightarrow> bytes \<Rightarrow> bytes list list \<Rightarrow> bool" where
  "options_hold options out docs \<longleftrightarrow>
     po_headers options = HeadersNone \<and> validate_buffer_capacity (po_buffer_capacity options) = Ok () \<and>
     length out \<le> max_record_bytes (po_limits options) \<and> length out \<le> max_field_bytes (po_limits options) \<and>
     length out \<le> MAX_OFFSET \<and> (\<forall>fs \<in> set docs. fs \<noteq> [] \<and> length fs \<le> max_fields (po_limits options))"

definition settings_of :: "parse_options \<Rightarrow> format_options \<Rightarrow> parser_settings" where
  "settings_of options f =
     \<lparr>ps_dialect = fo_dialect f, ps_limits = po_limits options, ps_field_count = po_field_count options,
      ps_trim = fo_trim f, ps_blank_records = fo_blank_records f, ps_bom = fo_read_bom f,
      ps_syntax = fo_syntax f, ps_nulls = fo_nulls f, ps_skip_initial_space = fo_skip_initial_space f,
      ps_format_tag = fo_tag f\<rparr>"

lemma into_settings_Ok:
  "format_invalidity f = None \<Longrightarrow> validate_buffer_capacity (po_buffer_capacity options) = Ok () \<Longrightarrow>
     into_settings options f = Ok (settings_of options f, po_headers options)"
  by (simp add: into_settings_def format_validate_def settings_of_def)

lemma settings_engine:
  assumes "built_format f" "format_invalidity f = None" "static_format = None \<or> static_format = Some f"
  shows "engine_wf (engine_from_config input (settings_of options f))"
    "format_matches static_format (engine_from_config input (settings_of options f))"
    "reads_back f \<Longrightarrow> reads_plainly (engine_from_config input (settings_of options f))"
proof -
  have invalid: "invalidity (fo_dialect f) = None" using assms(2) by (simp add: format_invalidity_def split: option.splits)
  then have "tails_wf (fo_dialect f)" using valid_tails built_tails [OF assms(1)] by blast
  then show wf: "engine_wf (engine_from_config input (settings_of options f))"
    using tag_honest [OF assms(1)]
    by (intro engine_from_config_wf) (auto simp: settings_of_def format_agrees_def)
  show "format_matches static_format (engine_from_config input (settings_of options f))"
    using assms(3) by (auto simp: format_matches_def engine_from_config_def settings_of_def)
  show "reads_back f \<Longrightarrow> reads_plainly (engine_from_config input (settings_of options f))"
    using wf invalid by (simp add: reads_plainly_def simple_dialect_def reads_back_def engine_from_config_def settings_of_def)
qed

lemma max_offset_below: "MAX_OFFSET < usize_max"
  by (simp add: max_offset_value usize_max_def)

text \<open>Reading with a slice parser, viewing the lines that are chosen.\<close>

definition slice_lines :: "slice_parser \<Rightarrow> (nat \<Rightarrow> bool) \<Rightarrow> parsed_record list \<times> reading_end" where
  "slice_lines sp view = read_lines (sp_format sp) (sp_input sp) view (length (sp_input sp) + 2) (sp_core sp)"

lemma fresh_cursor_rests: "length input < usize_max \<Longrightarrow> headers \<noteq> FirstRecord \<Longrightarrow>
    at_rest (cursor_from_config input s headers) (cu_engine (cursor_from_config input s headers))"
  by (cases headers) (auto simp: at_rest_def cursor_from_config_def cu_engine_def headed_from_config_def header_policy_def
      engine_from_config_def NO_OFFSET_def usize_max_def)

lemma headless_engine: "cu_engine (cursor_from_config input s HeadersNone) = engine_from_config input s"
  by (simp add: cursor_from_config_def cu_engine_def headed_from_config_def header_policy_def expected_from_def
      engine_from_config_def)

lemma chosen_all: "chosen (\<lambda>_. True) i r = r"
  by (simp add: chosen_def nths_all)

lemma document_text_plain:
  "fo_nulls f = NullsNone \<Longrightarrow> document_text f [] (map (map Some) docs) =
     (if docs \<noteq> [] \<and> emits_bom f then BOM else []) @ written (fo_dialect f) (fo_quoting f) docs"
  by (simp add: document_text_def written_def emits_bom_def comp_def)

lemma counts_uniform:
  "counts_fit policy expected (map (map Some) docs) \<Longrightarrow> en_field_count e = policy \<Longrightarrow> en_expected e = None \<Longrightarrow>
     uniform_counts e docs"
  by (cases policy; cases expected) (auto simp: counts_fit_def uniform_counts_def)

text \<open>The parser built over the emitted text stands behind the mark, ready for every record.\<close>

lemma built_ready:
  fixes f options out
  defines "e \<equiv> engine_from_config out (settings_of options f)"
  assumes "built_format f" "format_invalidity f = None" "static_format = None \<or> static_format = Some f" "reads_back f"
    "options_hold options out docs" "mark_agrees f out docs"
    and out: "out = (if docs \<noteq> [] \<and> emits_bom f then BOM else []) @ body"
  shows "ready_to_read static_format out e" "drop (en_location e) out = body" "steady static_format out e"
    "en_dialect e = fo_dialect f" "en_field_count e = po_field_count options" "en_expected e = None"
    "en_limits e = po_limits options" "en_blank_records e = fo_blank_records f"
proof -
  note wf = settings_engine [OF assms(2-4), of out options, folded e_def]
  have at: "en_location e = (if docs \<noteq> [] \<and> emits_bom f then 3 else 0)"
    using assms(7) out
    by (auto simp: e_def engine_from_config_def settings_of_def mark_agrees_def starts_with_def split: if_splits)
  show "drop (en_location e) out = body" using at out by auto
  have small: "length out \<le> MAX_OFFSET" "length out \<le> max_record_bytes (en_limits e)" "length out \<le> max_field_bytes (en_limits e)"
    using assms(6) by (simp_all add: options_hold_def e_def engine_from_config_def settings_of_def)
  have inside: "en_location e \<le> length out" using at out by auto
  have rest: "\<not> en_failed e" "en_resume e = resume_new" "en_trim e = WS_NONE"
    using assms(5) by (simp_all add: e_def engine_from_config_def settings_of_def reads_back_def)
  show "ready_to_read static_format out e"
    using wf(2) wf(3) [OF assms(5)] small inside rest by (simp add: ready_to_read_def ample_def resume_new_def)
  have "length out < usize_max" using small(1) max_offset_below by linarith
  then show "steady static_format out e"
    using wf(1,2) small inside rest at
    by (auto simp: steady_def roomy_def checkpoint_sane_def behind_def resume_new_def NO_OFFSET_def)
qed (simp_all add: e_def engine_from_config_def settings_of_def)

lemma built_slice:
  "format_invalidity f = None \<Longrightarrow> options_hold options out docs \<Longrightarrow> mark_agrees f out docs \<Longrightarrow>
     out = (if docs \<noteq> [] \<and> emits_bom f then BOM else []) @ body \<Longrightarrow>
     slice_build static_format out f options =
       Ok \<lparr>sp_format = static_format, sp_input = out,
           sp_core = cursor_from_config out (settings_of options f) HeadersNone\<rparr>"
  by (auto simp: slice_build_def into_settings_Ok options_hold_def mark_agrees_def settings_of_def split: if_splits)

lemma slice_lines_fresh:
  assumes "steady static_format out (engine_from_config out s)" "snd (records_of static_format out (engine_from_config out s)) \<noteq> OutOfFuel"
  shows "slice_lines \<lparr>sp_format = static_format, sp_input = out, sp_core = cursor_from_config out s HeadersNone\<rparr> (\<lambda>_. True) =
    records_of static_format out (engine_from_config out s)"
proof -
  have small: "length out < usize_max" using assms(1) by (simp add: steady_def)
  have rests: "at_rest (cursor_from_config out s HeadersNone) (engine_from_config out s)"
    using fresh_cursor_rests [OF small, of HeadersNone s] by (simp add: headless_engine)
  show ?thesis
    using lines_match [OF assms(1) rests assms(2) [unfolded records_of_def], of "\<lambda>_. True"]
    by (simp add: slice_lines_def records_of_def chosen_all del: read_lines.simps read_records.simps)
qed

lemma emitted_is_read:
  assumes "emitter_run_of f policy p [] (map (map Some) docs)" "built_format f" "reads_back f"
    "static_format = None \<or> static_format = Some f" "po_field_count options = policy"
    "options_hold options (pe_buffer p) docs" "mark_agrees f (pe_buffer p) docs" "blank_safe f docs"
  shows "\<exists>sp rs. slice_build static_format (pe_buffer p) f options = Ok sp \<and> slice_lines sp (\<lambda>_. True) = (rs, AllRead) \<and>
    map snd rs = map (map (\<lambda>field. (Some field, False))) docs"
proof -
  have inv: "emitter_inv f policy p [] (map (map Some) docs)" by (rule emitter_run_inv [OF assms(1)])
  have valid: "format_invalidity f = None" and counts: "counts_fit policy (pe_expected p) (map (map Some) docs)"
    using inv by (simp_all add: emitter_inv_def)
  have nulls: "fo_nulls f = NullsNone" "fo_quoting f \<noteq> Raw" using assms(3) by (simp_all add: reads_back_def)
  have out: "pe_buffer p = (if docs \<noteq> [] \<and> emits_bom f then BOM else []) @ written (fo_dialect f) (fo_quoting f) docs"
    using inv document_text_plain [OF nulls(1)] by (simp add: emitter_inv_def)
  let ?e = "engine_from_config (pe_buffer p) (settings_of options f)"
  note ready = built_ready [OF assms(2) valid assms(4,3,6,7) out]
  have specs: "\<forall>fs \<in> set (map (map Some) docs). record_spec (fo_dialect f) (fo_quoting f) (fo_nulls f) fs \<noteq> None"
    using inv unfolding emitter_inv_def by (elim conjE)
  have writable: "\<forall>fs \<in> set docs. writable ?e (fo_quoting f) fs"
  proof
    fix fs assume fs: "fs \<in> set docs"
    have "fs \<noteq> []" "length fs \<le> max_fields (po_limits options)" using assms(6) fs by (simp_all add: options_hold_def)
    moreover have "record_spec (fo_dialect f) (fo_quoting f) NullsNone (map Some fs) \<noteq> None" using specs fs nulls(1) by simp
    moreover have "not_blank ?e (fo_quoting f) fs" using assms(8) fs ready(4,8) by (auto simp: blank_safe_def not_blank_def)
    ultimately show "writable ?e (fo_quoting f) fs" using ready(4,7) by (simp add: writable_def)
  qed
  have "uniform_counts ?e docs" using counts_uniform [OF counts] ready(5,6) assms(5) by simp
  then obtain rs where rs: "records_of static_format (pe_buffer p) ?e = (rs, AllRead)"
      "map snd rs = map (map (\<lambda>field. (Some field, False))) docs"
    using written_records_read_back [OF ready(1) _ nulls(2) writable] ready(2,4) by auto
  show ?thesis
    using built_slice [OF valid assms(6,7) out] slice_lines_fresh [OF ready(3)] rs by simp
qed

text \<open>
  C1: What an emitter wrote, a parser reads: after any sequence of emissions, the buffer of an emitter
  over a format is accepted by a slice parser built with the same format, whether the format is fixed by
  the parser's type or passed to it, and reading every line yields exactly the records the emitter
  accepted, field by field, to the end of the input. The conditions, on the format: no NULLs, no
  trimming, no space skipped after a delimiter, quoting on and not \<open>Raw\<close>, no whitespace allowed after a
  closing quote, separators of one byte, and an escape that does not act outside quotes. On the parser:
  no header record, the emitter's field-count policy, and byte limits that hold the whole text. On the
  records: at least one field each, no more than the limit of fields. Blank lines: under \<open>Skip\<close> neither
  the delimiter nor the quote is a carriage return, and no record is a lone empty field under \<open>Never\<close>.
  The byte-order mark: one that is written is detected, and text that begins like one is preserved.
\<close>

theorem emitter_parser_round_trip:
  assumes "emitter_run_of f policy p [] (map (map Some) docs)" "built_format f" "reads_back f"
    "static_format = None \<or> static_format = Some f" "po_field_count options = policy"
    "options_hold options (pe_buffer p) docs" "mark_agrees f (pe_buffer p) docs" "blank_safe f docs"
  shows "\<exists>sp rs. slice_build static_format (pe_buffer p) f options = Ok sp \<and> slice_lines sp (\<lambda>_. True) = (rs, AllRead) \<and>
    map snd rs = map (map (\<lambda>field. (Some field, False))) docs"
  by (rule emitted_is_read [OF assms])

section \<open>Starting in the middle\<close>

lemma slice_seek_fresh:
  assumes "loc_field l = 0" "loc_byte l \<le> length input"
  shows "slice_seek l \<lparr>sp_format = g, sp_input = input, sp_core = cursor_from_config input s HeadersNone\<rparr> =
    (\<lparr>sp_format = g, sp_input = input,
      sp_core = seek_line (loc_byte l) (loc_line l) (loc_record l) (cursor_from_config input s HeadersNone)\<rparr>, Ok ())"
  using assms
  by (simp add: slice_seek_def bind_step_def on_core_def on_headed_def ensure_headers_def cursor_from_config_def
      headed_from_config_def header_policy_def)

lemma sought_engine:
  "cu_engine (seek_line byte line rec c) = seek_to_exact byte (max line 1) rec (cu_engine c)"
  "he_initialized (cu_headed (seek_line byte line rec c)) = he_initialized (cu_headed c)"
  "cu_start (seek_line byte line rec c) = NO_OFFSET"
  by (simp_all add: seek_line_def seek_exact_def set_engine_def cu_engine_def)

lemma sought_ready:
  assumes "ready_to_read g input e" "steady g input e" "byte \<le> length input"
  shows "ready_to_read g input (seek_to_exact byte line rec e)" "steady g input (seek_to_exact byte line rec e)"
    "en_dialect (seek_to_exact byte line rec e) = en_dialect e" "en_field_count (seek_to_exact byte line rec e) = en_field_count e"
    "en_expected (seek_to_exact byte line rec e) = en_expected e" "en_limits (seek_to_exact byte line rec e) = en_limits e"
    "en_blank_records (seek_to_exact byte line rec e) = en_blank_records e"
  using assms
  by (cases g; auto simp: ready_to_read_def steady_def seek_to_exact_def reads_plainly_def simple_dialect_def engine_wf_def
      format_matches_def ample_def roomy_def checkpoint_sane_def behind_def resume_new_def NO_OFFSET_def usize_max_def)+

lemma slice_lines_sought:
  assumes "steady g input e" "cu_engine c = e" "he_initialized (cu_headed c)" "cu_start c = NO_OFFSET"
    "snd (records_of g input e) \<noteq> OutOfFuel"
  shows "slice_lines \<lparr>sp_format = g, sp_input = input, sp_core = c\<rparr> (\<lambda>_. True) = records_of g input e"
proof -
  have "at_rest c e" using assms(1-4) by (auto simp: at_rest_def steady_def NO_OFFSET_def)
  then show ?thesis
    using lines_match [OF assms(1) _ assms(5) [unfolded records_of_def], of c "\<lambda>_. True"]
    by (simp add: slice_lines_def records_of_def chosen_all del: read_lines.simps read_records.simps)
qed

text \<open>
  C23: Random access into emitted text: a parser over the buffer that seeks to the offset where the text of
  some of the last records begins, whatever line and record number it is told, reads exactly those
  records, to the end; the records before the offset are not read. The conditions are those under which
  the text is read back from its beginning: the same format, with the same restrictions, no header
  record, the same field-count policy, byte limits that hold the whole text, records that have a field,
  and blank lines and the byte-order mark treated alike on both sides.
\<close>

theorem seek_reads_the_rest:
  assumes "emitter_run_of f policy p [] (map (map Some) (docs @ rest))" "built_format f" "reads_back f"
    "static_format = None \<or> static_format = Some f" "po_field_count options = policy"
    "options_hold options (pe_buffer p) (docs @ rest)" "mark_agrees f (pe_buffer p) (docs @ rest)" "blank_safe f (docs @ rest)"
    "loc_field l = 0" "loc_byte l = length (pe_buffer p) - length (written (fo_dialect f) (fo_quoting f) rest)"
  shows "\<exists>sp sp' rs. slice_build static_format (pe_buffer p) f options = Ok sp \<and> slice_seek l sp = (sp', Ok ()) \<and>
    slice_lines sp' (\<lambda>_. True) = (rs, AllRead) \<and> map snd rs = map (map (\<lambda>field. (Some field, False))) rest"
proof -
  have inv: "emitter_inv f policy p [] (map (map Some) (docs @ rest))" by (rule emitter_run_inv [OF assms(1)])
  have valid: "format_invalidity f = None" and counts: "counts_fit policy (pe_expected p) (map (map Some) (docs @ rest))"
    using inv by (simp_all add: emitter_inv_def)
  have nulls: "fo_nulls f = NullsNone" "fo_quoting f \<noteq> Raw" using assms(3) by (simp_all add: reads_back_def)
  have out: "pe_buffer p = (if docs @ rest \<noteq> [] \<and> emits_bom f then BOM else []) @ written (fo_dialect f) (fo_quoting f) (docs @ rest)"
    using inv document_text_plain [OF nulls(1)] unfolding emitter_inv_def by metis
  let ?start = "engine_from_config (pe_buffer p) (settings_of options f)"
  let ?e = "seek_to_exact (loc_byte l) (max (loc_line l) 1) (loc_record l) ?start"
  note built = built_ready [OF assms(2) valid assms(4,3,6,7) out]
  have inside: "loc_byte l \<le> length (pe_buffer p)" using assms(10) by simp
  note ready = sought_ready [OF built(1,3) inside, of "max (loc_line l) 1" "loc_record l"]
  let ?all = "written (fo_dialect f) (fo_quoting f) (docs @ rest)"
  have split: "?all = written (fo_dialect f) (fo_quoting f) docs @ written (fo_dialect f) (fo_quoting f) rest"
    by (simp add: written_def)
  have at: "drop (en_location ?e) (pe_buffer p) = written (en_dialect ?e) (fo_quoting f) rest"
    using assms(10) ready(3) built(4) unfolding out split by (simp add: seek_to_exact_def)
  have specs: "\<forall>fs \<in> set (map (map Some) (docs @ rest)). record_spec (fo_dialect f) (fo_quoting f) (fo_nulls f) fs \<noteq> None"
    using inv unfolding emitter_inv_def by (elim conjE)
  have "\<forall>fs \<in> set rest. writable ?e (fo_quoting f) fs"
    using assms(6,8) specs nulls(1) ready(3,6,7) built(4,7,8)
    by (auto simp: options_hold_def writable_def not_blank_def blank_safe_def)
  moreover have "uniform_counts ?start (docs @ rest)" using counts_uniform [OF counts] built(5,6) assms(5) by simp
  then have "uniform_counts ?e rest" using ready(4,5) by (auto simp: uniform_counts_def split: field_count.splits)
  ultimately obtain rs where rs: "records_of static_format (pe_buffer p) ?e = (rs, AllRead)"
      "map snd rs = map (map (\<lambda>field. (Some field, False))) rest"
    using written_records_read_back [OF ready(1) at nulls(2)] by blast
  show ?thesis
    using built_slice [OF valid assms(6,7) out] slice_seek_fresh [OF assms(9) inside] rs
      slice_lines_sought [OF ready(2), of "seek_line (loc_byte l) (loc_line l) (loc_record l)
        (cursor_from_config (pe_buffer p) (settings_of options f) HeadersNone)"]
    by (simp add: sought_engine headless_engine)
      (simp add: cursor_from_config_def headed_from_config_def header_policy_def)
qed

text \<open>Two records in the Excel format, written and read.\<close>

definition sample_options :: parse_options where
  "sample_options = parse_options_new\<lparr>po_headers := HeadersNone, po_field_count := MatchFirst\<rparr>"

definition sample_emitter :: push_emitter where
  "sample_emitter =
     fst (emitter_emit_record (fst (emitter_emit_record (emitter_from_config [] (fo_dialect FORMAT_EXCEL)
        (fo_quoting FORMAT_EXCEL) (fo_write_bom FORMAT_EXCEL) (fo_nulls FORMAT_EXCEL) MatchFirst) [[97], [98, 34]]))
        [[99], []])"

lemma sample_two_records: "emitter_run_of FORMAT_EXCEL MatchFirst sample_emitter [] (map (map Some) ([[[97], [98, 34]]] @ [[[99], []]]))"
proof -
  let ?p = "fst (emitter_emit_record (emitter_from_config [] (fo_dialect FORMAT_EXCEL) (fo_quoting FORMAT_EXCEL)
        (fo_write_bom FORMAT_EXCEL) (fo_nulls FORMAT_EXCEL) MatchFirst) [[97], [98, 34]])"
  have "emitter_emit_record ?p [[99], []] = (sample_emitter, snd (emitter_emit_record ?p [[99], []]))"
    by (simp add: sample_emitter_def)
  moreover have "snd (emitter_emit_record ?p [[99], []]) = Ok ()" by code_simp
  ultimately show ?thesis using run_record [OF sample_emission] by fastforce
qed

lemma sample_out: "pe_buffer sample_emitter = BOM @ [97, 44, 34, 98, 34, 34, 34, 13, 10, 99, 44, 13, 10]"
  unfolding sample_emitter_def by code_simp

lemma sample_conditions:
  "built_format FORMAT_EXCEL" "reads_back FORMAT_EXCEL" "blank_safe FORMAT_EXCEL docs"
  "po_field_count sample_options = MatchFirst"
  "mark_agrees FORMAT_EXCEL (pe_buffer sample_emitter) ([[[97], [98, 34]]] @ [[[99], []]])"
  "options_hold sample_options (pe_buffer sample_emitter) ([[[97], [98, 34]]] @ [[[99], []]])"
proof -
  show "built_format FORMAT_EXCEL" by (rule built_in) (simp add: builtin_formats_def)
  show "reads_back FORMAT_EXCEL" by code_simp
qed (simp_all add: sample_out options_hold_def sample_options_def parse_options_new_def LIMITS_DEFAULT_def
    validate_buffer_capacity_def DEFAULT_READ_BUFFER_BYTES_def isize_max_def max_offset_value mark_agrees_def
    emits_bom_def blank_safe_def FORMAT_EXCEL_def with_dialect_def)

theorem emitter_parser_round_trip_witness:
  "\<exists>sp rs. slice_build (Some FORMAT_EXCEL) (pe_buffer sample_emitter) FORMAT_EXCEL sample_options = Ok sp \<and>
     slice_lines sp (\<lambda>_. True) = (rs, AllRead) \<and>
     map snd rs = [[(Some [97], False), (Some [98, 34], False)], [(Some [99], False), (Some [], False)]]"
  using emitter_parser_round_trip [OF sample_two_records sample_conditions(1,2) _ sample_conditions(4,6,5,3), of "Some FORMAT_EXCEL"]
  by simp

theorem seek_reads_the_rest_witness:
  "\<exists>sp sp' rs. slice_build None (pe_buffer sample_emitter) FORMAT_EXCEL sample_options = Ok sp \<and>
     slice_seek \<lparr>loc_byte = 12, loc_line = 2, loc_record = 1, loc_field = 0\<rparr> sp = (sp', Ok ()) \<and>
     slice_lines sp' (\<lambda>_. True) = (rs, AllRead) \<and> map snd rs = [[(Some [99], False), (Some [], False)]]"
proof -
  have "written (fo_dialect FORMAT_EXCEL) (fo_quoting FORMAT_EXCEL) [[[99], []]] = [99, 44, 13, 10]"
    by (simp add: written_def FORMAT_EXCEL_def with_dialect_def record_spec_def field_spec_def configured_spec_def plain_spec_def
        DIALECT_EXCEL_def DIALECT_RFC4180_def DIALECT_CSV_def must_quote_def special_bytes_def ending_text_def
        starts_with_def lone_empty_def delimiter_text_def)
  then show ?thesis
    using seek_reads_the_rest [OF sample_two_records sample_conditions(1,2) _ sample_conditions(4,6,5,3),
        of None "\<lparr>loc_byte = 12, loc_line = 2, loc_record = 1, loc_field = 0\<rparr>"]
    by (simp add: sample_out)
qed

end
