(* ===== verification/Counted.thy ===== *)
theory Counted
  imports Kernel
begin

text \<open>
  A field count once learned stays: reading a record takes the expected count from the record only when
  none was known. \<open>keeps n\<close> is the triple that carries a known count through a step.
\<close>

definition expects :: "nat \<Rightarrow> engine \<Rightarrow> bool" where
  "expects n e \<longleftrightarrow> en_expected e = Some n"

definition keeps :: "nat \<Rightarrow> engine \<times> 'a outcome \<Rightarrow> bool" where
  "keeps n res \<longleftrightarrow> expects n (fst res)"

lemma keeps_pair [simp]: "keeps n (e, r) \<longleftrightarrow> expects n e"
  by (simp add: keeps_def)

lemma expects_updates [simp]:
  "expects n (e\<lparr>en_location := a\<rparr>) = expects n e" "expects n (e\<lparr>en_spans := b\<rparr>) = expects n e"
  "expects n (e\<lparr>en_failed := c\<rparr>) = expects n e" "expects n (e\<lparr>en_record_index := i\<rparr>) = expects n e"
  "expects n (note_terminated e) = expects n e" "expects n (clear_terminated e) = expects n e"
  "expects n (fold_plain_record opts rs t e) = expects n e"
  by (simp_all add: expects_def note_terminated_def clear_terminated_def fold_plain_record_def)

named_theorems keep \<open>steps that keep a known field count\<close>

lemma keeps_bind [keep]:
  assumes "keeps n (m e)" "\<And>x e1. expects n e1 \<Longrightarrow> keeps n (f x e1)"
  shows "keeps n (bind_step m f e)"
  using assms by (cases "m e"; cases "snd (m e)") (auto simp: bind_step_def)

lemma keeps_case [keep]:
  assumes "keeps n res" "\<And>x e1. expects n e1 \<Longrightarrow> keeps n (f e1 x)"
  shows "keeps n (case res of (e, Ok x) \<Rightarrow> f e x | (e, Err er) \<Rightarrow> (e, Err er) | (e, Panic) \<Rightarrow> (e, Panic))"
  using assms by (cases res; cases "snd res") auto

lemma keeps_if [keep]: "(P \<Longrightarrow> keeps n a) \<Longrightarrow> (\<not> P \<Longrightarrow> keeps n b) \<Longrightarrow> keeps n (if P then a else b)"
  by simp

lemma keeps_option [keep]:
  "(x = None \<Longrightarrow> keeps n a) \<Longrightarrow> (\<And>y. x = Some y \<Longrightarrow> keeps n (f y)) \<Longrightarrow> keeps n (case x of None \<Rightarrow> a | Some y \<Rightarrow> f y)"
  by (cases x) auto

lemma keeps_steps [keep]:
  assumes "expects n e"
  shows "keeps n (return_step x e)" "keeps n (fail_at input kind at e)" "keeps n (decline e)"
    "keeps n (check_record_limit_for input rs at k e)" "keeps n (check_record_limit input rs at e)"
    "keeps n (check_scan_end_for input at rs fs k e)" "keeps n (check_scan_end input at rs fs e)"
    "keeps n (check_scratch_limit_for input ss l at k e)" "keeps n (check_scratch_limit input ss at e)"
    "keeps n (validate_count input actual e)"
  using assms
  by (simp_all add: return_step_def fail_at_def decline_def check_record_limit_for_def check_record_limit_def
      check_scan_end_for_def check_scan_end_def check_scratch_limit_for_def check_scratch_limit_def
      validate_count_def expects_def Let_def split: field_count.split)

lemma spans_only [keep]:
  assumes "expects n e"
  shows "keeps n (case st of Ok s \<Rightarrow> (e\<lparr>en_spans := s\<rparr>, Ok ()) | Err er \<Rightarrow> (e, Err er) | Panic \<Rightarrow> (e, Panic))"
  using assms by (cases st) auto

lemma push_keeps [keep]:
  assumes "expects n e"
  shows "keeps n (push_span input src f u at q e)" "keeps n (push_null_span input at e)"
    "keeps n (push_unescaped_span input esc f u at e)" "keeps n (mark_null_spans_cold input nulls e)"
proof -
  have push: "keeps n (push_span input src f u at q e)" if "expects n e" for src f u at q e
    using that unfolding push_span_def by (auto intro!: keep)
  show "keeps n (push_span input src f u at q e)" by (rule push [OF assms])
  show "keeps n (push_null_span input at e)" "keeps n (mark_null_spans_cold input nulls e)"
    using assms unfolding push_null_span_def mark_null_spans_cold_def by (auto intro!: keep)
  show "keeps n (push_unescaped_span input esc f u at e)"
    using assms unfolding push_unescaped_span_def Let_def by (auto intro!: keep push)
qed

lemma end_general_keeps [keep]:
  "expects n e \<Longrightarrow> keeps n (push_general_unquoted_span input fs fe at header e)"
  "expects n e \<Longrightarrow> keeps n (end_general_field input rs header fs fe at resume ends e)"
proof -
  have push: "keeps n (push_general_unquoted_span input fs fe at header e)" if "expects n e" for fe at e
    using that by (auto simp: push_general_unquoted_span_def intro!: keep)
  then show "expects n e \<Longrightarrow> keeps n (push_general_unquoted_span input fs fe at header e)" .
  show "expects n e \<Longrightarrow> keeps n (end_general_field input rs header fs fe at resume ends e)"
    unfolding end_general_field_def Let_def by (auto intro!: keep push)
qed

lemma general_loop_keeps [keep]:
  "expects n e \<Longrightarrow> keeps n (general_unquoted_loop ex input rs header fs cursor e)"
proof (induction ex input rs header fs cursor e rule: general_unquoted_loop.induct)
  case (1 ex input rs header fs cursor e)
  show ?case
  proof (cases "scan_end e input rs fs \<le> cursor")
    case True
    then show ?thesis using 1(5) unfolding general_unquoted_loop.simps [of ex input rs header fs cursor e] Let_def
      by (auto intro!: keep)
  next
    case False
    then show ?thesis
      using 1(1-4) [OF False] 1(5) unfolding general_unquoted_loop.simps [of ex input rs header fs cursor e] Let_def
      by (auto intro!: keep split: option.split)
  qed
qed

lemma unquoted_keeps [keep]:
  assumes "expects n e"
  shows "keeps n (parse_unquoted_field opts input rs header e)"
proof -
  have "keeps n (parse_unquoted_field_runtime input rs dl qt tm q uq st e)" for dl qt tm q uq st
    using assms unfolding parse_unquoted_field_runtime_def Let_def by (auto intro!: keep)
  then show ?thesis
    using assms unfolding parse_unquoted_field_def parse_general_unquoted_field_def Let_def by (auto intro!: keep)
qed

lemma close_keeps [keep]:
  assumes "expects n e"
  shows "keeps n (finish_quoted_field input rs closed cfg e)"
    "keeps n (close_quoted input rs cfg cs ss seg copied at e)" "keeps n (take_escape input copied cs seg at b ss e)"
proof -
  have finish: "keeps n (finish_quoted_field input rs closed cfg e)" if "expects n e" for closed e
    using that unfolding finish_quoted_field_def Let_def by (auto intro!: keep)
  show "keeps n (finish_quoted_field input rs closed cfg e)" by (rule finish [OF assms])
  show "keeps n (close_quoted input rs cfg cs ss seg copied at e)" "keeps n (take_escape input copied cs seg at b ss e)"
    using assms unfolding close_quoted_def take_escape_def Let_def by (auto intro!: keep finish)
qed

lemma quoted_loop_keeps [keep]:
  "expects n e \<Longrightarrow> keeps n (parse_quoted_loop input rs cfg cs ss seg cursor copied e)"
proof (induction input rs cfg cs ss seg cursor copied e rule: parse_quoted_loop.induct)
  case (1 input rs cfg cs ss seg cursor copied e)
  let ?stop = "scan_end e input rs cs"
  show ?case
  proof (cases "get_range input cursor ?stop")
    case None
    have "keeps n (check_record_limit input rs ?stop e)" using 1(2) by (rule keep)
    then show ?thesis
      using None 1(2) unfolding parse_quoted_loop.simps [of input rs cfg cs ss seg cursor copied e] Let_def
      by (auto simp: keeps_def split: prod.split outcome.split)
  next
    case (Some remaining)
    have "keeps n (case quoted_event_at input cfg ?stop (cursor + i) of
        BadQuoted kind at \<Rightarrow> fail_at input kind at e
      | ClosingQuote \<Rightarrow> close_quoted input rs cfg cs ss seg copied (cursor + i) e
      | Escaped b \<Rightarrow>
          (case take_escape input copied cs seg (cursor + i) b ss e of
             (e', Ok _) \<Rightarrow> parse_quoted_loop input rs cfg cs ss (cursor + i + 2) (cursor + i + 2) True e'
           | (e', Err er) \<Rightarrow> (e', Err er) | (e', Panic) \<Rightarrow> (e', Panic)))"
      if "quoted_stop cfg remaining = Some i" for i
    proof (cases "quoted_event_at input cfg ?stop (cursor + i)")
      case (Escaped b)
      obtain e1 r where t: "take_escape input copied cs seg (cursor + i) b ss e = (e1, r)" by fastforce
      then have "expects n e1" using close_keeps(3) [OF 1(2)] by (metis keeps_pair)
      then show ?thesis
        using 1(1) [OF refl Some that Escaped t [symmetric]] t Escaped by (cases r) auto
    qed (auto intro!: keep 1(2))
    then show ?thesis
      using Some 1(2) unfolding parse_quoted_loop.simps [of input rs cfg cs ss seg cursor copied e] Let_def
      by (auto intro!: keep)
  qed
qed

lemma spaces_keep [keep]: "expects n e \<Longrightarrow> keeps n (skip_delimiter_spaces opts input rs e)"
proof -
  have loop: "expects n e \<Longrightarrow> keeps n (skip_delimiter_spaces_loop input rs field e)" for field
  proof (induction input rs field e rule: skip_delimiter_spaces_loop.induct)
    case (1 input rs field e)
    let ?e = "e\<lparr>en_location := en_location e + 1\<rparr>"
    obtain e1 r where c: "check_record_limit_for input rs (en_location ?e) field ?e = (e1, r)" by fastforce
    then have "expects n e1" using keeps_steps(4) [of n ?e input rs "en_location ?e" field] 1(2) by simp
    then show ?case
      using 1 c by (subst skip_delimiter_spaces_loop.simps) (cases r; auto simp: Let_def)
  qed
  assume "expects n e"
  then show ?thesis using loop by (auto simp: skip_delimiter_spaces_def skip_delimiter_spaces_for_def intro!: keep)
qed

lemma one_field_keeps [keep]: "expects n e \<Longrightarrow> keeps n (parse_one_field opts input rs header e)"
  unfolding parse_one_field_def parse_quoted_field_def Let_def by (auto intro!: keep)

lemma record_fields_keep [keep]: "expects n e \<Longrightarrow> keeps n (parse_record_fields opts input rs header e)"
proof (induction opts input rs header e rule: parse_record_fields.induct)
  case (1 opts input rs header e)
  obtain e1 r where f: "parse_one_field opts input rs header e = (e1, r)" by fastforce
  then have "expects n e1" using one_field_keeps [OF 1(2)] by (metis keeps_pair)
  moreover from this have "keeps n (finish_general_record opts input header e1)"
    unfolding finish_general_record_def mark_null_spans_def Let_def by (auto intro!: keep)
  ultimately show ?case
    using f 1(1) [OF f [symmetric]] by (cases r) (simp_all add: parse_record_fields.simps [of opts input rs header e])
qed

lemma kernel_keeps [keep]: "expects n e \<Longrightarrow> keeps n (kernel_loop opts input rs found fs e)"
proof (induction opts input rs found fs e rule: kernel_loop.induct)
  case (1 opts input rs fs e)
  then show ?case by (auto simp: kernel_at_end_def Let_def intro!: keep)
next
  case (2 opts input rs cursor b found fs e)
  obtain e1 r where p: "push_span input FromInput fs cursor cursor False e = (e1, r)" by fastforce
  then have "expects n e1" using push_keeps(1) [OF 2(3)] by (metis keeps_pair)
  moreover have "keeps n (kernel_at_terminator opts input rs fs cursor e)"
    using 2(3) unfolding kernel_at_terminator_def Let_def by (auto intro!: keep)
  ultimately show ?case
    using p 2 keeps_steps(3) [OF 2(3)] by (cases r) simp_all
qed

lemma parse_record_keeps [keep]: "expects n e \<Longrightarrow> keeps n (parse_record opts input rs header e)"
proof -
  assume e: "expects n e"
  have crlf: "keeps n (validate_crlf input rs e1)" if "expects n e1" for e1
    using that unfolding validate_crlf_def Let_def by (auto intro!: keep)
  have "keeps n (finish_plain_record opts input rs header e1)" if "expects n e1" for e1
    using that unfolding finish_plain_record_def by (auto intro!: keep crlf)
  then show ?thesis
    using e unfolding parse_record_def try_parse_borrowed_plain_def Let_def by (auto intro!: keep)
qed

lemma positioned_keeps:
  assumes "expects n e"
  shows "keeps n (parse_positioned_record opts input header e)"
proof -
  have trim: "keeps n (trim_spans input header e1)" if "expects n e1" for e1
    using that unfolding trim_spans_def by (auto intro!: keep)
  have begins: "keeps n (begin_spans input e)"
    using assms unfolding begin_spans_def by (auto intro!: keep)
  show ?thesis
    unfolding parse_positioned_record_def Let_def
  proof (rule keeps_bind [of n "begin_spans input", OF begins])
    fix e1 and x :: unit assume e1: "expects n e1"
    obtain e2 r where p: "parse_record opts input (en_location e1) header e1 = (e2, r)" by fastforce
    then have "expects n e2" using parse_record_keeps [OF e1] by (metis keeps_pair)
    then show "keeps n (case parse_record opts input (en_location e1) header e1 of
        (e2, Err er) \<Rightarrow> (e2\<lparr>en_failed := True\<rparr>, Err er)
      | (e2, Panic) \<Rightarrow> (e2, Panic)
      | (e2, Ok _) \<Rightarrow> bind_step (trim_spans input header) (\<lambda>_ e3.
            (e3\<lparr>en_record_index := en_record_index e3 + 1\<rparr>, Ok ((en_location e1, en_location e3), en_record_index e3))) e2)"
      using p by (cases r) (auto intro!: keep trim)
  qed
qed

text \<open>The count an accepted record leaves: the one that was known, or under \<open>MatchFirst\<close> its own.\<close>

lemma counted_after:
  assumes "parse_positioned_record opts input header e = (e', r)" "en_expected e = Some n"
  shows "en_expected e' = Some n"
  using positioned_keeps [of n e opts input header] assms by (simp add: expects_def)

end
