(* ===== verification/Replay.thy ===== *)
theory Replay
  imports SliceParser Kernel Counted
begin

text \<open>
  Reading does not depend on how the parser came to a record. Two engines are alike when they differ
  only in the line and record counters, in the flag of a last terminator, in an idle checkpoint and in
  a field count the second has yet to learn; whatever the first accepts, the second accepts with the
  same fields, and they stay alike. The theorem: a parser that seeks to the start of any record it
  once read reads that record and all that follow again.
\<close>

section \<open>Engines that are alike\<close>

definition essence :: "engine \<Rightarrow> engine" where
  "essence e = e\<lparr>en_line_base := 0, en_line_origin := 0, en_folded_upto := 0, en_folded_lines := 0,
     en_record_index := 0, en_expected := None, en_resume := resume_new, en_terminated := False\<rparr>"

definition alike :: "engine \<Rightarrow> engine \<Rightarrow> bool" where
  "alike a b \<longleftrightarrow> essence a = essence b \<and> (en_expected b = en_expected a \<or> en_expected b = None)"

named_theorems alike_eq \<open>what engines that are alike agree on\<close>

lemma alike_refl: "alike e e" by (simp add: alike_def)

lemma alike_trans: "alike a b \<Longrightarrow> alike b c \<Longrightarrow> alike a c"
  by (auto simp: alike_def)

lemma alike_fields [alike_eq]:
  assumes "alike a b"
  shows "en_location b = en_location a" "en_dialect b = en_dialect a" "en_format_kind b = en_format_kind a"
    "en_limits b = en_limits a" "en_field_count b = en_field_count a" "en_trim b = en_trim a"
    "en_blank_records b = en_blank_records a" "en_syntax b = en_syntax a"
    "en_skip_initial_space b = en_skip_initial_space a" "en_nulls b = en_nulls a"
    "en_general_parsing b = en_general_parsing a" "en_plain_kernel b = en_plain_kernel a"
    "en_record_pass b = en_record_pass a" "en_skips_records b = en_skips_records a" "en_spans b = en_spans a"
    "en_failed b = en_failed a"
  using assms unfolding alike_def essence_def by (cases a; cases b; simp)+

lemma alike_updates [simp]:
  assumes "alike a b"
  shows "alike (a\<lparr>en_spans := st\<rparr>) (b\<lparr>en_spans := st\<rparr>)" "alike (a\<lparr>en_location := n\<rparr>) (b\<lparr>en_location := n\<rparr>)"
    "alike (a\<lparr>en_failed := f\<rparr>) (b\<lparr>en_failed := f\<rparr>)" "alike (a\<lparr>en_terminated := t\<rparr>) (b\<lparr>en_terminated := t'\<rparr>)"
    "alike (a\<lparr>en_record_index := i\<rparr>) (b\<lparr>en_record_index := j\<rparr>)"
    "alike (a\<lparr>en_expected := x\<rparr>) (b\<lparr>en_expected := x\<rparr>)"
    "alike (a\<lparr>en_resume := r\<rparr>) (b\<lparr>en_resume := s\<rparr>)"
    "alike (a\<lparr>en_folded_lines := k, en_folded_upto := l\<rparr>) (b\<lparr>en_folded_lines := k', en_folded_upto := l'\<rparr>)"
    "alike (a\<lparr>en_folded_lines := k, en_folded_upto := l\<rparr>) b" "alike a (b\<lparr>en_folded_lines := k, en_folded_upto := l\<rparr>)"
  using assms unfolding alike_def essence_def by (cases a; cases b; simp)+

lemma alike_formats [alike_eq]:
  assumes "alike a b"
  shows "fmt_delimiter opts b = fmt_delimiter opts a" "fmt_quote opts b = fmt_quote opts a"
    "fmt_terminator opts b = fmt_terminator opts a" "fmt_delimiter_tail opts b = fmt_delimiter_tail opts a"
    "fmt_ending_tail opts b = fmt_ending_tail opts a" "fmt_strips_cr opts b = fmt_strips_cr opts a"
    "fmt_quoting_enabled opts b = fmt_quoting_enabled opts a" "fmt_plain_kernel opts b = fmt_plain_kernel opts a"
    "fmt_unquoted_escape opts b = fmt_unquoted_escape opts a" "fmt_record_pass opts b = fmt_record_pass opts a"
    "fmt_general_parsing opts b = fmt_general_parsing opts a" "fmt_null_policy opts b = fmt_null_policy opts a"
    "fmt_escape opts b = fmt_escape opts a" "fmt_record_ending opts b = fmt_record_ending opts a"
    "fmt_permits_unquoted_quotes opts b = fmt_permits_unquoted_quotes opts a"
    "fmt_permits_any_backslash_escape opts b = fmt_permits_any_backslash_escape opts a"
    "fmt_permits_trailing_whitespace opts b = fmt_permits_trailing_whitespace opts a"
    "fmt_skip_initial_space opts b = fmt_skip_initial_space opts a" "dispatch_format opts b = dispatch_format opts a"
  unfolding fmt_delimiter_def fmt_quote_def fmt_terminator_def fmt_delimiter_tail_def
    fmt_ending_tail_def fmt_strips_cr_def fmt_quoting_enabled_def fmt_plain_kernel_def fmt_unquoted_escape_def
    fmt_record_pass_def fmt_general_parsing_def fmt_null_policy_def fmt_escape_def fmt_record_ending_def
    fmt_permits_unquoted_quotes_def fmt_permits_any_backslash_escape_def fmt_permits_trailing_whitespace_def
    fmt_skip_initial_space_def dispatch_format_def alike_fields [OF assms] by (rule refl)+

lemma alike_scans [alike_eq]:
  assumes "alike a b"
  shows "scan_end b input rs fs = scan_end a input rs fs" "allow_quote_search b = allow_quote_search a"
    "is_crlf b = is_crlf a" "unquoted_escape b = unquoted_escape a" "borrowed_scan_end b n rs = borrowed_scan_end a n rs"
    "holds_escape opts b input rs u = holds_escape opts a input rs u"
    "plain_record_candidate opts first b = plain_record_candidate opts first a"
  unfolding scan_end_def allow_quote_search_def is_crlf_def unquoted_escape_def borrowed_scan_end_def holds_escape_def
    plain_record_candidate_def alike_fields [OF assms] alike_formats [OF assms] by (rule refl)+

lemma alike_next_stop [alike_eq]:
  assumes "alike a b"
  shows "next_stop b ex rest = next_stop a ex rest"
  unfolding next_stop_def find_stop_byte_def escape_or_backslash_def alike_fields [OF assms] alike_scans [OF assms] by (rule refl)

text \<open>The second of two results follows the first when that is a success.\<close>

definition follows :: "engine \<times> 'a outcome \<Rightarrow> engine \<times> 'a outcome \<Rightarrow> bool" where
  "follows r s \<longleftrightarrow> (\<forall>a x. r = (a, Ok x) \<longrightarrow> (\<exists>b. s = (b, Ok x) \<and> alike a b))"

lemma follows_simps [simp]:
  "follows (a, Err er) s" "follows (a, Panic) s" "follows (a, Ok x) (b, Ok y) \<longleftrightarrow> x = y \<and> alike a b"
  by (auto simp: follows_def)

lemma followsE:
  assumes "follows r s" "r = (a, Ok x)"
  obtains b where "s = (b, Ok x)" "alike a b"
  using assms by (auto simp: follows_def)

lemma follows_bind:
  assumes "follows (m a) (m' b)" "\<And>x a' b'. alike a' b' \<Longrightarrow> follows (f x a') (f' x b')"
  shows "follows (bind_step m f a) (bind_step m' f' b)"
proof (cases "m a")
  case (Pair a' r)
  show ?thesis
  proof (cases r)
    case (Ok x)
    obtain b' where b: "m' b = (b', Ok x)" "alike a' b'" by (rule followsE [OF assms(1)]) (use Pair Ok in simp)
    show ?thesis using assms(2) [OF b(2), of x] by (simp add: bind_step_def Pair Ok b(1))
  qed (use Pair in \<open>auto simp: bind_step_def\<close>)
qed

lemma follows_return: "alike a b \<Longrightarrow> follows (return_step x a) (return_step x b)"
  by (simp add: return_step_def)

lemma follows_case:
  assumes "follows r s" "\<And>x a b. alike a b \<Longrightarrow> follows (f a x) (g b x)"
  shows "follows (case r of (e, Ok x) \<Rightarrow> f e x | (e, Err er) \<Rightarrow> (e, Err er) | (e, Panic) \<Rightarrow> (e, Panic))
      (case s of (e, Ok x) \<Rightarrow> g e x | (e, Err er) \<Rightarrow> (h e, Err er) | (e, Panic) \<Rightarrow> (k e, Panic))"
  using assms by (auto simp: follows_def split: prod.splits outcome.splits)

section \<open>Fields\<close>

lemma check_record_limit_for_follows:
  assumes "alike a b"
  shows "follows (check_record_limit_for input rs at n a) (check_record_limit_for input rs at n b)"
  using assms by (simp add: check_record_limit_for_def alike_fields [OF assms])

lemma check_record_limit_follows:
  assumes "alike a b"
  shows "follows (check_record_limit input rs at a) (check_record_limit input rs at b)"
  using check_record_limit_for_follows [OF assms] by (simp add: check_record_limit_def alike_fields [OF assms])

lemma check_scan_end_follows:
  assumes "alike a b"
  shows "follows (check_scan_end input at rs fs a) (check_scan_end input at rs fs b)"
  using check_record_limit_for_follows [OF assms]
  by (simp add: check_scan_end_def check_scan_end_for_def alike_fields [OF assms])

lemma check_scratch_limit_follows:
  assumes "alike a b"
  shows "follows (check_scratch_limit input ss at a) (check_scratch_limit input ss at b)"
  using assms by (simp add: check_scratch_limit_def check_scratch_limit_for_def alike_fields [OF assms])

lemma push_span_follows:
  assumes "alike a b"
  shows "follows (push_span input src f u at q a) (push_span input src f u at q b)"
  using assms by (cases src) (simp_all add: push_span_def alike_fields [OF assms] split: option.split)

lemma push_null_span_follows:
  assumes "alike a b"
  shows "follows (push_null_span input at a) (push_null_span input at b)"
  using assms by (simp add: push_null_span_def alike_fields [OF assms] split: outcome.split)

lemma validate_count_follows:
  assumes "alike a b"
  shows "follows (validate_count input n a) (validate_count input n b)"
proof -
  have rear: "alike a (b\<lparr>en_expected := en_expected a\<rparr>)" using assms by (simp add: alike_def essence_def)
  show ?thesis
    using assms rear
    by (cases "en_field_count a") (auto simp: validate_count_def alike_fields [OF assms] alike_def [of a b] split: option.split)
qed

lemma alike_marks [simp]:
  "alike a b \<Longrightarrow> alike (note_terminated a) (note_terminated b)" "alike a b \<Longrightarrow> alike (clear_terminated a) (clear_terminated b)"
  "alike a b \<Longrightarrow> alike (clear_terminated a) (note_terminated b)" "alike a b \<Longrightarrow> alike (note_terminated a) (clear_terminated b)"
  by (simp_all add: note_terminated_def clear_terminated_def)

lemma push_unescaped_follows:
  assumes "alike a b"
  shows "follows (push_unescaped_span input esc fs fe at a) (push_unescaped_span input esc fs fe at b)"
  using assms unfolding push_unescaped_span_def Let_def alike_eq [OF assms]
  by (intro follows_bind check_scratch_limit_follows) (simp_all add: alike_fields push_span_follows)

lemma push_general_follows:
  assumes "alike a b"
  shows "follows (push_general_unquoted_span input fs fe at header a) (push_general_unquoted_span input fs fe at header b)"
  unfolding push_general_unquoted_span_def Let_def alike_eq [OF assms]
  by (auto intro!: push_unescaped_follows push_span_follows push_null_span_follows assms split: option.split)

lemma end_general_follows:
  assumes "alike a b"
  shows "follows (end_general_field input rs header fs fe at resume ends a) (end_general_field input rs header fs fe at resume ends b)"
  unfolding end_general_field_def
proof (rule follows_bind, rule push_general_follows [OF assms])
  fix x a' b' assume l: "alike a' b'"
  show "follows (let e2 = a'\<lparr>en_location := resume\<rparr>; e3 = if ends then note_terminated e2 else e2
      in bind_step (check_record_limit input rs (en_location e3)) (\<lambda>_. return_step ends) e3)
    (let e2 = b'\<lparr>en_location := resume\<rparr>; e3 = if ends then note_terminated e2 else e2
      in bind_step (check_record_limit input rs (en_location e3)) (\<lambda>_. return_step ends) e3)"
    unfolding Let_def using l
    by (cases ends) (auto intro!: follows_bind follows_return check_record_limit_follows simp: note_terminated_def)
qed

lemma general_loop_follows:
  "alike a b \<Longrightarrow> follows (general_unquoted_loop ex input rs header fs cursor a) (general_unquoted_loop ex input rs header fs cursor b)"
proof (induction ex input rs header fs cursor a rule: general_unquoted_loop.induct)
  case (1 ex input rs header fs cursor a)
  note l = 1(5)
  note eqs = general_unquoted_loop.simps [of ex input rs header fs cursor a] general_unquoted_loop.simps [of ex input rs header fs cursor b]
  let ?stop = "scan_end a input rs fs"
  show ?case
  proof (cases "?stop \<le> cursor")
    case True
    then show ?thesis unfolding eqs Let_def alike_eq [OF l]
      by (simp, intro follows_bind check_scan_end_follows push_general_follows l) auto
  next
    case False
    show ?thesis
    proof (cases "next_stop a ex (slice input cursor ?stop)")
      case None
      then show ?thesis using 1(1) [OF False None l] False unfolding eqs alike_eq [OF l] by simp
    next
      case (Some i)
      show ?thesis
        using False Some 1(2-4) [OF False Some] l
        unfolding eqs alike_eq [OF l] Let_def fail_at_def
        by (auto intro: end_general_follows)
    qed
  qed
qed

lemma unquoted_runtime_follows:
  assumes "alike a b"
  shows "follows (parse_unquoted_field_runtime input rs dl qt tm q uq st a) (parse_unquoted_field_runtime input rs dl qt tm q uq st b)"
proof -
  have stop: "follows (bind_step (push_span input FromInput f u at False) (\<lambda>_ e1.
        let e2 = e1\<lparr>en_location := at + 1\<rparr>; e3 = (if t then note_terminated e2 else e2)
        in bind_step (check_record_limit input rs (en_location e3)) (\<lambda>_. return_step t) e3) a)
     (bind_step (push_span input FromInput f u at False) (\<lambda>_ e1.
        let e2 = e1\<lparr>en_location := at + 1\<rparr>; e3 = (if t then note_terminated e2 else e2)
        in bind_step (check_record_limit input rs (en_location e3)) (\<lambda>_. return_step t) e3) b)" for f u at t
  proof (rule follows_bind, rule push_span_follows [OF assms])
    fix a b assume l: "alike a b"
    let ?g = "\<lambda>e. if t then note_terminated (e\<lparr>en_location := at + 1\<rparr>) else e\<lparr>en_location := at + 1\<rparr>"
    have g: "alike (?g a) (?g b)" "en_location (?g e) = at + 1" for e using l by (simp_all add: note_terminated_def)
    show "follows (let e2 = a\<lparr>en_location := at + 1\<rparr>; e3 = (if t then note_terminated e2 else e2)
        in bind_step (check_record_limit input rs (en_location e3)) (\<lambda>_. return_step t) e3)
      (let e2 = b\<lparr>en_location := at + 1\<rparr>; e3 = (if t then note_terminated e2 else e2)
        in bind_step (check_record_limit input rs (en_location e3)) (\<lambda>_. return_step t) e3)"
      unfolding Let_def g(2)
      by (rule follows_bind, rule check_record_limit_follows [OF g(1)], rule follows_return)
  qed
  have ending: "follows (bind_step (check_scan_end input n rs fs) (\<lambda>_.
        bind_step (push_span input FromInput fs n n False) (\<lambda>_ e'. (clear_terminated (e'\<lparr>en_location := n\<rparr>), Ok True))) a)
     (bind_step (check_scan_end input n rs fs) (\<lambda>_.
        bind_step (push_span input FromInput fs n n False) (\<lambda>_ e'. (clear_terminated (e'\<lparr>en_location := n\<rparr>), Ok True))) b)" for n fs
    by (rule follows_bind, rule check_scan_end_follows [OF assms], rule follows_bind, erule push_span_follows)
      (simp add: clear_terminated_def)
  let ?stop = "scan_end a input rs (en_location a)"
  show ?thesis
  proof (cases "get_range input (en_location a) ?stop")
    case None
    then show ?thesis by (simp add: parse_unquoted_field_runtime_def alike_eq [OF assms])
  next
    case (Some remaining)
    show ?thesis
    proof (cases "if q \<and> \<not> uq then find3 dl qt tm remaining else find2 dl tm remaining")
      case None
      show ?thesis
        unfolding parse_unquoted_field_runtime_def Let_def alike_eq [OF assms] Some option.case None by (rule ending)
    next
      case stopped: (Some i)
      show ?thesis
        unfolding parse_unquoted_field_runtime_def Let_def alike_eq [OF assms] Some option.case stopped fail_at_def
        using stop [unfolded Let_def] by simp
    qed
  qed
qed

lemma unquoted_follows:
  assumes "alike a b"
  shows "follows (parse_unquoted_field opts input rs header a) (parse_unquoted_field opts input rs header b)"
  using general_loop_follows [OF assms] unquoted_runtime_follows [OF assms]
  by (simp add: parse_unquoted_field_def parse_general_unquoted_field_def alike_eq [OF assms])

lemma finish_quoted_follows:
  assumes "alike a b"
  shows "follows (finish_quoted_field input rs closed cfg a) (finish_quoted_field input rs closed cfg b)"
  unfolding finish_quoted_field_def Let_def fail_at_def
  using assms
  by (auto intro!: follows_bind follows_return check_record_limit_follows simp: note_terminated_def clear_terminated_def
      split: option.split)

lemma close_quoted_follows:
  assumes "alike a b"
  shows "follows (close_quoted input rs cfg cs ss seg copied at a) (close_quoted input rs cfg cs ss seg copied at b)"
  unfolding close_quoted_def Let_def alike_eq [OF assms]
  using assms by (cases copied) (auto intro!: follows_bind finish_quoted_follows push_span_follows simp: alike_fields [OF assms])

lemma take_escape_follows:
  assumes "alike a b"
  shows "follows (take_escape input copied cs seg at x ss a) (take_escape input copied cs seg at x ss b)"
  unfolding take_escape_def Let_def alike_eq [OF assms] using assms by (intro check_scratch_limit_follows) simp

lemma quoted_loop_follows:
  "alike a b \<Longrightarrow> follows (parse_quoted_loop input rs cfg cs ss seg cursor copied a) (parse_quoted_loop input rs cfg cs ss seg cursor copied b)"
proof (induction input rs cfg cs ss seg cursor copied a arbitrary: b rule: parse_quoted_loop.induct)
  case (1 input rs cfg cs ss seg cursor copied a)
  note l = 1(2)
  note eqs = parse_quoted_loop.simps [of input rs cfg cs ss seg cursor copied a] parse_quoted_loop.simps [of input rs cfg cs ss seg cursor copied b]
  let ?stop = "scan_end a input rs cs"
  show ?case
  proof (cases "get_range input cursor ?stop")
    case None
    then show ?thesis
      unfolding eqs Let_def alike_eq [OF l] by (simp add: check_record_limit_def check_record_limit_for_def)
  next
    case range: (Some remaining)
    show ?thesis
    proof (cases "quoted_stop cfg remaining")
      case None
      then show ?thesis
        using range l unfolding eqs Let_def alike_eq [OF l] by (auto intro!: follows_bind check_scan_end_follows simp: fail_at_def)
    next
      case stop: (Some i)
      show ?thesis
      proof (cases "quoted_event_at input cfg ?stop (cursor + i)")
        case (Escaped x)
        obtain a1 r where r: "take_escape input copied cs seg (cursor + i) x ss a = (a1, r)" by fastforce
        note took = take_escape_follows [OF l, of input copied cs seg "cursor + i" x ss, unfolded r]
        show ?thesis
        proof (cases r)
          case (Ok u)
          obtain b1 where b1: "take_escape input copied cs seg (cursor + i) x ss b = (b1, Ok u)" "alike a1 b1"
            by (rule followsE [OF took]) (use Ok in simp)
          have "follows (parse_quoted_loop input rs cfg cs ss (cursor + i + 2) (cursor + i + 2) True a1)
              (parse_quoted_loop input rs cfg cs ss (cursor + i + 2) (cursor + i + 2) True b1)"
            using 1(1) [OF refl range stop Escaped r [symmetric, unfolded Ok] refl b1(2)] .
          then show ?thesis using range stop Escaped r Ok b1(1) unfolding eqs Let_def alike_eq [OF l] by simp
        qed (use range stop Escaped r in \<open>simp_all add: eqs Let_def alike_eq [OF l]\<close>)
      next
        case ClosingQuote
        then show ?thesis using range stop close_quoted_follows [OF l] unfolding eqs Let_def alike_eq [OF l] by simp
      next
        case BadQuoted
        then show ?thesis using range stop unfolding eqs Let_def alike_eq [OF l] by (simp add: fail_at_def)
      qed
    qed
  qed
qed

lemma quoted_follows:
  assumes "alike a b"
  shows "follows (parse_quoted_field opts input rs a) (parse_quoted_field opts input rs b)"
  unfolding parse_quoted_field_def Let_def alike_eq [OF assms] by (rule quoted_loop_follows [OF assms])

lemma spaces_loop_follows:
  "alike a b \<Longrightarrow> follows (skip_delimiter_spaces_loop input rs n a) (skip_delimiter_spaces_loop input rs n b)"
proof (induction input rs n a arbitrary: b rule: skip_delimiter_spaces_loop.induct)
  case (1 input rs n a)
  note l = 1(2)
  note eqs = skip_delimiter_spaces_loop.simps [of input rs n a] skip_delimiter_spaces_loop.simps [of input rs n b]
  let ?a = "a\<lparr>en_location := en_location a + 1\<rparr>" and ?b = "b\<lparr>en_location := en_location a + 1\<rparr>"
  have l1: "alike ?a ?b" using l by simp
  show ?case
  proof (cases "get_at input (en_location a) = Some 32")
    case True
    have checked: "follows (check_record_limit_for input rs (en_location ?a) n ?a) (check_record_limit_for input rs (en_location ?a) n ?b)"
      by (rule check_record_limit_for_follows [OF l1])
    show ?thesis
    proof (cases "check_record_limit_for input rs (en_location ?a) n ?a")
      case (Pair a' r)
      have ih: "follows (skip_delimiter_spaces_loop input rs n ?a) (skip_delimiter_spaces_loop input rs n ?b)" if "r = Ok u" for u
        using 1(1) [OF True refl Pair [symmetric] that l1] .
      show ?thesis
        using True checked Pair ih unfolding eqs alike_eq [OF l]
        by (cases r) (auto simp: Let_def follows_def split: prod.splits outcome.splits)
    qed
  next
    case False
    then show ?thesis using l unfolding eqs alike_eq [OF l] by simp
  qed
qed

lemma spaces_follows:
  assumes "alike a b"
  shows "follows (skip_delimiter_spaces opts input rs a) (skip_delimiter_spaces opts input rs b)"
  unfolding skip_delimiter_spaces_def skip_delimiter_spaces_for_def alike_eq [OF assms]
  using assms spaces_loop_follows [OF assms] by simp

section \<open>Records\<close>

lemma one_field_follows:
  assumes "alike a b"
  shows "follows (parse_one_field opts input rs header a) (parse_one_field opts input rs header b)"
  unfolding parse_one_field_def
proof (rule follows_bind, rule spaces_follows [OF assms])
  fix x a b assume l: "alike a b"
  show "follows (if get_at input (en_location a) = Some (fmt_quote opts a) \<and> fmt_quoting_enabled opts a
      then parse_quoted_field opts input rs a else parse_unquoted_field opts input rs header a)
     (if get_at input (en_location b) = Some (fmt_quote opts b) \<and> fmt_quoting_enabled opts b
      then parse_quoted_field opts input rs b else parse_unquoted_field opts input rs header b)"
    unfolding alike_eq [OF l] using quoted_follows [OF l] unquoted_follows [OF l] by simp
qed

lemma mark_cold_follows:
  assumes "alike a b"
  shows "follows (mark_null_spans_cold input n a) (mark_null_spans_cold input n b)"
  using assms unfolding mark_null_spans_cold_def alike_eq [OF assms] by (simp split: outcome.split)

lemma finish_general_follows:
  assumes "alike a b"
  shows "follows (finish_general_record opts input header a) (finish_general_record opts input header b)"
  unfolding finish_general_record_def
proof (rule follows_bind)
  show "follows (mark_null_spans opts input header a) (mark_null_spans opts input header b)"
    unfolding mark_null_spans_def Let_def alike_eq [OF assms] using assms mark_cold_follows [OF assms] by simp
qed (simp add: alike_fields validate_count_follows)

lemma record_fields_follows:
  "alike a b \<Longrightarrow> follows (parse_record_fields opts input rs header a) (parse_record_fields opts input rs header b)"
proof (induction opts input rs header a arbitrary: b rule: parse_record_fields.induct)
  case (1 opts input rs header a)
  note eqs = parse_record_fields.simps [of opts input rs header a] parse_record_fields.simps [of opts input rs header b]
  obtain a1 r where r: "parse_one_field opts input rs header a = (a1, r)" by fastforce
  show ?case
  proof (cases r)
    case (Ok ended)
    obtain b1 where b1: "parse_one_field opts input rs header b = (b1, Ok ended)" "alike a1 b1"
      by (rule followsE [OF one_field_follows [OF 1(2)], of opts input rs header a1 ended]) (use r Ok in simp)
    show ?thesis
      using 1(1) [OF r [symmetric] Ok _ b1(2)] finish_general_follows [OF b1(2)] r Ok b1(1) unfolding eqs by (cases ended) simp_all
  qed (use r in \<open>simp_all add: eqs\<close>)
qed

lemma fold_follows: "alike a b \<Longrightarrow> alike (fold_plain_record opts rs t a) (fold_plain_record opts rs t b)"
proof -
  assume l: "alike a b"
  have "alike e (fold_plain_record opts rs t e)" for e by (simp add: fold_plain_record_def alike_def essence_def)
  moreover have "alike (fold_plain_record opts rs t e) e" for e by (simp add: fold_plain_record_def alike_def essence_def)
  ultimately show ?thesis using l alike_trans by blast
qed

lemma kernel_end_follows:
  assumes "alike a b"
  shows "follows (kernel_at_end opts input rs fs a) (kernel_at_end opts input rs fs b)"
  unfolding kernel_at_end_def Let_def fail_at_def decline_def alike_eq [OF assms]
  using assms
  by (auto intro!: follows_bind push_span_follows check_record_limit_follows simp: fold_follows clear_terminated_def)

lemma kernel_terminator_follows:
  assumes "alike a b"
  shows "follows (kernel_at_terminator opts input rs fs cursor a) (kernel_at_terminator opts input rs fs cursor b)"
  unfolding kernel_at_terminator_def Let_def decline_def alike_eq [OF assms]
  using assms
  by (auto intro!: follows_bind push_span_follows check_record_limit_follows simp: fold_follows note_terminated_def)

lemma kernel_loop_follows:
  "alike a b \<Longrightarrow> follows (kernel_loop opts input rs found fs a) (kernel_loop opts input rs found fs b)"
proof (induction opts input rs found fs a arbitrary: b rule: kernel_loop.induct)
  case (1 opts input rs fs a)
  then show ?case by (simp add: kernel_end_follows)
next
  case (2 opts input rs cursor x found fs a)
  note l = 2(3)
  obtain a1 r where r: "push_span input FromInput fs cursor cursor False a = (a1, r)" by fastforce
  have pushed: "follows (case (a1, r) of (e, Ok u) \<Rightarrow> kernel_loop opts input rs found (Suc cursor) e
        | (e, Err er) \<Rightarrow> (e, Err er) | (e, Panic) \<Rightarrow> (e, Panic))
      (case push_span input FromInput fs cursor cursor False b of (e, Ok u) \<Rightarrow> kernel_loop opts input rs found (Suc cursor) e
        | (e, Err er) \<Rightarrow> (e, Err er) | (e, Panic) \<Rightarrow> (e, Panic))" if "x = fmt_delimiter opts a"
  proof (cases r)
    case (Ok u)
    obtain b1 where b1: "push_span input FromInput fs cursor cursor False b = (b1, Ok u)" "alike a1 b1"
      by (rule followsE [OF push_span_follows [OF l], of input FromInput fs cursor cursor False a1 u]) (use r Ok in simp)
    show ?thesis using 2(1) [OF that r [symmetric] Ok b1(2)] b1(1) Ok by simp
  qed (use r in simp_all)
  consider (delim) "x = fmt_delimiter opts a"
    | (quote) "x \<noteq> fmt_delimiter opts a" "x = fmt_quote opts a \<and> fmt_quoting_enabled opts a \<and>
        (cursor = fs \<or> \<not> fmt_permits_unquoted_quotes opts a)"
    | (other) "x \<noteq> fmt_delimiter opts a" "\<not> (x = fmt_quote opts a \<and> fmt_quoting_enabled opts a \<and>
        (cursor = fs \<or> \<not> fmt_permits_unquoted_quotes opts a))" by blast
  then show ?case
  proof cases
    case delim
    then show ?thesis using pushed [OF delim] r unfolding kernel_loop.simps alike_eq [OF l] by simp
  next
    case quote
    then show ?thesis using l unfolding kernel_loop.simps alike_eq [OF l] decline_def by simp
  next
    case other
    show ?thesis
      using other 2(2) [OF other _ l] kernel_terminator_follows [OF l, of opts input rs fs cursor]
      unfolding kernel_loop.simps alike_eq [OF l] if_not_P [OF other(1)] if_not_P [OF other(2)] by simp
  qed
qed

lemma validate_crlf_follows:
  assumes "alike a b"
  shows "follows (validate_crlf input rs a) (validate_crlf input rs b)"
proof -
  let ?judge = "\<lambda>terminated search_end lf e. case get_range input rs search_end of
      None \<Rightarrow> (e, Panic)
    | Some whole \<Rightarrow> (case find1 CR whole of
        Some offset \<Rightarrow> (let at = rs + offset in (e, Err (error_for e input (InvalidRecordEnding CR) at (field_at e at))))
      | None \<Rightarrow> if terminated \<and> search_end = lf
          then (e, Err (error_for e input (InvalidRecordEnding LF) lf (storage_len (en_spans e) - 1))) else (e, Ok ()))"
  have "follows (?judge t s lf a) (?judge t s lf b)" for t s lf
    using assms by (cases "get_range input rs s"; cases "t \<and> s = lf") (auto simp: Let_def split: option.split)
  then show ?thesis unfolding validate_crlf_def alike_eq [OF assms] Let_def .
qed

lemma finish_plain_follows:
  assumes "alike a b"
  shows "follows (finish_plain_record opts input rs header a) (finish_plain_record opts input rs header b)"
  unfolding finish_plain_record_def alike_eq [OF assms]
proof (rule follows_bind)
  show "follows ((if fmt_record_ending opts a = CrLf then validate_crlf input rs else return_step ()) a)
     ((if fmt_record_ending opts a = CrLf then validate_crlf input rs else return_step ()) b)"
    using follows_return [OF assms, of "()"] validate_crlf_follows [OF assms] by simp
qed (simp add: mark_cold_follows)

lemma parse_record_follows:
  assumes "alike a b"
  shows "follows (parse_record opts input rs header a) (parse_record opts input rs header b)"
proof (cases "get_at input rs")
  case (Some first)
  let ?m = "\<lambda>e. if plain_record_candidate opts first e then try_parse_borrowed_plain opts input rs e else return_step False e"
  let ?f = "\<lambda>plain e1. if plain then bind_step (if fmt_record_pass opts e1 then finish_plain_record opts input rs header else return_step ())
      (\<lambda>_ e2. validate_count input (storage_len (en_spans e2)) e2) e1
    else parse_record_fields (dispatch_format opts e1) input rs header e1"
  have "follows (?m a) (?m b)"
    using follows_return [OF assms, of False] kernel_loop_follows [OF assms]
    unfolding try_parse_borrowed_plain_def Let_def alike_eq [OF assms] by simp
  moreover have "follows (?f x a') (?f x b')" if l: "alike a' b'" for x a' b'
  proof (cases x)
    case True
    have "follows (bind_step (if fmt_record_pass opts a' then finish_plain_record opts input rs header else return_step ())
        (\<lambda>_ e2. validate_count input (storage_len (en_spans e2)) e2) a')
      (bind_step (if fmt_record_pass opts a' then finish_plain_record opts input rs header else return_step ())
        (\<lambda>_ e2. validate_count input (storage_len (en_spans e2)) e2) b')"
      using finish_plain_follows [OF l] follows_return [OF l, of "()"]
      by (intro follows_bind) (simp_all add: alike_fields validate_count_follows)
    then show ?thesis using True unfolding alike_eq [OF l] by simp
  next
    case False
    then show ?thesis using record_fields_follows [OF l] unfolding alike_eq [OF l] by simp
  qed
  ultimately have "follows (bind_step ?m ?f a) (bind_step ?m ?f b)" by (rule follows_bind)
  moreover have "parse_record opts input rs header e = bind_step ?m ?f e" for e
    using Some by (simp add: parse_record_def bind_step_def)
  ultimately show ?thesis by simp
qed (simp add: parse_record_def)

section \<open>Ignored records\<close>

text \<open>
  Between records the spans do not matter either, and a checkpoint matters only inside a comment.
\<close>

definition kin :: "engine \<Rightarrow> engine \<Rightarrow> bool" where
  "kin a b \<longleftrightarrow>
     alike (a\<lparr>en_spans := storage_with_capacity\<rparr>) (b\<lparr>en_spans := storage_with_capacity\<rparr>) \<and>
     (en_resume b = en_resume a \<or> \<not> rs_ignored (en_resume a) \<and> \<not> rs_ignored (en_resume b))"

lemma kin_fields:
  assumes "kin a b"
  shows "en_location b = en_location a" "en_dialect b = en_dialect a" "en_blank_records b = en_blank_records a"
    "en_skips_records b = en_skips_records a" "en_failed b = en_failed a"
    "rs_ignored (en_resume b) = rs_ignored (en_resume a)" "resuming input b = resuming input a"
proof -
  have l: "alike (a\<lparr>en_spans := storage_with_capacity\<rparr>) (b\<lparr>en_spans := storage_with_capacity\<rparr>)"
    and r: "en_resume b = en_resume a \<or> \<not> rs_ignored (en_resume a) \<and> \<not> rs_ignored (en_resume b)"
    using assms by (simp_all add: kin_def)
  note f = alike_fields [OF l]
  show loc: "en_location b = en_location a" using f(1) by simp
  show "en_dialect b = en_dialect a" using f(2) by simp
  show "en_blank_records b = en_blank_records a" using f(7) by simp
  show "en_skips_records b = en_skips_records a" using f(14) by simp
  show "en_failed b = en_failed a" using f(16) by simp
  show "rs_ignored (en_resume b) = rs_ignored (en_resume a)" "resuming input b = resuming input a"
    using r loc by (auto simp: resuming_def)
qed

lemma kin_updates:
  assumes "kin a b"
  shows "kin (a\<lparr>en_location := n\<rparr>) (b\<lparr>en_location := n\<rparr>)" "kin (a\<lparr>en_location := n, en_resume := s\<rparr>) (b\<lparr>en_location := n, en_resume := s\<rparr>)"
    "kin (a\<lparr>en_resume := s, en_location := n\<rparr>) (b\<lparr>en_resume := s, en_location := n\<rparr>)"
    "kin (a\<lparr>en_resume := s\<rparr>) (b\<lparr>en_resume := s\<rparr>)"
  using assms unfolding kin_def alike_def essence_def by (cases a; cases b; simp)+

lemma comments_kin: "kin a b \<Longrightarrow> kin (skip_comments_loop c input a) (skip_comments_loop c input b)"
proof (induction c input a arbitrary: b rule: skip_comments_loop.induct)
  case (1 c input a)
  note k = kin_fields [OF 1(2)]
  note eqs = skip_comments_loop.simps [of c input a] skip_comments_loop.simps [of c input b]
  show ?case
  proof (cases "\<not> resuming input a \<and> get_at input (en_location a) \<noteq> Some c")
    case True
    then show ?thesis using 1(2) k unfolding eqs by simp
  next
    case False
    let ?start = "if resuming input a then rs_scanned_to (en_resume a) else en_location a"
    have start: "(if resuming input a then rs_scanned_to (en_resume b) else en_location a) = ?start"
      using 1(2) by (auto simp: kin_def resuming_def)
    show ?thesis
    proof (cases "find_record_ending (en_dialect a) input ?start")
      case None
      then show ?thesis unfolding eqs k Let_def start if_not_P [OF False] using kin_updates(3) [OF 1(2)] by simp
    next
      case (Some n)
      then show ?thesis
        unfolding eqs k Let_def start if_not_P [OF False] using 1(1) [OF False refl refl Some kin_updates(2) [OF 1(2)]] by simp
    qed
  qed
qed

lemma blanks_kin: "kin a b \<Longrightarrow> kin (skip_blank_lines_loop input a) (skip_blank_lines_loop input b)"
proof (induction input a arbitrary: b rule: skip_blank_lines_loop.induct)
  case (1 input a)
  note k = kin_fields [OF 1(2)]
  show ?case
    using 1(1) [OF _ kin_updates(1) [OF 1(2)]] 1(2)
    unfolding skip_blank_lines_loop.simps [of input a] skip_blank_lines_loop.simps [of input b] k by (simp split: option.split)
qed

lemma pass_kin:
  assumes "kin a b"
  shows "kin (skip_pass input a) (skip_pass input b)"
proof -
  have "kin (skip_comments input a) (skip_comments input b)"
    using assms comments_kin by (simp add: skip_comments_def kin_fields [OF assms] split: option.split)
  then show ?thesis by (simp add: skip_pass_def skip_blank_lines_def kin_fields blanks_kin)
qed

lemma skip_loop_kin:
  "kin a b \<Longrightarrow> fst (skip_ignored_loop input s a) = fst (skip_ignored_loop input s b) \<and>
     kin (snd (skip_ignored_loop input s a)) (snd (skip_ignored_loop input s b))"
proof (induction input s a arbitrary: b rule: skip_ignored_loop.induct)
  case (1 input s a)
  have p: "kin (skip_pass input a) (skip_pass input b)" by (rule pass_kin [OF 1(2)])
  note l = kin_fields(1) [OF 1(2)] kin_fields(1) [OF p]
  show ?case
    using 1(1) [OF refl refl _ p] p
    unfolding skip_ignored_loop.simps [of input s a] skip_ignored_loop.simps [of input s b] Let_def l by simp
qed

lemma skip_ignored_kin:
  assumes "kin a b"
  shows "kin (skip_ignored_records input a) (skip_ignored_records input b)"
proof -
  obtain s x where x: "skip_ignored_loop input (rs_ignored (en_resume a)) a = (s, x)" by fastforce
  obtain s' y where y': "skip_ignored_loop input (rs_ignored (en_resume a)) b = (s', y)" by fastforce
  then have y: "skip_ignored_loop input (rs_ignored (en_resume a)) b = (s, y)" "kin x y"
    using skip_loop_kin [OF assms, of input "rs_ignored (en_resume a)"] x by simp_all
  show ?thesis
    using x y kin_fields [OF y(2)] kin_updates(4) [OF y(2)]
    by (simp add: skip_ignored_records_def kin_fields [OF assms])
qed

section \<open>Reading again\<close>

lemma begin_kin:
  assumes "kin a b"
  shows "follows (begin_spans input a) (begin_spans input b)"
proof -
  have "storage_begin input MAX_OFFSET (en_spans b) = storage_begin input MAX_OFFSET (en_spans a)"
    by (simp add: storage_begin_def)
  moreover have "alike (a\<lparr>en_spans := st\<rparr>) (b\<lparr>en_spans := st\<rparr>)" for st
  proof -
    have "alike (a\<lparr>en_spans := storage_with_capacity\<rparr>) (b\<lparr>en_spans := storage_with_capacity\<rparr>)"
      using assms by (simp add: kin_def)
    from alike_updates(1) [OF this, of st] show ?thesis by simp
  qed
  ultimately show ?thesis by (cases "storage_begin input MAX_OFFSET (en_spans a)") (simp_all add: begin_spans_def)
qed

lemma trim_follows:
  assumes "alike a b"
  shows "follows (trim_spans input header a) (trim_spans input header b)"
proof (cases "ws_applies_to_scope (en_trim a) header")
  case True
  note e = alike_fields(6,15) [OF assms]
  show ?thesis
  proof (cases "trim_ascii_where input (ws_applies (en_trim a) header) (en_spans a)")
    case (Ok st)
    show ?thesis unfolding trim_spans_def e if_P [OF True] Ok outcome.case by (simp add: assms)
  qed (simp_all only: trim_spans_def e if_P [OF True] outcome.case follows_simps)
next
  case False
  show ?thesis unfolding trim_spans_def alike_fields(6) [OF assms] if_not_P [OF False] by (simp add: assms)
qed

text \<open>The record index is the one thing a caller sees that depends on the way there.\<close>

lemma positioned_kin:
  assumes "kin a b" "parse_positioned_record opts input header a = (a', Ok (bounds, i))"
  obtains b' j where "parse_positioned_record opts input header b = (b', Ok (bounds, j))" "alike a' b'"
proof -
  obtain a1 where a1: "begin_spans input a = (a1, Ok ())"
    using assms(2) unfolding parse_positioned_record_def by (elim bind_step_Ok) simp
  obtain b1 where b1: "begin_spans input b = (b1, Ok ())" "alike a1 b1" by (rule followsE [OF begin_kin [OF assms(1)] a1])
  obtain a2 where a2: "parse_record opts input (en_location a1) header a1 = (a2, Ok ())"
    using assms(2) a1 by (auto simp: parse_positioned_record_def bind_step_def Let_def split: prod.splits outcome.splits)
  obtain b2 where b2: "parse_record opts input (en_location a1) header b1 = (b2, Ok ())" "alike a2 b2"
    by (rule followsE [OF parse_record_follows [OF b1(2)] a2])
  obtain a3 where a3: "trim_spans input header a2 = (a3, Ok ())"
    using assms(2) a1 a2 by (auto simp: parse_positioned_record_def bind_step_def Let_def split: prod.splits outcome.splits)
  obtain b3 where b3: "trim_spans input header b2 = (b3, Ok ())" "alike a3 b3" by (rule followsE [OF trim_follows [OF b2(2)] a3])
  have res: "a' = a3\<lparr>en_record_index := en_record_index a3 + 1\<rparr>" "bounds = (en_location a1, en_location a3)"
    using assms(2) a1 a2 a3 by (auto simp: parse_positioned_record_def bind_step_def Let_def)
  have "parse_positioned_record opts input header b =
      (b3\<lparr>en_record_index := en_record_index b3 + 1\<rparr>, Ok (bounds, en_record_index b3))"
    using b1 b2 b3 res alike_fields(1) [OF b1(2)] alike_fields(1) [OF b3(2)]
    by (simp add: parse_positioned_record_def bind_step_def Let_def)
  then show thesis using that res(1) b3(2) by simp
qed

text \<open>After a record the two engines are kin again, and the record reads the same.\<close>

lemma kin_after:
  assumes "alike a b" "\<not> rs_ignored (en_resume a)" "\<not> rs_ignored (en_resume b)"
  shows "kin a b"
  using alike_updates(1) [OF assms(1)] assms(2,3) by (simp add: kin_def)

lemma alike_steady_parts:
  assumes "alike (a\<lparr>en_spans := st\<rparr>) (b\<lparr>en_spans := st\<rparr>)"
  shows "engine_wf b = engine_wf a" "format_matches opts b = format_matches opts a"
proof -
  note e = alike_fields [OF assms]
  show m: "format_matches opts b = format_matches opts a" for opts
    using e by (cases opts) (simp_all add: format_matches_def)
  show "engine_wf b = engine_wf a" using e by (simp add: engine_wf_def m)
qed

lemma resume_after_parse:
  assumes "engine_wf e" "format_matches opts e" "en_location e < length input"
    "parse_positioned_record opts input header e = (e', Ok r)"
  shows "en_resume e' = en_resume e"
proof -
  obtain origin until i where r: "r = ((origin, until), i)" by (metis prod.collapse)
  have "config_of (e'\<lparr>en_record_index := 0\<rparr>) = config_of (e\<lparr>en_record_index := 0\<rparr>)"
    using parse_positioned_result [OF assms(1-3), of header] unfolding assms(4) r outcome.case prod.case by blast
  then show ?thesis unfolding config_of_def by (cases e; cases e'; simp)
qed

text \<open>What a parser is built with; reading never changes it.\<close>

definition build_of :: "engine \<Rightarrow> engine" where
  "build_of e = essence (e\<lparr>en_location := 0, en_spans := storage_with_capacity\<rparr>)"

lemma kin_iff:
  "kin a b \<longleftrightarrow> build_of a = build_of b \<and> en_location a = en_location b \<and> (en_expected b = en_expected a \<or> en_expected b = None) \<and>
     (en_resume b = en_resume a \<or> \<not> rs_ignored (en_resume a) \<and> \<not> rs_ignored (en_resume b))"
  unfolding kin_def alike_def build_of_def essence_def by (cases a; cases b) auto

lemma build_of_config: "config_of (a\<lparr>en_record_index := 0\<rparr>) = config_of (b\<lparr>en_record_index := 0\<rparr>) \<Longrightarrow> build_of a = build_of b"
  unfolding config_of_def build_of_def essence_def by (cases a; cases b) simp

lemma build_of_seek: "build_of (seek_to_exact byte line i e) = build_of (e\<lparr>en_failed := False\<rparr>)"
  by (simp add: build_of_def essence_def seek_to_exact_def)

lemma build_of_aside: "set_aside a = set_aside b \<Longrightarrow> build_of a = build_of b"
  unfolding set_aside_def build_of_def essence_def by (cases a; cases b) simp

lemma build_of_not_failed: "\<not> en_failed e \<Longrightarrow> build_of (e\<lparr>en_failed := False\<rparr>) = build_of e"
  unfolding build_of_def essence_def by (cases e) simp

lemma build_of_position:
  assumes "steady opts input e"
  shows "build_of (position_engine input e) = build_of e" "en_expected (position_engine input e) = en_expected e"
proof -
  have s: "engine_wf e" "behind input e" using assms by (simp_all add: steady_def)
  have "set_aside (position_engine input e) = set_aside e"
    using skip_ignored_skips [of e input] s(1)
    by (simp add: position_engine_behind [OF s(2)] skips_def engine_wf_def)
  note aside = this
  show "build_of (position_engine input e) = build_of e" by (rule build_of_aside [OF aside])
  show "en_expected (position_engine input e) = en_expected e"
    using aside unfolding set_aside_def by (cases e; cases "position_engine input e"; simp)
qed

text \<open>A record that begins where the engine stands is not stepped over by another pass.\<close>

lemma pass_ends:
  assumes "behind input e" "en_location (skip_pass input e) = en_location e"
  shows "skip_pass input e = e"
proof -
  have fresh: "\<not> resuming input e" using assms(1) by (simp add: behind_def resuming_def)
  have blanks: "en_location (skip_blank_lines input x) \<ge> en_location x \<and>
      (en_location (skip_blank_lines input x) = en_location x \<longrightarrow> skip_blank_lines input x = x)" for x
    using skip_blank_lines_loop_moves [of input x] by (auto simp: skip_blank_lines_def)
  have "skip_comments input e = e"
  proof (cases "comment (en_dialect e)")
    case (Some c)
    then have loop: "skip_comments input e = skip_comments_loop c input e" by (simp add: skip_comments_def)
    show ?thesis
    proof (cases "get_at input (en_location e) = Some c")
      case False
      then show ?thesis using fresh loop by (simp add: skip_comments_loop.simps [of c input e])
    next
      case True
      then have lt: "en_location e < length input" by (simp add: get_at_Some_iff)
      have "checkpoint_sane e" using assms(1) by (simp add: checkpoint_sane_def behind_def)
      then have "en_location e < en_location (skip_comments_loop c input e)"
      proof (cases "find_record_ending (en_dialect e) input (en_location e)")
        case None
        then show ?thesis using True fresh lt by (simp add: skip_comments_loop.simps [of c input e] Let_def)
      next
        case (Some n)
        let ?n = "e\<lparr>en_location := n, en_resume := resume_new\<rparr>"
        have "en_location e < n" using Some find_record_ending_from_bounds by (auto simp: find_record_ending_def)
        moreover have "checkpoint_sane ?n" by (simp add: checkpoint_sane_def resume_new_def)
        then have "n \<le> en_location (skip_comments_loop c input ?n)" using skip_comments_loop_moves [of c input ?n] by auto
        ultimately show ?thesis using Some True fresh by (simp add: skip_comments_loop.simps [of c input e] Let_def)
      qed
      then show ?thesis using assms(2) blanks [of "skip_comments input e"] loop by (simp add: skip_pass_def)
    qed
  qed (simp add: skip_comments_def)
  then show ?thesis using blanks [of e] assms(2) by (simp add: skip_pass_def)
qed

lemma loop_ends:
  "behind input x \<Longrightarrow> length input < usize_max \<Longrightarrow> en_location (snd (skip_ignored_loop input s x)) \<noteq> length input \<Longrightarrow>
     skip_pass input (snd (skip_ignored_loop input s x)) = snd (skip_ignored_loop input s x)"
proof (induction input s x rule: skip_ignored_loop.induct)
  case (1 input s x)
  show ?case
  proof (cases "en_location (skip_pass input x) = en_location x")
    case True
    then show ?thesis using pass_ends [OF 1(2) True] by (simp add: skip_ignored_loop.simps [of input s x])
  next
    case False
    have eq: "skip_ignored_loop input s x = skip_ignored_loop input True (skip_pass input x)"
      using False by (simp add: skip_ignored_loop.simps [of input s x])
    have "behind input (skip_pass input x)"
    proof (rule ccontr)
      assume "\<not> behind input (skip_pass input x)"
      then have stuck: "stuck input (skip_pass input x)" using behind_pass [OF 1(2,3)] by blast
      then have "skip_ignored_loop input True (skip_pass input x) = (True, skip_pass input x)"
        using stuck_pass [OF stuck] by (simp add: skip_ignored_loop.simps [of input True "skip_pass input x"])
      then show False using 1(4) stuck eq by (simp add: stuck_def)
    qed
    then show ?thesis using 1(1) [OF refl refl False _ 1(3)] 1(4) unfolding eq by simp
  qed
qed

lemma build_of_skips: "build_of a = build_of b \<Longrightarrow> en_skips_records a = en_skips_records b"
  unfolding build_of_def essence_def by (cases a; cases b) simp

lemma kin_resume: "kin (x\<lparr>en_resume := r\<rparr>) b \<Longrightarrow> \<not> rs_ignored (en_resume x) \<Longrightarrow> \<not> rs_ignored (en_resume b) \<Longrightarrow> kin x b"
  "kin x b \<Longrightarrow> \<not> rs_ignored (en_resume x) \<Longrightarrow> \<not> rs_ignored (en_resume b) \<Longrightarrow> \<not> rs_ignored r \<Longrightarrow> kin (x\<lparr>en_resume := r\<rparr>) b"
  unfolding kin_iff build_of_def essence_def by (cases x; cases b; simp)+

lemma positioned_again:
  assumes "steady opts input e" "en_location (position_engine input e) \<noteq> length input" "kin (position_engine input e) b"
    "behind input b"
  shows "kin (position_engine input e) (position_engine input b)"
proof (cases "en_skips_records e")
  case False
  then have p: "position_engine input e = e" by (simp add: position_engine_def)
  then have "\<not> en_skips_records b" using kin_fields(4) [OF assms(3)] False by simp
  then show ?thesis using assms(3) by (simp add: position_engine_def)
next
  case True
  let ?p = "position_engine input e"
  have s: "behind input e" "length input < usize_max" using assms(1) by (simp_all add: steady_def)
  have skipping: "en_skips_records b"
    using kin_fields(4) [OF assms(3)] build_of_skips [OF build_of_position(1) [OF assms(1)]] True by simp
  have p: "?p = skip_ignored_records input e" using True by (simp add: position_engine_behind [OF s(1)])
  obtain f x where x: "skip_ignored_loop input (rs_ignored (en_resume e)) e = (f, x)" by fastforce
  have px: "?p = x \<or> ?p = x\<lparr>en_resume := resume_fresh (en_location x)\<rparr>" using p x by (simp add: skip_ignored_records_def)
  then have loc: "en_location x \<noteq> length input" "en_location x = en_location ?p" using assms(2) by auto
  have ends: "skip_pass input x = x" using loop_ends [OF s, of "rs_ignored (en_resume e)"] loc x by simp
  have "behind input x" using behind_loop [of input e "rs_ignored (en_resume e)"] s loc x by (auto simp: stuck_def)
  then have fresh: "\<not> rs_ignored (en_resume x)" "\<not> rs_ignored (en_resume b)" using assms(4) by (simp_all add: behind_def)
  have xb: "kin x b" using px assms(3) kin_resume(1) fresh by auto
  have pass: "kin x (skip_pass input b)" using pass_kin [OF xb, of input] ends by simp
  have "en_location (skip_pass input b) = en_location b" using kin_fields(1) [OF pass] kin_fields(1) [OF xb] by simp
  then have "skip_ignored_loop input False b = (False, skip_pass input b)" by (simp add: skip_ignored_loop.simps [of input False b])
  then have skip: "position_engine input b = skip_pass input b"
    using fresh(2) skipping kin_fields(6) [OF pass] fresh(1)
    by (simp add: position_engine_behind [OF assms(4)] skip_ignored_records_def)
  have "\<not> rs_ignored (en_resume (skip_pass input b))" using kin_fields(6) [OF pass] fresh(1) by simp
  then show ?thesis using pass px kin_resume(2) fresh(1) unfolding skip by (auto simp: resume_fresh_def)
qed

section \<open>Seeking to a record\<close>

lemma fresh_checkpoint: "steady opts input e \<Longrightarrow> \<not> rs_ignored (en_resume e)"
  by (simp add: steady_def behind_def)

text \<open>One record read by both: the same bounds and fields, and kin engines after it.\<close>

lemma read_both:
  assumes "kin a b" "steady opts input a" "steady opts input b" "en_location a < length input"
    "parse_positioned_record opts input False a = (a', Ok (bounds, i))"
  obtains b' j where "parse_positioned_record opts input False b = (b', Ok (bounds, j))" "kin a' b'"
    "steady opts input a'" "steady opts input b'" "record_entries input b' = record_entries input a'"
proof -
  obtain b' j where b': "parse_positioned_record opts input False b = (b', Ok (bounds, j))" "alike a' b'"
    by (rule positioned_kin [OF assms(1,5)])
  have lt: "en_location b < length input" using kin_fields(1) [OF assms(1)] assms(4) by simp
  have s: "steady opts input a'" "steady opts input b'"
    using parsed_steady(3) [OF assms(2,4,5)] parsed_steady(3) [OF assms(3) lt b'(1)] by blast+
  then have "kin a' b'" using kin_after [OF b'(2)] fresh_checkpoint by blast
  moreover have "record_entries input b' = record_entries input a'"
    using alike_fields(15) [OF b'(2)] by (simp add: record_entries_def)
  ultimately show thesis using that [OF b'(1)] s by blast
qed

text \<open>One call of the reading loop, from a steady engine.\<close>

lemma read_records_step:
  assumes "steady opts input a" "read_records opts input (Suc fuel) a = (rs, AllRead)"
  obtains (over) "en_location (position_engine input a) = length input" "rs = []"
  | (more) a' bounds i entries rest where "en_location (position_engine input a) < length input"
      "steady opts input (position_engine input a)"
      "parse_positioned_record opts input False (position_engine input a) = (a', Ok (bounds, i))"
      "record_entries input a' = Ok entries" "read_records opts input fuel a' = (rest, AllRead)" "rs = (bounds, entries) # rest"
proof (cases "en_location (position_engine input a) = length input")
  case True
  then show thesis using over assms(2) position_steady(1) [OF assms(1)] by simp
next
  case False
  note pos = position_steady [OF assms(1)]
  obtain a' r where run: "parse_positioned_record opts input False (position_engine input a) = (a', r)" by fastforce
  have fill: "fill_record_spans opts input False a = (case r of Ok x \<Rightarrow> (a', Ok (Some x)) | Err er \<Rightarrow> (a', Err er) | Panic \<Rightarrow> (a', Panic))"
    using False pos(1) run by (simp add: bind_step_def return_step_def split: outcome.split)
  obtain bounds i where r: "r = Ok (bounds, i)" using assms(2) fill by (cases r) auto
  obtain entries where e: "record_entries input a' = Ok entries"
    using parsed_steady(5) [OF pos(2) _ run [unfolded r]] False pos(3) by auto
  obtain rest how where rest: "read_records opts input fuel a' = (rest, how)" by fastforce
  have "rs = (bounds, entries) # rest" "how = AllRead" using assms(2) fill r e rest by simp_all
  then show thesis using more [OF _ pos(2) [OF False] run [unfolded r] e] rest False pos(3) by auto
qed

lemma read_records_more:
  assumes "steady opts input b" "en_location (position_engine input b) < length input"
    "parse_positioned_record opts input False (position_engine input b) = (b', Ok (bounds, i))"
    "record_entries input b' = Ok entries" "read_records opts input fuel b' = (rest, how)"
  shows "read_records opts input (Suc fuel) b = ((bounds, entries) # rest, how)"
  using assms(2-5) position_steady(1) [OF assms(1)] by (simp add: bind_step_def return_step_def)

lemma position_kin:
  assumes "kin a b" "steady opts input a" "steady opts input b"
  shows "kin (position_engine input a) (position_engine input b)"
proof -
  have s: "behind input a" "behind input b" using assms(2,3) by (simp_all add: steady_def)
  show ?thesis
    using skip_ignored_kin [OF assms(1), of input] assms(1) kin_fields(4) [OF assms(1)]
    by (simp add: position_engine_behind [OF s(1)] position_engine_behind [OF s(2)])
qed

lemma replay_same:
  "kin a b \<Longrightarrow> steady opts input a \<Longrightarrow> steady opts input b \<Longrightarrow> read_records opts input fuel a = (rs, AllRead) \<Longrightarrow>
     read_records opts input fuel b = (rs, AllRead)"
proof (induction fuel arbitrary: a b rs)
  case (Suc fuel)
  note k = position_kin [OF Suc.prems(1-3)]
  note pb = position_steady [OF Suc.prems(3)]
  show ?case
  proof (cases rule: read_records_step [OF Suc.prems(2,4)])
    case 1
    then show ?thesis using kin_fields(1) [OF k] pb(1) by simp
  next
    case (2 a' bounds i entries rest)
    have lt: "en_location (position_engine input b) < length input" using 2(1) kin_fields(1) [OF k] by simp
    then have sb: "steady opts input (position_engine input b)" using pb(2) by simp
    obtain b' j where b': "parse_positioned_record opts input False (position_engine input b) = (b', Ok (bounds, j))"
      "kin a' b'" "steady opts input a'" "steady opts input b'" "record_entries input b' = record_entries input a'"
      by (rule read_both [OF k 2(2) sb 2(1,3)])
    have "read_records opts input fuel b' = (rest, AllRead)" by (rule Suc.IH [OF b'(2-4) 2(5)])
    then show ?thesis using read_records_more [OF Suc.prems(3) lt b'(1)] b'(5) 2(4,6) by simp
  qed
qed simp

lemma more_fuel:
  "read_records opts input fuel e = (rs, AllRead) \<Longrightarrow> fuel \<le> fuel' \<Longrightarrow> read_records opts input fuel' e = (rs, AllRead)"
proof (induction fuel arbitrary: fuel' e rs)
  case (Suc fuel)
  obtain n where n: "fuel' = Suc n" "fuel \<le> n" using Suc.prems(2) by (cases fuel') auto
  show ?case
    using Suc.prems(1) Suc.IH [OF _ n(2)] unfolding n(1)
    by (auto split: prod.splits outcome.splits option.splits)
qed simp

lemma sought_steady:
  assumes "steady opts input e" "byte \<le> length input"
  shows "steady opts input (seek_to_exact byte line i e)"
  using assms
  by (cases opts) (simp_all add: steady_def seek_to_exact_def engine_wf_def format_matches_def roomy_def checkpoint_sane_def
      behind_def resume_new_def NO_OFFSET_def usize_max_def)

text \<open>An engine of the same build, sent to where a record begins, reads that record and the rest.\<close>

lemma read_from_record:
  assumes fresh: "steady opts input e"
  shows "steady opts input a \<Longrightarrow> build_of a = build_of e \<Longrightarrow> en_expected e = None \<or> en_expected a = en_expected e \<Longrightarrow> read_records opts input fuel a = (rs, AllRead) \<Longrightarrow> k < length rs \<Longrightarrow>
    read_records opts input fuel (seek_to_exact (fst (fst (rs ! k))) line i e) = (drop k rs, AllRead)"
proof (induction fuel arbitrary: a rs k)
  case (Suc fuel)
  note s = Suc.prems(1)
  show ?case
  proof (cases rule: read_records_step [OF s Suc.prems(4)])
    case 1
    then show ?thesis using Suc.prems(5) by simp
  next
    case (2 a' bounds j entries rest)
    let ?p = "position_engine input a"
    note p = parsed_steady [OF 2(2,1,3)]
    have "build_of a' = build_of ?p"
      using parse_positioned_result [of ?p opts input False] 2(1,2) unfolding 2(3) p(1) outcome.case prod.case
      by (intro build_of_config) (simp add: steady_def)
    then have kept: "build_of a' = build_of e" using build_of_position(1) [OF s] Suc.prems(2) by simp
    have known: "en_expected e = None \<or> en_expected ?p = en_expected e" using build_of_position(2) [OF s] Suc.prems(3) by simp
    then have counted: "en_expected e = None \<or> en_expected a' = en_expected e"
      using counted_after [OF 2(3)] by (cases "en_expected e") auto
    show ?thesis
    proof (cases k)
      case (Suc k')
      have "read_records opts input fuel (seek_to_exact (fst (fst (rest ! k'))) line i e) = (drop k' rest, AllRead)"
        using Suc.IH [OF p(3) kept counted 2(5)] Suc.prems(5) 2(6) Suc by simp
      then show ?thesis using more_fuel [of opts input fuel _ _ "Suc fuel"] 2(6) Suc by simp
    next
      case 0
      let ?b = "seek_to_exact (en_location ?p) line i e"
      have start: "fst (fst (rs ! k)) = en_location ?p" using p(1) 2(6) 0 by simp
      have inside: "en_location ?p \<le> length input" using 2(1) by simp
      have sb: "steady opts input ?b" by (rule sought_steady [OF fresh inside])
      have "build_of ?b = build_of e" using build_of_seek build_of_not_failed fresh by (simp add: steady_def)
      then have k: "kin ?p ?b"
        using build_of_position(1) [OF s] Suc.prems(2) known fresh_checkpoint [OF 2(2)]
        by (simp add: kin_iff) (auto simp add: seek_to_exact_def resume_new_def)
      have near: "en_location ?p \<noteq> length input" "behind input ?b" using 2(1) sb by (simp_all add: steady_def)
      note again = positioned_again [OF s near(1) k near(2)]
      have lt: "en_location (position_engine input ?b) < length input" using kin_fields(1) [OF again] 2(1) by simp
      have pb: "steady opts input (position_engine input ?b)" using position_steady(2) [OF sb] lt by simp
      obtain b' j' where b': "parse_positioned_record opts input False (position_engine input ?b) = (b', Ok (bounds, j'))"
        "kin a' b'" "steady opts input a'" "steady opts input b'" "record_entries input b' = record_entries input a'"
        by (rule read_both [OF again 2(2) pb 2(1,3)])
      have "read_records opts input fuel b' = (rest, AllRead)" by (rule replay_same [OF b'(2-4) 2(5)])
      then show ?thesis using read_records_more [OF sb lt b'(1)] b'(5) 2(4,6) start 0 by simp
    qed
  qed
qed simp

lemma records_inside:
  "steady opts input a \<Longrightarrow> read_records opts input fuel a = (rs, AllRead) \<Longrightarrow> \<forall>r \<in> set rs. fst (fst r) < length input"
proof (induction fuel arbitrary: a rs)
  case (Suc fuel)
  show ?case
  proof (cases rule: read_records_step [OF Suc.prems])
    case (2 a' bounds i entries rest)
    note p = parsed_steady [OF 2(2,1,3)]
    show ?thesis using Suc.IH [OF p(3) 2(5)] 2(1,6) p(1) by simp
  qed simp
qed simp

section \<open>Seeking in a parser with headers\<close>

text \<open>
  Discovery reads the header record, if the options ask for one, with the format configured at run time.
  It fails, or finds a record and leaves a steady engine behind it, or comes to the end of the input.
\<close>

lemma steady_dynamic: "steady g input e \<Longrightarrow> steady None input e"
  by (simp add: steady_def format_matches_def)

lemma discovered:
  assumes "steady g input (he_engine h)" "ensure_headers input h = (h1, Ok ())"
  shows "he_initialized h1 \<and> \<not> en_failed (he_engine h1) \<and>
    (steady g input (he_engine h1) \<or> en_location (he_engine h1) = length input \<and> checkpoint_sane (he_engine h1) \<and>
      engine_wf (he_engine h1))"
proof (cases "he_initialized h \<or> \<not> he_consume_first_record h")
  case True
  then have "he_engine h1 = he_engine h" "he_initialized h1" using assms(2) by (auto simp: ensure_headers_def split: if_splits)
  then show ?thesis using assms(1) by (simp add: steady_def)
next
  case False
  let ?e = "he_engine h" and ?p = "position_engine input (he_engine h)"
  note s = steady_dynamic [OF assms(1)]
  note fills = position_steady(1) [OF s, of True] and pos = position_steady [OF s]
  have engine: "he_engine (h\<lparr>he_initialized := True\<rparr>) = ?e" by simp
  show ?thesis
  proof (cases "en_location ?p = length input")
    case True
    have "he_initialized h1" "he_engine h1 = ?p"
      using assms(2) False True fills by (auto simp: ensure_headers_def Let_def on_headers_changed_def)
    moreover have "checkpoint_sane ?p" "engine_wf ?p"
      by (rule pos)+
    ultimately show ?thesis using True pos(5) s by (simp add: steady_def)
  next
    case more: False
    have lt: "en_location ?p < length input" using more pos(3) by simp
    obtain e1 r where run: "parse_positioned_record None input True ?p = (e1, r)" by fastforce
    have fill: "fill_record_spans None input True ?e =
        (case r of Ok x \<Rightarrow> (e1, Ok (Some x)) | Err er \<Rightarrow> (e1, Err er) | Panic \<Rightarrow> (e1, Panic))"
      using more fills run by (simp add: bind_step_def return_step_def split: outcome.split)
    obtain x where x: "r = Ok x"
      using assms(2) False fill by (cases r) (auto simp: ensure_headers_def Let_def)
    note q = parsed_steady [OF pos(2) [OF more] lt run [unfolded x]]
    have "he_initialized h1" "he_engine h1 = e1"
      using assms(2) False fill x q(5) by (auto simp: ensure_headers_def Let_def on_headers_changed_def)
    moreover have "format_matches g e1"
      using position_steady(2) [OF assms(1) more] q(6) [of g] by (simp add: steady_def)
    ultimately show ?thesis using q(3) by (simp add: steady_def)
  qed
qed

text \<open>A parser that has found its headers reads as before; one that came to the end reads nothing.\<close>

lemma lines_discovered:
  assumes "ensure_headers input (cu_headed c) = (h1, Ok ())" "\<not> en_failed (cu_engine c)" "he_initialized h1" "\<not> en_failed (he_engine h1)"
  shows "read_lines opts input view fuel c = read_lines opts input view fuel (c\<lparr>cu_headed := h1\<rparr>)"
proof (cases fuel)
  case (Suc n)
  have "prepare_advance input c = (c\<lparr>cu_headed := h1\<rparr>, Ok ())"
    using assms(1,2) by (simp add: prepare_advance_def on_headed_def Let_def)
  moreover have "prepare_advance input (c\<lparr>cu_headed := h1\<rparr>) = (c\<lparr>cu_headed := h1\<rparr>, Ok ())"
    using assms(3,4) by (intro prepared) (simp_all add: cu_engine_def)
  ultimately have "advance_line opts input c = advance_line opts input (c\<lparr>cu_headed := h1\<rparr>)"
    by (simp add: advance_line_def bind_step_def)
  then show ?thesis by (simp add: Suc)
qed simp

lemma lines_undiscovered:
  assumes "ensure_headers input (cu_headed c) = (h1, r)" "r \<noteq> Ok ()"
  shows "snd (read_lines opts input view (Suc n) c) \<noteq> AllRead"
proof -
  have "\<exists>c' q. advance_line opts input c = (c', q) \<and> (\<forall>x. q \<noteq> Ok x)"
    using assms by (cases r) (auto simp: advance_line_def prepare_advance_def on_headed_def bind_step_def Let_def)
  then obtain c' q where "advance_line opts input c = (c', q)" "\<forall>x. q \<noteq> Ok x" by blast
  then show ?thesis by (cases q) auto
qed

lemma position_at_end:
  assumes "en_location e = length input" "checkpoint_sane e" "engine_wf e"
  shows "en_location (position_engine input e) = length input"
proof -
  let ?x = "if \<not> rs_ignored (en_resume e) \<and> rs_record_start (en_resume e) \<le> length input
    then e\<lparr>en_location := max (en_location e) (rs_record_start (en_resume e))\<rparr> else e"
  have "?x = e" using assms(1) by (simp add: max_absorb1)
  moreover have "skips input e (skip_ignored_records input e)" using skip_ignored_skips assms(3) by (simp add: engine_wf_def)
  then have "en_location (skip_ignored_records input e) = length input" using assms(1,2) by (simp add: skips_def)
  ultimately show ?thesis using assms(1) unfolding position_engine_def by metis
qed

lemma lines_over:
  assumes "he_initialized (cu_headed c)" "\<not> en_failed (cu_engine c)" "en_location (cu_engine c) = length input"
    "checkpoint_sane (cu_engine c)" "engine_wf (cu_engine c)" "cu_start c \<noteq> length input"
  shows "fst (read_lines opts input view fuel c) = []"
proof (cases fuel)
  case (Suc n)
  have "settle opts input c = (c, Ok ())" using assms(3,6) by (auto simp: settle_def Let_def)
  moreover have "\<exists>c'. position_next input c = (c', Ok False)"
    using position_at_end [OF assms(3-5)] by (simp add: position_next_def Let_def)
  ultimately have "\<exists>c'. advance_line opts input c = (c', Ok False)"
    using prepared [OF assms(1,2), of input] by (auto simp: advance_line_def bind_step_def)
  then show ?thesis using Suc by auto
qed simp

text \<open>The parsers a caller gets, built over an input.\<close>

definition built_over :: "format_options option \<Rightarrow> bytes \<Rightarrow> format_options \<Rightarrow> parse_options \<Rightarrow> slice_parser \<Rightarrow> bool" where
  "built_over static_format input f options sp \<longleftrightarrow>
     built_format f \<and> (static_format = None \<or> static_format = Some f) \<and>
     length input < usize_max \<and> slice_build static_format input f options = Ok sp"

lemma built_overD:
  assumes "built_over g input f options sp"
  defines "c \<equiv> cursor_from_config input (settings_of options f) (po_headers options)"
  shows "sp = \<lparr>sp_format = g, sp_input = input, sp_core = c\<rparr>" "steady g input (cu_engine c)" "cu_start c = NO_OFFSET"
proof -
  have b: "built_format f" "g = None \<or> g = Some f" "length input < usize_max" "slice_build g input f options = Ok sp"
    using assms(1) by (simp_all add: built_over_def)
  obtain s h where s: "into_settings options f = Ok (s, h)" "slice_build g input f options =
      (if ps_bom s = BomReject \<and> starts_with input BOM then Err (error_new RejectedBom LOC_START)
       else Ok \<lparr>sp_format = g, sp_input = input, sp_core = cursor_from_config input s h\<rparr>)"
    using b(4) by (auto simp: slice_build_def bind_outcome_Ok_iff split: prod.splits)
  have valid: "format_invalidity f = None" and sh: "s = settings_of options f" "h = po_headers options"
    using s(1) by (auto simp: into_settings_def bind_outcome_Ok_iff format_validate_def settings_of_def split: option.splits)
  show "sp = \<lparr>sp_format = g, sp_input = input, sp_core = c\<rparr>"
    using b(4) s(2) sh by (simp add: c_def split: if_splits)
  show "cu_start c = NO_OFFSET" by (simp add: c_def cursor_from_config_def)
  let ?e = "engine_from_config input (settings_of options f)"
  note wf = settings_engine(1,2) [OF b(1) valid b(2), of input options]
  have "en_location ?e \<le> length input"
  proof (cases "ps_bom (settings_of options f) = BomDetect \<and> starts_with input BOM")
    case True
    then have "length (take 3 input) = 3" by (simp add: starts_with_def numeral_3_eq_3)
    then show ?thesis using True by (simp add: engine_from_config_def)
  qed (auto simp: engine_from_config_def)
  then have e: "steady g input ?e"
    using wf b(3)
    by (simp add: steady_def checkpoint_sane_def behind_def engine_from_config_def settings_of_def
        resume_new_def NO_OFFSET_def usize_max_def)
  obtain consume names initialized where "header_policy (po_headers options) = (consume, names, initialized)"
    by (cases "header_policy (po_headers options)") auto
  then obtain x where "cu_engine c = ?e\<lparr>en_expected := x\<rparr>"
    by (simp add: c_def cu_engine_def cursor_from_config_def headed_from_config_def)
  then show "steady g input (cu_engine c)"
    using e by (cases g) (simp_all add: steady_def engine_wf_def format_matches_def checkpoint_sane_def behind_def)
qed

text \<open>
  C21: Seeking resumes reading: when a parser reads an input to its end, the same parser built anew that
  seeks to the byte where any of the records began reads exactly that record and those after it, with
  the same bounds and fields, in every dialect and under every option: comments, blank lines, quotes,
  trimming, limits, the field-count policy and the header record included.
\<close>

theorem seek_resumes:
  assumes "built_over static_format input f options sp" "slice_lines sp (\<lambda>_. True) = (rs, AllRead)" "k < length rs"
    "loc_field l = 0" "loc_byte l = fst (fst (rs ! k))"
  shows "\<exists>sp'. slice_seek l sp = (sp', Ok ()) \<and> slice_lines sp' (\<lambda>_. True) = (drop k rs, AllRead)"
proof -
  let ?c = "cursor_from_config input (settings_of options f) (po_headers options)"
  note sp = built_overD [OF assms(1)]
  obtain h1 r where h1: "ensure_headers input (cu_headed ?c) = (h1, r)" by fastforce
  have lines: "read_lines static_format input (\<lambda>_. True) (Suc (length input + 1)) ?c = (rs, AllRead)"
    using assms(2) sp(1) by (simp add: slice_lines_def del: read_lines.simps)
  have r: "r = Ok ()" using lines_undiscovered [OF h1, of static_format "\<lambda>_. True" "length input + 1"] lines by fastforce
  have ok: "\<not> en_failed (cu_engine ?c)" using sp(2) by (simp add: steady_def)
  note d = discovered [OF sp(2) [unfolded cu_engine_def] h1 [unfolded r]]
  let ?c1 = "?c\<lparr>cu_headed := h1\<rparr>" and ?e = "he_engine h1"
  have e: "cu_engine ?c1 = ?e" by (simp add: cu_engine_def)
  have found: "read_lines static_format input (\<lambda>_. True) (Suc (length input + 1)) ?c1 = (rs, AllRead)"
    using lines_discovered [OF h1 [unfolded r] ok] d lines by (simp del: read_lines.simps)
  have far: "NO_OFFSET \<noteq> length input" using sp(2) by (simp add: steady_def NO_OFFSET_def)
  have "rs \<noteq> []" using assms(3) by auto
  then have s: "steady static_format input ?e"
    using d lines_over [of ?c1 input static_format "\<lambda>_. True" "Suc (length input + 1)"] found far sp(3)
    by (auto simp: e simp del: read_lines.simps)
  have ends: "snd (records_of static_format input e) \<noteq> OutOfFuel" if "steady static_format input e" for e
    using that read_records_end [of e static_format input "length input + 1"] unfolding records_of_def steady_def
    by (cases "read_records static_format input (length input + 1) e") (simp del: read_records.simps)
  have "slice_lines \<lparr>sp_format = static_format, sp_input = input, sp_core = ?c1\<rparr> (\<lambda>_. True) = (rs, AllRead)"
    using found by (simp add: slice_lines_def del: read_lines.simps)
  then have all: "read_records static_format input (length input + 1) ?e = (rs, AllRead)"
    using slice_lines_sought [OF s e _ _ ends [OF s]] d sp(3) by (simp add: records_of_def del: read_records.simps)
  let ?b = "seek_to_exact (loc_byte l) (max (loc_line l) 1) (loc_record l) ?e"
  have rest: "records_of static_format input ?b = (drop k rs, AllRead)"
    using read_from_record [OF s s refl _ all assms(3)] assms(5) by (simp add: records_of_def)
  have inside: "loc_byte l \<le> length input"
    using records_inside [OF s all] nth_mem [OF assms(3)] assms(5) by fastforce
  note sb = sought_steady [OF s inside]
  have "slice_seek l sp =
      (\<lparr>sp_format = static_format, sp_input = input, sp_core = seek_line (loc_byte l) (loc_line l) (loc_record l) ?c1\<rparr>, Ok ())"
    using assms(4) inside h1 r sp(1) by (simp add: slice_seek_def bind_step_def on_core_def on_headed_def)
  then show ?thesis
    using slice_lines_sought [OF sb, of "seek_line (loc_byte l) (loc_line l) (loc_record l) ?c1"] ends [OF sb] rest d
    by (simp add: sought_engine e)
qed

theorem seek_resumes_witness:
  "\<exists>sp rs sp'. slice_build None (pe_buffer sample_emitter) FORMAT_EXCEL sample_options = Ok sp \<and>
     slice_lines sp (\<lambda>_. True) = (rs, AllRead) \<and> length rs = 2 \<and>
     slice_seek \<lparr>loc_byte = fst (fst (rs ! 1)), loc_line = 7, loc_record = 3, loc_field = 0\<rparr> sp = (sp', Ok ()) \<and>
     slice_lines sp' (\<lambda>_. True) = (drop 1 rs, AllRead)"
proof -
  obtain sp rs where sp: "slice_build None (pe_buffer sample_emitter) FORMAT_EXCEL sample_options = Ok sp"
      "slice_lines sp (\<lambda>_. True) = (rs, AllRead)"
      "map snd rs = map (map (\<lambda>field. (Some field, False))) ([[[97], [98, 34]]] @ [[[99], []]])"
    using emitted_is_read [OF sample_two_records sample_conditions(1,2) _ sample_conditions(4,6,5,3), of None] by blast
  have two: "length rs = 2" using arg_cong [OF sp(3), of length] by simp
  have "built_over None (pe_buffer sample_emitter) FORMAT_EXCEL sample_options sp"
    using sp(1) sample_conditions(1)
    by (simp add: built_over_def sample_out sample_options_def parse_options_new_def LIMITS_DEFAULT_def usize_max_def)
  then show ?thesis
    using seek_resumes [OF _ sp(2), of None "pe_buffer sample_emitter" FORMAT_EXCEL sample_options 1
        "\<lparr>loc_byte = fst (fst (rs ! 1)), loc_line = 7, loc_record = 3, loc_field = 0\<rparr>"] sp(1,2) two
    by auto
qed

end
