(* ===== verification/LineRecord.thy ===== *)
theory LineRecord
  imports Replay
begin

text \<open>
  A record without quotes is its line. When the bytes up to the next record ending hold no quote, the
  record parser stops at that ending, and every field it takes is a part of the line, whatever is
  trimmed or marked NULL afterwards. The record filter rests on this: it counts line endings instead
  of parsing the records it passes.
\<close>

section \<open>Lines\<close>

definition line_to :: "bytes \<Rightarrow> engine \<Rightarrow> nat \<Rightarrow> nat \<Rightarrow> bool" where
  "line_to input e lo hi \<longleftrightarrow>
     lo \<le> hi \<and> hi < length input \<and> input ! hi = ending_byte (record_ending (en_dialect e)) \<and>
     (\<forall>i. lo \<le> i \<longrightarrow> i < hi \<longrightarrow>
        input ! i \<noteq> ending_byte (record_ending (en_dialect e)) \<and> input ! i \<noteq> quote (en_dialect e))"

text \<open>The dialects in which a line ending can only end a record; a space that is skipped must not be one.\<close>

definition counts_lines :: "engine \<Rightarrow> bool" where
  "counts_lines e \<longleftrightarrow>
     simple_dialect e \<and> unquoted_escape e = None \<and> \<not> is_crlf e \<and>
     (en_skip_initial_space e \<longrightarrow> ending_byte (record_ending (en_dialect e)) \<noteq> SPACE)"

definition spans_within :: "nat \<Rightarrow> nat \<Rightarrow> engine \<Rightarrow> bool" where
  "spans_within lo hi e \<longleftrightarrow>
     (\<forall>s \<in> set (ss_spans (en_spans e)). span_source s = FromInput \<and> lo \<le> span_start s \<and> span_end s \<le> hi)"

lemma line_to_config: "config_of e' = config_of e \<Longrightarrow> line_to input e' lo hi = line_to input e lo hi"
  by (simp add: line_to_def config_ofD [of e' e])

lemma counts_lines_config: "config_of e' = config_of e \<Longrightarrow> counts_lines e' = counts_lines e"
  using simple_dialect_config [of e' e]
  by (simp add: counts_lines_def unquoted_escape_def is_crlf_def config_ofD [of e' e])

lemma line_to_later: "line_to input e lo hi \<Longrightarrow> lo \<le> lo' \<Longrightarrow> lo' \<le> hi \<Longrightarrow> line_to input e lo' hi"
  by (simp add: line_to_def)

lemma spans_within_updates [simp]:
  "spans_within lo hi (e\<lparr>en_location := n\<rparr>) = spans_within lo hi e"
  "spans_within lo hi (e\<lparr>en_expected := x\<rparr>) = spans_within lo hi e"
  "spans_within lo hi (e\<lparr>en_record_index := i\<rparr>) = spans_within lo hi e"
  "spans_within lo hi (e\<lparr>en_terminated := b\<rparr>) = spans_within lo hi e"
  by (simp_all add: spans_within_def note_terminated_def)

section \<open>One field\<close>

lemma pushed_within:
  assumes "push_field input fs fe at header e = (e', Ok u)" "parse_inv input rs e" "unquoted_escape e = None"
    "spans_within lo hi e" "lo \<le> fs" "fe \<le> hi"
  shows "spans_within lo hi e'" "core e' = core e"
proof -
  have wf: "storage_wf (en_spans e)" "input_len (en_spans e) = length input" using assms(2) by (simp_all add: parse_inv_def)
  have plain: "spans_within lo hi e' \<and> core e' = core e" if push: "push_span input FromInput fs fe at False e = (e', Ok u)"
  proof -
    note p = push_span_Ok [OF push assms(2)]
    have "fs \<le> fe" "fe \<le> length input"
      using push wf(2) by (auto simp: push_span_def try_push_input_bounded_def split: if_splits)
    then have off: "fs \<le> MAX_OFFSET" "fe \<le> MAX_OFFSET" using wf_offsets [OF wf(1)] wf(2) by auto
    have "spans_within lo hi e'" using assms(4-6) p(3) by (auto simp: spans_within_def span_of_range [OF off])
    moreover have "core e' = core e" by (subst p(2)) simp
    ultimately show ?thesis ..
  qed
  have null: "spans_within lo hi e' \<and> core e' = core e"
    if push: "push_null_span input fs e = (e', Ok u)" and range: "get_range input fs fe = Some raw" for raw
  proof -
    have le: "fs \<le> fe" "fe \<le> length input" using range by (auto simp: get_range_def split: if_splits)
    then have off: "fs \<le> MAX_OFFSET" using wf_offsets [OF wf(1)] wf(2) by auto
    obtain s where s: "from_valid_null FromInput fs = Ok s" "span_source s = FromInput" "span_start s = fs" "span_end s = fs"
      using span_of_null [OF off] by blast
    have "e' = e\<lparr>en_spans := (en_spans e)\<lparr>ss_spans := ss_spans (en_spans e) @ [s]\<rparr>\<rparr>"
      using push s(1) by (auto simp: push_null_span_def storage_push_null_def assert_that_def split: if_splits)
    then show ?thesis using assms(4-6) s le by (auto simp: spans_within_def)
  qed
  have "unquoted_byte (escape (en_dialect e)) = None" using assms(3) by (simp add: unquoted_escape_def)
  then have "spans_within lo hi e' \<and> core e' = core e"
    using assms(1) plain null
    by (auto simp: push_field_def push_general_unquoted_span_def split: if_splits option.splits)
  then show "spans_within lo hi e'" "core e' = core e" by blast+
qed

lemma record_limit_same: "check_record_limit input rs at e = (e', Ok u) \<Longrightarrow> e' = e"
  by (auto simp: check_record_limit_def check_record_limit_for_def split: if_splits)

lemma closed_within:
  assumes "close_field input rs header fs fe at resume ends e = (e', Ok r)" "parse_inv input rs e" "unquoted_escape e = None"
    "spans_within lo hi e" "lo \<le> fs" "fe \<le> hi"
  shows "spans_within lo hi e'" "core e' = core e" "en_location e' = resume" "r = ends"
proof -
  obtain e1 where e1: "push_field input fs fe at header e = (e1, Ok ())"
    "e' = (if ends then note_terminated (e1\<lparr>en_location := resume\<rparr>) else e1\<lparr>en_location := resume\<rparr>)" "r = ends"
    using assms(1) unfolding close_field_def Let_def return_step_def
    by (auto elim!: bind_step_Ok dest!: record_limit_same split: if_splits)
  note p = pushed_within [OF e1(1) assms(2-6)]
  show "spans_within lo hi e'" "core e' = core e" "en_location e' = resume" "r = ends"
    using p e1(2,3) by (simp_all add: note_terminated_def)
qed

text \<open>Spaces before a field: never past the end of the line.\<close>

lemma spaces_in_line:
  assumes "skip_delimiter_spaces None input rs e = (e', Ok u)" "counts_lines e" "line_to input e (en_location e) hi"
  shows "\<exists>n. e' = e\<lparr>en_location := n\<rparr> \<and> en_location e \<le> n \<and> n \<le> hi"
proof (cases "en_skip_initial_space e \<and> en_location e \<noteq> rs")
  case False
  then have "e' = e" using assms(1) by (auto simp: skip_delimiter_spaces_def skip_delimiter_spaces_for_def fmt_skip_initial_space_def)
  then show ?thesis using assms(3) by (intro exI [of _ "en_location e"]) (simp add: line_to_def)
next
  case True
  have hi: "input ! hi \<noteq> SPACE" using True assms(2,3) by (simp add: counts_lines_def line_to_def)
  have loop: "skip_delimiter_spaces_loop input rs field x = (e', Ok u) \<Longrightarrow> en_location x \<le> hi \<Longrightarrow>
      input ! hi \<noteq> SPACE \<Longrightarrow> \<exists>n. e' = x\<lparr>en_location := n\<rparr> \<and> en_location x \<le> n \<and> n \<le> hi" for field x
  proof (induction input rs field x rule: skip_delimiter_spaces_loop.induct)
    case (1 input rs field x)
    note run = 1(2) [unfolded skip_delimiter_spaces_loop.simps [of input rs field x]]
    show ?case
    proof (cases "get_at input (en_location x) = Some 32")
      case False
      then show ?thesis using run 1(3) by (intro exI [of _ "en_location x"]) simp
    next
      case space: True
      then have "en_location x \<noteq> hi" using 1(4) by (auto simp: get_at_Some_iff)
      let ?x = "x\<lparr>en_location := en_location x + 1\<rparr>"
      obtain y v where limit: "check_record_limit_for input rs (en_location ?x) field ?x = (y, Ok v)"
        using run space by (auto simp: Let_def split: prod.splits outcome.splits)
      have "skip_delimiter_spaces_loop input rs field ?x = (e', Ok u)" using run space limit by (simp add: Let_def)
      then obtain n where "e' = ?x\<lparr>en_location := n\<rparr>" "en_location ?x \<le> n" "n \<le> hi"
        using 1(1) [OF space refl limit [symmetric] refl _ _ 1(4)] 1(3) \<open>en_location x \<noteq> hi\<close> by auto
      then show ?thesis by (intro exI [of _ n]) simp
    qed
  qed
  show ?thesis
    using assms(1,3) True hi loop
    by (auto simp: skip_delimiter_spaces_def skip_delimiter_spaces_for_def fmt_skip_initial_space_def line_to_def)
qed

text \<open>A field ends at a delimiter inside the line, or it is the last one and the line ends it.\<close>

lemma field_in_line:
  assumes "parse_one_field None input rs header e = (e', Ok ended)" "parse_inv input rs e" "counts_lines e" "roomy input e"
    "line_to input e (en_location e) hi" "spans_within lo hi e" "lo \<le> en_location e"
  shows "spans_within lo hi e'" "core e' = core e"
    "if ended then en_location e' = hi + 1 else en_location e < en_location e' \<and> en_location e' \<le> hi"
proof -
  have d: "simple_dialect e" "unquoted_escape e = None" "\<not> is_crlf e" using assms(3) by (simp_all add: counts_lines_def)
  obtain n where n: "skip_delimiter_spaces None input rs e = (e\<lparr>en_location := n\<rparr>, Ok ())" "en_location e \<le> n" "n \<le> hi"
    and rest: "(if get_at input n = Some (fmt_quote None (e\<lparr>en_location := n\<rparr>)) \<and> fmt_quoting_enabled None (e\<lparr>en_location := n\<rparr>)
      then parse_quoted_field None input rs (e\<lparr>en_location := n\<rparr>)
      else parse_unquoted_field None input rs header (e\<lparr>en_location := n\<rparr>)) = (e', Ok ended)"
    using assms(1) spaces_in_line [OF _ assms(3,5)] unfolding parse_one_field_def by (fastforce elim!: bind_step_Ok)
  let ?e = "e\<lparr>en_location := n\<rparr>"
  let ?stop = "\<lambda>b. b = delimiter (en_dialect e) \<or> b = ending_byte (record_ending (en_dialect e))"
  have line: "hi < length input" "?stop (input ! hi)" using assms(5) by (simp_all add: line_to_def)
  have inv: "parse_inv input rs ?e" using assms(2) n line(1) by (simp add: parse_inv_def)
  have quote: "quote (en_dialect e) \<noteq> input ! n"
    using assms(5) n simple_dialectD(3) [OF d(1)] by (cases "n = hi") (auto simp: line_to_def)
  have run: "parse_unquoted_field None input rs header ?e = (e', Ok ended)"
    using rest quote by (auto simp: fmt_quote_def get_at_Some_iff split: if_splits)
  define k where "k = (LEAST i. n \<le> i \<and> ?stop (input ! i))"
  have k: "n \<le> k \<and> ?stop (input ! k)" unfolding k_def by (rule LeastI [of _ hi]) (use n line in simp)
  have first: "\<not> ?stop (input ! i)" if "n \<le> i" "i < k" for i
    using not_less_Least [of i "\<lambda>i. n \<le> i \<and> ?stop (input ! i)"] that by (auto simp: k_def)
  have khi: "k \<le> hi" unfolding k_def by (rule Least_le) (use n line in simp)
  have free: "stop_free ?e input (en_location ?e) k"
    unfolding stop_free_def
  proof (intro allI impI)
    fix i assume i: "en_location ?e \<le> i" "i < k"
    have "input ! i \<noteq> quote (en_dialect e)" using assms(5) i n khi by (simp add: line_to_def)
    then show "input ! i \<notin> stop_bytes ?e"
      using first [of i] i d(2,3) by (auto simp: stop_bytes_def unquoted_escape_def is_crlf_def)
  qed
  have room: "roomy input ?e" using assms(4) by (simp add: roomy_def)
  have within: "k < scan_end ?e input rs (en_location ?e)"
    using roomy_scan_end [OF room, of rs n] inv line(1) khi by (simp add: parse_inv_def)
  have simple: "simple_dialect ?e" using simple_dialect_config [of ?e e] d(1) by simp
  have esc: "unquoted_escape ?e = None" using d(2) by (simp add: unquoted_escape_def)
  have spans: "spans_within lo hi ?e" using assms(6) by simp
  have "\<exists>fe. fe \<le> hi \<and> close_field input rs header n fe k (k + 1) (input ! k \<noteq> delimiter (en_dialect e)) ?e = (e', Ok ended)"
  proof (cases "input ! k = delimiter (en_dialect e)")
    case True
    show ?thesis
      using field_at_delimiter [OF simple free _ within, of header] k True run khi by (intro exI [of _ k]) simp
  next
    case False
    then have "input ! k = ending_byte (record_ending (en_dialect e))" using k by simp
    then show ?thesis
      using field_at_ending [OF simple free _ within, of header] k run False khi d(3)
      by (intro exI [of _ "stripped_end ?e input n k"]) (auto simp: is_crlf_def stripped_end_def)
  qed
  then obtain fe where fe: "fe \<le> hi"
    "close_field input rs header n fe k (k + 1) (input ! k \<noteq> delimiter (en_dialect e)) ?e = (e', Ok ended)" by blast
  note c = closed_within [OF fe(2) inv esc spans _ fe(1)]
  show "spans_within lo hi e'" using c(1) assms(7) n by simp
  show "core e' = core e" using c(2) assms(7) n by simp
  show "if ended then en_location e' = hi + 1 else en_location e < en_location e' \<and> en_location e' \<le> hi"
  proof (cases ended)
    case True
    then have other: "input ! k \<noteq> delimiter (en_dialect e)" using c(4) assms(7) n by simp
    then have "input ! k = ending_byte (record_ending (en_dialect e))" using k by simp
    moreover have "input ! k \<noteq> ending_byte (record_ending (en_dialect e))" if "k < hi"
      using assms(5) k n that by (simp add: line_to_def)
    ultimately have "k = hi" using khi by (cases "k < hi") simp_all
    then show ?thesis using c(3) True assms(7) n by simp
  next
    case False
    then have "input ! k = delimiter (en_dialect e)" using c(4) assms(7) n by simp
    then have "k \<noteq> hi" using assms(5) simple_dialectD(2) [OF d(1)] by (auto simp: line_to_def)
    then show ?thesis using c(3) False assms(7) n k khi by simp
  qed
qed

section \<open>The whole record\<close>

lemma map_outcome_each:
  assumes "\<And>x. x \<in> set xs \<Longrightarrow> \<exists>y. f x = Ok y \<and> P y"
  obtains ys where "map_outcome f xs = Ok ys" "\<forall>y \<in> set ys. P y"
proof -
  obtain ys where "map_outcome f xs = Ok ys" "list_all2 (\<lambda>_ y. P y) xs ys"
    using map_outcome_all [of xs f "\<lambda>_ y. P y", OF assms] by blast
  moreover from this(2) have "\<forall>y \<in> set ys. P y" by (auto simp: list_all2_conv_all_nth in_set_conv_nth)
  ultimately show thesis using that by blast
qed

lemma marked_within:
  assumes "mark_null_spans None input header e = (e', Ok u)" "parse_inv input rs e" "spans_within lo hi e"
  shows "spans_within lo hi e'" "core e' = core e" "en_location e' = en_location e"
proof -
  have fits: "span_fits (en_spans e) s" if "s \<in> set (ss_spans (en_spans e))" for s
    using assms(2) that by (simp add: parse_inv_def storage_wf_def)
  let ?within = "\<lambda>s. span_source s = FromInput \<and> lo \<le> span_start s \<and> span_end s \<le> hi"
  have all: "\<forall>t \<in> set spans. ?within t"
    if "mark_input_nulls input n (en_spans e) = Ok (en_spans e\<lparr>ss_spans := spans\<rparr>)" for n spans
  proof -
    let ?f = "\<lambda>s. if \<not> span_is_quoted s \<and> span_source s = FromInput then
        (case get_range input (span_start s) (span_end s) of
           None \<Rightarrow> Panic
         | Some field \<Rightarrow> if n field then from_valid_null FromInput (span_start s) else Ok s)
      else Ok s"
    have run: "map_outcome ?f (ss_spans (en_spans e)) = Ok spans"
      using that by (cases "map_outcome ?f (ss_spans (en_spans e))")
        (auto simp: mark_input_nulls_def bind_outcome_Ok_iff assert_that_def split: if_splits dest: arg_cong [of _ _ ss_spans])
    have each: "\<exists>t. ?f s = Ok t \<and> ?within t" if s: "s \<in> set (ss_spans (en_spans e))" for s
    proof -
      have w: "?within s" using assms(3) s by (simp add: spans_within_def)
      have le: "span_start s \<le> span_end s" "span_end s \<le> length input" "span_end s \<le> MAX_OFFSET"
        using fits [OF s] w assms(2) by (simp_all add: span_fits_def source_len_def parse_inv_def)
      obtain t where "from_valid_null FromInput (span_start s) = Ok t" "span_source t = FromInput"
          "span_start t = span_start s" "span_end t = span_start s"
        using span_of_null [of "span_start s"] le by auto
      then show ?thesis using w le by (auto simp: get_range_def)
    qed
    obtain spans' where "map_outcome ?f (ss_spans (en_spans e)) = Ok spans'" "\<forall>t \<in> set spans'. ?within t"
      by (rule map_outcome_each [of "ss_spans (en_spans e)" ?f ?within, OF each])
    then show ?thesis using run by simp
  qed
  have wf: "storage_wf (en_spans e)" "input_len (en_spans e) \<le> length input" using assms(2) by (simp_all add: parse_inv_def)
  have "e' = e \<or> (\<exists>spans n. mark_input_nulls input n (en_spans e) = Ok (en_spans e\<lparr>ss_spans := spans\<rparr>) \<and>
      e' = e\<lparr>en_spans := en_spans e\<lparr>ss_spans := spans\<rparr>\<rparr>)"
  proof (cases "fmt_null_policy None e = NullsNone \<or> header")
    case False
    obtain spans where "mark_input_nulls input (raw_field_is_null (fmt_null_policy None e)) (en_spans e) = Ok (en_spans e\<lparr>ss_spans := spans\<rparr>)"
      using mark_input_nulls_wf [OF wf] by blast
    then show ?thesis using assms(1) False by (auto simp: mark_null_spans_def mark_null_spans_cold_def Let_def)
  qed (use assms(1) in \<open>simp add: mark_null_spans_def Let_def\<close>)
  then show "spans_within lo hi e'" "core e' = core e" "en_location e' = en_location e"
    using assms(3) all by (auto simp: spans_within_def)
qed

lemma trimmed_within:
  assumes "trim_spans input header e = (e', Ok u)" "parse_inv input rs e" "spans_within lo hi e"
  shows "spans_within lo hi e'" "core e' = core e"
proof -
  let ?within = "\<lambda>s. span_source s = FromInput \<and> lo \<le> span_start s \<and> span_end s \<le> hi"
  have wf: "storage_wf (en_spans e)" "input_len (en_spans e) \<le> length input" using assms(2) by (simp_all add: parse_inv_def)
  let ?f = "\<lambda>s. if ws_applies (en_trim e) header (span_is_quoted s) then span_trim_ascii input (ss_scratch (en_spans e)) s else Ok s"
  have each: "\<exists>t. ?f s = Ok t \<and> ?within t" if s: "s \<in> set (ss_spans (en_spans e))" for s
  proof -
    have fit: "span_fits (en_spans e) s" using wf(1) s by (simp add: storage_wf_def)
    show ?thesis using span_trim_fits [OF wf(1) fit wf(2)] assms(3) s by (auto simp: spans_within_def)
  qed
  obtain spans where spans: "map_outcome ?f (ss_spans (en_spans e)) = Ok spans" "\<forall>t \<in> set spans. ?within t"
    by (rule map_outcome_each [of "ss_spans (en_spans e)" ?f ?within, OF each])
  have "e' = e \<or> e' = e\<lparr>en_spans := en_spans e\<lparr>ss_spans := spans\<rparr>\<rparr>"
    using assms(1) spans(1) wf(2)
    by (auto simp: trim_spans_def trim_ascii_where_def assert_that_def split: if_splits)
  then show "spans_within lo hi e'" "core e' = core e" using assms(3) spans(2) by (auto simp: spans_within_def)
qed

text \<open>What a record learns about the field count is kept when it was known before.\<close>

definition count_kept :: "engine \<Rightarrow> engine \<Rightarrow> bool" where
  "count_kept e e' \<longleftrightarrow> en_expected e' = en_expected e \<or> en_expected e = None"

lemma counted_within:
  assumes "validate_count input n e = (e', Ok u)" "spans_within lo hi e"
  shows "spans_within lo hi e'" "count_kept e e'" "en_location e' = en_location e" "config_of e' = config_of e"
    "en_spans e' = en_spans e"
  using assms by (auto simp: validate_count_def count_kept_def Let_def split: if_splits field_count.splits option.splits)

lemma record_in_line:
  "parse_record_fields None input rs header e = (e', Ok u) \<Longrightarrow> parse_inv input rs e \<Longrightarrow> counts_lines e \<Longrightarrow> roomy input e \<Longrightarrow>
     line_to input e (en_location e) hi \<Longrightarrow> spans_within lo hi e \<Longrightarrow> lo \<le> en_location e \<Longrightarrow>
     spans_within lo hi e' \<and> count_kept e e' \<and> en_location e' = hi + 1"
proof (induction "None :: format_options option" input rs header e rule: parse_record_fields.induct)
  case (1 input rs header e)
  note run = 1(2) [unfolded parse_record_fields.simps [of None input rs header e]]
  obtain e1 ended where step: "parse_one_field None input rs header e = (e1, Ok ended)"
    using run by (auto split: prod.splits outcome.splits)
  note f = field_in_line [OF step 1(3-8)]
  have conf: "config_of e1 = config_of e" by (rule core_config [OF f(2)])
  have wf: "engine_wf e" using 1(4) simple_dialectD(7) by (simp add: counts_lines_def)
  have inv: "parse_inv input rs e1" using one_field.parse_keeps(1) [OF format_matches_None wf 1(3) step] .
  show ?case
  proof (cases ended)
    case False
    have later: "line_to input e1 (en_location e1) hi"
      using line_to_later [OF 1(6), of "en_location e1"] f(3) False line_to_config [OF conf] by simp
    have "parse_record_fields None input rs header e1 = (e', Ok u)" using run step False by simp
    then have "spans_within lo hi e' \<and> count_kept e1 e' \<and> en_location e' = hi + 1"
      using 1(1) [OF step [symmetric] refl False _ inv _ _ later f(1)] 1(4,5,8) f(3) False
        counts_lines_config [OF conf] roomy_config [OF conf] by simp
    then show ?thesis using core_fields(1) [OF f(2)] by (simp add: count_kept_def)
  next
    case True
    then have "finish_general_record None input header e1 = (e', Ok u)" using run step by simp
    then obtain e2 where e2: "mark_null_spans None input header e1 = (e2, Ok ())"
        "validate_count input (storage_len (en_spans e2)) e2 = (e', Ok u)"
      unfolding finish_general_record_def by (auto elim!: bind_step_Ok)
    note m = marked_within [OF e2(1) inv f(1)]
    note c = counted_within [OF e2(2) m(1)]
    show ?thesis using c m(2,3) f(2,3) True core_fields(1) [OF m(2)] core_fields(1) [OF f(2)] by (simp add: count_kept_def)
  qed
qed

text \<open>
  The record at the start of a line without quotes: it ends with the line, and its fields are parts
  of the line.
\<close>

lemma positioned_in_line:
  assumes "steady opts input e" "roomy input e" "counts_lines e" "line_to input e (en_location e) hi"
    "parse_positioned_record opts input False e = (e', Ok r)"
  shows "en_location e' = hi + 1" "count_kept e e'"
    "\<exists>entries. record_entries input e' = Ok entries \<and>
      (\<forall>(bs, null) \<in> set entries. \<exists>a b. bs = Some (slice input a b) \<and> en_location e \<le> a \<and> b \<le> hi)"
proof -
  have s: "engine_wf e" "format_matches opts e" "roomy input e" using assms(1,2) by (simp_all add: steady_def)
  have lt: "en_location e < length input" using assms(4) by (simp add: line_to_def)
  obtain e1 where e1: "begin_spans input e = (e1, Ok ())"
    using assms(5) unfolding parse_positioned_record_def by (elim bind_step_Ok) simp
  obtain st where st: "e1 = e\<lparr>en_spans := st\<rparr>" "ss_spans st = []"
    using e1 by (auto simp: begin_spans_def storage_begin_def split: option.splits if_splits)
  note b = begin_spans_inv [OF e1 less_imp_le [OF lt]]
  obtain e2 where e2: "parse_record opts input (en_location e) False e1 = (e2, Ok ())"
    using assms(5) e1 b(3) by (auto simp: parse_positioned_record_def bind_step_def Let_def split: prod.splits outcome.splits)
  obtain e3 where e3: "trim_spans input False e2 = (e3, Ok ())" "e' = e3\<lparr>en_record_index := en_record_index e3 + 1\<rparr>"
    using assms(5) e1 e2 b(3) by (auto simp: parse_positioned_record_def bind_step_def Let_def split: prod.splits outcome.splits)
  have wf: "engine_wf e1" "format_matches opts e1" using s engine_wf_config [OF b(2)] format_matches_config [OF b(2)] by simp_all
  have ready: "plain_ready opts input e1"
    using assms(3) counts_lines_config [OF b(2)] wf(2) b(1,3) lt s(3) st
    by (simp add: plain_ready_def counts_lines_def roomy_def)
  obtain g where g: "parse_record_fields None input (en_location e) False e1 = (g, Ok ())" "unfolded g = unfolded e2"
    using kernel_then_loop [OF ready b(3) [symmetric], of False] e2
    by (cases "parse_record_fields None input (en_location e) False e1") (simp add: seen_def b(3))
  have near: "spans_within (en_location e) hi e1" using st by (simp add: spans_within_def)
  have line: "spans_within (en_location e) hi g \<and> count_kept e1 g \<and> en_location g = hi + 1"
    using record_in_line [OF g(1)] b s(3) near assms(3,4) counts_lines_config [OF b(2)] roomy_config [OF b(2)]
      line_to_config [OF b(2)] by simp
  note same = unfolded_parts [OF g(2)]
  have two: "spans_within (en_location e) hi e2" "count_kept e e2" "en_location e2 = hi + 1"
    using line same st(1) by (simp_all add: spans_within_def count_kept_def)
  have inv2: "parse_inv input (en_location e) e2"
    using good_parse_record [OF b(1) wf, of False] b(3) lt e2 by (simp add: good_def)
  note t = trimmed_within [OF e3(1) inv2 two(1)]
  show "en_location e' = hi + 1" using trim_spans_location [OF e3(1)] two(3) e3(2) by simp
  show "count_kept e e'" using core_fields(1) [OF t(2)] two(2) e3(2) by (simp add: count_kept_def)
  have inv3: "parse_inv input (en_location e) e3" using good_trim [OF inv2, of False] e3(1) by simp
  have wf3: "storage_wf (en_spans e3)" "input_len (en_spans e3) \<le> length input" using inv3 by (simp_all add: parse_inv_def)
  have "\<exists>a b. resolve_span input (ss_scratch (en_spans e3)) s = Some (slice input a b) \<and> en_location e \<le> a \<and> b \<le> hi"
    if "s \<in> set (ss_spans (en_spans e3))" for s
  proof -
    have "span_fits (en_spans e3) s" using wf3(1) that by (simp add: storage_wf_def)
    then show ?thesis using resolve_span_fits [OF _ wf3(2), of s] t(1) that by (auto simp: spans_within_def)
  qed
  then show "\<exists>entries. record_entries input e' = Ok entries \<and>
      (\<forall>(bs, null) \<in> set entries. \<exists>a b. bs = Some (slice input a b) \<and> en_location e \<le> a \<and> b \<le> hi)"
    using wf3(2) e3(2) by (auto simp: record_entries_def resolved_entries_def assert_that_def)
qed

end
