(* ===== verification/TwoWay.thy ===== *)
theory TwoWay
  imports Search
begin

text \<open>
  The literal search of \<open>coseva_unsafe/src/search.rs\<close>: \<open>find_literal\<close> with its two-way matcher for
  needles of eight bytes and more. The matcher cuts the needle at the start of a maximal suffix,
  compares the right part before the left and shifts by a period. The theorems: \<open>maximal_suffix\<close>
  returns the maximal suffix and its least period, no shift passes an occurrence, and the search
  returns the first occurrence. \<open>avx2\<close> says whether the processor has the vector unit the anchor
  scan asks for.
\<close>

section \<open>The search\<close>

definition AVX2_FIND_MIN_BYTES :: nat where "AVX2_FIND_MIN_BYTES = 128"
definition TWO_WAY_MIN_NEEDLE_BYTES :: nat where "TWO_WAY_MIN_NEEDLE_BYTES = 8"

definition find_literal_anchor :: "bool \<Rightarrow> byte \<Rightarrow> bytes \<Rightarrow> nat option" where
  "find_literal_anchor avx2 needle input =
     (if AVX2_FIND_MIN_BYTES \<le> length input \<and> avx2 then find_avx2 [needle] input
      else position (\<lambda>b. b = needle) input)"

text \<open>The order in which the suffix is maximal: the bytes' own, or its reverse.\<close>

definition smaller :: "bool \<Rightarrow> byte \<Rightarrow> byte \<Rightarrow> bool" where
  "smaller reverse_order a b \<longleftrightarrow> (if reverse_order then b < a else a < b)"

function maximal_suffix_from :: "bool \<Rightarrow> bytes \<Rightarrow> nat \<Rightarrow> nat \<Rightarrow> nat \<Rightarrow> nat \<Rightarrow> nat \<times> nat" where
  "maximal_suffix_from reverse_order needle pos candidate offset period =
     (case get_at needle (candidate + offset) of
        None \<Rightarrow> (pos, period)
      | Some new \<Rightarrow>
          let current = needle ! (pos + offset)
          in if smaller reverse_order new current then
               maximal_suffix_from reverse_order needle pos (candidate + (offset + 1)) 0 (candidate + (offset + 1) - pos)
             else if new = current then
               (if offset + 1 = period
                then maximal_suffix_from reverse_order needle pos (candidate + (offset + 1)) 0 period
                else maximal_suffix_from reverse_order needle pos candidate (offset + 1) period)
             else maximal_suffix_from reverse_order needle candidate (candidate + 1) 0 1)"
  by pat_completeness auto
termination
  by (relation "measures [\<lambda>(r, x, pos, candidate, offset, period). if pos < candidate then 0 else 1,
      \<lambda>(r, x, pos, candidate, offset, period). length x - pos,
      \<lambda>(r, x, pos, candidate, offset, period). length x - (candidate + offset)]")
    (auto simp: get_at_Some_iff)

declare maximal_suffix_from.simps [simp del]

definition maximal_suffix :: "bytes \<Rightarrow> bool \<Rightarrow> nat \<times> nat" where
  "maximal_suffix needle reverse_order = maximal_suffix_from reverse_order needle 0 1 0 1"

lemma maximal_suffix_period:
  "pos < candidate \<Longrightarrow> 0 < period \<Longrightarrow> 0 < snd (maximal_suffix_from r x pos candidate offset period)"
proof (induction r x pos candidate offset period rule: maximal_suffix_from.induct)
  case (1 r x pos candidate offset period)
  show ?case
    using 1 by (subst maximal_suffix_from.simps) (auto simp: Let_def split: option.split)
qed

text \<open>The cut, its period, whether the left part repeats with it, and the shift after a full right match.\<close>

definition critical :: "bytes \<Rightarrow> nat \<times> nat" where
  "critical needle =
     (let ascending = maximal_suffix needle False; descending = maximal_suffix needle True
      in if fst descending < fst ascending then ascending else descending)"

definition short_period :: "bytes \<Rightarrow> bool" where
  "short_period needle \<longleftrightarrow>
     (case critical needle of (crit, period) \<Rightarrow> take crit needle = slice needle period (period + crit))"

definition shift_period :: "bytes \<Rightarrow> nat" where
  "shift_period needle =
     (case critical needle of (crit, period) \<Rightarrow>
        if short_period needle then period else max crit (length needle - crit) + 1)"

lemma shift_period_pos: "0 < shift_period needle"
proof -
  have "0 < snd (maximal_suffix needle r)" for r by (simp add: maximal_suffix_def maximal_suffix_period)
  then have "0 < snd (critical needle)" by (simp add: critical_def Let_def)
  then show ?thesis by (cases "critical needle") (simp add: shift_period_def)
qed

function match_right :: "bytes \<Rightarrow> bytes \<Rightarrow> nat \<Rightarrow> nat \<Rightarrow> nat" where
  "match_right needle input base i =
     (if i < length needle \<and> needle ! i = input ! (base + i) then match_right needle input base (i + 1) else i)"
  by pat_completeness auto
termination by (relation "measure (\<lambda>(x, _, _, i). length x - i)") auto

declare match_right.simps [simp del]

text \<open>Whether the left part mismatches, compared backwards down to \<open>limit\<close>.\<close>

fun mismatch_left :: "bytes \<Rightarrow> bytes \<Rightarrow> nat \<Rightarrow> nat \<Rightarrow> nat \<Rightarrow> bool" where
  "mismatch_left needle input base limit 0 = False"
| "mismatch_left needle input base limit (Suc j) =
     (if limit < Suc j then (if needle ! j \<noteq> input ! (base + j) then True else mismatch_left needle input base limit j)
      else False)"

function two_way_loop :: "bool \<Rightarrow> bytes \<Rightarrow> bytes \<Rightarrow> nat \<Rightarrow> nat \<Rightarrow> nat option" where
  "two_way_loop avx2 needle input base memory =
     (let crit = fst (critical needle); anchor = length needle - 1
      in if length input - length needle < base then None
         else case find_literal_anchor avx2 (needle ! anchor) (drop (base + anchor) input) of
           None \<Rightarrow> None
         | Some skip \<Rightarrow>
             let memory1 = (if 0 < skip then 0 else memory);
                 base1 = base + skip;
                 i = match_right needle input base1 (if short_period needle then max crit memory1 else crit)
             in if i < length needle
                then two_way_loop avx2 needle input (base1 + (i - crit + 1)) (if short_period needle then 0 else memory1)
                else if \<not> mismatch_left needle input base1 (if short_period needle then memory1 else 0) crit
                then Some base1
                else two_way_loop avx2 needle input (base1 + shift_period needle)
                       (if short_period needle then length needle - shift_period needle else memory1))"
  by pat_completeness auto
termination
  by (relation "measure (\<lambda>(_, _, input, base, _). length input + 1 - base)")
    (auto intro!: diff_less_mono2 simp: shift_period_pos)

declare two_way_loop.simps [simp del]

definition two_way_find :: "bool \<Rightarrow> bytes \<Rightarrow> bytes \<Rightarrow> nat option" where
  "two_way_find avx2 needle input = two_way_loop avx2 needle input 0 0"

definition windows_position :: "bytes \<Rightarrow> bytes \<Rightarrow> nat option" where
  "windows_position needle input =
     position (\<lambda>at. slice input at (at + length needle) = needle) [0..<length input - length needle + 1]"

definition find_literal :: "bool \<Rightarrow> bytes \<Rightarrow> bytes \<Rightarrow> nat option" where
  "find_literal avx2 needle input =
     (case needle of
        [] \<Rightarrow> Some 0
      | [first] \<Rightarrow> find1 first input
      | _ \<Rightarrow>
          if length input < length needle then None
          else if length needle < TWO_WAY_MIN_NEEDLE_BYTES then windows_position needle input
          else two_way_find avx2 needle input)"

section \<open>Suffixes in order\<close>

fun suffix_less :: "bool \<Rightarrow> bytes \<Rightarrow> bytes \<Rightarrow> bool" where
  "suffix_less r [] ys \<longleftrightarrow> ys \<noteq> []"
| "suffix_less r (x # xs) [] \<longleftrightarrow> False"
| "suffix_less r (x # xs) (y # ys) \<longleftrightarrow> smaller r x y \<or> x = y \<and> suffix_less r xs ys"

lemma smaller_order:
  "\<not> smaller r a a" "smaller r a b \<Longrightarrow> smaller r b c \<Longrightarrow> smaller r a c" "smaller r a b \<Longrightarrow> \<not> smaller r b a"
  "smaller r a b \<or> a = b \<or> smaller r b a" "smaller (\<not> r) a b = smaller r b a"
  by (auto simp: smaller_def)

lemma suffix_less_irrefl [simp]: "\<not> suffix_less r xs xs"
  by (induction xs) (auto simp: smaller_order)

lemma suffix_less_trans: "suffix_less r xs ys \<Longrightarrow> suffix_less r ys zs \<Longrightarrow> suffix_less r xs zs"
proof (induction r xs ys arbitrary: zs rule: suffix_less.induct)
  case (1 r ys)
  then show ?case by (cases zs; cases ys) auto
next
  case (3 r x xs y ys)
  then show ?case by (cases zs) (auto intro: smaller_order(2))
qed simp

lemma suffix_less_prefix [simp]:
  "suffix_less r (zs @ xs) (zs @ ys) = suffix_less r xs ys" "suffix_less r xs (xs @ ws) \<longleftrightarrow> ws \<noteq> []"
  by (induction zs) (auto simp: smaller_order, induction xs, auto simp: smaller_order)

lemma suffix_less_nil [simp]: "\<not> suffix_less r ws []"
  by (cases ws) auto

lemma suffix_less_not_longer [simp]: "\<not> suffix_less r (xs @ ws) xs"
  by (induction xs) (auto simp: smaller_order)

text \<open>Two suffixes of a needle that part at a distance \<open>k\<close>.\<close>

lemma suffix_less_drop:
  assumes "a + k < length x" "b + k < length x" "\<And>j. j < k \<Longrightarrow> x ! (a + j) = x ! (b + j)" "smaller r (x ! (a + k)) (x ! (b + k))"
  shows "suffix_less r (drop a x) (drop b x)"
  using assms
proof (induction k arbitrary: a b)
  case 0
  then show ?case using Cons_nth_drop_Suc [of a x] Cons_nth_drop_Suc [of b x] by (metis add_0_right suffix_less.simps(3))
next
  case (Suc k)
  have "x ! a = x ! b" using Suc(4) [of 0] by simp
  moreover have "suffix_less r (drop (Suc a) x) (drop (Suc b) x)"
    using Suc(2,3,5) Suc(4) [of "Suc _"] by (intro Suc(1)) auto
  moreover have "drop a x = x ! a # drop (Suc a) x" "drop b x = x ! b # drop (Suc b) x"
    using Suc(2,3) by (simp_all add: Cons_nth_drop_Suc)
  ultimately show ?case by simp
qed

lemma drop_eq_take: "a + k \<le> length x \<Longrightarrow> b + k \<le> length x \<Longrightarrow> (\<And>j. j < k \<Longrightarrow> x ! (a + j) = x ! (b + j)) \<Longrightarrow>
    take k (drop a x) = take k (drop b x)"
  by (auto intro!: nth_equalityI)

section \<open>The maximal suffix\<close>

definition periodic :: "bytes \<Rightarrow> nat \<Rightarrow> nat \<Rightarrow> nat \<Rightarrow> bool" where
  "periodic x pos until p \<longleftrightarrow> (\<forall>j. pos \<le> j \<longrightarrow> j + p < until \<longrightarrow> x ! (j + p) = x ! j)"

text \<open>Every proper suffix of the period word is smaller than the word, at a byte inside it.\<close>

definition anti_lyndon :: "bool \<Rightarrow> bytes \<Rightarrow> nat \<Rightarrow> nat \<Rightarrow> bool" where
  "anti_lyndon r x pos p \<longleftrightarrow>
     (\<forall>b. 0 < b \<longrightarrow> b < p \<longrightarrow> (\<exists>m. b + m < p \<and> (\<forall>j < m. x ! (pos + b + j) = x ! (pos + j)) \<and>
        smaller r (x ! (pos + b + m)) (x ! (pos + m))))"

definition scan_inv :: "bool \<Rightarrow> bytes \<Rightarrow> nat \<Rightarrow> nat \<Rightarrow> nat \<Rightarrow> nat \<Rightarrow> bool" where
  "scan_inv r x pos candidate offset p \<longleftrightarrow>
     (\<exists>k > 0. candidate = pos + k * p) \<and> offset < p \<and> candidate + offset \<le> length x \<and>
     periodic x pos (candidate + offset) p \<and> anti_lyndon r x pos p \<and>
     (\<forall>q < pos. suffix_less r (drop q x) (drop pos x))"

lemma periodicD: "periodic x pos until p \<Longrightarrow> pos \<le> j \<Longrightarrow> j + p < until \<Longrightarrow> x ! (j + p) = x ! j"
  by (simp add: periodic_def)

lemma periodic_many: "periodic x pos until p \<Longrightarrow> pos \<le> j \<Longrightarrow> j + i * p < until \<Longrightarrow> x ! (j + i * p) = x ! j"
proof (induction i)
  case (Suc i)
  have "x ! ((j + i * p) + p) = x ! (j + i * p)"
    using Suc(3,4) by (intro periodicD [OF Suc(2)]) (simp_all add: add_ac)
  moreover have "j + i * p < until" using Suc(4) by simp
  ultimately show ?case using Suc(1) [OF Suc(2,3)] by (simp add: add_ac)
qed simp

lemma periodic_mod:
  assumes "periodic x pos until p" "pos + j < until"
  shows "x ! (pos + j) = x ! (pos + j mod p)"
proof -
  have eq: "pos + j mod p + (j div p) * p = pos + j" by (simp add: mod_div_mult_eq)
  show ?thesis using periodic_many [OF assms(1), of "pos + j mod p" "j div p"] assms(2) unfolding eq by simp
qed

lemma anti_lyndonE:
  assumes "anti_lyndon r x pos p" "0 < b" "b < p"
  obtains m where "b + m < p" "\<And>j. j < m \<Longrightarrow> x ! (pos + b + j) = x ! (pos + j)" "smaller r (x ! (pos + b + m)) (x ! (pos + m))"
  using assms unfolding anti_lyndon_def by blast

lemma mod_shift: "b mod p + j < p \<Longrightarrow> (b + j) mod p = b mod p + (j::nat)"
  by (metis mod_add_left_eq mod_less)

text \<open>The word up to a byte that is smaller than its periodic predecessor.\<close>

lemma anti_lyndon_longer:
  assumes inv: "anti_lyndon r x pos p" "periodic x pos (pos + N) p" "0 < p" "p \<le> N"
    and new: "smaller r (x ! (pos + N)) (x ! (pos + N mod p))"
  shows "anti_lyndon r x pos (N + 1)"
  unfolding anti_lyndon_def
proof (intro allI impI)
  fix b assume b: "0 < b" "b < N + 1"
  show "\<exists>m. b + m < N + 1 \<and> (\<forall>j<m. x ! (pos + b + j) = x ! (pos + j)) \<and> smaller r (x ! (pos + b + m)) (x ! (pos + m))"
  proof (cases "b mod p = 0")
    case True
    have shift: "(b + j) mod p = j mod p" for j using True by (metis add.left_neutral mod_add_left_eq)
    have "x ! (pos + b + j) = x ! (pos + j)" if "j < N - b" for j
      using periodic_mod [OF inv(2), of "b + j"] periodic_mod [OF inv(2), of j] that by (simp add: shift add.assoc)
    moreover have "(N - b) mod p = N mod p" using shift [of "N - b"] b by simp
    then have "x ! (pos + (N - b)) = x ! (pos + N mod p)" using periodic_mod [OF inv(2), of "N - b"] b by simp
    ultimately show ?thesis using b new by (intro exI [of _ "N - b"]) simp
  next
    case False
    obtain m where m: "b mod p + m < p" "\<And>j. j < m \<Longrightarrow> x ! (pos + b mod p + j) = x ! (pos + j)"
        "smaller r (x ! (pos + b mod p + m)) (x ! (pos + m))"
      using anti_lyndonE [OF inv(1), of "b mod p"] False inv(3) by auto
    have at: "x ! (pos + b + j) = x ! (pos + b mod p + j)" if "j \<le> m" "b + j < N" for j
      using periodic_mod [OF inv(2), of "b + j"] mod_shift [of b p j] that m(1) by (simp add: add.assoc)
    show ?thesis
    proof (cases "b + m < N")
      case True
      then show ?thesis using m at by (intro exI [of _ m]) auto
    next
      case False
      let ?e = "N - b"
      have e: "?e \<le> m" "b + ?e = N" using False b by auto
      have "N mod p = b mod p + ?e" using mod_shift [of b p ?e] e m(1) by simp
      then have "smaller r (x ! (pos + N)) (x ! (pos + b mod p + ?e))" using new by (simp add: add.assoc)
      moreover have "smaller r (x ! (pos + b mod p + ?e)) (x ! (pos + ?e)) \<or> x ! (pos + b mod p + ?e) = x ! (pos + ?e)"
        using m(2) [of ?e] m(3) e by (cases "?e = m") auto
      ultimately have "smaller r (x ! (pos + N)) (x ! (pos + ?e))" using smaller_order(2) by metis
      then show ?thesis using e m(2) at b by (intro exI [of _ ?e]) (auto simp: add.assoc)
    qed
  qed
qed

lemma same_as_first:
  assumes "periodic x pos (pos + N) p" "b mod p = 0" "b + j < N"
  shows "x ! (pos + b + j) = x ! (pos + j)"
proof -
  have "(b + j) mod p = j mod p" using assms(2) by (metis add.left_neutral mod_add_left_eq)
  then show ?thesis using periodic_mod [OF assms(1), of "b + j"] periodic_mod [OF assms(1), of j] assms(3) by (simp add: add.assoc)
qed

text \<open>A suffix inside the periodic part that does not start a period is smaller.\<close>

lemma inner_suffix_less:
  assumes inv: "anti_lyndon r x pos p" "periodic x pos (pos + N) p" "0 < p" "pos + N \<le> length x"
    and b: "b mod p \<noteq> 0" "b < N" and room: "N = length x - pos \<or> b - b mod p + p \<le> N"
  shows "suffix_less r (drop (pos + b) x) (drop pos x)"
proof -
  obtain m where m: "b mod p + m < p" "\<And>j. j < m \<Longrightarrow> x ! (pos + b mod p + j) = x ! (pos + j)"
      "smaller r (x ! (pos + b mod p + m)) (x ! (pos + m))"
    using anti_lyndonE [OF inv(1), of "b mod p"] b(1) inv(3) by auto
  have at: "x ! (pos + b + j) = x ! (pos + b mod p + j)" if "j \<le> m" "b + j < N" for j
    using periodic_mod [OF inv(2), of "b + j"] mod_shift [of b p j] that m(1) by (simp add: add.assoc)
  show ?thesis
  proof (cases "b + m < N")
    case True
    then show ?thesis using m at inv(4) by (intro suffix_less_drop [where k = m]) auto
  next
    case False
    have "b mod p \<le> b" by simp
    then have "\<not> b - b mod p + p \<le> N" using False m(1) by linarith
    then have N: "N = length x - pos" using room by simp
    let ?k = "N - b"
    have "x ! (pos + b + j) = x ! (pos + j)" if "j < ?k" for j using at [of j] m(2) [of j] that False by auto
    then have "take ?k (drop (pos + b) x) = take ?k (drop pos x)" using N b inv(4) by (intro drop_eq_take) auto
    then have "drop (pos + b) x = take ?k (drop pos x)" using N b inv(4) by simp
    then have "drop pos x = drop (pos + b) x @ drop ?k (drop pos x)" by (metis append_take_drop_id)
    moreover have "drop ?k (drop pos x) \<noteq> []" using N b inv(4) b(1) by (cases b) auto
    ultimately show ?thesis by (metis suffix_less_prefix(2))
  qed
qed

lemma scan_inv_equal:
  assumes inv: "scan_inv r x pos candidate offset p"
    and new: "candidate + offset < length x" "x ! (candidate + offset) = x ! (pos + offset)"
  shows "if offset + 1 = p then scan_inv r x pos (candidate + (offset + 1)) 0 p else scan_inv r x pos candidate (offset + 1) p"
proof -
  obtain k where k: "0 < k" "candidate = pos + k * p" using inv by (auto simp: scan_inv_def)
  have base: "offset < p" "periodic x pos (candidate + offset) p" using inv by (auto simp: scan_inv_def)
  have "periodic x pos (candidate + offset + 1) p"
    unfolding periodic_def
  proof (intro allI impI)
    fix j assume j: "pos \<le> j" "j + p < candidate + offset + 1"
    show "x ! (j + p) = x ! j"
    proof (cases "j + p < candidate + offset")
      case True
      then show ?thesis by (rule periodicD [OF base(2) j(1)])
    next
      case False
      then have e: "j + p = candidate + offset" using j by simp
      have "pos + (k * p + offset) < candidate + offset + 1" using k by simp
      obtain k' where k': "k = Suc k'" using k(1) by (cases k) auto
      then have "j = pos + (k' * p + offset)" using e k(2) by simp
      moreover have "(k' * p + offset) mod p = offset" using base(1) by simp
      ultimately have "x ! j = x ! (pos + offset)"
        using periodic_mod [OF base(2), of "k' * p + offset"] k(2) k' base(1) by simp
      then show ?thesis using new e by simp
    qed
  qed
  moreover have "\<exists>k' > 0. candidate + p = pos + k' * p" using k by (intro exI [of _ "Suc k"]) simp
  ultimately show ?thesis using inv new by (auto simp: scan_inv_def add.assoc)
qed

lemma scan_inv_smaller:
  assumes inv: "scan_inv r x pos candidate offset p"
    and new: "candidate + offset < length x" "smaller r (x ! (candidate + offset)) (x ! (pos + offset))"
  shows "scan_inv r x pos (candidate + (offset + 1)) 0 (candidate + (offset + 1) - pos)"
proof -
  obtain k where k: "0 < k" "candidate = pos + k * p" using inv by (auto simp: scan_inv_def)
  let ?N = "k * p + offset"
  have base: "offset < p" "periodic x pos (pos + ?N) p" "anti_lyndon r x pos p" using inv k by (auto simp: scan_inv_def add.assoc)
  have "p \<le> ?N" using k(1) by (cases k) auto
  moreover have "?N mod p = offset" using base(1) by simp
  ultimately have "anti_lyndon r x pos (?N + 1)"
    using anti_lyndon_longer [OF base(3,2)] base(1) new(2) k(2) by (simp add: add.assoc)
  moreover have "candidate + (offset + 1) - pos = ?N + 1" using k(2) by simp
  moreover have "periodic x pos (candidate + (offset + 1)) (?N + 1)" using k(2) by (auto simp: periodic_def)
  ultimately show ?thesis using inv new k by (auto simp: scan_inv_def intro!: exI [of _ 1])
qed

lemma scan_inv_bigger:
  assumes inv: "scan_inv r x pos candidate offset p"
    and new: "candidate + offset < length x" "smaller r (x ! (pos + offset)) (x ! (candidate + offset))"
  shows "scan_inv r x candidate (candidate + 1) 0 1"
proof -
  obtain k where k: "0 < k" "candidate = pos + k * p" using inv by (auto simp: scan_inv_def)
  let ?N = "k * p + offset"
  have base: "offset < p" "periodic x pos (pos + ?N) p" "anti_lyndon r x pos p" "\<forall>q < pos. suffix_less r (drop q x) (drop pos x)"
    using inv k by (auto simp: scan_inv_def add.assoc)
  have run: "suffix_less r (drop (pos + b) x) (drop candidate x)" if b: "b mod p = 0" "b < k * p" for b
  proof (rule suffix_less_drop [where k = offset])
    have "pos + b + offset < pos + ?N" using b by simp
    then show "pos + b + offset < length x" using new(1) k(2) by simp
    show "x ! (pos + b + j) = x ! (candidate + j)" if "j < offset" for j
      using same_as_first [OF base(2), of b j] same_as_first [OF base(2), of "k * p" j] b that k(2) by (simp add: add.assoc)
    show "smaller r (x ! (pos + b + offset)) (x ! (candidate + offset))"
      using same_as_first [OF base(2), of b offset] b new(2) by simp
  qed (use new in simp)
  have first: "suffix_less r (drop pos x) (drop candidate x)" using run [of 0] k base(1) by simp
  have "suffix_less r (drop q x) (drop candidate x)" if q: "q < candidate" for q
  proof (cases "q < pos")
    case True
    then show ?thesis using base(4) first suffix_less_trans by blast
  next
    case False
    then obtain b where b: "q = pos + b" "b < k * p" using q k(2) by (metis add_less_cancel_left le_iff_add not_le)
    show ?thesis
    proof (cases "b mod p = 0")
      case True
      then show ?thesis using run [of b] b by simp
    next
      case False
      have "b div p < k" using b(2) by (simp add: less_mult_imp_div_less)
      then have "(b div p + 1) * p \<le> k * p" by (metis Suc_eq_plus1 Suc_leI mult_le_mono1)
      then have "b - b mod p + p \<le> ?N" by (simp add: minus_mod_eq_div_mult)
      then have "suffix_less r (drop (pos + b) x) (drop pos x)"
        using False b base new(1) k(2) by (intro inner_suffix_less [where p = p and N = ?N]) auto
      then show ?thesis using first suffix_less_trans b(1) by blast
    qed
  qed
  moreover have "periodic x candidate (candidate + 1) 1" "anti_lyndon r x candidate 1" by (auto simp: periodic_def anti_lyndon_def)
  ultimately show ?thesis using new(1) by (auto simp: scan_inv_def intro!: exI [of _ 1])
qed

text \<open>What the scan returns: the start of the maximal suffix and the least period of that suffix.\<close>

definition crit_spec :: "bool \<Rightarrow> bytes \<Rightarrow> nat \<Rightarrow> nat \<Rightarrow> bool" where
  "crit_spec r x pos p \<longleftrightarrow>
     pos < length x \<and> 0 < p \<and> pos + p \<le> length x \<and> periodic x pos (length x) p \<and> anti_lyndon r x pos p \<and>
     (\<forall>q < length x. q \<noteq> pos \<longrightarrow> suffix_less r (drop q x) (drop pos x))"

lemma scan_inv_done:
  assumes inv: "scan_inv r x pos candidate offset p" and over: "candidate + offset = length x"
  shows "crit_spec r x pos p"
proof -
  obtain k where k: "0 < k" "candidate = pos + k * p" using inv by (auto simp: scan_inv_def)
  have base: "offset < p" "periodic x pos (length x) p" "anti_lyndon r x pos p" "\<forall>q < pos. suffix_less r (drop q x) (drop pos x)"
    using inv over by (auto simp: scan_inv_def)
  have room: "pos + p \<le> length x" using k over by (cases k) auto
  let ?N = "length x - pos"
  have N: "periodic x pos (pos + ?N) p" using base(2) room by simp
  have "suffix_less r (drop q x) (drop pos x)" if q: "q < length x" "pos < q" for q
  proof -
    obtain b where b: "q = pos + b" "0 < b" using q(2) by (metis less_imp_add_positive)
    show ?thesis
    proof (cases "b mod p = 0")
      case True
      have "take (length x - q) (drop q x) = take (length x - q) (drop pos x)"
        using same_as_first [OF N True] b q by (intro drop_eq_take) auto
      then have "drop q x = take (length x - q) (drop pos x)" by simp
      then have "drop pos x = drop q x @ drop (length x - q) (drop pos x)" by (metis append_take_drop_id)
      moreover have "drop (length x - q) (drop pos x) \<noteq> []" using q by auto
      ultimately show ?thesis by (metis suffix_less_prefix(2))
    next
      case False
      then show ?thesis using base N room b q by (auto intro!: inner_suffix_less [where p = p and N = ?N])
    qed
  qed
  then show ?thesis using base room by (auto simp: crit_spec_def nat_neq_iff)
qed

lemma maximal_suffix_from_spec:
  "scan_inv r x pos candidate offset p \<Longrightarrow>
     (case maximal_suffix_from r x pos candidate offset p of (pos', p') \<Rightarrow> crit_spec r x pos' p')"
proof (induction r x pos candidate offset p rule: maximal_suffix_from.induct)
  case (1 r x pos candidate offset p)
  show ?case
  proof (cases "get_at x (candidate + offset)")
    case None
    then have "candidate + offset = length x" using 1(5) by (auto simp: scan_inv_def get_at_None_iff)
    then show ?thesis using None scan_inv_done [OF 1(5)] by (subst maximal_suffix_from.simps) simp
  next
    case (Some new)
    then have at: "candidate + offset < length x" "new = x ! (candidate + offset)" by (auto simp: get_at_Some_iff)
    let ?current = "x ! (pos + offset)"
    consider (less) "smaller r new ?current" | (eq) "new = ?current" | (more) "smaller r ?current new" using smaller_order(4) by blast
    then show ?thesis
    proof cases
      case less
      have "scan_inv r x pos (candidate + (offset + 1)) 0 (candidate + (offset + 1) - pos)"
        using scan_inv_smaller [OF 1(5) at(1)] less at(2) by simp
      then show ?thesis using 1(1) [OF Some refl less] less Some by (subst maximal_suffix_from.simps) simp
    next
      case eq
      then have no: "\<not> smaller r new ?current" using smaller_order(1) by simp
      have step: "if offset + 1 = p then scan_inv r x pos (candidate + (offset + 1)) 0 p else scan_inv r x pos candidate (offset + 1) p"
        using scan_inv_equal [OF 1(5) at(1)] eq at(2) by simp
      show ?thesis
      proof (cases "offset + 1 = p")
        case True
        then show ?thesis using 1(2) [OF Some refl no eq True] step no eq Some by (subst maximal_suffix_from.simps) simp
      next
        case False
        then show ?thesis using 1(3) [OF Some refl no eq False] step no eq Some by (subst maximal_suffix_from.simps) simp
      qed
    next
      case more
      then have no: "\<not> smaller r new ?current" "new \<noteq> ?current" using smaller_order(1,3) by blast+
      have "scan_inv r x candidate (candidate + 1) 0 1" using scan_inv_bigger [OF 1(5) at(1)] more at(2) by simp
      then show ?thesis using 1(4) [OF Some refl no] no Some by (subst maximal_suffix_from.simps) simp
    qed
  qed
qed

lemma maximal_suffix_spec:
  assumes "x \<noteq> []" and "maximal_suffix x r = (pos, p)"
  shows "crit_spec r x pos p"
proof -
  have "scan_inv r x 0 1 0 1"
    using assms(1) by (auto simp: scan_inv_def periodic_def anti_lyndon_def Suc_le_eq intro!: exI [of _ 1])
  then show ?thesis using maximal_suffix_from_spec [of r x 0 1 0 1] assms(2) by (simp add: maximal_suffix_def)
qed

section \<open>The cut\<close>

text \<open>
  The cut is the later of the two maximal suffixes: it is maximal in one order, and some position at or
  before it is maximal in the other.
\<close>

definition cut_spec :: "bool \<Rightarrow> bytes \<Rightarrow> nat \<Rightarrow> nat \<Rightarrow> nat \<Rightarrow> bool" where
  "cut_spec r x crit p other \<longleftrightarrow>
     crit_spec r x crit p \<and> other \<le> crit \<and>
     (\<forall>q < length x. q \<noteq> other \<longrightarrow> suffix_less (\<not> r) (drop q x) (drop other x))"

lemma critical_spec:
  assumes "x \<noteq> []" and "critical x = (crit, p)"
  obtains r other where "cut_spec r x crit p other"
proof -
  obtain a ap d dp where m: "maximal_suffix x False = (a, ap)" "maximal_suffix x True = (d, dp)" by fastforce
  have spec: "crit_spec False x a ap" "crit_spec True x d dp" using m assms(1) by (auto intro: maximal_suffix_spec)
  show thesis
  proof (cases "d < a")
    case True
    then have "cut_spec False x crit p d" using assms(2) m spec by (auto simp: critical_def cut_spec_def crit_spec_def)
    then show ?thesis by (rule that)
  next
    case False
    then have "cut_spec True x crit p a" using assms(2) m spec by (auto simp: critical_def cut_spec_def crit_spec_def)
    then show ?thesis by (rule that)
  qed
qed

text \<open>A larger suffix is larger at the first byte where the two part, and is not a proper prefix of the other.\<close>

lemma parts_smaller:
  assumes "suffix_less r (drop a x) (drop b x)" "a + k < length x" "b + k < length x"
    "\<And>j. j < k \<Longrightarrow> x ! (a + j) = x ! (b + j)" "x ! (a + k) \<noteq> x ! (b + k)"
  shows "smaller r (x ! (a + k)) (x ! (b + k))"
proof (rule ccontr)
  assume "\<not> smaller r (x ! (a + k)) (x ! (b + k))"
  then have "smaller r (x ! (b + k)) (x ! (a + k))" using smaller_order(4) assms(5) by blast
  then have "suffix_less r (drop b x) (drop a x)" using assms(2-4) by (intro suffix_less_drop [where k = k]) auto
  then show False using assms(1) suffix_less_trans suffix_less_irrefl by blast
qed

lemma longer_not_smaller:
  assumes "suffix_less r (drop a x) (drop b x)" "a < b" "b < length x" "\<And>j. b + j < length x \<Longrightarrow> x ! (a + j) = x ! (b + j)"
  shows False
proof -
  have "take (length x - b) (drop a x) = take (length x - b) (drop b x)" using assms(2-4) by (intro drop_eq_take) auto
  then have "drop b x = take (length x - b) (drop a x)" by simp
  then have "drop a x = drop b x @ drop (length x - b) (drop a x)" by (metis append_take_drop_id)
  then show False using assms(1) by (metis suffix_less_not_longer)
qed

text \<open>No square sits on the cut with its first half before it.\<close>

lemma no_square:
  assumes cut: "crit_spec r x crit p" and l: "0 < l" "l \<le> crit" "crit + l \<le> length x"
    and eq: "\<And>j. j < l \<Longrightarrow> x ! (crit - l + j) = x ! (crit + j)"
  shows False
proof -
  have less: "suffix_less r (drop q x) (drop crit x)" if "q < length x" "q \<noteq> crit" for q
    using cut that by (auto simp: crit_spec_def)
  have crit: "crit < length x" using cut by (simp add: crit_spec_def)
  let ?w = "take l (drop crit x)"
  have "take l (drop (crit - l) x) = ?w" using l eq by (intro drop_eq_take) auto
  then have front: "drop (crit - l) x = ?w @ drop crit x" using l by (metis append_take_drop_id drop_drop le_add_diff_inverse)
  have rear: "drop crit x = ?w @ drop (crit + l) x" by (metis append_take_drop_id drop_drop add.commute)
  have "suffix_less r (drop (crit - l) x) (drop crit x)" using less [of "crit - l"] l crit by simp
  then have "suffix_less r (drop crit x) (drop (crit + l) x)" using front rear by (metis suffix_less_prefix(1))
  then show False
  proof (cases "crit + l = length x")
    case True
    then show ?thesis using \<open>suffix_less r (drop crit x) (drop (crit + l) x)\<close> by simp
  next
    case False
    then have "suffix_less r (drop (crit + l) x) (drop crit x)" using less [of "crit + l"] l by simp
    then show ?thesis using \<open>suffix_less r (drop crit x) (drop (crit + l) x)\<close> suffix_less_trans suffix_less_irrefl by blast
  qed
qed

section \<open>Shifts pass no occurrence\<close>

definition occurs :: "bytes \<Rightarrow> bytes \<Rightarrow> nat \<Rightarrow> bool" where
  "occurs x input b \<longleftrightarrow> b + length x \<le> length input \<and> (\<forall>j < length x. input ! (b + j) = x ! j)"

lemma occursD:
  assumes "occurs x input (base + s)" "s \<le> t" "t < length x + s"
  shows "input ! (base + t) = x ! (t - s)"
proof -
  have "t - s < length x" using assms by simp
  then have "input ! (base + s + (t - s)) = x ! (t - s)" using assms(1) unfolding occurs_def by blast
  then show ?thesis using assms(2) by simp
qed

lemma occurs_slice: "occurs x input b \<longleftrightarrow> b + length x \<le> length input \<and> slice input b (b + length x) = x"
proof (cases "b + length x \<le> length input")
  case True
  have at: "slice input b (b + length x) ! j = input ! (b + j)" if "j < length x" for j
    by (rule nth_slice) (use True that in simp_all)
  have "slice input b (b + length x) = x" if "\<And>j. j < length x \<Longrightarrow> input ! (b + j) = x ! j"
    by (rule nth_equalityI) (use True at that in simp_all)
  then show ?thesis using at True unfolding occurs_def by metis
qed (simp add: occurs_def)

lemma mismatch_passes:
  assumes cut: "cut_spec r x crit p other"
    and i: "crit \<le> i" "i < length x" "\<And>t. crit \<le> t \<Longrightarrow> t < i \<Longrightarrow> input ! (base + t) = x ! t" "input ! (base + i) \<noteq> x ! i"
    and s: "0 < s" "crit + s \<le> i" "occurs x input (base + s)"
  shows False
proof -
  have run: "x ! (t - s) = x ! t" if "crit \<le> t" "s \<le> t" "t < i" for t using occursD [OF s(3), of t] i(2) i(3) [of t] that by simp
  have stop: "x ! i \<noteq> x ! (i - s)" using occursD [OF s(3), of i] i s by auto
  have spec: "crit_spec r x crit p" "other \<le> crit" "\<forall>q < length x. q \<noteq> other \<longrightarrow> suffix_less (\<not> r) (drop q x) (drop other x)"
    using cut by (auto simp: cut_spec_def)
  have big: "suffix_less r (drop q x) (drop crit x)" if "q < length x" "q \<noteq> crit" for q using spec(1) that by (auto simp: crit_spec_def)
  have "smaller r (x ! (crit + s + (i - s - crit))) (x ! (crit + (i - s - crit)))"
    using big [of "crit + s"] i s stop run [of "crit + s + _"] by (intro parts_smaller) (auto simp: add.assoc [symmetric])
  then have one: "smaller r (x ! i) (x ! (i - s))" using s by simp
  have two: "smaller r (x ! (i - s)) (x ! i)"
  proof (cases "s \<le> crit")
    case True
    have "smaller r (x ! (crit - s + (i - crit))) (x ! (crit + (i - crit)))"
      using big [of "crit - s"] i s stop run [of "crit + _"] True by (intro parts_smaller) auto
    then show ?thesis using True i by simp
  next
    case False
    have "smaller (\<not> r) (x ! (other + s + (i - s - other))) (x ! (other + (i - s - other)))"
    proof (rule parts_smaller)
      show "suffix_less (\<not> r) (drop (other + s) x) (drop other x)" using spec i s by simp
      show "x ! (other + s + j) = x ! (other + j)" if "j < i - s - other" for j
        using run [of "other + s + j"] False that by (simp add: add.commute add.left_commute)
      show "x ! (other + s + (i - s - other)) \<noteq> x ! (other + (i - s - other))" using stop spec(2) s by simp
      show "other + s + (i - s - other) < length x" "other + (i - s - other) < length x" using i(2) s spec(2) by linarith+
    qed
    then show ?thesis using s spec(2) by (simp add: smaller_order(5))
  qed
  show False using one two smaller_order(3) by blast
qed

text \<open>After the whole right part has matched: no occurrence up to the cut, a later one makes its distance a period.\<close>

lemma near_passes:
  assumes cut: "crit_spec r x crit p"
    and right: "\<forall>t. crit \<le> t \<longrightarrow> t < length x \<longrightarrow> input ! (base + t) = x ! t"
    and s: "0 < s" "s \<le> crit" "occurs x input (base + s)"
  shows False
proof -
  have "crit < length x" "suffix_less r (drop (crit - s) x) (drop crit x)" using cut s by (auto simp: crit_spec_def)
  moreover have "x ! (crit - s + j) = x ! (crit + j)" if "crit + j < length x" for j
    using occursD [OF s(3), of "crit + j"] right s that by simp
  ultimately show ?thesis using s by (intro longer_not_smaller [of r "crit - s" x crit]) auto
qed

lemma far_period:
  assumes right: "\<forall>t. crit \<le> t \<longrightarrow> t < length x \<longrightarrow> input ! (base + t) = x ! t"
    and s: "crit < s" "occurs x input (base + s)" and u: "u + s < length x"
  shows "x ! (u + s) = x ! u"
  using occursD [OF s(2), of "u + s"] right s u by simp

lemma below_period_passes:
  assumes cut: "crit_spec r x crit p"
    and right: "\<forall>t. crit \<le> t \<longrightarrow> t < length x \<longrightarrow> input ! (base + t) = x ! t"
    and s: "0 < s" "s < p" "occurs x input (base + s)"
  shows False
proof (cases "s \<le> crit")
  case True
  then show ?thesis using near_passes [OF cut right] s by blast
next
  case False
  have spec: "anti_lyndon r x crit p" "crit + p \<le> length x" using cut by (auto simp: crit_spec_def)
  obtain m where m: "s + m < p" "smaller r (x ! (crit + s + m)) (x ! (crit + m))"
    using anti_lyndonE [OF spec(1) s(1,2)] by metis
  moreover have "x ! (crit + m + s) = x ! (crit + m)"
    using far_period [OF right _ s(3), where u = "crit + m"] False m spec(2) by simp
  ultimately show ?thesis using smaller_order(1) by (simp add: add_ac)
qed

lemma short_period_iff:
  assumes "critical x = (crit, p)" "crit_spec r x crit p"
  shows "short_period x \<longleftrightarrow> (\<forall>u < crit. x ! (u + p) = x ! u)"
  using assms by (auto simp: short_period_def crit_spec_def list_eq_iff_nth_eq add.commute)

text \<open>When the left part repeats with the period, the period reaches past the cut and is a period of the whole.\<close>

lemma short_period_past_cut:
  assumes cut: "crit_spec r x crit p" and short: "\<forall>u < crit. x ! (u + p) = x ! u"
  shows "crit < p" "\<And>u. u + p < length x \<Longrightarrow> x ! (u + p) = x ! u"
proof -
  have spec: "periodic x crit (length x) p" "crit + p \<le> length x" "0 < p" using cut by (auto simp: crit_spec_def)
  show whole: "x ! (u + p) = x ! u" if "u + p < length x" for u
    using short periodicD [OF spec(1), of u] that by (cases "u < crit") auto
  show "crit < p"
  proof (rule ccontr)
    assume "\<not> crit < p"
    then show False using whole [of "crit - p + _"] spec by (intro no_square [OF cut, of p]) auto
  qed
qed

lemma far_passes:
  assumes cut: "cut_spec r x crit p other" and long: "\<not> (\<forall>u < crit. x ! (u + p) = x ! u)"
    and right: "\<forall>t. crit \<le> t \<longrightarrow> t < length x \<longrightarrow> input ! (base + t) = x ! t"
    and s: "crit < s" "crit + s \<le> length x" "occurs x input (base + s)"
  shows False
proof -
  have spec: "crit_spec r x crit p" "other \<le> crit" "\<forall>q < length x. q \<noteq> other \<longrightarrow> suffix_less (\<not> r) (drop q x) (drop other x)"
    using cut by (auto simp: cut_spec_def)
  have per: "periodic x crit (length x) p" "crit + p \<le> length x" "0 < p" "anti_lyndon r x crit p" using spec(1) by (auto simp: crit_spec_def)
  have period_s: "x ! (u + s) = x ! u" if "u + s < length x" for u using far_period [OF right s(1,3) that] .
  define c where "c = s mod p"
  have c: "c < p" "s = c + s div p * p" using per(3) by (simp_all add: c_def)
  have down: "x ! (j + s) = x ! (j + c)" if "crit \<le> j + c" "j + s < length x" for j
    using periodic_many [OF per(1) that(1), of "s div p"] that(2) c(2) by (metis add.assoc)
  have square: False if l: "0 < l" "l \<le> crit" "l = c \<or> c = 0 \<and> l = p" for l
  proof (rule no_square [OF spec(1), of l])
    show "crit + l \<le> length x" using l(3) c(1) per(2) by auto
    fix j assume j: "j < l"
    have at: "crit - l + j + s < length x" using j l s by simp
    show "x ! (crit - l + j) = x ! (crit + j)"
    proof (cases "c = 0")
      case False
      then have "x ! (crit - l + j + s) = x ! (crit + j)" using down [of "crit - l + j"] at l by auto
      then show ?thesis using period_s [OF at] by simp
    next
      case True
      have "s div p \<noteq> 0" using c s(1) True by (metis add_0 mult_0 not_less0)
      then obtain k where k: "s div p = Suc k" using not0_implies_Suc by blast
      have eq: "crit - l + j + s = crit + j + k * p" using True k c(2) l by auto
      then have "x ! (crit - l + j + s) = x ! (crit + j)" using periodic_many [OF per(1), of "crit + j" k] at unfolding eq by simp
      then show ?thesis using period_s [OF at] by simp
    qed
  qed (use l in auto)
  show False
  proof (cases "c = 0")
    case True
    have "crit < p" using square [of p] per(3) True by (meson not_le)
    have "s div p \<noteq> 0" using c s(1) True by (metis add_0 mult_0 not_less0)
    then obtain k where k: "s = p + k * p" using c(2) True by (metis add_0 mult_Suc not0_implies_Suc)
    have "x ! (u + p) = x ! u" if "u < crit" for u
    proof -
      have eq: "u + p + k * p = u + s" using k by simp
      have "x ! (u + p + k * p) = x ! (u + p)"
        using periodic_many [OF per(1), of "u + p" k] \<open>crit < p\<close> that s(2) unfolding eq by simp
      then show ?thesis using period_s [of u] that s(2) eq by simp
    qed
    then show ?thesis using long by blast
  next
    case False
    then have "crit < c" using square [of c] by (meson not_le gr0I)
    have left: "x ! (u + c) = x ! u" if "u < crit" for u
      using down [of u] period_s [of u] that s(2) \<open>crit < c\<close> by simp
    obtain m where m: "c + m < p" "\<And>j. j < m \<Longrightarrow> x ! (crit + c + j) = x ! (crit + j)" "smaller r (x ! (crit + c + m)) (x ! (crit + m))"
      using anti_lyndonE [OF per(4), of c] False c(1) by (metis gr0I)
    let ?k = "crit - other + m"
    have agree: "x ! (other + c + j) = x ! (other + j)" if "j < ?k" for j
    proof (cases "other + j < crit")
      case True
      then show ?thesis using left [of "other + j"] by (simp add: add_ac)
    next
      case False
      then show ?thesis using m(2) [of "other + j - crit"] that spec(2) by (simp add: add_ac)
    qed
    have "smaller (\<not> r) (x ! (other + c + ?k)) (x ! (other + ?k))"
    proof (rule parts_smaller)
      show "suffix_less (\<not> r) (drop (other + c) x) (drop other x)" using spec(2,3) False c(1) per(2) by simp
      show "x ! (other + c + ?k) \<noteq> x ! (other + ?k)" using m(3) spec(2) smaller_order(1) by (auto simp: add_ac)
    qed (use agree m(1) per(2) spec(2) in auto)
    then show ?thesis using m(3) spec(2) smaller_order(3,5) by (simp add: add_ac)
  qed
qed

section \<open>The loop\<close>

lemma match_right_spec:
  "i0 \<le> length x \<Longrightarrow> i0 \<le> match_right x input b i0 \<and> match_right x input b i0 \<le> length x \<and>
     (\<forall>t. i0 \<le> t \<longrightarrow> t < match_right x input b i0 \<longrightarrow> input ! (b + t) = x ! t) \<and>
     (match_right x input b i0 < length x \<longrightarrow> input ! (b + match_right x input b i0) \<noteq> x ! match_right x input b i0)"
proof (induction x input b i0 rule: match_right.induct)
  case (1 x input b i)
  show ?case
  proof (cases "i < length x \<and> x ! i = input ! (b + i)")
    case True
    then have step: "match_right x input b i = match_right x input b (i + 1)" by (subst match_right.simps) simp
    have "input ! (b + t) = x ! t" if "i \<le> t" "t < match_right x input b (i + 1)" for t
      using 1(1) [OF True] True that by (cases "t = i") auto
    then show ?thesis using 1(1) [OF True] True unfolding step by auto
  next
    case False
    then have "match_right x input b i = i" by (subst match_right.simps) auto
    then show ?thesis using False 1(2) by auto
  qed
qed

lemma mismatch_left_iff: "mismatch_left x input b limit j \<longleftrightarrow> (\<exists>t. limit \<le> t \<and> t < j \<and> input ! (b + t) \<noteq> x ! t)"
proof (induction j)
  case (Suc j)
  have "(\<exists>t. limit \<le> t \<and> t < Suc j \<and> input ! (b + t) \<noteq> x ! t) \<longleftrightarrow>
      limit \<le> j \<and> input ! (b + j) \<noteq> x ! j \<or> (\<exists>t. limit \<le> t \<and> t < j \<and> input ! (b + t) \<noteq> x ! t)"
    by (auto simp: less_Suc_eq)
  then show ?case using Suc by auto
qed simp

lemma find_literal_anchor_eq: "find_literal_anchor avx2 a input = position (\<lambda>b. b = a) input"
  by (simp add: find_literal_anchor_def find_avx2_eq find_def)

definition first_occurrence :: "bytes \<Rightarrow> bytes \<Rightarrow> nat option \<Rightarrow> bool" where
  "first_occurrence x input result \<longleftrightarrow>
     (case result of None \<Rightarrow> \<forall>b. \<not> occurs x input b | Some b \<Rightarrow> occurs x input b \<and> (\<forall>b' < b. \<not> occurs x input b'))"

lemma anchor_none:
  assumes "position (\<lambda>b. b = x ! (length x - 1)) (drop (base + (length x - 1)) input) = None" "x \<noteq> []" "base \<le> b"
  shows "\<not> occurs x input b"
proof
  assume "occurs x input b"
  then have o: "b + length x \<le> length input" "input ! (b + (length x - 1)) = x ! (length x - 1)" using assms(2) by (auto simp: occurs_def)
  have "drop (base + (length x - 1)) input ! (b - base) = x ! (length x - 1)" "b - base < length (drop (base + (length x - 1)) input)"
    using o assms(2,3) by (cases x; auto simp: add.commute)+
  then show False using assms(1) nth_mem unfolding position_None_iff by metis
qed

lemma anchor_some:
  assumes "position (\<lambda>b. b = x ! (length x - 1)) (drop (base + (length x - 1)) input) = Some skip" "x \<noteq> []"
  shows "base + skip + length x \<le> length input" "base \<le> b \<Longrightarrow> b < base + skip \<Longrightarrow> \<not> occurs x input b"
proof -
  have pos: "skip < length input - (base + (length x - 1))" "\<forall>j < skip. drop (base + (length x - 1)) input ! j \<noteq> x ! (length x - 1)"
    using position_SomeD [OF assms(1)] by simp_all
  show "base + skip + length x \<le> length input" using pos(1) assms(2) by (cases x) auto
  assume b: "base \<le> b" "b < base + skip"
  show "\<not> occurs x input b"
  proof
    assume "occurs x input b"
    then have o: "b + length x \<le> length input" "input ! (b + (length x - 1)) = x ! (length x - 1)" using assms(2) by (auto simp: occurs_def)
    have "drop (base + (length x - 1)) input ! (b - base) = x ! (length x - 1)" using o b(1) assms(2) by (auto simp: add.commute)
    moreover have "b - base < skip" using b by simp
    ultimately show False using pos(2) by blast
  qed
qed

text \<open>The pass over one anchored base: where the next base is and that nothing between them occurs.\<close>

lemma shift_passes:
  assumes x: "x \<noteq> []" "critical x = (crit, p)"
    and right: "\<forall>t. crit \<le> t \<longrightarrow> t < length x \<longrightarrow> input ! (base + t) = x ! t"
    and s: "0 < s" "s < shift_period x" "occurs x input (base + s)"
  shows False
proof -
  obtain r other where cut: "cut_spec r x crit p other" by (rule critical_spec [OF x])
  then have spec: "crit_spec r x crit p" by (simp add: cut_spec_def)
  show False
  proof (cases "short_period x")
    case True
    then show ?thesis using below_period_passes [OF spec right s(1) _ s(3)] s(2) x(2) by (simp add: shift_period_def)
  next
    case False
    have long: "\<not> (\<forall>u < crit. x ! (u + p) = x ! u)" using False short_period_iff [OF x(2) spec] by simp
    consider "s \<le> crit" | "crit < s" "crit + s \<le> length x" using s(2) x(2) False by (fastforce simp: shift_period_def)
    then show ?thesis
    proof cases
      case 1
      then show ?thesis using near_passes [OF spec right s(1) _ s(3)] by blast
    next
      case 2
      then show ?thesis using far_passes [OF cut long right 2 s(3)] by blast
    qed
  qed
qed

lemma stop_passes:
  assumes x: "x \<noteq> []" "critical x = (crit, p)"
    and i: "crit \<le> i" "i < length x" "\<forall>t. crit \<le> t \<longrightarrow> t < i \<longrightarrow> input ! (base + t) = x ! t" "input ! (base + i) \<noteq> x ! i"
    and s: "s < i - crit + 1"
  shows "\<not> occurs x input (base + s)"
proof (cases "s = 0")
  case True
  then show ?thesis using i(2,4) by (auto simp: occurs_def)
next
  case False
  obtain r other where cut: "cut_spec r x crit p other" by (rule critical_spec [OF x])
  have "crit + s \<le> i" using s i(1) by simp
  then show ?thesis using mismatch_passes [OF cut i(1,2), of input base s] i(3,4) False by blast
qed

lemma memory_after_shift:
  assumes x: "x \<noteq> []" "critical x = (crit, p)" and short: "short_period x"
    and right: "\<forall>t. crit \<le> t \<longrightarrow> t < length x \<longrightarrow> input ! (base + t) = x ! t"
    and u: "u < length x - shift_period x"
  shows "input ! (base + shift_period x + u) = x ! u"
proof -
  obtain r other where "cut_spec r x crit p other" by (rule critical_spec [OF x])
  then have spec: "crit_spec r x crit p" by (simp add: cut_spec_def)
  have p: "shift_period x = p" using short x(2) by (simp add: shift_period_def)
  have past: "crit < p" "\<And>u. u + p < length x \<Longrightarrow> x ! (u + p) = x ! u"
    using short_period_past_cut [OF spec] short short_period_iff [OF x(2) spec] by auto
  have "input ! (base + (p + u)) = x ! (u + p)" using right past(1) u p by (simp add: add.commute [of u])
  then show ?thesis using past(2) [of u] u p by (simp add: add.assoc)
qed

definition loop_inv :: "bytes \<Rightarrow> bytes \<Rightarrow> nat \<Rightarrow> nat \<Rightarrow> bool" where
  "loop_inv x input base memory \<longleftrightarrow>
     (\<forall>b < base. \<not> occurs x input b) \<and>
     (short_period x \<longrightarrow> memory \<le> length x \<and> (\<forall>u < memory. input ! (base + u) = x ! u))"

lemma loop_inv_advance:
  assumes "\<forall>b < base. \<not> occurs x input b" "\<And>s. s < by \<Longrightarrow> \<not> occurs x input (base + s)"
    "short_period x \<Longrightarrow> memory \<le> length x" "\<And>u. short_period x \<Longrightarrow> u < memory \<Longrightarrow> input ! (base + by + u) = x ! u"
  shows "loop_inv x input (base + by) memory"
proof -
  have "\<not> occurs x input b" if "b < base + by" for b
    using assms(1,2) that by (metis add_diff_inverse_nat less_diff_conv2 not_less nat_add_left_cancel_less)
  then show ?thesis using assms(3,4) by (simp add: loop_inv_def)
qed

lemma two_way_loop_first:
  assumes "x \<noteq> []" "length x \<le> length input"
  shows "loop_inv x input base memory \<Longrightarrow> first_occurrence x input (two_way_loop avx2 x input base memory)"
  using assms
proof (induction avx2 x input base memory rule: two_way_loop.induct)
  case (1 avx2 x input base memory)
  note x = 1(4) and room = 1(5)
  obtain crit p where crit: "critical x = (crit, p)" by fastforce
  have cut: "crit = fst (critical x)" using crit by simp
  obtain r other where "cut_spec r x crit p other" by (rule critical_spec [OF x crit])
  then have bound: "crit < length x" "0 < p" by (auto simp: cut_spec_def crit_spec_def)
  have before: "\<forall>b < base. \<not> occurs x input b" using 1(3) by (simp add: loop_inv_def)
  let ?short = "short_period x"
  let ?last = "x ! (length x - 1)"
  let ?found = "find_literal_anchor avx2 ?last (drop (base + (length x - 1)) input)"
  show ?case
  proof (cases "length input - length x < base")
    case True
    have "\<not> occurs x input b" for b using before True room by (cases "b < base") (auto simp: occurs_def)
    then show ?thesis using True by (subst two_way_loop.simps) (simp add: first_occurrence_def)
  next
    case inside: False
    show ?thesis
    proof (cases ?found)
      case None
      have "\<not> occurs x input b" for b
        using before anchor_none [of x base input b] None x unfolding find_literal_anchor_eq by (cases "b < base") auto
      then show ?thesis using inside None by (subst two_way_loop.simps) (simp add: first_occurrence_def)
    next
      case (Some skip)
      note anchored = anchor_some [OF Some [unfolded find_literal_anchor_eq] x]
      define memory1 where "memory1 = (if 0 < skip then 0 else memory)"
      define base1 where "base1 = base + skip"
      define i0 where "i0 = (if ?short then max crit memory1 else crit)"
      define i where "i = match_right x input base1 i0"
      have before1: "\<forall>b < base1. \<not> occurs x input b" using before anchored(2) unfolding base1_def by (meson not_le)
      have mem: "?short \<Longrightarrow> memory1 \<le> length x" "\<And>u. ?short \<Longrightarrow> u < memory1 \<Longrightarrow> input ! (base1 + u) = x ! u"
        using 1(3) by (auto simp: loop_inv_def memory1_def base1_def split: if_splits)
      have i0: "crit \<le> i0" "i0 \<le> length x" "\<And>t. crit \<le> t \<Longrightarrow> t < i0 \<Longrightarrow> input ! (base1 + t) = x ! t"
        using mem bound by (auto simp: i0_def split: if_splits)
      note i = match_right_spec [OF i0(2), of input base1, folded i_def]
      have right: "\<forall>t. crit \<le> t \<longrightarrow> t < i \<longrightarrow> input ! (base1 + t) = x ! t" using i i0(3) by (meson not_le)
      have ih: "i < length x \<Longrightarrow> loop_inv x input (base1 + (i - crit + 1)) (if ?short then 0 else memory1) \<Longrightarrow>
            first_occurrence x input (two_way_loop avx2 x input (base1 + (i - crit + 1)) (if ?short then 0 else memory1))"
          "\<not> i < length x \<Longrightarrow> mismatch_left x input base1 (if ?short then memory1 else 0) crit \<Longrightarrow>
            loop_inv x input (base1 + shift_period x) (if ?short then length x - shift_period x else memory1) \<Longrightarrow>
            first_occurrence x input (two_way_loop avx2 x input (base1 + shift_period x)
              (if ?short then length x - shift_period x else memory1))"
        using 1(1) [OF cut refl inside Some memory1_def base1_def i_def [unfolded i0_def]]
          1(2) [OF cut refl inside Some memory1_def base1_def i_def [unfolded i0_def]] x room by auto
      have unfold: "two_way_loop avx2 x input base memory =
          (if i < length x then two_way_loop avx2 x input (base1 + (i - crit + 1)) (if ?short then 0 else memory1)
           else if \<not> mismatch_left x input base1 (if ?short then memory1 else 0) crit then Some base1
           else two_way_loop avx2 x input (base1 + shift_period x) (if ?short then length x - shift_period x else memory1))"
        using inside Some crit by (subst two_way_loop.simps) (simp add: Let_def memory1_def base1_def i_def i0_def)
      show ?thesis
      proof (cases "i < length x")
        case True
        have "loop_inv x input (base1 + (i - crit + 1)) (if ?short then 0 else memory1)"
          using stop_passes [OF x crit _ True right] i i0(1) before1 True by (intro loop_inv_advance) auto
        then show ?thesis using ih(1) True unfold by simp
      next
        case False
        then have all: "\<forall>t. crit \<le> t \<longrightarrow> t < length x \<longrightarrow> input ! (base1 + t) = x ! t" using right by simp
        show ?thesis
        proof (cases "mismatch_left x input base1 (if ?short then memory1 else 0) crit")
          case mismatch: True
          then obtain t where "t < crit" "input ! (base1 + t) \<noteq> x ! t" by (auto simp: mismatch_left_iff)
          then have here: "\<not> occurs x input base1" using bound(1) unfolding occurs_def by (meson less_trans)
          have "\<not> occurs x input (base1 + s)" if "s < shift_period x" for s
            using shift_passes [OF x crit all _ that] here by (cases "s = 0") auto
          then have "loop_inv x input (base1 + shift_period x) (if ?short then length x - shift_period x else memory1)"
            using memory_after_shift [OF x crit _ all] before1 by (intro loop_inv_advance) auto
          then show ?thesis using ih(2) [OF False mismatch] False mismatch unfold by simp
        next
          case match: False
          have "input ! (base1 + t) = x ! t" if "t < length x" for t
            using match mem(2) all that unfolding mismatch_left_iff by (metis not_le zero_le)
          then have "occurs x input base1" using anchored(1) by (simp add: occurs_def base1_def)
          then show ?thesis using before1 False match unfold by (simp add: first_occurrence_def)
        qed
      qed
    qed
  qed
qed

lemma position_upt: "position P [0..<n] = Some b \<longleftrightarrow> b < n \<and> P b \<and> (\<forall>j < b. \<not> P j)"
proof -
  have "position P [0..<n] = Some b \<longleftrightarrow> b < n \<and> P ([0..<n] ! b) \<and> (\<forall>j < b. \<not> P ([0..<n] ! j))"
    by (simp add: position_Some_iff)
  then show ?thesis by (cases "b < n") auto
qed

lemma first_occurrence_unique:
  assumes "first_occurrence x input r" "first_occurrence x input r'"
  shows "r = r'"
proof (cases r; cases r')
  fix b b' assume r: "r = Some b" "r' = Some b'"
  then have "\<not> b < b' \<and> \<not> b' < b" using assms unfolding first_occurrence_def by auto
  then show ?thesis using r by simp
qed (use assms in \<open>simp_all add: first_occurrence_def\<close>)

lemma windows_position_first:
  assumes "length x \<le> length input"
  shows "first_occurrence x input (windows_position x input)"
proof -
  let ?P = "\<lambda>at. slice input at (at + length x) = x" and ?n = "length input - length x + 1"
  have P: "occurs x input b \<longleftrightarrow> b < ?n \<and> ?P b" for b using assms by (simp only: occurs_slice) linarith
  show ?thesis
  proof (cases "windows_position x input")
    case None
    then have "\<not> ?P b" if "b < ?n" for b using that unfolding windows_position_def position_None_iff
      by (simp del: upt_Suc)
    then show ?thesis using None P by (simp add: first_occurrence_def)
  next
    case (Some b)
    then have "b < ?n \<and> ?P b \<and> (\<forall>j < b. \<not> ?P j)" unfolding windows_position_def position_upt .
    then show ?thesis using Some P by (simp add: first_occurrence_def)
  qed
qed

lemma occurs_single: "occurs [a] input b \<longleftrightarrow> b < length input \<and> input ! b = a"
  by (auto simp: occurs_def)

lemma find1_first: "first_occurrence [a] input (find1 a input)"
proof (cases "find1 a input")
  case None
  then have "input ! b \<noteq> a" if "b < length input" for b
    using nth_mem [OF that] by (auto simp: find1_position position_None_iff)
  then show ?thesis using None by (auto simp: first_occurrence_def occurs_single)
next
  case (Some i)
  then show ?thesis using position_SomeD [of "\<lambda>b. b = a" input i] by (auto simp: find1_position first_occurrence_def occurs_single)
qed

lemma find_literal_windows:
  "find_literal avx2 needle input =
     (if length input < length needle then None else windows_position needle input)"
proof -
  consider (zero) "needle = []" | (one) a where "needle = [a]" | (many) a b rest where "needle = a # b # rest"
    by (metis list.exhaust)
  then show ?thesis
  proof cases
    case zero
    then show ?thesis by (simp add: find_literal_def windows_position_def upt_rec)
  next
    case one
    show ?thesis
    proof (cases "input = []")
      case False
      have "first_occurrence needle input (find1 a input)"
        using one find1_first [of a input] by simp
      moreover have "length needle \<le> length input" using one False by (simp add: Suc_le_eq)
      ultimately have "find1 a input = windows_position needle input"
        using first_occurrence_unique windows_position_first by blast
      then show ?thesis using one False by (cases input) (simp_all add: find_literal_def)
    qed (simp add: one find_literal_def find1_position)
  next
    case many
    have "windows_position needle input = two_way_find avx2 needle input" if "length needle \<le> length input"
      unfolding two_way_find_def
      by (rule first_occurrence_unique [OF windows_position_first [OF that] two_way_loop_first [OF _ that]])
        (simp_all add: many loop_inv_def)
    moreover have "find_literal avx2 needle input =
        (if length input < length needle then None
         else if length needle < TWO_WAY_MIN_NEEDLE_BYTES then windows_position needle input
         else two_way_find avx2 needle input)"
      by (simp add: find_literal_def many)
    ultimately show ?thesis by simp
  qed
qed

text \<open>
  C19: \<open>find_literal\<close> answers the first position at which the needle occurs, or nothing when it occurs
  nowhere, for every needle and input and with or without the vector unit: the two-way shifts, the memory of
  a repeated prefix and the anchor scan pass no occurrence.
\<close>

theorem find_literal_first:
  "find_literal avx2 needle input =
     (if length input < length needle then None else windows_position needle input)"
  by (rule find_literal_windows)

end
