(* ===== verification/RecordFilter.thy ===== *)
theory RecordFilter
  imports LineRecord TwoWay
begin

text \<open>
  Filtering while reading: the predicates of \<open>coseva/src/filter.rs\<close>, the test that lets a literal be
  searched in the raw input (\<open>skip_literal\<close> of \<open>engine.rs\<close>), the skip over records that cannot match
  (\<open>seek_candidate\<close> of \<open>engine/access.rs\<close>) and the two filter loops of \<open>engine/cursor.rs\<close>. The
  theorem: a caller that reads through a filter gets the records an unfiltered reading of the input
  would have kept, with the same bounds, fields and record numbers, when the whole input is read without error. A loop's fuel is one call per byte
  and one more; \<open>None\<close> stands for fuel that ran out, which does not happen, or a header lookup without
  a free slot. \<open>avx2\<close> says whether the processor has the vector unit.
\<close>

section \<open>Counting\<close>

definition AVX2_BLOCK_BYTES :: nat where "AVX2_BLOCK_BYTES = 32"

text \<open>Whole blocks by the movemask of the comparison, the tail byte by byte.\<close>

function count1_blocks :: "byte \<Rightarrow> nat \<Rightarrow> bytes \<Rightarrow> nat" where
  "count1_blocks needle count input =
     (if AVX2_BLOCK_BYTES \<le> length input then
        count1_blocks needle (count + count_ones (lane_mask [needle] (take AVX2_BLOCK_BYTES input))) (drop AVX2_BLOCK_BYTES input)
      else count + count1_scalar needle input)"
  by pat_completeness auto
termination by (relation "measure (\<lambda>(_, _, input). length input)") (auto simp: AVX2_BLOCK_BYTES_def)

declare count1_blocks.simps [simp del]

definition count1_avx2 :: "byte \<Rightarrow> bytes \<Rightarrow> nat" where
  "count1_avx2 needle input = count1_blocks needle 0 input"

definition count1 :: "bool \<Rightarrow> byte \<Rightarrow> bytes \<Rightarrow> nat" where
  "count1 avx2 needle input =
     (if length input < STRUCTURAL_BLOCK_BYTES then count1_scalar needle input
      else if avx2 then count1_avx2 needle input
      else count1_portable needle input)"

section \<open>Predicates\<close>

text \<open>A set of byte values as four 64-bit masks.\<close>

type_synonym byte_set = "64 word list"

definition BYTE_SET_EMPTY :: byte_set where "BYTE_SET_EMPTY = [0, 0, 0, 0]"

definition byte_set_insert :: "byte_set \<Rightarrow> byte \<Rightarrow> byte_set" where
  "byte_set_insert s b =
     (let i = unat (drop_bit 6 b) in s[i := s ! i OR push_bit (unat (b AND 63)) 1])"

definition byte_set_contains :: "byte_set \<Rightarrow> byte \<Rightarrow> bool" where
  "byte_set_contains s b \<longleftrightarrow> s ! unat (drop_bit 6 b) AND push_bit (unat (b AND 63)) 1 \<noteq> 0"

datatype match_kind = MatchEquals | MatchContains | MatchStartsWith | MatchEndsWith

record predicate =
  pr_column :: column
  pr_kind :: match_kind
  pr_literal :: bytes
  pr_literal_bytes :: byte_set

definition predicate_new :: "column \<Rightarrow> match_kind \<Rightarrow> bytes \<Rightarrow> predicate" where
  "predicate_new column kind literal =
     \<lparr>pr_column = column, pr_kind = kind, pr_literal = literal,
      pr_literal_bytes = foldl byte_set_insert BYTE_SET_EMPTY literal\<rparr>"

definition field_contains :: "bool \<Rightarrow> bytes \<Rightarrow> bytes \<Rightarrow> bool" where
  "field_contains avx2 haystack needle \<longleftrightarrow> find_literal avx2 needle haystack \<noteq> None"

definition ends_with :: "bytes \<Rightarrow> bytes \<Rightarrow> bool" where
  "ends_with xs ys \<longleftrightarrow> length ys \<le> length xs \<and> drop (length xs - length ys) xs = ys"

definition matches_field :: "bool \<Rightarrow> predicate \<Rightarrow> bytes option \<Rightarrow> bool" where
  "matches_field avx2 p field =
     (case field of
        None \<Rightarrow> False
      | Some field \<Rightarrow>
          (case pr_kind p of
             MatchEquals \<Rightarrow> field = pr_literal p
           | MatchContains \<Rightarrow> field_contains avx2 field (pr_literal p)
           | MatchStartsWith \<Rightarrow> starts_with field (pr_literal p)
           | MatchEndsWith \<Rightarrow> ends_with field (pr_literal p)))"

definition is_skippable :: "predicate \<Rightarrow> bytes \<Rightarrow> bool" where
  "is_skippable p structural \<longleftrightarrow>
     pr_literal p \<noteq> [] \<and> \<not> list_ex (byte_set_contains (pr_literal_bytes p)) (structural @ [CR, LF])"

section \<open>Skipping toward a literal\<close>

definition skip_literal :: "dialect \<Rightarrow> blank_records \<Rightarrow> predicate \<Rightarrow> bytes option" where
  "skip_literal d blanks p =
     (if comment d \<noteq> None \<or> blanks = BlankSkip \<or> escape d \<noteq> DoubleQuote \<or> record_ending d = CrLf \<or> multibyte d then None
      else if is_skippable p [delimiter d, quote d, ending_byte (record_ending d)] then Some (pr_literal p)
      else None)"


definition FUSED_SCAN_LIMIT :: nat where "FUSED_SCAN_LIMIT = 96"
definition FILTER_BACKOFF :: nat where "FILTER_BACKOFF = 16"

datatype seek_scan_kind = Fused | Separate

definition seek_scan_kind_of :: "bytes \<Rightarrow> seek_scan_kind" where
  "seek_scan_kind_of skipped = (if length skipped \<le> FUSED_SCAN_LIMIT then Fused else Separate)"

text \<open>The fused loop: \<open>None\<close> when it meets a quote.\<close>

fun fused_scan :: "byte \<Rightarrow> byte \<Rightarrow> nat \<Rightarrow> nat \<Rightarrow> nat option \<Rightarrow> bytes \<Rightarrow> (nat \<times> nat option) option" where
  "fused_scan qt terminator at records latest [] = Some (records, latest)"
| "fused_scan qt terminator at records latest (b # rest) =
     (if b = qt then None
      else if b = terminator then fused_scan qt terminator (at + 1) (records + 1) (Some at) rest
      else fused_scan qt terminator (at + 1) records latest rest)"

definition scan_skipped :: "bool \<Rightarrow> byte \<Rightarrow> byte \<Rightarrow> bytes \<Rightarrow> (nat \<times> nat option) option" where
  "scan_skipped avx2 qt terminator skipped =
     (case seek_scan_kind_of skipped of
        Fused \<Rightarrow> fused_scan qt terminator 0 0 None skipped
      | Separate \<Rightarrow>
          (if find1 qt skipped \<noteq> None then None
           else Some (count1 avx2 terminator skipped, rfind1 terminator skipped)))"

definition seek_candidate :: "bool \<Rightarrow> bytes \<Rightarrow> bytes \<Rightarrow> engine \<Rightarrow> engine \<times> nat \<times> bool" where
  "seek_candidate avx2 input literal e =
     (let from = en_location e;
          hit = (case find_literal avx2 literal (drop from input) of None \<Rightarrow> length input | Some at \<Rightarrow> from + at)
      in case scan_skipped avx2 (quote (en_dialect e)) (ending_byte (record_ending (en_dialect e))) (slice input from hit) of
           None \<Rightarrow> (e, hit, False)
         | Some (records, latest) \<Rightarrow>
             (e\<lparr>en_location := (case latest of Some at \<Rightarrow> from + at + 1 | None \<Rightarrow> from),
                en_record_index := en_record_index e + records\<rparr>, hit, latest \<noteq> None))"

definition skip_toward_literal ::
    "bool \<Rightarrow> bytes \<Rightarrow> bytes \<Rightarrow> nat option \<Rightarrow> line_cursor \<Rightarrow> line_cursor \<times> nat option" where
  "skip_toward_literal avx2 input literal pending_hit c =
     (if \<not> he_initialized (cu_headed c) then (c, pending_hit)
      else if (case pending_hit of Some hit \<Rightarrow> en_location (cu_engine c) \<le> hit | None \<Rightarrow> False) then (c, pending_hit)
      else if 0 < cu_backoff c then (c\<lparr>cu_backoff := cu_backoff c - 1\<rparr>, pending_hit)
      else case seek_candidate avx2 input literal (cu_engine c) of (e, hit, skipped) \<Rightarrow>
        ((set_engine e c)\<lparr>cu_backoff := (if skipped then 0 else FILTER_BACKOFF)\<rparr>, Some hit))"

section \<open>The filter loops\<close>

text \<open>\<open>resolved(input).get(column)\<close>; the inner option as in \<open>resolve_span\<close>.\<close>

definition resolved_get :: "bytes \<Rightarrow> nat \<Rightarrow> span_storage \<Rightarrow> bytes option option outcome" where
  "resolved_get input column st =
     bind_outcome (assert_that (input_len st \<le> length input)) (\<lambda>_.
       Ok (map_option (resolve_span input (ss_scratch st)) (get_at (ss_spans st) column)))"

definition filter_candidate_matches :: "bool \<Rightarrow> format_options option \<Rightarrow> bytes \<Rightarrow> predicate \<Rightarrow> nat \<Rightarrow> bool move" where
  "filter_candidate_matches avx2 opts input p column =
     bind_step (on_engine (parse_positioned_record opts input False)) (\<lambda>((start, until), index) c.
       case resolved_get input column (en_spans (cu_engine c)) of
         Ok field \<Rightarrow>
           (if \<not> matches_field avx2 p (Option.bind field id) then (c, Ok False)
            else (c\<lparr>cu_start := start, cu_index := index, cu_end := until, cu_staged_valid := False\<rparr>, Ok True))
       | Err er \<Rightarrow> (c, Err er)
       | Panic \<Rightarrow> (c, Panic))"

fun literal_filter_loop ::
    "bool \<Rightarrow> format_options option \<Rightarrow> bytes \<Rightarrow> predicate \<Rightarrow> nat \<Rightarrow> bytes \<Rightarrow> nat \<Rightarrow> nat option \<Rightarrow> line_cursor \<Rightarrow>
       (line_cursor \<times> bool outcome) option" where
  "literal_filter_loop avx2 opts input p column literal 0 pending_hit c = None"
| "literal_filter_loop avx2 opts input p column literal (Suc fuel) pending_hit c =
     (case skip_toward_literal avx2 input literal pending_hit c of (c1, pending_hit') \<Rightarrow>
        if en_location (cu_engine c1) = length input then Some (c1, Ok False)
        else case filter_candidate_matches avx2 opts input p column c1 of
               (c2, Ok True) \<Rightarrow> Some (c2, Ok True)
             | (c2, Ok False) \<Rightarrow> literal_filter_loop avx2 opts input p column literal fuel pending_hit' c2
             | (c2, Err er) \<Rightarrow> Some (c2, Err er)
             | (c2, Panic) \<Rightarrow> Some (c2, Panic))"




section \<open>Counting, finding the last\<close>

lemma count1_scalar_append: "count1_scalar x (a @ b) = count1_scalar x a + count1_scalar x b"
  by (simp add: count1_scalar_def)

lemma count_ones_lanes:
  assumes "length block = AVX2_BLOCK_BYTES"
  shows "count_ones (lane_mask [x] block) = count1_scalar x block"
proof -
  have "filter (bit (lane_mask [x] block)) [0..<32] = filter (\<lambda>i. block ! i = x) [0..<length block]"
    using assms by (intro filter_cong) (auto simp: bit_lane_mask AVX2_BLOCK_BYTES_def)
  then show ?thesis
    by (simp add: count_ones_def count1_scalar_def length_filter_nth [where P = "\<lambda>b. b = x"])
qed

lemma count1_blocks_eq: "count1_blocks x count input = count + count1_scalar x input"
proof (induction x count input rule: count1_blocks.induct)
  case (1 x count input)
  show ?case
  proof (cases "AVX2_BLOCK_BYTES \<le> length input")
    case True
    have "count1_scalar x input = count1_scalar x (take AVX2_BLOCK_BYTES input @ drop AVX2_BLOCK_BYTES input)" by simp
    also have "\<dots> = count_ones (lane_mask [x] (take AVX2_BLOCK_BYTES input)) + count1_scalar x (drop AVX2_BLOCK_BYTES input)"
      unfolding count1_scalar_append using True by (simp add: count_ones_lanes)
    finally show ?thesis using 1 True by (subst count1_blocks.simps) simp
  qed (subst count1_blocks.simps, simp)
qed

lemma count1_eq: "count1 avx2 x input = count1_scalar x input"
  by (simp add: count1_def count1_avx2_def count1_blocks_eq count1_portable_scalar)

lemma rfind1_append:
  "rfind1 x (as @ bs) =
     (case rfind1 x bs of Some i \<Rightarrow> Some (length as + i) | None \<Rightarrow> rfind1 x as)"
  by (auto simp: rfind1_def position_append option.map_comp comp_def split: option.splits
      dest!: position_less)

lemma rfind1_Cons: "rfind1 x (b # bs) =
    (case rfind1 x bs of Some i \<Rightarrow> Some (Suc i) | None \<Rightarrow> if b = x then Some 0 else None)"
  using rfind1_append [of x "[b]" bs] by (simp add: rfind1_def split: option.splits)

lemma fused_scan_eq:
  "fused_scan qt terminator at records latest xs =
     (if qt \<in> set xs then None
      else Some (records + count1_scalar terminator xs,
        case rfind1 terminator xs of Some i \<Rightarrow> Some (at + i) | None \<Rightarrow> latest))"
  by (induction xs arbitrary: at records latest)
    (auto simp: count1_scalar_def rfind1_Cons rfind1_def [of _ "[]"] split: option.splits)

text \<open>Both scans: the line endings and the last of them, or nothing when there is a quote.\<close>

lemma scan_skipped_eq:
  "scan_skipped avx2 qt terminator skipped =
     (if qt \<in> set skipped then None else Some (count1_scalar terminator skipped, rfind1 terminator skipped))"
  by (auto simp: scan_skipped_def fused_scan_eq find_simps position_None_iff position_Some_iff count1_eq
      in_set_conv_nth split: seek_scan_kind.split option.split)

section \<open>Byte sets\<close>

lemma byte_bucket: "unat (drop_bit 6 b) < 4" for b :: byte
proof -
  have "unat (drop_bit 6 b) = unat b div 64" by (simp only: unat_drop_bit_eq) (simp add: drop_bit_eq_div)
  then show ?thesis using unsigned_less [of b, where 'a = nat] by simp
qed

lemma byte_place: "unat (b AND 63) < 64" for b :: byte
proof -
  have "b AND 63 \<le> 63" by (rule word_and_le1)
  then show ?thesis by (simp add: word_le_nat_alt)
qed

lemma byte_split: "drop_bit 6 a = drop_bit 6 b \<Longrightarrow> a AND 63 = b AND 63 \<Longrightarrow> a = b" for a b :: byte
proof (rule bit_eqI)
  fix n
  assume high: "drop_bit 6 a = drop_bit 6 b" and low: "a AND 63 = b AND 63"
  have mask: "(63 :: byte) = mask 6" by (simp add: mask_eq_decr_exp)
  show "bit a n = bit b n"
  proof (cases "n < 6")
    case True
    have "bit (a AND 63) n = bit (b AND 63) n" by (simp only: low)
    then show ?thesis using True by (simp add: mask bit_simps)
  next
    case False
    have "bit (drop_bit 6 a) (n - 6) = bit (drop_bit 6 b) (n - 6)" by (simp only: high)
    then show ?thesis using False by (simp add: bit_simps)
  qed
qed

lemma and_push_bit: "w AND push_bit k 1 \<noteq> 0 \<longleftrightarrow> bit w k" if "k < 64" for w :: "64 word"
proof -
  have "w AND push_bit k 1 = (if bit w k then push_bit k 1 else 0)"
    using that by (intro bit_word_eqI) (auto simp: bit_simps)
  moreover have "push_bit k (1 :: 64 word) \<noteq> 0" using that by (auto simp: bit_eq_iff bit_simps)
  ultimately show ?thesis by simp
qed

lemma byte_set_insert_contains:
  assumes "length s = 4"
  shows "byte_set_contains (byte_set_insert s a) b \<longleftrightarrow> b = a \<or> byte_set_contains s b"
    "length (byte_set_insert s a) = 4"
proof -
  have bit: "byte_set_contains t c \<longleftrightarrow> bit (t ! unat (drop_bit 6 c)) (unat (c AND 63))" for t c
    unfolding byte_set_contains_def by (rule and_push_bit [OF byte_place])
  show "length (byte_set_insert s a) = 4" using assms by (simp add: byte_set_insert_def Let_def)
  show "byte_set_contains (byte_set_insert s a) b \<longleftrightarrow> b = a \<or> byte_set_contains s b"
  proof (cases "drop_bit 6 a = drop_bit 6 b")
    case True
    have "a AND 63 = b AND 63 \<longleftrightarrow> a = b" using byte_split [OF True] by auto
    then have same: "unat (a AND 63) = unat (b AND 63) \<longleftrightarrow> a = b" by (simp add: word_unat_eq_iff)
    have "byte_set_insert s a ! unat (drop_bit 6 b) =
        s ! unat (drop_bit 6 b) OR push_bit (unat (a AND 63)) 1"
      using assms byte_bucket [of b] True by (simp add: byte_set_insert_def Let_def)
    then show ?thesis using same byte_place [of b] unfolding bit by (auto simp: bit_simps)
  next
    case False
    then have "unat (drop_bit 6 a) \<noteq> unat (drop_bit 6 b)" by (simp add: word_unat_eq_iff)
    then have "byte_set_insert s a ! unat (drop_bit 6 b) = s ! unat (drop_bit 6 b)"
      by (simp add: byte_set_insert_def Let_def)
    then show ?thesis using False unfolding bit by auto
  qed
qed

lemma byte_set_of_literal: "byte_set_contains (foldl byte_set_insert BYTE_SET_EMPTY xs) b \<longleftrightarrow> b \<in> set xs"
proof -
  have "length s = 4 \<Longrightarrow> byte_set_contains (foldl byte_set_insert s xs) b \<longleftrightarrow> b \<in> set xs \<or> byte_set_contains s b" for s
    by (induction xs arbitrary: s) (auto simp: byte_set_insert_contains)
  moreover have "\<not> byte_set_contains BYTE_SET_EMPTY b"
  proof -
    have "BYTE_SET_EMPTY ! i = 0" if "i < 4" for i using that by (auto simp: BYTE_SET_EMPTY_def less_Suc_eq numeral_eq_Suc)
    then show ?thesis using byte_bucket [of b] by (simp add: byte_set_contains_def)
  qed
  ultimately show ?thesis by (simp add: BYTE_SET_EMPTY_def)
qed

section \<open>What a predicate accepts\<close>

lemma find_literal_occurs: "first_occurrence x input (find_literal avx2 x input)"
proof (cases "length x \<le> length input")
  case True
  then show ?thesis using windows_position_first by (simp add: find_literal_windows)
qed (auto simp: find_literal_windows first_occurrence_def occurs_def)

text \<open>Whatever a predicate accepts holds its literal.\<close>

lemma accepted_holds_literal:
  assumes "matches_field avx2 p (Some field)"
  shows "\<exists>b. occurs (pr_literal p) field b"
proof (cases "pr_kind p")
  case MatchContains
  then obtain b where "find_literal avx2 (pr_literal p) field = Some b" using assms by (auto simp: matches_field_def field_contains_def)
  then show ?thesis using find_literal_occurs [of "pr_literal p" field avx2] by (auto simp: first_occurrence_def)
next
  case MatchEndsWith
  then have "length (pr_literal p) \<le> length field" "drop (length field - length (pr_literal p)) field = pr_literal p"
    using assms by (simp_all add: matches_field_def ends_with_def)
  then show ?thesis
    by (intro exI [of _ "length field - length (pr_literal p)"]) (metis le_add_diff_inverse2 nth_drop occurs_def le_refl diff_le_self)
next
  case MatchStartsWith
  then show ?thesis using assms
    by (intro exI [of _ 0]) (auto simp: matches_field_def starts_with_iff occurs_def nth_append)
next
  case MatchEquals
  then show ?thesis using assms by (intro exI [of _ 0]) (simp add: matches_field_def occurs_def)
qed

text \<open>No part of the bytes before the first hit is accepted.\<close>

lemma nothing_before_hit:
  assumes "find_literal avx2 (pr_literal p) (drop from input) = found" "pr_literal p \<noteq> []" "from \<le> length input"
    "from \<le> a" "b \<le> (case found of None \<Rightarrow> length input | Some at \<Rightarrow> from + at)" "b \<le> length input"
  shows "\<not> matches_field avx2 p (Some (slice input a b))"
proof
  assume "matches_field avx2 p (Some (slice input a b))"
  then obtain k where k: "occurs (pr_literal p) (slice input a b) k" using accepted_holds_literal by blast
  have len: "0 < length (pr_literal p)" using assms(2) by simp
  have "k + length (pr_literal p) \<le> b - a" using k by (simp add: occurs_def)
  then have fit: "a + k + length (pr_literal p) \<le> b" using len by arith
  have "occurs (pr_literal p) (drop from input) (a + k - from)"
    using k fit assms(4,6) by (auto simp: occurs_def nth_drop add.assoc)
  moreover have "a + k - from < at" if "found = Some at" for at 
  proof -
    have "b \<le> from + at" using assms(5) that by simp
    then show ?thesis using fit len assms(4) by linarith
  qed
  ultimately show False
    using find_literal_occurs [of "pr_literal p" "drop from input" avx2] assms(1)
    by (cases found) (auto simp: first_occurrence_def)
qed

section \<open>The records a skip passes\<close>

text \<open>Where the last line before \<open>hi\<close> ends.\<close>

definition last_line_end :: "byte \<Rightarrow> bytes \<Rightarrow> nat \<Rightarrow> nat \<Rightarrow> nat" where
  "last_line_end terminator input lo hi =
     (case rfind1 terminator (slice input lo hi) of None \<Rightarrow> lo | Some at \<Rightarrow> lo + at + 1)"

lemma slice_first:
  assumes "position (\<lambda>b. b = x) (slice input lo hi) = Some i" "hi \<le> length input"
  shows "slice input lo hi = slice input lo (lo + i) @ x # slice input (lo + i + 1) hi" "lo + i < hi" "input ! (lo + i) = x"
    "x \<notin> set (slice input lo (lo + i))"
proof -
  note p = position_SomeD [OF assms(1)]
  then show less: "lo + i < hi" using assms(2) by auto
  show at: "input ! (lo + i) = x" using p less assms(2) by simp
  show "slice input lo hi = slice input lo (lo + i) @ x # slice input (lo + i + 1) hi"
    using slice_split [of lo "lo + i" hi input] slice_Suc_left [of "lo + i" hi input] less assms(2) at by simp
  have "slice input lo (lo + i) = take i (slice input lo hi)" using less by (simp add: slice_def min_def)
  then show "x \<notin> set (slice input lo (lo + i))"
    using p by (auto simp: in_set_conv_nth)
qed

lemma last_line_end_step:
  assumes "position (\<lambda>b. b = x) (slice input lo hi) = Some i" "hi \<le> length input"
  shows "last_line_end x input lo hi = last_line_end x input (lo + i + 1) hi"
    "count1_scalar x (slice input lo hi) = Suc (count1_scalar x (slice input (lo + i + 1) hi))"
proof -
  note f = slice_first [OF assms]
  have len: "length (slice input lo (lo + i)) = i" using f(2) assms(2) by simp
  show "last_line_end x input lo hi = last_line_end x input (lo + i + 1) hi"
    using len by (simp add: last_line_end_def f(1) rfind1_append rfind1_Cons split: option.split)
  have "count1_scalar x (slice input lo (lo + i)) = 0" using f(4) by (auto simp: count1_scalar_def filter_empty_conv)
  then show "count1_scalar x (slice input lo hi) = Suc (count1_scalar x (slice input (lo + i + 1) hi))"
    by (simp add: f(1) count1_scalar_append) (simp add: count1_scalar_def)
qed

lemma last_line_end_none:
  assumes "position (\<lambda>b. b = x) (slice input lo hi) = None"
  shows "last_line_end x input lo hi = lo" "count1_scalar x (slice input lo hi) = 0"
  using assms by (auto simp: last_line_end_def rfind1_def count1_scalar_def position_None_iff filter_empty_conv
      split: option.splits dest!: position_SomeD)

definition entries_within :: "bytes \<Rightarrow> nat \<Rightarrow> nat \<Rightarrow> (bytes option \<times> bool) list \<Rightarrow> bool" where
  "entries_within input lo hi entries \<longleftrightarrow>
     (\<forall>(bs, null) \<in> set entries. \<exists>a b. bs = Some (slice input a b) \<and> lo \<le> a \<and> b \<le> hi)"

text \<open>\<open>skips_records\<close> is what \<open>from_config\<close> makes of the comment byte and the blank-line policy.\<close>

definition skips_declared :: "engine \<Rightarrow> bool" where
  "skips_declared e \<longleftrightarrow> en_skips_records e = (comment (en_dialect e) \<noteq> None \<or> en_blank_records e = BlankSkip)"

lemma build_of_fields:
  assumes "build_of a = build_of b"
  shows "en_dialect a = en_dialect b" "en_blank_records a = en_blank_records b" "en_syntax a = en_syntax b"
    "en_trim a = en_trim b" "en_nulls a = en_nulls b" "en_skip_initial_space a = en_skip_initial_space b"
    "engine_wf a = engine_wf b" "en_skips_records a = en_skips_records b"
proof -
  have p: "en_dialect x = en_dialect (build_of x)" "en_blank_records x = en_blank_records (build_of x)"
    "en_syntax x = en_syntax (build_of x)" "en_trim x = en_trim (build_of x)" "en_nulls x = en_nulls (build_of x)"
    "en_skip_initial_space x = en_skip_initial_space (build_of x)" "engine_wf x = engine_wf (build_of x)"
    "en_skips_records x = en_skips_records (build_of x)" for x
    by (simp_all add: build_of_def essence_def engine_wf_def format_matches_def)
  show "en_dialect a = en_dialect b" "en_blank_records a = en_blank_records b" "en_syntax a = en_syntax b"
    "en_trim a = en_trim b" "en_nulls a = en_nulls b" "en_skip_initial_space a = en_skip_initial_space b"
    "engine_wf a = engine_wf b" "en_skips_records a = en_skips_records b"
    unfolding p [of a] p [of b] assms by (rule refl)+
qed

lemma build_of_suits:
  assumes "build_of a = build_of b"
  shows "skips_declared a = skips_declared b" "counts_lines a = counts_lines b"
  using build_of_fields [OF assms]
  by (simp_all add: skips_declared_def counts_lines_def simple_dialect_def unquoted_escape_def is_crlf_def)

lemma build_of_roomy: "build_of a = build_of b \<Longrightarrow> roomy input a = roomy input b"
proof -
  assume "build_of a = build_of b"
  moreover have "en_limits x = en_limits (build_of x)" for x by (simp add: build_of_def essence_def)
  ultimately have "en_limits a = en_limits b" by metis
  then show ?thesis by (simp add: roomy_def)
qed

text \<open>Reading on from an engine that may skip: what the skip passes is what a reading would have passed.\<close>

lemma lines_passed:
  "steady opts input a \<Longrightarrow> counts_lines a \<and> roomy input a \<Longrightarrow> \<not> en_skips_records a \<Longrightarrow> read_records opts input fuel a = (rs, AllRead) \<Longrightarrow>
     en_location a \<le> hi \<Longrightarrow> hi \<le> length input \<Longrightarrow> quote (en_dialect a) \<notin> set (slice input (en_location a) hi) \<Longrightarrow>
     x = ending_byte (record_ending (en_dialect a)) \<Longrightarrow> m = count1_scalar x (slice input (en_location a) hi) \<Longrightarrow>
     \<exists>a'. en_location a' = last_line_end x input (en_location a) hi \<and> steady opts input a' \<and> build_of a' = build_of a \<and>
       count_kept a a' \<and> en_record_index a' = en_record_index a + m \<and> m \<le> length rs \<and> m \<le> fuel \<and>
       read_records opts input (fuel - m) a' = (drop m rs, AllRead) \<and>
       (\<forall>r \<in> set (take m rs). entries_within input (en_location a) hi (snd r))"
proof (induction fuel arbitrary: a rs m)
  case (Suc fuel)
  note s = Suc.prems(1)
  have still: "position_engine input a = a" using Suc.prems(3) by (simp add: position_engine_def)
  show ?case
  proof (cases "position (\<lambda>b. b = x) (slice input (en_location a) hi)")
    case None
    then show ?thesis using last_line_end_none [OF None] Suc.prems by (intro exI [of _ a]) (simp add: count_kept_def)
  next
    case (Some i)
    let ?t = "en_location a + i"
    note first = slice_first [OF Some Suc.prems(6)] and step = last_line_end_step [OF Some Suc.prems(6)]
    have "input ! j \<noteq> x \<and> input ! j \<noteq> quote (en_dialect a)" if "en_location a \<le> j" "j < ?t" for j
    proof -
      have "input ! j = slice input (en_location a) ?t ! (j - en_location a)" "input ! j = slice input (en_location a) hi ! (j - en_location a)"
        using that first(2) Suc.prems(6) by simp_all
      moreover have "j - en_location a < length (slice input (en_location a) ?t)" "j - en_location a < length (slice input (en_location a) hi)"
        using that first(2) Suc.prems(6) by auto
      ultimately show ?thesis using first(4) Suc.prems(7) nth_mem by metis
    qed
    then have line: "line_to input a (en_location a) ?t"
      using first(2,3) Suc.prems(6,8) by (simp add: line_to_def)
    show ?thesis
    proof (cases rule: read_records_step [OF s Suc.prems(4)])
      case 1
      then show ?thesis using still first(2) Suc.prems(6) by simp
    next
      case (2 a' bounds j entries rest)
      note run = 2(3) [unfolded still]
      have lt: "en_location a < length input" using 2(1) still by simp
      note q = parsed_steady [OF s lt run]
      note p = positioned_in_line [OF s conjunct2 [OF Suc.prems(2)] conjunct1 [OF Suc.prems(2)] line run]
      have within: "entries_within input (en_location a) hi entries"
        using p(3) 2(4) first(2) by (fastforce simp: entries_within_def)
      have conf: "config_of (a'\<lparr>en_record_index := 0\<rparr>) = config_of (a\<lparr>en_record_index := 0\<rparr>)"
        using parse_positioned_result [of a opts input False] s lt run unfolding q(1) by (simp add: steady_def)
      have kept: "build_of a' = build_of a" by (rule build_of_config [OF conf])
      have d: "en_dialect a' = en_dialect a" "en_skips_records a' = en_skips_records a"
        using config_ofD(1) [OF conf] build_of_skips [OF kept] by simp_all
      have lines: "counts_lines a' \<and> roomy input a'"
        using Suc.prems(2) build_of_suits(2) [OF kept] build_of_roomy [OF kept] by simp
      have loc: "en_location a' = ?t + 1" by (rule p(1))
      obtain m' where m: "m = Suc m'" "m' = count1_scalar x (slice input (en_location a') hi)"
        using step(2) Suc.prems(9) loc by simp
      have "slice input (en_location a) hi = slice input (en_location a) ?t @ x # slice input (en_location a') hi"
        using first(1) loc by simp
      then have free: "quote (en_dialect a') \<notin> set (slice input (en_location a') hi)" using Suc.prems(7) d by simp
      have bound: "en_location a' \<le> hi" using first(2) loc by simp
      obtain b where b: "en_location b = last_line_end x input (en_location a') hi" "steady opts input b" "build_of b = build_of a'"
        "count_kept a' b" "en_record_index b = en_record_index a' + m'" "m' \<le> length rest" "m' \<le> fuel"
        "read_records opts input (fuel - m') b = (drop m' rest, AllRead)"
        "\<forall>r \<in> set (take m' rest). entries_within input (en_location a') hi (snd r)"
        using Suc.IH [OF q(3) lines _ 2(5) bound Suc.prems(6) free _ m(2)] Suc.prems(3,8) d by auto
      have "\<forall>r \<in> set (take m' rest). entries_within input (en_location a) hi (snd r)"
        using b(9) loc unfolding entries_within_def by fastforce
      then show ?thesis
        using b p(2) q(4) kept m(1) 2(6) within step(1) loc
        by (intro exI [of _ b]) (auto simp: count_kept_def)
    qed
  qed
qed simp

section \<open>The loops find the next match\<close>

text \<open>Whether the predicate takes a record, judged from its fields.\<close>

definition selects :: "bool \<Rightarrow> predicate \<Rightarrow> nat \<Rightarrow> parsed_record \<Rightarrow> bool" where
  "selects avx2 p column r \<longleftrightarrow>
     matches_field avx2 p (case get_at (snd r) column of None \<Rightarrow> None | Some (bs, null) \<Rightarrow> bs)"

lemma entries_are_spans:
  assumes "record_entries input e = Ok entries"
  shows "resolved_get input column (en_spans e) =
      Ok (map_option (resolve_span input (ss_scratch (en_spans e))) (get_at (ss_spans (en_spans e)) column))"
    "Option.bind (map_option (resolve_span input (ss_scratch (en_spans e))) (get_at (ss_spans (en_spans e)) column)) id =
      (case get_at entries column of None \<Rightarrow> None | Some (bs, null) \<Rightarrow> bs)"
  using assms by (auto simp: record_entries_def resolved_entries_def resolved_get_def assert_that_def get_at_def split: if_splits)

lemma candidate_decided:
  assumes "parse_positioned_record opts input False (cu_engine c) = (e', Ok ((origin, until), i))"
    "record_entries input e' = Ok entries"
  shows "filter_candidate_matches avx2 opts input p column c =
    (if selects avx2 p column ((origin, until), entries)
     then ((set_engine e' c)\<lparr>cu_start := origin, cu_index := i, cu_end := until, cu_staged_valid := False\<rparr>, Ok True)
     else (set_engine e' c, Ok False))"
  using assms(1) entries_are_spans [OF assms(2), of column]
  by (simp add: filter_candidate_matches_def bind_step_def on_engine_def selects_def set_engine_def cu_engine_def)

text \<open>The cursor that may skip beside the engine that reads every record.\<close>

definition walks :: "format_options option \<Rightarrow> bytes \<Rightarrow> engine \<Rightarrow> line_cursor \<Rightarrow> bool" where
  "walks opts input a c \<longleftrightarrow>
     kin a (cu_engine c) \<and> steady opts input a \<and> steady opts input (cu_engine c) \<and>
     en_record_index (cu_engine c) = en_record_index a \<and> he_initialized (cu_headed c)"

definition only_engine :: "line_cursor \<Rightarrow> line_cursor \<Rightarrow> bool" where
  "only_engine c c' \<longleftrightarrow> cu_headed c' = (cu_headed c)\<lparr>he_engine := cu_engine c'\<rparr>"

lemma set_engine_parts [simp]:
  "cu_engine (set_engine e c) = e" "only_engine c (set_engine e c)" "only_engine c c"
  "he_initialized (cu_headed (set_engine e c)) = he_initialized (cu_headed c)"
  by (simp_all add: set_engine_def cu_engine_def only_engine_def)

lemma only_engine_trans: "only_engine a b \<Longrightarrow> only_engine b c \<Longrightarrow> only_engine a c"
  by (simp add: only_engine_def)

lemma drop_ConsD: "drop m xs = x # rest \<Longrightarrow> m < length xs \<and> xs ! m = x \<and> drop (Suc m) xs = rest"
  by (cases "m < length xs") (simp_all flip: Cons_nth_drop_Suc)

text \<open>A cursor at the end of the records left, or at the first of them.\<close>

definition reaches :: "format_options option \<Rightarrow> bytes \<Rightarrow> engine \<Rightarrow> parsed_record list \<Rightarrow> line_cursor \<Rightarrow> bool" where
  "reaches opts input a rs c \<longleftrightarrow>
     (if en_location (cu_engine c) = length input then rs = []
      else \<exists>x x' bounds i entries rest fuel.
        walks opts input x c \<and> build_of x = build_of a \<and> en_location x < length input \<and>
        parse_positioned_record opts input False x = (x', Ok (bounds, i)) \<and> record_entries input x' = Ok entries \<and>
        read_records opts input fuel x' = (rest, AllRead) \<and> rs = (bounds, entries) # rest)"

text \<open>A cursor on the matching record: parsed, counted, with the rest still to read.\<close>

definition stands_at :: "format_options option \<Rightarrow> bytes \<Rightarrow> engine \<Rightarrow> parsed_record list \<Rightarrow> nat \<Rightarrow> line_cursor \<Rightarrow> bool" where
  "stands_at opts input a rs k c \<longleftrightarrow>
     cu_start c = fst (fst (rs ! k)) \<and> cu_end c = snd (fst (rs ! k)) \<and> cu_index c = en_record_index a + k \<and>
     \<not> cu_staged_valid c \<and> record_entries input (cu_engine c) = Ok (snd (rs ! k)) \<and>
     cu_start c < cu_end c \<and> cu_end c = en_location (cu_engine c) \<and>
     (\<exists>x n. walks opts input x c \<and> build_of x = build_of a \<and> en_record_index x = en_record_index a + k + 1 \<and>
        read_records opts input n x = (drop (Suc k) rs, AllRead))"

lemma stands_later:
  assumes "stands_at opts input b rest k c" "drop j rs = rest" "j \<le> length rs" "k < length rest"
    "build_of b = build_of a" "en_record_index b = en_record_index a + j"
  shows "stands_at opts input a rs (j + k) c"
proof -
  have at: "rs ! (j + k) = rest ! k" "drop (Suc (j + k)) rs = drop (Suc k) rest"
    using assms(2,3,4) by (auto simp: add.commute)
  show ?thesis using assms(1) unfolding stands_at_def at assms(5,6) by (simp add: add.assoc)
qed

text \<open>
  What a loop must do before it parses a candidate: pass only records the predicate does not take, and
  say how many in the record number.
\<close>

locale filter_loop =
  fixes avx2 :: bool
    and opts :: "format_options option"
    and input :: bytes
    and p :: predicate
    and column :: nat
    and suits :: "engine \<Rightarrow> bool"
    and skip :: "'st \<Rightarrow> line_cursor \<Rightarrow> line_cursor \<times> 'st"
    and loop :: "nat \<Rightarrow> 'st \<Rightarrow> line_cursor \<Rightarrow> (line_cursor \<times> bool outcome) option"
  assumes loop_Suc: "loop (Suc fuel) st c =
      (case skip st c of (c1, st') \<Rightarrow>
         if en_location (cu_engine c1) = length input then Some (c1, Ok False)
         else case filter_candidate_matches avx2 opts input p column c1 of
                (c2, Ok True) \<Rightarrow> Some (c2, Ok True)
              | (c2, Ok False) \<Rightarrow> loop fuel st' c2
              | (c2, Err er) \<Rightarrow> Some (c2, Err er)
              | (c2, Panic) \<Rightarrow> Some (c2, Panic))"
    and suits_build: "suits a \<Longrightarrow> build_of a' = build_of a \<Longrightarrow> suits a'"
    and skip_passes: "walks opts input a c \<Longrightarrow> suits a \<Longrightarrow> read_records opts input n a = (rs, AllRead) \<Longrightarrow>
      \<exists>m c1 st'. skip st c = (c1, st') \<and> m \<le> length rs \<and> (\<forall>r \<in> set (take m rs). \<not> selects avx2 p column r) \<and>
        reaches opts input a (drop m rs) c1 \<and> en_record_index (cu_engine c1) = en_record_index a + m \<and> only_engine c c1"
begin

definition finds :: "engine \<Rightarrow> parsed_record list \<Rightarrow> line_cursor \<Rightarrow> (line_cursor \<times> bool outcome) option \<Rightarrow> bool" where
  "finds a rs c res \<longleftrightarrow>
     (\<exists>c'. only_engine c c' \<and>
        (res = Some (c', Ok False) \<and> (\<forall>r \<in> set rs. \<not> selects avx2 p column r) \<or>
         res = Some (c', Ok True) \<and>
           (\<exists>k < length rs. (\<forall>r \<in> set (take k rs). \<not> selects avx2 p column r) \<and> selects avx2 p column (rs ! k) \<and>
              stands_at opts input a rs k c')))"

lemma finds_later:
  assumes "finds b rest c1 res" "drop j rs = rest" "j \<le> length rs" "\<forall>r \<in> set (take j rs). \<not> selects avx2 p column r"
    "only_engine c c1" "build_of b = build_of a" "en_record_index b = en_record_index a + j"
  shows "finds a rs c res"
proof -
  obtain c' where c: "only_engine c c'" and found: "res = Some (c', Ok False) \<and> (\<forall>r \<in> set rest. \<not> selects avx2 p column r) \<or>
      res = Some (c', Ok True) \<and> (\<exists>k < length rest. (\<forall>r \<in> set (take k rest). \<not> selects avx2 p column r) \<and>
        selects avx2 p column (rest ! k) \<and> stands_at opts input b rest k c')"
    using assms(1,5) only_engine_trans unfolding finds_def by blast
  from found show ?thesis
  proof
    assume none: "res = Some (c', Ok False) \<and> (\<forall>r \<in> set rest. \<not> selects avx2 p column r)"
    have "set rs = set (take j rs) \<union> set rest" by (metis append_take_drop_id assms(2) set_append)
    then have "\<forall>r \<in> set rs. \<not> selects avx2 p column r" using assms(4) none by blast
    then show ?thesis using none c unfolding finds_def by blast
  next
    assume "res = Some (c', Ok True) \<and> (\<exists>k < length rest. (\<forall>r \<in> set (take k rest). \<not> selects avx2 p column r) \<and>
        selects avx2 p column (rest ! k) \<and> stands_at opts input b rest k c')"
    then obtain k where k: "res = Some (c', Ok True)" "k < length rest" "\<forall>r \<in> set (take k rest). \<not> selects avx2 p column r"
      "selects avx2 p column (rest ! k)" "stands_at opts input b rest k c'" by blast
    have at: "rs ! (j + k) = rest ! k" "j + k < length rs" using k(2) assms(2,3) by auto
    have "take (j + k) rs = take j rs @ take k rest" using assms(2) by (simp add: take_add)
    then have "\<forall>r \<in> set (take (j + k) rs). \<not> selects avx2 p column r" using assms(4) k(3) by auto
    moreover have "stands_at opts input a rs (j + k) c'" by (rule stands_later [OF k(5) assms(2,3) k(2) assms(6,7)])
    ultimately show ?thesis using k(1,4) at c unfolding finds_def by metis
  qed
qed

lemma loop_finds:
  "walks opts input a c \<Longrightarrow> suits a \<Longrightarrow> read_records opts input n a = (rs, AllRead) \<Longrightarrow> length rs < fuel \<Longrightarrow>
     finds a rs c (loop fuel st c)"
proof (induction fuel arbitrary: a c st n rs)
  case (Suc fuel)
  obtain m c1 st' where skip: "skip st c = (c1, st')" "m \<le> length rs" "\<forall>r \<in> set (take m rs). \<not> selects avx2 p column r"
      "reaches opts input a (drop m rs) c1" "en_record_index (cu_engine c1) = en_record_index a + m" "only_engine c c1"
    using skip_passes [OF Suc.prems(1-3)] by blast
  show ?case
  proof (cases "en_location (cu_engine c1) = length input")
    case True
    then have "rs = take m rs" using skip(2,4) by (simp add: reaches_def)
    then have "\<forall>r \<in> set rs. \<not> selects avx2 p column r" using skip(3) by simp
    moreover have "loop (Suc fuel) st c = Some (c1, Ok False)" using True skip(1) by (simp add: loop_Suc)
    ultimately show ?thesis using skip(6) unfolding finds_def by blast
  next
    case False
    then obtain x x' origin until i entries rest n' where x: "walks opts input x c1" "build_of x = build_of a"
        "en_location x < length input" "parse_positioned_record opts input False x = (x', Ok ((origin, until), i))"
        "record_entries input x' = Ok entries" "read_records opts input n' x' = (rest, AllRead)"
        "drop m rs = ((origin, until), entries) # rest"
      using skip(4) unfolding reaches_def by auto
    let ?b = "cu_engine c1"
    have w: "kin x ?b" "steady opts input x" "steady opts input ?b" "en_record_index ?b = en_record_index x" "he_initialized (cu_headed c1)"
      using x(1) by (simp_all add: walks_def)
    obtain b' j where b: "parse_positioned_record opts input False ?b = (b', Ok ((origin, until), j))" "kin x' b'"
        "steady opts input x'" "steady opts input b'" "record_entries input b' = record_entries input x'"
      by (rule read_both [OF w(1-3) x(3,4)])
    have lt: "en_location ?b < length input" using kin_fields(1) [OF w(1)] x(3) by simp
    note qx = parsed_steady [OF w(2) x(3,4)] and qb = parsed_steady [OF w(3) lt b(1)]
    have entries: "record_entries input b' = Ok entries" using b(5) x(5) by simp
    note decided = candidate_decided [OF b(1) entries, of avx2 p column]
    have "config_of (x'\<lparr>en_record_index := 0\<rparr>) = config_of (x\<lparr>en_record_index := 0\<rparr>)"
      using parse_positioned_result [of x opts input False] w(2) x(3,4) unfolding qx(1) by (simp add: steady_def)
    then have build: "build_of x' = build_of a" using build_of_config x(2) by metis
    have nth: "m < length rs" "rs ! m = ((origin, until), entries)" "drop (Suc m) rs = rest"
      using drop_ConsD [OF x(7)] by simp_all
    have index: "j = en_record_index a + m" using qb(1) skip(5) by simp
    show ?thesis
    proof (cases "selects avx2 p column (rs ! m)")
      case True
      let ?c = "(set_engine b' c1)\<lparr>cu_start := origin, cu_index := j, cu_end := until, cu_staged_valid := False\<rparr>"
      have "only_engine c1 ?c" by (simp add: set_engine_def cu_engine_def only_engine_def)
      then have "cu_engine ?c = b'" "he_initialized (cu_headed ?c)" "only_engine c ?c"
        using w(5) only_engine_trans [OF skip(6)] by (simp_all add: set_engine_def cu_engine_def)
      moreover have "walks opts input x' ?c"
        using b(2-4) qb(4) qx(4) w(4) calculation by (simp add: walks_def)
      moreover have "loop (Suc fuel) st c = Some (?c, Ok True)"
        using False skip(1) decided True nth(2) by (simp add: loop_Suc)
      moreover have "stands_at opts input a rs m ?c"
        unfolding stands_at_def nth(2,3)
        using calculation(1,4) entries build x(6) index qb(1,2) qx(4) w(4) skip(5)
        by (auto intro!: exI [of _ x'] exI [of _ n'])
      ultimately show ?thesis using True nth(1) skip(3) unfolding finds_def by metis
    next
      case no: False
      let ?c = "set_engine b' c1"
      have step: "loop (Suc fuel) st c = loop fuel st' ?c"
        using False skip(1) decided no nth(2) by (simp add: loop_Suc)
      have walk: "walks opts input x' ?c" using b(2-4) qb(4) qx(4) w(4,5) by (simp add: walks_def)
      have "length rest < fuel" using Suc.prems(4) nth(1,3) by auto
      then have IH: "finds x' rest ?c (loop fuel st' ?c)"
        using Suc.IH [OF walk suits_build [OF Suc.prems(2) build] x(6)] by blast
      have none: "\<forall>r \<in> set (take (Suc m) rs). \<not> selects avx2 p column r"
        using skip(3) no nth(1) by (simp add: take_Suc_conv_app_nth)
      have "en_record_index x' = en_record_index a + Suc m" using qx(4) w(4) skip(5) by simp
      moreover have "only_engine c ?c" by (rule only_engine_trans [OF skip(6)]) simp
      ultimately show ?thesis
        using finds_later [OF IH nth(3) _ none _ build] nth(1) unfolding step by simp
    qed
  qed
qed simp

end

section \<open>The two loops\<close>


lemma reaches_next:
  assumes "walks opts input a c" "read_records opts input n a = (rs, AllRead)" "cu_engine c1 = position_engine input (cu_engine c)"
    "he_initialized (cu_headed c1)"
  shows "reaches opts input a rs c1" "en_record_index (cu_engine c1) = en_record_index a"
proof -
  have w: "kin a (cu_engine c)" "steady opts input a" "steady opts input (cu_engine c)" "en_record_index (cu_engine c) = en_record_index a"
    using assms(1) by (simp_all add: walks_def)
  note k = position_kin [OF w(1-3)]
  note pa = position_steady [OF w(2)] and pb = position_steady [OF w(3)]
  show "en_record_index (cu_engine c1) = en_record_index a" using pb(4) w(4) assms(3) by simp
  obtain n' where n: "n = Suc n'" using assms(2) by (cases n) auto
  show "reaches opts input a rs c1"
  proof (cases rule: read_records_step [OF w(2) assms(2) [unfolded n]])
    case 1
    then show ?thesis using kin_fields(1) [OF k] assms(3) by (simp add: reaches_def)
  next
    case (2 a' bounds i entries rest)
    have "en_location (cu_engine c1) \<noteq> length input" using 2(1) kin_fields(1) [OF k] assms(3) by simp
    moreover have "walks opts input (position_engine input a) c1"
      using k 2(2) pb(2) pa(4) pb(4) w(4) assms(3,4) calculation by (simp add: walks_def)
    ultimately show ?thesis using 2 build_of_position(1) [OF w(2)] unfolding reaches_def by (simp only: if_False) blast
  qed
qed



text \<open>What the literal loop needs of its engine and its predicate.\<close>

definition may_skip :: "bytes \<Rightarrow> predicate \<Rightarrow> engine \<Rightarrow> bool" where
  "may_skip input p e \<longleftrightarrow> counts_lines e \<and> \<not> en_skips_records e \<and> pr_literal p \<noteq> [] \<and> roomy input e"

lemma within_not_selected:
  assumes "entries_within input lo hi (snd r)" "\<And>a b. lo \<le> a \<Longrightarrow> b \<le> hi \<Longrightarrow> \<not> matches_field avx2 p (Some (slice input a b))"
  shows "\<not> selects avx2 p column r"
proof (cases "get_at (snd r) column")
  case (Some x)
  then obtain bs null where "x = (bs, null)" "(bs, null) \<in> set (snd r)" by (cases x) (auto simp: get_at_Some_iff dest: nth_mem)
  then show ?thesis using assms Some by (fastforce simp: entries_within_def selects_def)
qed (simp add: selects_def matches_field_def)

lemma steady_forward:
  assumes "steady opts input e" "en_location e \<le> n" "n \<le> length input"
  shows "steady opts input (e\<lparr>en_location := n, en_record_index := i\<rparr>)"
  using assms
  by (cases opts) (auto simp: steady_def engine_wf_def format_matches_def roomy_def checkpoint_sane_def behind_def)

lemma seek_passes:
  assumes "walks opts input a c" "may_skip input p a" "read_records opts input n a = (rs, AllRead)"
    "seek_candidate avx2 input (pr_literal p) (cu_engine c) = (e, hit, skipped)"
  shows "\<exists>m a'. m \<le> length rs \<and> (\<forall>r \<in> set (take m rs). \<not> selects avx2 p column r) \<and> kin a' e \<and> steady opts input a' \<and>
    steady opts input e \<and> en_record_index e = en_record_index a' \<and> en_record_index a' = en_record_index a + m \<and>
    build_of a' = build_of a \<and> read_records opts input (n - m) a' = (drop m rs, AllRead)"
proof -
  let ?b = "cu_engine c"
  have w: "kin a ?b" "steady opts input a" "steady opts input ?b" "en_record_index ?b = en_record_index a"
    using assms(1) by (simp_all add: walks_def)
  note k = kin_fields [OF w(1)]
  let ?from = "en_location a" and ?x = "ending_byte (record_ending (en_dialect a))"
  define found where "found = find_literal avx2 (pr_literal p) (drop ?from input)"
  define hi where "hi = (case found of None \<Rightarrow> length input | Some at \<Rightarrow> ?from + at)"
  have inside: "?from \<le> length input" using w(2) by (simp add: steady_def)
  have "hi \<le> length input \<and> ?from \<le> hi"
    using find_literal_occurs [of "pr_literal p" "drop ?from input" avx2] inside
    by (cases found) (auto simp: hi_def found_def first_occurrence_def occurs_def)
  then have hi: "hi \<le> length input" "?from \<le> hi" by blast+
  have lit: "pr_literal p \<noteq> []" "counts_lines a \<and> roomy input a" "\<not> en_skips_records a" using assms(2) by (simp_all add: may_skip_def)
  show ?thesis
  proof (cases "quote (en_dialect a) \<in> set (slice input ?from hi)")
    case True
    then have "e = ?b" using assms(4) k by (simp add: seek_candidate_def scan_skipped_eq found_def hi_def Let_def)
    then show ?thesis using w assms(3) by (intro exI [of _ 0] exI [of _ a]) simp
  next
    case False
    let ?m = "count1_scalar ?x (slice input ?from hi)"
    obtain a' where a': "en_location a' = last_line_end ?x input ?from hi" "steady opts input a'" "build_of a' = build_of a"
      "count_kept a a'" "en_record_index a' = en_record_index a + ?m" "?m \<le> length rs"
      "read_records opts input (n - ?m) a' = (drop ?m rs, AllRead)"
      "\<forall>r \<in> set (take ?m rs). entries_within input ?from hi (snd r)"
      using lines_passed [OF w(2) lit(2,3) assms(3) hi(2,1) False refl refl] by blast
    have e: "e = ?b\<lparr>en_location := en_location a', en_record_index := en_record_index ?b + ?m\<rparr>"
      using assms(4) k False a'(1) by (auto simp: seek_candidate_def scan_skipped_eq found_def hi_def last_line_end_def Let_def)
    have forward: "?from \<le> en_location a'" "en_location a' \<le> length input"
      using a'(1,2) by (auto simp: last_line_end_def steady_def split: option.splits)
    have se: "steady opts input e" unfolding e using forward w(3) k(1) by (intro steady_forward) simp_all
    have kin: "kin a' e"
    proof -
      have "build_of e = build_of ?b" unfolding e by (simp add: build_of_def essence_def)
      moreover have "build_of a = build_of ?b" "en_expected ?b = en_expected a \<or> en_expected ?b = None"
        using w(1) by (simp_all add: kin_iff)
      ultimately show ?thesis
        using a'(3,4) fresh_checkpoint [OF a'(2)] fresh_checkpoint [OF se] unfolding kin_iff
        by (auto simp: e count_kept_def)
    qed
    have "\<not> matches_field avx2 p (Some (slice input x y))" if "?from \<le> x" "y \<le> hi" for x y
      using nothing_before_hit [OF found_def [symmetric] lit(1) inside that(1)] that(2) hi(1) by (simp add: hi_def)
    then have "\<forall>r \<in> set (take ?m rs). \<not> selects avx2 p column r" using within_not_selected a'(8) by blast
    moreover have "en_record_index e = en_record_index a'" using e a'(5) w(4) by simp
    ultimately show ?thesis using kin se a'(2,3,5,6,7) by (intro exI [of _ ?m] exI [of _ a']) simp
  qed
qed

lemma stays_positioned: "\<not> en_skips_records e \<Longrightarrow> position_engine input e = e"
  by (simp add: position_engine_def)

lemma skip_toward_passes:
  assumes "walks opts input a c" "may_skip input p a" "read_records opts input n a = (rs, AllRead)"
    "skip_toward_literal avx2 input (pr_literal p) st c = (c1, st')"
  shows "\<exists>m. m \<le> length rs \<and> (\<forall>r \<in> set (take m rs). \<not> selects avx2 p column r) \<and> reaches opts input a (drop m rs) c1 \<and>
    en_record_index (cu_engine c1) = en_record_index a + m \<and> only_engine c c1"
proof -
  have w: "kin a (cu_engine c)" "he_initialized (cu_headed c)" using assms(1) by (simp_all add: walks_def)
  have b: "build_of (cu_engine c) = build_of a" using w(1) by (simp add: kin_iff)
  have still: "\<not> en_skips_records (cu_engine c)" using assms(2) build_of_fields(8) [OF b] by (simp add: may_skip_def)
  have sets: "cu_engine (d\<lparr>cu_backoff := k\<rparr>) = cu_engine d" "cu_headed (d\<lparr>cu_backoff := k\<rparr>) = cu_headed d"
      "only_engine c (d\<lparr>cu_backoff := k\<rparr>) = only_engine c d" for d k
    by (simp_all add: cu_engine_def only_engine_def)
  obtain e hit skipped where s: "seek_candidate avx2 input (pr_literal p) (cu_engine c) = (e, hit, skipped)" by (cases rule: prod_cases3)
  consider (stay) "cu_engine c1 = cu_engine c" "only_engine c c1" "he_initialized (cu_headed c1)"
    | (seek) "cu_engine c1 = e" "only_engine c c1" "he_initialized (cu_headed c1)"
  proof (cases "c1 = c \<or> c1 = c\<lparr>cu_backoff := cu_backoff c - 1\<rparr>")
    case True
    then show thesis using that(1) w(2) sets by auto
  next
    case False
    then have "c1 = (set_engine e c)\<lparr>cu_backoff := (if skipped then 0 else FILTER_BACKOFF)\<rparr>"
      using assms(4) w(2) s by (auto simp: skip_toward_literal_def split: if_splits)
    then show thesis using that(2) w(2) sets by simp
  qed
  then show ?thesis
  proof cases
    case stay
    have "cu_engine c1 = position_engine input (cu_engine c)" using stay(1) stays_positioned [OF still] by simp
    then show ?thesis using reaches_next [OF assms(1,3) _ stay(3)] stay(2) by (intro exI [of _ 0]) simp
  next
    case seek
    obtain m a' where m: "m \<le> length rs" "\<forall>r \<in> set (take m rs). \<not> selects avx2 p column r" "kin a' e" "steady opts input a'"
      "steady opts input e" "en_record_index e = en_record_index a'" "en_record_index a' = en_record_index a + m"
      "build_of a' = build_of a" "read_records opts input (n - m) a' = (drop m rs, AllRead)"
      using seek_passes [OF assms(1-3) s] by blast
    have walk: "walks opts input a' c1" using m seek(1,3) by (simp add: walks_def)
    have "\<not> en_skips_records e" using still b m(3,8) build_of_fields(8) by (metis kin_iff)
    then have "cu_engine c1 = position_engine input (cu_engine c1)" using seek(1) stays_positioned by simp
    then have r: "reaches opts input a' (drop m rs) c1" "en_record_index (cu_engine c1) = en_record_index a'"
      using reaches_next [OF walk m(9) _ seek(3)] by blast+
    have "reaches opts input a (drop m rs) c1" using r(1) m(8) unfolding reaches_def by auto
    then show ?thesis using m(1,2,7) r(2) seek(2) by auto
  qed
qed

interpretation literal: filter_loop avx2 opts input p column "may_skip input p" "skip_toward_literal avx2 input (pr_literal p)"
  "literal_filter_loop avx2 opts input p column (pr_literal p)"
proof
  fix a a' c n rs and st :: "nat option"
  show "may_skip input p a \<Longrightarrow> build_of a' = build_of a \<Longrightarrow> may_skip input p a'"
    using build_of_suits(2) [of a' a] build_of_fields(8) [of a' a] build_of_roomy [of a' a] by (simp add: may_skip_def)
  assume w: "walks opts input a c" and d: "may_skip input p a" and r: "read_records opts input n a = (rs, AllRead)"
  obtain c1 st' where skip: "skip_toward_literal avx2 input (pr_literal p) st c = (c1, st')" by fastforce
  show "\<exists>m c1 st'. skip_toward_literal avx2 input (pr_literal p) st c = (c1, st') \<and> m \<le> length rs \<and>
      (\<forall>r \<in> set (take m rs). \<not> selects avx2 p column r) \<and>
      reaches opts input a (drop m rs) c1 \<and> en_record_index (cu_engine c1) = en_record_index a + m \<and> only_engine c c1"
    using skip_toward_passes [OF w d r skip, of column] skip by blast
qed simp

section \<open>Reading through a filter\<close>














section \<open>Theorems\<close>




text \<open>
  C36: The byte set of a predicate is exact: it answers a byte if and only if the byte occurs in the
  literal, so \<open>is_skippable\<close> takes a literal exactly when it is not empty and holds none of the given
  structural bytes, no carriage return and no line feed. A filter gets a literal to search for in the raw
  input exactly when, besides, the dialect has no comments, keeps blank lines, escapes by doubling the
  quote, ends records by a single byte and has no longer separators; the literal is then the predicate's.
\<close>

theorem skippable_iff:
  "(is_skippable (predicate_new column kind literal) structural \<longleftrightarrow>
      literal \<noteq> [] \<and> set literal \<inter> (set structural \<union> {CR, LF}) = {}) \<and>
   (skip_literal d blanks (predicate_new column kind literal) = Some found \<longleftrightarrow>
      found = literal \<and> literal \<noteq> [] \<and>
      set literal \<inter> {delimiter d, quote d, ending_byte (record_ending d), CR, LF} = {} \<and>
      comment d = None \<and> blanks \<noteq> BlankSkip \<and> escape d = DoubleQuote \<and> record_ending d \<noteq> CrLf \<and> \<not> multibyte d)"
proof -
  have skippable: "is_skippable (predicate_new column kind literal) bs \<longleftrightarrow>
      literal \<noteq> [] \<and> set literal \<inter> (set bs \<union> {CR, LF}) = {}" for bs
    by (auto simp: is_skippable_def predicate_new_def byte_set_of_literal list_ex_iff)
  have "pr_literal (predicate_new column kind literal) = literal" by (simp add: predicate_new_def)
  then show ?thesis by (auto simp: skip_literal_def skippable)
qed

end
