(* ===== verification/RecordStorage.thy ===== *)
theory RecordStorage
  imports Spans
begin

text \<open>
  The storage of an owned record (\<open>coseva_unsafe/src/storage/record_storage.rs\<close>): the bytes of all
  fields in one buffer and, for each field, its packed end, whose top bit marks NULL. Bytes that were
  appended after the last end belong to a field that is still open. Buffer capacities are not part of
  the model, as no operation's answer depends on them. The theorems: every operation does to the
  packed storage what it does to a list of optional fields, and the two in-place passes, NULL marking
  and trimming, do to it what they do to the list.
\<close>

section \<open>Packed ends\<close>

definition NULL_END_FLAG :: "64 word" where "NULL_END_FLAG = push_bit 63 1"
definition MAX_FIELD_OFFSET :: nat where "MAX_FIELD_OFFSET = unat (NULL_END_FLAG - 1)"

definition end_offset :: "64 word \<Rightarrow> nat" where "end_offset raw = unat (raw AND NOT NULL_END_FLAG)"
definition end_is_null :: "64 word \<Rightarrow> bool" where "end_is_null raw \<longleftrightarrow> raw AND NULL_END_FLAG \<noteq> 0"

definition encode_end :: "nat \<Rightarrow> bool \<Rightarrow> 64 word" where
  "encode_end offset is_null = (if is_null then of_nat offset OR NULL_END_FLAG else of_nat offset)"

definition assert_offset_bounded :: "nat \<Rightarrow> nat \<Rightarrow> unit outcome" where
  "assert_offset_bounded offset max_offset = assert_that (offset \<le> max_offset)"

definition encode_end_bounded :: "nat \<Rightarrow> bool \<Rightarrow> nat \<Rightarrow> 64 word outcome" where
  "encode_end_bounded offset is_null max_offset =
     bind_outcome (assert_offset_bounded offset max_offset) (\<lambda>_.
       Ok (if is_null then of_nat offset OR NULL_END_FLAG else of_nat offset))"

section \<open>State\<close>

datatype text_validity = TextAscii | TextUnknown

record record_storage =
  fr_bytes :: bytes
  fr_ends :: "64 word list"
  fr_null_aware :: bool
  fr_byte_range :: "nat \<times> nat"
  fr_index :: nat
  fr_validity :: text_validity

definition record_new :: record_storage where
  "record_new = \<lparr>fr_bytes = [], fr_ends = [], fr_null_aware = False, fr_byte_range = (0, 0), fr_index = 0,
     fr_validity = TextUnknown\<rparr>"

definition record_len :: "record_storage \<Rightarrow> nat" where "record_len st = length (fr_ends st)"

definition reset_text_validity :: "record_storage \<Rightarrow> record_storage" where
  "reset_text_validity st = st\<lparr>fr_validity := TextUnknown\<rparr>"

definition certify_ascii :: "record_storage \<Rightarrow> record_storage" where
  "certify_ascii st = st\<lparr>fr_validity := TextAscii\<rparr>"

definition set_null_aware :: "bool \<Rightarrow> record_storage \<Rightarrow> record_storage" where
  "set_null_aware b st = st\<lparr>fr_null_aware := b\<rparr>"

definition record_set_location :: "nat \<times> nat \<Rightarrow> nat \<Rightarrow> record_storage \<Rightarrow> record_storage" where
  "record_set_location extent index st = st\<lparr>fr_byte_range := extent, fr_index := index\<rparr>"

definition invalidate_source_metadata :: "record_storage \<Rightarrow> record_storage" where
  "invalidate_source_metadata st = st\<lparr>fr_byte_range := (0, 0), fr_index := 0\<rparr>"

definition clear_fields :: "record_storage \<Rightarrow> record_storage" where
  "clear_fields st = st\<lparr>fr_bytes := [], fr_ends := [], fr_null_aware := False\<rparr>"

definition record_clear :: "record_storage \<Rightarrow> record_storage" where
  "record_clear st = invalidate_source_metadata (clear_fields st)"

text \<open>Where the field at an index begins: the end before it.\<close>

definition start_offset :: "64 word list \<Rightarrow> nat \<Rightarrow> nat" where
  "start_offset ends index = (if index = 0 then 0 else end_offset (ends ! (index - 1)))"

section \<open>Reading\<close>

text \<open>The inner option is \<open>None\<close> where \<open>get_unchecked\<close> would leave the buffer.\<close>

definition record_get :: "nat \<Rightarrow> record_storage \<Rightarrow> bytes option option" where
  "record_get index st =
     map_option (\<lambda>e. get_range (fr_bytes st) (start_offset (fr_ends st) index) (end_offset e)) (get_at (fr_ends st) index)"

definition record_range :: "nat \<Rightarrow> record_storage \<Rightarrow> (nat \<times> nat) option" where
  "record_range index st =
     map_option (\<lambda>e. (start_offset (fr_ends st) index, end_offset e)) (get_at (fr_ends st) index)"

definition record_is_null :: "nat \<Rightarrow> record_storage \<Rightarrow> bool option" where
  "record_is_null index st = map_option end_is_null (get_at (fr_ends st) index)"

section \<open>Growing\<close>

definition record_push_field :: "bytes \<Rightarrow> nat \<Rightarrow> record_storage \<Rightarrow> record_storage outcome" where
  "record_push_field field max_offset st =
     bind_outcome (assert_that (length (fr_bytes st) + length field \<le> usize_max)) (\<lambda>_.
       bind_outcome (encode_end_bounded (length (fr_bytes st) + length field) False max_offset) (\<lambda>e.
         Ok (st\<lparr>fr_bytes := fr_bytes st @ field, fr_ends := fr_ends st @ [e]\<rparr>)))"

definition record_push_null :: "nat \<Rightarrow> record_storage \<Rightarrow> record_storage outcome" where
  "record_push_null max_offset st =
     bind_outcome (encode_end_bounded (length (fr_bytes st)) True max_offset) (\<lambda>e.
       Ok (st\<lparr>fr_null_aware := True, fr_ends := fr_ends st @ [e]\<rparr>))"

definition extend_bytes :: "bytes \<Rightarrow> record_storage \<Rightarrow> record_storage" where
  "extend_bytes bs st = st\<lparr>fr_bytes := fr_bytes st @ bs\<rparr>"

definition record_push_byte :: "byte \<Rightarrow> record_storage \<Rightarrow> record_storage" where
  "record_push_byte b st = st\<lparr>fr_bytes := fr_bytes st @ [b]\<rparr>"

definition finish_field :: "record_storage \<Rightarrow> record_storage" where
  "finish_field st = st\<lparr>fr_ends := fr_ends st @ [encode_end (length (fr_bytes st)) False]\<rparr>"

definition append_field :: "bytes \<Rightarrow> record_storage \<Rightarrow> record_storage" where
  "append_field field st =
     (let bs = fr_bytes st @ field
      in st\<lparr>fr_bytes := bs, fr_ends := fr_ends st @ [encode_end (length bs) False]\<rparr>)"

definition append_empty_fields :: "nat \<Rightarrow> record_storage \<Rightarrow> record_storage" where
  "append_empty_fields count st =
     st\<lparr>fr_ends := fr_ends st @ replicate count (encode_end (length (fr_bytes st)) False)\<rparr>"

definition append_null_field :: "record_storage \<Rightarrow> record_storage" where
  "append_null_field st =
     st\<lparr>fr_null_aware := True, fr_ends := fr_ends st @ [encode_end (length (fr_bytes st)) True]\<rparr>"

section \<open>Replacing and dropping\<close>

definition truncate_storage :: "nat \<Rightarrow> nat \<Rightarrow> record_storage \<Rightarrow> record_storage outcome" where
  "truncate_storage field_count byte_count st =
     bind_outcome (assert_that (field_count \<le> length (fr_ends st))) (\<lambda>_.
       bind_outcome (assert_that (byte_count \<le> length (fr_bytes st))) (\<lambda>_.
         bind_outcome (assert_that (start_offset (fr_ends st) field_count \<le> byte_count)) (\<lambda>_.
           Ok (st\<lparr>fr_ends := take field_count (fr_ends st), fr_bytes := take byte_count (fr_bytes st)\<rparr>))))"

definition record_truncate :: "nat \<Rightarrow> record_storage \<Rightarrow> record_storage" where
  "record_truncate len st =
     (if length (fr_ends st) < len then st
      else st\<lparr>fr_ends := take len (fr_ends st), fr_bytes := take (start_offset (fr_ends st) len) (fr_bytes st)\<rparr>)"

text \<open>One end moved by the change in length; \<open>checked_add_signed\<close> panics outside \<open>usize\<close>.\<close>

definition shift_end :: "int \<Rightarrow> 64 word \<Rightarrow> 64 word outcome" where
  "shift_end delta e =
     (let offset = int (end_offset e) + delta
      in bind_outcome (assert_that (0 \<le> offset \<and> offset \<le> int usize_max)) (\<lambda>_.
           Ok (encode_end (nat offset) (end_is_null e))))"

definition record_set_field :: "nat \<Rightarrow> bytes \<Rightarrow> nat \<Rightarrow> record_storage \<Rightarrow> (record_storage \<times> bool) outcome" where
  "record_set_field index field max_offset st =
     (case get_at (fr_ends st) index of
        None \<Rightarrow> Ok (st, False)
      | Some end_raw \<Rightarrow>
          let until = end_offset end_raw; from = start_offset (fr_ends st) index; old_len = until - from
          in bind_outcome (assert_that (from \<le> until \<and> until \<le> length (fr_bytes st))) (\<lambda>_.
               let new_total = length (fr_bytes st) - old_len + length field
               in bind_outcome (assert_that (new_total \<le> usize_max)) (\<lambda>_.
                    bind_outcome (assert_offset_bounded new_total max_offset) (\<lambda>_.
                      map_ok (\<lambda>later.
                        let ends = take index (fr_ends st) @ later
                        in (st\<lparr>fr_bytes := take from (fr_bytes st) @ field @ drop until (fr_bytes st),
                              fr_ends := ends[index := encode_end (end_offset (ends ! index)) False]\<rparr>, True))
                        (map_outcome (shift_end (int (length field) - int old_len)) (drop index (fr_ends st)))))))"

definition try_set_field_equal :: "nat \<Rightarrow> bytes \<Rightarrow> record_storage \<Rightarrow> (record_storage \<times> bool option) outcome" where
  "try_set_field_equal index field st =
     (case get_at (fr_ends st) index of
        None \<Rightarrow> Ok (st, None)
      | Some end_raw \<Rightarrow>
          let until = end_offset end_raw; from = start_offset (fr_ends st) index
          in if length field \<noteq> until - from then Ok (st, Some False)
             else bind_outcome (assert_that (from \<le> until \<and> until \<le> length (fr_bytes st))) (\<lambda>_.
               Ok (st\<lparr>fr_bytes := take from (fr_bytes st) @ field @ drop until (fr_bytes st),
                     fr_ends := (fr_ends st)[index := of_nat until]\<rparr>, Some True)))"

definition record_set_null :: "nat \<Rightarrow> nat \<Rightarrow> record_storage \<Rightarrow> (record_storage \<times> bool) outcome" where
  "record_set_null index max_offset st =
     bind_outcome (record_set_field index [] max_offset st) (\<lambda>(st', found).
       if \<not> found then Ok (st', False)
       else Ok (st'\<lparr>fr_ends := (fr_ends st')[index := encode_end (end_offset (fr_ends st' ! index)) True],
              fr_null_aware := True\<rparr>, True))"

section \<open>Passes in place\<close>

text \<open>\<open>copy_within\<close> on a byte buffer.\<close>

definition copy_within :: "nat \<Rightarrow> nat \<Rightarrow> nat \<Rightarrow> bytes \<Rightarrow> bytes" where
  "copy_within from until dest bs = take dest bs @ slice bs from until @ drop (dest + (until - from)) bs"

text \<open>
  The loop of \<open>mark_null_fields\<close> over the ends still to rewrite: the bytes, the rewritten ends, where
  the next field goes and whether a NULL was found.
\<close>

fun mark_fields_loop ::
    "(bytes \<Rightarrow> bool) \<Rightarrow> bytes \<Rightarrow> nat \<Rightarrow> nat \<Rightarrow> bool \<Rightarrow> 64 word list \<Rightarrow> (bytes \<times> 64 word list \<times> nat \<times> bool) outcome" where
  "mark_fields_loop is_null bs source_start destination aware [] = Ok (bs, [], destination, aware)"
| "mark_fields_loop is_null bs source_start destination aware (e # rest) =
     (let source_end = unat e
      in case get_range bs source_start source_end of
           None \<Rightarrow> Panic
         | Some field \<Rightarrow>
             if is_null field then
               map_ok (\<lambda>(bs', ends, d, a). (bs', encode_end destination True # ends, d, a))
                 (mark_fields_loop is_null bs source_end destination True rest)
             else
               let d' = destination + (source_end - source_start)
               in map_ok (\<lambda>(bs', ends, d, a). (bs', encode_end d' False # ends, d, a))
                    (mark_fields_loop is_null (copy_within source_start source_end destination bs) source_end d' aware rest))"

definition mark_null_fields :: "(bytes \<Rightarrow> bool) \<Rightarrow> record_storage \<Rightarrow> record_storage outcome" where
  "mark_null_fields is_null st =
     map_ok (\<lambda>(bs, ends, destination, aware).
         st\<lparr>fr_bytes := take destination bs, fr_ends := ends, fr_null_aware := aware\<rparr>)
       (mark_fields_loop is_null (fr_bytes st) 0 0 (fr_null_aware st) (fr_ends st))"

fun trim_fields_loop ::
    "bytes \<Rightarrow> nat \<Rightarrow> nat \<Rightarrow> 64 word list \<Rightarrow> (bytes \<times> 64 word list \<times> nat) outcome" where
  "trim_fields_loop bs source_start destination [] = Ok (bs, [], destination)"
| "trim_fields_loop bs source_start destination (raw_end # rest) =
     (let source_end = end_offset raw_end
      in if end_is_null raw_end then
           map_ok (\<lambda>(bs', ends, d). (bs', encode_end destination True # ends, d))
             (trim_fields_loop bs source_start destination rest)
         else
           bind_outcome (trim_front bs source_start source_end) (\<lambda>from.
             bind_outcome (trim_back bs from source_end) (\<lambda>until.
               let d' = destination + (until - from)
               in map_ok (\<lambda>(bs', ends, d). (bs', encode_end d' False # ends, d))
                    (trim_fields_loop (copy_within from until destination bs) source_end d' rest))))"

definition trim_fields_ascii :: "record_storage \<Rightarrow> record_storage outcome" where
  "trim_fields_ascii st =
     map_ok (\<lambda>(bs, ends, destination). st\<lparr>fr_bytes := take destination bs, fr_ends := ends\<rparr>)
       (trim_fields_loop (fr_bytes st) 0 0 (fr_ends st))"

section \<open>What an end packs\<close>

lemma max_field_offset_value: "MAX_FIELD_OFFSET = 2 ^ 63 - 1"
  by (simp add: MAX_FIELD_OFFSET_def NULL_END_FLAG_def)

lemma null_end_flag_bits: "bit NULL_END_FLAG k \<longleftrightarrow> k = 63"
  unfolding NULL_END_FLAG_def by (subst bit_push_bit_iff) (auto simp: bit_1_iff)

lemma offset_top_bit: "n \<le> MAX_FIELD_OFFSET \<Longrightarrow> \<not> bit n 63"
  by (simp add: bit_iff_odd max_field_offset_value)

lemma unat_end_offset: "n \<le> MAX_FIELD_OFFSET \<Longrightarrow> unat (of_nat n :: 64 word) = n"
  by (simp add: max_field_offset_value unat_of_nat)

lemma end_of_encode:
  assumes "n \<le> MAX_FIELD_OFFSET"
  shows "end_offset (encode_end n b) = n" "end_is_null (encode_end n b) \<longleftrightarrow> b"
    "unat (encode_end n False) = n"
proof -
  have "(if b then of_nat n OR NULL_END_FLAG else of_nat n) AND NOT NULL_END_FLAG = (of_nat n :: 64 word)"
    using offset_top_bit [OF assms] by (auto intro!: bit_word_eqI simp: bit_simps null_end_flag_bits)
  then show "end_offset (encode_end n b) = n"
    unfolding end_offset_def encode_end_def by (simp only: unat_end_offset [OF assms])
  show "unat (encode_end n False) = n" using unat_end_offset [OF assms] by (simp add: encode_end_def)
  have "of_nat n AND NULL_END_FLAG = 0"
    using offset_top_bit [OF assms] by (auto intro!: bit_word_eqI simp: bit_simps null_end_flag_bits)
  moreover have "(of_nat n OR NULL_END_FLAG) AND NULL_END_FLAG = NULL_END_FLAG" "NULL_END_FLAG \<noteq> 0"
    by (auto intro: bit_word_eqI simp: bit_simps NULL_END_FLAG_def)
  ultimately show "end_is_null (encode_end n b) \<longleftrightarrow> b" by (auto simp: end_is_null_def encode_end_def)
qed

lemma encode_end_bounded_iff:
  "encode_end_bounded n b m = (if n \<le> m then Ok (encode_end n b) else Panic)"
  by (simp add: encode_end_bounded_def assert_offset_bounded_def encode_end_def)

section \<open>The fields a storage holds\<close>

text \<open>
  A record is a list of optional fields, \<open>None\<close> a NULL. \<open>body\<close> is what a field occupies in the buffer,
  and \<open>pack\<close> gives the ends of a list of fields whose first begins at an offset.
\<close>

type_synonym field_list = "bytes option list"

definition body :: "bytes option \<Rightarrow> bytes" where "body f = (case f of None \<Rightarrow> [] | Some bs \<Rightarrow> bs)"
definition flat :: "field_list \<Rightarrow> bytes" where "flat fs = concat (map body fs)"

fun pack :: "nat \<Rightarrow> field_list \<Rightarrow> 64 word list" where
  "pack at [] = []"
| "pack at (f # fs) = encode_end (at + length (body f)) (f = None) # pack (at + length (body f)) fs"

definition represents :: "record_storage \<Rightarrow> field_list \<Rightarrow> bytes \<Rightarrow> bool" where
  "represents st fs tail \<longleftrightarrow> fr_bytes st = flat fs @ tail \<and> fr_ends st = pack 0 fs \<and>
     length (flat fs) + length tail \<le> MAX_FIELD_OFFSET"

lemma body_simps [simp]: "body None = []" "body (Some bs) = bs"
  by (simp_all add: body_def)

lemma flat_simps [simp]: "flat [] = []" "flat (f # fs) = body f @ flat fs" "flat (fs @ gs) = flat fs @ flat gs"
  by (simp_all add: flat_def)

lemma length_pack [simp]: "length (pack at fs) = length fs"
  by (induction fs arbitrary: at) auto

lemma pack_append [simp]: "pack at (fs @ gs) = pack at fs @ pack (at + length (flat fs)) gs"
  by (induction fs arbitrary: at) (auto simp: add.assoc)

lemma take_pack: "take n (pack at fs) = pack at (take n fs)"
  by (induction fs arbitrary: at n) (auto simp: take_Cons split: nat.splits)

lemma drop_pack: "drop n (pack at fs) = pack (at + length (flat (take n fs))) (drop n fs)"
  by (induction fs arbitrary: at n) (auto simp: drop_Cons take_Cons add.assoc split: nat.splits)

lemma pack_nth:
  "i < length fs \<Longrightarrow> pack at fs ! i = encode_end (at + length (flat (take (Suc i) fs))) (fs ! i = None)"
  by (induction fs arbitrary: at i) (auto simp: nth_Cons add.assoc split: nat.splits)

lemma flat_split: "i < length fs \<Longrightarrow> flat fs = flat (take i fs) @ body (fs ! i) @ flat (drop (Suc i) fs)"
  by (metis append.assoc append_Cons append_Nil append_take_drop_id Cons_nth_drop_Suc flat_simps(2,3))

lemma length_flat_take: "length (flat (take i fs)) \<le> length (flat fs)"
  by (metis append_take_drop_id flat_simps(3) le_add1 length_append)

lemma flat_take_Suc: "i < length fs \<Longrightarrow> flat (take (Suc i) fs) = flat (take i fs) @ body (fs ! i)"
  by (simp add: take_Suc_conv_app_nth)

lemma represents_bound: "represents st fs tail \<Longrightarrow> length (flat fs) + length tail \<le> MAX_FIELD_OFFSET"
  by (auto simp: represents_def)

lemma represents_flat_bound: "represents st fs tail \<Longrightarrow> length (flat (take i fs)) \<le> MAX_FIELD_OFFSET"
  using represents_bound [of st fs tail] length_flat_take [of i fs] by simp

lemma represents_start:
  assumes "represents st fs tail" "i \<le> length fs"
  shows "start_offset (fr_ends st) i = length (flat (take i fs))"
proof (cases i)
  case (Suc j)
  then show ?thesis
    using assms represents_flat_bound [OF assms(1), of i]
    by (simp add: start_offset_def represents_def pack_nth end_of_encode)
qed (simp add: start_offset_def)

lemma represents_end:
  assumes "represents st fs tail"
  shows "get_at (fr_ends st) i = (if i < length fs then Some (fr_ends st ! i) else None)"
    and "i < length fs \<Longrightarrow> end_offset (fr_ends st ! i) = length (flat (take i fs)) + length (body (fs ! i))"
    and "i < length fs \<Longrightarrow> end_is_null (fr_ends st ! i) \<longleftrightarrow> fs ! i = None"
proof -
  show "get_at (fr_ends st) i = (if i < length fs then Some (fr_ends st ! i) else None)"
    using assms by (simp add: represents_def get_at_def)
  assume i: "i < length fs"
  have "fr_ends st ! i = encode_end (length (flat (take (Suc i) fs))) (fs ! i = None)"
    using assms i by (simp add: represents_def pack_nth)
  then show "end_offset (fr_ends st ! i) = length (flat (take i fs)) + length (body (fs ! i))"
    "end_is_null (fr_ends st ! i) \<longleftrightarrow> fs ! i = None"
    using end_of_encode [OF represents_flat_bound [OF assms, of "Suc i"]] flat_take_Suc [OF i] by simp_all
qed

lemmas represents_offsets = represents_start represents_end

lemma represents_new: "represents record_new [] []"
  by (simp add: represents_def record_new_def)

lemma represents_cong:
  "represents st fs tail \<Longrightarrow> fr_bytes st' = fr_bytes st \<Longrightarrow> fr_ends st' = fr_ends st \<Longrightarrow> represents st' fs tail"
  by (simp add: represents_def)

section \<open>Reading is indexing\<close>

lemma record_get_represents:
  assumes "represents st fs tail"
  shows "record_get i st = (if i < length fs then Some (Some (body (fs ! i))) else None)"
proof (cases "i < length fs")
  case True
  have bs: "fr_bytes st = flat (take i fs) @ body (fs ! i) @ flat (drop (Suc i) fs) @ tail"
    using assms flat_split [OF True] by (simp add: represents_def)
  show ?thesis
    using True by (simp add: record_get_def represents_offsets [OF assms] get_range_def bs slice_def)
next
  case False
  then show ?thesis by (simp add: record_get_def represents_end [OF assms])
qed

lemma record_is_null_represents:
  "represents st fs tail \<Longrightarrow> record_is_null i st = (if i < length fs then Some (fs ! i = None) else None)"
  by (simp add: record_is_null_def represents_end)

lemma record_len_represents: "represents st fs tail \<Longrightarrow> record_len st = length fs"
  by (simp add: record_len_def represents_def)

section \<open>Growing\<close>

text \<open>An open field ends where its bytes do.\<close>

lemma close_field:
  assumes "represents st fs tail" "length (fr_bytes st) + length bs \<le> MAX_FIELD_OFFSET"
    and "fr_bytes st' = fr_bytes st @ bs"
    and "fr_ends st' = fr_ends st @ [encode_end (length (fr_bytes st) + length bs) False]"
  shows "represents st' (fs @ [Some (tail @ bs)]) []"
  using assms by (simp add: represents_def add.assoc)

lemma record_push_field_represents:
  assumes "represents st fs tail" "m \<le> MAX_FIELD_OFFSET"
  shows "\<exists>st'. record_push_field bs m st = (if length (fr_bytes st) + length bs \<le> m then Ok st' else Panic) \<and>
    (length (fr_bytes st) + length bs \<le> m \<longrightarrow> represents st' (fs @ [Some (tail @ bs)]) [])"
proof (cases "length (fr_bytes st) + length bs \<le> m")
  case True
  then have le: "length (fr_bytes st) + length bs \<le> MAX_FIELD_OFFSET" "length (fr_bytes st) + length bs \<le> usize_max"
    using assms(2) by (auto simp: max_field_offset_value usize_max_def)
  show ?thesis
    using True le close_field [OF assms(1) le(1)]
    by (simp add: record_push_field_def encode_end_bounded_iff)
next
  case False
  then show ?thesis by (auto simp: record_push_field_def encode_end_bounded_iff assert_that_def)
qed

lemma record_push_null_represents:
  assumes "represents st fs []"
  shows "\<exists>st'. record_push_null m st = (if length (fr_bytes st) \<le> m then Ok st' else Panic) \<and>
    represents st' (fs @ [None]) [] \<and> fr_null_aware st'"
  using assms by (auto simp: record_push_null_def encode_end_bounded_iff represents_def
      intro!: exI [of _ "st\<lparr>fr_null_aware := True, fr_ends := fr_ends st @ [encode_end (length (fr_bytes st)) True]\<rparr>"])

lemma extend_bytes_represents:
  "represents st fs tail \<Longrightarrow> length (fr_bytes st) + length bs \<le> MAX_FIELD_OFFSET \<Longrightarrow>
     represents (extend_bytes bs st) fs (tail @ bs)"
  by (simp add: represents_def extend_bytes_def)

lemma finish_field_represents:
  "represents st fs tail \<Longrightarrow> represents (finish_field st) (fs @ [Some tail]) []"
  using close_field [of st fs tail "[]" "finish_field st"] by (simp add: finish_field_def represents_def)

lemma append_field_represents:
  "represents st fs tail \<Longrightarrow> length (fr_bytes st) + length bs \<le> MAX_FIELD_OFFSET \<Longrightarrow>
     represents (append_field bs st) (fs @ [Some (tail @ bs)]) []"
  using close_field [of st fs tail bs "append_field bs st"] by (simp add: append_field_def Let_def)

lemma pack_replicate_empty: "pack at (replicate n (Some [])) = replicate n (encode_end at False)"
  by (induction n) auto

lemma append_empty_fields_represents:
  "represents st fs [] \<Longrightarrow> represents (append_empty_fields n st) (fs @ replicate n (Some [])) []"
  by (simp add: represents_def append_empty_fields_def pack_replicate_empty flat_def)

lemma append_null_field_represents:
  "represents st fs [] \<Longrightarrow> represents (append_null_field st) (fs @ [None]) [] \<and> fr_null_aware (append_null_field st)"
  by (simp add: represents_def append_null_field_def)

lemma record_clear_represents: "represents (record_clear st) [] []" "represents (clear_fields st) [] []"
  by (simp_all add: represents_def record_clear_def clear_fields_def invalidate_source_metadata_def)

section \<open>Dropping and replacing\<close>

lemma record_truncate_represents:
  assumes "represents st fs []"
  shows "represents (record_truncate n st) (take n fs) []"
proof (cases "n \<le> length fs")
  case True
  have "take (length (flat (take n fs))) (flat fs) = flat (take n fs)"
    by (metis append_eq_conv_conj append_take_drop_id flat_simps(3))
  then show ?thesis
    using assms True represents_start [OF assms True] represents_flat_bound [OF assms, of n]
    by (simp add: represents_def record_truncate_def take_pack)
next
  case False
  then show ?thesis using assms by (simp add: record_truncate_def represents_def)
qed

lemma truncate_storage_represents:
  assumes "represents st fs tail" "n \<le> length fs" "length (flat (take n fs)) \<le> b" "b \<le> length (fr_bytes st)"
  shows "\<exists>st'. truncate_storage n b st = Ok st' \<and>
    represents st' (take n fs) (slice (fr_bytes st) (length (flat (take n fs))) b)"
proof -
  let ?n = "length (flat (take n fs))"
  have "flat fs = flat (take n fs) @ flat (drop n fs)" by (metis append_take_drop_id flat_simps(3))
  then have all: "fr_bytes st = flat (take n fs) @ flat (drop n fs) @ tail"
    using assms(1) by (simp add: represents_def)
  have bs: "take b (fr_bytes st) = flat (take n fs) @ slice (fr_bytes st) ?n b"
    using assms(3) by (simp add: all slice_def)
  have "length (fr_bytes st) \<le> MAX_FIELD_OFFSET" using assms(1) by (auto simp: represents_def)
  then have "length (flat (take n fs) @ slice (fr_bytes st) ?n b) \<le> MAX_FIELD_OFFSET"
    using assms(3,4) by simp
  then have "represents (st\<lparr>fr_ends := take n (fr_ends st), fr_bytes := take b (fr_bytes st)\<rparr>) (take n fs)
      (slice (fr_bytes st) ?n b)"
    using assms(1) bs by (simp add: represents_def take_pack)
  moreover have "n \<le> length (fr_ends st)" using assms(1,2) by (simp add: represents_def)
  ultimately show ?thesis
    using assms(3,4) represents_start [OF assms(1,2)] by (simp add: truncate_storage_def assert_that_def)
qed

text \<open>Moving every end of a list of fields is packing it at another offset.\<close>

lemma shift_end_encode:
  assumes "a \<le> MAX_FIELD_OFFSET" "b \<le> MAX_FIELD_OFFSET" "delta = int b - int a"
  shows "shift_end delta (encode_end a null) = Ok (encode_end b null)"
proof -
  have "b \<le> usize_max" using assms(2) by (simp add: max_field_offset_value usize_max_def)
  then show ?thesis using assms by (simp add: shift_end_def end_of_encode Let_def assert_that_def)
qed

lemma shift_ends:
  "at + length (flat fs) \<le> MAX_FIELD_OFFSET \<Longrightarrow> at' + length (flat fs) \<le> MAX_FIELD_OFFSET \<Longrightarrow>
     delta = int at' - int at \<Longrightarrow> map_outcome (shift_end delta) (pack at fs) = Ok (pack at' fs)"
proof (induction fs arbitrary: at at')
  case (Cons f fs)
  let ?n = "length (body f)"
  have "shift_end delta (encode_end (at + ?n) (f = None)) = Ok (encode_end (at' + ?n) (f = None))"
    using Cons.prems by (intro shift_end_encode) auto
  moreover have "map_outcome (shift_end delta) (pack (at + ?n) fs) = Ok (pack (at' + ?n) fs)"
    using Cons.prems by (intro Cons.IH) auto
  ultimately show ?case by simp
qed simp

lemma bytes_around:
  assumes "represents st fs tail" "i < length fs"
  shows "fr_bytes st = flat (take i fs) @ body (fs ! i) @ flat (drop (Suc i) fs) @ tail"
  using assms flat_split [OF assms(2)] by (simp add: represents_def)

lemma ends_around:
  assumes "represents st fs tail" "i < length fs"
  shows "fr_ends st = pack 0 (take i fs) @
    encode_end (length (flat (take i fs)) + length (body (fs ! i))) (fs ! i = None) #
    pack (length (flat (take i fs)) + length (body (fs ! i))) (drop (Suc i) fs)"
proof -
  have "fr_ends st = pack 0 (take i fs @ fs ! i # drop (Suc i) fs)"
    using assms by (metis represents_def id_take_nth_drop)
  then show ?thesis by simp
qed

lemma represents_update:
  assumes "represents st fs tail" "i < length fs"
    and "fr_bytes st' = flat (take i fs) @ body g @ flat (drop (Suc i) fs) @ tail"
    and "fr_ends st' = pack 0 (take i fs) @ encode_end (length (flat (take i fs)) + length (body g)) (g = None) #
      pack (length (flat (take i fs)) + length (body g)) (drop (Suc i) fs)"
    and "length (fr_bytes st') \<le> MAX_FIELD_OFFSET"
  shows "represents st' (fs[i := g]) tail"
  using assms by (simp add: represents_def upd_conv_take_nth_drop)

text \<open>The length of the buffer once a field is replaced.\<close>

definition replaced_length :: "nat \<Rightarrow> bytes \<Rightarrow> field_list \<Rightarrow> bytes \<Rightarrow> nat" where
  "replaced_length i bs fs tail = length (flat (take i fs)) + length bs + length (flat (drop (Suc i) fs)) + length tail"

lemma record_set_field_represents:
  assumes "represents st fs tail" "m \<le> MAX_FIELD_OFFSET" "i < length fs"
  shows "\<exists>st'. record_set_field i bs m st = (if replaced_length i bs fs tail \<le> m then Ok (st', True) else Panic) \<and>
    (replaced_length i bs fs tail \<le> m \<longrightarrow> represents st' (fs[i := Some bs]) tail)"
proof -
  let ?p = "length (flat (take i fs))" and ?b = "length (body (fs ! i))" and ?r = "drop (Suc i) fs"
  note bytes = bytes_around [OF assms(1,3)] and ends = ends_around [OF assms(1,3)]
  have start: "start_offset (fr_ends st) i = ?p" using represents_start [OF assms(1)] assms(3) by simp
  have off: "get_at (fr_ends st) i = Some (fr_ends st ! i)" "end_offset (fr_ends st ! i) = ?p + ?b"
    using represents_end [OF assms(1)] assms(3) by simp_all
  have fits: "?p + ?b + length (flat ?r) + length tail \<le> MAX_FIELD_OFFSET"
    using represents_bound [OF assms(1)] flat_split [OF assms(3)] by simp
  have total: "length (fr_bytes st) - ?b + length bs = replaced_length i bs fs tail"
    by (simp add: bytes replaced_length_def)
  show ?thesis
  proof (cases "replaced_length i bs fs tail \<le> m")
    case False
    then show ?thesis
      using total off start by (simp add: record_set_field_def Let_def assert_offset_bounded_def assert_that_def)
  next
    case True
    then have le: "replaced_length i bs fs tail \<le> MAX_FIELD_OFFSET" using assms(2) by simp
    then have small: "?p + length bs \<le> MAX_FIELD_OFFSET" "?p + length bs \<le> usize_max"
      "replaced_length i bs fs tail \<le> usize_max"
      by (auto simp: replaced_length_def max_field_offset_value usize_max_def)
    have rest: "map_outcome (shift_end (int (length bs) - int ?b)) (pack (?p + ?b) ?r) = Ok (pack (?p + length bs) ?r)"
      using fits le by (intro shift_ends) (auto simp: replaced_length_def)
    have head: "shift_end (int (length bs) - int ?b) (encode_end (?p + ?b) (fs ! i = None)) =
        Ok (encode_end (?p + length bs) (fs ! i = None))"
      using fits small(1) by (intro shift_end_encode) auto
    define st' where "st' = st\<lparr>fr_bytes := flat (take i fs) @ bs @ flat ?r @ tail,
      fr_ends := pack 0 (take i fs) @ encode_end (?p + length bs) False # pack (?p + length bs) ?r\<rparr>"
    have "record_set_field i bs m st = Ok (st', True)"
      using True small total off start bytes rest head assms(3)
      by (simp add: record_set_field_def Let_def assert_offset_bounded_def assert_that_def ends st'_def
          end_of_encode nth_append list_update_append)
    moreover have "represents st' (fs[i := Some bs]) tail"
      by (rule represents_update [OF assms(1,3)]) (use le in \<open>auto simp: st'_def replaced_length_def\<close>)
    ultimately show ?thesis using True by auto
  qed
qed

lemma record_set_field_absent: "represents st fs tail \<Longrightarrow> length fs \<le> i \<Longrightarrow> record_set_field i bs m st = Ok (st, False)"
  by (simp add: record_set_field_def represents_end)

lemma record_set_null_represents:
  assumes "represents st fs tail" "m \<le> MAX_FIELD_OFFSET" "i < length fs"
  shows "\<exists>st'. record_set_null i m st = (if replaced_length i [] fs tail \<le> m then Ok (st', True) else Panic) \<and>
    (replaced_length i [] fs tail \<le> m \<longrightarrow> represents st' (fs[i := None]) tail \<and> fr_null_aware st')"
proof (cases "replaced_length i [] fs tail \<le> m")
  case True
  then obtain a where a: "record_set_field i [] m st = Ok (a, True)" "represents a (fs[i := Some []]) tail"
    using record_set_field_represents [OF assms, of "[]"] by auto
  define b where "b = a\<lparr>fr_ends := (fr_ends a)[i := encode_end (end_offset (fr_ends a ! i)) True], fr_null_aware := True\<rparr>"
  let ?gs = "fs[i := Some []]"
  have i: "i < length ?gs" using assms(3) by simp
  have off: "end_offset (fr_ends a ! i) = length (flat (take i ?gs)) + length (body None)"
    using represents_end(2) [OF a(2) i] assms(3) by simp
  have "fr_bytes b = flat (take i ?gs) @ body None @ flat (drop (Suc i) ?gs) @ tail"
    using bytes_around [OF a(2) i] assms(3) by (simp add: b_def)
  moreover have "fr_ends b = pack 0 (take i ?gs) @ encode_end (length (flat (take i ?gs)) + length (body None)) True #
      pack (length (flat (take i ?gs)) + length (body None)) (drop (Suc i) ?gs)"
    unfolding b_def using off assms(3) by (simp add: ends_around [OF a(2) i] list_update_append del: drop_update_cancel)
  moreover have "length (fr_bytes b) \<le> MAX_FIELD_OFFSET" using a(2) by (auto simp: b_def represents_def)
  ultimately have "represents b (?gs[i := None]) tail" by (intro represents_update [OF a(2) i]) simp_all
  then have "represents b (fs[i := None]) tail" by simp
  moreover have "record_set_null i m st = Ok (b, True)" by (simp add: record_set_null_def a(1) b_def)
  ultimately show ?thesis using True by (auto simp: b_def)
next
  case False
  then show ?thesis
    using record_set_field_represents [OF assms, of "[]"] by (auto simp: record_set_null_def)
qed

lemma record_set_null_absent: "represents st fs tail \<Longrightarrow> length fs \<le> i \<Longrightarrow> record_set_null i m st = Ok (st, False)"
  by (simp add: record_set_null_def record_set_field_absent)

lemma try_set_field_equal_represents:
  assumes "represents st fs tail" "i < length fs"
  shows "\<exists>st'. try_set_field_equal i bs st =
      (if length bs = length (body (fs ! i)) then Ok (st', Some True) else Ok (st, Some False)) \<and>
    (length bs = length (body (fs ! i)) \<longrightarrow> represents st' (fs[i := Some bs]) tail)"
proof -
  let ?p = "length (flat (take i fs))" and ?b = "length (body (fs ! i))" and ?r = "drop (Suc i) fs"
  note bytes = bytes_around [OF assms] and ends = ends_around [OF assms]
  have start: "start_offset (fr_ends st) i = ?p" using represents_start [OF assms(1)] assms(2) by simp
  have off: "get_at (fr_ends st) i = Some (fr_ends st ! i)" "end_offset (fr_ends st ! i) = ?p + ?b"
    using represents_end [OF assms(1)] assms(2) by simp_all
  show ?thesis
  proof (cases "length bs = ?b")
    case True
    define st' where "st' = st\<lparr>fr_bytes := take ?p (fr_bytes st) @ bs @ drop (?p + ?b) (fr_bytes st),
      fr_ends := (fr_ends st)[i := of_nat (?p + ?b)]\<rparr>"
    have "?p + ?b \<le> length (fr_bytes st)" by (simp add: bytes)
    then have "try_set_field_equal i bs st = Ok (st', Some True)"
      using True off start by (simp add: try_set_field_equal_def st'_def Let_def)
    moreover have "fr_bytes st' = flat (take i fs) @ bs @ flat ?r @ tail" by (simp add: st'_def bytes)
    moreover have "fr_ends st' = pack 0 (take i fs) @ encode_end (?p + ?b) False # pack (?p + ?b) ?r"
      using assms(2) by (simp add: st'_def ends list_update_append encode_end_def [of _ False])
    moreover have "represents st' (fs[i := Some bs]) tail"
      by (rule represents_update [OF assms])
        (use True represents_bound [OF assms(1)] flat_split [OF assms(2)] calculation in auto)
    ultimately show ?thesis using True by auto
  qed (use off start in \<open>simp add: try_set_field_equal_def\<close>)
qed

lemma try_set_field_equal_absent:
  "represents st fs tail \<Longrightarrow> length fs \<le> i \<Longrightarrow> try_set_field_equal i bs st = Ok (st, None)"
  by (simp add: try_set_field_equal_def represents_end)

section \<open>The passes in place\<close>

lemma copy_within_moves:
  assumes "d \<le> a" "a \<le> b" "b \<le> length bs"
  shows "take (d + (b - a)) (copy_within a b d bs) = take d bs @ slice bs a b"
    "b \<le> e \<Longrightarrow> drop e (copy_within a b d bs) = drop e bs" "length (copy_within a b d bs) = length bs"
  using assms by (simp_all add: copy_within_def)

lemma mark_fields_loop_marks:
  assumes "drop s bs = flat fs @ tail" "d \<le> s" "s \<le> length bs" "s + length (flat fs) \<le> MAX_FIELD_OFFSET"
    and "None \<notin> set fs"
  shows "\<exists>bs'. mark_fields_loop P bs s d aware (pack s fs) =
      Ok (bs', pack d (map (\<lambda>f. if P (body f) then None else f) fs),
        d + length (flat (map (\<lambda>f. if P (body f) then None else f) fs)), aware \<or> (\<exists>f \<in> set fs. P (body f))) \<and>
    take (d + length (flat (map (\<lambda>f. if P (body f) then None else f) fs))) bs' =
      take d bs @ flat (map (\<lambda>f. if P (body f) then None else f) fs)"
  using assms
proof (induction fs arbitrary: bs s d aware)
  case (Cons f fs)
  let ?e = "s + length (body f)"
  have at: "unat (encode_end ?e (f = None)) = ?e" using Cons.prems(4,5) by (auto simp: end_of_encode)
  have field: "slice bs s ?e = body f" using Cons.prems(1) by (simp add: slice_def)
  have rest: "drop ?e bs = flat fs @ tail"
    using Cons.prems(1) by (metis add.commute append.assoc append_eq_conv_conj drop_drop flat_simps(2))
  have "length (drop s bs) = length (body f) + length (flat fs) + length tail" using Cons.prems(1) by simp
  then have le: "?e \<le> length bs" using Cons.prems(3) by simp
  then have range: "get_range bs s ?e = Some (body f)" by (simp add: get_range_def field)
  show ?case
  proof (cases "P (body f)")
    case True
    show ?thesis
      using Cons.IH [OF rest, of d True] Cons.prems(2,4,5) le True at range by auto
  next
    case False
    let ?b = "copy_within s ?e d bs"
    note moved = copy_within_moves [OF Cons.prems(2) _ le, simplified]
    have "drop ?e ?b = flat fs @ tail" using moved(2) rest by simp
    then show ?thesis
      using Cons.IH [of ?e ?b "d + length (body f)" aware] Cons.prems(2,4,5) le False at range moved field
      by (auto simp: Let_def add.assoc)
  qed
qed (auto simp: exI [of _ bs])

text \<open>
  \<open>mark_null_fields\<close> is called on a record that has no NULL yet, which the debug assertion states, and
  drops the bytes of the fields it marks.
\<close>

lemma mark_null_fields_represents:
  assumes "represents st fs tail" "None \<notin> set fs"
  shows "\<exists>st'. mark_null_fields is_null st = Ok st' \<and>
    represents st' (map (\<lambda>f. if is_null (body f) then None else f) fs) [] \<and>
    (fr_null_aware st' \<longleftrightarrow> fr_null_aware st \<or> (\<exists>f \<in> set fs. is_null (body f)))"
proof -
  let ?gs = "map (\<lambda>f. if is_null (body f) then None else f) fs"
  obtain bs where run: "mark_fields_loop is_null (fr_bytes st) 0 0 (fr_null_aware st) (pack 0 fs) =
      Ok (bs, pack 0 ?gs, length (flat ?gs), fr_null_aware st \<or> (\<exists>f \<in> set fs. is_null (body f)))"
    "take (length (flat ?gs)) bs = flat ?gs"
    using mark_fields_loop_marks [of 0 "fr_bytes st" fs tail 0 is_null "fr_null_aware st"] assms
    by (auto simp: represents_def)
  have "length (flat (map (\<lambda>f. if is_null (body f) then None else f) fs)) \<le> length (flat fs)" for fs
    by (induction fs) auto
  then have "length (flat ?gs) \<le> MAX_FIELD_OFFSET" using represents_bound [OF assms(1)] by (meson add_leE le_trans)
  then show ?thesis using run assms(1) by (simp add: mark_null_fields_def represents_def)
qed

lemma trimmed_bounds:
  assumes "until \<le> length bs" "from \<le> until"
  obtains a b where "trim_front bs from until = Ok a" "trim_back bs a until = Ok b" "from \<le> a" "a \<le> b" "b \<le> until"
    "slice bs a b = trim_ascii (slice bs from until)"
proof -
  obtain a where a: "trim_front bs from until = Ok a" "from \<le> a" "a \<le> until"
    using trim_front_bounds [OF assms] by blast
  obtain b where b: "trim_back bs a until = Ok b" "a \<le> b" "b \<le> until"
    using trim_back_bounds [OF assms(1) a(3)] by blast
  have "slice bs a b = trim_ascii (slice bs from until)"
    unfolding trim_ascii_def
    using trim_back_drops [OF assms(1) a(3) b(1)] trim_front_drops [OF assms a(1)] by simp
  then show thesis using that [OF a(1) b(1)] a b by simp
qed

lemma length_trim_ascii: "length (trim_ascii bs) \<le> length bs"
  unfolding trim_ascii_def by (metis dual_order.trans length_dropWhile_le length_rev)

lemma trim_fields_loop_trims:
  assumes "drop s bs = flat fs @ tail" "d \<le> s" "s \<le> length bs" "s + length (flat fs) \<le> MAX_FIELD_OFFSET"
  shows "\<exists>bs'. trim_fields_loop bs s d (pack s fs) =
      Ok (bs', pack d (map (map_option trim_ascii) fs), d + length (flat (map (map_option trim_ascii) fs))) \<and>
    take (d + length (flat (map (map_option trim_ascii) fs))) bs' = take d bs @ flat (map (map_option trim_ascii) fs)"
  using assms
proof (induction fs arbitrary: bs s d)
  case (Cons f fs)
  let ?e = "s + length (body f)"
  have at: "end_offset (encode_end ?e (f = None)) = ?e" "end_is_null (encode_end ?e (f = None)) \<longleftrightarrow> f = None"
    using Cons.prems(4) by (auto simp: end_of_encode)
  have field: "slice bs s ?e = body f" using Cons.prems(1) by (simp add: slice_def)
  have rest: "drop ?e bs = flat fs @ tail"
    using Cons.prems(1) by (metis add.commute append.assoc append_eq_conv_conj drop_drop flat_simps(2))
  have "length (drop s bs) = length (body f) + length (flat fs) + length tail" using Cons.prems(1) by simp
  then have le: "?e \<le> length bs" using Cons.prems(3) by simp
  show ?case
  proof (cases f)
    case None
    then show ?thesis using Cons.IH [of s bs d] Cons.prems at by auto
  next
    case (Some text')
    obtain a b where ab: "trim_front bs s ?e = Ok a" "trim_back bs a ?e = Ok b" "s \<le> a" "a \<le> b" "b \<le> ?e"
      "slice bs a b = trim_ascii (body f)"
      using trimmed_bounds [OF le le_add1] field by metis
    let ?b = "copy_within a b d bs"
    have da: "d \<le> a" using Cons.prems(2) ab(3) by simp
    have bl: "b \<le> length bs" using ab(5) le by simp
    note moved = copy_within_moves [OF da ab(4) bl]
    have len: "b - a = length (trim_ascii text')"
      using arg_cong [OF ab(6), of length] bl Some by simp
    have "drop ?e ?b = flat fs @ tail" using moved(2) [OF ab(5)] rest by simp
    moreover have "d + (b - a) \<le> ?e" using da ab(4,5) by simp
    ultimately show ?thesis
      using Cons.IH [of ?e ?b "d + (b - a)"] Cons.prems(4) le at moved(1,3) ab(1,2,6) len Some
      by (auto simp: Let_def add.assoc)
  qed
qed (auto simp: exI [of _ bs])

lemma trim_fields_ascii_represents:
  assumes "represents st fs tail"
  shows "\<exists>st'. trim_fields_ascii st = Ok st' \<and> represents st' (map (map_option trim_ascii) fs) []"
proof -
  let ?gs = "map (map_option trim_ascii) fs"
  obtain bs where run: "trim_fields_loop (fr_bytes st) 0 0 (pack 0 fs) = Ok (bs, pack 0 ?gs, length (flat ?gs))"
    "take (length (flat ?gs)) bs = flat ?gs"
    using trim_fields_loop_trims [of 0 "fr_bytes st" fs tail 0] assms by (auto simp: represents_def)
  have "length (body (map_option trim_ascii f)) \<le> length (body f)" for f
    by (cases f) (auto simp: length_trim_ascii)
  then have "length (flat (map (map_option trim_ascii) fs)) \<le> length (flat fs)" for fs
    by (induction fs) (auto intro: add_mono)
  then have "length (flat ?gs) \<le> MAX_FIELD_OFFSET" using represents_bound [OF assms] by (meson add_leE le_trans)
  then show ?thesis using run assms by (simp add: trim_fields_ascii_def represents_def)
qed

end
