(* ===== verification/OwnedRecords.thy ===== *)
theory OwnedRecords
  imports RecordStorage
begin

text \<open>
  The owned records over that storage: \<open>ByteRecord\<close> (\<open>coseva/src/byte_record.rs\<close>), UTF-8 storage
  (\<open>coseva_unsafe/src/storage/utf8_record_storage.rs\<close>) and \<open>TextRecord\<close> (\<open>coseva/src/text_record.rs\<close>).
  Each type wraps one storage and is modelled by it. \<open>str::from_utf8\<close> is the table of well-formed
  byte sequences; the position inside a field that a \<open>Utf8Error\<close> carries is not part of the model.
  Debug assertions are not part of the build that is modelled. The locale \<open>field_record\<close> is what both
  records promise: to behave as a list of optional fields.
\<close>

section \<open>ByteRecord\<close>

definition byte_clear :: "record_storage \<Rightarrow> record_storage" where
  "byte_clear st = invalidate_source_metadata (clear_fields st)"

definition byte_push_field :: "bytes \<Rightarrow> record_storage \<Rightarrow> record_storage outcome" where
  "byte_push_field field st = map_ok invalidate_source_metadata (record_push_field field MAX_FIELD_OFFSET st)"

definition byte_push_null :: "record_storage \<Rightarrow> record_storage outcome" where
  "byte_push_null st = map_ok invalidate_source_metadata (record_push_null MAX_FIELD_OFFSET st)"

definition byte_set_field :: "nat \<Rightarrow> bytes \<Rightarrow> record_storage \<Rightarrow> (record_storage \<times> bool) outcome" where
  "byte_set_field index field st =
     bind_outcome (try_set_field_equal index field st) (\<lambda>(st', replaced).
       case replaced of
         None \<Rightarrow> Ok (st', False)
       | Some True \<Rightarrow> Ok (invalidate_source_metadata st', True)
       | Some False \<Rightarrow>
           map_ok (\<lambda>(st'', updated). (invalidate_source_metadata st'', True))
             (record_set_field index field MAX_FIELD_OFFSET st'))"

definition byte_set_null :: "nat \<Rightarrow> record_storage \<Rightarrow> (record_storage \<times> bool) outcome" where
  "byte_set_null index st =
     map_ok (\<lambda>(st', found). if \<not> found then (st', False) else (invalidate_source_metadata st', True))
       (record_set_null index MAX_FIELD_OFFSET st)"

definition byte_truncate :: "nat \<Rightarrow> record_storage \<Rightarrow> record_storage" where
  "byte_truncate len st =
     (if len \<ge> record_len st then st else invalidate_source_metadata (record_truncate len st))"

text \<open>\<open>Index\<close>: the \<open>expect\<close> panics past the last field.\<close>

definition byte_index :: "nat \<Rightarrow> record_storage \<Rightarrow> bytes option outcome" where
  "byte_index index st = (case record_get index st of None \<Rightarrow> Panic | Some field \<Rightarrow> Ok field)"

text \<open>\<open>From<Vec<Vec<u8>>>\<close>, \<open>FromIterator\<close> and \<open>Extend\<close> push the fields in turn.\<close>

fun byte_extend :: "bytes list \<Rightarrow> record_storage \<Rightarrow> record_storage outcome" where
  "byte_extend [] st = Ok st"
| "byte_extend (field # rest) st = bind_outcome (byte_push_field field st) (byte_extend rest)"

definition byte_from_fields :: "bytes list \<Rightarrow> record_storage outcome" where
  "byte_from_fields fs = byte_extend fs record_new"

text \<open>
  \<open>ByteRecordIter\<close>: the index and the offset of the next field; \<open>next\<close> yields a field with the moved
  iterator, and its slice panics out of range.
\<close>

definition byte_iter_next ::
    "record_storage \<Rightarrow> nat \<times> nat \<Rightarrow> (bytes \<times> (nat \<times> nat)) option outcome" where
  "byte_iter_next st it =
     (case record_range (fst it) st of
        None \<Rightarrow> Ok None
      | Some (_, until) \<Rightarrow>
          (case get_range (fr_bytes st) (snd it) until of
             None \<Rightarrow> Panic
           | Some field \<Rightarrow> Ok (Some (field, (fst it + 1, until)))))"

text \<open>Collecting an iterator; the fuel is the number of calls.\<close>

fun byte_collect :: "nat \<Rightarrow> record_storage \<Rightarrow> nat \<times> nat \<Rightarrow> bytes list outcome" where
  "byte_collect 0 st it = Ok []"
| "byte_collect (Suc n) st it =
     bind_outcome (byte_iter_next st it) (\<lambda>step.
       case step of
         None \<Rightarrow> Ok []
       | Some (field, it') \<Rightarrow> map_ok ((#) field) (byte_collect n st it'))"

definition byte_iter :: "nat \<times> nat" where "byte_iter = (0, 0)"

definition byte_fields :: "record_storage \<Rightarrow> bytes list outcome" where
  "byte_fields st = byte_collect (record_len st + 1) st byte_iter"

text \<open>
  \<open>replace_from\<close>: the resolved entries of a borrowed record, each with its NULL mark, and where it was.
\<close>

fun replace_entries :: "(bytes \<times> bool) list \<Rightarrow> record_storage \<Rightarrow> record_storage outcome" where
  "replace_entries [] st = Ok st"
| "replace_entries ((field, is_null) # rest) st =
     (if is_null then replace_entries rest (append_null_field st)
      else bind_outcome (record_push_field field MAX_FIELD_OFFSET st) (replace_entries rest))"

definition replace_from ::
    "(bytes \<times> bool) list \<Rightarrow> nat \<times> nat \<Rightarrow> nat \<Rightarrow> bool \<Rightarrow> record_storage \<Rightarrow> record_storage outcome" where
  "replace_from entries extent index null_aware st =
     map_ok (\<lambda>st'. set_null_aware null_aware (record_set_location extent index st'))
       (replace_entries entries (record_clear st))"

section \<open>UTF-8\<close>

definition is_continuation :: "byte \<Rightarrow> bool" where "is_continuation b \<longleftrightarrow> 0x80 \<le> b \<and> b \<le> 0xBF"

text \<open>
  The width of the well-formed sequence a string begins with: the width its first byte asks for, a
  second byte in the range the first allows, and continuation bytes after it.
\<close>

definition lead_width :: "byte \<Rightarrow> nat" where
  "lead_width a =
     (if a < 0x80 then 1
      else if 0xC2 \<le> a \<and> a \<le> 0xDF then 2
      else if 0xE0 \<le> a \<and> a \<le> 0xEF then 3
      else if 0xF0 \<le> a \<and> a \<le> 0xF4 then 4 else 0)"

definition second_allowed :: "byte \<Rightarrow> byte \<Rightarrow> bool" where
  "second_allowed a b =
     (if a = 0xE0 then 0xA0 \<le> b \<and> b \<le> 0xBF
      else if a = 0xED then 0x80 \<le> b \<and> b \<le> 0x9F
      else if a = 0xF0 then 0x90 \<le> b \<and> b \<le> 0xBF
      else if a = 0xF4 then 0x80 \<le> b \<and> b \<le> 0x8F
      else is_continuation b)"

fun utf8_width :: "bytes \<Rightarrow> nat option" where
  "utf8_width [] = None"
| "utf8_width (a # rest) =
     (let w = lead_width a
      in if w = 0 then None
         else if w = 1 then Some 1
         else if w - 1 \<le> length rest \<and> second_allowed a (rest ! 0) \<and> list_all is_continuation (slice rest 1 (w - 1))
         then Some w else None)"

lemma utf8_width_bounds: "utf8_width bs = Some w \<Longrightarrow> 0 < w \<and> w \<le> length bs"
  by (cases bs) (auto simp: Let_def split: if_splits)

function valid_utf8 :: "bytes \<Rightarrow> bool" where
  "valid_utf8 bs =
     (if bs = [] then True else case utf8_width bs of None \<Rightarrow> False | Some w \<Rightarrow> valid_utf8 (drop w bs))"
  by pat_completeness auto
termination by (relation "measure length") (auto dest: utf8_width_bounds)

declare valid_utf8.simps [simp del]

definition is_ascii :: "bytes \<Rightarrow> bool" where "is_ascii bs = list_all (\<lambda>b. b < 0x80) bs"

definition is_char_boundary :: "bytes \<Rightarrow> nat \<Rightarrow> bool" where
  "is_char_boundary text' index =
     (if index = 0 then True
      else if length text' \<le> index then index = length text'
      else \<not> is_continuation (text' ! index))"

section \<open>Validating a storage\<close>

datatype utf8_record_error = InvalidField nat

text \<open>The fields of a storage as its iterator yields them.\<close>

definition record_fields :: "record_storage \<Rightarrow> bytes option list" where
  "record_fields st = map (\<lambda>i. case record_get i st of Some (Some f) \<Rightarrow> Some f | _ \<Rightarrow> None) [0..<record_len st]"

text \<open>
  \<open>validate_utf8\<close>: the whole buffer first, then the ends; \<open>expect_err\<close> panics on a field that is valid
  after all. \<open>None\<close> inside a field is a range outside the buffer.
\<close>

definition invalid_field :: "bytes option \<Rightarrow> bool" where
  "invalid_field f \<longleftrightarrow> (case f of None \<Rightarrow> True | Some bs \<Rightarrow> \<not> valid_utf8 bs)"

definition validate_utf8 :: "record_storage \<Rightarrow> (utf8_record_error option) outcome" where
  "validate_utf8 st =
     (if is_ascii (fr_bytes st) then Ok None
      else if \<not> valid_utf8 (fr_bytes st) then
        (case position invalid_field (record_fields st) of
           None \<Rightarrow> Ok (Some (InvalidField (record_len st)))
         | Some index \<Rightarrow> Ok (Some (InvalidField index)))
      else
        (case position (\<lambda>e. \<not> is_char_boundary (fr_bytes st) (end_offset e)) (fr_ends st) of
           None \<Rightarrow> Ok None
         | Some index \<Rightarrow>
             if invalid_field (record_fields st ! index) then Ok (Some (InvalidField index)) else Panic))"

section \<open>Utf8RecordStorage and TextRecord\<close>

definition try_from_storage :: "record_storage \<Rightarrow> (utf8_record_error + record_storage) outcome" where
  "try_from_storage st =
     map_ok (\<lambda>r. case r of Some e \<Rightarrow> Inl e | None \<Rightarrow> Inr st) (validate_utf8 st)"

text \<open>
  \<open>refill_with_validity\<close>: the refill is the caller's closure, given by the storage it leaves and its
  answer. The rollback clears the storage unless everything succeeded. The result is the storage and
  either a UTF-8 error, the closure's error or nothing.
\<close>

datatype 'e refilled = Refilled | RefillFailed 'e | RefillInvalid utf8_record_error

definition refill_with_validity ::
    "(record_storage \<Rightarrow> record_storage \<times> ('e + text_validity)) \<Rightarrow> record_storage \<Rightarrow>
     (record_storage \<times> 'e refilled) outcome" where
  "refill_with_validity refill st =
     (case refill (record_clear st) of
        (st', Inl e) \<Rightarrow> Ok (record_clear st', RefillFailed e)
      | (st', Inr validity) \<Rightarrow>
          if validity = TextAscii then Ok (st', Refilled)
          else bind_outcome (validate_utf8 st') (\<lambda>r.
            case r of
              Some e \<Rightarrow> Ok (record_clear st', RefillInvalid e)
            | None \<Rightarrow> Ok (st', Refilled)))"

text \<open>The text record takes \<open>str\<close> arguments; its operations are those of the byte record.\<close>

definition text_push_field :: "bytes \<Rightarrow> record_storage \<Rightarrow> record_storage outcome" where
  "text_push_field field st =
     map_ok (record_set_location (0, 0) 0) (record_push_field field MAX_FIELD_OFFSET st)"

definition text_push_null :: "record_storage \<Rightarrow> record_storage outcome" where
  "text_push_null st = map_ok (record_set_location (0, 0) 0) (record_push_null MAX_FIELD_OFFSET st)"

definition text_set_field :: "nat \<Rightarrow> bytes \<Rightarrow> record_storage \<Rightarrow> (record_storage \<times> bool) outcome" where
  "text_set_field index field st =
     bind_outcome (try_set_field_equal index field st) (\<lambda>(st', replaced).
       case replaced of
         None \<Rightarrow> Ok (st', False)
       | Some True \<Rightarrow> Ok (record_set_location (0, 0) 0 st', True)
       | Some False \<Rightarrow>
           map_ok (\<lambda>(st'', updated). (record_set_location (0, 0) 0 st'', True))
             (record_set_field index field MAX_FIELD_OFFSET st'))"

definition text_set_null :: "nat \<Rightarrow> record_storage \<Rightarrow> (record_storage \<times> bool) outcome" where
  "text_set_null index st =
     map_ok (\<lambda>(st', found). if \<not> found then (st', False) else (record_set_location (0, 0) 0 st', True))
       (record_set_null index MAX_FIELD_OFFSET st)"

definition text_truncate :: "nat \<Rightarrow> record_storage \<Rightarrow> record_storage" where
  "text_truncate len st =
     (if len \<ge> record_len st then st else record_set_location (0, 0) 0 (record_truncate len st))"

text \<open>\<open>field_utf8_error\<close> looks for the field again; finding none is unreachable.\<close>

definition field_utf8_error :: "record_storage \<Rightarrow> nat outcome" where
  "field_utf8_error st =
     bind_outcome (byte_fields st) (\<lambda>fs.
       case position (\<lambda>f. \<not> valid_utf8 f) fs of None \<Rightarrow> Panic | Some index \<Rightarrow> Ok index)"

text \<open>\<open>TryFrom<&ByteRecord>\<close> and \<open>replace_from_byte_record\<close>: the record, or the first invalid field.\<close>

definition text_try_from :: "record_storage \<Rightarrow> (nat + record_storage) outcome" where
  "text_try_from st =
     bind_outcome (try_from_storage st) (\<lambda>r.
       case r of
         Inr st' \<Rightarrow> Ok (Inr st')
       | Inl _ \<Rightarrow> map_ok Inl (field_utf8_error st))"

definition rebase_location :: "nat \<Rightarrow> record_storage \<Rightarrow> record_storage" where
  "rebase_location consumed st =
     (let (from, until) = fr_byte_range st;
          rebased = (if until + consumed \<le> usize_max then (from + consumed, until + consumed)
            else (sat_add from consumed, sat_add until consumed))
      in record_set_location rebased (fr_index st) st)"

section \<open>Well-formed sequences\<close>

lemma utf8_width_append: "utf8_width a = Some w \<Longrightarrow> utf8_width (a @ b) = Some w"
  by (cases a) (auto simp: Let_def nth_append split: if_splits)

lemma utf8_width_take: "utf8_width (a @ b) = Some w \<Longrightarrow> w \<le> length a \<Longrightarrow> utf8_width a = Some w"
  by (cases a) (auto simp: Let_def nth_append split: if_splits dest: utf8_width_bounds)

lemma utf8_width_first: "utf8_width (x # xs) = Some w \<Longrightarrow> \<not> is_continuation x"
  by (auto simp: is_continuation_def lead_width_def Let_def word_le_nat_alt word_less_nat_alt split: if_splits)

lemma second_allowed_continuation: "second_allowed a b \<Longrightarrow> is_continuation b"
  by (auto simp: second_allowed_def is_continuation_def word_le_nat_alt split: if_splits)

lemma utf8_width_inner:
  assumes "utf8_width bs = Some w" "0 < i" "i < w"
  shows "is_continuation (bs ! i)"
proof -
  obtain a rest where bs: "bs = a # rest" using assms(1) by (cases bs) auto
  then have all: "w - 1 \<le> length rest" "second_allowed a (rest ! 0)" "list_all is_continuation (slice rest 1 (w - 1))"
    using assms by (auto simp: Let_def split: if_splits)
  show ?thesis
  proof (cases "i = 1")
    case True
    then show ?thesis using second_allowed_continuation [OF all(2)] bs by simp
  next
    case False
    then obtain j where j: "i = Suc (Suc j)" using assms(2) by (metis One_nat_def not0_implies_Suc not_gr0)
    then have "rest ! Suc j = slice rest 1 (w - 1) ! j" "j < length (slice rest 1 (w - 1))"
      using assms(3) all(1) by auto
    then show ?thesis using all(3) bs j by (simp add: list_all_length)
  qed
qed

lemma valid_utf8_Nil [simp]: "valid_utf8 []"
  by (simp add: valid_utf8.simps)

lemma valid_utf8_step: "utf8_width bs = Some w \<Longrightarrow> valid_utf8 bs \<longleftrightarrow> valid_utf8 (drop w bs)"
  by (subst valid_utf8.simps) auto

lemma valid_utf8_width: "valid_utf8 bs \<Longrightarrow> bs \<noteq> [] \<Longrightarrow> \<exists>w. utf8_width bs = Some w"
  by (subst (asm) valid_utf8.simps) (auto split: option.splits)

lemma valid_utf8_append: "valid_utf8 a \<Longrightarrow> valid_utf8 (a @ b) \<longleftrightarrow> valid_utf8 b"
proof (induction a rule: valid_utf8.induct)
  case (1 a)
  show ?case
  proof (cases "a = []")
    case False
    then obtain w where w: "utf8_width a = Some w" using valid_utf8_width [OF 1(2)] by blast
    have "valid_utf8 (drop w a @ b) \<longleftrightarrow> valid_utf8 b"
      using 1(1) [OF False w] 1(2) valid_utf8_step [OF w] by simp
    then show ?thesis
      using valid_utf8_step [OF utf8_width_append [OF w, of b]] utf8_width_bounds [OF w] by simp
  qed simp
qed

lemma boundary_after: "is_char_boundary (a @ b) (length a) \<Longrightarrow> a \<noteq> [] \<Longrightarrow> b = [] \<or> \<not> is_continuation (b ! 0)"
  by (auto simp: is_char_boundary_def nth_append)

lemma valid_utf8_split:
  "valid_utf8 (a @ b) \<Longrightarrow> is_char_boundary (a @ b) (length a) \<Longrightarrow> valid_utf8 a"
proof (induction a rule: length_induct)
  case (1 a)
  show ?case
  proof (cases "a = []")
    case False
    then obtain w where w: "utf8_width (a @ b) = Some w" using valid_utf8_width [OF 1(2)] by blast
    note bounds = utf8_width_bounds [OF w]
    have "w \<le> length a"
    proof (rule ccontr)
      assume "\<not> w \<le> length a"
      then have "is_continuation ((a @ b) ! length a)" "length a < length (a @ b)"
        using utf8_width_inner [OF w, of "length a"] False bounds by auto
      then show False using 1(3) False by (auto simp: is_char_boundary_def)
    qed
    moreover have "valid_utf8 (drop w a)"
    proof (rule 1(1) [rule_format])
      show "valid_utf8 (drop w a @ b)" using 1(2) valid_utf8_step [OF w] \<open>w \<le> length a\<close> by simp
      show "length (drop w a) < length a" using bounds \<open>w \<le> length a\<close> False by simp
      show "is_char_boundary (drop w a @ b) (length (drop w a))"
        using boundary_after [OF 1(3) False] by (auto simp: is_char_boundary_def nth_append)
    qed
    ultimately show ?thesis using valid_utf8_step [OF utf8_width_take [OF w \<open>w \<le> length a\<close>]] by blast
  qed simp
qed

lemma valid_utf8_boundary:
  assumes "valid_utf8 a" "valid_utf8 b"
  shows "is_char_boundary (a @ b) (length a)"
proof (cases b)
  case (Cons x xs)
  then obtain w where "utf8_width (x # xs) = Some w" using valid_utf8_width [OF assms(2)] by auto
  then show ?thesis using utf8_width_first by (simp add: is_char_boundary_def Cons nth_append)
qed (simp add: is_char_boundary_def)

lemma ascii_valid: "is_ascii bs \<Longrightarrow> valid_utf8 bs"
proof (induction bs)
  case (Cons x xs)
  then have "utf8_width (x # xs) = Some 1" by (simp add: is_ascii_def Let_def lead_width_def)
  then show ?case using Cons valid_utf8_step [of "x # xs" 1] by (simp add: is_ascii_def)
qed simp

text \<open>
  \<open>String::from_utf8_lossy\<close>: \<open>invalid_width\<close> is what the standard library replaces by one U+FFFD, the
  longest beginning of a sequence that could still have become valid.
\<close>

definition replacement_character :: bytes where "replacement_character = [0xEF, 0xBF, 0xBD]"

fun invalid_width :: "bytes \<Rightarrow> nat" where
  "invalid_width [] = 1"
| "invalid_width (a # rest) =
     (if lead_width a \<le> 1 \<or> rest = [] \<or> \<not> second_allowed a (rest ! 0) then 1
      else 1 + length (takeWhile is_continuation (take (lead_width a - 1) rest)))"

lemma invalid_width_pos: "0 < invalid_width bs"
  by (cases bs) auto

function from_utf8_lossy :: "bytes \<Rightarrow> bytes" where
  "from_utf8_lossy bs =
     (if bs = [] then []
      else case utf8_width bs of
             Some w \<Rightarrow> take w bs @ from_utf8_lossy (drop w bs)
           | None \<Rightarrow> replacement_character @ from_utf8_lossy (drop (invalid_width bs) bs))"
  by pat_completeness auto
termination by (relation "measure length") (auto dest: utf8_width_bounds simp: invalid_width_pos)

declare from_utf8_lossy.simps [simp del]

text \<open>\<open>from_byte_record_lossy\<close>: the fields from a start over the ends that are left.\<close>

fun lossy_fields :: "bytes \<Rightarrow> nat \<Rightarrow> 64 word list \<Rightarrow> record_storage \<Rightarrow> record_storage outcome" where
  "lossy_fields bs start [] output = Ok output"
| "lossy_fields bs start (raw_end # ends) output =
     (case get_range bs start (end_offset raw_end) of
        None \<Rightarrow> Panic
      | Some field \<Rightarrow>
          bind_outcome (record_push_field (from_utf8_lossy field) MAX_FIELD_OFFSET output) (\<lambda>pushed.
            bind_outcome
              (if end_is_null raw_end
               then map_ok fst (record_set_null (record_len pushed - 1) MAX_FIELD_OFFSET pushed)
               else Ok pushed)
              (lossy_fields bs (end_offset raw_end) ends)))"

definition from_byte_record_lossy :: "record_storage \<Rightarrow> record_storage outcome" where
  "from_byte_record_lossy st =
     bind_outcome (try_from_storage st) (\<lambda>r.
       case r of
         Inr inner \<Rightarrow> Ok inner
       | Inl _ \<Rightarrow>
           map_ok
             (\<lambda>output. record_set_location (fr_byte_range st) (fr_index st) (set_null_aware (fr_null_aware st) output))
             (lossy_fields (fr_bytes st) 0 (fr_ends st) record_new))"

text \<open>\<open>TryFrom<&Record>\<close>: the entries of a borrowed record, each with its NULL mark.\<close>

fun text_entries :: "nat \<Rightarrow> (bytes \<times> bool) list \<Rightarrow> record_storage \<Rightarrow> (nat + record_storage) outcome" where
  "text_entries index [] output = Ok (Inr output)"
| "text_entries index ((field, is_null) # rest) output =
     (if is_null then bind_outcome (record_push_null MAX_FIELD_OFFSET output) (text_entries (index + 1) rest)
      else if \<not> valid_utf8 field then Ok (Inl index)
      else bind_outcome (record_push_field field MAX_FIELD_OFFSET output) (text_entries (index + 1) rest))"

definition text_try_from_record ::
    "(bytes \<times> bool) list \<Rightarrow> nat \<times> nat \<Rightarrow> nat \<Rightarrow> bool \<Rightarrow> (nat + record_storage) outcome" where
  "text_try_from_record entries extent index null_aware =
     map_ok (map_sum id (\<lambda>output. record_set_location extent index (set_null_aware null_aware output)))
       (text_entries 0 entries record_new)"

section \<open>A record behaves as a list of optional fields\<close>

datatype record_op = OpPush bytes | OpPushNull | OpSet nat bytes | OpSetNull nat | OpTruncate nat | OpClear

text \<open>What an operation does to a list of fields, and what it answers.\<close>

fun list_op :: "record_op \<Rightarrow> field_list \<Rightarrow> field_list" where
  "list_op (OpPush bs) fs = fs @ [Some bs]"
| "list_op OpPushNull fs = fs @ [None]"
| "list_op (OpSet i bs) fs = fs[i := Some bs]"
| "list_op (OpSetNull i) fs = fs[i := None]"
| "list_op (OpTruncate n) fs = take n fs"
| "list_op OpClear fs = []"

fun list_answer :: "record_op \<Rightarrow> field_list \<Rightarrow> bool" where
  "list_answer (OpSet i bs) fs \<longleftrightarrow> i < length fs"
| "list_answer (OpSetNull i) fs \<longleftrightarrow> i < length fs"
| "list_answer _ fs \<longleftrightarrow> True"

definition op_fits :: "record_op \<Rightarrow> field_list \<Rightarrow> bool" where
  "op_fits op fs \<longleftrightarrow> length (flat (list_op op fs)) \<le> MAX_FIELD_OFFSET"

fun op_argument :: "record_op \<Rightarrow> bytes" where
  "op_argument (OpPush bs) = bs"
| "op_argument (OpSet i bs) = bs"
| "op_argument _ = []"

fun byte_op :: "record_op \<Rightarrow> record_storage \<Rightarrow> (record_storage \<times> bool) outcome" where
  "byte_op (OpPush bs) st = map_ok (\<lambda>st'. (st', True)) (byte_push_field bs st)"
| "byte_op OpPushNull st = map_ok (\<lambda>st'. (st', True)) (byte_push_null st)"
| "byte_op (OpSet i bs) st = byte_set_field i bs st"
| "byte_op (OpSetNull i) st = byte_set_null i st"
| "byte_op (OpTruncate n) st = Ok (byte_truncate n st, True)"
| "byte_op OpClear st = Ok (byte_clear st, True)"

fun text_op :: "record_op \<Rightarrow> record_storage \<Rightarrow> (record_storage \<times> bool) outcome" where
  "text_op (OpPush bs) st = map_ok (\<lambda>st'. (st', True)) (text_push_field bs st)"
| "text_op OpPushNull st = map_ok (\<lambda>st'. (st', True)) (text_push_null st)"
| "text_op (OpSet i bs) st = text_set_field i bs st"
| "text_op (OpSetNull i) st = text_set_null i st"
| "text_op (OpTruncate n) st = Ok (text_truncate n st, True)"
| "text_op OpClear st = Ok (record_clear st, True)"

text \<open>A sequence of operations, with its answers.\<close>

fun run_ops :: "(record_op \<Rightarrow> 'r \<Rightarrow> ('r \<times> bool) outcome) \<Rightarrow> record_op list \<Rightarrow> 'r \<Rightarrow> ('r \<times> bool list) outcome" where
  "run_ops f [] r = Ok (r, [])"
| "run_ops f (op # ops) r =
     bind_outcome (f op r) (\<lambda>(r', answer). map_ok (\<lambda>(r'', answers). (r'', answer # answers)) (run_ops f ops r'))"

fun list_run :: "record_op list \<Rightarrow> field_list \<Rightarrow> field_list" where
  "list_run [] fs = fs"
| "list_run (op # ops) fs = list_run ops (list_op op fs)"

fun list_answers :: "record_op list \<Rightarrow> field_list \<Rightarrow> bool list" where
  "list_answers [] fs = []"
| "list_answers (op # ops) fs = list_answer op fs # list_answers ops (list_op op fs)"

fun run_fits :: "record_op list \<Rightarrow> field_list \<Rightarrow> bool" where
  "run_fits [] fs \<longleftrightarrow> True"
| "run_fits (op # ops) fs \<longleftrightarrow> op_fits op fs \<and> run_fits ops (list_op op fs)"

text \<open>
  The contract: on a record that holds a list of fields, an operation with an argument of the
  record's kind does what it does to the list, and panics when the fields would no longer fit.
\<close>

locale field_record =
  fixes record_op :: "record_op \<Rightarrow> 'r \<Rightarrow> ('r \<times> bool) outcome"
    and holds_fields :: "'r \<Rightarrow> field_list \<Rightarrow> bool"
    and argument_ok :: "bytes \<Rightarrow> bool"
  assumes op_holds: "holds_fields r fs \<Longrightarrow> argument_ok (op_argument op) \<Longrightarrow> op_fits op fs \<Longrightarrow>
      \<exists>r'. record_op op r = Ok (r', list_answer op fs) \<and> holds_fields r' (list_op op fs)"
    and op_overflows: "holds_fields r fs \<Longrightarrow> argument_ok (op_argument op) \<Longrightarrow> \<not> op_fits op fs \<Longrightarrow>
      record_op op r = Panic"
begin

lemma run_holds:
  "holds_fields r fs \<Longrightarrow> \<forall>op \<in> set ops. argument_ok (op_argument op) \<Longrightarrow> run_fits ops fs \<Longrightarrow>
     \<exists>r'. run_ops record_op ops r = Ok (r', list_answers ops fs) \<and> holds_fields r' (list_run ops fs)"
proof (induction ops arbitrary: r fs)
  case (Cons op ops)
  obtain r' where "record_op op r = Ok (r', list_answer op fs)" "holds_fields r' (list_op op fs)"
    using op_holds [of r fs op] Cons.prems by auto
  then show ?case using Cons.IH [of r' "list_op op fs"] Cons.prems by auto
qed simp

lemma run_overflows:
  "holds_fields r fs \<Longrightarrow> \<forall>op \<in> set ops. argument_ok (op_argument op) \<Longrightarrow> \<not> run_fits ops fs \<Longrightarrow>
     run_ops record_op ops r = Panic"
proof (induction ops arbitrary: r fs)
  case (Cons op ops)
  show ?case
  proof (cases "op_fits op fs")
    case True
    obtain r' where "record_op op r = Ok (r', list_answer op fs)" "holds_fields r' (list_op op fs)"
      using op_holds [of r fs op] Cons.prems True by auto
    then show ?thesis using Cons.IH [of r' "list_op op fs"] Cons.prems True by auto
  qed (use op_overflows [of r fs op] Cons.prems in simp)
qed simp

end

lemma invalidated [simp]:
  "represents (invalidate_source_metadata st) fs tail \<longleftrightarrow> represents st fs tail"
  "represents (record_set_location extent index st) fs tail \<longleftrightarrow> represents st fs tail"
  "represents (set_null_aware aware st) fs tail \<longleftrightarrow> represents st fs tail"
  by (simp_all add: represents_def invalidate_source_metadata_def record_set_location_def set_null_aware_def)

lemma represents_length: "represents st fs tail \<Longrightarrow> length (fr_bytes st) = length (flat fs) + length tail"
  by (simp add: represents_def)

lemma replaced_fits: "i < length fs \<Longrightarrow> replaced_length i (body g) fs [] = length (flat (fs[i := g]))"
  by (simp add: replaced_length_def upd_conv_take_nth_drop)

lemma byte_set_field_list:
  assumes "represents st fs []"
  shows "\<exists>st'. byte_set_field i bs st =
      (if length (flat (fs[i := Some bs])) \<le> MAX_FIELD_OFFSET then Ok (st', i < length fs) else Panic) \<and>
    (length (flat (fs[i := Some bs])) \<le> MAX_FIELD_OFFSET \<longrightarrow> represents st' (fs[i := Some bs]) [])"
proof (cases "i < length fs")
  case False
  then show ?thesis
    using represents_bound [OF assms] assms
    by (simp add: byte_set_field_def try_set_field_equal_absent [OF assms] not_less list_update_beyond)
next
  case True
  note fits = replaced_fits [OF True, of "Some bs", simplified]
  show ?thesis
  proof (cases "length bs = length (body (fs ! i))")
    case same: True
    have "replaced_length i bs fs [] = length (flat fs)"
      using flat_split [OF True] same by (simp add: replaced_length_def)
    then have "length (flat (fs[i := Some bs])) \<le> MAX_FIELD_OFFSET"
      using represents_bound [OF assms] fits by simp
    then show ?thesis
      using try_set_field_equal_represents [OF assms True, of bs] same True by (auto simp: byte_set_field_def)
  next
    case False
    then show ?thesis
      using try_set_field_equal_represents [OF assms True, of bs] True fits
        record_set_field_represents [OF assms order_refl True, of bs]
      by (auto simp: byte_set_field_def)
  qed
qed

lemma byte_set_null_list:
  assumes "represents st fs []"
  shows "\<exists>st'. byte_set_null i st = Ok (st', i < length fs) \<and> represents st' (fs[i := None]) []"
proof (cases "i < length fs")
  case True
  have "replaced_length i [] fs [] \<le> MAX_FIELD_OFFSET"
    using represents_bound [OF assms] flat_split [OF True] by (simp add: replaced_length_def)
  then show ?thesis
    using record_set_null_represents [OF assms order_refl True] True by (auto simp: byte_set_null_def)
next
  case False
  then have "length fs \<le> i" by simp
  then show ?thesis using assms by (simp add: byte_set_null_def record_set_null_absent [OF assms] list_update_beyond)
qed

lemma shrunk_fits: "length (flat fs) \<le> n \<Longrightarrow> length (flat (take k fs)) \<le> n"
  using length_flat_take [of k fs] by simp

lemma nulled_fits: "length (flat fs) \<le> n \<Longrightarrow> length (flat (fs[i := None])) \<le> n"
  by (cases "i < length fs") (auto simp: upd_conv_take_nth_drop flat_split not_less list_update_beyond)

interpretation byte_record: field_record byte_op "\<lambda>st fs. represents st fs []" "\<lambda>_. True"
proof
  fix st fs op
  assume st: "represents st fs []"
  note bound = represents_bound [OF st, simplified]
  show "\<exists>st'. byte_op op st = Ok (st', list_answer op fs) \<and> represents st' (list_op op fs) []" if "op_fits op fs"
  proof (cases op)
    case (OpPush bs)
    then show ?thesis
      using record_push_field_represents [OF st order_refl, of bs] that represents_length [OF st]
      by (auto simp: byte_push_field_def op_fits_def)
  next
    case OpPushNull
    then show ?thesis
      using record_push_null_represents [OF st, of MAX_FIELD_OFFSET] represents_length [OF st] bound
      by (auto simp: byte_push_null_def)
  next
    case (OpSet i bs)
    then show ?thesis using byte_set_field_list [OF st, of i bs] that by (auto simp: op_fits_def)
  next
    case (OpSetNull i)
    then show ?thesis using byte_set_null_list [OF st, of i] by auto
  next
    case (OpTruncate n)
    then show ?thesis
      using record_truncate_represents [OF st, of n] st
      by (auto simp: byte_truncate_def record_len_represents [OF st])
  next
    case OpClear
    then show ?thesis by (simp add: byte_clear_def record_clear_represents)
  qed
  show "byte_op op st = Panic" if "\<not> op_fits op fs"
  proof (cases op)
    case (OpPush bs)
    then show ?thesis
      using record_push_field_represents [OF st order_refl, of bs] that represents_length [OF st]
      by (auto simp: byte_push_field_def op_fits_def)
  next
    case (OpSet i bs)
    then show ?thesis using byte_set_field_list [OF st, of i bs] that by (auto simp: op_fits_def)
  qed (use that bound in \<open>auto simp: op_fits_def shrunk_fits nulled_fits\<close>)
qed

section \<open>The iterators\<close>

lemma byte_collect_fields:
  assumes "represents st fs []"
  shows "i \<le> length fs \<Longrightarrow> length fs - i < n \<Longrightarrow>
    byte_collect n st (i, length (flat (take i fs))) = Ok (map body (drop i fs))"
proof (induction n arbitrary: i)
  case (Suc n)
  show ?case
  proof (cases "i < length fs")
    case True
    let ?p = "length (flat (take i fs))" and ?q = "length (flat (take (Suc i) fs))"
    have range: "record_range i st = Some (?p, ?q)"
      using represents_end [OF assms, of i] represents_start [OF assms, of i] True
      by (simp add: record_range_def flat_take_Suc)
    have "get_range (fr_bytes st) ?p ?q = Some (body (fs ! i))"
      by (simp add: bytes_around [OF assms True] get_range_def slice_def flat_take_Suc [OF True])
    then show ?thesis
      using Suc.IH [of "Suc i"] Suc.prems True range
      by (simp add: byte_iter_next_def Cons_nth_drop_Suc [symmetric] Suc_diff_Suc)
  next
    case False
    then show ?thesis
      using Suc.prems represents_end(1) [OF assms, of i] by (simp add: byte_iter_next_def record_range_def)
  qed
qed simp

lemma byte_fields_list: "represents st fs [] \<Longrightarrow> byte_fields st = Ok (map body fs)"
  using byte_collect_fields [of st fs 0 "length fs + 1"]
  by (simp add: byte_fields_def byte_iter_def record_len_represents)

lemma record_fields_list: "represents st fs [] \<Longrightarrow> record_fields st = map (\<lambda>f. Some (body f)) fs"
  by (rule nth_equalityI) (auto simp: record_fields_def record_len_represents record_get_represents)

lemma byte_extend_fields:
  "represents st fs [] \<Longrightarrow> length (flat (fs @ map Some bss)) \<le> MAX_FIELD_OFFSET \<Longrightarrow>
     \<exists>st'. byte_extend bss st = Ok st' \<and> represents st' (fs @ map Some bss) []"
proof (induction bss arbitrary: st fs)
  case (Cons bs bss)
  obtain st' where "record_push_field bs MAX_FIELD_OFFSET st = Ok st'" "represents st' (fs @ [Some bs]) []"
    using record_push_field_represents [OF Cons.prems(1) order_refl, of bs] Cons.prems(2)
      represents_length [OF Cons.prems(1)] by auto
  then show ?case
    using Cons.IH [of "invalidate_source_metadata st'" "fs @ [Some bs]"] Cons.prems(2)
    by (auto simp: byte_push_field_def)
qed simp

lemma replace_entries_fields:
  "represents st fs [] \<Longrightarrow> \<forall>(bs, null) \<in> set es. null \<longrightarrow> bs = [] \<Longrightarrow>
     length (flat fs) + sum_list (map (length \<circ> fst) es) \<le> MAX_FIELD_OFFSET \<Longrightarrow>
     \<exists>st'. replace_entries es st = Ok st' \<and>
       represents st' (fs @ map (\<lambda>(bs, null). if null then None else Some bs) es) []"
proof (induction es arbitrary: st fs)
  case (Cons e es)
  obtain bs null where e: "e = (bs, null)" by force
  show ?case
  proof (cases null)
    case True
    then show ?thesis
      using Cons.IH [of "append_null_field st" "fs @ [None]"] Cons.prems append_null_field_represents [of st fs]
      by (auto simp: e)
  next
    case False
    obtain st' where "record_push_field bs MAX_FIELD_OFFSET st = Ok st'" "represents st' (fs @ [Some bs]) []"
      using record_push_field_represents [OF Cons.prems(1) order_refl, of bs] Cons.prems(3)
        represents_length [OF Cons.prems(1)] by (auto simp: e)
    then show ?thesis
      using Cons.IH [of st' "fs @ [Some bs]"] Cons.prems(2,3) False by (auto simp: e add.assoc)
  qed
qed simp

lemma position_map: "position P (map f xs) = position (P \<circ> f) xs"
  by (induction xs) auto

section \<open>Validation finds the first invalid field\<close>

lemma all_valid_flat: "\<forall>f \<in> set fs. valid_utf8 (body f) \<Longrightarrow> valid_utf8 (flat fs)"
  by (induction fs) (auto simp: valid_utf8_append)

lemma ascii_fields: "is_ascii (flat fs) \<Longrightarrow> f \<in> set fs \<Longrightarrow> valid_utf8 (body f)"
  by (rule ascii_valid) (auto simp: is_ascii_def flat_def list_all_iff)

lemma boundary_here:
  assumes "\<forall>f \<in> set fs. valid_utf8 (body f)" "valid_utf8 (flat fs @ rest)"
  shows "is_char_boundary (flat fs @ rest) (length (flat fs))"
  using valid_utf8_boundary [OF all_valid_flat [OF assms(1)]] assms valid_utf8_append [OF all_valid_flat [OF assms(1)]]
  by blast

lemma first_broken_end:
  assumes "valid_utf8 (flat (take i fs) @ body (fs ! i) @ rest)" "\<forall>f \<in> set (take i fs). valid_utf8 (body f)"
  shows "is_char_boundary (flat (take i fs) @ body (fs ! i) @ rest) (length (flat (take i fs) @ body (fs ! i))) \<longleftrightarrow>
    valid_utf8 (body (fs ! i))"
proof
  let ?a = "flat (take i fs)"
  have a: "valid_utf8 ?a" by (rule all_valid_flat [OF assms(2)])
  assume "is_char_boundary (?a @ body (fs ! i) @ rest) (length (?a @ body (fs ! i)))"
  then have "valid_utf8 (?a @ body (fs ! i))"
    using valid_utf8_split [of "?a @ body (fs ! i)" rest] assms(1) by simp
  then show "valid_utf8 (body (fs ! i))" using valid_utf8_append [OF a] by simp
next
  let ?a = "flat (take i fs)"
  assume b: "valid_utf8 (body (fs ! i))"
  have a: "valid_utf8 (?a @ body (fs ! i))" using all_valid_flat [OF assms(2)] b valid_utf8_append by blast
  then have "valid_utf8 rest" using assms(1) valid_utf8_append [OF a, of rest] by simp
  then show "is_char_boundary (?a @ body (fs ! i) @ rest) (length (?a @ body (fs ! i)))"
    using valid_utf8_boundary [OF a, of rest] by simp
qed

lemma first_broken_position:
  assumes "represents st fs []" "valid_utf8 (fr_bytes st)"
  shows "position (\<lambda>e. \<not> is_char_boundary (fr_bytes st) (end_offset e)) (fr_ends st) =
    position (\<lambda>f. \<not> valid_utf8 (body f)) fs"
proof -
  have ends: "length (fr_ends st) = length fs" using assms(1) by (simp add: represents_def)
  have bytes: "fr_bytes st = flat (take i fs) @ body (fs ! i) @ flat (drop (Suc i) fs)" if "i < length fs" for i
    using bytes_around [OF assms(1) that] by simp
  have here: "is_char_boundary (fr_bytes st) (end_offset (fr_ends st ! i)) \<longleftrightarrow> valid_utf8 (body (fs ! i))"
    if "i < length fs" "\<forall>j < i. valid_utf8 (body (fs ! j))" for i
  proof -
    have "\<forall>f \<in> set (take i fs). valid_utf8 (body f)" using that by (auto simp: in_set_conv_nth)
    then show ?thesis
      using first_broken_end [of i fs "flat (drop (Suc i) fs)"] assms(2) bytes [OF that(1)]
        represents_end(2) [OF assms(1) that(1)] by simp
  qed
  show ?thesis
  proof (cases "position (\<lambda>f. \<not> valid_utf8 (body f)) fs")
    case None
    then have "\<forall>i < length fs. valid_utf8 (body (fs ! i))" by (auto simp: position_None_iff)
    then have "\<forall>i < length fs. is_char_boundary (fr_bytes st) (end_offset (fr_ends st ! i))" using here by auto
    then have "position (\<lambda>e. \<not> is_char_boundary (fr_bytes st) (end_offset e)) (fr_ends st) = None"
      using ends by (auto simp: position_None_iff in_set_conv_nth)
    then show ?thesis using None by simp
  next
    case (Some i)
    then have i: "i < length fs" "\<not> valid_utf8 (body (fs ! i))" "\<forall>j < i. valid_utf8 (body (fs ! j))"
      by (auto simp: position_Some_iff)
    then have "position (\<lambda>e. \<not> is_char_boundary (fr_bytes st) (end_offset e)) (fr_ends st) = Some i"
      using here ends by (auto simp: position_Some_iff)
    then show ?thesis using Some by simp
  qed
qed

lemma validate_utf8_first:
  assumes "represents st fs []"
  shows "validate_utf8 st = Ok (map_option InvalidField (position (\<lambda>f. \<not> valid_utf8 (body f)) fs))"
proof -
  have bytes: "fr_bytes st = flat fs" using assms by (simp add: represents_def)
  have fields: "position invalid_field (record_fields st) = position (\<lambda>f. \<not> valid_utf8 (body f)) fs"
    unfolding record_fields_list [OF assms] by (induction fs) (auto simp: invalid_field_def)
  consider (ascii) "is_ascii (flat fs)" | (broken) "\<not> is_ascii (flat fs)" "\<not> valid_utf8 (flat fs)"
    | (valid) "\<not> is_ascii (flat fs)" "valid_utf8 (flat fs)" by blast
  then show ?thesis
  proof cases
    case ascii
    then have "position (\<lambda>f. \<not> valid_utf8 (body f)) fs = None" using ascii_fields by (auto simp: position_None_iff)
    then show ?thesis using ascii by (simp add: validate_utf8_def bytes)
  next
    case broken
    then have "position (\<lambda>f. \<not> valid_utf8 (body f)) fs \<noteq> None" using all_valid_flat by (auto simp: position_None_iff)
    then show ?thesis using broken fields by (auto simp: validate_utf8_def bytes)
  next
    case valid
    then have "position (\<lambda>e. \<not> is_char_boundary (fr_bytes st) (end_offset e)) (fr_ends st) =
        position (\<lambda>f. \<not> valid_utf8 (body f)) fs"
      using first_broken_position [OF assms] bytes by simp
    moreover have "invalid_field (record_fields st ! i)" if "position (\<lambda>f. \<not> valid_utf8 (body f)) fs = Some i" for i
      using that by (simp add: position_Some_iff record_fields_list [OF assms] invalid_field_def)
    ultimately show ?thesis
      using valid by (cases "position (\<lambda>f. \<not> valid_utf8 (body f)) fs") (simp_all add: validate_utf8_def bytes)
  qed
qed

section \<open>Text records hold text\<close>

text \<open>A text operation is the byte operation of the same name.\<close>

lemma set_location_invalidates: "record_set_location (0, 0) 0 = invalidate_source_metadata"
  by (rule ext) (simp add: record_set_location_def invalidate_source_metadata_def)

lemma text_ops:
  "text_push_field = byte_push_field" "text_push_null = byte_push_null" "text_set_field = byte_set_field"
  "text_set_null = byte_set_null" "text_truncate = byte_truncate" "record_clear = byte_clear"
  unfolding fun_eq_iff text_push_field_def byte_push_field_def text_push_null_def byte_push_null_def text_set_field_def
    byte_set_field_def text_set_null_def byte_set_null_def text_truncate_def byte_truncate_def byte_clear_def
    record_clear_def set_location_invalidates
  by (rule allI refl)+

lemma text_op_byte_op: "text_op op st = byte_op op st"
  by (cases op) (simp_all add: text_ops)

definition holds_text :: "record_storage \<Rightarrow> field_list \<Rightarrow> bool" where
  "holds_text st fs \<longleftrightarrow> represents st fs [] \<and> (\<forall>f \<in> set fs. valid_utf8 (body f))"

lemma list_op_text:
  "valid_utf8 (op_argument op) \<Longrightarrow> \<forall>f \<in> set fs. valid_utf8 (body f) \<Longrightarrow> \<forall>f \<in> set (list_op op fs). valid_utf8 (body f)"
  by (cases op) (auto dest!: set_update_subset_insert [THEN subsetD] dest: in_set_takeD)

interpretation text_record: field_record text_op holds_text valid_utf8
proof
  fix st fs op
  assume st: "holds_text st fs" and arg: "valid_utf8 (op_argument op)"
  show "\<exists>st'. text_op op st = Ok (st', list_answer op fs) \<and> holds_text st' (list_op op fs)" if "op_fits op fs"
    using byte_record.op_holds [of st fs op] list_op_text [OF arg, of fs] st that
    by (auto simp: holds_text_def text_op_byte_op)
  show "text_op op st = Panic" if "\<not> op_fits op fs"
    using byte_record.op_overflows [of st fs op] st that by (simp add: holds_text_def text_op_byte_op)
qed

section \<open>How records come about\<close>

text \<open>
  A byte record outside the parsers: empty, after an operation that did not panic, after copying a
  borrowed record into it, or moved to another location.
\<close>

inductive byte_built :: "record_storage \<Rightarrow> bool" where
  byte_empty: "byte_built record_new"
| byte_step: "byte_built st \<Longrightarrow> byte_op op st = Ok (st', answer) \<Longrightarrow> byte_built st'"
| byte_replaced: "byte_built st \<Longrightarrow> replace_from entries extent index aware st = Ok st' \<Longrightarrow> byte_built st'"
| byte_moved: "byte_built st \<Longrightarrow> byte_built (record_set_location extent index st)"

text \<open>
  A text record: empty, converted from a byte record strictly or lossily, converted from a borrowed
  record, after an operation with text arguments, after a refill, or moved. The refill closure is
  modelled by what it did to the cleared storage it was lent: any operations of a byte record, then
  where it found the record, and it answers with an error or without the ASCII certificate, so that
  the storage is validated. It may leave any bytes behind, also when it fails.
\<close>

inductive text_built :: "record_storage \<Rightarrow> bool" where
  text_empty: "text_built record_new"
| text_from: "byte_built st \<Longrightarrow> text_try_from st = Ok (Inr st') \<Longrightarrow> text_built st'"
| text_lossy: "byte_built st \<Longrightarrow> from_byte_record_lossy st = Ok st' \<Longrightarrow> text_built st'"
| text_from_record: "text_try_from_record entries extent index aware = Ok (Inr st) \<Longrightarrow> text_built st"
| text_step: "text_built st \<Longrightarrow> valid_utf8 (op_argument op) \<Longrightarrow> text_op op st = Ok (st', answer) \<Longrightarrow> text_built st'"
| text_refill: "text_built st \<Longrightarrow> run_ops byte_op ops (record_clear st) = Ok (filled, answers) \<Longrightarrow>
    (found :: error + text_validity) \<noteq> Inr TextAscii \<Longrightarrow>
    refill_with_validity (\<lambda>_. (record_set_location extent index (set_null_aware aware filled), found)) st =
      Ok (st', r) \<Longrightarrow> text_built st'"
| text_moved: "text_built st \<Longrightarrow> text_built (record_set_location extent index st)"
| text_rebase: "text_built st \<Longrightarrow> text_built (rebase_location consumed st)"

lemma byte_op_holds: "represents st fs [] \<Longrightarrow> byte_op op st = Ok (st', answer) \<Longrightarrow> represents st' (list_op op fs) []"
  using byte_record.op_holds [of st fs op] byte_record.op_overflows [of st fs op] by (cases "op_fits op fs") auto

lemma byte_run_holds:
  "represents st fs [] \<Longrightarrow> run_ops byte_op ops st = Ok (st', answers) \<Longrightarrow> represents st' (list_run ops fs) []"
  using byte_record.run_holds [of st fs ops] byte_record.run_overflows [of st fs ops]
  by (cases "run_fits ops fs") auto

lemma pushed_represents:
  "represents st fs [] \<Longrightarrow> record_push_field bs MAX_FIELD_OFFSET st = Ok st' \<Longrightarrow> represents st' (fs @ [Some bs]) []"
  using record_push_field_represents [of st fs "[]" MAX_FIELD_OFFSET bs] by (auto split: if_splits)

lemma null_pushed_represents:
  "represents st fs [] \<Longrightarrow> record_push_null MAX_FIELD_OFFSET st = Ok st' \<Longrightarrow> represents st' (fs @ [None]) []"
  using record_push_null_represents [of st fs MAX_FIELD_OFFSET] by (auto split: if_splits)

lemma replaced_represents:
  "represents st fs [] \<Longrightarrow> replace_entries es st = Ok st' \<Longrightarrow> \<exists>gs. represents st' gs []"
proof (induction es st arbitrary: fs rule: replace_entries.induct)
  case (2 field is_null rest st)
  then show ?case
    using append_null_field_represents [of st fs] pushed_represents [of st fs field]
    by (auto simp: bind_outcome_Ok_iff split: if_splits)
qed auto

lemma byte_built_represents: "byte_built st \<Longrightarrow> \<exists>fs. represents st fs []"
proof (induction rule: byte_built.induct)
  case byte_empty
  show ?case using represents_new by blast
next
  case (byte_replaced st entries extent index aware st')
  then show ?case
    using replaced_represents [OF record_clear_represents(1)]
    by (auto simp: replace_from_def map_ok_Ok_iff)
qed (auto dest: byte_op_holds)

lemma validated_text:
  assumes "represents st fs []" "validate_utf8 st = Ok None"
  shows "holds_text st fs"
  using assms validate_utf8_first [OF assms(1)] by (auto simp: holds_text_def position_None_iff)

lemma tried_text:
  assumes "represents st fs []" "try_from_storage st = Ok (Inr st')"
  shows "holds_text st' fs"
  using assms validated_text [OF assms(1)] by (auto simp: try_from_storage_def map_ok_Ok_iff split: option.splits)

lemma refilled_text:
  assumes "represents s fs []" "a \<noteq> Inr TextAscii" "refill_with_validity (\<lambda>_. (s, a)) st = Ok (st', r)"
  shows "holds_text st' fs \<or> holds_text st' []"
proof -
  have empty: "holds_text (record_clear s) []" by (simp add: holds_text_def record_clear_represents)
  then show ?thesis
    using assms(2,3) validated_text [OF assms(1)]
    by (auto simp: refill_with_validity_def bind_outcome_Ok_iff split: sum.splits option.splits if_splits)
qed

text \<open>A lossy conversion replaces what is invalid, so that its result is valid text.\<close>

lemma utf8_width_valid: "utf8_width bs = Some w \<Longrightarrow> valid_utf8 (take w bs)"
  using utf8_width_take [of "take w bs" "drop w bs" w] utf8_width_bounds [of bs w]
    valid_utf8_step [of "take w bs" w] by simp

lemma replacement_valid: "valid_utf8 replacement_character"
  by (simp add: replacement_character_def valid_utf8.simps lead_width_def second_allowed_def is_continuation_def slice_def)

lemma lossy_valid: "valid_utf8 (from_utf8_lossy bs)"
proof (induction bs rule: from_utf8_lossy.induct)
  case (1 bs)
  then show ?case
    by (subst from_utf8_lossy.simps)
      (auto simp: valid_utf8_append utf8_width_valid replacement_valid split: option.splits)
qed

lemma lossy_exact: "valid_utf8 bs \<Longrightarrow> from_utf8_lossy bs = bs"
proof (induction bs rule: from_utf8_lossy.induct)
  case (1 bs)
  show ?case
  proof (cases "bs = []")
    case False
    then obtain w where w: "utf8_width bs = Some w" using valid_utf8_width [OF 1(3)] by blast
    then have "from_utf8_lossy (drop w bs) = drop w bs" using 1(2) [OF False w] 1(3) valid_utf8_step [OF w] by simp
    then show ?thesis using False w by (subst from_utf8_lossy.simps) simp
  qed (simp add: from_utf8_lossy.simps)
qed

lemma lossy_fields_list:
  assumes "holds_text out hs" "length (flat fs) + length (flat gs) \<le> MAX_FIELD_OFFSET"
    "lossy_fields (flat fs @ flat gs) (length (flat fs)) (pack (length (flat fs)) gs) out = Ok out'"
  shows "holds_text out' (hs @ map (map_option from_utf8_lossy) gs)"
  using assms
proof (induction gs arbitrary: out hs fs)
  case (Cons g gs)
  let ?from = "length (flat fs)"
  let ?to = "?from + length (body g)"
  let ?raw = "encode_end ?to (g = None)"
  have bound: "?to \<le> MAX_FIELD_OFFSET" using Cons.prems(2) by simp
  note raw = end_of_encode(1,2) [OF bound, of "g = None"]
  have field: "get_range (flat fs @ body g @ flat gs) ?from ?to = Some (body g)"
    by (simp add: get_range_def slice_def)
  obtain pushed out'' where pushed: "record_push_field (from_utf8_lossy (body g)) MAX_FIELD_OFFSET out = Ok pushed"
    and marked: "(if g = None then map_ok fst (record_set_null (record_len pushed - 1) MAX_FIELD_OFFSET pushed)
      else Ok pushed) = Ok out''"
    and rest: "lossy_fields (flat fs @ flat (g # gs)) ?to (pack ?to gs) out'' = Ok out'"
    using Cons.prems(3) by (auto simp: raw field bind_outcome_Ok_iff)
  have hs: "represents out hs []" "\<forall>f \<in> set hs. valid_utf8 (body f)"
    using Cons.prems(1) by (simp_all add: holds_text_def)
  have p: "represents pushed (hs @ [Some (from_utf8_lossy (body g))]) []" by (rule pushed_represents [OF hs(1) pushed])
  have "represents out'' (hs @ [map_option from_utf8_lossy g]) []"
  proof (cases g)
    case None
    then show ?thesis
      using marked record_set_null_represents [OF p order_refl, of "length hs"] record_len_represents [OF p]
      by (auto simp: map_ok_Ok_iff split: if_splits)
  qed (use marked p in simp)
  then have "holds_text out'' (hs @ [map_option from_utf8_lossy g])"
    using hs(2) lossy_valid by (cases g) (simp_all add: holds_text_def)
  then show ?case
    using Cons.IH [of out'' "hs @ [map_option from_utf8_lossy g]" "fs @ [g]"] Cons.prems(2) rest by (simp add: add.assoc)
qed simp

lemma lossy_fields_total:
  assumes "represents out hs []" "length (flat fs) + length (flat gs) \<le> MAX_FIELD_OFFSET"
    "length (flat (hs @ map (map_option from_utf8_lossy) gs)) \<le> MAX_FIELD_OFFSET"
  shows "\<exists>out'. lossy_fields (flat fs @ flat gs) (length (flat fs)) (pack (length (flat fs)) gs) out = Ok out'"
  using assms
proof (induction gs arbitrary: out hs fs)
  case (Cons g gs)
  let ?from = "length (flat fs)"
  let ?to = "?from + length (body g)"
  have bound: "?to \<le> MAX_FIELD_OFFSET" using Cons.prems(2) by simp
  note raw = end_of_encode(1,2) [OF bound, of "g = None"]
  have field: "get_range (flat fs @ body g @ flat gs) ?from ?to = Some (body g)"
    by (simp add: get_range_def slice_def)
  have lossy: "body (map_option from_utf8_lossy g) = from_utf8_lossy (body g)"
    by (cases g) (simp_all add: from_utf8_lossy.simps)
  then obtain pushed where pushed: "record_push_field (from_utf8_lossy (body g)) MAX_FIELD_OFFSET out = Ok pushed"
    "represents pushed (hs @ [Some (from_utf8_lossy (body g))]) []"
    using record_push_field_represents [OF Cons.prems(1) order_refl, of "from_utf8_lossy (body g)"] Cons.prems(3)
      represents_length [OF Cons.prems(1)] by auto
  have "\<exists>out''. (if g = None then map_ok fst (record_set_null (record_len pushed - 1) MAX_FIELD_OFFSET pushed)
      else Ok pushed) = Ok out'' \<and> represents out'' (hs @ [map_option from_utf8_lossy g]) []"
  proof (cases g)
    case None
    then have "replaced_length (length hs) [] (hs @ [Some []]) [] \<le> MAX_FIELD_OFFSET"
      using represents_bound [OF pushed(2)] by (simp add: replaced_length_def)
    then show ?thesis
      using record_set_null_represents [OF pushed(2) order_refl, of "length hs"] record_len_represents [OF pushed(2)] None
      by (auto simp: from_utf8_lossy.simps)
  qed (use pushed in simp)
  then show ?case
    using Cons.IH [of _ "hs @ [map_option from_utf8_lossy g]" "fs @ [g]"] Cons.prems(2,3) pushed(1)
    by (auto simp: raw field add.assoc)
qed simp

lemma lossy_text:
  assumes st: "represents st fs []" and lossy: "from_byte_record_lossy st = Ok st'"
  shows "holds_text st' (map (map_option from_utf8_lossy) fs)"
proof -
  obtain r where r: "try_from_storage st = Ok r"
    "(case r of Inr inner \<Rightarrow> Ok inner
      | Inl _ \<Rightarrow> map_ok
          (\<lambda>output. record_set_location (fr_byte_range st) (fr_index st) (set_null_aware (fr_null_aware st) output))
          (lossy_fields (fr_bytes st) 0 (fr_ends st) record_new)) = Ok st'"
    using lossy by (auto simp: from_byte_record_lossy_def bind_outcome_Ok_iff)
  show ?thesis
  proof (cases r)
    case (Inl e)
    then obtain out where "lossy_fields (fr_bytes st) 0 (fr_ends st) record_new = Ok out"
      "st' = record_set_location (fr_byte_range st) (fr_index st) (set_null_aware (fr_null_aware st) out)"
      using r(2) by (auto simp: map_ok_Ok_iff)
    moreover have "holds_text record_new []" by (simp add: holds_text_def represents_new)
    ultimately have "holds_text out (map (map_option from_utf8_lossy) fs)"
      using lossy_fields_list [of record_new "[]" "[]" fs out] st by (simp add: represents_def)
    then show ?thesis using \<open>st' = _\<close> by (simp add: holds_text_def)
  next
    case (Inr inner)
    then have "holds_text st' fs" using tried_text [OF st] r by simp
    moreover from this have "map (map_option from_utf8_lossy) fs = fs"
      by (auto simp: holds_text_def intro!: map_idI split: option.splits) (metis body_simps(2) lossy_exact option.exhaust option.map(1,2))
    ultimately show ?thesis by simp
  qed
qed

lemma lossy_total:
  assumes st: "represents st fs []"
    and fits: "length (flat (map (map_option from_utf8_lossy) fs)) \<le> MAX_FIELD_OFFSET"
  shows "\<exists>st'. from_byte_record_lossy st = Ok st' \<and> holds_text st' (map (map_option from_utf8_lossy) fs)"
proof -
  have "\<exists>out. lossy_fields (fr_bytes st) 0 (fr_ends st) record_new = Ok out"
    using lossy_fields_total [OF represents_new, of "[]" fs] st fits by (simp add: represents_def)
  moreover have "\<exists>r. try_from_storage st = Ok r"
    using validate_utf8_first [OF st] by (simp add: try_from_storage_def)
  ultimately have "\<exists>st'. from_byte_record_lossy st = Ok st'"
    by (auto simp: from_byte_record_lossy_def split: sum.splits)
  then show ?thesis using lossy_text [OF st] by blast
qed

lemma byte_run_built: "byte_built st \<Longrightarrow> run_ops byte_op ops st = Ok (st', answers) \<Longrightarrow> byte_built st'"
  by (induction ops arbitrary: st answers) (auto simp: bind_outcome_Ok_iff map_ok_Ok_iff intro: byte_step)

lemma entries_text:
  "holds_text out hs \<Longrightarrow> text_entries i entries out = Ok (Inr out') \<Longrightarrow> \<exists>gs. holds_text out' gs"
proof (induction i entries out arbitrary: hs rule: text_entries.induct)
  case (2 i field is_null rest out)
  show ?case
  proof (cases is_null)
    case True
    then obtain p where "record_push_null MAX_FIELD_OFFSET out = Ok p" "text_entries (i + 1) rest p = Ok (Inr out')"
      using 2(4) by (auto simp: bind_outcome_Ok_iff)
    moreover have "holds_text p (hs @ [None])"
      using null_pushed_represents [of out hs p] calculation(1) 2(3) by (simp add: holds_text_def)
    ultimately show ?thesis using 2(1) True by blast
  next
    case False
    then obtain p where "valid_utf8 field" "record_push_field field MAX_FIELD_OFFSET out = Ok p"
      "text_entries (i + 1) rest p = Ok (Inr out')"
      using 2(4) by (auto simp: bind_outcome_Ok_iff split: if_splits)
    moreover have "holds_text p (hs @ [Some field])"
      using pushed_represents [of out hs field p] calculation(1,2) 2(3) by (simp add: holds_text_def)
    ultimately show ?thesis using 2(2) False by blast
  qed
qed auto

lemma map_sum_Inr: "Inr b = map_sum f g r \<longleftrightarrow> (\<exists>a. r = Inr a \<and> b = g a)"
  by (cases r) auto

lemma text_built_holds: "text_built st \<Longrightarrow> \<exists>fs. holds_text st fs"
proof (induction rule: text_built.induct)
  case text_empty
  show ?case using represents_new by (auto simp: holds_text_def)
next
  case (text_from st st')
  obtain fs where fs: "represents st fs []" using byte_built_represents [OF text_from(1)] by blast
  obtain r where r: "try_from_storage st = Ok r"
    "(case r of Inr s \<Rightarrow> Ok (Inr s) | Inl _ \<Rightarrow> map_ok Inl (field_utf8_error st)) = Ok (Inr st')"
    using text_from(2) by (auto simp: text_try_from_def bind_outcome_Ok_iff)
  then have "r = Inr st'" by (cases r) (auto simp: map_ok_Ok_iff)
  then show ?case using r(1) tried_text [OF fs] by blast
next
  case (text_lossy st st')
  then show ?case using byte_built_represents lossy_text by blast
next
  case (text_from_record entries extent index aware st)
  then obtain out where "text_entries 0 entries record_new = Ok (Inr out)"
    "st = record_set_location extent index (set_null_aware aware out)"
    by (auto simp: text_try_from_record_def map_ok_Ok_iff map_sum_Inr)
  moreover have "holds_text record_new []" by (simp add: holds_text_def represents_new)
  ultimately show ?case using entries_text [of record_new "[]"] by (fastforce simp: holds_text_def)
next
  case (text_step st op st' answer)
  then obtain fs where fs: "holds_text st fs" by blast
  then show ?case
    using text_record.op_holds [OF fs text_step(2)] text_record.op_overflows [OF fs text_step(2)] text_step(3)
    by (cases "op_fits op fs") auto
next
  case (text_refill st ops filled answers found extent index aware st' r)
  have "represents (record_set_location extent index (set_null_aware aware filled)) (list_run ops []) []"
    using byte_run_holds [OF record_clear_represents(1) text_refill(2)] by simp
  then show ?case using refilled_text text_refill(3,4) by blast
qed (auto simp: holds_text_def rebase_location_def split: prod.splits)

section \<open>Theorems\<close>

text \<open>
  C26: Whatever sequence of pushes, NULL pushes, replacements, NULL replacements, truncations and
  clears is run on a new byte record, the record afterwards answers its length, every \<open>get\<close>, every
  \<open>is_null\<close> and its iterator as the list of optional fields on which the same operations were run,
  and every replacement answers whether its field was there. It panics exactly when the bytes of the
  fields would pass the largest offset an end can pack.
\<close>

theorem owned_record_is_field_list:
  "case run_ops byte_op ops record_new of
     Ok (r, answers) \<Rightarrow>
       (let fs = list_run ops []
        in run_fits ops [] \<and> answers = list_answers ops [] \<and> record_len r = length fs \<and>
           byte_fields r = Ok (map body fs) \<and>
           record_get i r = (if i < length fs then Some (Some (body (fs ! i))) else None) \<and>
           record_is_null i r = (if i < length fs then Some (fs ! i = None) else None))
   | Panic \<Rightarrow> \<not> run_fits ops []
   | Err _ \<Rightarrow> False"
proof (cases "run_fits ops []")
  case True
  then obtain r where "run_ops byte_op ops record_new = Ok (r, list_answers ops [])"
    and r: "represents r (list_run ops []) []"
    using byte_record.run_holds [OF represents_new, of ops] by auto
  then show ?thesis
    using True
    by (simp add: record_len_represents [OF r] byte_fields_list [OF r] record_get_represents [OF r]
        record_is_null_represents [OF r])
qed (use byte_record.run_overflows [OF represents_new, of ops] in simp)

text \<open>
  C28: Turning a byte record into a text record succeeds exactly when every field is valid UTF-8, and
  otherwise reports the first field that is not, also when the bytes of all fields together are valid
  and an end cuts a character. The branch marked unreachable is not reached.
\<close>

theorem text_conversion_exact:
  assumes "run_ops byte_op ops record_new = Ok (st, answers)"
  shows "text_try_from st =
    Ok (case position (\<lambda>f. \<not> valid_utf8 (body f)) (list_run ops []) of None \<Rightarrow> Inr st | Some i \<Rightarrow> Inl i)"
proof -
  let ?fs = "list_run ops []"
  have st: "represents st ?fs []"
    using assms byte_record.run_holds [OF represents_new, of ops] byte_record.run_overflows [OF represents_new, of ops]
    by (cases "run_fits ops []") auto
  have same: "position (\<lambda>f. \<not> valid_utf8 f) (map body ?fs) = position (\<lambda>f. \<not> valid_utf8 (body f)) ?fs"
    by (simp add: position_map comp_def)
  show ?thesis
    by (cases "position (\<lambda>f. \<not> valid_utf8 (body f)) ?fs")
      (simp_all add: text_try_from_def try_from_storage_def validate_utf8_first [OF st] field_utf8_error_def
        byte_fields_list [OF st] same)
qed

text \<open>
  C27: Every field a text record hands out as \<open>str\<close> without a check is a range inside the buffer and
  valid UTF-8, and so is the buffer as a whole, however the record was made from valid text and from
  byte records filled by their operations or by copying: by strict or lossy conversion, from a borrowed
  record, by pushes, replacements and truncation, by a refill that is validated, also one that fails.
  Refills that answer with the ASCII certificate of the vectorised record parser
  (\<open>coseva_unsafe/src/record.rs\<close>) skip the validation and are not covered.
\<close>

theorem text_record_is_utf8:
  assumes "text_built st"
  shows "valid_utf8 (fr_bytes st) \<and>
    (case record_get i st of None \<Rightarrow> record_len st \<le> i | Some f \<Rightarrow> (\<exists>bs. f = Some bs \<and> valid_utf8 bs))"
proof -
  obtain fs where fs: "represents st fs []" "\<forall>f \<in> set fs. valid_utf8 (body f)"
    using text_built_holds [OF assms] by (auto simp: holds_text_def)
  have "fr_bytes st = flat fs" using fs(1) by (simp add: represents_def)
  then show ?thesis
    using all_valid_flat [OF fs(2)] fs(2) by (simp add: record_get_represents [OF fs(1)] record_len_represents [OF fs(1)])
qed

definition sample_ops :: "record_op list" where
  "sample_ops = [OpPush [0x61], OpPush [0xC3], OpPush [0xA9]]"

theorem text_conversion_exact_witness:
  "\<exists>st answers. run_ops byte_op sample_ops record_new = Ok (st, answers) \<and> text_try_from st = Ok (Inl 1)"
proof -
  have "run_fits sample_ops []" by (simp add: sample_ops_def op_fits_def max_field_offset_value)
  then obtain st where st: "run_ops byte_op sample_ops record_new = Ok (st, list_answers sample_ops [])"
    using byte_record.run_holds [OF represents_new, of sample_ops] by auto
  have "\<not> valid_utf8 [0xC3]" by (simp add: valid_utf8.simps lead_width_def)
  moreover have "valid_utf8 [0x61]" by (simp add: valid_utf8.simps lead_width_def)
  ultimately have "position (\<lambda>f. \<not> valid_utf8 (body f)) (list_run sample_ops []) = Some 1"
    by (simp add: sample_ops_def)
  then show ?thesis using st text_conversion_exact [OF st] by auto
qed

definition broken_ops :: "record_op list" where
  "broken_ops = [OpPush [0x61, 0xFF, 0xC3], OpPush [0xA9], OpPushNull, OpPush [0xC3, 0xA9]]"

lemma broken_fields: "list_run broken_ops [] = [Some [0x61, 0xFF, 0xC3], Some [0xA9], None, Some [0xC3, 0xA9]]"
  by (simp add: broken_ops_def)

lemma broken_lossy:
  "map (map_option from_utf8_lossy) (list_run broken_ops []) =
     [Some [0x61, 0xEF, 0xBF, 0xBD, 0xEF, 0xBF, 0xBD], Some [0xEF, 0xBF, 0xBD], None, Some [0xC3, 0xA9]]"
  by (simp add: broken_fields from_utf8_lossy.simps lead_width_def second_allowed_def is_continuation_def
      replacement_character_def slice_def)

theorem text_record_is_utf8_witness:
  "\<exists>st st'. run_ops byte_op broken_ops record_new = Ok (st, [True, True, True, True]) \<and>
     from_byte_record_lossy st = Ok st' \<and> record_len st' = 4 \<and> valid_utf8 (fr_bytes st') \<and>
     (\<exists>bs. record_get 0 st' = Some (Some bs) \<and> valid_utf8 bs)"
proof -
  have "run_fits broken_ops []" by (simp add: broken_ops_def op_fits_def max_field_offset_value)
  then obtain st where st: "run_ops byte_op broken_ops record_new = Ok (st, list_answers broken_ops [])"
    "represents st (list_run broken_ops []) []"
    using byte_record.run_holds [OF represents_new, of broken_ops] by auto
  then obtain st' where st': "from_byte_record_lossy st = Ok st'"
    "holds_text st' (map (map_option from_utf8_lossy) (list_run broken_ops []))"
    using lossy_total [OF st(2)] by (auto simp: broken_lossy max_field_offset_value)
  have "byte_built st" by (rule byte_run_built [OF byte_empty st(1)])
  then have "text_built st'" using st'(1) by (rule text_lossy)
  then have "valid_utf8 (fr_bytes st') \<and> (case record_get 0 st' of None \<Rightarrow> record_len st' \<le> 0
      | Some f \<Rightarrow> (\<exists>bs. f = Some bs \<and> valid_utf8 bs))" by (rule text_record_is_utf8)
  moreover have "record_len st' = 4"
    using record_len_represents [of st'] st'(2) by (auto simp: holds_text_def broken_lossy)
  moreover have "list_answers broken_ops [] = [True, True, True, True]" by (simp add: broken_ops_def)
  ultimately show ?thesis using st st' by (auto split: option.splits)
qed

end
