(* ===== verification/Construction.thy ===== *)
theory Construction
  imports Cursor OwnedRecords
begin

text \<open>
  Building and resetting the whole engine (\<open>coseva/src/engine/construct.rs\<close>): the pull cursor of
  \<open>Cursor\<close> with every other field of \<open>Engine\<close> that construction sets, among them the vectorised
  parsers a configuration selects. Those parsers are function pointers; here a constructor names the
  function with its const arguments, and only the selection is modelled. \<open>BlockCache\<close> is a unit
  struct, and the Serde cache a feature of its own.
\<close>

section \<open>The selected parsers\<close>

datatype owned_parser =
    DefaultRecord bool \<comment> \<open>\<open>try_parse_default_record\<close>, with the field-limit check\<close>
  | NamedDialectRecord byte bool bool \<comment> \<open>delimiter, backslash escapes, field-limit check\<close>
  | DefaultRecordWindowed

text \<open>\<open>SliceQuotedPrefixParser\<close> and \<open>SliceInteriorPrefixParser\<close> are one function type.\<close>

datatype head_parser =
    QuotedPrefix bool
  | InteriorPrefix bool
  | QuotedStructuralAppending bool
  | QuotedStructuralWindowed
  | InteriorPrefixWindowed

definition owned_eligible :: "parser_settings \<Rightarrow> bool" where
  "owned_eligible s \<longleftrightarrow>
     ps_limits s = LIMITS_DEFAULT \<and> ps_field_count s = Flexible \<and> ps_trim s = WS_NONE \<and>
     ps_blank_records s = BlankPreserve \<and> ps_syntax s = Strict \<and> \<not> ps_skip_initial_space s \<and>
     ps_nulls s = NullsNone"

definition owned_parser_for :: "parser_settings \<Rightarrow> bool \<Rightarrow> owned_parser option" where
  "owned_parser_for s check =
     (if \<not> owned_eligible s then None
      else if ps_dialect s = DIALECT_CSV then Some (DefaultRecord check)
      else if ps_dialect s = DIALECT_TSV then Some (NamedDialectRecord 9 False check)
      else if ps_dialect s = DIALECT_SEMICOLON then Some (NamedDialectRecord 0x3B False check)
      else if ps_dialect s = DIALECT_PIPE then Some (NamedDialectRecord 0x7C False check)
      else if ps_dialect s = DIALECT_BACKSLASH_CSV then Some (NamedDialectRecord 0x2C True check)
      else if ps_dialect s = DIALECT_BACKSLASH_TSV then Some (NamedDialectRecord 9 True check)
      else None)"

definition quoted_prefix_parser_for :: "parser_settings \<Rightarrow> bool \<Rightarrow> bool \<Rightarrow> head_parser option" where
  "quoted_prefix_parser_for s owned check =
     (if \<not> owned \<or> ps_dialect s \<noteq> DIALECT_CSV then None else Some (QuotedPrefix check))"

definition interior_prefix_parser_for :: "parser_settings \<Rightarrow> bool \<Rightarrow> bool \<Rightarrow> head_parser option" where
  "interior_prefix_parser_for s owned check =
     (if \<not> owned \<or> ps_dialect s \<noteq> DIALECT_CSV then None else Some (InteriorPrefix check))"

definition multi_quote_parser_for :: "parser_settings \<Rightarrow> bool \<Rightarrow> bool \<Rightarrow> head_parser option" where
  "multi_quote_parser_for s owned check =
     (if \<not> owned \<or> ps_dialect s \<noteq> DIALECT_CSV then None else Some (QuotedStructuralAppending check))"

section \<open>Construction\<close>

record full_engine =
  fe_cursor :: line_cursor
  fe_owned_parser :: "owned_parser option"
  fe_quoted_prefix_parser :: "head_parser option"
  fe_interior_prefix_parser :: "head_parser option"
  fe_interior_handoff_parser :: "head_parser option"
  fe_multi_quote_parser :: "head_parser option"
  fe_interior_quotes :: nat
  fe_structural_backoff :: nat
  fe_structural_succeeded :: bool
  fe_owned_hint :: "nat \<times> nat"
  fe_owned_scratch :: record_storage
  fe_staged_record :: "record_storage option"

definition from_config_with_owned_parser ::
    "bytes \<Rightarrow> parser_settings \<Rightarrow> headers \<Rightarrow> owned_parser option \<Rightarrow> bool \<Rightarrow> full_engine" where
  "from_config_with_owned_parser input s headers owned check =
     (let multi_quote = multi_quote_parser_for s (owned \<noteq> None) check
      in \<lparr>fe_cursor = cursor_from_config input s headers, fe_owned_parser = owned,
          fe_quoted_prefix_parser = quoted_prefix_parser_for s (owned \<noteq> None) check,
          fe_interior_prefix_parser = interior_prefix_parser_for s (owned \<noteq> None) check,
          fe_interior_handoff_parser = multi_quote, fe_multi_quote_parser = multi_quote,
          fe_interior_quotes = 0, fe_structural_backoff = 0, fe_structural_succeeded = False,
          fe_owned_hint = (0, 0), fe_owned_scratch = record_new, fe_staged_record = None\<rparr>)"

definition from_config_checking :: "bytes \<Rightarrow> parser_settings \<Rightarrow> headers \<Rightarrow> bool \<Rightarrow> full_engine" where
  "from_config_checking input s headers check =
     from_config_with_owned_parser input s headers (owned_parser_for s check) check"

definition from_config :: "bytes \<Rightarrow> parser_settings \<Rightarrow> headers \<Rightarrow> full_engine" where
  "from_config input s headers =
     from_config_checking input s headers (max_field_bytes LIMITS_DEFAULT < length input)"

text \<open>Over a growing window the field limits are always checked.\<close>

definition from_config_windowed :: "bytes \<Rightarrow> parser_settings \<Rightarrow> headers \<Rightarrow> full_engine" where
  "from_config_windowed input s headers =
     (let engine = from_config_checking input s headers True
      in if ps_dialect s = DIALECT_CSV \<and> owned_parser_for s True \<noteq> None
         then engine\<lparr>fe_owned_parser := Some DefaultRecordWindowed,
                fe_quoted_prefix_parser := Some QuotedStructuralWindowed,
                fe_interior_prefix_parser := Some InteriorPrefixWindowed,
                fe_interior_handoff_parser := Some QuotedStructuralWindowed,
                fe_multi_quote_parser := Some QuotedStructuralWindowed\<rparr>
         else engine)"

section \<open>Reset\<close>

text \<open>
  \<open>reset_for\<close> over any engine, in the order of the code: the parsers, the header policy, the position,
  the settings, then the buffers and the header caches.
\<close>

definition configure :: "parser_settings \<Rightarrow> engine \<Rightarrow> engine" where
  "configure s e =
     e\<lparr>en_dialect := ps_dialect s, en_limits := ps_limits s, en_field_count := ps_field_count s,
       en_trim := ps_trim s, en_blank_records := ps_blank_records s, en_syntax := ps_syntax s,
       en_skip_initial_space := ps_skip_initial_space s, en_nulls := ps_nulls s,
       en_general_parsing := needs_general_parsing (ps_dialect s) (ps_trim s),
       en_format_kind := kind_of s, en_plain_kernel := plain_kernel s,
       en_record_pass := needs_record_pass (ps_dialect s) (ps_nulls s),
       en_skips_records := (comment (ps_dialect s) \<noteq> None \<or> ps_blank_records s = BlankSkip)\<rparr>"

definition reset_headers_policy :: "parser_settings \<Rightarrow> headers \<Rightarrow> line_cursor \<Rightarrow> line_cursor" where
  "reset_headers_policy s headers c =
     (case header_policy headers of (consume, names, initialized) \<Rightarrow>
        c\<lparr>cu_headed := (cu_headed c)
            \<lparr>he_engine := (cu_engine c)\<lparr>en_expected := expected_from (ps_field_count s) names\<rparr>,
             he_consume_first_record := consume, he_record := names, he_initialized := initialized\<rparr>\<rparr>)"

text \<open>\<open>SpanStorage::clear\<close> forgets the spans, the scratch bytes and the bound input.\<close>

definition storage_clear :: "span_storage \<Rightarrow> span_storage" where
  "storage_clear st = st\<lparr>ss_spans := [], ss_scratch := [], ss_input_bound := 1\<rparr>"

definition clear_spans_of :: "engine \<Rightarrow> engine" where
  "clear_spans_of e = e\<lparr>en_spans := storage_clear (en_spans e)\<rparr>"

definition reset_for :: "parser_settings \<Rightarrow> headers \<Rightarrow> full_engine \<Rightarrow> full_engine" where
  "reset_for s headers fe =
     (let owned = owned_parser_for s False;
          interior = interior_prefix_parser_for s (owned \<noteq> None) False;
          fe1 = fe\<lparr>fe_owned_parser := owned,
            fe_quoted_prefix_parser := quoted_prefix_parser_for s (owned \<noteq> None) False,
            fe_interior_prefix_parser := interior, fe_interior_handoff_parser := interior,
            fe_multi_quote_parser := multi_quote_parser_for s (owned \<noteq> None) False\<rparr>;
          c = seek_exact 0 1 0 (reset_headers_policy s headers (fe_cursor fe1));
          c1 = set_engine (clear_spans_of (configure s (cu_engine c))) c
      in fe1\<lparr>fe_cursor := c1\<lparr>cu_headed := on_headers_changed (cu_headed c1)\<rparr>, fe_interior_quotes := 0,
             fe_owned_scratch := byte_clear (fe_owned_scratch fe1)\<rparr>)"

section \<open>A reset engine beside a built one\<close>

text \<open>
  What a reset leaves as it was: the staged record with its two flags, the hint for sizing owned
  records, the back-off of the structural route and the text certificate of the scratch record.
  \<open>forget\<close> sets them as construction does.
\<close>

definition retained ::
    "full_engine \<Rightarrow> (record_storage option \<times> bool \<times> bool) \<times> (nat \<times> nat) \<times> (nat \<times> bool) \<times> text_validity" where
  "retained fe =
     ((fe_staged_record fe, cu_staged_valid (fe_cursor fe), cu_staged_form_owned (fe_cursor fe)), fe_owned_hint fe,
      (fe_structural_backoff fe, fe_structural_succeeded fe), fr_validity (fe_owned_scratch fe))"

definition forget :: "full_engine \<Rightarrow> full_engine" where
  "forget fe =
     fe\<lparr>fe_staged_record := None,
        fe_cursor := (fe_cursor fe)\<lparr>cu_staged_valid := False, cu_staged_form_owned := False\<rparr>,
        fe_owned_hint := (0, 0), fe_structural_backoff := 0, fe_structural_succeeded := False,
        fe_owned_scratch := reset_text_validity (fe_owned_scratch fe)\<rparr>"

lemma cleared_scratch: "reset_text_validity (byte_clear st) = record_new" "fr_validity (byte_clear st) = fr_validity st"
  by (simp_all add: byte_clear_def clear_fields_def invalidate_source_metadata_def reset_text_validity_def record_new_def)

lemma reset_cursor:
  "fe_cursor (reset_for s headers fe) =
     (cursor_from_config [] s headers)
       \<lparr>cu_staged_valid := cu_staged_valid (fe_cursor fe), cu_staged_form_owned := cu_staged_form_owned (fe_cursor fe)\<rparr>"
proof -
  obtain consume names initialized where p: "header_policy headers = (consume, names, initialized)"
    by (cases "header_policy headers") auto
  have "storage_clear st = storage_with_capacity" for st
    by (simp add: storage_clear_def storage_with_capacity_def)
  then show ?thesis
    by (simp add: p reset_for_def Let_def cursor_from_config_def headed_from_config_def engine_from_config_def
        seek_exact_def seek_to_exact_def reset_headers_policy_def configure_def clear_spans_of_def set_engine_def
        cu_engine_def on_headers_changed_def lookup_clear_def starts_with_def)
qed

lemma forget_reset:
  "forget (reset_for s headers fe) =
     (from_config [] s headers)\<lparr>fe_interior_handoff_parser :=
        interior_prefix_parser_for s (owned_parser_for s False \<noteq> None) False\<rparr>"
proof -
  have "fe_cursor (forget (reset_for s headers fe)) = cursor_from_config [] s headers"
    by (simp add: forget_def reset_cursor) (simp add: cursor_from_config_def)
  then show ?thesis
    by (simp add: from_config_def from_config_checking_def from_config_with_owned_parser_def Let_def forget_def
        reset_for_def cleared_scratch LIMITS_DEFAULT_def)
qed

text \<open>
  C32: A reset parser beside the parser built for the same options over an empty window. Nothing of the
  previous document, its headers, its position or its failure is left: but for the staged record, the
  sizing hint, the back-off of the structural route and the certificate of the scratch record, which
  stay as they were, the reset parser is the parser of a whole input, with one difference: it hands a
  predicted interior quote to the prefix parser and not to the multi-quote parser. It is the parser a
  growing window is built with exactly when the configuration has no vectorised parser: where it has
  one, the window is built with the parser that checks the field limit, and the reset selects the one
  that does not.
\<close>

theorem reset_beside_construction:
  "forget (reset_for s headers fe) =
     (from_config [] s headers)\<lparr>fe_interior_handoff_parser :=
        interior_prefix_parser_for s (owned_parser_for s False \<noteq> None) False\<rparr> \<and>
   retained (reset_for s headers fe) = retained fe \<and>
   (forget (reset_for s headers fe) = from_config_windowed [] s headers \<longleftrightarrow> owned_parser_for s True = None)"
proof (intro conjI)
  show "retained (reset_for s headers fe) = retained fe"
    by (simp add: retained_def reset_cursor) (simp add: reset_for_def Let_def cleared_scratch)
  have selected: "owned_parser_for s True = None \<longleftrightarrow> owned_parser_for s False = None"
    by (simp add: owned_parser_for_def)
  have checked: "owned_parser_for s True = owned_parser_for s False \<longleftrightarrow> owned_parser_for s False = None"
    by (auto simp: owned_parser_for_def)
  have parser: "fe_owned_parser (from_config_windowed [] s headers) =
      (if ps_dialect s = DIALECT_CSV \<and> owned_parser_for s True \<noteq> None then Some DefaultRecordWindowed
       else owned_parser_for s True)"
    by (simp add: from_config_windowed_def from_config_checking_def from_config_with_owned_parser_def Let_def)
  have reset: "fe_owned_parser (forget (reset_for s headers fe)) = owned_parser_for s False"
    by (simp add: forget_def reset_for_def Let_def)
  have unwindowed: "owned_parser_for s False \<noteq> Some DefaultRecordWindowed" by (simp add: owned_parser_for_def)
  show "forget (reset_for s headers fe) = from_config_windowed [] s headers \<longleftrightarrow> owned_parser_for s True = None"
  proof
    assume "forget (reset_for s headers fe) = from_config_windowed [] s headers"
    from arg_cong [OF this, of fe_owned_parser]
    have "owned_parser_for s False = (if ps_dialect s = DIALECT_CSV \<and> owned_parser_for s True \<noteq> None
        then Some DefaultRecordWindowed else owned_parser_for s True)" by (simp only: reset parser)
    then show "owned_parser_for s True = None"
      using unwindowed checked selected by argo
  next
    assume none: "owned_parser_for s True = None"
    then show "forget (reset_for s headers fe) = from_config_windowed [] s headers"
      using selected unfolding forget_reset
      by (simp add: from_config_windowed_def from_config_def from_config_checking_def from_config_with_owned_parser_def
          Let_def interior_prefix_parser_for_def multi_quote_parser_for_def quoted_prefix_parser_for_def)
  qed
qed (rule forget_reset)

end
