(* ===== verification/Widening.thy ===== *)
theory Widening
  imports Kernel
begin

text \<open>
  Parsers that are fed in pieces ask for a record of the bytes that have come so far. This theory shows
  when that is sound: a record that ended inside a window, or with a record ending at its edge, is the
  record any wider window begins with, span by span, when the dialect keeps its separators apart from its
  record endings (\<open>window_dialect\<close>). \<open>widen\<close> is the engine over the wider window, which
  differs in the bound of its span storage alone.
\<close>

section \<open>The engine over a wider window\<close>

definition widen :: "bytes \<Rightarrow> engine \<Rightarrow> engine" where
  "widen v e = e\<lparr>en_spans := (en_spans e)\<lparr>ss_input_bound := length v + 1\<rparr>\<rparr>"

named_theorems widened \<open>what a wider window does not change\<close>

lemma widen_fields [simp, widened]:
  "en_location (widen v e) = en_location e" "en_dialect (widen v e) = en_dialect e"
  "en_format_kind (widen v e) = en_format_kind e" "en_limits (widen v e) = en_limits e"
  "en_field_count (widen v e) = en_field_count e" "en_expected (widen v e) = en_expected e"
  "en_trim (widen v e) = en_trim e" "en_blank_records (widen v e) = en_blank_records e"
  "en_syntax (widen v e) = en_syntax e" "en_skip_initial_space (widen v e) = en_skip_initial_space e"
  "en_nulls (widen v e) = en_nulls e" "en_general_parsing (widen v e) = en_general_parsing e"
  "en_plain_kernel (widen v e) = en_plain_kernel e" "en_record_pass (widen v e) = en_record_pass e"
  "en_skips_records (widen v e) = en_skips_records e" "en_resume (widen v e) = en_resume e"
  "en_failed (widen v e) = en_failed e" "en_terminated (widen v e) = en_terminated e"
  "en_folded_upto (widen v e) = en_folded_upto e" "en_folded_lines (widen v e) = en_folded_lines e"
  "en_record_index (widen v e) = en_record_index e"
  "ss_spans (en_spans (widen v e)) = ss_spans (en_spans e)"
  "ss_scratch (en_spans (widen v e)) = ss_scratch (en_spans e)"
  "storage_len (en_spans (widen v e)) = storage_len (en_spans e)"
  "scratch_len (en_spans (widen v e)) = scratch_len (en_spans e)"
  "input_len (en_spans (widen v e)) = length v"
  by (simp_all add: widen_def storage_len_def scratch_len_def input_len_def)

lemma widen_updates [simp]:
  "widen v (e\<lparr>en_location := n\<rparr>) = (widen v e)\<lparr>en_location := n\<rparr>"
  "widen v (e\<lparr>en_terminated := t\<rparr>) = (widen v e)\<lparr>en_terminated := t\<rparr>"
  "widen v (e\<lparr>en_expected := x\<rparr>) = (widen v e)\<lparr>en_expected := x\<rparr>"
  "widen v (e\<lparr>en_record_index := i\<rparr>) = (widen v e)\<lparr>en_record_index := i\<rparr>"
  "widen v (e\<lparr>en_resume := r\<rparr>) = (widen v e)\<lparr>en_resume := r\<rparr>"
  "widen v (e\<lparr>en_folded_lines := k, en_folded_upto := l\<rparr>) = (widen v e)\<lparr>en_folded_lines := k, en_folded_upto := l\<rparr>"
  "widen v (note_terminated e) = note_terminated (widen v e)"
  "widen v (clear_terminated e) = clear_terminated (widen v e)"
  by (simp_all add: widen_def note_terminated_def clear_terminated_def)

lemma widen_formats [simp]:
  "fmt_delimiter opts (widen v e) = fmt_delimiter opts e" "fmt_quote opts (widen v e) = fmt_quote opts e"
  "fmt_terminator opts (widen v e) = fmt_terminator opts e"
  "fmt_delimiter_tail opts (widen v e) = fmt_delimiter_tail opts e"
  "fmt_ending_tail opts (widen v e) = fmt_ending_tail opts e" "fmt_strips_cr opts (widen v e) = fmt_strips_cr opts e"
  "fmt_quoting_enabled opts (widen v e) = fmt_quoting_enabled opts e"
  "fmt_plain_kernel opts (widen v e) = fmt_plain_kernel opts e"
  "fmt_unquoted_escape opts (widen v e) = fmt_unquoted_escape opts e"
  "fmt_record_pass opts (widen v e) = fmt_record_pass opts e"
  "fmt_general_parsing opts (widen v e) = fmt_general_parsing opts e"
  "fmt_null_policy opts (widen v e) = fmt_null_policy opts e" "fmt_escape opts (widen v e) = fmt_escape opts e"
  "fmt_record_ending opts (widen v e) = fmt_record_ending opts e"
  "fmt_permits_unquoted_quotes opts (widen v e) = fmt_permits_unquoted_quotes opts e"
  "fmt_permits_any_backslash_escape opts (widen v e) = fmt_permits_any_backslash_escape opts e"
  "fmt_permits_trailing_whitespace opts (widen v e) = fmt_permits_trailing_whitespace opts e"
  "fmt_skip_initial_space opts (widen v e) = fmt_skip_initial_space opts e"
  "dispatch_format opts (widen v e) = dispatch_format opts e"
  unfolding fmt_delimiter_def fmt_quote_def fmt_terminator_def fmt_delimiter_tail_def
    fmt_ending_tail_def fmt_strips_cr_def fmt_quoting_enabled_def fmt_plain_kernel_def fmt_unquoted_escape_def
    fmt_record_pass_def fmt_general_parsing_def fmt_null_policy_def fmt_escape_def fmt_record_ending_def
    fmt_permits_unquoted_quotes_def fmt_permits_any_backslash_escape_def fmt_permits_trailing_whitespace_def
    fmt_skip_initial_space_def dispatch_format_def widen_fields by (rule refl)+

lemma widen_scans [simp]:
  "allow_quote_search (widen v e) = allow_quote_search e" "is_crlf (widen v e) = is_crlf e"
  "unquoted_escape (widen v e) = unquoted_escape e" "next_stop (widen v e) ex rest = next_stop e ex rest"
  "plain_record_candidate opts first (widen v e) = plain_record_candidate opts first e"
  "stop_bytes (widen v e) = stop_bytes e"
  unfolding allow_quote_search_def is_crlf_def unquoted_escape_def next_stop_def find_stop_byte_def
    escape_or_backslash_def plain_record_candidate_def stop_bytes_def widen_fields widen_formats by (rule refl)+

text \<open>How a field or a record stands in the window it was read from: an ending at the edge counts.\<close>

definition settled :: "bytes \<Rightarrow> engine \<Rightarrow> bool" where
  "settled w e \<longleftrightarrow> en_location e < length w \<or> en_terminated e"

text \<open>A wider window.\<close>

definition wider :: "bytes \<Rightarrow> bytes \<Rightarrow> bool" where
  "wider w v \<longleftrightarrow> (\<exists>more. v = w @ more)"

lemma widerE: "wider w v \<Longrightarrow> (\<And>more. v = w @ more \<Longrightarrow> P) \<Longrightarrow> P"
  by (auto simp: wider_def)

lemma wider_facts:
  assumes "wider w v"
  shows "length w \<le> length v" "i < length w \<Longrightarrow> v ! i = w ! i" "get_at w i = Some b \<Longrightarrow> get_at v i = Some b"
    "get_range w m n = Some xs \<Longrightarrow> get_range v m n = Some xs" "n \<le> length w \<Longrightarrow> slice v m n = slice w m n"
  using assms by (auto simp: wider_def nth_append get_at_Some_iff get_range_def split: if_splits)

lemma wider_scan_end:
  "wider w v \<Longrightarrow> scan_end e w rs fs \<le> scan_end (widen v e) v rs fs"
  using wider_facts(1) [of w v] by (auto simp: scan_end_def Let_def intro: min.mono)

lemma wider_slice:
  assumes "wider w v" "a \<le> b" "b \<le> length w" "b \<le> b'"
  obtains rest where "slice v a b' = slice w a b @ rest"
proof -
  have "slice v a b' = slice v a b @ slice v b b'" using assms by (intro slice_split) auto
  then show thesis using that wider_facts(5) [OF assms(1,3)] by simp
qed

lemma position_more: "position P xs = Some i \<Longrightarrow> position P (xs @ ys) = Some i"
  by (simp add: position_append)

text \<open>A separator's tail that the window cut is the only one a wider window can confirm anew.\<close>

lemma wider_confirms: "wider w v \<Longrightarrow> n \<le> length w \<Longrightarrow> tail_confirms t (drop n w) \<Longrightarrow> tail_confirms t (drop n v)"
  by (auto simp: wider_def tail_confirms_iff)

lemma cut_tail:
  assumes "wider w v" "n \<le> length w" "tail_confirms t (drop n v)" "\<not> tail_confirms t (drop n w)"
  shows "length w < n + length (tail_slice t)" "\<And>i. n \<le> i \<Longrightarrow> i < length w \<Longrightarrow> w ! i \<in> set (tail_slice t)"
proof -
  obtain more where v: "v = w @ more" using assms(1) by (rule widerE)
  have tail: "take (length (tail_slice t)) (drop n w @ more) = tail_slice t"
    using assms(2,3) by (simp add: tail_confirms_def v)
  show short: "length w < n + length (tail_slice t)"
  proof (rule ccontr)
    assume "\<not> length w < n + length (tail_slice t)"
    then have "length (tail_slice t) \<le> length (drop n w)" by simp
    then show False using assms(4) tail by (simp add: tail_confirms_def)
  qed
  fix i assume i: "n \<le> i" "i < length w"
  have "(drop n w @ more) ! (i - n) = w ! i" using i by (simp add: nth_append diff_less_mono)
  moreover have "take (length (tail_slice t)) (drop n w @ more) ! (i - n) = (drop n w @ more) ! (i - n)"
    by (rule nth_take) (use i short in simp)
  ultimately have "tail_slice t ! (i - n) = w ! i" using tail by simp
  moreover have "i - n < length (tail_slice t)" using i short by simp
  ultimately show "w ! i \<in> set (tail_slice t)" using nth_mem by metis
qed

section \<open>Pushing fields\<close>

lemma check_record_limit_widen:
  "check_record_limit w rs at a = (a', Ok u) \<Longrightarrow> check_record_limit v rs at (widen v a) = (widen v a', Ok u)"
  by simp

lemma push_span_widen:
  assumes "wider w v" "input_len (en_spans a) \<le> length v" "push_span w src f u at q a = (a', Ok x)"
  shows "push_span v src f u at q (widen v a) = (widen v a', Ok x)"
  using assms
  by (cases src)
    (auto simp: push_span_def try_push_input_bounded_def try_push_scratch_bounded_def widen_def storage_len_def input_len_def
      split: if_splits option.splits)

lemma push_null_span_widen:
  assumes "input_len (en_spans a) \<le> length v" "push_null_span w at a = (a', Ok x)"
  shows "push_null_span v at (widen v a) = (widen v a', Ok x)"
  using assms
  by (auto simp: push_null_span_def storage_push_null_def bind_outcome_Ok_iff assert_that_def widen_def storage_len_def
      input_len_def split: if_splits outcome.splits)

lemma bind_widen:
  assumes "bind_step m f a = (a', Ok y)"
    and "\<And>a1 x. m a = (a1, Ok x) \<Longrightarrow> m' (widen v a) = (widen v a1, Ok x)"
    and "\<And>a1 x. m a = (a1, Ok x) \<Longrightarrow> f x a1 = (a', Ok y) \<Longrightarrow> f' x (widen v a1) = (widen v a', Ok y)"
  shows "bind_step m' f' (widen v a) = (widen v a', Ok y)"
  using assms by (auto simp: bind_step_def split: prod.splits outcome.splits)

lemma bind_widen_both:
  assumes "bind_step m f a = (a', Ok y)"
    and "\<And>a1 x. m a = (a1, Ok x) \<Longrightarrow> f x a1 = (a', Ok y) \<Longrightarrow>
      m' (widen v a) = (widen v a1, Ok x) \<and> f' x (widen v a1) = (widen v a', Ok y)"
  shows "bind_step m' f' (widen v a) = (widen v a', Ok y)"
  using assms by (fastforce simp: bind_step_def split: prod.splits outcome.splits)

lemma scratch_bound [simp]:
  "scratch_extend bs (st\<lparr>ss_input_bound := n\<rparr>) = (scratch_extend bs st)\<lparr>ss_input_bound := n\<rparr>"
  "scratch_push c (st\<lparr>ss_input_bound := n\<rparr>) = (scratch_push c st)\<lparr>ss_input_bound := n\<rparr>"
  by (simp_all add: scratch_extend_def scratch_push_def)

lemma unescape_into_widen:
  "wider w v \<Longrightarrow> field_end \<le> length w \<Longrightarrow>
     unescape_into mysql esc v seg cursor field_end (st\<lparr>ss_input_bound := n\<rparr>) =
     (unescape_into mysql esc w seg cursor field_end st)\<lparr>ss_input_bound := n\<rparr>"
proof (induction mysql esc w seg cursor field_end st rule: unescape_into.induct)
  case (1 mysql esc w seg cursor field_end st)
  note same = wider_facts(5) [OF 1(3,4)]
  note eqs = unescape_into.simps [of mysql esc v seg cursor field_end "st\<lparr>ss_input_bound := n\<rparr>"]
    unescape_into.simps [of mysql esc w seg cursor field_end st]
  show ?case
  proof (cases "find1 esc (slice w cursor field_end)")
    case None
    then show ?thesis by (simp add: eqs same)
  next
    case (Some i)
    have "i < field_end - cursor" using Some by (auto simp: find_simps dest!: position_less)
    then have at: "cursor + i < field_end" by simp
    have less: "slice v seg (cursor + i) = slice w seg (cursor + i)"
      using wider_facts(5) [OF 1(3), of "cursor + i"] at 1(4) by simp
    show ?thesis
    proof (cases "cursor + i + 1 < field_end")
      case True
      have b: "v ! Suc (cursor + i) = w ! Suc (cursor + i)" using wider_facts(2) [OF 1(3)] True 1(4) by simp
      show ?thesis
        using 1(1) [OF Some refl refl _ refl refl 1(3,4)] True Some b
        unfolding eqs by (cases mysql) (simp_all add: same less Let_def)
    next
      case False
      then show ?thesis
        using 1(2) [OF Some refl refl _ 1(3,4)] Some
        by (simp add: eqs same less Let_def)
    qed
  qed
qed

lemma push_unescaped_widen:
  assumes "wider w v" "fe \<le> length w" "parse_inv w rs a" "push_unescaped_span w esc fs fe at a = (a', Ok x)"
  shows "push_unescaped_span v esc fs fe at (widen v a) = (widen v a', Ok x)"
proof -
  let ?st = "unescape_into (escape (en_dialect a) = EscapeMysql) esc w fs fs fe (en_spans a)"
  let ?a = "a\<lparr>en_spans := ?st\<rparr>"
  have wide: "(widen v a)\<lparr>en_spans := unescape_into (escape (en_dialect a) = EscapeMysql) esc v fs fs fe (en_spans (widen v a))\<rparr> = widen v ?a"
    using unescape_into_widen [OF assms(1,2)] by (simp add: widen_def)
  have "grows (en_spans a) ?st" using unescape_into_grows by blast
  then have len: "input_len (en_spans ?a) \<le> length v"
    using assms(3) wider_facts(1) [OF assms(1)] by (simp add: parse_inv_def grows_def)
  show ?thesis
    unfolding push_unescaped_span_def Let_def wide [symmetric, folded widen_fields] unfolding wide widen_fields
  proof (rule bind_widen [OF assms(4) [unfolded push_unescaped_span_def Let_def]])
    fix a1 u
    assume c: "check_scratch_limit w (scratch_len (en_spans a)) at ?a = (a1, Ok u)"
    then show "check_scratch_limit v (scratch_len (en_spans a)) at (widen v ?a) = (widen v a1, Ok u)" by simp
    assume "push_span w FromScratch (scratch_len (en_spans a)) (scratch_len (en_spans a1)) at False a1 = (a', Ok x)"
    then show "push_span v FromScratch (scratch_len (en_spans a)) (scratch_len (en_spans (widen v a1))) at False (widen v a1) =
        (widen v a', Ok x)"
      using push_span_widen [OF assms(1)] len c by simp
  qed
qed

lemma push_general_widen:
  assumes "wider w v" "parse_inv w rs a" "push_general_unquoted_span w fs fe at header a = (a', Ok x)"
  shows "push_general_unquoted_span v fs fe at header (widen v a) = (widen v a', Ok x)"
proof -
  obtain raw where raw: "get_range w fs fe = Some raw"
    using assms(3) by (auto simp: push_general_unquoted_span_def split: option.splits)
  then have fe: "fe \<le> length w" by (simp add: get_range_def split: if_splits)
  have len: "input_len (en_spans a) \<le> length v" using assms(2) wider_facts(1) [OF assms(1)] by (simp add: parse_inv_def)
  show ?thesis
    using assms(3) push_unescaped_widen [OF assms(1) fe assms(2)] push_span_widen [OF assms(1) len]
      push_null_span_widen [OF len] wider_facts(4) [OF assms(1) raw] raw
    by (auto simp: push_general_unquoted_span_def split: option.splits if_splits)
qed

lemma end_general_widen:
  assumes "wider w v" "parse_inv w rs a" "end_general_field w rs header fs fe at resume ends a = (a', Ok b)"
  shows "end_general_field v rs header fs fe at resume ends (widen v a) = (widen v a', Ok b)"
  unfolding end_general_field_def
proof (rule bind_widen [OF assms(3) [unfolded end_general_field_def]])
  show "push_general_unquoted_span v fs fe at header (widen v a) = (widen v a1, Ok x)"
    if "push_general_unquoted_span w fs fe at header a = (a1, Ok x)" for a1 x
    using push_general_widen [OF assms(1,2) that] .
qed (auto simp: Let_def note_terminated_def bind_step_def return_step_def check_record_limit_def check_record_limit_for_def
    split: if_splits)

section \<open>Separators a window may cut\<close>

text \<open>
  The bytes of a separator's tail are neither structure nor, across the two separators, the first byte
  of the other. For single-byte separators there is nothing to ask.
\<close>

definition separators_clear :: "dialect \<Rightarrow> bool" where
  "separators_clear d \<longleftrightarrow> ending_byte (record_ending d) \<notin> set (tail_slice (delimiter_tail d)) \<and>
     delimiter d \<notin> set (tail_slice (ending_tail d))"

definition window_dialect :: "dialect \<Rightarrow> bool" where
  "window_dialect d \<longleftrightarrow> invalidity d = None \<and> tails_wf d \<and> separators_clear d"

lemma tail_bytes_plain:
  assumes "window_dialect d" "b \<in> set (tail_slice (delimiter_tail d) @ tail_slice (ending_tail d))"
  shows "b \<noteq> quote d" "unquoted_byte (escape d) \<noteq> Some b" "escape d \<noteq> Backslash b"
proof -
  have "multibyte d" using assms(2) by (auto simp: multibyte_def)
  then have "b \<noteq> quote d \<and> b \<noteq> (case escape d of DoubleQuote \<Rightarrow> quote d | Backslash b \<Rightarrow> b | Unquoted b \<Rightarrow> b | EscapeMysql \<Rightarrow> BACKSLASH)"
    using assms by (auto simp: window_dialect_def invalidity_None_iff multibyte_invalidity_def Let_def split: if_splits)
  then show "b \<noteq> quote d" "unquoted_byte (escape d) \<noteq> Some b" "escape d \<noteq> Backslash b"
    by (auto split: escape.splits)
qed

lemma ending_tail_only: "window_dialect d \<Longrightarrow> tail_slice (ending_tail d) \<noteq> [] \<Longrightarrow> \<exists>b. record_ending d = EndByte b"
  unfolding window_dialect_def tails_wf_def by (metis tail_is_empty_slice)

lemma end_of_scan_unsettled:
  assumes "parse_inv w rs a" "fs \<le> length w"
    and "bind_step (check_scan_end w (scan_end a w rs fs) rs fs) (\<lambda>_. bind_step m
      (\<lambda>_ e'. (clear_terminated (e'\<lparr>en_location := scan_end a w rs fs\<rparr>), Ok True))) a = (a', Ok b)"
  shows "b \<and> \<not> settled w a'"
proof -
  let ?stop = "scan_end a w rs fs"
  have limits: "fs \<le> ?stop \<longrightarrow> ?stop - fs \<le> max_field_bytes (en_limits a)" "rs \<le> ?stop"
    "?stop - rs \<le> max_record_bytes (en_limits a)"
    using assms(3) by (auto elim!: bind_step_Ok)
  then have "?stop = length w"
    using assms(2) inv_length [OF assms(1)] by (auto simp: scan_end_def sat_add_def Let_def min_def split: if_splits)
  then show ?thesis using assms(3) by (auto simp: settled_def clear_terminated_def elim!: bind_step_Ok)
qed

lemma next_stop_member:
  assumes "ex = (is_crlf e \<or> unquoted_escape e \<noteq> None)" "next_stop e ex (slice w cursor n) = Some i" "n \<le> length w"
  shows "w ! (cursor + i) \<in> stop_bytes e" "cursor + i < n"
proof -
  have "i < length (slice w cursor n)" using next_stop_less [OF assms(2)] .
  then show "cursor + i < n" by (simp add: less_diff_conv add.commute)
  then show "w ! (cursor + i) \<in> stop_bytes e"
    using assms(2,3) by (auto simp: next_stop_position [OF assms(1)] position_Some_iff)
qed

lemma stop_is_delimiter:
  "b \<in> stop_bytes e \<Longrightarrow> unquoted_escape e \<noteq> Some b \<Longrightarrow> \<not> (allow_quote_search e \<and> b = quote (en_dialect e)) \<Longrightarrow>
     \<not> (is_crlf e \<and> b = CR) \<Longrightarrow> b \<noteq> ending_byte (record_ending (en_dialect e)) \<Longrightarrow> b = delimiter (en_dialect e)"
  by (auto simp: stop_bytes_def split: if_splits option.splits)

lemma cut_tail_unsettled:
  assumes "parse_inv w rs a" "window_dialect (en_dialect a)" "fs \<le> length w"
    and "ex = (is_crlf a \<or> unquoted_escape a \<noteq> None)"
    and "t = delimiter_tail (en_dialect a) \<or> t = ending_tail (en_dialect a)"
    and "length w < cursor + length (tail_slice t)" "\<And>i. cursor \<le> i \<Longrightarrow> i < length w \<Longrightarrow> w ! i \<in> set (tail_slice t)"
    and "general_unquoted_loop ex w rs header fs cursor a = (a', Ok b)"
  shows "b \<and> \<not> settled w a'"
  using assms
proof (induction ex w rs header fs cursor a rule: general_unquoted_loop.induct)
  case (1 ex w rs header fs cursor a)
  let ?d = "en_dialect a"
  note run = 1(12) [unfolded general_unquoted_loop.simps [of ex w rs header fs cursor a]]
  show ?case
  proof (cases "scan_end a w rs fs \<le> cursor")
    case True
    then show ?thesis using end_of_scan_unsettled [OF 1(5,7)] run by (simp add: Let_def)
  next
    case False
    show ?thesis
    proof (cases "next_stop a ex (slice w cursor (scan_end a w rs fs))")
      case None
      have "length w < scan_end a w rs fs + length (tail_slice t)" using 1(10) False by simp
      then show ?thesis using 1(1) [OF False None 1(5-9)] 1(11) run False None by simp
    next
      case (Some i)
      let ?at = "cursor + i"
      note stop = next_stop_member [OF 1(8) Some scan_end_le]
      have at: "?at < length w" using order_less_le_trans [OF stop(2) scan_end_le] .
      have region: "w ! ?at \<in> set (tail_slice t)" using 1(11) at by simp
      note plain = tail_bytes_plain [OF 1(6), of "w ! ?at"]
      have not_quote: "w ! ?at \<noteq> quote ?d" and not_escape: "unquoted_escape a \<noteq> Some (w ! ?at)"
        using plain region 1(9) by (auto simp: unquoted_escape_def)
      have crlf_tail: "is_crlf a \<Longrightarrow> t = delimiter_tail ?d"
        using ending_tail_only [OF 1(6)] region 1(9)
        by (cases "tail_slice (ending_tail ?d) = []") (auto simp: is_crlf_def)
      have no_lf: "\<not> (is_crlf a \<and> get_at w (?at + 1) = Some LF)"
        using crlf_tail 1(6) 1(11) [of "?at + 1"] by (auto simp: is_crlf_def window_dialect_def separators_clear_def get_at_Some_iff)
      have ending: "w ! ?at = ending_byte (record_ending ?d) \<Longrightarrow> t = ending_tail ?d"
        using region 1(6,9) by (auto simp: window_dialect_def separators_clear_def)
      have "\<not> tail_confirms t (drop (?at + 1) w)"
        using 1(10) region by (cases "tail_slice t") (auto simp: tail_confirms_def)
      then have cut: "w ! ?at = ending_byte (record_ending ?d) \<Longrightarrow> \<not> tail_confirms (ending_tail ?d) (drop (?at + 1) w)"
        "w ! ?at = delimiter ?d \<Longrightarrow> t = delimiter_tail ?d \<Longrightarrow> \<not> tail_confirms (delimiter_tail ?d) (drop (?at + 1) w)"
        using ending by auto
      have delim: "w ! ?at = delimiter ?d \<Longrightarrow> t = delimiter_tail ?d"
        using region 1(6,9) by (auto simp: window_dialect_def separators_clear_def)
      have further: "length w < ?at + 1 + length (tail_slice t)" using 1(10) by simp
      show ?thesis
      proof (cases "is_crlf a \<and> w ! ?at = CR")
        case True
        then show ?thesis using run False Some not_quote not_escape no_lf by (simp add: Let_def)
      next
        case no_cr: False
        show ?thesis
        proof (cases "w ! ?at = ending_byte (record_ending ?d)")
          case True
          then show ?thesis
            using run False Some not_quote not_escape no_cr cut(1) further
              1(3) [OF False Some not_escape _ no_cr True _ _ 1(5-9)] 1(11)
            by (auto simp: Let_def split: if_splits)
        next
          case no_end: False
          have "w ! ?at = delimiter ?d"
            by (rule stop_is_delimiter [OF stop(1) not_escape]) (use not_quote no_cr no_end in auto)
          then have "\<not> tail_confirms (delimiter_tail ?d) (drop (?at + 1) w)" using cut(2) delim by simp
          then show ?thesis
            using run False Some not_quote not_escape no_cr no_end further
              1(4) [OF False Some not_escape _ no_cr no_end _ 1(5-9)] 1(11)
            by (auto simp: Let_def split: if_splits)
        qed
      qed
    qed
  qed
qed


lemma loop_at_end_unsettled:
  assumes "parse_inv w rs a" "fs \<le> length w" "scan_end a w rs fs \<le> cursor"
    and "general_unquoted_loop ex w rs header fs cursor a = (a', Ok b)"
  shows "b \<and> \<not> settled w a'"
  using end_of_scan_unsettled [OF assms(1,2)] assms(3,4)
  by (simp add: general_unquoted_loop.simps [of ex w rs header fs cursor a] Let_def)

lemma next_stop_widen:
  assumes "wider w v" "ex = (is_crlf e \<or> unquoted_escape e \<noteq> None)" "cursor \<le> n" "n \<le> length w" "n \<le> n'"
    and "next_stop e ex (slice w cursor n) = Some i"
  shows "next_stop e ex (slice v cursor n') = Some i"
proof -
  obtain rest where "slice v cursor n' = slice w cursor n @ rest" using wider_slice [OF assms(1,3-5)] .
  then show ?thesis using assms(6) by (simp add: next_stop_position [OF assms(2)] position_more)
qed

lemma general_loop_widen:
  assumes "wider w v" "parse_inv w rs a" "window_dialect (en_dialect a)" "fs \<le> length w"
    and "ex = (is_crlf a \<or> unquoted_escape a \<noteq> None)"
    and "general_unquoted_loop ex w rs header fs cursor a = (a', Ok b)" "b \<longrightarrow> settled w a'"
  shows "general_unquoted_loop ex v rs header fs cursor (widen v a) = (widen v a', Ok b)"
  using assms
proof (induction ex w rs header fs cursor a rule: general_unquoted_loop.induct)
  case (1 ex w rs header fs cursor a)
  let ?d = "en_dialect a"
  let ?n = "scan_end a w rs fs"
  note run = 1(10) [unfolded general_unquoted_loop.simps [of ex w rs header fs cursor a]]
  have inside: "\<not> ?n \<le> cursor" using loop_at_end_unsettled [OF 1(6,8) _ 1(10)] 1(11) by blast
  obtain i where i: "next_stop a ex (slice w cursor ?n) = Some i"
  proof (cases "next_stop a ex (slice w cursor ?n)")
    case None
    then show ?thesis using loop_at_end_unsettled [OF 1(6,8) le_refl] run inside 1(11) by simp blast
  qed
  let ?at = "cursor + i"
  note stop = next_stop_member [OF 1(9) i scan_end_le]
  have at: "?at < length w" using order_less_le_trans [OF stop(2) scan_end_le] .
  have same: "v ! ?at = w ! ?at" "j < ?at \<Longrightarrow> v ! j = w ! j" for j using wider_facts(2) [OF 1(5)] at by auto
  have inside': "\<not> scan_end (widen v a) v rs fs \<le> cursor" using inside wider_scan_end [OF 1(5)] by (meson order_trans)
  have i': "next_stop a ex (slice v cursor (scan_end (widen v a) v rs fs)) = Some i"
    using next_stop_widen [OF 1(5,9) _ scan_end_le wider_scan_end [OF 1(5)] i] inside by simp
  note wide = general_unquoted_loop.simps [of ex v rs header fs cursor "widen v a"]
  show ?case
  proof (cases "unquoted_escape a = Some (w ! ?at)")
    case True
    have next_byte: "?at + 1 < length w"
    proof (rule ccontr)
      assume "\<not> ?at + 1 < length w"
      then have "?n \<le> resume_after_unquoted_escape w ?at"
        by (auto simp: resume_after_unquoted_escape_def get_at_Some_iff intro: order_trans [OF scan_end_le])
      then show False
        using loop_at_end_unsettled [OF 1(6,8)] run inside i True 1(11) by (auto simp: Let_def) blast
    qed
    then have "resume_after_unquoted_escape v ?at = resume_after_unquoted_escape w ?at"
      using wider_facts(1) [OF 1(5)] by (simp add: resume_after_unquoted_escape_def get_at_def)
    then show ?thesis
      using 1(2) [OF inside i True 1(5-9) _ 1(11)] run inside i True inside' i' same
      unfolding wide by simp
  next
    case no_escape: False
    have no_quote: "\<not> (allow_quote_search a \<and> w ! ?at = quote ?d)" using run inside i no_escape by auto
    note ended = end_general_widen [OF 1(5,6)]
    have at1: "?at + 1 \<le> length w" using at by simp
    have cut: "\<not> tail_confirms t (drop (?at + 1) v)"
      if "general_unquoted_loop ex w rs header fs (?at + 1) a = (a', Ok b)"
        "t = delimiter_tail ?d \<or> t = ending_tail ?d" "\<not> tail_confirms t (drop (?at + 1) w)" for t
    proof
      assume "tail_confirms t (drop (?at + 1) v)"
      note gone = cut_tail [OF 1(5) at1 this that(3)]
      show False using cut_tail_unsettled [OF 1(6-9) that(2) gone that(1)] 1(11) by blast
    qed
    show ?thesis
    proof (cases "is_crlf a \<and> w ! ?at = CR")
      case True
      then have crlf: "is_crlf a" and cr: "w ! ?at = CR" by simp_all
      then have lf: "get_at w (?at + 1) = Some LF"
        using run inside i no_escape no_quote by (auto simp: Let_def split: if_splits)
      then have "end_general_field w rs header fs ?at ?at (?at + 2) True a = (a', Ok b)"
        using crlf cr run inside i no_escape no_quote by (auto simp: Let_def)
      note ended [OF this]
      then show ?thesis
        using crlf cr inside i no_escape no_quote inside' i' same(1) wider_facts(3) [OF 1(5) lf]
        unfolding wide by (auto simp: Let_def)
    next
      case no_cr: False
      show ?thesis
      proof (cases "w ! ?at = ending_byte (record_ending ?d)")
        case True
        have no_crlf: "\<not> is_crlf a" using True run inside i no_escape no_quote no_cr by auto
        show ?thesis
        proof (cases "tail_confirms (ending_tail ?d) (drop (?at + 1) w)")
          case yes: True
          then show ?thesis
            using True no_crlf run inside i no_escape no_quote no_cr inside' i' same ended
              wider_confirms [OF 1(5) at1 yes]
            unfolding wide by (auto simp: Let_def split: if_splits)
        next
          case no: False
          then have rest: "general_unquoted_loop ex w rs header fs (?at + 1) a = (a', Ok b)"
            using True no_crlf run inside i no_escape no_quote no_cr by (auto split: if_splits)
          show ?thesis
            using 1(3) [OF inside i no_escape no_quote no_cr True no_crlf no 1(5-9) rest 1(11)]
              True no_crlf no_escape no_quote no_cr inside' i' same cut [OF rest _ no]
            unfolding wide by (auto split: if_splits)
        qed
      next
        case no_end: False
        show ?thesis
        proof (cases "tail_confirms (delimiter_tail ?d) (drop (?at + 1) w)")
          case yes: True
          then show ?thesis
            using no_end run inside i no_escape no_quote no_cr inside' i' same ended
              wider_confirms [OF 1(5) at1 yes]
            unfolding wide by (auto simp: Let_def)
        next
          case no: False
          then have rest: "general_unquoted_loop ex w rs header fs (?at + 1) a = (a', Ok b)"
            using no_end run inside i no_escape no_quote no_cr by (auto split: if_splits)
          show ?thesis
            using 1(4) [OF inside i no_escape no_quote no_cr no_end no 1(5-9) rest 1(11)]
              no_end no_escape no_quote no_cr inside' i' same cut [OF rest _ no]
            unfolding wide by (auto split: if_splits)
        qed
      qed
    qed
  qed
qed

lemma unquoted_runtime_widen:
  assumes "wider w v" "parse_inv w rs a" "parse_unquoted_field_runtime w rs dl qt tm q uq st a = (a', Ok b)" "b \<longrightarrow> settled w a'"
  shows "parse_unquoted_field_runtime v rs dl qt tm q uq st (widen v a) = (widen v a', Ok b)"
proof -
  let ?fs = "en_location a"
  let ?n = "scan_end a w rs ?fs"
  let ?find = "\<lambda>xs. if q \<and> \<not> uq then find3 dl qt tm xs else find2 dl tm xs"
  have fs: "?fs \<le> length w" using assms(2) by (simp add: parse_inv_def)
  have n: "?fs \<le> ?n" using assms(3)
    by (auto simp: parse_unquoted_field_runtime_def get_range_def Let_def split: if_splits)
  have raw: "get_range w ?fs ?n = Some (slice w ?fs ?n)" using n by (simp add: get_range_def)
  note run = assms(3) [unfolded parse_unquoted_field_runtime_def Let_def raw option.case]
  obtain i where i: "?find (slice w ?fs ?n) = Some i"
  proof (cases "?find (slice w ?fs ?n)")
    case None
    then show ?thesis using end_of_scan_unsettled [OF assms(2) fs] run assms(4) by auto
  qed
  have "i < length (slice w ?fs ?n)" using i by (auto simp: find_simps dest!: position_less split: if_splits)
  then have "?fs + i < ?n" by (simp add: less_diff_conv add.commute)
  then have at: "?fs + i < length w" using order_less_le_trans [OF _ scan_end_le] by blast
  let ?m = "scan_end (widen v a) v rs ?fs"
  have m: "?n \<le> ?m" using wider_scan_end [OF assms(1)] .
  have raw': "get_range v ?fs ?m = Some (slice v ?fs ?m)" using n m by (simp add: get_range_def)
  obtain rest where "slice v ?fs ?m = slice w ?fs ?n @ rest" using wider_slice [OF assms(1) n scan_end_le m] .
  then have i': "?find (slice v ?fs ?m) = Some i" using i by (auto simp: find_simps position_more split: if_splits)
  have same: "v ! (?fs + i) = w ! (?fs + i)" "v ! (?fs + i - 1) = w ! (?fs + i - 1)"
    using wider_facts(2) [OF assms(1)] at by auto
  have not_quote: "w ! (?fs + i) \<noteq> qt" using run i by (auto simp: Let_def)
  have len: "input_len (en_spans a) \<le> length v" using assms(2) wider_facts(1) [OF assms(1)] by (simp add: parse_inv_def)
  note run' = run [unfolded i option.case if_not_P [OF not_quote]]
  show ?thesis
    unfolding parse_unquoted_field_runtime_def Let_def widen_fields raw' option.case i' same if_not_P [OF not_quote]
  proof (rule bind_widen [OF run'])
    show "push_span v FromInput ?fs (if w ! (?fs + i) = tm \<and> st \<and> ?fs < ?fs + i \<and> w ! (?fs + i - 1) = CR
        then ?fs + i - 1 else ?fs + i) (?fs + i) False (widen v a) = (widen v a1, Ok x)"
      if "push_span w FromInput ?fs (if w ! (?fs + i) = tm \<and> st \<and> ?fs < ?fs + i \<and> w ! (?fs + i - 1) = CR
        then ?fs + i - 1 else ?fs + i) (?fs + i) False a = (a1, Ok x)" for a1 x
      using push_span_widen [OF assms(1) len that] .
  qed (auto simp: note_terminated_def bind_step_def return_step_def check_record_limit_def check_record_limit_for_def
      split: if_splits)
qed

section \<open>Quoted fields\<close>

lemma skip_whitespace_widen:
  assumes "wider w v" "get_at w (skip_post_quote_whitespace w n permits) = Some c"
  shows "skip_post_quote_whitespace v n permits = skip_post_quote_whitespace w n permits"
proof -
  have "wider w v \<Longrightarrow> get_at w (skip_whitespace_from w n) = Some c \<Longrightarrow> skip_whitespace_from v n = skip_whitespace_from w n"
  proof (induction w n rule: skip_whitespace_from.induct)
    case (1 w n)
    note eqs = skip_whitespace_from.simps [of w n] skip_whitespace_from.simps [of v n]
    show ?case
    proof (cases "get_at w n = Some 32 \<or> get_at w n = Some TAB")
      case True
      then have "get_at v n = Some 32 \<or> get_at v n = Some TAB" using wider_facts(3) [OF 1(2)] by blast
      then show ?thesis using 1 True unfolding eqs by simp
    next
      case False
      then have "get_at w n = Some c" using 1(3) unfolding eqs by simp
      then show ?thesis using wider_facts(3) [OF 1(2), of n c] False unfolding eqs by simp
    qed
  qed
  then show ?thesis using assms by (auto simp: skip_post_quote_whitespace_def)
qed

text \<open>The configuration of the quoted parser is the dialect's.\<close>

definition config_of_dialect :: "quoted_config \<Rightarrow> dialect \<Rightarrow> bool" where
  "config_of_dialect cfg d \<longleftrightarrow>
     qc_escape cfg = escape d \<and> qc_quote cfg = quote d \<and> qc_delimiter cfg = delimiter d \<and>
     qc_delimiter_tail cfg = delimiter_tail d \<and> qc_terminator cfg = ending_byte (record_ending d) \<and>
     qc_ending_tail cfg = ending_tail d \<and> qc_record_ending cfg = record_ending d"

lemma finish_quoted_widen:
  assumes "wider w v" "config_of_dialect cfg (en_dialect a)" "window_dialect (en_dialect a)"
    and "finish_quoted_field w rs closed cfg a = (a', Ok b)" "b \<longrightarrow> settled w a'"
  shows "finish_quoted_field v rs closed cfg (widen v a) = (widen v a', Ok b)"
proof -
  let ?d = "en_dialect a"
  let ?at = "skip_post_quote_whitespace w closed (qc_trailing_ws cfg)"
  have cfg: "qc_delimiter cfg = delimiter ?d" "qc_delimiter_tail cfg = delimiter_tail ?d"
    "qc_terminator cfg = ending_byte (record_ending ?d)" "qc_ending_tail cfg = ending_tail ?d"
    "qc_record_ending cfg = record_ending ?d"
    using assms(2) by (simp_all add: config_of_dialect_def)
  note run = assms(4) [unfolded finish_quoted_field_def Let_def cfg]
  have distinct: "ending_byte (record_ending ?d) \<noteq> delimiter ?d"
    using assms(3) by (simp add: window_dialect_def invalidity_None_iff)
  obtain nxt where nxt: "get_at w ?at = Some nxt"
  proof (cases "get_at w ?at")
    case None
    then have "length w \<le> ?at" by (simp add: get_at_def split: if_splits)
    then show ?thesis
      using run None assms(5) by (auto simp: bind_step_def settled_def clear_terminated_def split: prod.splits outcome.splits)
  qed
  have at1: "?at + 1 \<le> length w" using nxt by (simp add: get_at_Some_iff)
  have nxt': "get_at v ?at = Some nxt" using wider_facts(3) [OF assms(1) nxt] .
  have skip: "skip_post_quote_whitespace v closed (qc_trailing_ws cfg) = ?at" using skip_whitespace_widen [OF assms(1) nxt] .
  note run' = run [unfolded nxt option.case]
  have delim: "tail_confirms (delimiter_tail ?d) (drop (?at + 1) v) = tail_confirms (delimiter_tail ?d) (drop (?at + 1) w)"
    if "nxt = delimiter ?d"
  proof (rule iffI, rule ccontr)
    assume yes: "tail_confirms (delimiter_tail ?d) (drop (?at + 1) v)"
      and no: "\<not> tail_confirms (delimiter_tail ?d) (drop (?at + 1) w)"
    have e: "record_ending ?d = Newline \<or> record_ending ?d = CrLf" and lf: "get_at w (?at + 1) = Some LF"
      using run' no that distinct by (auto split: if_splits)
    have "LF \<in> set (tail_slice (delimiter_tail ?d))"
      using cut_tail(2) [OF assms(1) at1 yes no, of "?at + 1"] lf by (simp add: get_at_Some_iff)
    then show False using e assms(3) by (auto simp: window_dialect_def separators_clear_def)
  qed (rule wider_confirms [OF assms(1) at1])
  have ending: "tail_confirms (ending_tail ?d) (drop (?at + 1) v) = tail_confirms (ending_tail ?d) (drop (?at + 1) w)"
    if "nxt = ending_byte (record_ending ?d)"
  proof (rule iffI, rule ccontr)
    assume yes: "tail_confirms (ending_tail ?d) (drop (?at + 1) v)"
      and no: "\<not> tail_confirms (ending_tail ?d) (drop (?at + 1) w)"
    have "tail_slice (ending_tail ?d) \<noteq> []" using no by (auto simp: tail_confirms_def)
    then obtain c where "record_ending ?d = EndByte c" using ending_tail_only [OF assms(3)] by blast
    then show False using run' no that distinct by (auto split: if_splits)
  qed (rule wider_confirms [OF assms(1) at1])
  have lf: "get_at v (?at + 1) = Some LF" if "get_at w (?at + 1) = Some LF" using wider_facts(3) [OF assms(1) that] .
  have limited: "bind_step (check_record_limit u rs n) (\<lambda>_. return_step True) x = (x', Ok c) \<longleftrightarrow>
      x' = x \<and> c \<and> rs \<le> n \<and> n - rs \<le> max_record_bytes (en_limits x)" for u n x x' c
    by (auto simp: bind_step_def check_record_limit_def check_record_limit_for_def)
  show ?thesis
  proof (cases "nxt = delimiter ?d")
    case True
    then show ?thesis
      using run' delim [OF True] lf distinct
      unfolding finish_quoted_field_def Let_def cfg skip nxt' option.case
      by (cases "tail_confirms (delimiter_tail ?d) (drop (?at + 1) w)") (auto simp: limited note_terminated_def split: if_splits)
  next
    case no_delim: False
    show ?thesis
    proof (cases "nxt = ending_byte (record_ending ?d)")
      case True
      then show ?thesis
        using run' ending [OF True] lf no_delim
        unfolding finish_quoted_field_def Let_def cfg skip nxt' option.case
        by (auto simp: limited note_terminated_def split: if_splits)
    next
      case False
      then show ?thesis
        using run' lf no_delim
        unfolding finish_quoted_field_def Let_def cfg skip nxt' option.case
        by (auto simp: limited note_terminated_def split: if_splits)
    qed
  qed
qed

lemma settled_after_quote:
  assumes "finish_quoted_field w rs closed cfg a = (a', Ok b)" "b \<longrightarrow> settled w a'"
  shows "closed < length w"
proof (rule ccontr)
  assume "\<not> closed < length w"
  then have none: "get_at w closed = None" by (simp add: get_at_def)
  then have "skip_post_quote_whitespace w closed p = closed" for p
    by (simp add: skip_post_quote_whitespace_def skip_whitespace_from.simps [of w closed])
  then show False
    using assms none \<open>\<not> closed < length w\<close>
    by (auto simp: finish_quoted_field_def bind_step_def settled_def clear_terminated_def split: prod.splits outcome.splits)
qed

lemma widen_spans: "f ((en_spans a)\<lparr>ss_input_bound := length v + 1\<rparr>) = (f (en_spans a))\<lparr>ss_input_bound := length v + 1\<rparr> \<Longrightarrow>
    (widen v a)\<lparr>en_spans := f (en_spans (widen v a))\<rparr> = widen v (a\<lparr>en_spans := f (en_spans a)\<rparr>)"
  by (simp add: widen_def)

lemma scratch_input_len [simp]:
  "input_len (scratch_extend bs st) = input_len st" "input_len (scratch_push c st) = input_len st"
  by (simp_all add: scratch_extend_def scratch_push_def input_len_def)

lemma same_but_spans_config: "same_but_spans a a' \<Longrightarrow> config_of a' = config_of a"
  by (auto simp: same_but_spans_def)

lemma close_quoted_widen:
  assumes "wider w v" "parse_inv w rs a" "config_of_dialect cfg (en_dialect a)" "window_dialect (en_dialect a)"
    and "at < length w" "close_quoted w rs cfg cs ss seg copied at a = (a', Ok b)" "b \<longrightarrow> settled w a'"
  shows "close_quoted v rs cfg cs ss seg copied at (widen v a) = (widen v a', Ok b)"
proof -
  let ?a = "if copied then a\<lparr>en_spans := scratch_extend (slice w seg at) (en_spans a)\<rparr> else a"
  have "slice v seg at = slice w seg at" using wider_facts(5) [OF assms(1)] assms(5) by simp
  then have wide: "(if copied then (widen v a)\<lparr>en_spans := scratch_extend (slice v seg at) (en_spans (widen v a))\<rparr>
      else widen v a) = widen v ?a"
    using widen_spans [of "scratch_extend (slice w seg at)"] by simp
  have len: "input_len (en_spans ?a) \<le> length v" using assms(2) wider_facts(1) [OF assms(1)] by (simp add: parse_inv_def)
  show ?thesis
    unfolding close_quoted_def Let_def wide widen_fields
  proof (rule bind_widen [OF assms(6) [unfolded close_quoted_def Let_def]])
    fix a1 u
    assume push: "(if copied then push_span w FromScratch ss (scratch_len (en_spans ?a)) at True
        else push_span w FromInput cs at at True) ?a = (a1, Ok u)"
    then show "(if copied then push_span v FromScratch ss (scratch_len (en_spans ?a)) at True
        else push_span v FromInput cs at at True) (widen v ?a) = (widen v a1, Ok u)"
      using push_span_widen [OF assms(1) len] by (auto split: if_splits)
    have "en_dialect a1 = en_dialect a" using push by (auto dest!: push_span_same simp: same_but_spans_def split: if_splits)
    moreover assume "finish_quoted_field w rs (at + 1) cfg a1 = (a', Ok b)"
    ultimately show "finish_quoted_field v rs (at + 1) cfg (widen v a1) = (widen v a', Ok b)"
      using finish_quoted_widen [OF assms(1)] assms(3,4,7) by metis
  qed
qed

lemma take_escape_widen:
  assumes "wider w v" "seg \<le> length w" "at \<le> length w" "take_escape w copied cs seg at b ss a = (a', Ok u)"
  shows "take_escape v copied cs seg at b ss (widen v a) = (widen v a', Ok u)"
proof -
  let ?f = "\<lambda>st. scratch_push b (copy_segment w copied cs seg at st)"
  have same: "copy_segment v copied cs seg at st = copy_segment w copied cs seg at st" for st
    using wider_facts(5) [OF assms(1)] assms(2,3) by (simp add: copy_segment_def)
  have "(widen v a)\<lparr>en_spans := ?f (en_spans (widen v a))\<rparr> = widen v (a\<lparr>en_spans := ?f (en_spans a)\<rparr>)"
    by (rule widen_spans) (simp add: copy_segment_def Let_def)
  then show ?thesis using assms(4) by (auto simp: take_escape_def Let_def same)
qed

lemma settled_after_close:
  assumes "close_quoted w rs cfg cs ss seg copied at a = (a', Ok b)" "b \<longrightarrow> settled w a'"
  shows "at + 1 < length w"
proof -
  obtain a1 where "finish_quoted_field w rs (at + 1) cfg a1 = (a', Ok b)"
    using assms(1) by (auto simp: close_quoted_def Let_def elim!: bind_step_Ok)
  then show ?thesis by (rule settled_after_quote) (rule assms(2))
qed

lemma quoted_stop_more: "quoted_stop cfg xs = Some i \<Longrightarrow> quoted_stop cfg (xs @ ys) = Some i"
  by (auto simp: quoted_stop_def find_simps position_more split: escape.splits)

lemma quoted_event_widen:
  assumes "wider w v" "at + 1 < length w"
    and "(\<forall>k n. quoted_event_at w cfg m at \<noteq> BadQuoted k n)"
  shows "quoted_event_at v cfg m' at = quoted_event_at w cfg m at"
  using assms(3) wider_facts(1,2) [OF assms(1)] assms(2)
  by (auto simp: quoted_event_at_def Let_def get_at_def split: option.splits)

lemma quoted_loop_widen:
  assumes "wider w v" "parse_inv w rs a" "config_of_dialect cfg (en_dialect a)" "window_dialect (en_dialect a)"
    and "rs \<le> cs" "cs \<le> cursor" "config_tails_wf cfg" "ss \<le> scratch_len (en_spans a)" "seg = cursor"
    and "parse_quoted_loop w rs cfg cs ss seg cursor copied a = (a', Ok b)" "b \<longrightarrow> settled w a'"
  shows "parse_quoted_loop v rs cfg cs ss seg cursor copied (widen v a) = (widen v a', Ok b)"
  using assms
proof (induction w rs cfg cs ss seg cursor copied a rule: parse_quoted_loop.induct)
  case (1 w rs cfg cs ss seg cursor copied a)
  note run = 1(11) [unfolded parse_quoted_loop.simps [of w rs cfg cs ss seg cursor copied a]]
  note wide = parse_quoted_loop.simps [of v rs cfg cs ss seg cursor copied "widen v a"]
  let ?n = "scan_end a w rs cs"
  let ?m = "scan_end (widen v a) v rs cs"
  obtain remaining i where r: "get_range w cursor ?n = Some remaining" "quoted_stop cfg remaining = Some i"
    using run by (auto simp: Let_def split: option.splits prod.splits outcome.splits elim!: bind_step_Ok)
  then have slice: "remaining = slice w cursor ?n" "cursor \<le> ?n" by (auto simp: get_range_def split: if_splits)
  let ?at = "cursor + i"
  have at: "?at < length w" using slice_index quoted_stop_less [OF r(2)] slice(1) by blast
  have bound: "?n \<le> ?m" using wider_scan_end [OF 1(2)] .
  obtain rest where "slice v cursor ?m = remaining @ rest"
    using wider_slice [OF 1(2) slice(2) scan_end_le bound] slice(1) by metis
  then have r': "get_range v cursor ?m = Some (remaining @ rest)" "quoted_stop cfg (remaining @ rest) = Some i"
    using slice(2) bound quoted_stop_more [OF r(2)] by (auto simp: get_range_def)
  note run' = run [unfolded Let_def r(1) option.case r(2)]
  have fine: "\<forall>k n. quoted_event_at w cfg ?n ?at \<noteq> BadQuoted k n" using run' by auto
  show ?case
  proof (cases "quoted_event_at w cfg ?n ?at")
    case (Escaped c)
    have at1: "?at + 1 < length w"
      using Escaped by (auto simp: quoted_event_at_def Let_def get_at_Some_iff split: if_splits option.splits)
    note event = quoted_event_widen [OF 1(2) at1 fine, unfolded Escaped]
    obtain a1 u where t: "take_escape w copied cs seg ?at c ss a = (a1, Ok u)"
      "parse_quoted_loop w rs cfg cs ss (?at + 2) (?at + 2) True a1 = (a', Ok b)"
      using run' Escaped by (auto split: prod.splits outcome.splits)
    have seg: "seg \<le> length w" using 1(10) slice(2) scan_end_le order_trans by blast
    note t' = take_escape_widen [OF 1(2) seg less_imp_le [OF at] t(1)]
    have g: "good w rs a (a1, Ok u)" using good_take_escape(1) [OF 1(3,9), of copied cs seg ?at c] t(1) by simp
    have a1: "parse_inv w rs a1" "config_of a1 = config_of a" "ss \<le> scratch_len (en_spans a1)"
      using g good_take_escape(2) [OF 1(3,9) t(1)] by simp_all
    have "parse_quoted_loop v rs cfg cs ss (?at + 2) (?at + 2) True (widen v a1) = (widen v a', Ok b)"
      using 1(1) [OF refl r Escaped t(1) [symmetric] refl 1(2) a1(1) _ _ 1(6) _ 1(8) a1(3) refl t(2) 1(12)]
        1(4,5,7) config_ofD(1) [OF a1(2)] by simp
    then show ?thesis using r' event t' unfolding wide Let_def by simp
  next
    case ClosingQuote
    then have c: "close_quoted w rs cfg cs ss seg copied ?at a = (a', Ok b)" using run' by simp
    note event = quoted_event_widen [OF 1(2) settled_after_close [OF c 1(12)] fine, unfolded ClosingQuote]
    then show ?thesis
      using r' close_quoted_widen [OF 1(2-5) at c 1(12)] unfolding wide Let_def by simp
  next
    case BadQuoted
    then show ?thesis using fine by blast
  qed
qed

section \<open>One field\<close>

lemma config_matches:
  assumes "engine_wf a" "format_matches opts a"
  shows "config_of_dialect \<lparr>qc_escape = fmt_escape opts a, qc_quote = fmt_quote opts a,
      qc_delimiter = fmt_delimiter opts a, qc_delimiter_tail = fmt_delimiter_tail opts a,
      qc_terminator = fmt_terminator opts a, qc_ending_tail = fmt_ending_tail opts a,
      qc_record_ending = fmt_record_ending opts a, qc_any_backslash = x, qc_trailing_ws = y\<rparr> (en_dialect a)"
    "config_tails_wf \<lparr>qc_escape = fmt_escape opts a, qc_quote = fmt_quote opts a,
      qc_delimiter = fmt_delimiter opts a, qc_delimiter_tail = fmt_delimiter_tail opts a,
      qc_terminator = fmt_terminator opts a, qc_ending_tail = fmt_ending_tail opts a,
      qc_record_ending = fmt_record_ending opts a, qc_any_backslash = x, qc_trailing_ws = y\<rparr>"
  using fmt_of_engine [OF assms(2,1)] assms(1)
  by (simp_all add: config_of_dialect_def config_tails_wf_def engine_wf_def tails_wf_def)

lemma quoted_field_widen:
  assumes "wider w v" "parse_inv w rs a" "engine_wf a" "format_matches opts a" "window_dialect (en_dialect a)"
    and "parse_quoted_field opts w rs a = (a', Ok b)" "b \<longrightarrow> settled w a'"
  shows "parse_quoted_field opts v rs (widen v a) = (widen v a', Ok b)"
proof -
  have "rs \<le> en_location a + 1" using assms(2) by (simp add: parse_inv_def)
  then show ?thesis
    using quoted_loop_widen [OF assms(1,2) config_matches(1) [OF assms(3,4)] assms(5) _ le_refl
        config_matches(2) [OF assms(3,4)] le_refl refl _ assms(7)] assms(6)
    by (simp add: parse_quoted_field_def Let_def)
qed

lemma unquoted_field_widen:
  assumes "wider w v" "parse_inv w rs a" "window_dialect (en_dialect a)"
    and "parse_unquoted_field opts w rs header a = (a', Ok b)" "b \<longrightarrow> settled w a'"
  shows "parse_unquoted_field opts v rs header (widen v a) = (widen v a', Ok b)"
proof -
  have fs: "en_location a \<le> length w" using assms(2) by (simp add: parse_inv_def)
  have ex: "(record_ending (en_dialect a) = CrLf \<or> escapes_unquoted (escape (en_dialect a))) =
      (is_crlf a \<or> unquoted_escape a \<noteq> None)"
    by (auto simp: is_crlf_def unquoted_escape_def escapes_unquoted_def split: escape.splits)
  show ?thesis
    using general_loop_widen [OF assms(1-3) fs ex _ assms(5)] unquoted_runtime_widen [OF assms(1,2) _ assms(5)] assms(4)
    by (auto simp: parse_unquoted_field_def parse_general_unquoted_field_def Let_def split: if_splits)
qed

text \<open>At the edge of the window there is nothing to read, and what is read there is not settled.\<close>

lemma field_at_edge:
  assumes "parse_inv w rs a" "length w \<le> en_location a"
    and "parse_unquoted_field opts w rs header a = (a', Ok b)"
  shows "b \<and> \<not> settled w a'"
proof -
  let ?fs = "en_location a"
  have fs: "?fs = length w" using assms(1,2) by (simp add: parse_inv_def)
  have edge: "scan_end a w rs ?fs \<le> ?fs" using fs by simp
  have "get_range w ?fs (scan_end a w rs ?fs) = Some raw \<Longrightarrow> raw = []" for raw
    using fs edge by (auto simp: get_range_def split: if_splits)
  moreover have "find3 x y z [] = None" "find2 x y [] = None" for x y z by (simp_all add: find_simps)
  ultimately have "parse_unquoted_field_runtime w rs dl qt tm q uq st a = (a', Ok b) \<Longrightarrow> b \<and> \<not> settled w a'"
    for dl qt tm q uq st
    using end_of_scan_unsettled [OF assms(1), of ?fs] fs
    by (fastforce simp: parse_unquoted_field_runtime_def Let_def split: option.splits if_splits)
  then show ?thesis
    using loop_at_end_unsettled [OF assms(1) _ edge] fs assms(3)
    by (auto simp: parse_unquoted_field_def parse_general_unquoted_field_def Let_def split: if_splits) blast+
qed

lemma skip_spaces_widen:
  assumes "wider w v" "skip_delimiter_spaces_loop w rs field a = (a', Ok u)" "en_location a' < length w"
  shows "skip_delimiter_spaces_loop v rs field (widen v a) = (widen v a', Ok u)"
  using assms
proof (induction w rs field a rule: skip_delimiter_spaces_loop.induct)
  case (1 w rs field a)
  note run = 1(3) [unfolded skip_delimiter_spaces_loop.simps [of w rs field a]]
  note wide = skip_delimiter_spaces_loop.simps [of v rs field "widen v a"]
  show ?case
  proof (cases "get_at w (en_location a) = Some 32")
    case True
    let ?a = "a\<lparr>en_location := en_location a + 1\<rparr>"
    obtain a1 x where c: "check_record_limit_for w rs (en_location ?a) field ?a = (a1, Ok x)"
      using run True by (auto simp: Let_def split: prod.splits outcome.splits)
    have c': "check_record_limit_for v rs (en_location ?a) field ((widen v a)\<lparr>en_location := en_location a + 1\<rparr>) =
        ((widen v a)\<lparr>en_location := en_location a + 1\<rparr>, Ok x)"
      using c by (auto simp: check_record_limit_for_def split: if_splits)
    have "skip_delimiter_spaces_loop w rs field ?a = (a', Ok u)" using run True c by (simp add: Let_def)
    then have "skip_delimiter_spaces_loop v rs field (widen v ?a) = (widen v a', Ok u)"
      using 1(1) [OF True refl c [symmetric] refl 1(2) _ 1(4)] by simp
    then show ?thesis using wider_facts(3) [OF 1(2) True] c' unfolding wide by (simp add: Let_def)
  next
    case False
    then have "a' = a" using run by simp
    then have "get_at v (en_location a) = get_at w (en_location a)"
      using 1(4) wider_facts(1,2) [OF 1(2)] by (simp add: get_at_def)
    then show ?thesis using run False unfolding wide by simp
  qed
qed

lemma one_field_widen:
  assumes "wider w v" "parse_inv w rs a" "engine_wf a" "format_matches opts a" "window_dialect (en_dialect a)"
    and "parse_one_field opts w rs header a = (a', Ok b)" "b \<longrightarrow> settled w a'"
  shows "parse_one_field opts v rs header (widen v a) = (widen v a', Ok b)"
  unfolding parse_one_field_def
proof (rule bind_widen_both [OF assms(6) [unfolded parse_one_field_def]])
  let ?field = "\<lambda>u a1. if get_at u (en_location a1) = Some (fmt_quote opts a1) \<and> fmt_quoting_enabled opts a1
      then parse_quoted_field opts u rs a1 else parse_unquoted_field opts u rs header a1"
  fix a1 x
  assume s: "skip_delimiter_spaces opts w rs a = (a1, Ok x)" and f: "?field w a1 = (a', Ok b)"
  have "good w rs a (skip_delimiter_spaces opts w rs a)"
    using good_skip_loop [OF assms(2)] assms(2) by (simp add: skip_delimiter_spaces_def skip_delimiter_spaces_for_def)
  then have a1: "parse_inv w rs a1" "config_of a1 = config_of a" using s by simp_all
  have inside: "en_location a1 < length w"
  proof (rule ccontr)
    assume edge: "\<not> en_location a1 < length w"
    then have "get_at w (en_location a1) = None" by (simp add: get_at_def)
    then show False using field_at_edge [OF a1(1)] edge f assms(7) by fastforce
  qed
  have wf: "engine_wf a1" "format_matches opts a1" "window_dialect (en_dialect a1)"
    using assms(3-5) engine_wf_config [OF a1(2)] format_matches_config [OF a1(2)] config_ofD(1) [OF a1(2)] by simp_all
  have "skip_delimiter_spaces opts v rs (widen v a) = (widen v a1, Ok x)"
    using s skip_spaces_widen [OF assms(1) _ inside]
    by (auto simp: skip_delimiter_spaces_def skip_delimiter_spaces_for_def split: if_splits)
  moreover have "get_at v (en_location a1) = get_at w (en_location a1)"
    using inside wider_facts(1,2) [OF assms(1)] by (simp add: get_at_def)
  then have "?field v (widen v a1) = (widen v a', Ok b)"
    using f quoted_field_widen [OF assms(1) a1(1) wf _ assms(7)] unquoted_field_widen [OF assms(1) a1(1) wf(3) _ assms(7)]
    by (auto split: if_splits)
  ultimately show "skip_delimiter_spaces opts v rs (widen v a) = (widen v a1, Ok x) \<and>
      ?field v (widen v a1) = (widen v a', Ok b)" ..
qed

section \<open>A settled record reads a byte that ends records\<close>

definition ends_in :: "bytes \<Rightarrow> nat \<Rightarrow> byte \<Rightarrow> bool" where
  "ends_in w from c \<longleftrightarrow> (\<exists>j. from \<le> j \<and> j < length w \<and> w ! j = c)"

lemma ends_inI: "from \<le> j \<Longrightarrow> j < length w \<Longrightarrow> w ! j = c \<Longrightarrow> ends_in w from c"
  by (auto simp: ends_in_def)

lemma ends_in_mono: "ends_in w from c \<Longrightarrow> from' \<le> from \<Longrightarrow> ends_in w from' c"
  by (auto simp: ends_in_def intro: order_trans)

lemma general_loop_reads_ending:
  assumes "parse_inv w rs a" "fs \<le> length w" "ex = (is_crlf a \<or> unquoted_escape a \<noteq> None)"
    and "general_unquoted_loop ex w rs header fs cursor a = (a', Ok True)" "settled w a'"
  shows "ends_in w cursor (ending_byte (record_ending (en_dialect a)))"
  using assms
proof (induction ex w rs header fs cursor a rule: general_unquoted_loop.induct)
  case (1 ex w rs header fs cursor a)
  let ?n = "scan_end a w rs fs"
  note run = 1(8) [unfolded general_unquoted_loop.simps [of ex w rs header fs cursor a]]
  have inside: "\<not> ?n \<le> cursor" using loop_at_end_unsettled [OF 1(5,6) _ 1(8)] 1(9) by blast
  obtain i where i: "next_stop a ex (slice w cursor ?n) = Some i"
  proof (cases "next_stop a ex (slice w cursor ?n)")
    case None
    then show ?thesis using loop_at_end_unsettled [OF 1(5,6) le_refl] run inside 1(9) by simp
  qed
  let ?at = "cursor + i"
  have at: "?at < length w" using order_less_le_trans [OF next_stop_member(2) [OF 1(7) i scan_end_le] scan_end_le] .
  have later: "ends_in w n c \<Longrightarrow> cursor \<le> n \<Longrightarrow> ends_in w cursor c" for n c by (rule ends_in_mono)
  have resume: "cursor \<le> resume_after_unquoted_escape w ?at" by (simp add: resume_after_unquoted_escape_def)
  have ended: "end_general_field w rs header fs x y z False a = (a', Ok True) \<Longrightarrow> False" for x y z
    by (auto dest: end_general_field_location)
  show ?case
  proof (cases "unquoted_escape a = Some (w ! ?at)")
    case True
    then show ?thesis using 1(2) [OF inside i True 1(5-7) _ 1(9)] run inside i later [OF _ resume] by simp
  next
    case no_escape: False
    note IH = 1(3,4) [OF inside i no_escape]
    have no_quote: "\<not> (allow_quote_search a \<and> w ! ?at = quote (en_dialect a))" using run inside i no_escape by auto
    show ?thesis
    proof (cases "is_crlf a \<and> w ! ?at = CR")
      case True
      then have crlf: "is_crlf a" and cr: "w ! ?at = CR" by simp_all
      have "get_at w (?at + 1) = Some LF"
        using run crlf cr inside i no_escape no_quote by (auto simp: Let_def split: if_splits)
      then show ?thesis using crlf by (intro ends_inI [of _ "?at + 1"]) (auto simp: get_at_Some_iff is_crlf_def)
    next
      case no_cr: False
      show ?thesis
      proof (cases "w ! ?at = ending_byte (record_ending (en_dialect a))")
        case True
        then show ?thesis using at by (intro ends_inI [of _ ?at]) auto
      next
        case no_end: False
        show ?thesis
        proof (cases "tail_confirms (delimiter_tail (en_dialect a)) (drop (?at + 1) w)")
          case True
          then show ?thesis
            using run inside i no_escape no_quote no_cr no_end ended by (auto simp: Let_def split: if_splits)
        next
          case no: False
          then have "general_unquoted_loop ex w rs header fs (?at + 1) a = (a', Ok True)"
            using run inside i no_escape no_quote no_cr no_end by (auto split: if_splits)
          then show ?thesis using IH(2) [OF no_quote no_cr no_end no 1(5-7) _ 1(9)] later by simp
        qed
      qed
    qed
  qed
qed

lemma runtime_reads_ending:
  assumes "parse_inv w rs a" "parse_unquoted_field_runtime w rs dl qt tm q uq st a = (a', Ok True)" "settled w a'"
  shows "ends_in w (en_location a) tm"
proof -
  let ?fs = "en_location a"
  let ?n = "scan_end a w rs ?fs"
  let ?find = "\<lambda>xs. if q \<and> \<not> uq then find3 dl qt tm xs else find2 dl tm xs"
  have fs: "?fs \<le> length w" using assms(1) by (simp add: parse_inv_def)
  have raw: "get_range w ?fs ?n = Some (slice w ?fs ?n)" using assms(2)
    by (auto simp: parse_unquoted_field_runtime_def get_range_def Let_def split: if_splits)
  note run = assms(2) [unfolded parse_unquoted_field_runtime_def Let_def raw option.case]
  obtain i where i: "?find (slice w ?fs ?n) = Some i"
  proof (cases "?find (slice w ?fs ?n)")
    case None
    then show ?thesis using end_of_scan_unsettled [OF assms(1) fs] run assms(3) by auto
  qed
  have "i < length (slice w ?fs ?n)" using i by (auto simp: find_simps dest!: position_less split: if_splits)
  then have at: "?fs + i < length w" using slice_index by blast
  have "w ! (?fs + i) = tm" using run i by (auto elim!: bind_step_Ok split: if_splits)
  then show ?thesis using at by (intro ends_inI [of _ "?fs + i"]) auto
qed

lemma skip_whitespace_le: "n \<le> skip_post_quote_whitespace w n permits"
proof -
  have "n \<le> skip_whitespace_from w n"
    by (induction w n rule: skip_whitespace_from.induct) (subst skip_whitespace_from.simps, auto)
  then show ?thesis by (simp add: skip_post_quote_whitespace_def)
qed

lemma finish_quoted_reads_ending:
  assumes "config_of_dialect cfg d" "finish_quoted_field w rs closed cfg a = (a', Ok True)" "settled w a'"
  shows "ends_in w closed (ending_byte (record_ending d))"
proof -
  let ?at = "skip_post_quote_whitespace w closed (qc_trailing_ws cfg)"
  have le: "closed \<le> ?at" by (rule skip_whitespace_le)
  note run = assms(2) [unfolded finish_quoted_field_def Let_def]
  have "get_at w ?at \<noteq> None"
    using run assms(3) by (auto simp: get_at_def settled_def clear_terminated_def elim!: bind_step_Ok split: if_splits)
  then obtain nxt where nxt: "get_at w ?at = Some nxt" by blast
  have "nxt = ending_byte (record_ending d) \<or> ending_byte (record_ending d) = LF \<and> get_at w (?at + 1) = Some LF"
    using run nxt assms(1) by (auto simp: config_of_dialect_def split: if_splits)
  then show ?thesis
    using nxt le ends_inI [of closed ?at w] ends_inI [of closed "?at + 1" w] by (auto simp: get_at_Some_iff)
qed

lemma quoted_loop_reads_ending:
  assumes "config_of_dialect cfg d" "parse_quoted_loop w rs cfg cs ss seg cursor copied a = (a', Ok True)" "settled w a'"
  shows "ends_in w cursor (ending_byte (record_ending d))"
  using assms
proof (induction w rs cfg cs ss seg cursor copied a rule: parse_quoted_loop.induct)
  case (1 w rs cfg cs ss seg cursor copied a)
  note run = 1(3) [unfolded parse_quoted_loop.simps [of w rs cfg cs ss seg cursor copied a]]
  let ?n = "scan_end a w rs cs"
  obtain remaining i where r: "get_range w cursor ?n = Some remaining" "quoted_stop cfg remaining = Some i"
    using run by (auto simp: Let_def split: option.splits prod.splits outcome.splits elim!: bind_step_Ok)
  note run' = run [unfolded Let_def r(1) option.case r(2)]
  let ?at = "cursor + i"
  show ?case
  proof (cases "quoted_event_at w cfg ?n ?at")
    case (Escaped c)
    obtain a1 u where t: "take_escape w copied cs seg ?at c ss a = (a1, Ok u)"
      "parse_quoted_loop w rs cfg cs ss (?at + 2) (?at + 2) True a1 = (a', Ok True)"
      using run' Escaped by (auto split: prod.splits outcome.splits)
    show ?thesis
      using 1(1) [OF refl r Escaped t(1) [symmetric] refl 1(2) t(2) 1(4)] by (rule ends_in_mono) simp
  next
    case ClosingQuote
    then have "close_quoted w rs cfg cs ss seg copied ?at a = (a', Ok True)" using run' by simp
    then obtain a1 where "finish_quoted_field w rs (?at + 1) cfg a1 = (a', Ok True)"
      by (auto simp: close_quoted_def Let_def elim!: bind_step_Ok)
    then show ?thesis by (rule ends_in_mono [OF finish_quoted_reads_ending [OF 1(2) _ 1(4)]]) simp
  next
    case BadQuoted
    then show ?thesis using run' by simp
  qed
qed

lemma one_field_reads_ending:
  assumes "parse_inv w rs a" "engine_wf a" "format_matches opts a"
    and "parse_one_field opts w rs header a = (a', Ok True)" "settled w a'"
  shows "ends_in w (en_location a) (ending_byte (record_ending (en_dialect a)))"
proof -
  obtain a1 u where s: "skip_delimiter_spaces opts w rs a = (a1, Ok u)"
    "(if get_at w (en_location a1) = Some (fmt_quote opts a1) \<and> fmt_quoting_enabled opts a1
      then parse_quoted_field opts w rs a1 else parse_unquoted_field opts w rs header a1) = (a', Ok True)"
    using assms(4) unfolding parse_one_field_def by (auto elim!: bind_step_Ok)
  have "good w rs a (skip_delimiter_spaces opts w rs a)"
    using good_skip_loop [OF assms(1)] assms(1) by (simp add: skip_delimiter_spaces_def skip_delimiter_spaces_for_def)
  then have a1: "parse_inv w rs a1" "config_of a1 = config_of a" using s(1) by simp_all
  have wf: "engine_wf a1" "format_matches opts a1" and d: "en_dialect a1 = en_dialect a"
    using assms(2,3) engine_wf_config [OF a1(2)] format_matches_config [OF a1(2)] config_ofD(1) [OF a1(2)] by simp_all
  have fs: "en_location a1 \<le> length w" using a1(1) by (simp add: parse_inv_def)
  have ex: "(record_ending (en_dialect a1) = CrLf \<or> escapes_unquoted (escape (en_dialect a1))) =
      (is_crlf a1 \<or> unquoted_escape a1 \<noteq> None)"
    by (auto simp: is_crlf_def unquoted_escape_def escapes_unquoted_def split: escape.splits)
  have "ends_in w (en_location a1) (ending_byte (record_ending (en_dialect a1)))"
  proof (cases "get_at w (en_location a1) = Some (fmt_quote opts a1) \<and> fmt_quoting_enabled opts a1")
    case True
    then have "ends_in w (en_location a1 + 1) (ending_byte (record_ending (en_dialect a1)))"
      using s(2) quoted_loop_reads_ending [OF config_matches(1) [OF wf] _ assms(5)]
      by (simp add: parse_quoted_field_def Let_def)
    then show ?thesis by (rule ends_in_mono) simp
  next
    case False
    then have "parse_unquoted_field opts w rs header a1 = (a', Ok True)" using s(2) by (auto split: if_splits)
    then show ?thesis
      using general_loop_reads_ending [OF a1(1) fs ex _ assms(5)] runtime_reads_ending [OF a1(1) _ assms(5)]
        fmt_of_engine(3) [OF wf(2,1)]
      by (auto simp: parse_unquoted_field_def parse_general_unquoted_field_def Let_def split: if_splits)
  qed
  then show ?thesis
    using skip_delimiter_spaces_location [OF s(1)] by (metis d ends_in_mono)
qed

section \<open>The passes over a finished record\<close>

lemma map_outcome_widen:
  assumes "map_outcome f xs = Ok ys" "\<And>x y. x \<in> set xs \<Longrightarrow> f x = Ok y \<Longrightarrow> g x = Ok y"
  shows "map_outcome g xs = Ok ys"
  using assms
proof (induction xs arbitrary: ys)
  case (Cons x xs)
  obtain y zs where y: "f x = Ok y" "map_outcome f xs = Ok zs" "ys = y # zs"
    using Cons(2) by (auto simp: bind_outcome_Ok_iff map_ok_Ok_iff)
  then show ?case using Cons(1) [OF y(2)] Cons(3) by (simp add: map_ok_Ok_iff)
qed simp

lemma trim_widen:
  "wider w v \<Longrightarrow> trim_front w f until = Ok n \<Longrightarrow> trim_front v f until = Ok n"
  "wider w v \<Longrightarrow> trim_back w f m = Ok n \<Longrightarrow> trim_back v f m = Ok n"
proof -
  show "wider w v \<Longrightarrow> trim_front w f until = Ok n \<Longrightarrow> trim_front v f until = Ok n"
  proof (induction w f until rule: trim_front.induct)
    case (1 w f until)
    note eqs = trim_front.simps [of w f until] trim_front.simps [of v f until]
    show ?case
    proof (cases "f < until")
      case True
      obtain b where b: "get_at w f = Some b" using 1(3) True unfolding eqs by (auto split: option.splits)
      then show ?thesis using 1 True wider_facts(3) [OF 1(2) b] unfolding eqs by (auto split: if_splits)
    next
      case False
      then show ?thesis using 1(3) unfolding eqs by simp
    qed
  qed
  show "wider w v \<Longrightarrow> trim_back w f m = Ok n \<Longrightarrow> trim_back v f m = Ok n"
  proof (induction w f m rule: trim_back.induct)
    case (2 w f k)
    show ?case
    proof (cases "f < Suc k")
      case True
      obtain b where b: "get_at w k = Some b" using 2(3) True by (auto split: option.splits)
      then show ?thesis using 2 True wider_facts(3) [OF 2(2) b] by (auto split: if_splits)
    next
      case False
      then show ?thesis using 2(3) unfolding trim_back.simps by simp
    qed
  qed simp
qed

lemma span_trim_widen:
  assumes "wider w v" "span_trim_ascii w scratch s = Ok s'"
  shows "span_trim_ascii v scratch s = Ok s'"
proof (cases "span_is_null s \<or> span_source s = FromScratch")
  case True
  then show ?thesis using assms(2) by (auto simp: span_trim_ascii_def)
next
  case False
  then have "span_source s = FromInput" by (cases "span_source s") simp_all
  moreover from this obtain f u where "trim_front w (span_start s) (span_end s) = Ok f" "trim_back w f (span_end s) = Ok u"
    using assms(2) False by (auto simp: span_trim_ascii_def bind_outcome_Ok_iff Let_def)
  ultimately show ?thesis
    using assms(2) False trim_widen [OF assms(1)] by (simp add: span_trim_ascii_def)
qed

lemma widen_marks:
  "(widen v a)\<lparr>en_spans := (en_spans (widen v a))\<lparr>ss_spans := ys\<rparr>\<rparr> = widen v (a\<lparr>en_spans := (en_spans a)\<lparr>ss_spans := ys\<rparr>\<rparr>)"
  by (simp add: widen_def)

lemma trim_spans_widen:
  assumes "wider w v" "trim_spans w header a = (a', Ok u)"
  shows "trim_spans v header (widen v a) = (widen v a', Ok u)"
proof (cases "ws_applies_to_scope (en_trim a) header")
  case True
  let ?f = "\<lambda>x s. if ws_applies (en_trim a) header (span_is_quoted s) then span_trim_ascii x (ss_scratch (en_spans a)) s else Ok s"
  obtain ys where ys: "map_outcome (?f w) (ss_spans (en_spans a)) = Ok ys" "a' = a\<lparr>en_spans := en_spans a\<lparr>ss_spans := ys\<rparr>\<rparr>"
    using assms(2) True
    by (auto simp: trim_spans_def trim_ascii_where_def bind_outcome_Ok_iff map_ok_Ok_iff split: outcome.splits)
  have "map_outcome (?f v) (ss_spans (en_spans a)) = Ok ys"
    by (rule map_outcome_widen [OF ys(1)]) (auto dest: span_trim_widen [OF assms(1)] split: if_splits)
  then show ?thesis
    using True
    unfolding trim_spans_def trim_ascii_where_def widen_fields ys(2) widen_marks [symmetric]
    by (simp add: assert_that_def)
qed (use assms(2) in \<open>simp add: trim_spans_def\<close>)

lemma mark_nulls_widen:
  assumes "wider w v" "mark_null_spans_cold w n a = (a', Ok u)"
  shows "mark_null_spans_cold v n (widen v a) = (widen v a', Ok u)"
proof -
  let ?f = "\<lambda>x s. if \<not> span_is_quoted s \<and> span_source s = FromInput then
      (case get_range x (span_start s) (span_end s) of
         None \<Rightarrow> Panic
       | Some field \<Rightarrow> if raw_field_is_null n field then from_valid_null FromInput (span_start s) else Ok s)
    else Ok s"
  obtain ys where ys: "map_outcome (?f w) (ss_spans (en_spans a)) = Ok ys" "a' = a\<lparr>en_spans := en_spans a\<lparr>ss_spans := ys\<rparr>\<rparr>"
    using assms(2)
    by (auto simp: mark_null_spans_cold_def mark_input_nulls_def bind_outcome_Ok_iff map_ok_Ok_iff split: outcome.splits)
  have "map_outcome (?f v) (ss_spans (en_spans a)) = Ok ys"
    by (rule map_outcome_widen [OF ys(1)])
      (auto simp: wider_facts(4) [OF assms(1)] split: if_splits option.splits)
  then show ?thesis
    unfolding mark_null_spans_cold_def mark_input_nulls_def widen_fields ys(2) widen_marks [symmetric]
    by (simp add: assert_that_def)
qed

lemma validate_count_widen:
  "validate_count w n a = (a', Ok u) \<Longrightarrow> validate_count v n (widen v a) = (widen v a', Ok u)"
  by (auto simp: validate_count_def Let_def split: field_count.splits option.splits if_splits)

lemma finish_general_widen:
  assumes "wider w v" "finish_general_record opts w header a = (a', Ok u)"
  shows "finish_general_record opts v header (widen v a) = (widen v a', Ok u)"
  unfolding finish_general_record_def
proof (rule bind_widen_both [OF assms(2) [unfolded finish_general_record_def]])
  fix a1 x
  assume m: "mark_null_spans opts w header a = (a1, Ok x)" and c: "validate_count w (storage_len (en_spans a1)) a1 = (a', Ok u)"
  have "mark_null_spans opts v header (widen v a) = (widen v a1, Ok x)"
    using m mark_nulls_widen [OF assms(1)] by (auto simp: mark_null_spans_def Let_def split: if_splits)
  then show "mark_null_spans opts v header (widen v a) = (widen v a1, Ok x) \<and>
      validate_count v (storage_len (en_spans (widen v a1))) (widen v a1) = (widen v a', Ok u)"
    using validate_count_widen [OF c] by simp
qed

lemma finish_general_settled:
  assumes "finish_general_record opts w header a = (a', Ok u)"
  shows "settled w a' = settled w a"
  using assms
  by (auto simp: finish_general_record_def mark_null_spans_def mark_null_spans_cold_def validate_count_def Let_def
      settled_def elim!: bind_step_Ok split: if_splits outcome.splits field_count.splits option.splits)

lemma record_fields_widen:
  assumes "wider w v" "parse_inv w rs a" "engine_wf a" "format_matches opts a" "window_dialect (en_dialect a)"
    and "parse_record_fields opts w rs header a = (a', Ok u)" "settled w a'"
  shows "parse_record_fields opts v rs header (widen v a) = (widen v a', Ok u) \<and>
    ends_in w (en_location a) (ending_byte (record_ending (en_dialect a)))"
  using assms
proof (induction opts w rs header a rule: parse_record_fields.induct)
  case (1 opts w rs header a)
  note run = 1(7) [unfolded parse_record_fields.simps [of opts w rs header a]]
  note wide = parse_record_fields.simps [of opts v rs header "widen v a"]
  obtain a1 b where f: "parse_one_field opts w rs header a = (a1, Ok b)"
    using run by (auto split: prod.splits outcome.splits)
  have "good w rs a (a1, Ok b)" using good_parse_one_field [OF 1(3-5), of header] f by simp
  then have a1: "parse_inv w rs a1" "config_of a1 = config_of a" by simp_all
  show ?case
  proof (cases b)
    case True
    then have g: "finish_general_record opts w header a1 = (a', Ok u)" using run f by simp
    then have settled: "settled w a1" using finish_general_settled 1(8) by blast
    have "parse_one_field opts v rs header (widen v a) = (widen v a1, Ok b)"
      by (rule one_field_widen [OF 1(2-6) f]) (use settled in simp)
    then show ?thesis
      using finish_general_widen [OF 1(2) g] one_field_reads_ending [OF 1(3-5) _ settled] f True unfolding wide by simp
  next
    case False
    then have g: "parse_record_fields opts w rs header a1 = (a', Ok u)" using run f by simp
    have wf: "engine_wf a1" "format_matches opts a1" "window_dialect (en_dialect a1)"
      and d: "en_dialect a1 = en_dialect a"
      using 1(4-6) engine_wf_config [OF a1(2)] format_matches_config [OF a1(2)] config_ofD(1) [OF a1(2)] by simp_all
    have "parse_one_field opts v rs header (widen v a) = (widen v a1, Ok b)"
      by (rule one_field_widen [OF 1(2-6) f]) (use False in simp)
    moreover have "en_location a \<le> en_location a1" using parse_one_field_progress f False by fastforce
    ultimately show ?thesis
      using 1(1) [OF f [symmetric] refl False 1(2) a1(1) wf g 1(8)] False ends_in_mono d unfolding wide by auto
  qed
qed

section \<open>The plain kernel\<close>

lemma decline_widen: "decline a = (a', r) \<Longrightarrow> decline (widen v a) = (widen v a', r)"
  by (auto simp: decline_def widen_def clear_spans_def)

lemma holds_escape_widen:
  "wider w v \<Longrightarrow> n \<le> length w \<Longrightarrow> holds_escape opts (widen v a) v rs n = holds_escape opts a w rs n"
  using wider_facts(5) [of w v n rs] by (simp add: holds_escape_def cong: option.case_cong)

lemma fold_plain_widen [simp]: "fold_plain_record opts rs t (widen v a) = widen v (fold_plain_record opts rs t a)"
  by (simp add: fold_plain_record_def)

lemma fold_plain_settled [simp]: "settled w (fold_plain_record opts rs t a) = settled w a"
  by (simp add: fold_plain_record_def settled_def)

lemma kernel_terminator_widen:
  assumes "wider w v" "parse_inv w rs a" "n < length w" "kernel_at_terminator opts w rs fs n a = (a', Ok b)"
  shows "kernel_at_terminator opts v rs fs n (widen v a) = (widen v a', Ok b)"
proof (cases "holds_escape opts a w rs n")
  case True
  then show ?thesis
    using assms(4) decline_widen holds_escape_widen [OF assms(1), of n opts a rs] assms(3)
    by (auto simp: kernel_at_terminator_def)
next
  case False
  have esc: "\<not> holds_escape opts (widen v a) v rs n" using holds_escape_widen [OF assms(1)] assms(3) False by simp
  have same: "v ! (n - 1) = w ! (n - 1)" using wider_facts(2) [OF assms(1)] assms(3) by simp
  have len: "input_len (en_spans a) \<le> length v" using assms(2) wider_facts(1) [OF assms(1)] by (simp add: parse_inv_def)
  note run = assms(4) [unfolded kernel_at_terminator_def Let_def if_not_P [OF False]]
  show ?thesis
    unfolding kernel_at_terminator_def Let_def if_not_P [OF esc] same widen_formats
  proof (rule bind_widen_both [OF run])
    fix a1 x
    let ?fe = "if fmt_strips_cr opts a \<and> fs < n \<and> w ! (n - 1) = CR then n - 1 else n"
    let ?rest = "\<lambda>u e. bind_step (check_record_limit u rs (en_location (note_terminated (e\<lparr>en_location := n + 1\<rparr>))))
      (\<lambda>_ e3. (fold_plain_record opts rs True e3, Ok True)) (note_terminated (e\<lparr>en_location := n + 1\<rparr>))"
    assume p: "push_span w FromInput fs ?fe n False a = (a1, Ok x)" and r: "?rest w a1 = (a', Ok b)"
    have "?rest v (widen v a1) = (widen v a', Ok b)"
      using r by (auto simp: bind_step_def note_terminated_def check_record_limit_def check_record_limit_for_def
          split: if_splits) (simp_all add: fold_plain_widen [symmetric] del: fold_plain_widen)
    then show "push_span v FromInput fs ?fe n False (widen v a) = (widen v a1, Ok x) \<and> ?rest v (widen v a1) = (widen v a', Ok b)"
      using push_span_widen [OF assms(1) len p] by simp
  qed
qed

lemma kernel_end_unsettled:
  assumes "kernel_at_end opts w rs fs a = (a', Ok True)"
  shows "\<not> settled w a'"
proof -
  have "borrowed_scan_end a (length w) rs = length w"
    using assms by (auto simp: kernel_at_end_def borrowed_scan_end_def Let_def split: if_splits)
  then show ?thesis
    using assms by (auto simp: kernel_at_end_def Let_def decline_def settled_def clear_terminated_def fold_plain_record_def
        elim!: bind_step_Ok split: if_splits)
qed

lemma kernel_loop_widen:
  assumes "wider w v" "parse_inv w rs a" "\<forall>(c, x) \<in> set found. rs \<le> c \<and> c < length w"
    and "kernel_loop opts w rs found fs a = (a', Ok b)" "b \<longrightarrow> settled w a'"
    and "\<not> b \<longrightarrow> (\<exists>(c, x) \<in> set found. x = fmt_terminator opts a) \<or> borrowed_scan_end a (length w) rs < length w"
    and "fmt_terminator opts a \<noteq> fmt_delimiter opts a"
  shows "kernel_loop opts v rs (found @ beyond) fs (widen v a) = (widen v a', Ok b)"
  using assms
proof (induction opts w rs found fs a rule: kernel_loop.induct)
  case (1 opts w rs fs a)
  have "b"
    using 1(4,6) by (rule_tac ccontr) (auto simp: kernel_at_end_def Let_def fail_at_def)
  then show ?case using kernel_end_unsettled 1(4,5) by auto
next
  case (2 opts w rs cursor c found fs a)
  have cur: "cursor < length w" "\<forall>(c, x) \<in> set found. rs \<le> c \<and> c < length w" using 2(5) by auto
  have len: "input_len (en_spans a) \<le> length v" using 2(4) wider_facts(1) [OF 2(3)] by (simp add: parse_inv_def)
  show ?case
  proof (cases "c = fmt_delimiter opts a")
    case True
    obtain a1 x where p: "push_span w FromInput fs cursor cursor False a = (a1, Ok x)"
      "kernel_loop opts w rs found (cursor + 1) a1 = (a', Ok b)"
      using 2(6) True by (auto split: prod.splits outcome.splits)
    have a1: "parse_inv w rs a1" using good_push_span [OF 2(4), of FromInput fs cursor cursor False] p(1) by simp
    have d: "fmt_terminator opts a1 = fmt_terminator opts a" "fmt_delimiter opts a1 = fmt_delimiter opts a"
      "borrowed_scan_end a1 = borrowed_scan_end a"
      using push_span_same [OF p(1)]
      by (auto simp: same_but_spans_def fmt_terminator_def fmt_delimiter_def borrowed_scan_end_def fun_eq_iff split: option.splits)
    have "kernel_loop opts v rs (found @ beyond) (cursor + 1) (widen v a1) = (widen v a', Ok b)"
      using 2(1) [OF True p(1) [symmetric] refl 2(3) a1 cur(2) p(2) 2(7)] 2(8,9) d True by auto
    then show ?thesis using push_span_widen [OF 2(3) len p(1)] True by simp
  next
    case no_delim: False
    show ?thesis
    proof (cases "c = fmt_quote opts a \<and> fmt_quoting_enabled opts a \<and> (cursor = fs \<or> \<not> fmt_permits_unquoted_quotes opts a)")
      case True
      then show ?thesis using 2(6) no_delim decline_widen by auto
    next
      case no_quote: False
      show ?thesis
      proof (cases "c = fmt_terminator opts a")
        case True
        then show ?thesis using 2(6) no_delim no_quote kernel_terminator_widen [OF 2(3,4) cur(1)] by auto
      next
        case False
        then have "kernel_loop opts w rs found fs a = (a', Ok b)" using 2(6) no_delim no_quote by auto
        then show ?thesis
          using 2(2) [OF no_delim no_quote False 2(3,4) cur(2) _ 2(7) _ 2(9)] 2(8) False no_delim no_quote by auto
      qed
    qed
  qed
qed

lemma kernel_loop_reads_ending:
  assumes "kernel_loop opts w rs found fs a = (a', Ok True)" "settled w a'"
  shows "\<exists>(c, x) \<in> set found. x = fmt_terminator opts a"
  using assms
proof (induction opts w rs found fs a rule: kernel_loop.induct)
  case (1 opts w rs fs a)
  then show ?case using kernel_end_unsettled by fastforce
next
  case (2 opts w rs cursor c found fs a)
  show ?case
  proof (cases "c = fmt_delimiter opts a")
    case True
    obtain a1 x where p: "push_span w FromInput fs cursor cursor False a = (a1, Ok x)"
      "kernel_loop opts w rs found (cursor + 1) a1 = (a', Ok True)"
      using 2(3) True by (auto split: prod.splits outcome.splits)
    have "fmt_terminator opts a1 = fmt_terminator opts a"
      using push_span_same [OF p(1)] by (auto simp: same_but_spans_def fmt_terminator_def split: option.splits)
    then show ?thesis using 2(1) [OF True p(1) [symmetric] refl p(2) 2(4)] by auto
  next
    case False
    then show ?thesis using 2(2-4) by (auto simp: decline_def split: if_splits)
  qed
qed

lemma structural_offsets_widen:
  assumes "wider w v" "n \<le> length w" "n \<le> m" "rs \<le> n"
  obtains beyond where "structural_offsets (take m v) x y z rs = structural_offsets (take n w) x y z rs @ beyond"
proof -
  let ?M = "min m (length v)"
  have le: "n \<le> ?M" using assms(2,3) wider_facts(1) [OF assms(1)] by simp
  have "[rs..<?M] = [rs..<n] @ [n..<?M]" by (metis assms(4) le upt_add_eq_append le_Suc_ex)
  moreover have "take m v ! i = take n w ! i" if "i < n" for i
    using that assms(2,3) wider_facts(2) [OF assms(1), of i] by simp
  then have "map (\<lambda>i. (i, take m v ! i)) (filter (\<lambda>i. take m v ! i \<in> {x, y, z}) [rs..<n]) =
      map (\<lambda>i. (i, take n w ! i)) (filter (\<lambda>i. take n w ! i \<in> {x, y, z}) [rs..<n])"
    by (intro map_cong filter_cong) auto
  ultimately have "structural_offsets (take m v) x y z rs = structural_offsets (take n w) x y z rs @
      map (\<lambda>i. (i, take m v ! i)) (filter (\<lambda>i. take m v ! i \<in> {x, y, z}) [n..<?M])"
    using assms(2) by (simp add: structural_offsets_def min.commute)
  then show thesis by (rule that)
qed

lemma structural_member: "(c, x) \<in> set (structural_offsets (take n w) d q t rs) \<Longrightarrow> rs \<le> c \<and> c < length w \<and> c < n \<and> w ! c = x"
  by (auto simp: structural_offsets_def)

lemma structural_terminator:
  "ends_in w rs t \<Longrightarrow> length w \<le> n \<Longrightarrow> \<exists>(c, x) \<in> set (structural_offsets (take n w) d q t rs). x = t"
  by (force simp: ends_in_def structural_offsets_def)

lemma try_plain_widen:
  assumes "wider w v" "parse_inv w rs a" "fmt_terminator opts a \<noteq> fmt_delimiter opts a"
    and "try_parse_borrowed_plain opts w rs a = (a', Ok b)" "b \<longrightarrow> settled w a'"
    and "\<not> b \<longrightarrow> ends_in w rs (fmt_terminator opts a)"
  shows "try_parse_borrowed_plain opts v rs (widen v a) = (widen v a', Ok b)"
    "b \<longrightarrow> ends_in w rs (fmt_terminator opts a)"
proof -
  let ?n = "borrowed_scan_end a (length w) rs"
  let ?m = "borrowed_scan_end a (length v) rs"
  let ?s = "\<lambda>k u. structural_offsets (take k u) (fmt_delimiter opts a) (fmt_quote opts a) (fmt_terminator opts a) rs"
  have "rs \<le> length w" using assms(2) by (simp add: parse_inv_def)
  then have n: "?n \<le> length w" "rs \<le> ?n" "?n \<le> ?m"
    using inv_length [OF assms(2)] wider_facts(1) [OF assms(1)] by (auto simp: borrowed_scan_end_def sat_add_def)
  obtain beyond where wide: "?s ?m v = ?s ?n w @ beyond" using structural_offsets_widen [OF assms(1) n(1,3,2)] .
  have found: "\<forall>(c, x) \<in> set (?s ?n w). rs \<le> c \<and> c < length w" using structural_member by fastforce
  have run: "kernel_loop opts w rs (?s ?n w) rs a = (a', Ok b)"
    using assms(4) by (simp add: try_parse_borrowed_plain_def Let_def blocks_matches_resume)
  have "\<not> b \<longrightarrow> (\<exists>(c, x) \<in> set (?s ?n w). x = fmt_terminator opts a) \<or> ?n < length w"
    using structural_terminator [of w rs "fmt_terminator opts a" ?n] assms(6) n(1) by (meson leI)
  from kernel_loop_widen [OF assms(1,2) found run assms(5) this assms(3), of beyond]
  have "kernel_loop opts v rs (?s ?m v) rs (widen v a) = (widen v a', Ok b)" by (simp only: wide)
  then show "try_parse_borrowed_plain opts v rs (widen v a) = (widen v a', Ok b)"
    by (simp add: try_parse_borrowed_plain_def Let_def blocks_matches_resume borrowed_scan_end_def)
  show "b \<longrightarrow> ends_in w rs (fmt_terminator opts a)"
  proof
    assume b: "b"
    then obtain c where "(c, fmt_terminator opts a) \<in> set (?s ?n w)"
      using kernel_loop_reads_ending [of opts w rs "?s ?n w" rs a a'] run assms(5) by fastforce
    then show "ends_in w rs (fmt_terminator opts a)" using structural_member ends_inI by metis
  qed
qed

lemma validate_crlf_widen:
  assumes "wider w v" "en_location a \<le> length w" "validate_crlf w rs a = (a', Ok u)"
  shows "validate_crlf v rs (widen v a) = (widen v a', Ok u)"
proof -
  let ?n = "en_location a"
  have same: "rs < ?n \<Longrightarrow> get_at v (?n - 1) = get_at w (?n - 1)" "rs < ?n - 1 \<Longrightarrow> v ! (?n - 1 - 1) = w ! (?n - 1 - 1)"
    using assms(2) wider_facts(1,2) [OF assms(1)] by (auto simp: get_at_def)
  let ?lf = "rs < ?n \<and> get_at w (?n - 1) = Some LF"
  let ?until = "if ?lf then if rs < ?n - 1 \<and> w ! (?n - 1 - 1) = CR then ?n - 1 - 1 else ?n - 1 else ?n"
  have conds: "(rs < ?n \<and> get_at v (?n - 1) = Some LF) = ?lf"
    "(rs < ?n - 1 \<and> v ! (?n - 1 - 1) = CR) = (rs < ?n - 1 \<and> w ! (?n - 1 - 1) = CR)"
    using same by auto
  note run = assms(3) [unfolded validate_crlf_def Let_def]
  obtain whole where whole: "get_range w rs ?until = Some whole"
  proof (cases "get_range w rs ?until")
    case None
    have "(a, Panic) = (a', Ok u)" using run unfolding None option.case .
    then show ?thesis by simp
  qed
  note run' = run [unfolded whole option.case]
  have "a' = a" "find1 CR whole = None" "\<not> (?lf \<and> ?until = ?n - 1)"
    using run' by (auto simp del: One_nat_def split: option.splits if_splits)
  then show ?thesis
    using wider_facts(4) [OF assms(1) whole]
    unfolding validate_crlf_def Let_def widen_fields conds
    by (simp del: One_nat_def)
qed

section \<open>One record\<close>

lemma finish_plain_widen:
  assumes "wider w v" "parse_inv w rs a" "finish_plain_record opts w rs header a = (a', Ok u)"
  shows "finish_plain_record opts v rs header (widen v a) = (widen v a', Ok u)"
  unfolding finish_plain_record_def widen_formats
proof (rule bind_widen_both [OF assms(3) [unfolded finish_plain_record_def]])
  let ?cold = "\<lambda>x a1. if fmt_null_policy opts a \<noteq> NullsNone \<and> \<not> header
    then mark_null_spans_cold x (fmt_null_policy opts a) a1 else (a1, Ok ())"
  fix a1 x
  assume c: "(if fmt_record_ending opts a = CrLf then validate_crlf w rs else return_step ()) a = (a1, Ok x)"
    and m: "?cold w a1 = (a', Ok u)"
  have "(if fmt_record_ending opts a = CrLf then validate_crlf v rs else return_step ()) (widen v a) = (widen v a1, Ok x)"
    using c validate_crlf_widen [OF assms(1)] assms(2) by (auto simp: parse_inv_def split: if_splits)
  moreover have "?cold v (widen v a1) = (widen v a', Ok u)"
    using m mark_nulls_widen [OF assms(1)] by (auto split: if_splits)
  ultimately show "(if fmt_record_ending opts a = CrLf then validate_crlf v rs else return_step ()) (widen v a) =
      (widen v a1, Ok x) \<and> ?cold v (widen v a1) = (widen v a', Ok u)" by blast
qed

lemma passes_settled:
  "validate_crlf w rs a = (a', Ok u) \<Longrightarrow> settled w a' = settled w a"
  "mark_null_spans_cold w n a = (a', Ok u) \<Longrightarrow> settled w a' = settled w a"
  "validate_count w k a = (a', Ok u) \<Longrightarrow> settled w a' = settled w a"
  "trim_spans w header a = (a', Ok u) \<Longrightarrow> settled w a' = settled w a"
  by (auto simp: validate_crlf_def mark_null_spans_cold_def validate_count_def trim_spans_def Let_def settled_def
      split: if_splits option.splits outcome.splits field_count.splits)

lemma finish_plain_settled:
  assumes "finish_plain_record opts w rs header a = (a', Ok u)"
  shows "settled w a' = settled w a"
  using assms unfolding finish_plain_record_def
  by (elim bind_step_Ok) (auto simp: passes_settled split: if_splits)

text \<open>
  The plain kernel reads single-byte separators; an engine with longer ones does without it. (A format
  fixed at compile time does not ask; see \<open>fmt_plain_kernel\<close>.)
\<close>

definition kernel_allowed :: "format_options option \<Rightarrow> engine \<Rightarrow> bool" where
  "kernel_allowed opts e \<longleftrightarrow> (fmt_plain_kernel opts e \<longrightarrow> en_plain_kernel e)"

lemma parse_record_widen:
  assumes "wider w v" "parse_inv w rs a" "engine_wf a" "format_matches opts a" "window_dialect (en_dialect a)"
    and "en_location a = rs" "parse_record opts w rs header a = (a', Ok u)" "settled w a'"
  shows "parse_record opts v rs header (widen v a) = (widen v a', Ok u) \<and>
    ends_in w rs (ending_byte (record_ending (en_dialect a)))"
proof -
  note fmt = fmt_of_engine [OF assms(4,3)]
  have distinct: "fmt_terminator opts a \<noteq> fmt_delimiter opts a"
    using assms(5) by (simp add: fmt window_dialect_def invalidity_None_iff)
  obtain c where c: "get_at w rs = Some c"
    using assms(7) by (auto simp: parse_record_def split: option.splits)
  note c' = wider_facts(3) [OF assms(1) c]
  let ?kernel = "\<lambda>x. if plain_record_candidate opts c a then try_parse_borrowed_plain opts x rs else return_step False"
  let ?rest = "\<lambda>x plain a1. if plain then
      bind_step (if fmt_record_pass opts a1 then finish_plain_record opts x rs header else return_step ())
        (\<lambda>_ e2. validate_count x (storage_len (en_spans e2)) e2) a1
    else parse_record_fields (dispatch_format opts a1) x rs header a1"
  obtain a1 b where t: "?kernel w a = (a1, Ok b)" "?rest w b a1 = (a', Ok u)"
    using assms(7) unfolding parse_record_def c option.case by (auto elim!: bind_step_Ok)
  have "good w rs a (?kernel w a)" using good_try_plain [OF assms(2)] assms(2) by simp
  then have a1: "parse_inv w rs a1" "config_of a1 = config_of a" using t(1) by simp_all
  have wf: "engine_wf a1" "format_matches opts a1" "window_dialect (en_dialect a1)"
    and d: "en_dialect a1 = en_dialect a"
    using assms(3-5) engine_wf_config [OF a1(2)] format_matches_config [OF a1(2)] config_ofD(1) [OF a1(2)] by simp_all
  have "?kernel v (widen v a) = (widen v a1, Ok b) \<and> ?rest v b (widen v a1) = (widen v a', Ok u) \<and>
    ends_in w rs (ending_byte (record_ending (en_dialect a)))"
  proof (cases b)
    case True
    then have plain: "plain_record_candidate opts c a" "try_parse_borrowed_plain opts w rs a = (a1, Ok True)"
      using t(1) by (auto split: if_splits)
    obtain a2 x where f: "(if fmt_record_pass opts a1 then finish_plain_record opts w rs header else return_step ()) a1 = (a2, Ok x)"
      "validate_count w (storage_len (en_spans a2)) a2 = (a', Ok u)"
      using t(2) True by (auto elim!: bind_step_Ok)
    have settled: "settled w a1"
      using assms(8) passes_settled(3) [OF f(2)] f(1) finish_plain_settled by (auto split: if_splits)
    have "(if fmt_record_pass opts a1 then finish_plain_record opts v rs header else return_step ()) (widen v a1) = (widen v a2, Ok x)"
      using f(1) finish_plain_widen [OF assms(1) a1(1)] by (auto split: if_splits)
    then have "?rest v b (widen v a1) = (widen v a', Ok u)"
      using True validate_count_widen [OF f(2), of v] by (simp add: bind_step_def)
    then show ?thesis
      using try_plain_widen [OF assms(1,2) distinct plain(2)] settled True plain(1) fmt by simp
  next
    case False
    have loc: "en_location a1 = rs"
    proof (cases "plain_record_candidate opts c a")
      case True
      then have "kernel_loop opts w rs (blocks_matches (blocks_resume (take (borrowed_scan_end a (length w) rs) w)
          (fmt_delimiter opts a) (fmt_quote opts a) (fmt_terminator opts a) rs)) rs a = (a1, Ok False)"
        using t(1) False by (simp add: try_parse_borrowed_plain_def Let_def)
      then show ?thesis using kernel_declines assms(2,6) by fastforce
    next
      case no: False
      then show ?thesis using t(1) assms(6) by simp
    qed
    have g: "parse_record_fields (dispatch_format opts a1) w rs header a1 = (a', Ok u)" using t(2) False by simp
    note fields = record_fields_widen [OF assms(1) a1(1) wf(1) dispatch_matches [OF wf(1,2)] wf(3) g assms(8)]
    have ends: "ends_in w rs (ending_byte (record_ending (en_dialect a)))" using fields loc d by simp
    moreover have "?kernel v (widen v a) = (widen v a1, Ok b)"
      using t(1) False try_plain_widen(1) [OF assms(1,2) distinct, of a1 False] ends fmt by (auto split: if_splits)
    ultimately show ?thesis using fields False by simp
  qed
  then show ?thesis
    using c' by (simp add: parse_record_def bind_step_def)
qed

section \<open>Comments and blank lines\<close>

text \<open>A checkpoint a narrower window left describes a comment that starts here.\<close>

definition checkpoint_here :: "bytes \<Rightarrow> engine \<Rightarrow> bool" where
  "checkpoint_here w e \<longleftrightarrow> checkpoint_sane e \<and>
     (rs_ignored (en_resume e) \<longrightarrow> resuming w e \<and> comment (en_dialect e) \<noteq> None)"

lemma wider_resuming: "wider w v \<Longrightarrow> checkpoint_here w e \<Longrightarrow> resuming v e = resuming w e"
  using wider_facts(1) [of w v] by (auto simp: checkpoint_here_def resuming_def)

lemma find_ending_reaches:
  "find_record_ending_from d input start s = Some n \<Longrightarrow> s + tail_width (ending_tail d) \<le> n"
proof (induction d input start s rule: find_record_ending_from.induct)
  case (1 d input start s)
  note run = 1(2) [unfolded find_record_ending_from.simps [of d input start s]]
  obtain i where i: "\<not> length input < s" "find1 (ending_byte (record_ending d)) (drop s input) = Some i"
    using run by (auto split: if_splits option.splits)
  then show ?case using run 1(1) [OF i refl] by (auto simp: Let_def split: if_splits)
qed

lemma find_ending_widen:
  assumes "wider w v" "tails_wf d"
  shows "find_record_ending_from d w start s = Some n \<Longrightarrow> find_record_ending_from d v start s = Some n"
  using assms
proof (induction d w start s rule: find_record_ending_from.induct)
  case (1 d w start s)
  note run = 1(2) [unfolded find_record_ending_from.simps [of d w start s]]
  obtain i where i: "\<not> length w < s" "find1 (ending_byte (record_ending d)) (drop s w) = Some i"
    using run by (auto split: if_splits option.splits)
  have at: "s + i < length w" using i(2) by (auto simp: find_simps dest: position_less)
  obtain m where "v = w @ m" using 1(3) by (rule widerE)
  then have i': "\<not> length v < s" "find1 (ending_byte (record_ending d)) (drop s v) = Some i"
    using i position_more by (auto simp: find_simps)
  have same: "v ! (s + i - 1) = w ! (s + i - 1)" using wider_facts(2) [OF 1(3)] at by simp
  note wide = find_record_ending_from.simps [of d v start s]
  show ?case
  proof (cases "ending_confirmed d w start (s + i)")
    case True
    then have "ending_confirmed d v start (s + i)"
      using wider_confirms [OF 1(3)] at same by (auto simp: ending_confirmed_def split: record_ending.splits)
    then show ?thesis using True run i i' unfolding wide by (simp add: Let_def)
  next
    case False
    then have rest: "find_record_ending_from d w start (s + i + 1) = Some n" using run i by (simp add: Let_def)
    have "\<not> ending_confirmed d v start (s + i)"
    proof
      assume "ending_confirmed d v start (s + i)"
      then have yes: "tail_confirms (ending_tail d) (drop (s + i + 1) v)" and no: "\<not> tail_confirms (ending_tail d) (drop (s + i + 1) w)"
        using False same by (auto simp: ending_confirmed_def split: record_ending.splits)
      have "length w < s + i + 1 + length (tail_slice (ending_tail d))"
        by (rule cut_tail(1) [OF 1(3) _ yes no]) (use at in simp)
      moreover have "tail_width (ending_tail d) = length (tail_slice (ending_tail d)) + 1"
        using 1(4) tail_width_slice by (simp add: tails_wf_def)
      ultimately show False
        using find_ending_reaches [OF rest] find_record_ending_inside [OF rest 1(4)] by simp
    qed
    then show ?thesis using 1(1) [OF i refl False rest 1(3,4)] i' unfolding wide by (simp add: Let_def)
  qed
qed

lemma skip_comments_loop_widen:
  assumes "wider w v" "tails_wf (en_dialect e)" "checkpoint_here w e" "comment (en_dialect e) \<noteq> None"
    and "en_location (skip_comments_loop c w e) < length w"
  shows "skip_comments_loop c v e = skip_comments_loop c w e \<and> \<not> rs_ignored (en_resume (skip_comments_loop c w e)) \<and>
    get_at w (en_location (skip_comments_loop c w e)) \<noteq> Some c"
  using assms
proof (induction c w e rule: skip_comments_loop.induct)
  case (1 c w e)
  note eqs = skip_comments_loop.simps [of c w e] skip_comments_loop.simps [of c v e]
  note res = wider_resuming [OF 1(2,4)]
  let ?start = "if resuming w e then rs_scanned_to (en_resume e) else en_location e"
  show ?case
  proof (cases "\<not> resuming w e \<and> get_at w (en_location e) \<noteq> Some c")
    case True
    then have here: "skip_comments_loop c w e = e" by (simp add: eqs)
    then have "get_at v (en_location e) = get_at w (en_location e)"
      using 1(6) wider_facts(1,2) [OF 1(2)] by (simp add: get_at_def)
    then show ?thesis using True here res 1(4) by (auto simp: eqs(2) checkpoint_here_def)
  next
    case False
    obtain n where n: "find_record_ending (en_dialect e) w ?start = Some n"
    proof (cases "find_record_ending (en_dialect e) w ?start")
      case None
      then have "en_location (skip_comments_loop c w e) = length w" using False by (auto simp: eqs(1) Let_def)
      then show ?thesis using 1(6) by simp
    qed
    let ?e = "e\<lparr>en_location := n, en_resume := resume_new\<rparr>"
    have n': "find_record_ending (en_dialect e) v ?start = Some n"
      using n find_ending_widen [OF 1(2,3)] by (simp add: find_record_ending_def)
    have step: "skip_comments_loop c w e = skip_comments_loop c w ?e"
      by (simp only: eqs(1) if_not_P [OF False] Let_def n option.case)
    have cond: "\<not> (\<not> resuming w e \<and> get_at v (en_location e) \<noteq> Some c)"
      using False res wider_facts(3) [OF 1(2), of "en_location e" c] by auto
    then have step': "skip_comments_loop c v e = skip_comments_loop c v ?e"
      by (simp only: eqs(2) if_not_P [OF cond] if_False Let_def res n' option.case)
    have "checkpoint_here w ?e" by (simp add: checkpoint_here_def checkpoint_sane_def resume_new_def)
    then show ?thesis
      using 1(1) [OF False refl refl n 1(2)] 1(3,5,6) unfolding step step' by simp
  qed
qed

lemma ending_width_widen:
  assumes "wider w v" "record_ending_width_at d w at = Some k"
  shows "record_ending_width_at d v at = Some k"
proof -
  have "at < length w" using record_ending_width_pos [OF assms(2)] by simp
  then have at: "get_at v at = get_at w at" "at + 1 \<le> length w"
    using wider_facts(1,2) [OF assms(1)] by (simp_all add: get_at_def)
  show ?thesis
    using assms(2) at(1) wider_facts(4) [OF assms(1), of at "at + 2"] wider_confirms [OF assms(1) at(2)]
    by (auto simp: record_ending_width_at_def split: if_splits record_ending.splits)
qed

text \<open>A record ending the window cuts: the wider window has it, the narrow one does not.\<close>

definition ending_cut :: "bytes \<Rightarrow> bytes \<Rightarrow> engine \<Rightarrow> bool" where
  "ending_cut w v e \<longleftrightarrow> en_location e < length w \<and>
     record_ending_width_at (en_dialect e) w (en_location e) = None \<and>
     record_ending_width_at (en_dialect e) v (en_location e) \<noteq> None"

lemma ending_cut_cases:
  assumes "wider w v" "ending_cut w v e"
  obtains (carriage) "ending_byte (record_ending (en_dialect e)) = LF" "en_location e + 1 = length w"
      "w ! en_location e = CR"
    | (tail) b where "record_ending (en_dialect e) = EndByte b" "w ! en_location e = b"
      "\<not> tail_confirms (ending_tail (en_dialect e)) (drop (en_location e + 1) w)"
      "tail_confirms (ending_tail (en_dialect e)) (drop (en_location e + 1) v)"
proof -
  let ?at = "en_location e" and ?d = "en_dialect e"
  have at: "?at < length w" using assms(2) by (simp add: ending_cut_def)
  then have same: "get_at v ?at = Some (w ! ?at)" "get_at w ?at = Some (w ! ?at)"
    using wider_facts(1,2) [OF assms(1)] by (simp_all add: get_at_def)
  show thesis
  proof (cases "\<exists>b. record_ending ?d = EndByte b")
    case True
    then show thesis using assms(2) same that(2) by (auto simp: ending_cut_def record_ending_width_at_def split: if_splits)
  next
    case False
    then have crlf: "get_range v ?at (?at + 2) = Some [CR, LF]" "get_range w ?at (?at + 2) \<noteq> Some [CR, LF]"
      and lf: "ending_byte (record_ending ?d) = LF"
      using assms(2) same by (auto simp: ending_cut_def record_ending_width_at_def split: if_splits record_ending.splits)
    have "\<not> ?at + 2 \<le> length w"
      using crlf wider_facts(5) [OF assms(1), of "?at + 2" ?at] by (auto simp: get_range_def split: if_splits)
    moreover have "slice v ?at (?at + 2) ! 0 = CR" using crlf(1) by (simp add: get_range_def split: if_splits)
    then have "v ! ?at = CR" using crlf(1) by (simp add: get_range_def split: if_splits)
    then have "w ! ?at = CR" using same by (simp add: get_at_Some_iff)
    ultimately show thesis using that(1) lf at by simp
  qed
qed

lemma skip_blank_loop_widen:
  assumes "wider w v" "en_location (skip_blank_lines_loop w e) < length w"
  shows "skip_blank_lines_loop v e = skip_blank_lines_loop w e \<or> ending_cut w v (skip_blank_lines_loop w e)"
  using assms
proof (induction w e rule: skip_blank_lines_loop.induct)
  case (1 w e)
  note eqs = skip_blank_lines_loop.simps [of w e] skip_blank_lines_loop.simps [of v e]
  show ?case
  proof (cases "record_ending_width_at (en_dialect e) w (en_location e)")
    case None
    then show ?thesis using 1(3) by (auto simp: eqs ending_cut_def split: option.splits)
  next
    case (Some k)
    then show ?thesis using 1(1) [OF Some 1(2)] 1(3) ending_width_widen [OF 1(2) Some] by (simp add: eqs)
  qed
qed

lemma skip_blank_moves: "en_location e \<le> en_location (skip_blank_lines w e)"
  "en_resume (skip_blank_lines w e) = en_resume e"
  using skip_blank_lines_loop_moves [of w e] by (auto simp: skip_blank_lines_def)

lemma skip_pass_widen:
  assumes "wider w v" "tails_wf (en_dialect e)" "checkpoint_here w e" "en_location (skip_pass w e) < length w"
  shows "skip_pass v e = skip_pass w e \<or> ending_cut w v (skip_pass w e)" "\<not> rs_ignored (en_resume (skip_pass w e))"
proof -
  have loc: "en_location (skip_comments w e) < length w"
    using assms(4) skip_blank_moves(1) [of "skip_comments w e" w] by (simp add: skip_pass_def)
  have c: "skip_comments v e = skip_comments w e \<and> \<not> rs_ignored (en_resume (skip_comments w e))"
  proof (cases "comment (en_dialect e)")
    case None
    then show ?thesis using assms(3) by (simp add: skip_comments_def checkpoint_here_def)
  next
    case (Some c)
    then show ?thesis using skip_comments_loop_widen [OF assms(1-3), of c] loc by (simp add: skip_comments_def)
  qed
  then show "\<not> rs_ignored (en_resume (skip_pass w e))" using skip_blank_moves(2) by (simp add: skip_pass_def)
  show "skip_pass v e = skip_pass w e \<or> ending_cut w v (skip_pass w e)"
    using c assms(4) skip_blank_loop_widen [OF assms(1), of "skip_comments w e"]
    by (cases "en_blank_records (skip_comments w e) = BlankSkip") (simp_all add: skip_pass_def skip_blank_lines_def)
qed

lemma skip_loop_moves:
  "tails_wf (en_dialect e) \<Longrightarrow> checkpoint_sane e \<Longrightarrow> en_location e \<le> en_location (snd (skip_ignored_loop w b e))"
proof (induction w b e rule: skip_ignored_loop.induct)
  case (1 w b e)
  have p: "skips w e (skip_pass w e)" by (rule skip_pass_skips [OF 1(2)])
  then have "checkpoint_sane (skip_pass w e)" "en_location e \<le> en_location (skip_pass w e)"
    using 1(3) by (auto simp: skips_def)
  then show ?case
    using 1(1) [OF refl refl] skips_dialect [OF p] 1(2) by (fastforce simp: skip_ignored_loop.simps [of w b e] Let_def)
qed

text \<open>At a cut ending the passes are done: nothing there is a comment or a blank line.\<close>

lemma cut_stops_skipping:
  assumes "wider w v" "window_dialect (en_dialect e)" "\<not> rs_ignored (en_resume e)" "ending_cut w v e"
    and "en_location (snd (skip_ignored_loop w b e)) < length w"
  shows "skip_ignored_loop w b e = (b, e)"
proof -
  have tails: "tails_wf (en_dialect e)" and conflict: "\<not> comment_conflict (en_dialect e)"
    using assms(2) by (simp_all add: window_dialect_def invalidity_None_iff)
  have at: "en_location e < length w" "record_ending_width_at (en_dialect e) w (en_location e) = None"
    using assms(4) by (simp_all add: ending_cut_def)
  have blank: "skip_blank_lines w e = e"
    using at(2) by (simp add: skip_blank_lines_def skip_blank_lines_loop.simps [of w e])
  have "skip_comments w e = e"
  proof (cases "\<exists>c. comment (en_dialect e) = Some c \<and> w ! en_location e = c")
    case False
    then show ?thesis
      using at(1) assms(3)
      by (auto simp: skip_comments_def skip_comments_loop.simps [of _ w e] resuming_def get_at_def split: option.splits)
  next
    case True
    then obtain c where c: "comment (en_dialect e) = Some c" "w ! en_location e = c" by blast
    from assms(1,4) show ?thesis
    proof (cases rule: ending_cut_cases)
      case carriage
      have "drop (en_location e) w = [CR]" using carriage at(1) by (simp add: Cons_nth_drop_Suc [symmetric])
      then have "find_record_ending (en_dialect e) w (en_location e) = None"
        using carriage(1)
        by (simp add: find_record_ending_def find_record_ending_from.simps [of _ w] find_simps)
      then have "skip_comments w e = e\<lparr>en_resume := resume_ignored (en_location e)
            (max (length w - max (tail_width (ending_tail (en_dialect e))) 2) (en_location e)), en_location := length w\<rparr>"
        using c at(1) assms(3)
        by (simp add: skip_comments_def skip_comments_loop.simps [of _ w e] resuming_def get_at_def Let_def)
      then have edge: "en_location (skip_pass w e) \<ge> length w"
        using skip_blank_moves(1) [of "skip_comments w e" w] by (simp add: skip_pass_def)
      have p: "skips w e (skip_pass w e)" by (rule skip_pass_skips [OF tails])
      have "checkpoint_sane e" using assms(3) by (simp add: checkpoint_sane_def)
      then have "en_location (skip_pass w e) \<le> en_location (snd (skip_ignored_loop w True (skip_pass w e)))"
        using skip_loop_moves [of "skip_pass w e"] p skips_dialect [OF p] tails by (auto simp: skips_def)
      then have "length w \<le> en_location (snd (skip_ignored_loop w b e))"
        using edge at(1) by (simp add: skip_ignored_loop.simps [of w b e] Let_def)
      then show ?thesis using assms(5) by simp
    next
      case (tail x)
      then show ?thesis using c conflict by (simp add: comment_conflict_def)
    qed
  qed
  then show ?thesis using blank by (simp add: skip_ignored_loop.simps [of w b e] skip_pass_def)
qed

lemma skip_loop_widen:
  assumes "wider w v" "window_dialect (en_dialect e)" "checkpoint_here w e"
    and "skip_ignored_loop w b e = (b', e')" "en_location e' < length w"
  shows "(skip_ignored_loop v b e = (b', e') \<or> ending_cut w v e') \<and> \<not> rs_ignored (en_resume e')"
  using assms
proof (induction w b e rule: skip_ignored_loop.induct)
  case (1 w b e)
  let ?e = "skip_pass w e"
  have tails: "tails_wf (en_dialect e)" using 1(3) by (simp add: window_dialect_def)
  note eqs = skip_ignored_loop.simps [of w b e] skip_ignored_loop.simps [of v b e]
  show ?case
  proof (cases "en_location ?e = en_location e")
    case True
    then have "e' = ?e" "b' = b" using 1(5) by (simp_all add: eqs(1) Let_def)
    then show ?thesis using skip_pass_widen [OF 1(2) tails 1(4)] 1(6) True by (auto simp: eqs(2) Let_def)
  next
    case False
    then have rest: "skip_ignored_loop w True ?e = (b', e')" using 1(5) by (simp add: eqs(1) Let_def)
    have p: "skips w e ?e" by (rule skip_pass_skips [OF tails])
    then have sane: "checkpoint_sane ?e" using 1(4) by (simp add: skips_def checkpoint_here_def)
    note d = skips_dialect [OF p]
    have inside: "en_location ?e < length w"
      using skip_loop_moves [of ?e w True] tails d sane rest 1(6) by simp
    note pass = skip_pass_widen [OF 1(2) tails 1(4) inside]
    have here: "checkpoint_here w ?e" using pass(2) sane by (simp add: checkpoint_here_def)
    have IH: "(skip_ignored_loop v True ?e = (b', e') \<or> ending_cut w v e') \<and> \<not> rs_ignored (en_resume e')"
      using 1(1) [OF refl refl False 1(2) _ here rest 1(6)] 1(3) d by simp
    show ?thesis
    proof (cases "ending_cut w v ?e")
      case True
      then have "skip_ignored_loop w True ?e = (True, ?e)"
        using cut_stops_skipping [OF 1(2) _ pass(2) True] 1(3) d rest 1(6) by simp
      then show ?thesis using rest True IH by simp
    next
      case no_cut: False
      then have "skip_pass v e = ?e" using pass(1) by blast
      then show ?thesis using IH False by (simp add: eqs(2) Let_def)
    qed
  qed
qed

lemma cut_record_unsettled:
  assumes "wider w v" "parse_inv w rs a" "engine_wf a" "format_matches opts a" "window_dialect (en_dialect a)"
    and "kernel_allowed opts a" "en_location a = rs" "ending_cut w v a" "parse_record opts w rs header a = (a', Ok u)"
  shows "\<not> settled w a'"
proof
  assume settled: "settled w a'"
  have here: "rs < length w" using assms(7,8) by (simp add: ending_cut_def)
  from assms(1,8) show False
  proof (cases rule: ending_cut_cases)
    case carriage
    have "ends_in w rs LF"
      using parse_record_widen [OF assms(1-5,7,9) settled] carriage(1) by simp
    then obtain j where "rs \<le> j" "j < length w" "w ! j = LF" by (auto simp: ends_in_def)
    moreover from this have "j = rs" using carriage(2) assms(7) by simp
    ultimately show False using carriage(3) assms(7) by simp
  next
    case (tail b)
    let ?d = "en_dialect a"
    have nonempty: "tail_slice (ending_tail ?d) \<noteq> []" using tail(3) by (auto simp: tail_confirms_def)
    then have multi: "multibyte ?d" by (auto simp: multibyte_def)
    have distinct: "b \<noteq> quote ?d" "unquoted_byte (escape ?d) \<noteq> Some b"
      using assms(5) tail(1)
      by (auto simp: window_dialect_def invalidity_None_iff escape_conflict_def Let_def split: escape.splits if_splits)
    have at1: "rs + 1 \<le> length w" using here by simp
    note gone = cut_tail [OF assms(1) at1 tail(4,3) [unfolded assms(7)]]
    have plain: "\<not> plain_record_candidate opts c a" for c
      using assms(3,6) multi by (auto simp: plain_record_candidate_def kernel_allowed_def engine_wf_def)
    let ?opts = "dispatch_format opts a"
    note fmt = fmt_of_engine [OF dispatch_matches [OF assms(3,4)] assms(3)]
    have c: "get_at w rs = Some b" using here tail(2) assms(7) by (simp add: get_at_def)
    have run: "parse_record_fields ?opts w rs header a = (a', Ok u)"
      using assms(9) plain c by (simp add: parse_record_def bind_step_def return_step_def)
    obtain a1 ended where f: "parse_one_field ?opts w rs header a = (a1, Ok ended)"
      using run by (auto simp: parse_record_fields.simps [of ?opts w rs header a] split: prod.splits outcome.splits)
    let ?ex = "record_ending ?d = CrLf \<or> escapes_unquoted (escape ?d)"
    have ex: "?ex = (is_crlf a \<or> unquoted_escape a \<noteq> None)"
      by (auto simp: is_crlf_def unquoted_escape_def escapes_unquoted_def split: escape.splits)
    have loop: "general_unquoted_loop ?ex w rs header rs rs a = (a1, Ok ended)"
      using f c distinct multi assms(7)
      by (simp add: parse_one_field_def bind_step_def skip_delimiter_spaces_def skip_delimiter_spaces_for_def fmt
          parse_unquoted_field_def parse_general_unquoted_field_def needs_general_parsing_def)
    have rs_le: "rs \<le> length w" using here by simp
    have "ended \<and> \<not> settled w a1"
    proof (cases "scan_end a w rs rs \<le> rs")
      case True
      then show ?thesis using loop_at_end_unsettled [OF assms(2) rs_le _ loop] by blast
    next
      case False
      have "b \<in> stop_bytes a" using tail(1) by (simp add: stop_bytes_def)
      moreover have "slice w rs (scan_end a w rs rs) ! 0 = b"
        using False tail(2) assms(7) scan_end_le [of a w rs rs] by simp
      ultimately have "next_stop a ?ex (slice w rs (scan_end a w rs rs)) = Some 0"
        using False here by (simp add: next_stop_position [OF ex] position_Some_iff)
      then have "general_unquoted_loop ?ex w rs header rs (rs + 1) a = (a1, Ok ended)"
        using loop [unfolded general_unquoted_loop.simps [of ?ex w rs header rs rs a]] False tail(1-3) assms(7) distinct
        by (simp add: unquoted_escape_def is_crlf_def)
      then show ?thesis using cut_tail_unsettled [OF assms(2,5) rs_le ex _ gone] by blast
    qed
    then have "finish_general_record ?opts w header a1 = (a', Ok u)" "\<not> settled w a1"
      using run f by (auto simp: parse_record_fields.simps [of ?opts w rs header a])
    then show False using finish_general_settled settled by blast
  qed
qed

section \<open>Reading the next record\<close>

lemma begin_widen:
  assumes "begin_spans w e = (a, Ok u)" "length v \<le> MAX_OFFSET"
  shows "begin_spans v e = (widen v a, Ok u)" "a = e\<lparr>en_spans := en_spans a\<rparr>"
  using assms
  by (auto simp: begin_spans_def storage_begin_def bounded_offset_def widen_def split: if_splits option.splits)

lemma entries_widen:
  assumes "wider w v" "parse_inv w rs a"
  shows "record_entries v (widen v a) = record_entries w a"
proof -
  have wf: "storage_wf (en_spans a)" "input_len (en_spans a) = length w" using assms(2) by (simp_all add: parse_inv_def)
  have "resolve_span v (ss_scratch (en_spans a)) s = resolve_span w (ss_scratch (en_spans a)) s"
    if "s \<in> set (ss_spans (en_spans a))" for s
  proof (cases "span_source s")
    case FromInput
    have "span_fits (en_spans a) s" using wf(1) that by (simp add: storage_wf_def)
    then have "get_range w (span_start s) (span_end s) = Some (slice w (span_start s) (span_end s))"
      using wf(2) FromInput by (simp add: span_fits_def source_len_def get_range_def)
    then show ?thesis using wider_facts(4) [OF assms(1)] FromInput by (simp add: resolve_span_def)
  qed (simp add: resolve_span_def)
  then show ?thesis
    using wf(2) by (simp add: record_entries_def resolved_entries_def cong: map_cong)
qed

lemma parse_positioned_widen:
  assumes "wider w v" "length v \<le> MAX_OFFSET" "engine_wf e" "format_matches opts e" "window_dialect (en_dialect e)"
    and "kernel_allowed opts e" "en_location e < length w"
    and "parse_positioned_record opts w header e = (e', Ok r)" "settled w e'"
  shows "parse_positioned_record opts v header e = (widen v e', Ok r)" "\<not> ending_cut w v e"
    "record_entries v (widen v e') = record_entries w e'"
proof -
  obtain a u where b: "begin_spans w e = (a, Ok u)"
    using assms(8) by (auto simp: parse_positioned_record_def elim!: bind_step_Ok)
  note wide = begin_widen [OF b assms(2)]
  note a = begin_spans_inv [OF b less_imp_le [OF assms(7)]]
  have wf: "engine_wf a" "format_matches opts a" "window_dialect (en_dialect a)" "kernel_allowed opts a"
    using assms(3-6) engine_wf_config [OF a(2)] format_matches_config [OF a(2)] config_ofD(1,8) [OF a(2)]
    by (simp_all add: kernel_allowed_def fmt_plain_kernel_def split: option.splits)
  note run = assms(8) [unfolded parse_positioned_record_def Let_def bind_step_def b prod.case outcome.case]
  obtain a1 x where p: "parse_record opts w (en_location a) header a = (a1, Ok x)"
    using run by (auto split: prod.splits outcome.splits)
  obtain a2 y where t: "trim_spans w header a1 = (a2, Ok y)"
    "e' = a2\<lparr>en_record_index := en_record_index a2 + 1\<rparr>" "r = ((en_location a, en_location a2), en_record_index a2)"
    using run p by (auto split: prod.splits outcome.splits)
  have settled: "settled w a1" using passes_settled(4) [OF t(1)] assms(9) t(2) by (simp add: settled_def)
  note q = parse_record_widen [OF assms(1) a(1) wf(1-3) refl p settled]
  show "parse_positioned_record opts v header e = (widen v e', Ok r)"
    using q trim_spans_widen [OF assms(1) t(1)] t(2,3) wide(1)
    by (simp add: parse_positioned_record_def bind_step_def Let_def)
  show "\<not> ending_cut w v e"
  proof
    assume "ending_cut w v e"
    then have "ending_cut w v a" using wide(2) a(3) config_ofD(1) [OF a(2)] by (simp add: ending_cut_def)
    then show False using cut_record_unsettled [OF assms(1) a(1) wf refl _ p] settled by blast
  qed
  have "good w (en_location a) a1 (a2, Ok y)"
    using good_trim [of w "en_location a" a1 header] good_parse_record [OF a(1) wf(1,2), of header] p t(1) assms(7) a(3) by simp
  then have "parse_inv w (en_location a) e'" using t(2) by (simp add: parse_inv_def)
  then show "record_entries v (widen v e') = record_entries w e'" by (rule entries_widen [OF assms(1)])
qed

lemma skips_kernel:
  assumes "skips w e e'"
  shows "kernel_allowed opts e' = kernel_allowed opts e"
proof -
  have "set_aside e' = set_aside e" using assms by (simp add: skips_def)
  then have "en_plain_kernel e' = en_plain_kernel e" unfolding set_aside_def by (cases e; cases e'; simp)
  then show ?thesis by (simp add: kernel_allowed_def fmt_plain_kernel_def split: option.splits)
qed

text \<open>
  C16: A record settled inside a window is final, in every valid dialect whose longer separators are kept
  apart: no byte of the delimiter's tail is the first byte of the record ending, none of the ending's
  tail the delimiter, and a format fixed at compile time does not claim the plain kernel for a longer
  separator. When a parser that has seen the bytes so far accepts a record that ends before the edge, or
  with a record ending at it, then over every longer input it answers the same: the same bounds, the same
  engine state but for the window it is bound to, and the same fields.
\<close>

theorem settled_record_is_final:
  assumes "wider w v" "length v \<le> MAX_OFFSET" "engine_wf e" "format_matches opts e" "window_dialect (en_dialect e)"
    and "kernel_allowed opts e" "checkpoint_here w e" "en_location e \<le> length w"
    and "fill_record_spans opts w header e = (e', Ok (Some r))" "settled w e'"
  shows "fill_record_spans opts v header e = (widen v e', Ok (Some r)) \<and>
    record_entries v (widen v e') = record_entries w e'"
proof -
  let ?s = "\<lambda>x. if en_skips_records e then skip_ignored_records x e else e"
  have alive: "\<not> en_failed e" using assms(9) by (auto simp: fill_record_spans_def)
  have tails: "tails_wf (en_dialect e)" using assms(5) by (simp add: window_dialect_def)
  have sk: "skips w e (?s w)" using skip_ignored_skips [OF tails] by simp
  have more: "en_location (?s w) \<noteq> length w"
    and run: "parse_positioned_record opts w header (?s w) = (e', Ok r)"
    using assms(9) alive by (auto simp: fill_record_spans_def Let_def elim!: bind_step_Ok split: if_splits)
  have inside: "en_location (?s w) < length w" using sk assms(8) more by (auto simp: skips_def)
  have wf: "engine_wf (?s w)" "format_matches opts (?s w)" "window_dialect (en_dialect (?s w))" "kernel_allowed opts (?s w)"
    using skips_config(1,2) [OF sk] skips_dialect [OF sk] skips_kernel [OF sk] assms(3-6) by simp_all
  note p = parse_positioned_widen [OF assms(1,2) wf inside run assms(10)]
  have same: "?s v = ?s w"
  proof (cases "en_skips_records e")
    case True
    obtain b e1 where loop: "skip_ignored_loop w (rs_ignored (en_resume e)) e = (b, e1)" by fastforce
    have loc: "en_location (?s w) = en_location e1" "en_dialect (?s w) = en_dialect e1"
      using True loop by (simp_all add: skip_ignored_records_def)
    have "skip_ignored_loop v (rs_ignored (en_resume e)) e = (b, e1) \<or> ending_cut w v e1"
      using skip_loop_widen [OF assms(1,5,7) loop] inside loc by simp
    moreover have "\<not> ending_cut w v e1" using p(2) loc by (simp add: ending_cut_def)
    ultimately show ?thesis using True loop by (simp add: skip_ignored_records_def)
  qed simp
  have "en_location (?s w) \<noteq> length v" using inside wider_facts(1) [OF assms(1)] by simp
  then show ?thesis
    using p(1,3) alive same by (simp add: fill_record_spans_def Let_def bind_step_def return_step_def)
qed

text \<open>The sample engine has read its line; whatever comes after the line feed, this is its first record.\<close>

theorem settled_record_is_final_witness:
  "\<exists>e'. fill_record_spans None ([97, 44, 98, 10] @ [99, 44, 34]) False sample_engine = (e', Ok (Some ((0, 4), 0)))"
proof -
  let ?w = "[97, 44, 98, 10 :: byte]"
  obtain e' where e': "fill_record_spans None ?w False sample_engine = (e', Ok (Some ((0, 4), 0)))" "en_terminated e'"
    by (simp add: parser_eval sample_eval)
  have d: "en_dialect sample_engine = DIALECT_CSV" by (simp add: sample_eval)
  have dialect: "window_dialect (en_dialect sample_engine)"
    unfolding d window_dialect_def tails_wf_def separators_clear_def by code_simp
  have "kernel_allowed None sample_engine" by (simp add: kernel_allowed_def fmt_plain_kernel_def)
  moreover have "checkpoint_here ?w sample_engine"
    using sample_engine_ok(5) by (simp add: checkpoint_here_def sample_eval resume_new_def)
  moreover have "wider ?w (?w @ [99, 44, 34])" by (simp add: wider_def)
  moreover have "length (?w @ [99, 44, 34]) \<le> MAX_OFFSET" by (simp add: max_offset_value)
  ultimately show ?thesis
    using settled_record_is_final [OF _ _ sample_engine_ok(1,2) dialect _ _ sample_engine_ok(3) e'(1)] e'(2)
    by (fastforce simp: settled_def)
qed

end
