(* ===== verification/Window.thy ===== *)
theory Window
  imports Replay Widening RecordFilter
begin

text \<open>
  Reading from a window that may grow (\<open>coseva/src/engine/cursor.rs\<close>): a record is handed out only when
  the window proves it whole; otherwise the cursor is put back, and a checkpoint keeps how far the search
  for the end of the record came, so that the next, wider window does not begin again.

  The cursor here is one whose caller borrows records: the staging of owned records
  (\<open>staged_form_owned\<close>, set by the owned readers alone) is not part of the model.
\<close>

section \<open>Is the record whole?\<close>

definition window_settled :: "bytes \<Rightarrow> nat \<Rightarrow> engine \<Rightarrow> bool" where
  "window_settled input until e \<longleftrightarrow> until < length input \<or> en_terminated e"

definition separator_lookahead :: "engine \<Rightarrow> nat" where
  "separator_lookahead e =
     1 + max (length (tail_slice (delimiter_tail (en_dialect e)))) (length (tail_slice (ending_tail (en_dialect e))))"

definition truncated_by_window :: "error \<Rightarrow> nat \<Rightarrow> nat \<Rightarrow> bool" where
  "truncated_by_window er window_len lookahead \<longleftrightarrow>
     err_kind er = UnterminatedQuotedField \<or>
     (case err_kind er of InvalidUtf8 _ error_len \<Rightarrow> error_len = None | _ \<Rightarrow> False) \<or>
     window_len \<le> sat_add (loc_byte (err_location er)) lookahead"

definition record_terminator :: "engine \<Rightarrow> byte" where
  "record_terminator e = ending_byte (record_ending (en_dialect e))"

definition record_ending_tail_len :: "engine \<Rightarrow> nat" where
  "record_ending_tail_len e = length (tail_slice (ending_tail (en_dialect e)))"

section \<open>Putting the cursor back\<close>

record cursor_state =
  cs_location :: nat
  cs_folded_upto :: nat
  cs_folded_lines :: nat
  cs_record_index :: nat
  cs_expected_fields :: "nat option"
  cs_headers_initialized :: bool
  cs_cursor_start :: nat
  cs_cursor_end :: nat
  cs_cursor_index :: nat
  cs_failed :: bool

record chunk_cursor_state =
  cc_location :: nat
  cc_record_index :: nat
  cc_folded_lines :: nat
  cc_expected_fields :: "nat option"
  cc_headers_initialized :: bool

definition cursor_state_of :: "line_cursor \<Rightarrow> cursor_state" where
  "cursor_state_of c =
     (let e = cu_engine c
      in \<lparr>cs_location = en_location e, cs_folded_upto = en_folded_upto e, cs_folded_lines = en_folded_lines e,
          cs_record_index = en_record_index e, cs_expected_fields = en_expected e,
          cs_headers_initialized = he_initialized (cu_headed c), cs_cursor_start = cu_start c,
          cs_cursor_end = cu_end c, cs_cursor_index = cu_index c, cs_failed = en_failed e\<rparr>)"

definition chunk_cursor_state_of :: "line_cursor \<Rightarrow> chunk_cursor_state" where
  "chunk_cursor_state_of c =
     (let e = cu_engine c
      in \<lparr>cc_location = en_location e, cc_record_index = en_record_index e, cc_folded_lines = en_folded_lines e,
          cc_expected_fields = en_expected e, cc_headers_initialized = he_initialized (cu_headed c)\<rparr>)"

text \<open>The flag \<open>serde_ready\<close> of the Serde front end is not part of the model.\<close>

definition set_initialized :: "bool \<Rightarrow> line_cursor \<Rightarrow> line_cursor" where
  "set_initialized b c = c\<lparr>cu_headed := (cu_headed c)\<lparr>he_initialized := b\<rparr>\<rparr>"

definition restore_chunk_cursor :: "chunk_cursor_state \<Rightarrow> line_cursor \<Rightarrow> line_cursor" where
  "restore_chunk_cursor s c =
     (let e = cu_engine c
      in set_initialized (cc_headers_initialized s)
           (set_engine (e\<lparr>en_record_index := cc_record_index s, en_folded_upto := min (en_folded_upto e) (cc_location s),
              en_folded_lines := cc_folded_lines s, en_location := cc_location s,
              en_expected := cc_expected_fields s, en_failed := False\<rparr>) c)
           \<lparr>cu_start := NO_OFFSET, cu_end := NO_OFFSET, cu_staged_valid := False\<rparr>)"

definition restore_cursor :: "cursor_state \<Rightarrow> line_cursor \<Rightarrow> line_cursor" where
  "restore_cursor s c =
     (let e = cu_engine c
      in set_initialized (cs_headers_initialized s)
           (set_engine (e\<lparr>en_location := cs_location s, en_record_index := cs_record_index s,
              en_folded_upto := cs_folded_upto s, en_folded_lines := cs_folded_lines s,
              en_expected := cs_expected_fields s, en_failed := cs_failed s\<rparr>) c)
           \<lparr>cu_start := cs_cursor_start s, cu_end := cs_cursor_end s, cu_index := cs_cursor_index s,
            cu_staged_valid := False\<rparr>)"

definition release_positioned_record :: "line_cursor \<Rightarrow> line_cursor" where
  "release_positioned_record c = c\<lparr>cu_start := NO_OFFSET, cu_end := NO_OFFSET, cu_staged_valid := False\<rparr>"

section \<open>The boundary scan\<close>

record window_scan_config =
  wc_quoting :: bool
  wc_delimiter :: byte
  wc_delimiter_tail :: tail
  wc_quote :: byte
  wc_terminator :: byte
  wc_ending_tail :: tail
  wc_crlf :: bool
  wc_escape :: escape
  wc_permits_unquoted_quotes :: bool
  wc_permits_any_backslash :: bool
  wc_permits_trailing_ws :: bool
  wc_skip_initial_space :: bool
  wc_max_record :: nat
  wc_max_field :: nat

definition window_scan_config_of :: "format_options option \<Rightarrow> engine \<Rightarrow> window_scan_config" where
  "window_scan_config_of opts e =
     \<lparr>wc_quoting = fmt_quoting_enabled opts e, wc_delimiter = fmt_delimiter opts e,
      wc_delimiter_tail = delimiter_tail (en_dialect e), wc_quote = fmt_quote opts e,
      wc_terminator = fmt_terminator opts e, wc_ending_tail = ending_tail (en_dialect e),
      wc_crlf = (fmt_record_ending opts e = CrLf), wc_escape = fmt_escape opts e,
      wc_permits_unquoted_quotes = fmt_permits_unquoted_quotes opts e,
      wc_permits_any_backslash = fmt_permits_any_backslash_escape opts e,
      wc_permits_trailing_ws = fmt_permits_trailing_whitespace opts e,
      wc_skip_initial_space = fmt_skip_initial_space opts e,
      wc_max_record = max_record_bytes (en_limits e), wc_max_field = max_field_bytes (en_limits e)\<rparr>"

text \<open>\<open>pause_scan\<close>: the answer, and the checkpoint when the scan has to wait for more input.\<close>

definition pause_scan :: "nat \<Rightarrow> nat \<Rightarrow> nat \<Rightarrow> bool \<Rightarrow> bool \<Rightarrow> resume_state \<Rightarrow> resume_state \<times> bool" where
  "pause_scan record_start scanned_to field_start in_quotes limited r =
     (if limited then (r, False)
      else (\<lparr>rs_record_start = record_start, rs_scanned_to = scanned_to, rs_field_start = field_start,
             rs_in_quotes = in_quotes, rs_ignored = False\<rparr>, True))"

definition window_scan_end :: "window_scan_config \<Rightarrow> bytes \<Rightarrow> nat \<Rightarrow> nat \<Rightarrow> nat" where
  "window_scan_end cfg input record_start field_start =
     min (sat_add (min (sat_add record_start (wc_max_record cfg)) (sat_add field_start (wc_max_field cfg))) 1)
       (length input)"

definition quoted_escape :: "window_scan_config \<Rightarrow> byte" where
  "quoted_escape cfg =
     (case wc_escape cfg of DoubleQuote \<Rightarrow> wc_quote cfg | Backslash b \<Rightarrow> b | Unquoted b \<Rightarrow> b | EscapeMysql \<Rightarrow> BACKSLASH)"

function skip_blanks_within :: "bytes \<Rightarrow> nat \<Rightarrow> nat \<Rightarrow> nat" where
  "skip_blanks_within input after stop =
     (if after < stop \<and> (input ! after = 32 \<or> input ! after = TAB)
      then skip_blanks_within input (after + 1) stop else after)"
  by pat_completeness auto
termination by (relation "measure (\<lambda>(_, after, stop). stop - after)") auto

declare skip_blanks_within.simps [simp del]

text \<open>
  One round of the loop of \<open>window_lacks_record_runtime\<close>: it answers, or goes on with the cursor, the
  field start and the quote state it leaves. A slice whose start has passed the end of the scan panics.
\<close>

datatype round_result = Answer "resume_state \<times> bool" | GoOn nat nat bool | ScanPanic

definition quoted_scan_stop :: "window_scan_config \<Rightarrow> bytes \<Rightarrow> nat option" where
  "quoted_scan_stop cfg rest =
     (if wc_escape cfg = DoubleQuote then find1 (wc_quote cfg) rest
      else find2 (wc_quote cfg) (quoted_escape cfg) rest)"

definition unquoted_scan_stop :: "window_scan_config \<Rightarrow> bytes \<Rightarrow> nat option" where
  "unquoted_scan_stop cfg rest =
     (let found = (if wc_quoting cfg then find3 (wc_delimiter cfg) (wc_quote cfg) (wc_terminator cfg) rest
                   else find2 (wc_delimiter cfg) (wc_terminator cfg) rest);
          judged = (if wc_crlf cfg then earliest found (find1 CR rest) else found)
      in case unquoted_byte (wc_escape cfg) of Some b \<Rightarrow> earliest judged (find1 b rest) | None \<Rightarrow> judged)"

definition pause_at :: "window_scan_config \<Rightarrow> bytes \<Rightarrow> nat \<Rightarrow> nat \<Rightarrow> bool \<Rightarrow> nat \<Rightarrow> resume_state \<Rightarrow> round_result" where
  "pause_at cfg input record_start field_start in_quotes at r =
     Answer (pause_scan record_start at field_start in_quotes
       (window_scan_end cfg input record_start field_start < length input) r)"

definition quoted_round_at ::
    "window_scan_config \<Rightarrow> bytes \<Rightarrow> nat \<Rightarrow> nat \<Rightarrow> nat \<Rightarrow> resume_state \<Rightarrow> round_result" where
  "quoted_round_at cfg input record_start field_start at r =
     (let stop = window_scan_end cfg input record_start field_start;
          doubled = (wc_escape cfg = DoubleQuote);
          pause = pause_at cfg input record_start field_start True at r
      in if \<not> doubled \<and> input ! at = quoted_escape cfg then
           (if stop \<le> at + 1 then pause
            else if (\<exists>b. wc_escape cfg = Backslash b) \<and> input ! (at + 1) \<noteq> wc_quote cfg \<and>
                    input ! (at + 1) \<noteq> quoted_escape cfg \<and> \<not> wc_permits_any_backslash cfg
            then Answer (r, False)
            else GoOn (at + 2) field_start True)
         else if stop \<le> at + 1 then pause
         else if doubled \<and> input ! (at + 1) = wc_quote cfg then GoOn (at + 2) field_start True
         else
           let after = (if wc_permits_trailing_ws cfg then skip_blanks_within input (at + 1) stop else at + 1)
           in if wc_permits_trailing_ws cfg \<and> stop \<le> after then Answer (r, False)
              else if input ! after = wc_delimiter cfg then
                (if stop - (after + 1) < length (tail_slice (wc_delimiter_tail cfg)) then pause
                 else if \<not> tail_confirms (wc_delimiter_tail cfg) (slice input (after + 1) stop)
                 then Answer (r, False)
                 else let nxt = after + tail_width (wc_delimiter_tail cfg) in GoOn nxt nxt False)
              else Answer (r, False))"

definition unquoted_round_at ::
    "window_scan_config \<Rightarrow> bytes \<Rightarrow> nat \<Rightarrow> nat \<Rightarrow> nat \<Rightarrow> resume_state \<Rightarrow> round_result" where
  "unquoted_round_at cfg input record_start field_start at r =
     (let stop = window_scan_end cfg input record_start field_start;
          pause = pause_at cfg input record_start field_start False at r;
          b = input ! at
      in if unquoted_byte (wc_escape cfg) = Some b then
           (if stop \<le> at + 1 then pause else GoOn (at + 2) field_start False)
         else if b = wc_delimiter cfg then
           (if stop - (at + 1) < length (tail_slice (wc_delimiter_tail cfg)) then pause
            else if \<not> tail_confirms (wc_delimiter_tail cfg) (slice input (at + 1) stop)
            then GoOn (at + 1) field_start False
            else let nxt = at + tail_width (wc_delimiter_tail cfg) in GoOn nxt nxt False)
         else if wc_quoting cfg \<and> b = wc_quote cfg then
           (if at = field_start \<or> wc_skip_initial_space cfg \<and> field_start \<noteq> record_start \<and>
               list_all (\<lambda>x. x = 32) (slice input field_start at)
            then GoOn (at + 1) at True
            else if wc_permits_unquoted_quotes cfg then GoOn (at + 1) field_start False
            else Answer (r, False))
         else if b = wc_terminator cfg \<and> \<not> tail_is_empty (wc_ending_tail cfg) then
           (if stop - (at + 1) < length (tail_slice (wc_ending_tail cfg)) then pause
            else if \<not> tail_confirms (wc_ending_tail cfg) (slice input (at + 1) stop)
            then GoOn (at + 1) field_start False
            else Answer (r, False))
         else Answer (r, False))"

definition scan_round ::
    "window_scan_config \<Rightarrow> bytes \<Rightarrow> nat \<Rightarrow> nat \<Rightarrow> nat \<Rightarrow> bool \<Rightarrow> resume_state \<Rightarrow> round_result" where
  "scan_round cfg input record_start cursor field_start in_quotes r =
     (let stop = window_scan_end cfg input record_start field_start
      in case get_range input cursor stop of
           None \<Rightarrow> ScanPanic
         | Some rest \<Rightarrow>
             (case (if in_quotes then quoted_scan_stop cfg rest else unquoted_scan_stop cfg rest) of
                None \<Rightarrow> pause_at cfg input record_start field_start in_quotes stop r
              | Some rel \<Rightarrow>
                  if in_quotes then quoted_round_at cfg input record_start field_start (cursor + rel) r
                  else unquoted_round_at cfg input record_start field_start (cursor + rel) r))"

text \<open>
  The rounds until one answers. Every round moves the cursor on; the scan of a checkpoint that describes
  this window never panics.
\<close>

lemma skip_blanks_within_le: "after \<le> skip_blanks_within input after stop"
  by (induction input after stop rule: skip_blanks_within.induct) (subst skip_blanks_within.simps, auto)

lemma window_scan_end_le: "window_scan_end cfg input rs fs \<le> length input"
  by (simp add: window_scan_end_def)

text \<open>The bytes each state of the scan stops at.\<close>

definition scan_stops :: "window_scan_config \<Rightarrow> bool \<Rightarrow> byte set" where
  "scan_stops cfg in_quotes =
     (if in_quotes then (if wc_escape cfg = DoubleQuote then {wc_quote cfg} else {wc_quote cfg, quoted_escape cfg})
      else {wc_delimiter cfg, wc_terminator cfg} \<union> (if wc_quoting cfg then {wc_quote cfg} else {}) \<union>
        (if wc_crlf cfg then {CR} else {}) \<union> set_option (unquoted_byte (wc_escape cfg)))"

lemma quoted_scan_position: "quoted_scan_stop cfg rest = position (\<lambda>b. b \<in> scan_stops cfg True) rest"
  by (simp add: quoted_scan_stop_def scan_stops_def find_simps)

lemma unquoted_scan_position: "unquoted_scan_stop cfg rest = position (\<lambda>b. b \<in> scan_stops cfg False) rest"
  by (auto simp: unquoted_scan_stop_def scan_stops_def find_simps earliest_position Let_def
      split: option.split intro!: position_cong)

lemma scan_round_moves:
  assumes "scan_round cfg input rs cursor fs q r = GoOn cursor' fs' q'"
  shows "cursor < cursor' \<and> cursor < length input"
proof -
  let ?n = "window_scan_end cfg input rs fs"
  have inside: "i < ?n - cursor \<Longrightarrow> cursor < length input" for i
    using window_scan_end_le [of cfg input rs fs] by linarith
  have after: "cursor < skip_blanks_within input (Suc (cursor + i)) m + tail_width t" for i m t
    using skip_blanks_within_le [of "Suc (cursor + i)" input m] by linarith
  show ?thesis
    using assms inside after
    by (cases q)
      (auto simp: scan_round_def quoted_round_at_def unquoted_round_at_def pause_at_def Let_def get_range_def
        quoted_scan_position unquoted_scan_position dest!: position_less split: if_splits option.splits)
qed

function window_scan ::
    "window_scan_config \<Rightarrow> bytes \<Rightarrow> nat \<Rightarrow> nat \<Rightarrow> nat \<Rightarrow> bool \<Rightarrow> resume_state \<Rightarrow> resume_state \<times> bool outcome" where
  "window_scan cfg input record_start cursor field_start in_quotes r =
     (case scan_round cfg input record_start cursor field_start in_quotes r of
        Answer (r', lacks) \<Rightarrow> (r', Ok lacks)
      | ScanPanic \<Rightarrow> (r, Panic)
      | GoOn cursor' field_start' in_quotes' \<Rightarrow>
          window_scan cfg input record_start cursor' field_start' in_quotes' r)"
  by pat_completeness auto
termination
  by (relation "measure (\<lambda>(_, input, _, cursor, _). length input - cursor)") (auto dest!: scan_round_moves)

declare window_scan.simps [simp del]

definition window_lacks_record_runtime :: "bytes \<Rightarrow> window_scan_config \<Rightarrow> bool step" where
  "window_lacks_record_runtime input cfg e =
     (let r = en_resume e
      in case window_scan cfg input (rs_record_start r) (rs_scanned_to r) (rs_field_start r) (rs_in_quotes r) r of
           (r', res) \<Rightarrow> (e\<lparr>en_resume := r'\<rparr>, res))"

definition window_lacks_record :: "format_options option \<Rightarrow> bytes \<Rightarrow> bool step" where
  "window_lacks_record opts input e = window_lacks_record_runtime input (window_scan_config_of opts e) e"

section \<open>The scan goes on where it paused\<close>

lemma scan_round_stop:
  "scan_round cfg input rs cursor fs q r =
     (let stop = window_scan_end cfg input rs fs
      in if stop < cursor then ScanPanic
         else case position (\<lambda>b. b \<in> scan_stops cfg q) (slice input cursor stop) of
                None \<Rightarrow> pause_at cfg input rs fs q stop r
              | Some rel \<Rightarrow>
                  if q then quoted_round_at cfg input rs fs (cursor + rel) r
                  else unquoted_round_at cfg input rs fs (cursor + rel) r)"
  using window_scan_end_le [of cfg input rs fs]
  by (cases q) (auto simp: scan_round_def Let_def get_range_def quoted_scan_position unquoted_scan_position
      split: option.split)

lemma scan_end_widens: "wider w v \<Longrightarrow> window_scan_end cfg w rs fs \<le> window_scan_end cfg v rs fs"
  using wider_facts(1) [of w v] by (auto simp: window_scan_end_def intro: min.mono)

lemma blanks_widen:
  assumes "wider w v" "n \<le> length w" "n \<le> m" "skip_blanks_within w i n < n"
  shows "skip_blanks_within v i m = skip_blanks_within w i n"
  using assms
proof (induction w i n rule: skip_blanks_within.induct)
  case (1 w i n)
  note eqs = skip_blanks_within.simps [of w i n] skip_blanks_within.simps [of v i m]
  show ?case
  proof (cases "i < n \<and> (w ! i = 32 \<or> w ! i = TAB)")
    case True
    then have "v ! i = w ! i" using wider_facts(2) [OF 1(2)] 1(3) by simp
    then show ?thesis using 1 True unfolding eqs by auto
  next
    case False
    then have "i < n" using 1(5) unfolding eqs by (simp split: if_splits)
    then have "v ! i = w ! i" using wider_facts(2) [OF 1(2)] 1(3) by simp
    then show ?thesis using False \<open>i < n\<close> unfolding eqs by simp
  qed
qed

lemma confirms_widen:
  assumes "wider w v" "n \<le> length w" "n \<le> m" "length (tail_slice t) \<le> n - i"
  shows "tail_confirms t (slice v i m) = tail_confirms t (slice w i n)"
proof (cases "i \<le> n")
  case True
  obtain rest where rest: "slice v i m = slice w i n @ rest" using wider_slice [OF assms(1) True assms(2,3)] .
  have "length (slice w i n) = n - i" using assms(2) by simp
  then show ?thesis using assms(4) by (simp add: tail_confirms_def rest)
next
  case False
  then show ?thesis using assms(4) by (simp add: tail_confirms_def)
qed

lemma closing_round:
  "(if A then Answer x else if B then (if C then Answer y else if D then Answer z else g) else Answer u) = GoOn c f q \<longleftrightarrow>
     \<not> A \<and> B \<and> \<not> C \<and> \<not> D \<and> g = GoOn c f q"
  by auto

lemma quoted_at_widen:
  assumes "wider w v" "at < window_scan_end cfg w rs fs" "quoted_round_at cfg w rs fs at r = GoOn c' f' q'"
  shows "quoted_round_at cfg v rs fs at s = GoOn c' f' q'"
proof -
  let ?n = "window_scan_end cfg w rs fs" and ?m = "window_scan_end cfg v rs fs"
  have le: "?n \<le> length w" "?n \<le> ?m" using window_scan_end_le scan_end_widens [OF assms(1)] by auto
  have same: "v ! i = w ! i" if "i < ?n" for i using wider_facts(2) [OF assms(1)] that le(1) by simp
  have far: "at + 1 < ?n" using assms(3) by (auto simp: quoted_round_at_def pause_at_def Let_def split: if_splits)
  have near: "\<not> ?n \<le> at + 1" "\<not> ?m \<le> at + 1" "v ! at = w ! at" "v ! (at + 1) = w ! (at + 1)"
    using far le(2) same by auto
  let ?after = "if wc_permits_trailing_ws cfg then skip_blanks_within w (at + 1) ?n else at + 1"
  let ?after' = "if wc_permits_trailing_ws cfg then skip_blanks_within v (at + 1) ?m else at + 1"
  have after: "?after' = ?after \<and> \<not> ?m \<le> ?after \<and> v ! ?after = w ! ?after"
    if "\<not> (wc_permits_trailing_ws cfg \<and> ?n \<le> ?after)"
  proof -
    have lt: "?after < ?n" using that far by auto
    have "?after' = ?after"
    proof (cases "wc_permits_trailing_ws cfg")
      case True
      then show ?thesis using blanks_widen [OF assms(1) le, of "at + 1"] lt by (simp only: if_True)
    qed simp
    then show ?thesis using lt same [OF lt] le(2) by simp
  qed
  note confirm = confirms_widen [OF assms(1) le, of "wc_delimiter_tail cfg" "?after + 1"]
  have room: "\<not> ?n - (?after + 1) < k \<Longrightarrow> \<not> ?m - (?after + 1) < k" for k using le(2) by linarith
  consider (escaped) "wc_escape cfg \<noteq> DoubleQuote \<and> w ! at = quoted_escape cfg"
    | (doubled) "\<not> (wc_escape cfg \<noteq> DoubleQuote \<and> w ! at = quoted_escape cfg)"
        "wc_escape cfg = DoubleQuote \<and> w ! (at + 1) = wc_quote cfg"
    | (closing) "\<not> (wc_escape cfg \<noteq> DoubleQuote \<and> w ! at = quoted_escape cfg)"
        "\<not> (wc_escape cfg = DoubleQuote \<and> w ! (at + 1) = wc_quote cfg)"
    by blast
  then show ?thesis
  proof cases
    case escaped
    note run = assms(3) [unfolded quoted_round_at_def Let_def if_P [OF escaped] if_not_P [OF near(1)]]
    show ?thesis
      using run unfolding quoted_round_at_def Let_def near(3,4) if_P [OF escaped] if_not_P [OF near(2)]
      by (simp split: if_splits)
  next
    case doubled
    note run = assms(3) [unfolded quoted_round_at_def Let_def if_not_P [OF doubled(1)] if_not_P [OF near(1)] if_P [OF doubled(2)]]
    show ?thesis
      using run unfolding quoted_round_at_def Let_def near(3,4) if_not_P [OF doubled(1)] if_not_P [OF near(2)] if_P [OF doubled(2)] .
  next
    case closing
    note here = closing
    note run = assms(3) [unfolded quoted_round_at_def Let_def if_not_P [OF here(1)] if_not_P [OF near(1)] if_not_P [OF here(2)]
        pause_at_def]
    note ok = closing_round [THEN iffD1, OF run, THEN conjunct1] closing_round [THEN iffD1, OF run, THEN conjunct2, THEN conjunct1]
      closing_round [THEN iffD1, OF run, THEN conjunct2, THEN conjunct2, THEN conjunct1]
      closing_round [THEN iffD1, OF run, THEN conjunct2, THEN conjunct2, THEN conjunct2, THEN conjunct1, unfolded not_not]
    note res = closing_round [THEN iffD1, OF run, THEN conjunct2, THEN conjunct2, THEN conjunct2, THEN conjunct2]
    have plain: "\<not> (wc_escape cfg \<noteq> DoubleQuote \<and> v ! at = quoted_escape cfg)"
      "\<not> (wc_escape cfg = DoubleQuote \<and> v ! (at + 1) = wc_quote cfg)"
      using here near(3,4) by auto
    note a = after [OF ok(1)]
    have stay: "\<not> (wc_permits_trailing_ws cfg \<and> ?m \<le> ?after)" and delim: "v ! ?after = wc_delimiter cfg"
      and confirmed: "\<not> \<not> tail_confirms (wc_delimiter_tail cfg) (slice v (?after + 1) ?m)"
      using a ok(2) confirm ok(3,4) by (simp_all only: not_less not_not simp_thms)
    show ?thesis
      unfolding quoted_round_at_def Let_def a [THEN conjunct1] res [symmetric]
      by (simp only: if_not_P [OF plain(1)] if_not_P [OF plain(2)] if_not_P [OF near(2)] if_not_P [OF stay]
          if_P [OF delim] if_not_P [OF room [OF ok(3)]] if_not_P [OF confirmed])
  qed
qed

lemma unquoted_at_widen:
  assumes "wider w v" "at < window_scan_end cfg w rs fs" "unquoted_round_at cfg w rs fs at r = GoOn c' f' q'"
  shows "unquoted_round_at cfg v rs fs at s = GoOn c' f' q'"
proof -
  let ?n = "window_scan_end cfg w rs fs" and ?m = "window_scan_end cfg v rs fs"
  have le: "?n \<le> length w" "?n \<le> ?m" using window_scan_end_le scan_end_widens [OF assms(1)] by auto
  have same: "v ! at = w ! at" "slice v fs at = slice w fs at"
    using wider_facts(2,5) [OF assms(1)] assms(2) le(1) by auto
  have room: "length (tail_slice t) \<le> ?n - (at + 1) \<Longrightarrow> \<not> ?m - (at + 1) < length (tail_slice t)" for t
    using le(2) by linarith
  note confirm = confirms_widen [OF assms(1) le, of _ "at + 1"]
  note run = assms(3) [unfolded unquoted_round_at_def Let_def pause_at_def]
  show ?thesis
  proof (cases "unquoted_byte (wc_escape cfg) = Some (w ! at)")
    case True
    then show ?thesis using run le(2) by (simp add: unquoted_round_at_def same split: if_splits)
  next
    case no_escape: False
    show ?thesis
    proof (cases "w ! at = wc_delimiter cfg")
      case True
      then have len: "length (tail_slice (wc_delimiter_tail cfg)) \<le> ?n - (at + 1)" using run no_escape by (simp split: if_splits)
      show ?thesis
        using run no_escape True room [OF len] confirm [OF len]
        unfolding unquoted_round_at_def Let_def same by (simp split: if_splits)
    next
      case no_delim: False
      show ?thesis
      proof (cases "wc_quoting cfg \<and> w ! at = wc_quote cfg")
        case True
        then show ?thesis using run no_escape no_delim by (simp add: unquoted_round_at_def same split: if_splits)
      next
        case False
        then have ending: "w ! at = wc_terminator cfg \<and> \<not> tail_is_empty (wc_ending_tail cfg)"
          "length (tail_slice (wc_ending_tail cfg)) \<le> ?n - (at + 1)"
          using run no_escape no_delim by (simp_all split: if_splits)
        show ?thesis
          using run no_escape no_delim False ending room [OF ending(2)] confirm [OF ending(2)]
          unfolding unquoted_round_at_def Let_def same by (auto split: if_splits)
      qed
    qed
  qed
qed

lemma round_widen:
  assumes "wider w v" "scan_round cfg w rs cursor fs q r = GoOn c' f' q'"
  shows "scan_round cfg v rs cursor fs q s = GoOn c' f' q'"
proof -
  let ?n = "window_scan_end cfg w rs fs" and ?m = "window_scan_end cfg v rs fs"
  have le: "?n \<le> length w" "?n \<le> ?m" using window_scan_end_le scan_end_widens [OF assms(1)] by auto
  note run = assms(2) [unfolded scan_round_stop Let_def]
  have cursor: "\<not> ?n < cursor" using run by auto
  then obtain i where i: "position (\<lambda>b. b \<in> scan_stops cfg q) (slice w cursor ?n) = Some i"
    using run by (auto simp: pause_at_def split: option.splits)
  have at: "cursor + i < ?n" using slice_index [OF position_less [OF i]] by blast
  then have "cursor \<le> ?n" by simp
  then obtain rest where "slice v cursor ?m = slice w cursor ?n @ rest" using wider_slice [OF assms(1) _ le] by blast
  then have i': "position (\<lambda>b. b \<in> scan_stops cfg q) (slice v cursor ?m) = Some i" using i by (simp add: position_more)
  show ?thesis
    using run i i' cursor le(2) quoted_at_widen [OF assms(1) at] unquoted_at_widen [OF assms(1) at]
    by (auto simp: scan_round_stop Let_def split: if_splits)
qed

text \<open>A pause is in front of the first byte the scan would stop at, and nothing else of it matters.\<close>

lemma round_pause:
  assumes "scan_round cfg w rs cursor fs q r = Answer (r', True)"
  obtains at where "r' = \<lparr>rs_record_start = rs, rs_scanned_to = at, rs_field_start = fs, rs_in_quotes = q, rs_ignored = False\<rparr>"
    "cursor \<le> at" "at \<le> window_scan_end cfg w rs fs" "\<And>i. cursor \<le> i \<Longrightarrow> i < at \<Longrightarrow> w ! i \<notin> scan_stops cfg q"
proof -
  let ?n = "window_scan_end cfg w rs fs"
  note run = assms [unfolded scan_round_stop Let_def]
  have cursor: "\<not> ?n < cursor" using run by auto
  have member: "slice w cursor ?n ! (i - cursor) = w ! i" if "cursor \<le> i" "i < ?n" for i
    using that window_scan_end_le [of cfg w rs fs] by simp
  show thesis
  proof (cases "position (\<lambda>b. b \<in> scan_stops cfg q) (slice w cursor ?n)")
    case None
    have "w ! i \<notin> scan_stops cfg q" if "cursor \<le> i" "i < ?n" for i
    proof -
      have "slice w cursor ?n ! (i - cursor) \<in> set (slice w cursor ?n)"
        using that window_scan_end_le [of cfg w rs fs] by (intro nth_mem) simp
      then show ?thesis using None member [OF that] by (simp add: position_None_iff)
    qed
    then show thesis
      using that [of ?n] run None cursor by (auto simp: pause_at_def pause_scan_def split: if_splits)
  next
    case (Some i)
    then have i: "i < length (slice w cursor ?n)" "\<And>j. j < i \<Longrightarrow> slice w cursor ?n ! j \<notin> scan_stops cfg q"
      by (auto simp: position_Some_iff)
    then have "w ! j \<notin> scan_stops cfg q" if "cursor \<le> j" "j < cursor + i" for j
    proof -
      have "j - cursor < i" "j < ?n" using that slice_index [OF i(1)] by linarith+
      then show ?thesis using i(2) member [OF that(1)] by metis
    qed
    moreover have "cursor + i \<le> ?n" using slice_index [OF i(1)] by simp
    ultimately show thesis
      using that [of "cursor + i"] run Some cursor
      by (auto simp: quoted_round_at_def unquoted_round_at_def pause_at_def pause_scan_def Let_def split: if_splits)
  qed
qed

lemma round_from:
  assumes "cursor \<le> at" "at \<le> window_scan_end cfg v rs fs" "\<And>i. cursor \<le> i \<Longrightarrow> i < at \<Longrightarrow> v ! i \<notin> scan_stops cfg q"
  shows "scan_round cfg v rs at fs q s = scan_round cfg v rs cursor fs q s"
proof -
  let ?m = "window_scan_end cfg v rs fs"
  have split: "slice v cursor ?m = slice v cursor at @ slice v at ?m"
    using slice_split [OF assms(1,2)] .
  have none: "position (\<lambda>b. b \<in> scan_stops cfg q) (slice v cursor at) = None"
    using assms window_scan_end_le [of cfg v rs fs] by (auto simp: position_None_iff in_set_conv_nth)
  have len: "min (at - cursor) (length v - cursor) = at - cursor" using assms(2) window_scan_end_le [of cfg v rs fs] by simp
  show ?thesis
    using assms(1,2) by (auto simp: scan_round_stop Let_def split position_append none len split: option.split)
qed

text \<open>The checkpoint the scan started from only comes back when it proves nothing.\<close>

definition keeping :: "resume_state \<Rightarrow> resume_state \<times> bool \<Rightarrow> resume_state \<times> bool" where
  "keeping s x = (if snd x then x else (s, False))"

fun rechecked :: "resume_state \<Rightarrow> round_result \<Rightarrow> round_result" where
  "rechecked s (Answer x) = Answer (keeping s x)"
| "rechecked s (GoOn cursor field_start in_quotes) = GoOn cursor field_start in_quotes"
| "rechecked s ScanPanic = ScanPanic"

lemma rechecked_if: "rechecked s (if c then x else y) = (if c then rechecked s x else rechecked s y)"
  by simp

lemma round_checkpoint: "scan_round cfg input rs cursor fs q s = rechecked s (scan_round cfg input rs cursor fs q r)"
proof -
  have pause: "pause_at cfg input rs fs q n s = rechecked s (pause_at cfg input rs fs q n r)" for q n
    by (simp add: pause_at_def pause_scan_def keeping_def)
  have answer: "Answer (s, False) = rechecked s (Answer (r, False))" by (simp add: keeping_def)
  have quoted: "quoted_round_at cfg input rs fs n s = rechecked s (quoted_round_at cfg input rs fs n r)" for n
    unfolding quoted_round_at_def Let_def rechecked_if rechecked.simps(2) pause [of True n] answer ..
  have unquoted: "unquoted_round_at cfg input rs fs n s = rechecked s (unquoted_round_at cfg input rs fs n r)" for n
    unfolding unquoted_round_at_def Let_def rechecked_if rechecked.simps(2) pause [of False n] answer ..
  show ?thesis
    using pause quoted unquoted by (simp add: scan_round_stop Let_def split: option.split)
qed

lemma window_scan_checkpoint:
  "window_scan cfg input rs cursor fs q s =
     (case window_scan cfg input rs cursor fs q r of (x, res) \<Rightarrow> (if res = Ok True then x else s, res))"
proof (induction cfg input rs cursor fs q r rule: window_scan.induct)
  case (1 cfg input rs cursor fs q r)
  note eqs = window_scan.simps [of cfg input rs cursor fs q s] window_scan.simps [of cfg input rs cursor fs q r]
  show ?case
    using 1 unfolding eqs round_checkpoint [of cfg input rs cursor fs q s r]
    by (cases "scan_round cfg input rs cursor fs q r") (auto simp: keeping_def)
qed

lemma window_scan_resumes:
  assumes "wider w v" "window_scan cfg w rs cursor fs q r = (r', Ok True)"
  shows "rs_record_start r' = rs \<and>
    window_scan cfg v rs (rs_scanned_to r') (rs_field_start r') (rs_in_quotes r') s = window_scan cfg v rs cursor fs q s"
  using assms
proof (induction cfg w rs cursor fs q r rule: window_scan.induct)
  case (1 cfg w rs cursor fs q r)
  note run = 1(3) [unfolded window_scan.simps [of cfg w rs cursor fs q r]]
  show ?case
  proof (cases "scan_round cfg w rs cursor fs q r")
    case (Answer x)
    then have "scan_round cfg w rs cursor fs q r = Answer (r', True)" using run by (cases x) auto
    then obtain at where at: "r' = \<lparr>rs_record_start = rs, rs_scanned_to = at, rs_field_start = fs, rs_in_quotes = q, rs_ignored = False\<rparr>"
      "cursor \<le> at" "at \<le> window_scan_end cfg w rs fs" "\<And>i. cursor \<le> i \<Longrightarrow> i < at \<Longrightarrow> w ! i \<notin> scan_stops cfg q"
      by (rule round_pause) blast
    have inside: "at \<le> length w" using at(3) window_scan_end_le order_trans by blast
    have "scan_round cfg v rs at fs q s = scan_round cfg v rs cursor fs q s"
    proof (rule round_from [OF at(2)])
      show "at \<le> window_scan_end cfg v rs fs" using at(3) scan_end_widens [OF 1(2)] order_trans by blast
      show "v ! i \<notin> scan_stops cfg q" if "cursor \<le> i" "i < at" for i
        using at(4) [OF that] wider_facts(2) [OF 1(2)] that(2) inside by simp
    qed
    then show ?thesis using at(1) by (simp add: window_scan.simps [of cfg v rs _ fs q s])
  next
    case (GoOn c' f' q')
    then have "window_scan cfg w rs c' f' q' r = (r', Ok True)" using run by simp
    then show ?thesis
      using 1(1) [OF GoOn 1(2)] round_widen [OF 1(2) GoOn, of s] by (simp add: window_scan.simps [of cfg v rs cursor fs q s])
  next
    case ScanPanic
    then show ?thesis using run by simp
  qed
qed

lemma scan_config_resume [simp]: "window_scan_config_of opts (e\<lparr>en_resume := r\<rparr>) = window_scan_config_of opts e"
  by (simp add: window_scan_config_of_def fmt_quoting_enabled_def fmt_delimiter_def fmt_quote_def fmt_terminator_def
      fmt_record_ending_def fmt_escape_def fmt_permits_unquoted_quotes_def fmt_permits_any_backslash_escape_def
      fmt_permits_trailing_whitespace_def fmt_skip_initial_space_def cong: option.case_cong)

text \<open>
  C17: The boundary scan resumes exactly. When it found no whole record in a window, its checkpoint stands
  for all it has read: over any wider window the scan from the checkpoint gives the answer, and leaves the
  checkpoint, of the scan from the beginning.
\<close>

theorem boundary_scan_resumes:
  assumes "wider w v" "window_lacks_record opts w e = (e1, Ok True)" "window_lacks_record opts v e = (e2, res)"
  shows "window_lacks_record opts v e1 = (if res = Ok True then e2 else e1, res)"
proof -
  let ?r = "en_resume e" and ?cfg = "window_scan_config_of opts e"
  let ?scan = "\<lambda>x. window_scan ?cfg x (rs_record_start ?r) (rs_scanned_to ?r) (rs_field_start ?r) (rs_in_quotes ?r)"
  obtain r1 where r1: "?scan w ?r = (r1, Ok True)" "e1 = e\<lparr>en_resume := r1\<rparr>"
    using assms(2) by (auto simp: window_lacks_record_def window_lacks_record_runtime_def Let_def split: prod.splits)
  obtain r2 where r2: "?scan v ?r = (r2, res)" "e2 = e\<lparr>en_resume := r2\<rparr>"
    using assms(3) by (auto simp: window_lacks_record_def window_lacks_record_runtime_def Let_def split: prod.splits)
  have "?scan v r1 = (if res = Ok True then r2 else r1, res)"
    using window_scan_checkpoint [of ?cfg v "rs_record_start ?r" _ _ _ r1 ?r] r2(1) by simp
  then show ?thesis
    using window_scan_resumes [OF assms(1) r1(1), of r1] r1(2) r2(2)
    by (simp add: window_lacks_record_def window_lacks_record_runtime_def Let_def)
qed

text \<open>The sample engine has a byte of its line, then all of it: the scan goes on after that byte.\<close>

theorem boundary_scan_resumes_witness:
  "\<exists>e1 e2 res. window_lacks_record None [97] (sample_engine\<lparr>en_resume := resume_fresh 0\<rparr>) = (e1, Ok True) \<and>
     rs_scanned_to (en_resume e1) = 1 \<and>
     window_lacks_record None [97, 44, 98, 10] (sample_engine\<lparr>en_resume := resume_fresh 0\<rparr>) = (e2, res) \<and>
     window_lacks_record None [97, 44, 98, 10] e1 = (if res = Ok True then e2 else e1, res)"
proof -
  let ?e = "sample_engine\<lparr>en_resume := resume_fresh 0\<rparr>" and ?w = "[97 :: byte]" and ?v = "[97, 44, 98, 10 :: byte]"
  have wide: "wider ?w ?v" by (simp add: wider_def)
  obtain e1 where e1: "window_lacks_record None ?w ?e = (e1, Ok True)" "rs_scanned_to (en_resume e1) = 1"
    by (simp add: window_lacks_record_def window_lacks_record_runtime_def resume_fresh_def Let_def window_scan.simps
        scan_round_def window_scan_end_def get_range_def slice_def unquoted_scan_position pause_at_def pause_scan_def
        window_scan_config_of_def parser_eval sample_eval scan_stops_def fmt_record_ending_def
        fmt_terminator_def fmt_quoting_enabled_def fmt_delimiter_def fmt_quote_def fmt_escape_def kind_of_def
        fmt_permits_unquoted_quotes_def fmt_permits_any_backslash_escape_def fmt_permits_trailing_whitespace_def
        fmt_skip_initial_space_def)
  obtain e2 res where e2: "window_lacks_record None ?v ?e = (e2, res)" by fastforce
  show ?thesis using e1 e2 boundary_scan_resumes [OF wide e1(1) e2] by blast
qed

text \<open>
  A checkpoint describes a window when its cursor is inside the scanned part; then no slice is out of range.
\<close>

definition scan_ready :: "window_scan_config \<Rightarrow> bytes \<Rightarrow> nat \<Rightarrow> nat \<Rightarrow> nat \<Rightarrow> bool" where
  "scan_ready cfg w rs cursor fs \<longleftrightarrow> fs \<le> cursor \<and> cursor \<le> window_scan_end cfg w rs fs"

lemma scan_end_mono: "fs \<le> fs' \<Longrightarrow> window_scan_end cfg w rs fs \<le> window_scan_end cfg w rs fs'"
  unfolding window_scan_end_def sat_add_def by (intro min.mono add_mono order_refl) 

lemma scan_ready_later:
  "fs \<le> fs' \<Longrightarrow> fs' \<le> cursor \<Longrightarrow> cursor \<le> window_scan_end cfg w rs fs \<Longrightarrow> scan_ready cfg w rs cursor fs'"
  using scan_end_mono [of fs fs' cfg w rs] by (simp add: scan_ready_def)

definition scan_tails_wf :: "window_scan_config \<Rightarrow> bool" where
  "scan_tails_wf cfg \<longleftrightarrow> tail_width (wc_delimiter_tail cfg) = length (tail_slice (wc_delimiter_tail cfg)) + 1"

lemma quoted_at_ready:
  assumes "scan_tails_wf cfg" "fs \<le> at" "at < window_scan_end cfg w rs fs" "quoted_round_at cfg w rs fs at r = GoOn c' f' q'"
  shows "scan_ready cfg w rs c' f'"
proof -
  let ?n = "window_scan_end cfg w rs fs"
  let ?after = "if wc_permits_trailing_ws cfg then skip_blanks_within w (at + 1) ?n else at + 1"
  have far: "at + 1 < ?n"
    using assms(4) by (auto simp: quoted_round_at_def pause_at_def Let_def simp del: One_nat_def split: if_split_asm)
  then have near: "\<not> ?n \<le> at + 1" by simp
  have after: "at + 1 \<le> ?after" using skip_blanks_within_le by simp
  consider (escape) "c' = at + 2" "f' = fs" | (close) "\<not> ?n - (?after + 1) < length (tail_slice (wc_delimiter_tail cfg))"
      "\<not> (wc_permits_trailing_ws cfg \<and> ?n \<le> ?after)"
      "c' = ?after + tail_width (wc_delimiter_tail cfg)" "f' = c'"
  proof (cases "wc_escape cfg \<noteq> DoubleQuote \<and> w ! at = quoted_escape cfg")
    case True
    note run = assms(4) [unfolded quoted_round_at_def Let_def if_P [OF True] if_not_P [OF near]]
    show thesis using run that(1) by (simp split: if_splits)
  next
    case plain: False
    show thesis
    proof (cases "wc_escape cfg = DoubleQuote \<and> w ! (at + 1) = wc_quote cfg")
      case True
      note run = assms(4) [unfolded quoted_round_at_def Let_def if_not_P [OF plain] if_not_P [OF near] if_P [OF True]]
      show thesis using run that(1) by simp
    next
      case False
      note run = assms(4) [unfolded quoted_round_at_def Let_def if_not_P [OF plain] if_not_P [OF near] if_not_P [OF False] pause_at_def]
      note parts = closing_round [THEN iffD1, OF run]
      show thesis
      proof (rule that(2))
        show "\<not> ?n - (?after + 1) < length (tail_slice (wc_delimiter_tail cfg))"
          by (rule parts [THEN conjunct2, THEN conjunct2, THEN conjunct1])
        show "\<not> (wc_permits_trailing_ws cfg \<and> ?n \<le> ?after)" by (rule parts [THEN conjunct1])
        note ends = parts [THEN conjunct2, THEN conjunct2, THEN conjunct2, THEN conjunct2]
        show "c' = ?after + tail_width (wc_delimiter_tail cfg)" using ends by (simp only: round_result.inject)
        show "f' = c'" by (rule ends [unfolded round_result.inject, THEN conjunct2, THEN conjunct1, symmetric, THEN trans])
          (rule ends [unfolded round_result.inject, THEN conjunct1])
      qed
    qed
  qed
  then show ?thesis
  proof cases
    case escape
    then show ?thesis using far assms(2) by (simp add: scan_ready_def)
  next
    case close
    have "?after < ?n" using close(2) far by auto
    then have "c' \<le> ?n" using close(1,3) assms(1) [unfolded scan_tails_wf_def] by linarith
    moreover have "fs \<le> c'" using after assms(2) close(3) by linarith
    ultimately show ?thesis using scan_ready_later [of fs f'] close(4) by simp
  qed
qed

lemma unquoted_at_ready:
  assumes "scan_tails_wf cfg" "fs \<le> at" "at < window_scan_end cfg w rs fs" "unquoted_round_at cfg w rs fs at r = GoOn c' f' q'"
  shows "scan_ready cfg w rs c' f'"
proof -
  let ?n = "window_scan_end cfg w rs fs"
  have "(f' = fs \<or> f' = at \<or> f' = c') \<and> at \<le> c' \<and> c' \<le> ?n"
    using assms(1,3,4)
    by (auto simp: unquoted_round_at_def pause_at_def scan_tails_wf_def Let_def not_less not_le split: if_split_asm)
  then show ?thesis using assms(2) scan_ready_later [of fs f' c'] by auto
qed

lemma window_scan_ready:
  assumes "scan_tails_wf cfg" "scan_ready cfg w rs cursor fs"
  shows "case window_scan cfg w rs cursor fs q r of
      (r', Ok lacks) \<Rightarrow> lacks \<longrightarrow> rs_record_start r' = rs \<and> \<not> rs_ignored r' \<and> scan_ready cfg w rs (rs_scanned_to r') (rs_field_start r')
    | (r', Err er) \<Rightarrow> False
    | (r', Panic) \<Rightarrow> False"
  using assms
proof (induction cfg w rs cursor fs q r rule: window_scan.induct)
  case (1 cfg w rs cursor fs q r)
  let ?n = "window_scan_end cfg w rs fs"
  note eq = window_scan.simps [of cfg w rs cursor fs q r]
  have ready: "fs \<le> cursor" "cursor \<le> ?n" using 1(3) by (simp_all add: scan_ready_def)
  show ?case
  proof (cases "scan_round cfg w rs cursor fs q r")
    case (Answer x)
    show ?thesis
    proof (cases "snd x")
      case True
      then have "scan_round cfg w rs cursor fs q r = Answer (fst x, True)" using Answer by (cases x) simp
      then obtain at where "fst x = \<lparr>rs_record_start = rs, rs_scanned_to = at, rs_field_start = fs, rs_in_quotes = q, rs_ignored = False\<rparr>"
        "cursor \<le> at" "at \<le> ?n"
        by (rule round_pause) blast
      then show ?thesis using Answer ready by (cases x) (simp add: eq scan_ready_def)
    next
      case False
      then show ?thesis using Answer by (cases x) (simp add: eq)
    qed
  next
    case (GoOn c' f' q')
    obtain i where i: "cursor + i < ?n"
      "(if q then quoted_round_at cfg w rs fs (cursor + i) r else unquoted_round_at cfg w rs fs (cursor + i) r) = GoOn c' f' q'"
    proof -
      have run: "\<not> ?n < cursor" using ready by simp
      then obtain i where i: "position (\<lambda>b. b \<in> scan_stops cfg q) (slice w cursor ?n) = Some i"
        using GoOn by (auto simp: scan_round_stop Let_def pause_at_def split: option.splits)
      then have "cursor + i < ?n" using slice_index [OF position_less [OF i]] by blast
      then show thesis using that [of i] GoOn i run by (simp add: scan_round_stop Let_def split: if_splits)
    qed
    have "scan_ready cfg w rs c' f'"
      using i quoted_at_ready [OF 1(2) _ i(1)] unquoted_at_ready [OF 1(2) _ i(1)] ready(1) by (auto split: if_splits)
    then show ?thesis using 1(1) [OF GoOn 1(2)] GoOn by (simp add: eq)
  next
    case ScanPanic
    then show ?thesis using ready by (auto simp: scan_round_stop Let_def pause_at_def quoted_round_at_def unquoted_round_at_def split: option.splits if_splits)
  qed
qed


section \<open>Moving on in a window\<close>

definition seed_resume :: "nat \<Rightarrow> engine \<Rightarrow> engine" where
  "seed_resume record_start e =
     (if rs_record_start (en_resume e) \<noteq> record_start then e\<lparr>en_resume := resume_fresh record_start\<rparr> else e)"

definition checkpoint_after_parse :: "bytes \<Rightarrow> nat \<Rightarrow> nat outcome \<Rightarrow> engine \<Rightarrow> engine" where
  "checkpoint_after_parse input record_start res e =
     (case res of
        Ok until \<Rightarrow> if \<not> window_settled input until e then seed_resume record_start e else e
      | Err er \<Rightarrow> if truncated_by_window er (length input) (separator_lookahead e) then seed_resume record_start e else e
      | Panic \<Rightarrow> e)"

definition ensure_headers_window :: "bytes \<Rightarrow> (headed, bool) act" where
  "ensure_headers_window input h =
     (if \<not> he_consume_first_record h then (h\<lparr>he_initialized := True\<rparr>, Ok True)
      else case fill_record_spans None input True (he_engine h) of
             (e, Err er) \<Rightarrow> (h\<lparr>he_engine := e\<rparr>, Err er)
           | (e, Panic) \<Rightarrow> (h\<lparr>he_engine := e\<rparr>, Panic)
           | (e, Ok None) \<Rightarrow> (h\<lparr>he_engine := e\<rparr>, Ok False)
           | (e, Ok (Some ((origin, until), _))) \<Rightarrow>
               (if until = length input then (h\<lparr>he_engine := e\<rparr>, Ok False)
                else case record_entries input e of
                       Ok entries \<Rightarrow>
                         ((on_headers_changed (h\<lparr>he_engine := e, he_record := Some (names_of entries)\<rparr>))
                            \<lparr>he_initialized := True\<rparr>, Ok True)
                     | Err er \<Rightarrow> (h\<lparr>he_engine := e\<rparr>, Err er)
                     | Panic \<Rightarrow> (h\<lparr>he_engine := e\<rparr>, Panic)))"

text \<open>Where the next record ends, or \<open>None\<close> when this window does not hold it.\<close>

definition parse_positioned_window :: "format_options option \<Rightarrow> bytes \<Rightarrow> nat \<Rightarrow> nat option move" where
  "parse_positioned_window opts input record_start c =
     (case materialize_full opts input c of
        (c1, res) \<Rightarrow>
          let end_of = map_ok (\<lambda>((_, until), _). until) res
          in (set_engine (checkpoint_after_parse input record_start end_of (cu_engine c1)) c1, map_ok Some end_of))"

definition try_advance_window :: "format_options option \<Rightarrow> bytes \<Rightarrow> nat option move" where
  "try_advance_window opts input c =
     (let e = cu_engine c
      in if en_failed e then (c, Err (engine_error e input ParserFailed (en_location e)))
         else bind_step
           (if he_initialized (cu_headed c) then return_step True else on_headed (ensure_headers_window input))
           (\<lambda>ready. if \<not> ready then return_step None
             else bind_step (settle opts input) (\<lambda>_. bind_step (position_next input) (\<lambda>found.
               if \<not> found then return_step None
               else (\<lambda>c1. let record_start = en_location (cu_engine c1)
                 in if rs_record_start (en_resume (cu_engine c1)) = record_start
                    then bind_step (on_engine (window_lacks_record opts input)) (\<lambda>lacks.
                      if lacks then return_step None else parse_positioned_window opts input record_start) c1
                    else parse_positioned_window opts input record_start c1)))) c)"

datatype window_advance = Record | NeedMore | Done

definition found_to_advance :: "bool \<Rightarrow> window_advance" where
  "found_to_advance found = (if found then Record else Done)"

definition rewind_chunk_or_fail :: "chunk_cursor_state \<Rightarrow> error \<Rightarrow> nat \<Rightarrow> window_advance move" where
  "rewind_chunk_or_fail saved er len c =
     (if truncated_by_window er len (separator_lookahead (cu_engine c)) then (restore_chunk_cursor saved c, Ok NeedMore)
      else (c, Err er))"

definition advance_window :: "format_options option \<Rightarrow> bytes \<Rightarrow> bool \<Rightarrow> window_advance move" where
  "advance_window opts input at_eof c =
     (if at_eof then bind_step (advance_line opts input) (\<lambda>found. return_step (found_to_advance found)) c
      else let saved = chunk_cursor_state_of c
        in case try_advance_window opts input c of
             (c', Ok (Some until)) \<Rightarrow>
               (if window_settled input until (cu_engine c') then (c', Ok Record)
                else (restore_chunk_cursor saved c', Ok NeedMore))
           | (c', Ok None) \<Rightarrow> (restore_chunk_cursor saved c', Ok NeedMore)
           | (c', Err er) \<Rightarrow> rewind_chunk_or_fail saved er (length input) c'
           | (c', Panic) \<Rightarrow> (c', Panic))"

text \<open>The readers over a stream keep the whole cursor, since a view may still be out.\<close>

definition rewind_or_fail :: "cursor_state \<Rightarrow> error \<Rightarrow> nat \<Rightarrow> window_advance move" where
  "rewind_or_fail saved er len c =
     (if truncated_by_window er len (separator_lookahead (cu_engine c)) then (restore_cursor saved c, Ok NeedMore)
      else (c, Err er))"

definition position_lazily :: "format_options option \<Rightarrow> bytes \<Rightarrow> window_advance move" where
  "position_lazily opts input = bind_step (advance_line opts input) (\<lambda>found. return_step (found_to_advance found))"

definition rewind_or_position_lazily :: "format_options option \<Rightarrow> cursor_state \<Rightarrow> error \<Rightarrow> bytes \<Rightarrow> window_advance move" where
  "rewind_or_position_lazily opts saved er input c =
     (let c1 = restore_cursor saved c
      in if truncated_by_window er (length input) (separator_lookahead (cu_engine c1)) then (c1, Ok NeedMore)
         else position_lazily opts input c1)"

definition advance_window_lazily :: "format_options option \<Rightarrow> bytes \<Rightarrow> bool \<Rightarrow> window_advance move" where
  "advance_window_lazily opts input at_eof c =
     (if at_eof then position_lazily opts input c
      else let saved = cursor_state_of c
        in case try_advance_window opts input c of
             (c', Ok (Some until)) \<Rightarrow>
               (if window_settled input until (cu_engine c') then (c', Ok Record) else (restore_cursor saved c', Ok NeedMore))
           | (c', Ok None) \<Rightarrow> (restore_cursor saved c', Ok NeedMore)
           | (c', Err er) \<Rightarrow> rewind_or_position_lazily opts saved er input c'
           | (c', Panic) \<Rightarrow> (c', Panic))"

definition advance_window_eagerly :: "format_options option \<Rightarrow> bytes \<Rightarrow> bool \<Rightarrow> window_advance move" where
  "advance_window_eagerly opts input at_eof c =
     (if \<not> at_eof then
        (let saved = cursor_state_of c
         in case try_advance_window opts input c of
              (c', Ok (Some until)) \<Rightarrow>
                (if window_settled input until (cu_engine c') then (c', Ok Record) else (restore_cursor saved c', Ok NeedMore))
            | (c', Ok None) \<Rightarrow> (restore_cursor saved c', Ok NeedMore)
            | (c', Err er) \<Rightarrow> rewind_or_fail saved er (length input) c'
            | (c', Panic) \<Rightarrow> (c', Panic))
      else if en_failed (cu_engine c)
      then (c, Err (engine_error (cu_engine c) input ParserFailed (en_location (cu_engine c))))
      else bind_step (on_headed (ensure_headers input)) (\<lambda>_. bind_step (settle opts input) (\<lambda>_.
        bind_step (position_next input) (\<lambda>found. if \<not> found then return_step Done
          else bind_step (materialize_full opts input) (\<lambda>_. return_step Record)))) c)"

definition headers_window :: "bytes \<Rightarrow> bool \<Rightarrow> bool move" where
  "headers_window input at_eof c =
     (let initialized = (\<lambda>c1. (c1, Ok (he_initialized (cu_headed c1))))
      in if he_initialized (cu_headed c) then (c, Ok True)
      else if at_eof then bind_step (on_headed (ensure_headers input)) (\<lambda>_. initialized) c
      else let saved = cursor_state_of c
        in case on_headed (ensure_headers_window input) c of
             (c1, Ok True) \<Rightarrow> initialized c1
           | (c1, Ok False) \<Rightarrow> (restore_cursor saved c1, Ok False)
           | (c1, Err er) \<Rightarrow>
               (let c2 = restore_cursor saved c1
                in if truncated_by_window er (length input) (separator_lookahead (cu_engine c2)) then (c2, Ok False)
                   else bind_step (on_headed (ensure_headers input)) (\<lambda>_. initialized) c2)
           | (c1, Panic) \<Rightarrow> (c1, Panic))"

definition ended_on_terminator :: "format_options option \<Rightarrow> bytes \<Rightarrow> engine \<Rightarrow> bool" where
  "ended_on_terminator opts input e =
     (let t = ending_tail (en_dialect e)
      in tail_width t \<le> en_location e \<and>
         (let lead_at = en_location e - tail_width t
          in get_at input lead_at = Some (fmt_terminator opts e) \<and>
             tail_confirms t (slice input (lead_at + 1) (en_location e))))"

section \<open>Compacting the window\<close>

definition window_anchor :: "line_cursor \<Rightarrow> nat" where
  "window_anchor c =
     (let e = cu_engine c; cursor = min (cu_start c) (en_location e)
      in if rs_ignored (en_resume e) then min cursor (rs_scanned_to (en_resume e)) else cursor)"

definition io_window_anchor :: "line_cursor \<Rightarrow> nat" where
  "io_window_anchor c =
     (let anchor = window_anchor c; r = en_resume (cu_engine c)
      in if cu_start c = NO_OFFSET \<and> \<not> rs_ignored r \<and> rs_record_start r \<noteq> NO_OFFSET
         then max anchor (rs_record_start r) else anchor)"

definition shift_resume :: "nat \<Rightarrow> resume_state \<Rightarrow> resume_state" where
  "shift_resume by_bytes r =
     (if rs_record_start r = NO_OFFSET then r
      else if rs_ignored r \<and> rs_record_start r < by_bytes
      then r\<lparr>rs_record_start := 0, rs_scanned_to := rs_scanned_to r - by_bytes, rs_field_start := 0\<rparr>
      else if by_bytes \<le> rs_record_start r \<and> by_bytes \<le> rs_scanned_to r \<and> by_bytes \<le> rs_field_start r
      then r\<lparr>rs_record_start := rs_record_start r - by_bytes, rs_scanned_to := rs_scanned_to r - by_bytes,
             rs_field_start := rs_field_start r - by_bytes\<rparr>
      else resume_new)"

text \<open>The lines given up with the dropped bytes, and those the kept tally still holds.\<close>

definition split_tally :: "bool \<Rightarrow> bytes \<Rightarrow> nat \<Rightarrow> engine \<Rightarrow> nat \<times> nat option" where
  "split_tally avx2 window by_bytes e =
     (if by_bytes \<le> en_folded_upto e \<and> en_folded_upto e \<le> length window then
        (if en_line_origin e \<le> by_bytes then
           (let overshot = count1 avx2 LF (slice window by_bytes (en_folded_upto e))
            in (en_folded_lines e - overshot, Some overshot))
         else (0, Some (en_folded_lines e)))
      else (count1 avx2 LF (slice window (min (en_line_origin e) by_bytes) by_bytes), None))"

text \<open>A drop past the window, or past a record a view still holds, panics.\<close>

definition shift_window :: "bool \<Rightarrow> bytes \<Rightarrow> nat \<Rightarrow> unit move" where
  "shift_window avx2 window by_bytes c =
     (let e = cu_engine c
      in if by_bytes = 0 then (c, Ok ())
      else if length window < by_bytes \<or> cu_start c \<noteq> NO_OFFSET \<and> cu_start c < by_bytes \<or>
              cu_end c \<noteq> NO_OFFSET \<and> cu_end c < by_bytes
      then (c, Panic)
      else case split_tally avx2 window by_bytes e of
        (dropped, carried) \<Rightarrow>
          (let origin = en_line_origin e - by_bytes
           in ((set_engine (e\<lparr>en_line_base := sat_add (en_line_base e) dropped, en_line_origin := origin,
                  en_location := en_location e - by_bytes, en_resume := shift_resume by_bytes (en_resume e),
                  en_folded_upto := (if carried = None then origin else en_folded_upto e - by_bytes),
                  en_folded_lines := (case carried of None \<Rightarrow> 0 | Some lines \<Rightarrow> lines)\<rparr>) c)
                 \<lparr>cu_start := (if cu_start c = NO_OFFSET then NO_OFFSET else cu_start c - by_bytes),
                  cu_end := (if cu_end c = NO_OFFSET then NO_OFFSET else cu_end c - by_bytes)\<rparr>, Ok ())))"

text \<open>
  What the tally promises: it holds the lines from the line origin up to where it was folded.
\<close>

definition tally_kept :: "bytes \<Rightarrow> engine \<Rightarrow> bool" where
  "tally_kept window e \<longleftrightarrow>
     en_line_origin e \<le> en_folded_upto e \<and> en_folded_upto e \<le> length window \<and>
     en_folded_lines e = count1_scalar LF (slice window (en_line_origin e) (en_folded_upto e))"

lemma slice_of_drop: "slice (drop n xs) a b = slice xs (a + n) (b + n)"
  by (simp add: slice_def add.commute)

lemma count1_nothing: "count1_scalar x [] = 0"
  by (simp add: count1_scalar_def)

lemma count_slices:
  "a \<le> b \<Longrightarrow> b \<le> c \<Longrightarrow> count1_scalar x (slice w a c) = count1_scalar x (slice w a b) + count1_scalar x (slice w b c)"
  by (simp add: slice_split [of a b c] count1_scalar_append)

text \<open>The lines the tally gives up are those before the drop, and what it keeps is the tally of the rest.\<close>

lemma split_tally_exact:
  assumes "tally_kept w e" "by_bytes \<le> length w" "split_tally avx2 w by_bytes e = (dropped, carried)"
  shows "dropped = count1_scalar LF (slice w (min (en_line_origin e) by_bytes) by_bytes)"
    "carried = (if by_bytes \<le> en_folded_upto e
       then Some (count1_scalar LF (slice w (max (en_line_origin e) by_bytes) (en_folded_upto e))) else None)"
proof -
  have t: "en_line_origin e \<le> en_folded_upto e" "en_folded_upto e \<le> length w"
    "en_folded_lines e = count1_scalar LF (slice w (en_line_origin e) (en_folded_upto e))"
    using assms(1) by (simp_all add: tally_kept_def)
  have "dropped = count1_scalar LF (slice w (min (en_line_origin e) by_bytes) by_bytes) \<and>
    carried = (if by_bytes \<le> en_folded_upto e
       then Some (count1_scalar LF (slice w (max (en_line_origin e) by_bytes) (en_folded_upto e))) else None)"
  proof (cases "by_bytes \<le> en_folded_upto e")
    case folded: True
    show ?thesis
    proof (cases "en_line_origin e \<le> by_bytes")
      case True
      then have "en_folded_lines e = count1_scalar LF (slice w (en_line_origin e) by_bytes) +
          count1_scalar LF (slice w by_bytes (en_folded_upto e))"
        using count_slices [OF True folded] t(3) by simp
      then show ?thesis using assms(3) t(2) folded True
        by (simp add: split_tally_def count1_eq Let_def min_absorb1 max_absorb2)
    next
      case False
      then show ?thesis using assms(3) t(2,3) folded
        by (simp add: split_tally_def count1_nothing min_absorb2 max_absorb1)
    qed
  next
    case False
    then show ?thesis using assms(3) t(1) by (simp add: split_tally_def count1_eq)
  qed
  then show "dropped = count1_scalar LF (slice w (min (en_line_origin e) by_bytes) by_bytes)"
    "carried = (if by_bytes \<le> en_folded_upto e
       then Some (count1_scalar LF (slice w (max (en_line_origin e) by_bytes) (en_folded_upto e))) else None)"
    by simp_all
qed

lemma sat_add_twice: "sat_add (sat_add a b) c = sat_add a (b + c)"
  by (simp add: sat_add_def)

lemma line_after_drop:
  assumes "by_bytes \<le> at" "by_bytes \<le> length w"
  shows "physical_line (drop by_bytes w)
      (sat_add base (count1_scalar LF (slice w (min origin by_bytes) by_bytes))) (origin - by_bytes) (at - by_bytes)
    = physical_line w base origin at"
proof -
  let ?u = "min at (length w)"
  have u: "by_bytes \<le> ?u" using assms by simp
  have shifted: "min (at - by_bytes) (length w - by_bytes) = ?u - by_bytes" by auto
  have "count1_scalar LF (slice w (min origin by_bytes) by_bytes) +
      count1_scalar LF (slice (drop by_bytes w) (min (origin - by_bytes) (?u - by_bytes)) (?u - by_bytes)) =
    count1_scalar LF (slice w (min origin ?u) ?u)"
  proof (cases "origin \<le> by_bytes")
    case True
    then show ?thesis using u count_slices [of origin by_bytes ?u LF w] by (simp add: slice_of_drop min_absorb1)
  next
    case False
    then have "min (origin - by_bytes) (?u - by_bytes) + by_bytes = min origin ?u" using u by auto
    then show ?thesis using u False by (simp add: slice_of_drop min_absorb2 count1_nothing)
  qed
  then show ?thesis unfolding physical_line_def Let_def length_drop shifted sat_add_twice by (rule arg_cong)
qed

text \<open>
  C18: Compacting the window loses no line. When the bytes in front of a position that nothing holds are
  dropped, every byte that stays is reported on the line it was on, and the tally of the lines folded in
  while parsing is again exact for what is left.
\<close>

theorem compaction_keeps_lines:
  assumes "tally_kept window (cu_engine c)" "by_bytes \<le> length window" "shift_window avx2 window by_bytes c = (c', Ok ())"
  shows "tally_kept (drop by_bytes window) (cu_engine c') \<and>
    (\<forall>at \<ge> by_bytes. physical_line (drop by_bytes window) (en_line_base (cu_engine c')) (en_line_origin (cu_engine c')) (at - by_bytes)
       = physical_line window (en_line_base (cu_engine c)) (en_line_origin (cu_engine c)) at)"
proof (cases "by_bytes = 0")
  case True
  then show ?thesis using assms by (auto simp: shift_window_def Let_def)
next
  case False
  let ?e = "cu_engine c" and ?e' = "cu_engine c'"
  obtain dropped carried where s: "split_tally avx2 window by_bytes ?e = (dropped, carried)" by fastforce
  note exact = split_tally_exact [OF assms(1,2) s]
  have e': "en_line_base ?e' = sat_add (en_line_base ?e) dropped" "en_line_origin ?e' = en_line_origin ?e - by_bytes"
    "en_folded_upto ?e' = (if carried = None then en_line_origin ?e - by_bytes else en_folded_upto ?e - by_bytes)"
    "en_folded_lines ?e' = (case carried of None \<Rightarrow> 0 | Some lines \<Rightarrow> lines)"
    using assms(3) False s by (auto simp: shift_window_def Let_def split: if_splits)
  have t: "en_line_origin ?e \<le> en_folded_upto ?e" "en_folded_upto ?e \<le> length window"
    using assms(1) by (simp_all add: tally_kept_def)
  have "tally_kept (drop by_bytes window) ?e'"
  proof (cases "by_bytes \<le> en_folded_upto ?e")
    case True
    then have "en_line_origin ?e - by_bytes + by_bytes = max (en_line_origin ?e) by_bytes" by simp
    moreover have "en_folded_upto ?e - by_bytes + by_bytes = en_folded_upto ?e" using True by simp
    ultimately show ?thesis
      using e'(2-4) exact(2) True diff_le_mono [OF t(1)] diff_le_mono [OF t(2)]
      by (simp only: tally_kept_def slice_of_drop length_drop if_True if_False option.simps simp_thms)
  next
    case False
    then show ?thesis using e' exact t by (simp add: tally_kept_def count1_nothing)
  qed
  then show ?thesis using line_after_drop [OF _ assms(2)] e'(1,2) exact(1) by simp
qed

text \<open>The sample cursor over its line and one byte more; the line is dropped.\<close>

theorem compaction_keeps_lines_witness:
  "\<exists>c'. shift_window True [97, 44, 98, 10, 99] 4 sample_cursor = (c', Ok ()) \<and>
     physical_line [99] (en_line_base (cu_engine c')) (en_line_origin (cu_engine c')) 0 = 2"
proof -
  let ?w = "[97, 44, 98, 10, 99 :: byte]"
  have e: "en_line_base sample_engine = 1" "en_line_origin sample_engine = 0" "en_folded_upto sample_engine = 0"
    "en_folded_lines sample_engine = 0"
    by (simp_all add: sample_eval)
  note e = e count1_nothing
  have "tally_kept ?w (cu_engine sample_cursor)" by (simp add: tally_kept_def sample_cursor_engine e)
  moreover obtain c' where run: "shift_window True ?w 4 sample_cursor = (c', Ok ())"
  proof -
    have "cu_start sample_cursor = NO_OFFSET" "cu_end sample_cursor = NO_OFFSET"
      by (simp_all add: sample_cursor_def cursor_from_config_def)
    then show thesis using that by (cases "split_tally True ?w 4 (cu_engine sample_cursor)") (simp add: shift_window_def Let_def)
  qed
  ultimately have "physical_line (drop 4 ?w) (en_line_base (cu_engine c')) (en_line_origin (cu_engine c')) (4 - 4)
       = physical_line ?w (en_line_base (cu_engine sample_cursor)) (en_line_origin (cu_engine sample_cursor)) 4"
    using compaction_keeps_lines [OF _ _ run] by auto
  moreover have "physical_line ?w 1 0 4 = 2" by (simp add: physical_line_def slice_def sat_add_def usize_max_def count1_scalar_def)
  ultimately show ?thesis using run by (simp add: sample_cursor_engine e)
qed

end
