(* ===== verification/Spec2Isabelle.thy ===== *)
theory Spec2Isabelle
  imports Search IndexFile Emitter Safety Kernel Headers RecordFilter OwnedRecords Construction Widening Window
begin

text \<open>
  A verification development of \<open>coseva\<close>, a CSV library in Rust (\<open>crates/coseva\<close>, with its unsafe
  kernels in \<open>crates/coseva_unsafe\<close>; paths below are relative to them).

  The program. Options name a format: a dialect (delimiter, quote, escape, record ending, comment)
  and the policies around it. An engine built from the options holds the reading position, the
  packed spans of the current record and the header record. A cursor over the engine moves from
  record to record and parses one only when it is viewed; front ends for slices, chunks and readers
  drive it. On the other side emitters frame records into a buffer under the same format. An index
  file stores the byte offset and line of every record. Searching for structural bytes, the packed
  spans and the owned records lie below all of them.

  The theories, each over the ones it imports:
  \<^item> \<open>Prelude\<close>, \<open>Errors\<close>: bytes, slices, saturating arithmetic, first positions; errors
    (\<open>error/\<close>) and outcomes. A result is \<open>Ok\<close>, \<open>Err\<close> or \<open>Panic\<close>; \<open>Panic\<close> is every failed
    \<open>assert!\<close> and \<open>expect\<close>, every index out of range and every unreachable branch of the source. The build is
    one without debug assertions: a \<open>debug_assert!\<close>, as in \<open>PushEmitter::commit\<close>, \<open>seek_to_exact\<close>,
    \<open>mark_null_fields\<close> and \<open>window_lacks_record\<close>, is not part of the model.
  \<^item> \<open>Search\<close>, \<open>TwoWay\<close>: \<open>coseva_unsafe/src/search.rs\<close>, the byte searches, the block iterator with
    its bit masks, counting, and the two-way literal search. Each equals its plain definition by
    first positions.
  \<^item> \<open>Config\<close>: \<open>config/\<close>, the dialect with its validity check, the built-in dialects and formats.
  \<^item> \<open>IndexFormat\<close>, \<open>IndexFile\<close>: \<open>index/format.rs\<close>, \<open>index/csv_index.rs\<close>,
    \<open>index/csv_index_reader.rs\<close>. The contract \<open>codec\<close> of an encoder and its decoder is interpreted on
    every item of the header; a saved index is loaded back, the lazy reader agrees with the loader,
    arbitrary bytes never make it panic.
  \<^item> \<open>Emit\<close>, \<open>Emitter\<close>: \<open>emit.rs\<close>, \<open>push_emitter.rs\<close>. Writers thread the output buffer, so a failing
    one shows what it had written; emission appends one record or nothing, and the specialised record
    loops, the visitor and the word-at-a-time scans agree with the plain ones.
  \<^item> \<open>Spans\<close>: \<open>coseva_unsafe/src/span.rs\<close>, packed 64-bit spans and their storage; every span an
    operation leaves resolves inside its buffer (locale \<open>storage_operation\<close>).
  \<^item> \<open>Engine\<close>, \<open>Parser\<close>, \<open>Framing\<close>: \<open>engine.rs\<close> and \<open>engine/construct.rs\<close>, \<open>format_access.rs\<close>,
    \<open>limits.rs\<close>, \<open>borrowed_parser.rs\<close>, \<open>framing.rs\<close>: the state, the field parsers, the plain kernel, the
    ignored records and the reading of one record.
  \<^item> \<open>Safety\<close>, \<open>PlainFields\<close>, \<open>Kernel\<close>: no panic, limits, termination (locale \<open>field_parser\<close>); for a
    dialect of single bytes and a window within the field limit, the plain kernel accepts only what the
    general field loop accepts, with the same fields.
  \<^item> \<open>HeaderLookup\<close>, \<open>Columns\<close>, \<open>Headers\<close>: \<open>engine/header_lookup.rs\<close>, \<open>engine/scanner.rs\<close>,
    \<open>engine/headers.rs\<close>: names to columns through a hash table with a collision walk, the two column
    resolvers, the caches over the header record and their invariant.
  \<^item> \<open>ReadBack\<close>, \<open>RoundTrip\<close>: what an emitter wrote is what the record parser reads, for the formats
    that \<open>reads_back\<close> describes (quoting on and not \<open>Raw\<close>, no NULL markers, no trimming, no escapes outside quotes, dialects of
    single bytes) and within the limits.
  \<^item> \<open>Cursor\<close>, \<open>SliceParser\<close>, \<open>Counted\<close>, \<open>Replay\<close>: \<open>engine/cursor.rs\<close>, \<open>engine/access.rs\<close>, \<open>slice_parser.rs\<close>,
    \<open>config/parse_options.rs\<close>: lazy lines refine eager reading, the round trip from emitter to slice
    parser, and a parser that seeks to a record reads it and all after it as before, with or without a
    header record; a field count once learned stays.
  \<^item> \<open>LineRecord\<close>, \<open>RecordFilter\<close>: \<open>filter.rs\<close> and the filtering advance of the cursor: a filter yields
    the matching records of the full reading, of an input read without error, although the literal scan passes most unparsed (locale
    \<open>filter_loop\<close>).
  \<^item> \<open>RecordStorage\<close>, \<open>OwnedRecords\<close>: \<open>coseva_unsafe/src/record.rs\<close>, \<open>byte_record.rs\<close>,
    \<open>text_record.rs\<close>: owned records over packed field ends, refined to lists of optional fields, with
    the checked and the lossy conversion to text (locale \<open>field_record\<close>).
  \<^item> \<open>Construction\<close>: \<open>engine/construct.rs\<close>, the whole engine with the vectorised parsers it selects, its
    construction over a whole input or a growing window, and its reset, which is not the same as either.
  \<^item> \<open>Widening\<close>: a record that is settled inside a window is the first record of every wider window
    where the dialect keeps its separators apart from its record endings, which is what lets the chunked front ends hand it out.
  \<^item> \<open>Window\<close>: the windows of \<open>engine/cursor.rs\<close>: an advance answers with a record that is settled or
    puts the cursor back; the boundary scan goes on from its checkpoint in a wider window, and dropping the
    front of the window keeps the line numbers.

  Bounds and fuel. Offsets are natural numbers, since they are bounded by the length of an allocation;
  where the code saturates or packs flags into a word the model does too. \<open>records_of\<close>,
  \<open>read_lines\<close>, \<open>read_records\<close> and \<open>read_matching\<close> stand for a caller's loop and have fuel; one call per
  byte and one or two more are enough, as every record takes at least one byte (\<open>reading_ends\<close>). The
  filter loops have fuel for one step per byte. A walk of the header lookup is an option, as it would
  not return from a table of \<open>2 ^ 64\<close> keys; the theorems show that it returns. A format parameter is
  an option, \<open>None\<close> for the format configured at run time.

  Parameters. The checksum of the \<open>xxhash\<close> crate is an arbitrary function. \<open>avx2\<close> says whether the
  processor has the vector unit, and the theorems hold for both.

  Not modelled: the chunked front ends themselves (\<open>io_parser.rs\<close>, \<open>push.rs\<close>), the buffers and
  refills around the modelled windows, and the staging of owned records in a window; the streaming
  emitters, which add I/O to the modelled ones; the vectorised parsers into owned records
  (\<open>engine/owned_parser.rs\<close>, \<open>coseva_unsafe/src/record.rs\<close>), of which only the selection is modelled, with the
  ASCII certificate they give a record, and the default-CSV fast path that exists on x86-64 only; threads (\<open>parallel.rs\<close>); Serde, the derive macros
  and the typed codecs, which are trait plumbing around the modelled resolution of columns; capacities
  of buffers, which no answer depends on.
\<close>

end
